(* ===== verification/PG_Prelude.thy ===== *)
theory PG_Prelude
  imports Main "HOL-Library.Word" "HOL-Library.Monad_Syntax"
begin

text \<open>
  Shared vocabulary of the development: the C integer types of
  \<^verbatim>\<open>src/include/c.h\<close> as words, the error values raised by
  \<^verbatim>\<open>elog(ERROR, ...)\<close> and \<^verbatim>\<open>ereport(ERROR, ...)\<close>, the byte order of
  memory, and the generic lemmas on lists and words that several components use.
\<close>

unbundle bit_operations_syntax

section \<open>C integer types\<close>

type_synonym uint8 = "8 word"
type_synonym uint16 = "16 word"
type_synonym uint32 = "32 word"
type_synonym uint64 = "64 word"

section \<open>Errors\<close>

text \<open>
  A call that ends in \<^verbatim>\<open>elog(ERROR, msg)\<close> or \<^verbatim>\<open>ereport(ERROR, ...)\<close> does not return;
  it is the left value of a sum. \<open>Elog\<close> carries the message of an \<^verbatim>\<open>elog\<close>;
  \<open>Ereport\<close> carries the symbolic SQLSTATE of an \<^verbatim>\<open>ereport\<close>.
\<close>

datatype errcode =
    ERRCODE_NUMERIC_VALUE_OUT_OF_RANGE
  | ERRCODE_DIVISION_BY_ZERO
  | ERRCODE_INVALID_PARAMETER_VALUE
  | ERRCODE_DATA_CORRUPTED
  | ERRCODE_PROGRAM_LIMIT_EXCEEDED
  | ERRCODE_WRONG_OBJECT_TYPE
  | ERRCODE_UNDEFINED_OBJECT
  | ERRCODE_UNDEFINED_TABLE
  | ERRCODE_UNDEFINED_COLUMN
  | ERRCODE_DUPLICATE_TABLE
  | ERRCODE_INVALID_OBJECT_DEFINITION
  | ERRCODE_TOO_MANY_COLUMNS
  | ERRCODE_FEATURE_NOT_SUPPORTED
  | ERRCODE_INSUFFICIENT_PRIVILEGE
  | ERRCODE_TOO_MANY_CONNECTIONS
  | ERRCODE_ACTIVE_SQL_TRANSACTION
  | ERRCODE_NO_ACTIVE_SQL_TRANSACTION
  | ERRCODE_S_E_INVALID_SPECIFICATION
  | ERRCODE_IN_FAILED_SQL_TRANSACTION
  | ERRCODE_READ_ONLY_SQL_TRANSACTION

datatype pg_error = Elog string | Ereport errcode

section \<open>Memory order\<close>

text \<open>
  The four bytes that a \<^verbatim>\<open>uint32\<close> occupies in memory, lowest address first, and the
  \<^verbatim>\<open>uint32\<close> read back from four bytes. \<open>be\<close> is true when
  \<^verbatim>\<open>WORDS_BIGENDIAN\<close> is defined.
\<close>

definition bytes_of_uint32 :: "bool \<Rightarrow> uint32 \<Rightarrow> uint8 list" where
  "bytes_of_uint32 be w =
     (let bs = [ucast w, ucast (drop_bit 8 w), ucast (drop_bit 16 w), ucast (drop_bit 24 w)]
      in if be then rev bs else bs)"

definition load_uint32 :: "bool \<Rightarrow> uint8 \<Rightarrow> uint8 \<Rightarrow> uint8 \<Rightarrow> uint8 \<Rightarrow> uint32" where
  "load_uint32 be b0 b1 b2 b3 =
     (if be
      then push_bit 24 (ucast b0) OR push_bit 16 (ucast b1) OR push_bit 8 (ucast b2) OR ucast b3
      else ucast b0 OR push_bit 8 (ucast b1) OR push_bit 16 (ucast b2) OR push_bit 24 (ucast b3))"

section \<open>Loops over an array\<close>

text \<open>
  \<open>for_update lo hi f xs\<close> is the loop
  \<^verbatim>\<open>for (i = lo; i < hi; i++) xs[i] = f(i, xs[i])\<close>.
\<close>

definition for_update :: "nat \<Rightarrow> nat \<Rightarrow> (nat \<Rightarrow> 'a \<Rightarrow> 'a) \<Rightarrow> 'a list \<Rightarrow> 'a list" where
  "for_update lo hi f xs = fold (\<lambda>i ys. ys[i := f i (ys ! i)]) [lo..<hi] xs"

lemma for_update_Suc:
  "lo \<le> hi \<Longrightarrow> for_update lo (Suc hi) f xs =
     (for_update lo hi f xs)[hi := f hi (for_update lo hi f xs ! hi)]"
  by (simp add: for_update_def)

lemma for_update_empty [simp]: "hi \<le> lo \<Longrightarrow> for_update lo hi f xs = xs"
  by (simp add: for_update_def)

lemma length_for_update [simp]: "length (for_update lo hi f xs) = length xs"
proof (induction hi)
  case (Suc hi)
  then show ?case
    by (cases "lo \<le> hi") (simp_all add: for_update_Suc)
qed simp

lemma nth_for_update:
  "j < length xs \<Longrightarrow>
   for_update lo hi f xs ! j = (if lo \<le> j \<and> j < hi then f j (xs ! j) else xs ! j)"
proof (induction hi)
  case (Suc hi)
  then show ?case
    by (cases "lo \<le> hi") (auto simp: for_update_Suc nth_list_update less_Suc_eq)
qed simp

section \<open>Build configuration and alignment\<close>

text \<open>
  The block size and the maximum alignment are chosen when the server is
  configured; the development uses the defaults (8192 bytes, 8 bytes).
  \<^verbatim>\<open>TYPEALIGN\<close> clears the low bits of a sum; for a power of two this is rounding
  up to a multiple.
\<close>

definition BLCKSZ :: nat where
  "BLCKSZ = 8192"

definition MAXIMUM_ALIGNOF :: nat where
  "MAXIMUM_ALIGNOF = 8"

definition TYPEALIGN :: "nat \<Rightarrow> nat \<Rightarrow> nat" where
  "TYPEALIGN alignval len = (len + (alignval - 1)) div alignval * alignval"

definition MAXALIGN :: "nat \<Rightarrow> nat" where
  "MAXALIGN len = TYPEALIGN MAXIMUM_ALIGNOF len"

text \<open>Offset of the line pointer array in a page header, and the size of a line pointer.\<close>

definition SizeOfPageHeaderData :: nat where
  "SizeOfPageHeaderData = 8 + 2 + 2 + 2 + 2 + 2 + 2 + 4"

definition sizeof_ItemIdData :: nat where
  "sizeof_ItemIdData = 4"

lemma MAXALIGN_eq: "MAXALIGN n = (n + 7) div 8 * 8"
  by (simp add: MAXALIGN_def TYPEALIGN_def MAXIMUM_ALIGNOF_def)

lemma MAXALIGN_ge: "n \<le> MAXALIGN n" and MAXALIGN_less: "MAXALIGN n < n + 8"
  by (simp_all add: MAXALIGN_eq)

section \<open>Bits of words\<close>

text \<open>The position of the rightmost one bit of a nonzero word.\<close>

definition lsb_pos :: "'a::len word \<Rightarrow> nat" where
  "lsb_pos w = (LEAST n. bit w n)"

lemma word_nonzero_bit: "w \<noteq> 0 \<Longrightarrow> \<exists>n. bit (w :: 'a::len word) n"
  using bit_eq_iff [of w 0] by auto

lemma bit_lsb_pos: "w \<noteq> 0 \<Longrightarrow> bit (w :: 'a::len word) (lsb_pos w)"
  using word_nonzero_bit unfolding lsb_pos_def by (rule LeastI_ex)

lemma not_bit_below_lsb: "i < lsb_pos w \<Longrightarrow> \<not> bit (w :: 'a::len word) i"
  unfolding lsb_pos_def by (rule not_less_Least)

lemma lsb_pos_le: "bit w n \<Longrightarrow> lsb_pos (w :: 'a::len word) \<le> n"
  using not_bit_below_lsb by (metis not_le)

lemma lsb_pos_eqI: "bit w n \<Longrightarrow> (\<And>i. i < n \<Longrightarrow> \<not> bit w i) \<Longrightarrow> lsb_pos (w :: 'a::len word) = n"
  unfolding lsb_pos_def by (rule Least_equality) (auto simp: not_less [symmetric])

lemma lsb_pos_less: "w \<noteq> 0 \<Longrightarrow> lsb_pos (w :: 'a::len word) < LENGTH('a)"
  using bit_lsb_pos bit_imp_le_length by blast

lemma bit_minus_word:
  fixes w :: "'a::len word"
  assumes "w \<noteq> 0"
  shows "bit (- w) n \<longleftrightarrow> n < LENGTH('a) \<and> lsb_pos w \<le> n \<and> (n = lsb_pos w \<or> \<not> bit w n)"
proof -
  let ?k = "lsb_pos w"
  define v where "v = drop_bit ?k w"
  have w: "w = push_bit ?k v"
    by (rule bit_word_eqI) (auto simp: v_def bit_simps lsb_pos_le)
  have v0: "bit v 0" using bit_lsb_pos [OF assms] by (simp add: v_def bit_simps)
  have "- v = NOT v + 1" by (simp add: minus_eq_not_plus_1)
  also have "\<dots> = NOT v OR 1"
    using v0 by (intro disjunctive_add) (auto simp: bit_simps)
  finally have mv: "- v = NOT v OR 1" .
  have bv: "bit (- v) m \<longleftrightarrow> m < LENGTH('a) \<and> (m = 0 \<or> \<not> bit v m)" for m
    unfolding mv by (auto simp: bit_simps)
  have "- w = push_bit ?k (- v)"
    using w by (metis mult_minus_left push_bit_eq_mult)
  then have "bit (- w) n \<longleftrightarrow> ?k \<le> n \<and> n < LENGTH('a) \<and> bit (- v) (n - ?k)"
    by (simp only: bit_push_bit_iff possible_bit_word)
  also have "\<dots> \<longleftrightarrow> ?k \<le> n \<and> n < LENGTH('a) \<and> (n = ?k \<or> \<not> bit w n)"
    by (simp only: bv) (auto simp: v_def bit_drop_bit_eq)
  finally show ?thesis by blast
qed

lemma bit_and_minus:
  "bit (w AND - w) n \<longleftrightarrow> w \<noteq> 0 \<and> n = lsb_pos w" for w :: "'a::len word"
proof (cases "w = 0")
  case False
  then show ?thesis
    using bit_lsb_pos [OF False] bit_imp_le_length [of w n]
    by (auto simp: bit_and_iff bit_minus_word)
qed simp

end
