(* ===== verification/Hash_Func.thy ===== *)
theory Hash_Func
  imports PG_Prelude
begin

text \<open>
  The hash functions of \<^verbatim>\<open>src/backend/access/hash/hashfunc.c\<close> and the key hash
  functions of \<^verbatim>\<open>src/backend/utils/hash/hashfn.c\<close> (the ones on Bitmapsets are in
  theory Bitmapset). The key is the byte string in memory; \<open>be\<close> says whether
  \<^verbatim>\<open>WORDS_BIGENDIAN\<close> is defined and \<open>aligned\<close> whether the key's address is a
  multiple of four, so all four code paths of \<^verbatim>\<open>hash_any\<close> are modelled.
\<close>

section \<open>Mixing\<close>

definition rot :: "uint32 \<Rightarrow> nat \<Rightarrow> uint32" where
  "rot x k = push_bit k x OR drop_bit (32 - k) x"

type_synonym hash_state = "uint32 \<times> uint32 \<times> uint32"

definition mix :: "hash_state \<Rightarrow> hash_state" where
  "mix s = (case s of (a, b, c) \<Rightarrow>
     let a = a - c; a = a XOR rot c 4;  c = c + b;
         b = b - a; b = b XOR rot a 6;  a = a + c;
         c = c - b; c = c XOR rot b 8;  b = b + a;
         a = a - c; a = a XOR rot c 16; c = c + b;
         b = b - a; b = b XOR rot a 19; a = a + c;
         c = c - b; c = c XOR rot b 4;  b = b + a
     in (a, b, c))"

definition final :: "hash_state \<Rightarrow> hash_state" where
  "final s = (case s of (a, b, c) \<Rightarrow>
     let c = c XOR b; c = c - rot b 14;
         a = a XOR c; a = a - rot c 11;
         b = b XOR a; b = b - rot a 25;
         c = c XOR b; c = c - rot b 16;
         a = a XOR c; a = a - rot c 4;
         b = b XOR a; b = b - rot a 14;
         c = c XOR b; c = c - rot b 24
     in (a, b, c))"

section \<open>hash\_any\<close>

text \<open>\<open>sh n b\<close> is \<^verbatim>\<open>(uint32) b << n\<close>; \<open>fetch be k i\<close> is the word-wide fetch \<^verbatim>\<open>ka[i]\<close>.\<close>

definition sh :: "nat \<Rightarrow> uint8 \<Rightarrow> uint32" where
  "sh n b = push_bit n (ucast b)"

definition fetch :: "bool \<Rightarrow> uint8 list \<Rightarrow> nat \<Rightarrow> uint32" where
  "fetch be k i =
     load_uint32 be (k ! (4 * i)) (k ! (4 * i + 1)) (k ! (4 * i + 2)) (k ! (4 * i + 3))"

function hash_loop_aligned ::
  "bool \<Rightarrow> uint8 list \<Rightarrow> uint32 \<Rightarrow> hash_state \<Rightarrow> uint8 list \<times> uint32 \<times> hash_state" where
  "hash_loop_aligned be k len (a, b, c) =
     (if len \<ge> 12
      then hash_loop_aligned be (drop 12 k) (len - 12)
             (mix (a + fetch be k 0, b + fetch be k 1, c + fetch be k 2))
      else (k, len, (a, b, c)))"
  by pat_completeness auto
termination
  by (relation "measure (\<lambda>(be, k, len, s). unat len)") (auto simp: word_less_nat_alt [symmetric] word_le_nat_alt unat_sub)

text \<open>
  The \<^verbatim>\<open>switch (len)\<close> statements: a statement \<^verbatim>\<open>x += y\<close> is executed for exactly the
  lengths whose case label is at or above it with no \<^verbatim>\<open>break\<close> in between.
\<close>

definition add_if :: "bool \<Rightarrow> uint32 \<Rightarrow> uint32 \<Rightarrow> uint32" where
  "add_if p x y = (if p then x + y else x)"

definition hash_tail_aligned ::
  "bool \<Rightarrow> uint8 list \<Rightarrow> uint32 \<Rightarrow> hash_state \<Rightarrow> hash_state" where
  "hash_tail_aligned be k len s = (case s of (a, b, c) \<Rightarrow>
     if be then
       (let c = add_if (unat len \<in> {11}) c (sh 8 (k ! 10));
            c = add_if (unat len \<in> {10, 11}) c (sh 16 (k ! 9));
            c = add_if (unat len \<in> {9, 10, 11}) c (sh 24 (k ! 8));
            b = add_if (unat len \<in> {8, 9, 10, 11}) b (fetch be k 1);
            a = add_if (unat len \<in> {8, 9, 10, 11}) a (fetch be k 0);
            b = add_if (unat len \<in> {7}) b (sh 8 (k ! 6));
            b = add_if (unat len \<in> {6, 7}) b (sh 16 (k ! 5));
            b = add_if (unat len \<in> {5, 6, 7}) b (sh 24 (k ! 4));
            a = add_if (unat len \<in> {4, 5, 6, 7}) a (fetch be k 0);
            a = add_if (unat len \<in> {3}) a (sh 8 (k ! 2));
            a = add_if (unat len \<in> {2, 3}) a (sh 16 (k ! 1));
            a = add_if (unat len \<in> {1, 2, 3}) a (sh 24 (k ! 0))
        in (a, b, c))
     else
       (let c = add_if (unat len \<in> {11}) c (sh 24 (k ! 10));
            c = add_if (unat len \<in> {10, 11}) c (sh 16 (k ! 9));
            c = add_if (unat len \<in> {9, 10, 11}) c (sh 8 (k ! 8));
            b = add_if (unat len \<in> {8, 9, 10, 11}) b (fetch be k 1);
            a = add_if (unat len \<in> {8, 9, 10, 11}) a (fetch be k 0);
            b = add_if (unat len \<in> {7}) b (sh 16 (k ! 6));
            b = add_if (unat len \<in> {6, 7}) b (sh 8 (k ! 5));
            b = add_if (unat len \<in> {5, 6, 7}) b (sh 0 (k ! 4));
            a = add_if (unat len \<in> {4, 5, 6, 7}) a (fetch be k 0);
            a = add_if (unat len \<in> {3}) a (sh 16 (k ! 2));
            a = add_if (unat len \<in> {2, 3}) a (sh 8 (k ! 1));
            a = add_if (unat len \<in> {1, 2, 3}) a (sh 0 (k ! 0))
        in (a, b, c)))"

function hash_loop_unaligned ::
  "bool \<Rightarrow> uint8 list \<Rightarrow> uint32 \<Rightarrow> hash_state \<Rightarrow> uint8 list \<times> uint32 \<times> hash_state" where
  "hash_loop_unaligned be k len (a, b, c) =
     (if len \<ge> 12
      then hash_loop_unaligned be (drop 12 k) (len - 12)
             (mix (if be
                   then (a + (sh 0 (k ! 3) + sh 8 (k ! 2) + sh 16 (k ! 1) + sh 24 (k ! 0)),
                         b + (sh 0 (k ! 7) + sh 8 (k ! 6) + sh 16 (k ! 5) + sh 24 (k ! 4)),
                         c + (sh 0 (k ! 11) + sh 8 (k ! 10) + sh 16 (k ! 9) + sh 24 (k ! 8)))
                   else (a + (sh 0 (k ! 0) + sh 8 (k ! 1) + sh 16 (k ! 2) + sh 24 (k ! 3)),
                         b + (sh 0 (k ! 4) + sh 8 (k ! 5) + sh 16 (k ! 6) + sh 24 (k ! 7)),
                         c + (sh 0 (k ! 8) + sh 8 (k ! 9) + sh 16 (k ! 10) + sh 24 (k ! 11)))))
      else (k, len, (a, b, c)))"
  by pat_completeness auto
termination
  by (relation "measure (\<lambda>(be, k, len, s). unat len)") (auto simp: word_less_nat_alt [symmetric] word_le_nat_alt unat_sub)

definition hash_tail_unaligned ::
  "bool \<Rightarrow> uint8 list \<Rightarrow> uint32 \<Rightarrow> hash_state \<Rightarrow> hash_state" where
  "hash_tail_unaligned be k len s = (case s of (a, b, c) \<Rightarrow>
     if be then
       (let c = add_if (unat len \<in> {11}) c (sh 8 (k ! 10));
            c = add_if (unat len \<in> {10, 11}) c (sh 16 (k ! 9));
            c = add_if (unat len \<in> {9, 10, 11}) c (sh 24 (k ! 8));
            b = add_if (unat len \<in> {8, 9, 10, 11}) b (sh 0 (k ! 7));
            b = add_if (unat len \<in> {7, 8, 9, 10, 11}) b (sh 8 (k ! 6));
            b = add_if (unat len \<in> {6, 7, 8, 9, 10, 11}) b (sh 16 (k ! 5));
            b = add_if (unat len \<in> {5, 6, 7, 8, 9, 10, 11}) b (sh 24 (k ! 4));
            a = add_if (unat len \<in> {4, 5, 6, 7, 8, 9, 10, 11}) a (sh 0 (k ! 3));
            a = add_if (unat len \<in> {3, 4, 5, 6, 7, 8, 9, 10, 11}) a (sh 8 (k ! 2));
            a = add_if (unat len \<in> {2, 3, 4, 5, 6, 7, 8, 9, 10, 11}) a (sh 16 (k ! 1));
            a = add_if (unat len \<in> {1, 2, 3, 4, 5, 6, 7, 8, 9, 10, 11}) a (sh 24 (k ! 0))
        in (a, b, c))
     else
       (let c = add_if (unat len \<in> {11}) c (sh 24 (k ! 10));
            c = add_if (unat len \<in> {10, 11}) c (sh 16 (k ! 9));
            c = add_if (unat len \<in> {9, 10, 11}) c (sh 8 (k ! 8));
            b = add_if (unat len \<in> {8, 9, 10, 11}) b (sh 24 (k ! 7));
            b = add_if (unat len \<in> {7, 8, 9, 10, 11}) b (sh 16 (k ! 6));
            b = add_if (unat len \<in> {6, 7, 8, 9, 10, 11}) b (sh 8 (k ! 5));
            b = add_if (unat len \<in> {5, 6, 7, 8, 9, 10, 11}) b (sh 0 (k ! 4));
            a = add_if (unat len \<in> {4, 5, 6, 7, 8, 9, 10, 11}) a (sh 24 (k ! 3));
            a = add_if (unat len \<in> {3, 4, 5, 6, 7, 8, 9, 10, 11}) a (sh 16 (k ! 2));
            a = add_if (unat len \<in> {2, 3, 4, 5, 6, 7, 8, 9, 10, 11}) a (sh 8 (k ! 1));
            a = add_if (unat len \<in> {1, 2, 3, 4, 5, 6, 7, 8, 9, 10, 11}) a (sh 0 (k ! 0))
        in (a, b, c)))"

declare hash_loop_aligned.simps [simp del] hash_loop_unaligned.simps [simp del]

definition hash_any :: "bool \<Rightarrow> bool \<Rightarrow> uint8 list \<Rightarrow> uint32" where
  "hash_any be aligned k =
     (let len = of_nat (length k);
          init = 0x9e3779b9 + len + 3923095;
          s = (init, init, init);
          s = (if aligned
               then case hash_loop_aligned be k len s of (k, len, s) \<Rightarrow> hash_tail_aligned be k len s
               else case hash_loop_unaligned be k len s of (k, len, s) \<Rightarrow> hash_tail_unaligned be k len s)
      in snd (snd (final s)))"

definition hash_uint32 :: "uint32 \<Rightarrow> uint32" where
  "hash_uint32 k =
     (let init = 0x9e3779b9 + 4 + 3923095
      in snd (snd (final (init + k, init, init))))"

section \<open>Hash support functions of the SQL types\<close>

definition hashchar :: "uint8 \<Rightarrow> uint32" where
  "hashchar x = hash_uint32 (scast x)"

definition hashint2 :: "uint16 \<Rightarrow> uint32" where
  "hashint2 x = hash_uint32 (scast x)"

definition hashint4 :: "uint32 \<Rightarrow> uint32" where
  "hashint4 x = hash_uint32 x"

definition hashint8 :: "uint64 \<Rightarrow> uint32" where
  "hashint8 val =
     (let lohalf = (ucast val :: uint32);
          hihalf = (ucast (signed_drop_bit 32 val) :: uint32)
      in hash_uint32 (lohalf XOR (if 0 \<le> sint val then hihalf else NOT hihalf)))"

definition hashoid :: "uint32 \<Rightarrow> uint32" where
  "hashoid x = hash_uint32 x"

definition hashenum :: "uint32 \<Rightarrow> uint32" where
  "hashenum x = hash_uint32 x"

definition hashoidvector :: "bool \<Rightarrow> bool \<Rightarrow> uint32 list \<Rightarrow> uint32" where
  "hashoidvector be aligned vals = hash_any be aligned (concat (map (bytes_of_uint32 be) vals))"

text \<open>A text or varlena key is its payload (\<^verbatim>\<open>VARDATA_ANY\<close>, \<^verbatim>\<open>VARSIZE_ANY_EXHDR\<close>).\<close>

definition hashtext :: "bool \<Rightarrow> bool \<Rightarrow> uint8 list \<Rightarrow> uint32" where
  "hashtext be aligned key = hash_any be aligned key"

definition hashvarlena :: "bool \<Rightarrow> bool \<Rightarrow> uint8 list \<Rightarrow> uint32" where
  "hashvarlena be aligned key = hash_any be aligned key"

section \<open>Key hash functions of dynahash\<close>

text \<open>\<open>key\<close> is the memory at the key's address; \<^verbatim>\<open>strlen\<close> stops at the first zero byte.\<close>

definition c_strlen :: "uint8 list \<Rightarrow> nat" where
  "c_strlen key = length (takeWhile (\<lambda>b. b \<noteq> 0) key)"

definition string_hash :: "bool \<Rightarrow> bool \<Rightarrow> uint8 list \<Rightarrow> nat \<Rightarrow> uint32" where
  "string_hash be aligned key keysize =
     (let s_len = min (c_strlen key) (keysize - 1)
      in hash_any be aligned (take s_len key))"

definition tag_hash :: "bool \<Rightarrow> bool \<Rightarrow> uint8 list \<Rightarrow> nat \<Rightarrow> uint32" where
  "tag_hash be aligned key keysize = hash_any be aligned (take keysize key)"

definition oid_hash :: "uint32 \<Rightarrow> uint32" where
  "oid_hash key = hash_uint32 key"

text \<open>One round of \<open>mix\<close>, with the roles of the three words rotated; used in the proofs only.\<close>

definition mix_round :: "nat \<Rightarrow> hash_state \<Rightarrow> hash_state" where
  "mix_round n s = (case s of (a, b, c) \<Rightarrow> (b, c + b, (a - c) XOR rot c n))"

section \<open>Lemmas\<close>

lemma bit_sh: "bit (sh n b) i \<longleftrightarrow> n \<le> i \<and> i < 32 \<and> bit b (i - n)"
  by (auto simp: sh_def bit_simps)

lemma bit_uint8_bound: "bit (b :: uint8) i \<Longrightarrow> i < 8"
  using bit_imp_le_length [of b i] by simp

lemma sh_add_eq_or:
  "sh 0 b0 + sh 8 b1 + sh 16 b2 + sh 24 b3 = load_uint32 False b0 b1 b2 b3"
  "sh 0 b3 + sh 8 b2 + sh 16 b1 + sh 24 b0 = load_uint32 True b0 b1 b2 b3"
proof -
  have disj: "sh 0 x0 + sh 8 x1 + sh 16 x2 + sh 24 x3 = sh 0 x0 OR sh 8 x1 OR sh 16 x2 OR sh 24 x3"
    for x0 x1 x2 x3
  proof -
    have "sh 0 x0 + sh 8 x1 = sh 0 x0 OR sh 8 x1"
      by (rule disjunctive_add) (auto simp: bit_sh dest: bit_uint8_bound)
    moreover have "(sh 0 x0 OR sh 8 x1) + sh 16 x2 = (sh 0 x0 OR sh 8 x1) OR sh 16 x2"
      by (rule disjunctive_add) (auto simp: bit_sh bit_simps dest: bit_uint8_bound)
    moreover have "((sh 0 x0 OR sh 8 x1) OR sh 16 x2) + sh 24 x3
        = ((sh 0 x0 OR sh 8 x1) OR sh 16 x2) OR sh 24 x3"
      by (rule disjunctive_add) (auto simp: bit_sh bit_simps dest: bit_uint8_bound)
    ultimately show ?thesis by (simp add: or.assoc)
  qed
  show "sh 0 b0 + sh 8 b1 + sh 16 b2 + sh 24 b3 = load_uint32 False b0 b1 b2 b3"
    by (simp add: disj load_uint32_def) (simp add: sh_def)
  show "sh 0 b3 + sh 8 b2 + sh 16 b1 + sh 24 b0 = load_uint32 True b0 b1 b2 b3"
    by (simp add: disj load_uint32_def) (simp add: sh_def ac_simps)
qed

lemma xor_right_cancel: "x XOR z = y XOR z \<longleftrightarrow> x = (y :: 'a :: len word)"
proof
  assume "x XOR z = y XOR z"
  then have "(x XOR z) XOR z = (y XOR z) XOR z" by simp
  then show "x = y" by (simp add: xor.assoc)
qed simp

lemma inj_mix_round: "inj (mix_round n)"
  by (rule injI) (auto simp: mix_round_def xor_right_cancel split: prod.splits)

lemma mix_as_rounds:
  "mix = mix_round 4 \<circ> mix_round 19 \<circ> mix_round 16 \<circ> mix_round 8 \<circ> mix_round 6 \<circ> mix_round 4"
  by (simp add: fun_eq_iff mix_def mix_round_def Let_def split: prod.splits)

lemma inj_mix: "inj mix"
  unfolding mix_as_rounds by (intro inj_compose inj_mix_round)

lemma less_12_cases: "(len :: uint32) < 12 \<Longrightarrow> unat len \<in> {0,1,2,3,4,5,6,7,8,9,10,11}"
  by (simp only: insert_iff empty_iff word_less_nat_alt unat_numeral) (simp, arith)

lemma fetch_as_sum:
  "fetch False k i = sh 0 (k ! (4 * i)) + sh 8 (k ! (4 * i + 1)) + sh 16 (k ! (4 * i + 2)) + sh 24 (k ! (4 * i + 3))"
  "fetch True k i = sh 0 (k ! (4 * i + 3)) + sh 8 (k ! (4 * i + 2)) + sh 16 (k ! (4 * i + 1)) + sh 24 (k ! (4 * i))"
  by (rule trans [OF fetch_def sh_add_eq_or(1) [symmetric]], rule trans [OF fetch_def sh_add_eq_or(2) [symmetric]])

lemma hash_loop_eq: "hash_loop_unaligned be k len s = hash_loop_aligned be k len s"
proof (induction be k len s rule: hash_loop_aligned.induct)
  case (1 be k len a b c)
  then show ?case
    by (cases be) (simp_all add: hash_loop_aligned.simps [of _ k len] hash_loop_unaligned.simps [of _ k len]
        fetch_as_sum numeral_2_eq_2)
qed

lemma hash_loop_len: "hash_loop_aligned be k len s = (k', len', s') \<Longrightarrow> len' < 12"
proof (induction be k len s rule: hash_loop_aligned.induct)
  case (1 be k len a b c)
  then show ?case
    by (auto simp: hash_loop_aligned.simps [of be k len] not_le split: if_splits)
qed

lemma add_if_simps [simp]: "add_if True x y = x + y" "add_if False x y = x"
  by (simp_all add: add_if_def)

lemma hash_tail_eq:
  assumes "len < 12"
  shows "hash_tail_unaligned be k len s = hash_tail_aligned be k len s"
proof -
  obtain a b c where s: "s = (a, b, c)" by (cases s)
  show ?thesis
    using less_12_cases [OF assms] unfolding s
    by (elim insertE; cases be)
      (simp_all add: hash_tail_unaligned_def hash_tail_aligned_def fetch_as_sum add_ac numeral_2_eq_2)
qed

lemma hash_any_aligned: "hash_any be True k = hash_any be False k"
  by (auto simp: hash_any_def Let_def hash_loop_eq hash_tail_eq dest: hash_loop_len split: prod.splits)

lemma load_bytes_le:
  "load_uint32 False (ucast w) (ucast (drop_bit 8 w)) (ucast (drop_bit 16 w)) (ucast (drop_bit 24 w)) = w"
  unfolding load_uint32_def if_False
proof (rule bit_word_eqI)
  fix n assume n: "n < LENGTH(32)"
  consider "n < 8" | "8 \<le> n" "n < 16" | "16 \<le> n" "n < 24" | "24 \<le> n" "n < 32" using n by force
  then show "bit (ucast (ucast w :: uint8) OR push_bit 8 (ucast (ucast (drop_bit 8 w) :: uint8)) OR
                  push_bit 16 (ucast (ucast (drop_bit 16 w) :: uint8)) OR push_bit 24 (ucast (ucast (drop_bit 24 w) :: uint8)) :: uint32) n = bit w n"
    by cases (auto simp: bit_simps less_diff_conv2)
qed

lemma load_bytes_of_uint32:
  "bytes_of_uint32 be w = [b0, b1, b2, b3] \<Longrightarrow> load_uint32 be b0 b1 b2 b3 = w"
  using load_bytes_le [of w] sh_add_eq_or(2) [of b3 b2 b1 b0] sh_add_eq_or(1) [of b3 b2 b1 b0]
  by (cases be) (auto simp: bytes_of_uint32_def)

lemma length_bytes_of_uint32 [simp]: "length (bytes_of_uint32 be w) = 4"
  by (simp add: bytes_of_uint32_def Let_def)

lemma hash_any_4: "hash_any be True [b0, b1, b2, b3] = hash_uint32 (load_uint32 be b0 b1 b2 b3)"
proof -
  let ?k = "[b0, b1, b2, b3]"
  have loop: "hash_loop_aligned be ?k 4 s = (?k, 4, s)" for s
    by (cases s) (simp add: hash_loop_aligned.simps)
  have tail: "hash_tail_aligned be ?k 4 (a, b, c) = (a + fetch be ?k 0, b, c)" for a b c
    by (simp add: hash_tail_aligned_def)
  have "fetch be ?k 0 = load_uint32 be b0 b1 b2 b3"
    by (simp add: fetch_def numeral_2_eq_2 numeral_3_eq_3)
  then show ?thesis
    by (simp add: hash_any_def loop tail hash_uint32_def Let_def)
qed

lemma hash_any_of_uint32: "hash_any be aligned (bytes_of_uint32 be w) = hash_uint32 w"
proof -
  obtain b0 b1 b2 b3 where bs: "bytes_of_uint32 be w = [b0, b1, b2, b3]"
    by (cases be) (auto simp: bytes_of_uint32_def)
  have "hash_any be aligned (bytes_of_uint32 be w) = hash_any be True (bytes_of_uint32 be w)"
    by (cases aligned) (simp_all add: hash_any_aligned)
  then show ?thesis
    by (simp add: bs hash_any_4 load_bytes_of_uint32 [OF bs])
qed

lemma hashint8_scast: "hashint8 (scast x) = hashint4 x"
proof -
  have lo: "(ucast (scast x :: uint64) :: uint32) = x"
    by (rule bit_word_eqI) (simp add: bit_simps)
  have sint: "sint (scast x :: uint64) = sint x"
    using sint_greater_eq [of x] sint_less [of x]
    by (simp add: signed_scast_eq signed_take_bit_int_eq_self)
  have bit31: "bit x 31 \<longleftrightarrow> sint x < 0"
    using bit_last_iff [of x] by simp
  have hi: "(ucast (signed_drop_bit 32 (scast x :: uint64)) :: uint32) = (if 0 \<le> sint x then 0 else - 1)"
    by (rule bit_word_eqI) (auto simp: bit_simps bit31 min_def)
  show ?thesis by (auto simp: hashint8_def hashint4_def lo hi sint)
qed

lemma scast_scast_16_32_64: "(scast (scast x :: uint32) :: uint64) = scast (x :: uint16)"
  by (rule bit_word_eqI) (auto simp: bit_simps min_def)

section \<open>Properties\<close>

text \<open>C40. The word-wide code path of \<^verbatim>\<open>hash_any\<close> for aligned keys and the byte-wise path for
  unaligned keys compute the same hash, for every key and either byte order.\<close>

theorem hash_any_alignment_independent: "hash_any be True k = hash_any be False k"
  by (rule hash_any_aligned)

text \<open>\<^verbatim>\<open>mix\<close> is reversible, as its comment says: it is a bijection on triples of
  32-bit words, so no information in (a, b, c) is lost.\<close>

theorem mix_reversible: "bij mix"
  using inj_mix by (simp add: bij_def finite_UNIV_inj_surj)

text \<open>\<^verbatim>\<open>hash_uint32(k)\<close> has the same result as hashing the four bytes of \<^verbatim>\<open>k\<close> in memory
  with \<^verbatim>\<open>hash_any\<close>, so \<^verbatim>\<open>oid_hash\<close> agrees with \<^verbatim>\<open>tag_hash\<close> on OIDs; and the hashes of
  logically equal \<^verbatim>\<open>int2\<close>, \<^verbatim>\<open>int4\<close> and \<^verbatim>\<open>int8\<close> values are equal.\<close>

theorem hash_uint32_compatible:
  "hash_any be aligned (bytes_of_uint32 be w) = hash_uint32 w
   \<and> tag_hash be aligned (bytes_of_uint32 be w) 4 = oid_hash w
   \<and> hashint8 (scast x) = hashint4 x
   \<and> hashint8 (scast y) = hashint2 y"
  by (simp add: hash_any_of_uint32 tag_hash_def oid_hash_def hashint8_scast hashint2_def hashint4_def
      flip: scast_scast_16_32_64)

end
