(* ===== verification/Bitmapset.thy ===== *)
theory Bitmapset
  imports Hash_Func
begin

text \<open>
  Bitmap sets, \<^verbatim>\<open>src/backend/nodes/bitmapset.c\<close>: sets of nonnegative integers as arrays
  of 32-bit words, used by the planner and executor for sets of range-table indexes and
  attribute numbers. A \<^verbatim>\<open>Bitmapset *\<close> is an \<open>option\<close> (\<open>None\<close> is \<^verbatim>\<open>NULL\<close>, a representation
  of the empty set); a function that recycles its input returns the modified value. A member
  is a C \<^verbatim>\<open>int\<close>, modelled as \<open>int\<close>, and a negative one raises the error of the code.

  The abstraction \<open>bms_set\<close> maps a pointer to the set it stands for; the lemmas show that every
  operation keeps the well-formedness \<open>bms_wf\<close> and computes the set operation it is named after.
\<close>

section \<open>Data\<close>

type_synonym bitmapword = "32 word"

record Bitmapset =
  nwords :: nat
  bwords :: "bitmapword list"

type_synonym bms = "Bitmapset option"

datatype BMS_Membership = BMS_EMPTY_SET | BMS_SINGLETON | BMS_MULTIPLE

abbreviation BITS_PER_BITMAPWORD :: nat where
  "BITS_PER_BITMAPWORD \<equiv> 32"

definition WORDNUM :: "int \<Rightarrow> nat" where
  "WORDNUM x = nat x div BITS_PER_BITMAPWORD"

definition BITNUM :: "int \<Rightarrow> nat" where
  "BITNUM x = nat x mod BITS_PER_BITMAPWORD"

definition RIGHTMOST_ONE :: "bitmapword \<Rightarrow> bitmapword" where
  "RIGHTMOST_ONE x = x AND - x"

definition HAS_MULTIPLE_ONES :: "bitmapword \<Rightarrow> bool" where
  "HAS_MULTIPLE_ONES x \<longleftrightarrow> RIGHTMOST_ONE x \<noteq> x"

definition rightmost_one_pos :: "nat list" where
  "rightmost_one_pos = [
     0, 0, 1, 0, 2, 0, 1, 0, 3, 0, 1, 0, 2, 0, 1, 0,
     4, 0, 1, 0, 2, 0, 1, 0, 3, 0, 1, 0, 2, 0, 1, 0,
     5, 0, 1, 0, 2, 0, 1, 0, 3, 0, 1, 0, 2, 0, 1, 0,
     4, 0, 1, 0, 2, 0, 1, 0, 3, 0, 1, 0, 2, 0, 1, 0,
     6, 0, 1, 0, 2, 0, 1, 0, 3, 0, 1, 0, 2, 0, 1, 0,
     4, 0, 1, 0, 2, 0, 1, 0, 3, 0, 1, 0, 2, 0, 1, 0,
     5, 0, 1, 0, 2, 0, 1, 0, 3, 0, 1, 0, 2, 0, 1, 0,
     4, 0, 1, 0, 2, 0, 1, 0, 3, 0, 1, 0, 2, 0, 1, 0,
     7, 0, 1, 0, 2, 0, 1, 0, 3, 0, 1, 0, 2, 0, 1, 0,
     4, 0, 1, 0, 2, 0, 1, 0, 3, 0, 1, 0, 2, 0, 1, 0,
     5, 0, 1, 0, 2, 0, 1, 0, 3, 0, 1, 0, 2, 0, 1, 0,
     4, 0, 1, 0, 2, 0, 1, 0, 3, 0, 1, 0, 2, 0, 1, 0,
     6, 0, 1, 0, 2, 0, 1, 0, 3, 0, 1, 0, 2, 0, 1, 0,
     4, 0, 1, 0, 2, 0, 1, 0, 3, 0, 1, 0, 2, 0, 1, 0,
     5, 0, 1, 0, 2, 0, 1, 0, 3, 0, 1, 0, 2, 0, 1, 0,
     4, 0, 1, 0, 2, 0, 1, 0, 3, 0, 1, 0, 2, 0, 1, 0]"

definition number_of_ones :: "nat list" where
  "number_of_ones = [
     0, 1, 1, 2, 1, 2, 2, 3, 1, 2, 2, 3, 2, 3, 3, 4,
     1, 2, 2, 3, 2, 3, 3, 4, 2, 3, 3, 4, 3, 4, 4, 5,
     1, 2, 2, 3, 2, 3, 3, 4, 2, 3, 3, 4, 3, 4, 4, 5,
     2, 3, 3, 4, 3, 4, 4, 5, 3, 4, 4, 5, 4, 5, 5, 6,
     1, 2, 2, 3, 2, 3, 3, 4, 2, 3, 3, 4, 3, 4, 4, 5,
     2, 3, 3, 4, 3, 4, 4, 5, 3, 4, 4, 5, 4, 5, 5, 6,
     2, 3, 3, 4, 3, 4, 4, 5, 3, 4, 4, 5, 4, 5, 5, 6,
     3, 4, 4, 5, 4, 5, 5, 6, 4, 5, 5, 6, 5, 6, 6, 7,
     1, 2, 2, 3, 2, 3, 3, 4, 2, 3, 3, 4, 3, 4, 4, 5,
     2, 3, 3, 4, 3, 4, 4, 5, 3, 4, 4, 5, 4, 5, 5, 6,
     2, 3, 3, 4, 3, 4, 4, 5, 3, 4, 4, 5, 4, 5, 5, 6,
     3, 4, 4, 5, 4, 5, 5, 6, 4, 5, 5, 6, 5, 6, 6, 7,
     2, 3, 3, 4, 3, 4, 4, 5, 3, 4, 4, 5, 4, 5, 5, 6,
     3, 4, 4, 5, 4, 5, 5, 6, 4, 5, 5, 6, 5, 6, 6, 7,
     3, 4, 4, 5, 4, 5, 5, 6, 4, 5, 5, 6, 5, 6, 6, 7,
     4, 5, 5, 6, 5, 6, 6, 7, 5, 6, 6, 7, 6, 7, 7, 8]"

section \<open>Operations\<close>

definition bms_copy :: "bms \<Rightarrow> bms" where
  "bms_copy a = (case a of None \<Rightarrow> None
     | Some s \<Rightarrow> Some \<lparr>nwords = nwords s, bwords = bwords s\<rparr>)"

definition bms_is_empty :: "bms \<Rightarrow> bool" where
  "bms_is_empty a = (case a of None \<Rightarrow> True
     | Some s \<Rightarrow> list_all (\<lambda>wordnum. bwords s ! wordnum = 0) [0..<nwords s])"

definition bms_equal :: "bms \<Rightarrow> bms \<Rightarrow> bool" where
  "bms_equal a b = (case a of
     None \<Rightarrow> (case b of None \<Rightarrow> True | Some _ \<Rightarrow> bms_is_empty b)
   | Some sa \<Rightarrow> (case b of
       None \<Rightarrow> bms_is_empty a
     | Some sb \<Rightarrow>
         (let (shorter, longer) = (if nwords sa \<le> nwords sb then (sa, sb) else (sb, sa));
              shortlen = nwords shorter; longlen = nwords longer
          in list_all (\<lambda>i. bwords shorter ! i = bwords longer ! i) [0..<shortlen]
             \<and> list_all (\<lambda>i. bwords longer ! i = 0) [shortlen..<longlen])))"

definition bms_make_singleton :: "int \<Rightarrow> pg_error + bms" where
  "bms_make_singleton x =
     (if x < 0 then Inl (Elog ''negative bitmapset member not allowed'')
      else let wordnum = WORDNUM x; bitnum = BITNUM x
           in Inr (Some \<lparr>nwords = wordnum + 1,
                         bwords = (replicate (wordnum + 1) 0)[wordnum := push_bit bitnum 1]\<rparr>))"

definition bms_union :: "bms \<Rightarrow> bms \<Rightarrow> bms" where
  "bms_union a b = (case a of None \<Rightarrow> bms_copy b | Some sa \<Rightarrow>
     (case b of None \<Rightarrow> bms_copy a | Some sb \<Rightarrow>
       (let (result, other) = (if nwords sa \<le> nwords sb then (sb, sa) else (sa, sb))
        in Some (result\<lparr>bwords :=
             for_update 0 (nwords other) (\<lambda>i w. w OR bwords other ! i) (bwords result)\<rparr>))))"

definition bms_intersect :: "bms \<Rightarrow> bms \<Rightarrow> bms" where
  "bms_intersect a b = (case a of None \<Rightarrow> None | Some sa \<Rightarrow>
     (case b of None \<Rightarrow> None | Some sb \<Rightarrow>
       (let (result, other) = (if nwords sa \<le> nwords sb then (sa, sb) else (sb, sa))
        in Some (result\<lparr>bwords :=
             for_update 0 (nwords result) (\<lambda>i w. w AND bwords other ! i) (bwords result)\<rparr>))))"

definition bms_difference :: "bms \<Rightarrow> bms \<Rightarrow> bms" where
  "bms_difference a b = (case a of None \<Rightarrow> None | Some sa \<Rightarrow>
     (case b of None \<Rightarrow> bms_copy a | Some sb \<Rightarrow>
       (let shortlen = min (nwords sa) (nwords sb)
        in Some (sa\<lparr>bwords :=
             for_update 0 shortlen (\<lambda>i w. w AND NOT (bwords sb ! i)) (bwords sa)\<rparr>))))"

definition bms_is_subset :: "bms \<Rightarrow> bms \<Rightarrow> bool" where
  "bms_is_subset a b = (case a of None \<Rightarrow> True | Some sa \<Rightarrow>
     (case b of None \<Rightarrow> bms_is_empty a | Some sb \<Rightarrow>
       (let shortlen = min (nwords sa) (nwords sb)
        in list_all (\<lambda>i. bwords sa ! i AND NOT (bwords sb ! i) = 0) [0..<shortlen]
           \<and> (if nwords sa > nwords sb
              then list_all (\<lambda>i. bwords sa ! i = 0) [shortlen..<nwords sa]
              else True))))"

definition bms_is_member :: "int \<Rightarrow> bms \<Rightarrow> pg_error + bool" where
  "bms_is_member x a =
     (if x < 0 then Inl (Elog ''negative bitmapset member not allowed'')
      else case a of None \<Rightarrow> Inr False | Some s \<Rightarrow>
        (let wordnum = WORDNUM x; bitnum = BITNUM x
         in if wordnum \<ge> nwords s then Inr False
            else if bwords s ! wordnum AND push_bit bitnum 1 \<noteq> 0 then Inr True
            else Inr False))"

definition bms_overlap :: "bms \<Rightarrow> bms \<Rightarrow> bool" where
  "bms_overlap a b = (case a of None \<Rightarrow> False | Some sa \<Rightarrow>
     (case b of None \<Rightarrow> False | Some sb \<Rightarrow>
       (let shortlen = min (nwords sa) (nwords sb)
        in list_ex (\<lambda>i. bwords sa ! i AND bwords sb ! i \<noteq> 0) [0..<shortlen])))"

definition bms_nonempty_difference :: "bms \<Rightarrow> bms \<Rightarrow> bool" where
  "bms_nonempty_difference a b = (case a of None \<Rightarrow> False | Some sa \<Rightarrow>
     (case b of None \<Rightarrow> \<not> bms_is_empty a | Some sb \<Rightarrow>
       (let shortlen = min (nwords sa) (nwords sb)
        in list_ex (\<lambda>i. bwords sa ! i AND NOT (bwords sb ! i) \<noteq> 0) [0..<shortlen]
           \<or> list_ex (\<lambda>i. bwords sa ! i \<noteq> 0) [shortlen..<nwords sa])))"

text \<open>
  The loop \<^verbatim>\<open>while ((w & 255) == 0) { w >>= 8; result += 8; }\<close> and the table lookup after it,
  shared by \<^verbatim>\<open>bms_singleton_member\<close> and \<^verbatim>\<open>bms_first_member\<close>. It does not end for a zero
  word, so not returning is \<open>None\<close>.
\<close>

partial_function (option) rightmost_byte_loop :: "bitmapword \<Rightarrow> int \<Rightarrow> int option" where
  "rightmost_byte_loop w result =
     (if w AND 255 = 0 then rightmost_byte_loop (drop_bit 8 w) (result + 8)
      else Some (result + int (rightmost_one_pos ! unat (w AND 255))))"

fun singleton_member_loop :: "bitmapword list \<Rightarrow> nat \<Rightarrow> int \<Rightarrow> (pg_error + int) option" where
  "singleton_member_loop [] wordnum result =
     Some (if result < 0 then Inl (Elog ''bitmapset is empty'') else Inr result)"
| "singleton_member_loop (w # ws) wordnum result =
     (if w \<noteq> 0 then
        (if result \<ge> 0 \<or> HAS_MULTIPLE_ONES w
         then Some (Inl (Elog ''bitmapset has multiple members''))
         else case rightmost_byte_loop w (int (wordnum * BITS_PER_BITMAPWORD)) of
                None \<Rightarrow> None
              | Some r \<Rightarrow> singleton_member_loop ws (Suc wordnum) r)
      else singleton_member_loop ws (Suc wordnum) result)"

definition bms_singleton_member :: "bms \<Rightarrow> (pg_error + int) option" where
  "bms_singleton_member a = (case a of
     None \<Rightarrow> Some (Inl (Elog ''bitmapset is empty''))
   | Some s \<Rightarrow> singleton_member_loop (take (nwords s) (bwords s)) 0 (- 1))"

function count_ones_loop :: "bitmapword \<Rightarrow> int \<Rightarrow> int" where
  "count_ones_loop w result =
     (if w \<noteq> 0 then count_ones_loop (drop_bit 8 w) (result + int (number_of_ones ! unat (w AND 255)))
      else result)"
  by pat_completeness auto
termination
  by (relation "measure (\<lambda>(w, r). unat w)") (auto simp: drop_bit_eq_div unat_div unat_gt_0)

declare count_ones_loop.simps [simp del]

definition bms_num_members :: "bms \<Rightarrow> int" where
  "bms_num_members a = (case a of None \<Rightarrow> 0
     | Some s \<Rightarrow> fold count_ones_loop (take (nwords s) (bwords s)) 0)"

fun membership_loop :: "bitmapword list \<Rightarrow> BMS_Membership \<Rightarrow> BMS_Membership" where
  "membership_loop [] result = result"
| "membership_loop (w # ws) result =
     (if w \<noteq> 0 then
        (if result \<noteq> BMS_EMPTY_SET \<or> HAS_MULTIPLE_ONES w then BMS_MULTIPLE
         else membership_loop ws BMS_SINGLETON)
      else membership_loop ws result)"

definition bms_membership :: "bms \<Rightarrow> BMS_Membership" where
  "bms_membership a = (case a of None \<Rightarrow> BMS_EMPTY_SET
     | Some s \<Rightarrow> membership_loop (take (nwords s) (bwords s)) BMS_EMPTY_SET)"

section \<open>Operations that recycle their input\<close>

definition bms_add_member :: "bms \<Rightarrow> int \<Rightarrow> pg_error + bms" where
  "bms_add_member a x =
     (if x < 0 then Inl (Elog ''negative bitmapset member not allowed'')
      else case a of None \<Rightarrow> bms_make_singleton x | Some s \<Rightarrow>
        (let wordnum = WORDNUM x; bitnum = BITNUM x
         in if wordnum \<ge> nwords s
            then map_sum id (map_option (\<lambda>result. result\<lparr>bwords :=
                   for_update 0 (nwords s) (\<lambda>i w. w OR bwords s ! i) (bwords result)\<rparr>))
                   (bms_make_singleton x)
            else Inr (Some (s\<lparr>bwords :=
                   (bwords s)[wordnum := bwords s ! wordnum OR push_bit bitnum 1]\<rparr>))))"

definition bms_del_member :: "bms \<Rightarrow> int \<Rightarrow> pg_error + bms" where
  "bms_del_member a x =
     (if x < 0 then Inl (Elog ''negative bitmapset member not allowed'')
      else case a of None \<Rightarrow> Inr None | Some s \<Rightarrow>
        (let wordnum = WORDNUM x; bitnum = BITNUM x
         in if wordnum < nwords s
            then Inr (Some (s\<lparr>bwords :=
                   (bwords s)[wordnum := bwords s ! wordnum AND NOT (push_bit bitnum 1)]\<rparr>))
            else Inr (Some s)))"

definition bms_add_members :: "bms \<Rightarrow> bms \<Rightarrow> bms" where
  "bms_add_members a b = (case a of None \<Rightarrow> bms_copy b | Some sa \<Rightarrow>
     (case b of None \<Rightarrow> a | Some sb \<Rightarrow>
       (let (result, other) = (if nwords sa < nwords sb then (sb, sa) else (sa, sb))
        in Some (result\<lparr>bwords :=
             for_update 0 (nwords other) (\<lambda>i w. w OR bwords other ! i) (bwords result)\<rparr>))))"

definition bms_int_members :: "bms \<Rightarrow> bms \<Rightarrow> bms" where
  "bms_int_members a b = (case a of None \<Rightarrow> None | Some sa \<Rightarrow>
     (case b of None \<Rightarrow> None | Some sb \<Rightarrow>
       (let shortlen = min (nwords sa) (nwords sb)
        in Some (sa\<lparr>bwords :=
             for_update shortlen (nwords sa) (\<lambda>i w. 0)
               (for_update 0 shortlen (\<lambda>i w. w AND bwords sb ! i) (bwords sa))\<rparr>))))"

definition bms_del_members :: "bms \<Rightarrow> bms \<Rightarrow> bms" where
  "bms_del_members a b = (case a of None \<Rightarrow> None | Some sa \<Rightarrow>
     (case b of None \<Rightarrow> a | Some sb \<Rightarrow>
       (let shortlen = min (nwords sa) (nwords sb)
        in Some (sa\<lparr>bwords :=
             for_update 0 shortlen (\<lambda>i w. w AND NOT (bwords sb ! i)) (bwords sa)\<rparr>))))"

definition bms_join :: "bms \<Rightarrow> bms \<Rightarrow> bms" where
  "bms_join a b = (case a of None \<Rightarrow> b | Some sa \<Rightarrow>
     (case b of None \<Rightarrow> a | Some sb \<Rightarrow>
       (let (result, other) = (if nwords sa < nwords sb then (sb, sa) else (sa, sb))
        in Some (result\<lparr>bwords :=
             for_update 0 (nwords other) (\<lambda>i w. w OR bwords other ! i) (bwords result)\<rparr>))))"

text \<open>\<open>first_member_loop s n\<close>: the loop of \<^verbatim>\<open>bms_first_member\<close> with \<open>n\<close> words left to look at.\<close>

fun first_member_loop :: "Bitmapset \<Rightarrow> nat \<Rightarrow> (int \<times> Bitmapset) option" where
  "first_member_loop s 0 = Some (- 1, s)"
| "first_member_loop s (Suc n) =
     (let wordnum = nwords s - Suc n; w = bwords s ! wordnum
      in if w \<noteq> 0
         then (let w = RIGHTMOST_ONE w;
                   s' = s\<lparr>bwords := (bwords s)[wordnum := bwords s ! wordnum AND NOT w]\<rparr>
               in case rightmost_byte_loop w (int (wordnum * BITS_PER_BITMAPWORD)) of
                    None \<Rightarrow> None
                  | Some result \<Rightarrow> Some (result, s'))
         else first_member_loop s n)"

definition bms_first_member :: "bms \<Rightarrow> (int \<times> bms) option" where
  "bms_first_member a = (case a of None \<Rightarrow> Some (- 1, None)
     | Some s \<Rightarrow> map_option (map_prod id Some) (first_member_loop s (nwords s)))"

fun last_nonzero_word :: "bitmapword list \<Rightarrow> nat \<Rightarrow> int" where
  "last_nonzero_word ws 0 = - 1"
| "last_nonzero_word ws (Suc n) = (if ws ! n \<noteq> 0 then int n else last_nonzero_word ws n)"

definition bms_hash_value :: "bool \<Rightarrow> bms \<Rightarrow> uint32" where
  "bms_hash_value be a = (case a of None \<Rightarrow> 0 | Some s \<Rightarrow>
     (let lastword = last_nonzero_word (bwords s) (nwords s)
      in if lastword < 0 then 0
         else hash_any be True (concat (map (bytes_of_uint32 be) (take (nat (lastword + 1)) (bwords s))))))"

definition bitmap_hash :: "bool \<Rightarrow> bms \<Rightarrow> uint32" where
  "bitmap_hash be key = bms_hash_value be key"

definition bitmap_match :: "bms \<Rightarrow> bms \<Rightarrow> int" where
  "bitmap_match key1 key2 = (if bms_equal key1 key2 then 0 else 1)"

section \<open>Abstraction\<close>

definition bms_wf :: "bms \<Rightarrow> bool" where
  "bms_wf a = (case a of None \<Rightarrow> True | Some s \<Rightarrow> length (bwords s) = nwords s)"

definition bms_set :: "bms \<Rightarrow> nat set" where
  "bms_set a = (case a of None \<Rightarrow> {}
     | Some s \<Rightarrow> {x. x div 32 < nwords s \<and> bit (bwords s ! (x div 32)) (x mod 32)})"

definition word_bits :: "bitmapword \<Rightarrow> nat set" where
  "word_bits w = {r. bit w r}"

text \<open>The members stored in a list of words of which the first is word number \<open>k\<close>.\<close>

fun words_members :: "nat \<Rightarrow> bitmapword list \<Rightarrow> nat set" where
  "words_members k [] = {}"
| "words_members k (w # ws) = (\<lambda>r. 32 * k + r) ` word_bits w \<union> words_members (Suc k) ws"

text \<open>
  The iteration pattern documented at \<^verbatim>\<open>bms_first_member\<close>,
  \<^verbatim>\<open>while ((x = bms_first_member(tmpset)) >= 0) process member x;\<close>,
  over any set representation: the members processed, in order; \<open>None\<close> if it does not end.
\<close>

partial_function (option) iterate_first :: "('s \<Rightarrow> (int \<times> 's) option) \<Rightarrow> 's \<Rightarrow> int list option" where
  "iterate_first first tmpset =
     (case first tmpset of
        None \<Rightarrow> None
      | Some (x, tmpset') \<Rightarrow>
          (if x \<ge> 0
           then Option.bind (iterate_first first tmpset') (\<lambda>xs. Some (x # xs))
           else Some []))"

declare iterate_first.simps [code] rightmost_byte_loop.simps [code]

text \<open>Two sets for the examples: \<open>{0, 2}\<close> and \<open>{1, 2, 32}\<close>.\<close>

definition bms_ex1 :: bms where
  "bms_ex1 = Some \<lparr>nwords = 1, bwords = [5]\<rparr>"

definition bms_ex2 :: bms where
  "bms_ex2 = Some \<lparr>nwords = 2, bwords = [6, 1]\<rparr>"

section \<open>Lemmas\<close>

lemma mem_bms_set [simp]:
  "x \<in> bms_set (Some s) \<longleftrightarrow> x div 32 < nwords s \<and> bit (bwords s ! (x div 32)) (x mod 32)"
  by (simp add: bms_set_def)

lemma bms_set_None [simp]: "bms_set None = {}"
  by (simp add: bms_set_def)

lemma bms_wf_simps [simp]: "bms_wf None" "bms_wf (Some s) \<longleftrightarrow> length (bwords s) = nwords s"
  by (simp_all add: bms_wf_def)

lemma all_nat_divmod: "(\<forall>x::nat. P (x div 32) (x mod 32)) \<longleftrightarrow> (\<forall>q. \<forall>r<32. P q r)"
proof
  assume *: "\<forall>x::nat. P (x div 32) (x mod 32)"
  show "\<forall>q. \<forall>r<32. P q r"
  proof (intro allI impI)
    fix q r :: nat assume "r < 32"
    with * [rule_format, of "32 * q + r"] show "P q r" by simp
  qed
qed simp

lemma bitmapword_eq_iff: "w = v \<longleftrightarrow> (\<forall>r<32. bit w r = bit v r)" for w v :: bitmapword
  using bit_word_eqI [of w v] by auto

lemma bms_is_empty_correct: "bms_wf a \<Longrightarrow> bms_is_empty a \<longleftrightarrow> bms_set a = {}"
proof (cases a)
  case (Some s)
  have "bms_is_empty a \<longleftrightarrow> (\<forall>q. \<forall>r<32. q < nwords s \<longrightarrow> \<not> bit (bwords s ! q) r)"
    by (auto simp: Some bms_is_empty_def list_all_iff bitmapword_eq_iff)
  also have "\<dots> \<longleftrightarrow> (\<forall>x. x \<notin> bms_set a)"
    by (simp add: Some all_nat_divmod [symmetric, of "\<lambda>q r. q < nwords s \<longrightarrow> \<not> bit (bwords s ! q) r"])
  finally show ?thesis by blast
qed (simp add: bms_is_empty_def)

lemma bms_copy_id [simp]: "bms_copy a = a"
  by (cases a) (simp_all add: bms_copy_def)

lemma bms_equal_correct:
  "bms_wf a \<Longrightarrow> bms_wf b \<Longrightarrow> bms_equal a b \<longleftrightarrow> bms_set a = bms_set b"
proof (cases a; cases b)
  fix sa sb assume wf: "bms_wf a" "bms_wf b" and eq: "a = Some sa" "b = Some sb"
  have short: "bms_equal (Some s) (Some l) \<longleftrightarrow> bms_set (Some s) = bms_set (Some l)"
    if "nwords s \<le> nwords l" for s l
  proof -
    have "bms_equal (Some s) (Some l) \<longleftrightarrow>
      (\<forall>q. (q < nwords s \<longrightarrow> (\<forall>r<32. bit (bwords s ! q) r = bit (bwords l ! q) r)) \<and>
           (nwords s \<le> q \<longrightarrow> q < nwords l \<longrightarrow> (\<forall>r<32. \<not> bit (bwords l ! q) r)))"
      using that by (auto simp: bms_equal_def Let_def list_all_iff bitmapword_eq_iff)
    also have "\<dots> \<longleftrightarrow>
      (\<forall>q. \<forall>r<32. (q < nwords s \<and> bit (bwords s ! q) r) = (q < nwords l \<and> bit (bwords l ! q) r))"
      using that by (intro iff_allI) (auto simp: not_less)
    also have "\<dots> \<longleftrightarrow> bms_set (Some s) = bms_set (Some l)"
      by (subst all_nat_divmod [symmetric]) (simp add: set_eq_iff)
    finally show ?thesis .
  qed
  have sym: "bms_equal (Some sa) (Some sb) = bms_equal (Some sb) (Some sa)" if "\<not> nwords sa \<le> nwords sb"
    using that by (simp add: bms_equal_def)
  show "bms_equal a b \<longleftrightarrow> bms_set a = bms_set b"
    using short [of sa sb] short [of sb sa] sym by (cases "nwords sa \<le> nwords sb") (auto simp: eq)
qed (auto simp: bms_equal_def bms_is_empty_correct)

lemma bms_union_correct:
  "bms_wf a \<Longrightarrow> bms_wf b \<Longrightarrow> bms_wf (bms_union a b) \<and> bms_set (bms_union a b) = bms_set a \<union> bms_set b"
  by (cases a; cases b) (auto simp: bms_union_def nth_for_update bit_simps split: if_splits)

lemma bms_intersect_correct:
  "bms_wf a \<Longrightarrow> bms_wf b \<Longrightarrow> bms_wf (bms_intersect a b) \<and> bms_set (bms_intersect a b) = bms_set a \<inter> bms_set b"
  by (cases a; cases b) (auto simp: bms_intersect_def nth_for_update bit_simps)

lemma bms_difference_correct:
  "bms_wf a \<Longrightarrow> bms_wf b \<Longrightarrow> bms_wf (bms_difference a b) \<and> bms_set (bms_difference a b) = bms_set a - bms_set b"
  by (cases a; cases b) (auto simp: bms_difference_def nth_for_update bit_simps split: if_splits)

lemma bms_add_members_correct:
  "bms_wf a \<Longrightarrow> bms_wf b \<Longrightarrow> bms_wf (bms_add_members a b) \<and> bms_set (bms_add_members a b) = bms_set a \<union> bms_set b"
  by (cases a; cases b) (auto simp: bms_add_members_def nth_for_update bit_simps split: if_splits)

lemma bms_join_correct:
  "bms_wf a \<Longrightarrow> bms_wf b \<Longrightarrow> bms_wf (bms_join a b) \<and> bms_set (bms_join a b) = bms_set a \<union> bms_set b"
  by (cases a; cases b) (auto simp: bms_join_def nth_for_update bit_simps split: if_splits)

lemma bms_int_members_correct:
  "bms_wf a \<Longrightarrow> bms_wf b \<Longrightarrow> bms_wf (bms_int_members a b) \<and> bms_set (bms_int_members a b) = bms_set a \<inter> bms_set b"
  by (cases a; cases b) (auto simp: bms_int_members_def Let_def nth_for_update bit_simps split: if_splits)

lemma bms_del_members_correct:
  "bms_wf a \<Longrightarrow> bms_wf b \<Longrightarrow> bms_wf (bms_del_members a b) \<and> bms_set (bms_del_members a b) = bms_set a - bms_set b"
  by (cases a; cases b) (auto simp: bms_del_members_def nth_for_update bit_simps split: if_splits)

lemma bms_nonempty_difference_eq: "bms_nonempty_difference a b = (\<not> bms_is_subset a b)"
  by (cases a; cases b) (auto simp: bms_nonempty_difference_def bms_is_subset_def Let_def list_all_iff list_ex_iff bms_is_empty_def)

lemma bms_is_subset_correct:
  assumes "bms_wf a" "bms_wf b" shows "bms_is_subset a b \<longleftrightarrow> bms_set a \<subseteq> bms_set b"
proof (cases a; cases b)
  fix sa sb assume eq: "a = Some sa" "b = Some sb"
  have "bms_is_subset a b \<longleftrightarrow>
    (\<forall>q. (q < nwords sa \<and> q < nwords sb \<longrightarrow> (\<forall>r<32. bit (bwords sa ! q) r \<longrightarrow> bit (bwords sb ! q) r)) \<and>
         (nwords sb \<le> q \<longrightarrow> q < nwords sa \<longrightarrow> (\<forall>r<32. \<not> bit (bwords sa ! q) r)))"
    by (auto simp: eq bms_is_subset_def Let_def list_all_iff bitmapword_eq_iff bit_simps)
  also have "\<dots> \<longleftrightarrow>
    (\<forall>q. \<forall>r<32. (q < nwords sa \<and> bit (bwords sa ! q) r) \<longrightarrow> (q < nwords sb \<and> bit (bwords sb ! q) r))"
    by (intro iff_allI) (auto simp: not_less)
  also have "\<dots> \<longleftrightarrow> bms_set a \<subseteq> bms_set b"
    by (subst all_nat_divmod [symmetric]) (auto simp: subset_iff eq)
  finally show ?thesis .
qed (use assms in \<open>auto simp: bms_is_subset_def bms_is_empty_correct\<close>)

lemma bms_overlap_correct:
  assumes "bms_wf a" "bms_wf b" shows "bms_overlap a b \<longleftrightarrow> bms_set a \<inter> bms_set b \<noteq> {}"
proof (cases a; cases b)
  fix sa sb assume eq: "a = Some sa" "b = Some sb"
  have "\<not> bms_overlap a b \<longleftrightarrow>
    (\<forall>q. \<forall>r<32. \<not> ((q < nwords sa \<and> bit (bwords sa ! q) r) \<and> (q < nwords sb \<and> bit (bwords sb ! q) r)))"
    by (auto simp: eq bms_overlap_def list_ex_iff bitmapword_eq_iff Bex_def bit_simps)
  also have "\<dots> \<longleftrightarrow> bms_set a \<inter> bms_set b = {}"
    by (subst all_nat_divmod [symmetric]) (auto simp: eq)
  finally show ?thesis by blast
qed (auto simp: bms_overlap_def)

lemma WORDNUM_int [simp]: "WORDNUM (int n) = n div 32"
  by (simp add: WORDNUM_def)

lemma BITNUM_int [simp]: "BITNUM (int n) = n mod 32"
  by (simp add: BITNUM_def)

lemma bit_mask_word: "bit (2 ^ n :: bitmapword) i \<longleftrightarrow> i = n \<and> n < 32"
  by (auto simp: bit_exp_iff)

lemma and_mask_nonzero: "n < 32 \<Longrightarrow> w AND 2 ^ n \<noteq> 0 \<longleftrightarrow> bit (w :: bitmapword) n"
  by (auto simp: bitmapword_eq_iff bit_and_iff bit_mask_word)

lemma div_mod_eq_iff: "x = y \<longleftrightarrow> x div 32 = y div 32 \<and> x mod 32 = y mod (32::nat)"
  by (metis div_mult_mod_eq)

lemma bms_make_singleton_correct:
  "\<exists>b. bms_make_singleton (int n) = Inr b \<and> bms_wf b \<and> bms_set b = {n}"
  by (auto simp: bms_make_singleton_def Let_def nth_list_update bit_mask_word div_mod_eq_iff [of _ n]
      simp del: replicate_Suc split: if_splits)

lemma bms_is_member_correct:
  "bms_wf a \<Longrightarrow> bms_is_member (int n) a = Inr (n \<in> bms_set a)"
  by (cases a) (simp_all add: bms_is_member_def Let_def and_mask_nonzero not_le [symmetric])

lemma bms_add_member_correct:
  assumes "bms_wf a"
  shows "\<exists>b. bms_add_member a (int n) = Inr b \<and> bms_wf b \<and> bms_set b = insert n (bms_set a)"
proof (cases a)
  case None
  then show ?thesis using bms_make_singleton_correct [of n] by (simp add: bms_add_member_def)
next
  case (Some s)
  show ?thesis
  proof (cases "n div 32 \<ge> nwords s")
    case True
    from bms_make_singleton_correct [of n] obtain r where
      r: "bms_make_singleton (int n) = Inr (Some r)" "bms_wf (Some r)" "bms_set (Some r) = {n}" "nwords r = n div 32 + 1"
      by (auto simp: bms_make_singleton_def Let_def)
    let ?b = "r\<lparr>bwords := for_update 0 (nwords s) (\<lambda>i w. w OR bwords s ! i) (bwords r)\<rparr>"
    have "x \<in> bms_set (Some ?b) \<longleftrightarrow> x \<in> bms_set (Some r) \<or> x \<in> bms_set (Some s)" for x
      using True r(2,4) by (auto simp: nth_for_update bit_or_iff split: if_splits)
    then have "bms_set (Some ?b) = insert n (bms_set a)"
      using r(3) Some by blast
    then show ?thesis
      using True r(1,2) by (intro exI [of _ "Some ?b"]) (simp add: Some bms_add_member_def)
  next
    case False
    then show ?thesis
      using assms by (auto simp: Some bms_add_member_def Let_def nth_list_update bit_or_iff bit_mask_word
        div_mod_eq_iff [of _ n] split: if_splits)
  qed
qed

lemma bms_del_member_correct:
  assumes "bms_wf a"
  shows "\<exists>b. bms_del_member a (int n) = Inr b \<and> bms_wf b \<and> bms_set b = bms_set a - {n}"
  using assms
  by (cases a) (auto simp: bms_del_member_def Let_def nth_list_update bit_and_iff bit_not_iff bit_mask_word
        div_mod_eq_iff [of _ n] split: if_splits)

lemma bms_negative_member:
  "x < 0 \<Longrightarrow> bms_is_member x a = Inl (Elog ''negative bitmapset member not allowed'')
     \<and> bms_make_singleton x = Inl (Elog ''negative bitmapset member not allowed'')
     \<and> bms_add_member a x = Inl (Elog ''negative bitmapset member not allowed'')
     \<and> bms_del_member a x = Inl (Elog ''negative bitmapset member not allowed'')"
  by (simp add: bms_is_member_def bms_make_singleton_def bms_add_member_def bms_del_member_def)

lemma rightmost_one_pos_table:
  "rightmost_one_pos = 0 # map (\<lambda>b. length (takeWhile (\<lambda>i. \<not> bit b i) [0..<8])) [1::int..255]"
  unfolding rightmost_one_pos_def by code_simp

lemma number_of_ones_table:
  "number_of_ones = map (\<lambda>b. length (filter (bit b) [0..<8])) [0::int..255]"
  unfolding number_of_ones_def by code_simp

lemma rightmost_one_pos_byte:
  "0 < b \<Longrightarrow> b < 256 \<Longrightarrow>
   rightmost_one_pos ! b = length (takeWhile (\<lambda>i. \<not> bit (int b) i) [0..<8])"
  using nth_upto [of 1 "b - 1" 255] by (simp add: rightmost_one_pos_table nth_Cons' of_nat_diff)

lemma number_of_ones_byte:
  "b < 256 \<Longrightarrow> number_of_ones ! b = length (filter (bit (int b)) [0..<8])"
  by (simp add: number_of_ones_table nth_upto)

lemma length_takeWhile_Least:
  "P k \<Longrightarrow> k < n \<Longrightarrow> length (takeWhile (\<lambda>i. \<not> P i) [0..<n]) = Least P"
proof -
  assume P: "P k" and k: "k < n"
  have l: "P (Least P)" "Least P \<le> k" using P by (auto intro: LeastI Least_le)
  then have "takeWhile (\<lambda>i. \<not> P i) [0..<n] = take (Least P) [0..<n]"
    by (intro takeWhile_eq_take_P_nth) (auto dest: not_less_Least)
  then show ?thesis using l k by simp
qed

lemma and_255: "(w :: bitmapword) AND 255 = take_bit 8 w"
  by (simp add: take_bit_eq_mask mask_eq_exp_minus_1)

lemma bit_int_unat: "bit (int (unat w)) i = bit (w :: 'a::len word) i"
  by (simp flip: uint_nat) (auto simp: bit_uint_iff dest: bit_imp_le_length)

lemma bit_int_byte: "bit (int (unat (take_bit 8 w))) i \<longleftrightarrow> i < 8 \<and> bit (w :: bitmapword) i"
  by (simp only: bit_int_unat bit_take_bit_iff)

lemma unat_byte_less: "unat (take_bit 8 (w :: bitmapword)) < 256"
  using take_bit_nat_less_exp [of 8 "unat w"] by (simp add: unsigned_take_bit_eq)

lemma rightmost_one_pos_nth:
  assumes "take_bit 8 w \<noteq> (0 :: bitmapword)"
  shows "rightmost_one_pos ! unat (take_bit 8 w) = lsb_pos w"
proof -
  let ?b = "unat (take_bit 8 w)"
  from assms obtain k where k: "k < 8" "bit w k"
    using word_nonzero_bit [OF assms] by (auto simp: bit_take_bit_iff)
  have "0 < ?b" using assms by (simp add: unat_gt_0)
  then have "rightmost_one_pos ! ?b = length (takeWhile (\<lambda>i. \<not> bit (int ?b) i) [0..<8])"
    using unat_byte_less by (rule rightmost_one_pos_byte)
  also have "\<dots> = length (takeWhile (\<lambda>i. \<not> (i < 8 \<and> bit w i)) [0..<8])"
    by (simp only: bit_int_byte)
  also have "\<dots> = (LEAST i. i < 8 \<and> bit w i)"
    using k by (intro length_takeWhile_Least [where k = k]) auto
  also have "\<dots> = lsb_pos w"
  proof (rule Least_equality)
    show "lsb_pos w < 8 \<and> bit w (lsb_pos w)"
      using k lsb_pos_le [of w k] bit_lsb_pos [of w] by (cases "w = 0") auto
  qed (auto intro: lsb_pos_le)
  finally show ?thesis .
qed

lemma number_of_ones_nth:
  "number_of_ones ! unat (take_bit 8 w) = card {i. i < 8 \<and> bit (w :: bitmapword) i}"
proof -
  let ?b = "unat (take_bit 8 w)"
  have "number_of_ones ! ?b = length (filter (bit (int ?b)) [0..<8])"
    using unat_byte_less by (rule number_of_ones_byte)
  also have "\<dots> = card (set (filter (bit (int ?b)) [0..<8]))"
    by (subst distinct_card) auto
  also have "set (filter (bit (int ?b)) [0..<8]) = {i. i < 8 \<and> bit w i}"
    using bit_int_byte [of w] by auto
  finally show ?thesis .
qed

lemma rightmost_byte_loop_correct:
  "w \<noteq> 0 \<Longrightarrow> rightmost_byte_loop w r = Some (r + int (lsb_pos w))"
proof (induction "lsb_pos w" arbitrary: w r rule: less_induct)
  case less
  show ?case
  proof (cases "take_bit 8 w = 0")
    case False
    then show ?thesis
      by (subst rightmost_byte_loop.simps) (simp add: and_255 rightmost_one_pos_nth)
  next
    case True
    have low: "\<not> bit w i" if "i < 8" for i
      using arg_cong [OF True, of "\<lambda>v. bit v i"] that by (simp add: bit_take_bit_iff)
    have ge: "8 \<le> lsb_pos w"
      using bit_lsb_pos [OF less.prems] low by (metis not_le)
    have bd: "bit (drop_bit 8 w) (lsb_pos w - 8)"
      using bit_lsb_pos [OF less.prems] ge by (simp add: bit_drop_bit_eq)
    have lsb: "lsb_pos (drop_bit 8 w) = lsb_pos w - 8"
    proof (rule lsb_pos_eqI [OF bd])
      show "\<not> bit (drop_bit 8 w) i" if "i < lsb_pos w - 8" for i
        using that not_bit_below_lsb [of "8 + i" w] by (simp add: bit_drop_bit_eq)
    qed
    have "drop_bit 8 w \<noteq> 0"
    proof
      assume "drop_bit 8 w = 0"
      with bd show False by simp
    qed
    then have "rightmost_byte_loop (drop_bit 8 w) (r + 8) = Some (r + 8 + int (lsb_pos w - 8))"
      using less.hyps [of "drop_bit 8 w" "r + 8"] ge lsb by simp
    then show ?thesis
      using True ge by (subst rightmost_byte_loop.simps) (simp add: and_255 of_nat_diff)
  qed
qed

lemma mem_word_bits [simp]: "r \<in> word_bits w \<longleftrightarrow> bit w r"
  by (simp add: word_bits_def)

lemma word_bits_less: "r \<in> word_bits w \<Longrightarrow> r < 32"
  using bit_imp_le_length [of w r] by simp

lemma finite_word_bits [simp]: "finite (word_bits w)"
  by (rule finite_subset [OF _ finite_lessThan [of 32]]) (auto dest: word_bits_less simp del: mem_word_bits)

lemma word_bits_empty [simp]: "word_bits w = {} \<longleftrightarrow> w = 0"
  using word_nonzero_bit [of w] by fastforce

lemma word_bits_0 [simp]: "word_bits 0 = {}"
  by simp

lemma mem_words_members:
  "x \<in> words_members k ws \<longleftrightarrow>
     k \<le> x div 32 \<and> x div 32 < k + length ws \<and> bit (ws ! (x div 32 - k)) (x mod 32)"
proof (induction ws arbitrary: k)
  case (Cons w ws)
  have hd: "x \<in> (\<lambda>r. 32 * k + r) ` word_bits w \<longleftrightarrow> x div 32 = k \<and> bit w (x mod 32)"
    using bit_imp_le_length [of w]
    by (auto simp: image_iff intro!: bexI [of _ "x mod 32"])
  show ?case
    by (auto simp: hd Cons.IH nth_Cons' Suc_diff_le)
qed simp

lemma bms_set_words: "bms_wf (Some s) \<Longrightarrow> bms_set (Some s) = words_members 0 (bwords s)"
  by (auto simp: mem_words_members)

lemma finite_words_members [simp]: "finite (words_members k ws)"
  by (induction ws arbitrary: k) (auto intro: finite_subset [OF _ finite_lessThan [of 32]] dest: bit_imp_le_length)

lemma finite_bms_set: "bms_wf a \<Longrightarrow> finite (bms_set a)"
  by (cases a) (auto simp: bms_set_words simp del: mem_bms_set)

lemma words_members_disjoint: "(\<lambda>r. 32 * k + r) ` word_bits w \<inter> words_members (Suc k) ws = {}"
  using word_bits_less [of _ w] by (fastforce simp: mem_words_members)

lemma card_words_members_Cons:
  "card (words_members k (w # ws)) = card (word_bits w) + card (words_members (Suc k) ws)"
  by (simp add: card_Un_disjoint words_members_disjoint card_image)

lemma bits_shift8: "word_bits w = {i. i < 8 \<and> bit w i} \<union> (+) 8 ` word_bits (drop_bit 8 w)"
proof (intro set_eqI iffI)
  fix r assume "r \<in> word_bits w"
  then show "r \<in> {i. i < 8 \<and> bit w i} \<union> (+) 8 ` word_bits (drop_bit 8 w)"
    by (cases "r < 8") (auto simp: bit_drop_bit_eq image_iff intro!: bexI [of _ "r - 8"])
qed (auto simp: bit_drop_bit_eq)

lemma count_ones_loop_correct: "count_ones_loop w r = r + int (card (word_bits w))"
proof (induction w r rule: count_ones_loop.induct)
  case (1 w r)
  have "card (word_bits w) = card {i. i < 8 \<and> bit w i} + card (word_bits (drop_bit 8 w))"
    by (subst bits_shift8, subst card_Un_disjoint) (auto simp: card_image)
  then show ?case
    using 1 by (subst count_ones_loop.simps) (simp add: and_255 number_of_ones_nth)
qed

lemma fold_count_ones: "fold count_ones_loop ws r = r + int (card (words_members k ws))"
proof (induction ws arbitrary: k r)
  case (Cons w ws)
  have "fold count_ones_loop (w # ws) r = fold count_ones_loop ws (count_ones_loop w r)" by simp
  also have "\<dots> = count_ones_loop w r + int (card (words_members (Suc k) ws))" by (rule Cons.IH)
  finally show ?case
    by (simp only: count_ones_loop_correct [of w r] card_words_members_Cons of_nat_add add.assoc)
qed simp

lemma bms_num_members_correct:
  assumes "bms_wf a" shows "bms_num_members a = int (card (bms_set a))"
proof (cases a)
  case (Some s)
  then have "bms_num_members a = fold count_ones_loop (bwords s) 0"
    using assms by (simp add: bms_num_members_def)
  also have "\<dots> = int (card (words_members 0 (bwords s)))"
    using fold_count_ones [of "bwords s" 0 0] by simp
  finally show ?thesis using Some assms by (simp only: bms_set_words)
qed (simp add: bms_num_members_def)

lemma rightmost_one_bits: "word_bits (RIGHTMOST_ONE w) = (if w = 0 then {} else {lsb_pos w})"
  by (auto simp: RIGHTMOST_ONE_def bit_and_minus)

lemma bit_rightmost_one: "bit (RIGHTMOST_ONE w) n \<longleftrightarrow> w \<noteq> 0 \<and> n = lsb_pos w"
  by (simp add: RIGHTMOST_ONE_def bit_and_minus)

lemma rightmost_one_nonzero: "w \<noteq> 0 \<Longrightarrow> RIGHTMOST_ONE w \<noteq> 0"
  using rightmost_one_bits [of w] by (simp flip: word_bits_empty)

lemma lsb_rightmost_one: "w \<noteq> 0 \<Longrightarrow> lsb_pos (RIGHTMOST_ONE w) = lsb_pos w"
  by (rule lsb_pos_eqI) (auto simp: bit_rightmost_one)

lemma bitmapword_eq_bits: "w = v \<longleftrightarrow> word_bits w = word_bits v" for w v :: bitmapword
proof
  assume "word_bits w = word_bits v"
  then show "w = v" by (simp add: bitmapword_eq_iff set_eq_iff)
qed simp

lemma has_multiple_ones_correct:
  assumes w: "w \<noteq> 0" shows "HAS_MULTIPLE_ONES w \<longleftrightarrow> card (word_bits w) \<noteq> 1"
proof -
  have lsb: "lsb_pos w \<in> word_bits w" using bit_lsb_pos [OF w] by simp
  have "RIGHTMOST_ONE w = w \<longleftrightarrow> {lsb_pos w} = word_bits w"
    unfolding bitmapword_eq_bits [of _ w] rightmost_one_bits using w by (simp only: if_False)
  also have "\<dots> \<longleftrightarrow> card (word_bits w) = 1"
    using lsb unfolding card_1_singleton_iff One_nat_def by fastforce
  finally show ?thesis by (simp only: HAS_MULTIPLE_ONES_def)
qed

lemma membership_loop_correct:
  "membership_loop ws BMS_SINGLETON = (if words_members k ws = {} then BMS_SINGLETON else BMS_MULTIPLE)"
  "membership_loop ws BMS_EMPTY_SET =
     (if card (words_members k ws) = 0 then BMS_EMPTY_SET
      else if card (words_members k ws) = 1 then BMS_SINGLETON else BMS_MULTIPLE)"
proof (induction ws arbitrary: k)
  case (Cons w ws)
  { case 1 show ?case
      using Cons.IH(1) [of "Suc k"] word_bits_empty [of w] by auto }
  { case 2 show ?case
    proof (cases "w = 0")
      case True
      then show ?thesis using Cons.IH(2) [of "Suc k"] by simp
    next
      case False
      then have "card (word_bits w) \<noteq> 0" by simp
      moreover have "card (words_members (Suc k) ws) = 0 \<longleftrightarrow> words_members (Suc k) ws = {}" by simp
      ultimately show ?thesis
        using Cons.IH(1) [of "Suc k"] has_multiple_ones_correct [OF False]
        unfolding card_words_members_Cons by (cases "card (word_bits w)") (auto simp: False)
    qed }
qed simp_all

lemma bms_membership_correct:
  assumes "bms_wf a"
  shows "bms_membership a =
     (if card (bms_set a) = 0 then BMS_EMPTY_SET
      else if card (bms_set a) = 1 then BMS_SINGLETON else BMS_MULTIPLE)"
proof (cases a)
  case (Some s)
  then have "bms_membership a = membership_loop (bwords s) BMS_EMPTY_SET"
    using assms by (simp add: bms_membership_def)
  then show ?thesis
    using Some assms membership_loop_correct(2) [of "bwords s" 0] by (simp only: bms_set_words)
qed (simp add: bms_membership_def)

lemma singleton_member_loop_found:
  "0 \<le> result \<Longrightarrow> singleton_member_loop ws k result =
     Some (if words_members k ws = {} then Inr result else Inl (Elog ''bitmapset has multiple members''))"
proof (induction ws arbitrary: k)
  case (Cons w ws)
  then show ?case using word_bits_empty [of w] by (cases "w = 0") auto
qed simp

lemma singleton_member_loop_correct:
  "singleton_member_loop ws k (- 1) =
     Some (if words_members k ws = {} then Inl (Elog ''bitmapset is empty'')
           else if card (words_members k ws) = 1 then Inr (int (Min (words_members k ws)))
           else Inl (Elog ''bitmapset has multiple members''))"
proof (induction ws arbitrary: k)
  case (Cons w ws)
  let ?B = "word_bits w"
  show ?case
  proof (cases "w = 0")
    case True
    then show ?thesis using Cons.IH [of "Suc k"] by simp
  next
    case w: False
    have ne: "words_members k (w # ws) \<noteq> {}"
      using bit_lsb_pos [OF w] by auto
    show ?thesis
    proof (cases "card ?B = 1")
      case False
      then have "card (words_members k (w # ws)) \<noteq> 1"
        using w unfolding card_words_members_Cons by (cases "card (word_bits w)") auto
      then show ?thesis
        using ne w False has_multiple_ones_correct [OF w] by (simp del: words_members.simps)
    next
      case True
      then have B: "?B = {lsb_pos w}"
        using bit_lsb_pos [OF w] mem_word_bits [of "lsb_pos w" w]
        unfolding card_1_singleton_iff One_nat_def by fastforce
      have wm: "words_members k (w # ws) = insert (32 * k + lsb_pos w) (words_members (Suc k) ws)"
        by (simp add: B)
      have c: "card (words_members k (w # ws)) = 1 \<longleftrightarrow> words_members (Suc k) ws = {}"
        unfolding card_words_members_Cons True by simp
      have "singleton_member_loop (w # ws) k (- 1) =
          singleton_member_loop ws (Suc k) (int (k * 32) + int (lsb_pos w))"
        using w True has_multiple_ones_correct [OF w] by (simp add: rightmost_byte_loop_correct)
      also have "\<dots> = Some (if words_members (Suc k) ws = {} then Inr (int (k * 32) + int (lsb_pos w))
           else Inl (Elog ''bitmapset has multiple members''))"
        by (rule singleton_member_loop_found) simp
      finally show ?thesis
        unfolding c if_not_P [OF ne] by (simp add: B)
    qed
  qed
qed simp

lemma bms_singleton_member_correct:
  assumes "bms_wf a"
  shows "bms_singleton_member a =
     Some (if bms_set a = {} then Inl (Elog ''bitmapset is empty'')
           else if card (bms_set a) = 1 then Inr (int (Min (bms_set a)))
           else Inl (Elog ''bitmapset has multiple members''))"
proof (cases a)
  case (Some s)
  then have "bms_singleton_member a = singleton_member_loop (bwords s) 0 (- 1)"
    using assms by (simp add: bms_singleton_member_def)
  then show ?thesis
    using Some assms singleton_member_loop_correct [of "bwords s" 0] by (simp only: bms_set_words)
qed (simp add: bms_singleton_member_def)

lemma bms_clear_rightmost:
  assumes "length (bwords s) = nwords s" "k < nwords s" and w: "bwords s ! k \<noteq> 0"
  shows "bms_set (Some (s\<lparr>bwords := (bwords s)[k := bwords s ! k AND NOT (RIGHTMOST_ONE (bwords s ! k))]\<rparr>))
           = bms_set (Some s) - {32 * k + lsb_pos (bwords s ! k)}" (is "bms_set (Some ?s') = _ - {?m}")
proof (rule set_eqI)
  fix x
  have "?m div 32 = k" "?m mod 32 = lsb_pos (bwords s ! k)"
    using lsb_pos_less [OF w] by simp_all
  then have x: "x = ?m \<longleftrightarrow> x div 32 = k \<and> x mod 32 = lsb_pos (bwords s ! k)"
    using div_mod_eq_iff [of x ?m] by simp
  show "x \<in> bms_set (Some ?s') \<longleftrightarrow> x \<in> bms_set (Some s) - {?m}"
  proof (cases "x div 32 = k")
    case True
    then show ?thesis
      using assms x by (auto simp: bit_and_iff bit_not_iff bit_rightmost_one)
  next
    case False
    then show ?thesis using assms x by simp
  qed
qed

lemma first_member_loop_correct:
  assumes "length (bwords s) = nwords s" "n \<le> nwords s"
    and "\<forall>i < nwords s - n. bwords s ! i = 0"
  shows "(bms_set (Some s) = {} \<and> first_member_loop s n = Some (- 1, s)) \<or>
    (\<exists>s'. bms_set (Some s) \<noteq> {} \<and> first_member_loop s n = Some (int (Min (bms_set (Some s))), s')
       \<and> nwords s' = nwords s \<and> length (bwords s') = nwords s
       \<and> bms_set (Some s') = bms_set (Some s) - {Min (bms_set (Some s))})"
  using assms
proof (induction n)
  case 0
  then have "bms_set (Some s) = {}" by auto
  then show ?case by simp
next
  case (Suc n)
  let ?k = "nwords s - Suc n"
  let ?w = "bwords s ! ?k"
  have k: "?k < nwords s" using Suc.prems(2) by simp
  show ?case
  proof (cases "?w = 0")
    case True
    have "\<forall>i < nwords s - n. bwords s ! i = 0"
    proof -
      have "nwords s - n = Suc ?k" using Suc.prems(2) by simp
      then show ?thesis using Suc.prems(3) True by (simp add: less_Suc_eq)
    qed
    moreover have "first_member_loop s (Suc n) = first_member_loop s n"
      using True by simp
    ultimately show ?thesis
      using Suc.IH [OF Suc.prems(1) Suc_leD [OF Suc.prems(2)]] by (simp only:)
  next
    case False
    define m where "m = 32 * ?k + lsb_pos ?w"
    define s' where "s' = s\<lparr>bwords := (bwords s)[?k := ?w AND NOT (RIGHTMOST_ONE ?w)]\<rparr>"
    have lsb32: "lsb_pos ?w < 32" using lsb_pos_less [OF False] by simp
    have m: "m div 32 = ?k" "m mod 32 = lsb_pos ?w"
      using lsb32 by (simp_all add: m_def)
    note R = rightmost_one_nonzero [OF False] lsb_rightmost_one [OF False]
    have mem: "m \<in> bms_set (Some s)"
      using k bit_lsb_pos [OF False] by (simp add: m)
    have "m \<le> x" if "x \<in> bms_set (Some s)" for x
    proof -
      have x: "x div 32 < nwords s" "bit (bwords s ! (x div 32)) (x mod 32)" using that by auto
      then have "?k \<le> x div 32" using Suc.prems(3) by (cases "?k \<le> x div 32") auto
      then consider "?k < x div 32" | "?k = x div 32" by linarith
      then show ?thesis
      proof cases
        case 1
        then have "32 * (?k + 1) \<le> 32 * (x div 32)" by simp
        then show ?thesis using lsb32 by (simp add: m_def)
      next
        case 2
        then have "lsb_pos ?w \<le> x mod 32" using x(2) lsb_pos_le by metis
        then show ?thesis using mult_div_mod_eq [of 32 x] unfolding m_def 2 by linarith
      qed
    qed
    then have min: "Min (bms_set (Some s)) = m"
      using mem finite_bms_set [of "Some s"] Suc.prems(1) by (intro Min_eqI) auto
    have "bms_set (Some s') = bms_set (Some s) - {m}"
      unfolding s'_def m_def using Suc.prems(1) k False by (rule bms_clear_rightmost)
    moreover have "first_member_loop s (Suc n) = Some (int m, s')"
      using False R by (simp add: s'_def rightmost_byte_loop_correct m_def Let_def)
    ultimately show ?thesis
      using mem min Suc.prems(1)
      by (intro disjI2 exI [of _ s'] conjI) (auto simp: s'_def simp del: mem_bms_set)
  qed
qed

lemma bms_first_member_empty:
  assumes "bms_wf a" "bms_set a = {}"
  shows "bms_first_member a = Some (- 1, a)"
proof (cases a)
  case (Some s)
  then show ?thesis
    using assms first_member_loop_correct [of s "nwords s"]
    by (auto simp: bms_first_member_def simp del: mem_bms_set)
qed (simp add: bms_first_member_def)

lemma bms_first_member_nonempty:
  assumes "bms_wf a" "bms_set a \<noteq> {}"
  shows "\<exists>a'. bms_first_member a = Some (int (Min (bms_set a)), a') \<and> bms_wf a'
           \<and> bms_set a' = bms_set a - {Min (bms_set a)}"
proof (cases a)
  case (Some s)
  then show ?thesis
    using assms first_member_loop_correct [of s "nwords s"]
    by (auto simp: bms_first_member_def simp del: mem_bms_set)
qed (use assms in simp)

lemma last_nonzero_word_cases:
  "(last_nonzero_word ws n = - 1 \<and> (\<forall>i<n. ws ! i = 0)) \<or>
   (\<exists>l<n. last_nonzero_word ws n = int l \<and> ws ! l \<noteq> 0 \<and> (\<forall>i. l < i \<longrightarrow> i < n \<longrightarrow> ws ! i = 0))"
proof (induction n)
  case (Suc n)
  then show ?case
    by (cases "ws ! n = 0") (auto simp: less_Suc_eq)
qed simp

lemma last_nonzero_word_eqI:
  "l < n \<Longrightarrow> ws ! l \<noteq> 0 \<Longrightarrow> (\<And>i. l < i \<Longrightarrow> i < n \<Longrightarrow> ws ! i = 0) \<Longrightarrow> last_nonzero_word ws n = int l"
  using last_nonzero_word_cases [of ws n]
proof (elim disjE exE conjE)
  fix k assume "l < n" "ws ! l \<noteq> 0" "\<And>i. l < i \<Longrightarrow> i < n \<Longrightarrow> ws ! i = 0"
    "k < n" "last_nonzero_word ws n = int k" "ws ! k \<noteq> 0" "\<forall>i. k < i \<longrightarrow> i < n \<longrightarrow> ws ! i = 0"
  then show ?thesis by (cases l k rule: linorder_cases) auto
qed auto

lemma bms_hash_value_shorter:
  assumes wf: "length (bwords s) = nwords s" "length (bwords l) = nwords l"
    and le: "nwords s \<le> nwords l" and eq: "bms_equal (Some s) (Some l)"
  shows "bms_hash_value be (Some s) = bms_hash_value be (Some l)"
proof -
  have same: "bwords l ! i = bwords s ! i" if "i < nwords s" for i
    using eq le that by (simp add: bms_equal_def Let_def list_all_iff)
  have zero: "bwords l ! i = 0" if "nwords s \<le> i" "i < nwords l" for i
    using eq le that by (simp add: bms_equal_def Let_def list_all_iff)
  from last_nonzero_word_cases [of "bwords s" "nwords s"] show ?thesis
  proof (elim disjE exE conjE)
    assume s: "last_nonzero_word (bwords s) (nwords s) = - 1" "\<forall>i<nwords s. bwords s ! i = 0"
    then have "\<forall>i<nwords l. bwords l ! i = 0" using same zero by (metis not_le)
    then have "last_nonzero_word (bwords l) (nwords l) = - 1"
      using last_nonzero_word_cases [of "bwords l" "nwords l"] by auto
    with s show ?thesis by (simp add: bms_hash_value_def)
  next
    fix k assume k: "k < nwords s" "last_nonzero_word (bwords s) (nwords s) = int k"
      "bwords s ! k \<noteq> 0" "\<forall>i. k < i \<longrightarrow> i < nwords s \<longrightarrow> bwords s ! i = 0"
    have "last_nonzero_word (bwords l) (nwords l) = int k"
    proof (rule last_nonzero_word_eqI)
      show "k < nwords l" "bwords l ! k \<noteq> 0" using k le same by simp_all
      show "bwords l ! i = 0" if "k < i" "i < nwords l" for i
        using that k(4) same [of i] zero [of i] by (cases "i < nwords s") auto
    qed
    moreover have "take (Suc k) (bwords l) = take (Suc k) (bwords s)"
      using k(1) le wf same by (intro nth_equalityI) auto
    ultimately show ?thesis
      using k(2) by (simp add: bms_hash_value_def nat_add_distrib)
  qed
qed

lemma bms_is_empty_hash: "bms_is_empty a \<Longrightarrow> bms_hash_value be a = 0"
proof (cases a)
  case (Some s)
  assume "bms_is_empty a"
  then have "\<forall>i<nwords s. bwords s ! i = 0"
    by (simp add: Some bms_is_empty_def list_all_iff)
  then have "last_nonzero_word (bwords s) (nwords s) = - 1"
    using last_nonzero_word_cases [of "bwords s" "nwords s"] by auto
  then show ?thesis by (simp add: Some bms_hash_value_def)
qed (simp add: bms_hash_value_def)

lemma bms_hash_value_correct:
  assumes "bms_wf a" "bms_wf b" "bms_equal a b"
  shows "bms_hash_value be a = bms_hash_value be b"
proof (cases a; cases b)
  fix s l assume ab: "a = Some s" "b = Some l"
  show ?thesis
  proof (cases "nwords s \<le> nwords l")
    case True
    then show ?thesis using assms ab bms_hash_value_shorter [of s l] by simp
  next
    case False
    then have "bms_equal (Some l) (Some s)" using assms(3) ab by (simp add: bms_equal_def)
    then show ?thesis using False assms ab bms_hash_value_shorter [of l s] by simp
  qed
qed (use assms(3) in \<open>auto simp: bms_equal_def bms_is_empty_hash intro: bms_is_empty_hash [symmetric]
       simp: bms_hash_value_def [of _ None]\<close>)

section \<open>The interface of integer sets\<close>

text \<open>
  What the users of the package rely on: each operation, seen through the abstraction \<open>abs\<close>,
  is the operation on mathematical sets, and the invariant is kept.
\<close>

locale integer_set =
  fixes invar :: "'s \<Rightarrow> bool"
    and abs :: "'s \<Rightarrow> nat set"
    and add :: "'s \<Rightarrow> int \<Rightarrow> pg_error + 's"
    and del :: "'s \<Rightarrow> int \<Rightarrow> pg_error + 's"
    and mem :: "int \<Rightarrow> 's \<Rightarrow> pg_error + bool"
    and first :: "'s \<Rightarrow> (int \<times> 's) option"
  assumes abs_finite: "invar s \<Longrightarrow> finite (abs s)"
    and add_spec: "invar s \<Longrightarrow> \<exists>s'. add s (int n) = Inr s' \<and> invar s' \<and> abs s' = insert n (abs s)"
    and del_spec: "invar s \<Longrightarrow> \<exists>s'. del s (int n) = Inr s' \<and> invar s' \<and> abs s' = abs s - {n}"
    and mem_spec: "invar s \<Longrightarrow> mem (int n) s = Inr (n \<in> abs s)"
    and first_none: "invar s \<Longrightarrow> abs s = {} \<Longrightarrow> first s = Some (- 1, s)"
    and first_some: "invar s \<Longrightarrow> abs s \<noteq> {} \<Longrightarrow>
      \<exists>s'. first s = Some (int (Min (abs s)), s') \<and> invar s' \<and> abs s' = abs s - {Min (abs s)}"
begin

lemma iterate_sorted:
  "invar s \<Longrightarrow> iterate_first first s = Some (map int (sorted_list_of_set (abs s)))"
proof (induction "card (abs s)" arbitrary: s rule: less_induct)
  case less
  show ?case
  proof (cases "abs s = {}")
    case True
    then show ?thesis
      using first_none [OF less.prems] by (subst iterate_first.simps) simp
  next
    case False
    from first_some [OF less.prems False] obtain s' where
      s': "first s = Some (int (Min (abs s)), s')" "invar s'" "abs s' = abs s - {Min (abs s)}"
      by blast
    have "card (abs s') < card (abs s)"
      unfolding s'(3) using abs_finite [OF less.prems] False by (intro card_Diff1_less Min_in)
    then have "iterate_first first s' = Some (map int (sorted_list_of_set (abs s')))"
      using less.hyps s'(2) by blast
    then show ?thesis
      using s'(1,3) abs_finite [OF less.prems] False
      by (subst iterate_first.simps) (simp add: sorted_list_of_set_nonempty)
  qed
qed

lemma add_then_mem:
  "invar s \<Longrightarrow> add s (int n) = Inr s' \<Longrightarrow> mem (int m) s' = Inr (m = n \<or> m \<in> abs s)"
  using add_spec [of s n] mem_spec [of s' m] by auto

lemma del_then_mem:
  "invar s \<Longrightarrow> del s (int n) = Inr s' \<Longrightarrow> mem (int m) s' = Inr (m \<noteq> n \<and> m \<in> abs s)"
  using del_spec [of s n] mem_spec [of s' m] by auto

end

interpretation bms: integer_set bms_wf bms_set bms_add_member bms_del_member bms_is_member bms_first_member
proof (unfold_locales, goal_cases)
  case (1 s) then show ?case by (rule finite_bms_set)
next
  case (2 s n) then show ?case by (rule bms_add_member_correct)
next
  case (3 s n) then show ?case by (rule bms_del_member_correct)
next
  case (4 s n) then show ?case by (rule bms_is_member_correct)
next
  case (5 s) then show ?case by (rule bms_first_member_empty)
next
  case (6 s) then show ?case by (rule bms_first_member_nonempty)
qed

section \<open>Properties\<close>

text \<open>C39. The binary set operations keep well-formedness and compute union, intersection and
  difference of the sets they represent, whether they copy (\<^verbatim>\<open>bms_union\<close>, \<^verbatim>\<open>bms_intersect\<close>,
  \<^verbatim>\<open>bms_difference\<close>) or recycle their input (\<^verbatim>\<open>bms_add_members\<close>, \<^verbatim>\<open>bms_join\<close>,
  \<^verbatim>\<open>bms_int_members\<close>, \<^verbatim>\<open>bms_del_members\<close>), for NULL inputs and arrays of different lengths.\<close>

theorem bms_binary_ops_refine_sets:
  assumes "bms_wf a" "bms_wf b"
  shows "bms_set (bms_union a b) = bms_set a \<union> bms_set b
    \<and> bms_set (bms_add_members a b) = bms_set a \<union> bms_set b
    \<and> bms_set (bms_join a b) = bms_set a \<union> bms_set b
    \<and> bms_set (bms_intersect a b) = bms_set a \<inter> bms_set b
    \<and> bms_set (bms_int_members a b) = bms_set a \<inter> bms_set b
    \<and> bms_set (bms_difference a b) = bms_set a - bms_set b
    \<and> bms_set (bms_del_members a b) = bms_set a - bms_set b
    \<and> bms_wf (bms_union a b) \<and> bms_wf (bms_add_members a b) \<and> bms_wf (bms_join a b)
    \<and> bms_wf (bms_intersect a b) \<and> bms_wf (bms_int_members a b)
    \<and> bms_wf (bms_difference a b) \<and> bms_wf (bms_del_members a b)"
  using assms
  by (simp add: bms_union_correct bms_add_members_correct bms_join_correct bms_intersect_correct
      bms_int_members_correct bms_difference_correct bms_del_members_correct)

theorem bms_binary_ops_refine_sets_witness:
  "bms_set (bms_union bms_ex1 bms_ex2) = bms_set bms_ex1 \<union> bms_set bms_ex2
   \<and> bms_union bms_ex1 bms_ex2 = Some \<lparr>nwords = 2, bwords = [7, 1]\<rparr>"
proof -
  have wf: "bms_wf bms_ex1" "bms_wf bms_ex2" by (simp_all add: bms_ex1_def bms_ex2_def)
  moreover have "bms_union bms_ex1 bms_ex2 = Some \<lparr>nwords = 2, bwords = [7, 1]\<rparr>" by code_simp
  ultimately show ?thesis using bms_binary_ops_refine_sets [OF wf] by (simp only:)
qed

text \<open>The comparisons and tests decide the relations on the represented sets: logical
  equality (whatever the lengths of the arrays, NULL being the empty set), subset, overlap,
  nonempty difference and emptiness.\<close>

theorem bms_comparisons_decide:
  assumes "bms_wf a" "bms_wf b"
  shows "(bms_equal a b \<longleftrightarrow> bms_set a = bms_set b)
    \<and> (bms_is_subset a b \<longleftrightarrow> bms_set a \<subseteq> bms_set b)
    \<and> (bms_overlap a b \<longleftrightarrow> bms_set a \<inter> bms_set b \<noteq> {})
    \<and> (bms_nonempty_difference a b \<longleftrightarrow> bms_set a - bms_set b \<noteq> {})
    \<and> (bms_is_empty a \<longleftrightarrow> bms_set a = {})"
  using assms
  by (simp add: bms_equal_correct bms_is_subset_correct bms_overlap_correct bms_nonempty_difference_eq
      bms_is_empty_correct)

theorem bms_comparisons_decide_witness:
  "bms_wf bms_ex1 \<and> bms_wf bms_ex2
   \<and> (bms_equal bms_ex1 bms_ex2 \<longleftrightarrow> bms_set bms_ex1 = bms_set bms_ex2)
   \<and> bms_overlap bms_ex1 bms_ex2"
proof -
  have wf: "bms_wf bms_ex1" "bms_wf bms_ex2" by (simp_all add: bms_ex1_def bms_ex2_def)
  moreover have "bms_overlap bms_ex1 bms_ex2" by code_simp
  ultimately show ?thesis using bms_comparisons_decide [OF wf] by simp
qed

text \<open>The one-member operations: adding, deleting and testing a member act on the set as they
  should and never fail for a nonnegative integer; a negative one raises the error
  \<^verbatim>\<open>negative bitmapset member not allowed\<close> in each of them.\<close>

theorem bms_member_ops:
  assumes "bms_wf a"
  shows "(\<exists>b. bms_add_member a (int n) = Inr b \<and> bms_wf b \<and> bms_set b = insert n (bms_set a))
    \<and> (\<exists>b. bms_del_member a (int n) = Inr b \<and> bms_wf b \<and> bms_set b = bms_set a - {n})
    \<and> (\<exists>b. bms_make_singleton (int n) = Inr b \<and> bms_wf b \<and> bms_set b = {n})
    \<and> bms_is_member (int n) a = Inr (n \<in> bms_set a)
    \<and> (x < 0 \<longrightarrow>
         bms_is_member x a = Inl (Elog ''negative bitmapset member not allowed'')
       \<and> bms_make_singleton x = Inl (Elog ''negative bitmapset member not allowed'')
       \<and> bms_add_member a x = Inl (Elog ''negative bitmapset member not allowed'')
       \<and> bms_del_member a x = Inl (Elog ''negative bitmapset member not allowed''))"
  by (intro conjI impI bms.add_spec bms.del_spec bms.mem_spec bms_make_singleton_correct assms)
    (simp_all add: bms_negative_member)

theorem bms_member_ops_witness:
  "bms_wf bms_ex1 \<and> (-1::int) < 0
   \<and> (\<exists>b. bms_add_member bms_ex1 (int 40) = Inr b \<and> bms_wf b \<and> bms_set b = insert 40 (bms_set bms_ex1))
   \<and> bms_is_member (- 1) bms_ex1 = Inl (Elog ''negative bitmapset member not allowed'')"
proof -
  have wf: "bms_wf bms_ex1" by (simp add: bms_ex1_def)
  show ?thesis using wf bms_member_ops [OF wf, of 40 "- 1"] by simp
qed

text \<open>The counting functions return and agree with the cardinality of the set:
  \<^verbatim>\<open>bms_num_members\<close> is the cardinality, \<^verbatim>\<open>bms_membership\<close> classifies it as none, one or many,
  and \<^verbatim>\<open>bms_singleton_member\<close> returns the sole member and raises the documented error for any
  other cardinality.\<close>

theorem bms_counts:
  assumes "bms_wf a"
  shows "bms_num_members a = int (card (bms_set a))
    \<and> bms_membership a = (if card (bms_set a) = 0 then BMS_EMPTY_SET
         else if card (bms_set a) = 1 then BMS_SINGLETON else BMS_MULTIPLE)
    \<and> bms_singleton_member a =
        Some (if bms_set a = {} then Inl (Elog ''bitmapset is empty'')
              else if card (bms_set a) = 1 then Inr (int (Min (bms_set a)))
              else Inl (Elog ''bitmapset has multiple members''))"
  using assms
  by (simp only: bms_num_members_correct bms_membership_correct bms_singleton_member_correct)

theorem bms_counts_witness:
  "bms_wf bms_ex1 \<and> bms_num_members bms_ex1 = int (card (bms_set bms_ex1)) \<and> bms_num_members bms_ex1 = 2"
proof -
  have wf: "bms_wf bms_ex1" by (simp add: bms_ex1_def)
  moreover have "bms_num_members bms_ex1 = 2" by code_simp
  ultimately show ?thesis using bms_counts [OF wf] by simp
qed

text \<open>The documented iteration over a set with \<^verbatim>\<open>bms_first_member\<close> ends and processes
  exactly the members of the set, each once, in increasing order.\<close>

theorem bms_iteration_enumerates:
  assumes "bms_wf a"
  shows "iterate_first bms_first_member (bms_copy a) = Some (map int (sorted_list_of_set (bms_set a)))"
  using bms.iterate_sorted [OF assms] by simp

theorem bms_iteration_enumerates_witness:
  "bms_wf bms_ex2 \<and> iterate_first bms_first_member (bms_copy bms_ex2)
     = Some (map int (sorted_list_of_set (bms_set bms_ex2)))
   \<and> iterate_first bms_first_member (bms_copy bms_ex2) = Some [1, 2, 32]"
proof -
  have wf: "bms_wf bms_ex2" by (simp add: bms_ex2_def)
  moreover have "iterate_first bms_first_member (bms_copy bms_ex2) = Some [1, 2, 32]" by code_simp
  ultimately show ?thesis using bms_iteration_enumerates [OF wf] by simp
qed

text \<open>\<^verbatim>\<open>bitmap_hash\<close> is compatible with \<^verbatim>\<open>bitmap_match\<close>: two keys that match (trailing zero
  words and NULL notwithstanding) hash to the same value.\<close>

theorem bitmap_hash_compatible:
  assumes "bms_wf a" "bms_wf b" "bitmap_match a b = 0"
  shows "bitmap_hash be a = bitmap_hash be b"
  using assms bms_hash_value_correct [of a b]
  by (simp add: bitmap_hash_def bitmap_match_def split: if_splits)

theorem bitmap_hash_compatible_witness:
  "bitmap_match (Some \<lparr>nwords = 1, bwords = [5]\<rparr>) (Some \<lparr>nwords = 2, bwords = [5, 0]\<rparr>) = 0
   \<and> bitmap_hash False (Some \<lparr>nwords = 1, bwords = [5]\<rparr>) = bitmap_hash False (Some \<lparr>nwords = 2, bwords = [5, 0]\<rparr>)"
proof -
  let ?a = "Some \<lparr>nwords = 1, bwords = [5]\<rparr>" and ?b = "Some \<lparr>nwords = 2, bwords = [5, 0]\<rparr>"
  have m: "bitmap_match ?a ?b = 0" by code_simp
  show ?thesis using m bitmap_hash_compatible [of ?a ?b, OF _ _ m] by simp
qed

end
