(* ===== verification/Fsm_Page.thy ===== *)
theory Fsm_Page
  imports PG_Prelude
begin

text \<open>
  The binary tree kept inside one page of the free space map
  (\<^verbatim>\<open>storage/freespace/fsmpage.c\<close>).  A page stores a complete binary tree in an
  array: the leaves are the slots, one byte of free-space category each, and
  every upper node is meant to hold the maximum of its children.
\<close>

unbundle bit_operations_syntax

section \<open>Layout and operations\<close>

record FSMPageData =
  fp_next_slot :: int
  fp_nodes :: "uint8 list"

definition NodesPerPage :: nat where
  "NodesPerPage = BLCKSZ - MAXALIGN SizeOfPageHeaderData - 4"

definition NonLeafNodesPerPage :: nat where
  "NonLeafNodesPerPage = BLCKSZ div 2 - 1"

definition LeafNodesPerPage :: nat where
  "LeafNodesPerPage = NodesPerPage - NonLeafNodesPerPage"

text \<open>The contents of a page that \<^verbatim>\<open>PageInit\<close> has just cleared.\<close>

definition fsm_init_page :: FSMPageData where
  "fsm_init_page = \<lparr>fp_next_slot = 0, fp_nodes = replicate NodesPerPage 0\<rparr>"

definition leftchild :: "nat \<Rightarrow> nat" where
  "leftchild x = 2 * x + 1"

definition rightchild :: "nat \<Rightarrow> nat" where
  "rightchild x = 2 * x + 2"

definition parentof :: "nat \<Rightarrow> nat" where
  "parentof x = (x - 1) div 2"

definition rightneighbor :: "nat \<Rightarrow> nat" where
  "rightneighbor x0 =
     (let x = x0 + 1 in if (x + 1) AND x = 0 then parentof x else x)"

text \<open>The loop of \<^verbatim>\<open>fsm_rebuild_page\<close>: nodes n-1, ..., 0 in this order.\<close>

primrec fsm_rebuild_loop :: "nat \<Rightarrow> uint8 list \<Rightarrow> bool \<Rightarrow> uint8 list \<times> bool" where
  "fsm_rebuild_loop 0 nodes changed = (nodes, changed)"
| "fsm_rebuild_loop (Suc nodeno) nodes changed =
     (let lchild = leftchild nodeno;
          rchild = lchild + 1;
          newvalue = (if lchild < NodesPerPage then nodes ! lchild else 0);
          newvalue = (if rchild < NodesPerPage then max newvalue (nodes ! rchild) else newvalue)
      in if nodes ! nodeno \<noteq> newvalue
         then fsm_rebuild_loop nodeno (nodes[nodeno := newvalue]) True
         else fsm_rebuild_loop nodeno nodes changed)"

definition fsm_rebuild_page :: "FSMPageData \<Rightarrow> bool \<times> FSMPageData" where
  "fsm_rebuild_page page =
     (let (nodes, changed) = fsm_rebuild_loop NonLeafNodesPerPage (fp_nodes page) False
      in (changed, page\<lparr>fp_nodes := nodes\<rparr>))"

text \<open>The do-while loop of \<^verbatim>\<open>fsm_set_avail\<close>.\<close>

function fsm_propagate :: "uint8 list \<Rightarrow> nat \<Rightarrow> uint8 list" where
  "fsm_propagate nodes nodeno0 =
     (let nodeno = parentof nodeno0;
          lchild = leftchild nodeno;
          rchild = lchild + 1;
          newvalue = nodes ! lchild;
          newvalue = (if rchild < NodesPerPage then max newvalue (nodes ! rchild) else newvalue)
      in if nodes ! nodeno = newvalue then nodes
         else let nodes' = nodes[nodeno := newvalue]
              in if nodeno > 0 then fsm_propagate nodes' nodeno else nodes')"
  by pat_completeness auto
termination
  by (relation "measure snd") (auto simp: parentof_def)

definition fsm_set_avail :: "FSMPageData \<Rightarrow> nat \<Rightarrow> uint8 \<Rightarrow> bool \<times> FSMPageData" where
  "fsm_set_avail page slot value =
     (let nodeno = NonLeafNodesPerPage + slot;
          oldvalue = fp_nodes page ! nodeno
      in if oldvalue = value \<and> value \<le> fp_nodes page ! 0 then (False, page)
         else let nodes = (fp_nodes page)[nodeno := value];
                  page' = page\<lparr>fp_nodes := fsm_propagate nodes nodeno\<rparr>
              in if value > fp_nodes page' ! 0 then (True, snd (fsm_rebuild_page page'))
                 else (True, page'))"

definition fsm_get_avail :: "FSMPageData \<Rightarrow> nat \<Rightarrow> uint8" where
  "fsm_get_avail page slot = fp_nodes page ! (NonLeafNodesPerPage + slot)"

definition fsm_get_max_avail :: "FSMPageData \<Rightarrow> uint8" where
  "fsm_get_max_avail page = fp_nodes page ! 0"

text \<open>
  The two loops of \<^verbatim>\<open>fsm_search_avail\<close>: move right and climb until a node
  promises enough space, then descend along nodes that keep the promise.
  The descent returns None where the source finds the page corrupt.
\<close>

function fsm_search_climb :: "uint8 list \<Rightarrow> uint8 \<Rightarrow> nat \<Rightarrow> nat" where
  "fsm_search_climb nodes minvalue nodeno =
     (if nodeno > 0 \<and> \<not> nodes ! nodeno \<ge> minvalue
      then fsm_search_climb nodes minvalue (parentof (rightneighbor nodeno))
      else nodeno)"
  by pat_completeness auto
termination
  by (relation "measure (\<lambda>(_, _, n). n)")
    (auto simp: parentof_def rightneighbor_def Let_def)

function fsm_search_descend :: "uint8 list \<Rightarrow> uint8 \<Rightarrow> nat \<Rightarrow> nat option" where
  "fsm_search_descend nodes minvalue nodeno =
     (if nodeno < NonLeafNodesPerPage then
        let childnodeno = leftchild nodeno in
        if childnodeno < NodesPerPage \<and> nodes ! childnodeno \<ge> minvalue
        then fsm_search_descend nodes minvalue childnodeno
        else let childnodeno' = childnodeno + 1 in
             if childnodeno' < NodesPerPage \<and> nodes ! childnodeno' \<ge> minvalue
             then fsm_search_descend nodes minvalue childnodeno'
             else None
      else Some nodeno)"
  by pat_completeness auto
termination
  by (relation "measure (\<lambda>(_, _, n). NonLeafNodesPerPage - n)") (auto simp: leftchild_def)

definition fsm_search_target :: "FSMPageData \<Rightarrow> nat" where
  "fsm_search_target page =
     (let target = fp_next_slot page;
          target = (if target < 0 \<or> target \<ge> int LeafNodesPerPage then 0 else target)
      in nat target)"

text \<open>
  The result None of the whole function would mean that the search restarts
  forever; that it never does is part of the properties below.
\<close>

partial_function (option) fsm_search_avail ::
    "FSMPageData \<Rightarrow> uint8 \<Rightarrow> bool \<Rightarrow> (int \<times> FSMPageData) option" where
  "fsm_search_avail page minvalue advancenext =
     (if fp_nodes page ! 0 < minvalue then Some (-1, page)
      else let target = fsm_search_target page + NonLeafNodesPerPage;
               nodeno = fsm_search_climb (fp_nodes page) minvalue target
           in (case fsm_search_descend (fp_nodes page) minvalue nodeno of
                 None \<Rightarrow> fsm_search_avail (snd (fsm_rebuild_page page)) minvalue advancenext
               | Some nodeno' \<Rightarrow>
                   let slot = nodeno' - NonLeafNodesPerPage
                   in Some (int slot,
                            page\<lparr>fp_next_slot := int slot + (if advancenext then 1 else 0)\<rparr>)))"

definition fsm_truncate_avail :: "FSMPageData \<Rightarrow> nat \<Rightarrow> bool \<times> FSMPageData" where
  "fsm_truncate_avail page nslots =
     (let first = NonLeafNodesPerPage + nslots;
          changed = list_ex (\<lambda>i. fp_nodes page ! i \<noteq> 0) [first..<NodesPerPage];
          page' = page\<lparr>fp_nodes := for_update first NodesPerPage (\<lambda>_ _. 0) (fp_nodes page)\<rparr>
      in if changed then (changed, snd (fsm_rebuild_page page')) else (changed, page'))"

declare fsm_propagate.simps [simp del] fsm_search_climb.simps [simp del]
  fsm_search_descend.simps [simp del]

section \<open>The tree invariant\<close>

text \<open>
  \<open>node_val\<close> reads a node, missing nodes counting as zero; \<open>heap_at\<close> says that a
  node holds the maximum of its children, and \<open>fsm_heap\<close> that every upper node does.
  A page is well-formed when its array has the size the layout gives it.
\<close>

definition node_val :: "uint8 list \<Rightarrow> nat \<Rightarrow> uint8" where
  "node_val nodes n = (if n < NodesPerPage then nodes ! n else 0)"

definition heap_at :: "uint8 list \<Rightarrow> nat \<Rightarrow> bool" where
  "heap_at nodes n \<longleftrightarrow>
     node_val nodes n = max (node_val nodes (leftchild n)) (node_val nodes (rightchild n))"

definition fsm_heap :: "FSMPageData \<Rightarrow> bool" where
  "fsm_heap page \<longleftrightarrow> (\<forall>n<NonLeafNodesPerPage. heap_at (fp_nodes page) n)"

definition fsm_wf :: "FSMPageData \<Rightarrow> bool" where
  "fsm_wf page \<longleftrightarrow> length (fp_nodes page) = NodesPerPage"

lemma NodesPerPage_eq: "NodesPerPage = 8164"
  by (simp add: NodesPerPage_def BLCKSZ_def MAXALIGN_eq SizeOfPageHeaderData_def)

lemma NonLeafNodesPerPage_eq: "NonLeafNodesPerPage = 4095"
  by (simp add: NonLeafNodesPerPage_def BLCKSZ_def)

lemma LeafNodesPerPage_eq: "LeafNodesPerPage = 4069"
  by (simp add: LeafNodesPerPage_def NodesPerPage_eq NonLeafNodesPerPage_eq)

lemmas fsm_sizes = NodesPerPage_eq NonLeafNodesPerPage_eq LeafNodesPerPage_eq
lemmas fsm_tree_nav = leftchild_def rightchild_def parentof_def

lemma node_val_update:
  "length nodes = NodesPerPage \<Longrightarrow> k < NodesPerPage \<Longrightarrow>
   node_val (nodes[k := v]) n = (if n = k then v else node_val nodes n)"
  by (auto simp: node_val_def)

lemma heap_at_update_other:
  assumes "length nodes = NodesPerPage" "k < NodesPerPage"
    and "n \<noteq> k" "leftchild n \<noteq> k" "rightchild n \<noteq> k"
  shows "heap_at (nodes[k := v]) n = heap_at nodes n"
  using assms by (simp add: heap_at_def node_val_update)

lemma heap_at_update_self:
  assumes "length nodes = NodesPerPage" "k < NodesPerPage"
    and "v = max (node_val nodes (leftchild k)) (node_val nodes (rightchild k))"
  shows "heap_at (nodes[k := v]) k"
  using assms by (simp add: heap_at_def node_val_update leftchild_def rightchild_def)

subsection \<open>Rebuilding\<close>

lemma rebuild_newvalue:
  "(let lchild = leftchild n; rchild = lchild + 1;
        v = (if lchild < NodesPerPage then nodes ! lchild else 0)
    in if rchild < NodesPerPage then max v (nodes ! rchild) else v)
   = max (node_val nodes (leftchild n)) (node_val nodes (rightchild n))"
  by (simp add: node_val_def leftchild_def rightchild_def Let_def)

lemma fsm_rebuild_loop_Suc:
  "fsm_rebuild_loop (Suc n) nodes changed =
     (let v = max (node_val nodes (leftchild n)) (node_val nodes (rightchild n))
      in if nodes ! n \<noteq> v then fsm_rebuild_loop n (nodes[n := v]) True
         else fsm_rebuild_loop n nodes changed)"
  by (simp only: fsm_rebuild_loop.simps rebuild_newvalue [symmetric] Let_def)

lemma fsm_rebuild_loop_heap:
  assumes "length nodes = NodesPerPage" "k \<le> NonLeafNodesPerPage"
    and "\<forall>n. k \<le> n \<and> n < NonLeafNodesPerPage \<longrightarrow> heap_at nodes n"
    and "fsm_rebuild_loop k nodes changed = (nodes', changed')"
  shows "length nodes' = NodesPerPage
       \<and> (\<forall>n<NonLeafNodesPerPage. heap_at nodes' n)
       \<and> (\<forall>n. k \<le> n \<longrightarrow> nodes' ! n = nodes ! n)
       \<and> changed' = (changed \<or> nodes' \<noteq> nodes)"
  using assms
proof (induction k arbitrary: nodes changed)
  case 0
  then show ?case by simp
next
  case (Suc k)
  let ?v = "max (node_val nodes (leftchild k)) (node_val nodes (rightchild k))"
  have k: "k < NodesPerPage" "k < NonLeafNodesPerPage" using Suc.prems(2) by (simp_all add: fsm_sizes)
  show ?case
  proof (cases "nodes ! k = ?v")
    case True
    then have "heap_at nodes k" using k by (simp add: heap_at_def node_val_def)
    then have "\<forall>n. k \<le> n \<and> n < NonLeafNodesPerPage \<longrightarrow> heap_at nodes n"
      using Suc.prems(3) by (metis Suc_leI le_neq_implies_less)
    moreover have "fsm_rebuild_loop k nodes changed = (nodes', changed')"
      using Suc.prems(4) True by (simp add: fsm_rebuild_loop_Suc del: fsm_rebuild_loop.simps)
    ultimately show ?thesis using Suc.IH [of nodes changed] Suc.prems(1) k by simp
  next
    case False
    let ?n = "nodes[k := ?v]"
    have "heap_at ?n n" if "k \<le> n" "n < NonLeafNodesPerPage" for n
    proof (cases "n = k")
      case True
      then show ?thesis using heap_at_update_self Suc.prems(1) k(1) by blast
    next
      case False
      then have "heap_at nodes n" using Suc.prems(3) that by simp
      then show ?thesis using heap_at_update_other [of nodes k n] False that(1) k Suc.prems(1)
        by (simp add: leftchild_def rightchild_def)
    qed
    moreover have "fsm_rebuild_loop k ?n True = (nodes', changed')"
      using Suc.prems(4) False by (simp add: fsm_rebuild_loop_Suc del: fsm_rebuild_loop.simps)
    ultimately have *: "length nodes' = NodesPerPage \<and> (\<forall>n<NonLeafNodesPerPage. heap_at nodes' n)
       \<and> (\<forall>n. k \<le> n \<longrightarrow> nodes' ! n = ?n ! n) \<and> changed'"
      using Suc.IH [of ?n True] Suc.prems(1) k by simp
    then have "nodes' ! k = ?v" using Suc.prems(1) k by simp
    then have "nodes' \<noteq> nodes" using False by auto
    with * show ?thesis by simp
  qed
qed

lemma fsm_rebuild_page_spec:
  assumes "fsm_wf page" "fsm_rebuild_page page = (changed, page')"
  shows "fsm_wf page' \<and> fsm_heap page' \<and> fp_next_slot page' = fp_next_slot page
       \<and> (\<forall>n\<ge>NonLeafNodesPerPage. fp_nodes page' ! n = fp_nodes page ! n)
       \<and> changed = (page' \<noteq> page)"
proof -
  obtain nodes' where r: "fsm_rebuild_loop NonLeafNodesPerPage (fp_nodes page) False = (nodes', changed)"
    and p: "page' = page\<lparr>fp_nodes := nodes'\<rparr>"
    using assms(2) by (auto simp: fsm_rebuild_page_def split: prod.splits)
  have "(page' \<noteq> page) = (nodes' \<noteq> fp_nodes page)"
    unfolding p by (cases page) auto
  moreover have "length nodes' = NodesPerPage \<and> (\<forall>n<NonLeafNodesPerPage. heap_at nodes' n)
      \<and> (\<forall>n. NonLeafNodesPerPage \<le> n \<longrightarrow> nodes' ! n = fp_nodes page ! n)
      \<and> changed = (False \<or> nodes' \<noteq> fp_nodes page)"
    by (rule fsm_rebuild_loop_heap [OF _ _ _ r]) (use assms(1) in \<open>auto simp: fsm_wf_def\<close>)
  ultimately show ?thesis
    unfolding p by (simp add: fsm_wf_def fsm_heap_def)
qed

lemma fsm_rebuild_loop_id:
  "\<forall>n<k. heap_at nodes n \<Longrightarrow> k \<le> NonLeafNodesPerPage \<Longrightarrow> fsm_rebuild_loop k nodes c = (nodes, c)"
proof (induction k)
  case (Suc k)
  have "heap_at nodes k" "k < NodesPerPage" using Suc.prems by (simp_all add: fsm_sizes)
  then have "nodes ! k = max (node_val nodes (leftchild k)) (node_val nodes (rightchild k))"
    by (simp add: heap_at_def node_val_def [of _ k])
  then show ?case using Suc by (simp add: fsm_rebuild_loop_Suc del: fsm_rebuild_loop.simps)
qed simp

lemma fsm_rebuild_page_id: "fsm_heap page \<Longrightarrow> fsm_rebuild_page page = (False, page)"
  by (simp add: fsm_rebuild_page_def fsm_heap_def fsm_rebuild_loop_id)

subsection \<open>Propagating an update\<close>

lemma propagate_newvalue:
  assumes "leftchild n < NodesPerPage"
  shows "(if leftchild n + 1 < NodesPerPage then max (nodes ! leftchild n) (nodes ! (leftchild n + 1))
          else nodes ! leftchild n) = max (node_val nodes (leftchild n)) (node_val nodes (rightchild n))"
  using assms by (simp add: node_val_def leftchild_def rightchild_def)

lemma child_of_parentof: "0 < n \<Longrightarrow> n = leftchild (parentof n) \<or> n = rightchild (parentof n)"
  unfolding fsm_tree_nav by presburger

lemma parent_unique: "leftchild m = n \<or> rightchild m = n \<Longrightarrow> m = parentof n"
  unfolding fsm_tree_nav by presburger

lemma fsm_propagate_heap:
  assumes "length nodes = NodesPerPage" "0 < n" "n < NodesPerPage"
    and "\<forall>m<NonLeafNodesPerPage. m \<noteq> parentof n \<longrightarrow> heap_at nodes m"
  shows "length (fsm_propagate nodes n) = NodesPerPage
       \<and> (\<forall>m<NonLeafNodesPerPage. heap_at (fsm_propagate nodes n) m)"
  using assms
proof (induction nodes n rule: fsm_propagate.induct)
  case (1 nodes n)
  let ?p = "parentof n"
  let ?v = "max (node_val nodes (leftchild ?p)) (node_val nodes (rightchild ?p))"
  let ?n = "nodes[?p := ?v]"
  have lc: "leftchild ?p < NodesPerPage"
    using "1.prems"(2,3) child_of_parentof [of n] by (auto simp: leftchild_def rightchild_def)
  then have pl: "?p < NonLeafNodesPerPage" "?p < NodesPerPage" by (simp_all add: leftchild_def fsm_sizes)
  have step: "fsm_propagate nodes n =
      (if nodes ! ?p = ?v then nodes else if ?p > 0 then fsm_propagate ?n ?p else ?n)"
    by (subst fsm_propagate.simps) (simp only: Let_def propagate_newvalue [OF lc])
  show ?case
  proof (cases "nodes ! ?p = ?v")
    case True
    then have "heap_at nodes ?p" using pl by (simp add: heap_at_def node_val_def [of nodes ?p])
    then show ?thesis using "1.prems" True by (auto simp: step)
  next
    case False
    have heap: "heap_at ?n m" if "m < NonLeafNodesPerPage" "?p > 0 \<longrightarrow> m \<noteq> parentof ?p" for m
    proof (cases "m = ?p")
      case True
      then show ?thesis using heap_at_update_self "1.prems"(1) pl by blast
    next
      case False
      then have "heap_at nodes m" using "1.prems"(4) that by simp
      moreover have "leftchild m \<noteq> ?p \<and> rightchild m \<noteq> ?p"
        using parent_unique [of m ?p] that(2) by (metis fsm_tree_nav(1,2) add_is_0 neq0_conv zero_neq_numeral zero_neq_one)
      ultimately show ?thesis using heap_at_update_other False "1.prems"(1) pl by blast
    qed
    show ?thesis
    proof (cases "?p > 0")
      case True
      have "length (fsm_propagate ?n ?p) = NodesPerPage
          \<and> (\<forall>m<NonLeafNodesPerPage. heap_at (fsm_propagate ?n ?p) m)"
        by (rule "1.IH" [OF refl refl refl refl _ _ refl True, unfolded propagate_newvalue [OF lc]])
          (use False True heap "1.prems"(1) pl propagate_newvalue [OF lc] in \<open>simp_all\<close>)
      then show ?thesis using False True by (simp add: step)
    next
      case p0: False
      then show ?thesis using False heap "1.prems"(1) by (simp add: step)
    qed
  qed
qed


lemma fsm_propagate_leaves:
  assumes "n < NodesPerPage" "NonLeafNodesPerPage \<le> m"
  shows "fsm_propagate nodes n ! m = nodes ! m \<and> length (fsm_propagate nodes n) = length nodes"
  using assms
proof (induction n arbitrary: nodes rule: less_induct)
  case (less n)
  have "parentof n < NonLeafNodesPerPage" using less.prems by (simp add: parentof_def fsm_sizes)
  then have p: "parentof n \<noteq> m" "parentof n < NodesPerPage" using less.prems(2) by (simp_all add: fsm_sizes)
  have "0 < parentof n \<Longrightarrow> parentof n < n" by (simp add: parentof_def)
  then show ?case
    using less.IH [OF _ p(2) less.prems(2)] p
    by (subst (1 2) fsm_propagate.simps) (simp add: Let_def)
qed

subsection \<open>The root is the maximum of the slots\<close>

lemma heap_node_le_root:
  assumes "\<forall>m<NonLeafNodesPerPage. heap_at nodes m" "n < NodesPerPage"
  shows "node_val nodes n \<le> node_val nodes 0"
  using assms(2)
proof (induction n rule: less_induct)
  case (less n)
  show ?case
  proof (cases "n = 0")
    case False
    then have p: "parentof n < n" "parentof n < NonLeafNodesPerPage" "n = leftchild (parentof n) \<or> n = rightchild (parentof n)"
      using less.prems child_of_parentof [of n] by (auto simp: parentof_def fsm_sizes)
    then have "node_val nodes n \<le> node_val nodes (parentof n)"
      using assms(1) by (auto simp: heap_at_def)
    also have "\<dots> \<le> node_val nodes 0" using less p by simp
    finally show ?thesis .
  qed simp
qed

lemma heap_root_attained:
  assumes "\<forall>m<NonLeafNodesPerPage. heap_at nodes m" "n < NonLeafNodesPerPage" "0 < node_val nodes n"
  shows "\<exists>k. NonLeafNodesPerPage \<le> k \<and> k < NodesPerPage \<and> node_val nodes k = node_val nodes n"
  using assms(2,3)
proof (induction "NonLeafNodesPerPage - n" arbitrary: n rule: less_induct)
  case less
  then obtain c where c: "c = leftchild n \<or> c = rightchild n" "node_val nodes c = node_val nodes n"
    using assms(1) unfolding heap_at_def by (metis max_def)
  then have "c < NodesPerPage" using less.prems(2) by (auto simp: node_val_def split: if_splits)
  moreover have "n < c" using c(1) by (auto simp: leftchild_def rightchild_def)
  ultimately show ?case
    using less.hyps [of c] less.prems c(2) by (cases "c < NonLeafNodesPerPage") (auto simp: not_less)
qed

text \<open>The slots of a page as a function, and the largest category they hold.\<close>

lemma node_val_slot: "slot < LeafNodesPerPage \<Longrightarrow>
    node_val (fp_nodes page) (NonLeafNodesPerPage + slot) = fsm_get_avail page slot"
  by (simp add: node_val_def fsm_get_avail_def fsm_sizes)

lemma fsm_get_max_avail_Max:
  assumes "fsm_heap page"
  shows "fsm_get_max_avail page = Max (fsm_get_avail page ` {..<LeafNodesPerPage})"
proof (rule Max_eqI [symmetric])
  let ?v = "node_val (fp_nodes page)"
  have heap: "\<forall>m<NonLeafNodesPerPage. heap_at (fp_nodes page) m" using assms by (simp add: fsm_heap_def)
  have root: "?v 0 = fsm_get_max_avail page" by (simp add: fsm_get_max_avail_def node_val_def fsm_sizes)
  fix y assume "y \<in> fsm_get_avail page ` {..<LeafNodesPerPage}"
  then obtain s where "s < LeafNodesPerPage" "y = fsm_get_avail page s" by auto
  moreover from this have "NonLeafNodesPerPage + s < NodesPerPage" by (simp add: fsm_sizes)
  ultimately show "y \<le> fsm_get_max_avail page"
    using heap_node_le_root [OF heap, of "NonLeafNodesPerPage + s"] root node_val_slot [of s page] by simp
next
  let ?v = "node_val (fp_nodes page)"
  have heap: "\<forall>m<NonLeafNodesPerPage. heap_at (fp_nodes page) m" using assms by (simp add: fsm_heap_def)
  have root: "?v 0 = fsm_get_max_avail page" by (simp add: fsm_get_max_avail_def node_val_def fsm_sizes)
  have "\<exists>s<LeafNodesPerPage. fsm_get_avail page s = fsm_get_max_avail page"
  proof (cases "?v 0 = 0")
    case True
    have "?v (NonLeafNodesPerPage + 0) \<le> ?v 0" by (rule heap_node_le_root [OF heap]) (simp add: fsm_sizes)
    then have "fsm_get_avail page 0 = fsm_get_max_avail page"
      using True root node_val_slot [of 0 page] by (simp add: fsm_sizes)
    then show ?thesis by (intro exI [of _ 0]) (simp add: fsm_sizes)
  next
    case False
    then have "0 < ?v 0" by (simp add: word_neq_0_conv)
    then obtain k where k: "NonLeafNodesPerPage \<le> k" "k < NodesPerPage" "?v k = ?v 0"
      using heap_root_attained [OF heap, of 0] by (auto simp: fsm_sizes)
    then show ?thesis using root node_val_slot [of "k - NonLeafNodesPerPage" page]
      by (intro exI [of _ "k - NonLeafNodesPerPage"]) (simp add: fsm_sizes)
  qed
  then show "fsm_get_max_avail page \<in> fsm_get_avail page ` {..<LeafNodesPerPage}"
    by (metis imageI lessThan_iff)
qed simp

subsection \<open>Setting a slot\<close>

lemma fsm_set_avail_any:
  assumes "fsm_wf page" "slot < LeafNodesPerPage" "fsm_set_avail page slot value = (changed, page')"
  shows "fsm_wf page' \<and> fp_next_slot page' = fp_next_slot page
       \<and> (\<forall>s<LeafNodesPerPage. fsm_get_avail page' s = (if s = slot then value else fsm_get_avail page s))"
proof -
  let ?k = "NonLeafNodesPerPage + slot"
  have k: "?k < NodesPerPage" using assms(2) by (simp add: fsm_sizes)
  let ?p = "page\<lparr>fp_nodes := fsm_propagate ((fp_nodes page)[?k := value]) ?k\<rparr>"
  have len: "length (fp_nodes page) = NodesPerPage" using assms(1) by (simp add: fsm_wf_def)
  have leaves: "\<forall>s<LeafNodesPerPage. fp_nodes ?p ! (NonLeafNodesPerPage + s)
      = (if s = slot then value else fsm_get_avail page s)"
    using k len by (simp add: fsm_propagate_leaves [OF k] fsm_get_avail_def)
  have wfp: "fsm_wf ?p" using fsm_propagate_leaves [OF k le_refl] len by (simp add: fsm_wf_def)
  consider "page' = page" "fsm_get_avail page slot = value" | "page' = ?p" | "page' = snd (fsm_rebuild_page ?p)"
    using assms(3) unfolding fsm_set_avail_def fsm_get_avail_def Let_def by (auto split: if_splits)
  then show ?thesis
  proof cases
    case 1
    then show ?thesis using assms(1) by simp
  next
    case 2
    then show ?thesis using leaves wfp by (simp add: fsm_get_avail_def)
  next
    case 3
    then obtain c where "fsm_rebuild_page ?p = (c, page')" by (metis prod.collapse)
    from fsm_rebuild_page_spec [OF wfp this] leaves show ?thesis
      by (simp add: fsm_get_avail_def)
  qed
qed

lemma fsm_set_avail_heap:
  assumes "fsm_wf page" "fsm_heap page" "slot < LeafNodesPerPage"
    "fsm_set_avail page slot value = (changed, page')"
  shows "fsm_heap page' \<and> changed = (fsm_get_avail page slot \<noteq> value)"
proof -
  let ?k = "NonLeafNodesPerPage + slot"
  have k: "0 < ?k" "?k < NodesPerPage" using assms(3) by (simp_all add: fsm_sizes)
  let ?n = "(fp_nodes page)[?k := value]"
  let ?p = "page\<lparr>fp_nodes := fsm_propagate ?n ?k\<rparr>"
  have len: "length (fp_nodes page) = NodesPerPage" using assms(1) by (simp add: fsm_wf_def)
  have heap: "heap_at (fp_nodes page) m" if "m < NonLeafNodesPerPage" for m
    using assms(2) that by (simp add: fsm_heap_def)
  have "heap_at ?n m" if "m < NonLeafNodesPerPage" "m \<noteq> parentof ?k" for m
    using heap_at_update_other [OF len k(2), of m] heap [OF that(1)] parent_unique [of m ?k] that by auto
  then have p: "fsm_wf ?p" "fsm_heap ?p"
    using fsm_propagate_heap [of ?n ?k] len k by (simp_all add: fsm_heap_def fsm_wf_def)
  have "node_val (fp_nodes page) ?k \<le> node_val (fp_nodes page) 0"
    using heap_node_le_root [of "fp_nodes page"] heap k by blast
  then have "fp_nodes page ! ?k \<le> fp_nodes page ! 0" using k by (simp add: node_val_def fsm_sizes)
  then show ?thesis
    using assms(2,4) p(2) fsm_rebuild_page_id [OF p(2)]
    unfolding fsm_set_avail_def fsm_get_avail_def Let_def by (auto split: if_splits)
qed

section \<open>Searching\<close>

text \<open>
  A node n at height h covers the leaf positions from
  (n + 1) * 2^h - 4096 on, 2^h of them; there are 4096 positions, the last of
  which are missing on a page.  The search is for the first suitable position
  to the right of a start position, wrapping around.
\<close>

definition at_height :: "nat \<Rightarrow> nat \<Rightarrow> bool" where
  "at_height h n \<longleftrightarrow> 4096 \<le> (n + 1) * 2 ^ h \<and> (n + 1) * 2 ^ h < 8192"

definition first_pos :: "nat \<Rightarrow> nat \<Rightarrow> nat" where
  "first_pos h n = (n + 1) * 2 ^ h - 4096"

definition wrap_dist :: "nat \<Rightarrow> nat \<Rightarrow> nat \<Rightarrow> nat" where
  "wrap_dist len a j = (if a \<le> j then j - a else j + len - a)"

definition suitable :: "uint8 list \<Rightarrow> uint8 \<Rightarrow> nat \<Rightarrow> bool" where
  "suitable nodes minvalue j \<longleftrightarrow> minvalue \<le> node_val nodes (NonLeafNodesPerPage + j)"

definition first_from :: "(nat \<Rightarrow> bool) \<Rightarrow> nat \<Rightarrow> nat \<Rightarrow> bool" where
  "first_from S a f \<longleftrightarrow> f < 4096 \<and> S f \<and> (\<forall>j<4096. S j \<longrightarrow> wrap_dist 4096 a f \<le> wrap_dist 4096 a j)"

lemma first_from_shift:
  assumes "first_from S a f" "a < 4096" "a + w \<le> 4096" "\<And>j. a \<le> j \<Longrightarrow> j < a + w \<Longrightarrow> \<not> S j"
  shows "first_from S (if a + w = 4096 then 0 else a + w) f"
  unfolding first_from_def
proof (intro conjI allI impI)
  show f: "f < 4096" "S f" using assms(1) by (simp_all add: first_from_def)
  fix j assume j: "j < 4096" "S j"
  have "wrap_dist 4096 a f \<le> wrap_dist 4096 a j" using assms(1) j by (simp add: first_from_def)
  moreover have "j < a \<or> a + w \<le> j" "f < a \<or> a + w \<le> f" using assms(4) j f by (meson not_le)+
  ultimately show "wrap_dist 4096 (if a + w = 4096 then 0 else a + w) f
      \<le> wrap_dist 4096 (if a + w = 4096 then 0 else a + w) j"
    using f(1) j(1) assms(2,3) by (auto simp: wrap_dist_def split: if_splits)
qed

lemma first_from_exists:
  assumes "j < 4096" "S j"
  shows "\<exists>f. first_from S a f"
proof -
  obtain f where "f < 4096 \<and> S f" "\<forall>y. y < 4096 \<and> S y \<longrightarrow> wrap_dist 4096 a f \<le> wrap_dist 4096 a y"
    using ex_has_least_nat [of "\<lambda>j. j < 4096 \<and> S j" j "wrap_dist 4096 a"] assms by blast
  then show ?thesis unfolding first_from_def by blast
qed

lemma at_height_range: "at_height h n \<Longrightarrow> first_pos h n < 4096 \<and> first_pos h n + 2 ^ h \<le> 4096"
proof -
  assume a: "at_height h n"
  have "h \<le> 12"
  proof (rule ccontr)
    assume "\<not> h \<le> 12"
    then have "(2::nat) ^ 13 \<le> 2 ^ h" by (intro power_increasing) auto
    moreover have "(2::nat) ^ h \<le> (n + 1) * 2 ^ h" by simp
    ultimately show False using a by (simp add: at_height_def)
  qed
  then have "(8192::nat) = 2 ^ (13 - h) * 2 ^ h" by (simp flip: power_add)
  then have "(n + 1) * 2 ^ h < 2 ^ (13 - h) * 2 ^ h" using a by (simp add: at_height_def)
  then have "n + 1 < 2 ^ (13 - h)" by (simp only: mult_less_cancel2)
  then have "(n + 2) * 2 ^ h \<le> 2 ^ (13 - h) * 2 ^ h" by (intro mult_right_mono) auto
  then show ?thesis
    using a \<open>8192 = 2 ^ (13 - h) * 2 ^ h\<close> unfolding at_height_def first_pos_def by auto
qed

lemma at_height_cases:
  assumes "at_height h n"
  shows "h = 0 \<and> NonLeafNodesPerPage \<le> n \<or> h > 0 \<and> n < NonLeafNodesPerPage"
proof (cases h)
  case 0
  then show ?thesis using assms by (simp add: at_height_def fsm_sizes)
next
  case (Suc k)
  have "1 \<le> (2::nat) ^ k" by simp
  then have "(n + 1) * 2 \<le> (n + 1) * 2 ^ h" unfolding Suc by (simp del: mult_Suc)
  then show ?thesis using assms Suc unfolding at_height_def NonLeafNodesPerPage_eq by auto
qed

lemma at_height_children:
  assumes "at_height (Suc h) n"
  shows "at_height h (leftchild n)" "at_height h (rightchild n)"
    "first_pos h (leftchild n) = first_pos (Suc h) n"
    "first_pos h (rightchild n) = first_pos (Suc h) n + 2 ^ h"
proof -
  have l: "(leftchild n + 1) * 2 ^ h = (n + 1) * 2 ^ Suc h" by (simp add: leftchild_def algebra_simps)
  have r: "(rightchild n + 1) * 2 ^ h = (n + 1) * 2 ^ Suc h + 2 ^ h" by (simp add: rightchild_def algebra_simps)
  show "at_height h (leftchild n)" "first_pos h (leftchild n) = first_pos (Suc h) n"
    using assms unfolding at_height_def first_pos_def l by auto
  define X where "X = (n + 1) * 2 ^ Suc h"
  have "first_pos (Suc h) n + 2 ^ h + 2 ^ h \<le> 4096" using at_height_range [OF assms] by simp
  moreover have "(0::nat) < 2 ^ h" by simp
  ultimately have "(n + 1) * 2 ^ Suc h + 2 ^ h < 8192"
    using assms unfolding at_height_def first_pos_def X_def [symmetric] by linarith
  then show "at_height h (rightchild n)" using assms unfolding at_height_def r by simp
  show "first_pos h (rightchild n) = first_pos (Suc h) n + 2 ^ h"
    using assms unfolding at_height_def first_pos_def r by simp
qed

lemma ex_single: "(\<exists>j. a \<le> j \<and> j < a + 1 \<and> P j) \<longleftrightarrow> P (a :: nat)"
  by (metis Suc_eq_plus1 lessI less_Suc_eq_le le_antisym order_refl)

lemma suitable_below:
  assumes "\<forall>m<NonLeafNodesPerPage. heap_at nodes m" "at_height h n"
  shows "minvalue \<le> node_val nodes n
     \<longleftrightarrow> (\<exists>j. first_pos h n \<le> j \<and> j < first_pos h n + 2 ^ h \<and> suitable nodes minvalue j)"
  using assms(2)
proof (induction h arbitrary: n)
  case 0
  then have "NonLeafNodesPerPage + first_pos 0 n = n" by (auto simp: at_height_def first_pos_def fsm_sizes)
  then have "suitable nodes minvalue (first_pos 0 n) = (minvalue \<le> node_val nodes n)" by (simp add: suitable_def)
  then show ?case by (simp only: power_0 ex_single)
next
  case (Suc h)
  have "n < NonLeafNodesPerPage" using at_height_cases [OF Suc.prems] by simp
  then have "minvalue \<le> node_val nodes n
      \<longleftrightarrow> minvalue \<le> node_val nodes (leftchild n) \<or> minvalue \<le> node_val nodes (rightchild n)"
    using assms(1) by (simp add: heap_at_def le_max_iff_disj)
  also have "\<dots> \<longleftrightarrow>
      (\<exists>j. first_pos (Suc h) n \<le> j \<and> j < first_pos (Suc h) n + 2 ^ h \<and> suitable nodes minvalue j)
    \<or> (\<exists>j. first_pos (Suc h) n + 2 ^ h \<le> j \<and> j < first_pos (Suc h) n + 2 ^ h + 2 ^ h \<and> suitable nodes minvalue j)"
    using Suc.IH [OF at_height_children(1)] Suc.IH [OF at_height_children(2)] at_height_children(3,4) Suc.prems
    by simp
  also have "\<dots> \<longleftrightarrow> (\<exists>j. first_pos (Suc h) n \<le> j \<and> j < first_pos (Suc h) n + 2 ^ Suc h \<and> suitable nodes minvalue j)"
    (is "?A \<longleftrightarrow> ?B")
  proof
    assume ?B
    then obtain j where "first_pos (Suc h) n \<le> j" "j < first_pos (Suc h) n + 2 ^ h + 2 ^ h" "suitable nodes minvalue j"
      by auto
    then show ?A by (meson not_le)
  next
    assume ?A
    then show ?B
    proof (elim disjE exE conjE)
      fix j assume "first_pos (Suc h) n \<le> j" "j < first_pos (Suc h) n + 2 ^ h" "suitable nodes minvalue j"
      then show ?B by (intro exI [of _ j]) simp
    next
      fix j assume "first_pos (Suc h) n + 2 ^ h \<le> j" "j < first_pos (Suc h) n + 2 ^ h + 2 ^ h" "suitable nodes minvalue j"
      then show ?B by (intro exI [of _ j]) simp
    qed
  qed
  finally show ?case .
qed

lemma and_Suc_zero_iff:
  fixes m k :: nat
  assumes "2 ^ k \<le> m" "m < 2 ^ Suc k"
  shows "(m + 1) AND m = 0 \<longleftrightarrow> m + 1 = 2 ^ Suc k"
proof
  assume z: "(m + 1) AND m = 0"
  show "m + 1 = 2 ^ Suc k"
  proof (rule ccontr)
    assume ne: "m + 1 \<noteq> 2 ^ Suc k"
    have "m div 2 ^ k = 1" "(m + 1) div 2 ^ k = 1"
      using assms ne by (simp_all add: div_nat_eqI)
    then have "bit m k" "bit (m + 1) k" unfolding bit_iff_odd by simp_all
    then have "bit ((m + 1) AND m) k" unfolding bit_and_iff by simp
    with z show False by simp
  qed
next
  assume e: "m + 1 = 2 ^ Suc k"
  then have m: "m = mask (Suc k)" by (simp add: mask_eq_exp_minus_1)
  have "(2::nat) ^ Suc k AND mask (Suc k) = 0"
    by (simp flip: take_bit_eq_mask del: power_Suc)
  then show "(m + 1) AND m = 0" using e m by simp
qed

lemma at_height_level:
  assumes "at_height h n"
  obtains k where "2 ^ k * 2 ^ h = (4096::nat)" "2 ^ k \<le> n + 1" "n + 1 < 2 ^ Suc k"
proof -
  have "(2::nat) ^ h \<le> 4096" using at_height_range [OF assms] by linarith
  then have "(2::nat) ^ h \<le> 2 ^ 12" by simp
  then have "h \<le> 12" by (simp only: power_increasing_iff)
  then have k: "2 ^ (12 - h) * 2 ^ h = (4096::nat)" by (simp flip: power_add)
  have "2 ^ (12 - h) * 2 ^ h \<le> (n + 1) * 2 ^ h" "(n + 1) * 2 ^ h < 2 ^ Suc (12 - h) * 2 ^ h"
    using assms k unfolding at_height_def by simp_all
  then have "2 ^ (12 - h) \<le> n + 1" "n + 1 < 2 ^ Suc (12 - h)"
    by (simp_all only: mult_le_cancel2 mult_less_cancel2)
  with k show thesis by (rule that)
qed

lemma climb_height:
  assumes "at_height h n" "n > 0"
  defines "n' \<equiv> parentof (rightneighbor n)"
  shows "at_height (Suc h) n' \<and>
     (first_pos (Suc h) n' = first_pos h n
      \<or> first_pos (Suc h) n' = (if first_pos h n + 2 ^ h = 4096 then 0 else first_pos h n + 2 ^ h))"
proof -
  obtain k where k: "2 ^ k * 2 ^ h = (4096::nat)" "2 ^ k \<le> n + 1" "n + 1 < 2 ^ Suc k"
    using at_height_level [OF assms(1)] .
  have rn: "rightneighbor n = (if n + 2 = 2 ^ Suc k then n div 2 else n + 1)"
    using and_Suc_zero_iff [OF k(2,3)] by (simp add: rightneighbor_def Let_def parentof_def)
  show ?thesis
  proof (cases "n + 2 = 2 ^ Suc k")
    case True
    have "k > 0" using True assms(2) by (cases k) auto
    then obtain i where i: "k = Suc i" by (cases k) auto
    have "n' + 1 = 2 ^ i" using True by (simp add: n'_def rn parentof_def i)
    then have "(n' + 1) * 2 ^ Suc h = 4096" using k(1) by (simp add: i)
    moreover have "(n + 1) * 2 ^ h + 2 ^ h = 8192"
    proof -
      have "(n + 1) * 2 ^ h + 2 ^ h = (n + 2) * 2 ^ h" by (simp add: algebra_simps)
      also have "\<dots> = 2 * (2 ^ k * 2 ^ h)" by (simp only: True power_Suc mult.assoc)
      finally show ?thesis using k(1) by simp
    qed
    ultimately show ?thesis using assms(1) unfolding at_height_def first_pos_def by auto
  next
    case False
    then have n': "n' = n div 2" by (simp add: n'_def rn parentof_def)
    show ?thesis
    proof (cases "even n")
      case True
      then have "(n' + 1) * 2 ^ Suc h = (n + 1) * 2 ^ h + 2 ^ h" by (auto simp: n' elim!: evenE)
      moreover have "(n + 1) * 2 ^ h + 2 ^ h < 8192"
      proof -
        have "n + 2 < 2 ^ Suc k" using k(3) False by simp
        then have "(n + 2) * 2 ^ h < 2 ^ Suc k * 2 ^ h" by (simp only: mult_less_cancel2) simp
        moreover have "2 ^ Suc k * 2 ^ h = (8192::nat)" using k(1) by (simp add: mult.commute)
        moreover have "(n + 2) * 2 ^ h = (n + 1) * 2 ^ h + 2 ^ h" by simp
        ultimately show ?thesis by linarith
      qed
      ultimately show ?thesis using assms(1) unfolding at_height_def first_pos_def by auto
    next
      case False
      then have "(n' + 1) * 2 ^ Suc h = (n + 1) * 2 ^ h" by (auto simp: n' elim!: oddE)
      then show ?thesis using assms(1) unfolding at_height_def first_pos_def by auto
    qed
  qed
qed

lemma climb_first:
  assumes "\<forall>m<NonLeafNodesPerPage. heap_at nodes m" "at_height h n" "n < NodesPerPage"
    and "minvalue \<le> node_val nodes 0"
    and "first_from (suitable nodes minvalue) (first_pos h n) f"
  shows "\<exists>h'. at_height h' (fsm_search_climb nodes minvalue n)
     \<and> fsm_search_climb nodes minvalue n < NodesPerPage
     \<and> minvalue \<le> node_val nodes (fsm_search_climb nodes minvalue n)
     \<and> first_from (suitable nodes minvalue) (first_pos h' (fsm_search_climb nodes minvalue n)) f"
  using assms(2,3,5)
proof (induction n arbitrary: h rule: less_induct)
  case (less n)
  show ?case
  proof (cases "n > 0 \<and> \<not> minvalue \<le> nodes ! n")
    case False
    have "fsm_search_climb nodes minvalue n = n"
      by (subst fsm_search_climb.simps) (simp only: False if_False)
    moreover have "minvalue \<le> node_val nodes n"
      using False assms(4) less.prems(2) by (cases "n = 0") (auto simp: node_val_def)
    ultimately show ?thesis using less.prems by (intro exI [of _ h]) simp
  next
    case True
    let ?n' = "parentof (rightneighbor n)"
    have step: "fsm_search_climb nodes minvalue n = fsm_search_climb nodes minvalue ?n'"
      by (subst fsm_search_climb.simps) (simp add: True)
    have "?n' < n" using True by (auto simp: parentof_def rightneighbor_def Let_def)
    have "\<not> minvalue \<le> node_val nodes n" using True less.prems(2) by (simp add: node_val_def)
    then have none: "\<not> suitable nodes minvalue j" if "first_pos h n \<le> j" "j < first_pos h n + 2 ^ h" for j
      using suitable_below [OF assms(1) less.prems(1), of minvalue] that by blast
    have n0: "n > 0" using True by simp
    note ch = climb_height [OF less.prems(1) n0]
    have ah: "at_height (Suc h) ?n'" using ch by (rule conjunct1)
    have "first_from (suitable nodes minvalue)
        (if first_pos h n + 2 ^ h = 4096 then 0 else first_pos h n + 2 ^ h) f"
      using first_from_shift [OF less.prems(3) _ _ none] at_height_range [OF less.prems(1)] by blast
    then have "first_from (suitable nodes minvalue) (first_pos (Suc h) ?n') f"
      using less.prems(3) conjunct2 [OF ch] by (elim disjE) simp_all
    then show ?thesis
      unfolding step using less.IH [OF \<open>?n' < n\<close> ah] \<open>?n' < n\<close> less.prems(2) by (meson less_trans)
  qed
qed

lemma descend_first:
  assumes "\<forall>m<NonLeafNodesPerPage. heap_at nodes m" "at_height h n" "0 < minvalue"
    and "minvalue \<le> node_val nodes n"
    and "first_from (suitable nodes minvalue) (first_pos h n) f"
  shows "fsm_search_descend nodes minvalue n = Some (NonLeafNodesPerPage + f)"
  using assms(2,4,5)
proof (induction h arbitrary: n)
  case 0
  have n: "NonLeafNodesPerPage \<le> n" "n = NonLeafNodesPerPage + first_pos 0 n"
    using "0.prems"(1) by (simp_all add: at_height_def first_pos_def fsm_sizes)
  then have "suitable nodes minvalue (first_pos 0 n)" using "0.prems"(2) by (simp add: suitable_def)
  moreover have "first_pos 0 n < 4096" using at_height_range [OF "0.prems"(1)] by simp
  ultimately have "wrap_dist 4096 (first_pos 0 n) f \<le> 0"
    using "0.prems"(3) unfolding first_from_def by (metis wrap_dist_def diff_self_eq_0 order_refl)
  then have "f = first_pos 0 n" using \<open>first_pos 0 n < 4096\<close> by (auto simp: wrap_dist_def split: if_splits)
  then show ?case using n by (subst fsm_search_descend.simps) simp
next
  case (Suc h)
  have n: "n < NonLeafNodesPerPage" using at_height_cases [OF Suc.prems(1)] by simp
  note ch = at_height_children [OF Suc.prems(1)]
  have real: "m < NodesPerPage \<and> minvalue \<le> nodes ! m \<longleftrightarrow> minvalue \<le> node_val nodes m" for m
    using assms(3) by (auto simp: node_val_def)
  have step: "fsm_search_descend nodes minvalue n =
      (if minvalue \<le> node_val nodes (leftchild n) then fsm_search_descend nodes minvalue (leftchild n)
       else if minvalue \<le> node_val nodes (rightchild n) then fsm_search_descend nodes minvalue (rightchild n)
       else None)"
    using real [of "leftchild n"] real [of "rightchild n"]
    by (subst fsm_search_descend.simps) (simp add: n Let_def rightchild_def leftchild_def)
  show ?case
  proof (cases "minvalue \<le> node_val nodes (leftchild n)")
    case True
    then show ?thesis using Suc.IH [OF ch(1)] Suc.prems(3) ch(3) by (simp add: step)
  next
    case False
    then have r: "minvalue \<le> node_val nodes (rightchild n)"
      using Suc.prems(2) assms(1) n by (simp add: heap_at_def le_max_iff_disj)
    have none: "\<not> suitable nodes minvalue j"
      if "first_pos (Suc h) n \<le> j" "j < first_pos (Suc h) n + 2 ^ h" for j
      using suitable_below [OF assms(1) ch(1), of minvalue] False ch(3) that by auto
    have lt: "first_pos h (rightchild n) < 4096" using at_height_range [OF ch(2)] by simp
    have "first_from (suitable nodes minvalue)
        (if first_pos (Suc h) n + 2 ^ h = 4096 then 0 else first_pos (Suc h) n + 2 ^ h) f"
      by (rule first_from_shift [OF Suc.prems(3) _ _ none]) (use lt ch(4) in simp_all)
    then have "first_from (suitable nodes minvalue) (first_pos h (rightchild n)) f"
      using lt ch(4) by simp
    then show ?thesis using Suc.IH [OF ch(2) r] False r by (simp add: step)
  qed
qed

lemma climb_sound:
  assumes "n < NodesPerPage" "minvalue \<le> nodes ! 0"
  shows "fsm_search_climb nodes minvalue n < NodesPerPage
       \<and> minvalue \<le> nodes ! fsm_search_climb nodes minvalue n"
  using assms(1)
proof (induction n rule: less_induct)
  case (less n)
  show ?case
  proof (cases "n > 0 \<and> \<not> minvalue \<le> nodes ! n")
    case True
    have "parentof (rightneighbor n) < n" using True by (auto simp: parentof_def rightneighbor_def Let_def)
    moreover have "fsm_search_climb nodes minvalue n = fsm_search_climb nodes minvalue (parentof (rightneighbor n))"
      by (subst fsm_search_climb.simps) (simp add: True)
    ultimately show ?thesis using less by simp
  next
    case False
    have "fsm_search_climb nodes minvalue n = n"
      by (subst fsm_search_climb.simps) (simp only: False if_False)
    then show ?thesis using False assms(2) less.prems by (cases "n = 0") auto
  qed
qed

lemma descend_sound:
  assumes "fsm_search_descend nodes minvalue n = Some m" "n < NodesPerPage" "minvalue \<le> nodes ! n"
  shows "NonLeafNodesPerPage \<le> m \<and> m < NodesPerPage \<and> minvalue \<le> nodes ! m"
  using assms
proof (induction nodes minvalue n rule: fsm_search_descend.induct)
  case (1 nodes minvalue n)
  let ?l = "leftchild n"
  consider (leaf) "\<not> n < NonLeafNodesPerPage" | (left) "n < NonLeafNodesPerPage" "?l < NodesPerPage \<and> minvalue \<le> nodes ! ?l"
    | (right) "n < NonLeafNodesPerPage" "\<not> (?l < NodesPerPage \<and> minvalue \<le> nodes ! ?l)" by blast
  then show ?case
  proof cases
    case leaf
    then have "m = n" using "1.prems"(1) by (subst (asm) fsm_search_descend.simps) simp
    then show ?thesis using leaf "1.prems" by simp
  next
    case left
    then have "fsm_search_descend nodes minvalue ?l = Some m"
      using "1.prems"(1) by (subst (asm) fsm_search_descend.simps) simp
    then show ?thesis using "1.IH"(1) [OF left(1) refl left(2)] left(2) by simp
  next
    case right
    then have "?l + 1 < NodesPerPage \<and> minvalue \<le> nodes ! (?l + 1)" "fsm_search_descend nodes minvalue (?l + 1) = Some m"
      using "1.prems"(1) by (subst (asm) fsm_search_descend.simps; simp add: Let_def split: if_splits)+
    then show ?thesis using "1.IH"(2) [OF right(1) refl right(2) refl] by simp
  qed
qed

text \<open>One attempt of the search, up to the restart.\<close>

lemma fsm_search_avail_none:
  "fp_nodes page ! 0 < minvalue \<Longrightarrow> fsm_search_avail page minvalue adv = Some (-1, page)"
  by (simp add: fsm_search_avail.simps)

lemma fsm_search_avail_found:
  assumes "minvalue \<le> fp_nodes page ! 0"
    "fsm_search_descend (fp_nodes page) minvalue
       (fsm_search_climb (fp_nodes page) minvalue (fsm_search_target page + NonLeafNodesPerPage))
     = Some m"
  shows "fsm_search_avail page minvalue adv =
     Some (int (m - NonLeafNodesPerPage),
           page\<lparr>fp_next_slot := int (m - NonLeafNodesPerPage) + (if adv then 1 else 0)\<rparr>)"
  using assms by (subst fsm_search_avail.simps) (simp add: Let_def not_less)

lemma fsm_search_avail_restart:
  assumes "minvalue \<le> fp_nodes page ! 0"
    "fsm_search_descend (fp_nodes page) minvalue
       (fsm_search_climb (fp_nodes page) minvalue (fsm_search_target page + NonLeafNodesPerPage))
     = None"
  shows "fsm_search_avail page minvalue adv = fsm_search_avail (snd (fsm_rebuild_page page)) minvalue adv"
  by (rule trans [OF fsm_search_avail.simps]) (simp add: Let_def assms(2) leD [OF assms(1)])

lemma fsm_search_target_less: "fsm_search_target page < LeafNodesPerPage"
  by (auto simp: fsm_search_target_def fsm_sizes Let_def)

lemma fsm_search_found_slot:
  assumes "minvalue \<le> fp_nodes page ! 0"
    "fsm_search_descend (fp_nodes page) minvalue
       (fsm_search_climb (fp_nodes page) minvalue (fsm_search_target page + NonLeafNodesPerPage))
     = Some m"
  shows "m - NonLeafNodesPerPage < LeafNodesPerPage
       \<and> minvalue \<le> fsm_get_avail page (m - NonLeafNodesPerPage)"
proof -
  have "fsm_search_target page + NonLeafNodesPerPage < NodesPerPage"
    using fsm_search_target_less [of page] by (simp add: fsm_sizes)
  then have "NonLeafNodesPerPage \<le> m \<and> m < NodesPerPage \<and> minvalue \<le> fp_nodes page ! m"
    using descend_sound [OF assms(2)] climb_sound [OF _ assms(1)] by simp
  then show ?thesis by (auto simp: fsm_get_avail_def LeafNodesPerPage_def)
qed

lemma fsm_search_heap_pos:
  assumes heap: "fsm_heap page" and min: "0 < minvalue" "minvalue \<le> fp_nodes page ! 0"
  obtains s where "s < LeafNodesPerPage" "minvalue \<le> fsm_get_avail page s"
    "\<forall>j<LeafNodesPerPage. minvalue \<le> fsm_get_avail page j \<longrightarrow>
       wrap_dist LeafNodesPerPage (fsm_search_target page) s
       \<le> wrap_dist LeafNodesPerPage (fsm_search_target page) j"
    "fsm_search_descend (fp_nodes page) minvalue
       (fsm_search_climb (fp_nodes page) minvalue (fsm_search_target page + NonLeafNodesPerPage))
     = Some (NonLeafNodesPerPage + s)"
proof -
  let ?nodes = "fp_nodes page" and ?t = "fsm_search_target page"
  let ?n = "?t + NonLeafNodesPerPage"
  have tl: "?t < LeafNodesPerPage" by (rule fsm_search_target_less)
  have h: "\<forall>m<NonLeafNodesPerPage. heap_at ?nodes m" using heap by (simp add: fsm_heap_def)
  have root: "minvalue \<le> node_val ?nodes 0" using min by (simp add: node_val_def fsm_sizes)
  have ah: "at_height 0 ?n" "first_pos 0 ?n = ?t" "?n < NodesPerPage" "at_height 12 0" "first_pos 12 0 = 0"
    using tl by (simp_all add: at_height_def first_pos_def fsm_sizes)
  obtain j where j: "j < 4096" "suitable ?nodes minvalue j"
    using suitable_below [OF h ah(4), of minvalue] root by (auto simp: ah(5))
  then obtain f where f: "first_from (suitable ?nodes minvalue) ?t f"
    using first_from_exists by blast
  obtain h' where "at_height h' (fsm_search_climb ?nodes minvalue ?n)"
    "minvalue \<le> node_val ?nodes (fsm_search_climb ?nodes minvalue ?n)"
    "first_from (suitable ?nodes minvalue) (first_pos h' (fsm_search_climb ?nodes minvalue ?n)) f"
    using climb_first [OF h ah(1,3) root] f ah(2) by auto
  from descend_first [OF h this(1) min(1) this(2,3)]
  have d: "fsm_search_descend ?nodes minvalue (fsm_search_climb ?nodes minvalue ?n) = Some (NonLeafNodesPerPage + f)" .
  have s: "f < LeafNodesPerPage" "minvalue \<le> fsm_get_avail page f"
    using fsm_search_found_slot [OF min(2) d] by simp_all
  have "wrap_dist LeafNodesPerPage ?t f \<le> wrap_dist LeafNodesPerPage ?t j"
    if "j < LeafNodesPerPage" "minvalue \<le> fsm_get_avail page j" for j
  proof -
    have "suitable ?nodes minvalue j" "j < 4096"
      using that node_val_slot [of j page] by (simp_all add: suitable_def fsm_sizes)
    then have "wrap_dist 4096 ?t f \<le> wrap_dist 4096 ?t j" using f by (simp add: first_from_def)
    then show ?thesis using that(1) s(1) tl by (auto simp: wrap_dist_def fsm_sizes split: if_splits)
  qed
  with d s show thesis by (intro that [of f]) blast+
qed

lemma fsm_search_zero:
  assumes "minvalue = 0"
  shows "fsm_search_descend nodes minvalue (fsm_search_climb nodes minvalue (t + NonLeafNodesPerPage))
     = Some (NonLeafNodesPerPage + t)"
  by (subst fsm_search_climb.simps, subst fsm_search_descend.simps) (simp add: assms)

lemma fsm_search_heap:
  assumes heap: "fsm_heap page" and min: "minvalue \<le> fp_nodes page ! 0"
  obtains s where "s < LeafNodesPerPage" "minvalue \<le> fsm_get_avail page s"
    "\<forall>j<LeafNodesPerPage. minvalue \<le> fsm_get_avail page j \<longrightarrow>
       wrap_dist LeafNodesPerPage (fsm_search_target page) s
       \<le> wrap_dist LeafNodesPerPage (fsm_search_target page) j"
    "fsm_search_avail page minvalue adv = Some (int s, page\<lparr>fp_next_slot := int s + (if adv then 1 else 0)\<rparr>)"
proof (cases "minvalue = 0")
  case True
  show thesis
    by (rule that [OF fsm_search_target_less [of page]])
      (use True fsm_search_avail_found [OF min fsm_search_zero [OF True]] in \<open>simp_all add: wrap_dist_def\<close>)
next
  case False
  then have "0 < minvalue" by (simp add: word_neq_0_conv)
  then obtain s where s: "s < LeafNodesPerPage" "minvalue \<le> fsm_get_avail page s"
    "\<forall>j<LeafNodesPerPage. minvalue \<le> fsm_get_avail page j \<longrightarrow>
       wrap_dist LeafNodesPerPage (fsm_search_target page) s
       \<le> wrap_dist LeafNodesPerPage (fsm_search_target page) j"
    "fsm_search_descend (fp_nodes page) minvalue
       (fsm_search_climb (fp_nodes page) minvalue (fsm_search_target page + NonLeafNodesPerPage))
     = Some (NonLeafNodesPerPage + s)"
    using fsm_search_heap_pos [OF heap _ min] by blast
  show thesis
    by (rule that [OF s(1-3)]) (use fsm_search_avail_found [OF min s(4), of adv] in simp)
qed

section \<open>Properties of a page\<close>

lemma heap_zero_page: "fsm_heap fsm_init_page" and wf_zero_page: "fsm_wf fsm_init_page"
  by (simp_all add: fsm_heap_def fsm_wf_def heap_at_def node_val_def fsm_init_page_def)

lemma fsm_get_avail_init [simp]: "s < LeafNodesPerPage \<Longrightarrow> fsm_get_avail fsm_init_page s = 0"
  by (simp add: fsm_get_avail_def fsm_init_page_def fsm_sizes)

lemma fsm_set_avail_snd:
  assumes "fsm_wf page" "fsm_heap page" "slot < LeafNodesPerPage"
  shows "fsm_wf (snd (fsm_set_avail page slot v))" "fsm_heap (snd (fsm_set_avail page slot v))"
    "fp_next_slot (snd (fsm_set_avail page slot v)) = fp_next_slot page"
    "s < LeafNodesPerPage \<Longrightarrow> fsm_get_avail (snd (fsm_set_avail page slot v)) s
       = (if s = slot then v else fsm_get_avail page s)"
proof -
  obtain c p where p: "fsm_set_avail page slot v = (c, p)" by fastforce
  show "fsm_wf (snd (fsm_set_avail page slot v))" "fsm_heap (snd (fsm_set_avail page slot v))"
    "fp_next_slot (snd (fsm_set_avail page slot v)) = fp_next_slot page"
    "s < LeafNodesPerPage \<Longrightarrow> fsm_get_avail (snd (fsm_set_avail page slot v)) s
       = (if s = slot then v else fsm_get_avail page s)"
    using fsm_set_avail_any [OF assms(1,3) p] fsm_set_avail_heap [OF assms p] p by simp_all
qed

text \<open>C36. Setting a slot of a consistent page changes exactly that slot and repairs
  every upper node: the tree is consistent again, its root is the maximum of
  all slots, and the result says whether the slot really changed.\<close>

theorem fsm_set_avail_correct:
  assumes "fsm_wf page" "fsm_heap page" "slot < LeafNodesPerPage"
    and "fsm_set_avail page slot value = (changed, page')"
  shows "fsm_wf page' \<and> fsm_heap page' \<and> fp_next_slot page' = fp_next_slot page
       \<and> (\<forall>s<LeafNodesPerPage. fsm_get_avail page' s = (if s = slot then value else fsm_get_avail page s))
       \<and> changed = (fsm_get_avail page slot \<noteq> value)
       \<and> fsm_get_max_avail page' = Max (fsm_get_avail page' ` {..<LeafNodesPerPage})"
  using fsm_set_avail_any [OF assms(1,3,4)] fsm_set_avail_heap [OF assms] fsm_get_max_avail_Max by blast

theorem fsm_set_avail_correct_witness:
  "fsm_heap (snd (fsm_set_avail fsm_init_page 4068 77))
   \<and> fsm_get_avail (snd (fsm_set_avail fsm_init_page 4068 77)) 4068 = 77"
  using fsm_set_avail_correct [OF wf_zero_page heap_zero_page _ prod.collapse [symmetric], of 4068 77]
  by (simp add: fsm_sizes)

text \<open>C34. On a consistent page the search returns -1 exactly when no slot has the
  category asked for; otherwise it returns the first such slot at or to the
  right of the slot the next-slot pointer names, wrapping around the page, and
  moves the pointer to it (or past it).  It never finds the page corrupt.\<close>

theorem fsm_search_avail_first:
  assumes "fsm_wf page" "fsm_heap page"
  shows "(\<forall>s<LeafNodesPerPage. fsm_get_avail page s < minvalue)
           \<and> fsm_search_avail page minvalue adv = Some (-1, page)
       \<or> (\<exists>s<LeafNodesPerPage. minvalue \<le> fsm_get_avail page s
           \<and> (\<forall>j<LeafNodesPerPage. minvalue \<le> fsm_get_avail page j \<longrightarrow>
                wrap_dist LeafNodesPerPage (fsm_search_target page) s
                \<le> wrap_dist LeafNodesPerPage (fsm_search_target page) j)
           \<and> fsm_search_avail page minvalue adv
              = Some (int s, page\<lparr>fp_next_slot := int s + (if adv then 1 else 0)\<rparr>))"
proof (cases "fp_nodes page ! 0 < minvalue")
  case True
  have "fsm_get_avail page s \<le> fsm_get_max_avail page" if "s < LeafNodesPerPage" for s
    using fsm_get_max_avail_Max [OF assms(2)] that by simp
  then have "\<forall>s<LeafNodesPerPage. fsm_get_avail page s < minvalue"
    using True unfolding fsm_get_max_avail_def by (meson le_less_trans)
  then show ?thesis using fsm_search_avail_none [OF True] by simp
next
  case False
  then show ?thesis using fsm_search_heap [OF assms(2), of minvalue adv] by (metis not_less)
qed

theorem fsm_search_avail_first_witness:
  "\<exists>s. fsm_get_avail (snd (fsm_set_avail fsm_init_page 5 77)) s \<ge> 10
     \<and> fsm_search_avail (snd (fsm_set_avail fsm_init_page 5 77)) 10 True
       = Some (int s, (snd (fsm_set_avail fsm_init_page 5 77))\<lparr>fp_next_slot := int s + 1\<rparr>)"
proof -
  let ?p = "snd (fsm_set_avail fsm_init_page 5 77)"
  have p: "fsm_wf ?p" "fsm_heap ?p" "fsm_get_avail ?p 5 = 77"
    using fsm_set_avail_snd [OF wf_zero_page heap_zero_page, where slot = 5 and v = 77] by (simp_all add: fsm_sizes)
  have "\<not> (\<forall>s<LeafNodesPerPage. fsm_get_avail ?p s < 10)"
    by (intro notI, drule spec [of _ 5]) (simp add: p(3) fsm_sizes)
  with fsm_search_avail_first [OF p(1,2), of 10 True] show ?thesis by auto
qed

lemma search_avail_any:
  assumes "fsm_wf page"
  shows "\<exists>r page'. fsm_search_avail page minvalue adv = Some (r, page') \<and> fsm_wf page'
     \<and> (\<forall>s<LeafNodesPerPage. fsm_get_avail page' s = fsm_get_avail page s)
     \<and> (fp_nodes page' = fp_nodes page \<or> fp_nodes page' = fp_nodes (snd (fsm_rebuild_page page)) \<and> fsm_heap page')
     \<and> (r = -1 \<or> (\<exists>s<LeafNodesPerPage. r = int s \<and> minvalue \<le> fsm_get_avail page s))"
proof -
  let ?d = "fsm_search_descend (fp_nodes page) minvalue
       (fsm_search_climb (fp_nodes page) minvalue (fsm_search_target page + NonLeafNodesPerPage))"
  consider "fp_nodes page ! 0 < minvalue" | m where "minvalue \<le> fp_nodes page ! 0" "?d = Some m"
    | "minvalue \<le> fp_nodes page ! 0" "?d = None" by (metis not_less option.exhaust)
  then show ?thesis
  proof cases
    case 1
    then show ?thesis using fsm_search_avail_none assms by auto
  next
    case 2
    then show ?thesis using fsm_search_avail_found [OF 2, of adv] fsm_search_found_slot [OF 2] assms
      by (auto simp: fsm_wf_def fsm_get_avail_def)
  next
    case 3
    obtain c q where q: "fsm_rebuild_page page = (c, q)" by fastforce
    have r: "fsm_wf q" "fsm_heap q" "\<forall>n\<ge>NonLeafNodesPerPage. fp_nodes q ! n = fp_nodes page ! n"
      using fsm_rebuild_page_spec [OF assms q] by simp_all
    have eq: "fsm_search_avail page minvalue adv = fsm_search_avail q minvalue adv"
      using fsm_search_avail_restart [OF 3] q by simp
    have same: "fsm_get_avail q s = fsm_get_avail page s" for s using r(3) by (simp add: fsm_get_avail_def)
    show ?thesis
    proof (cases "fp_nodes q ! 0 < minvalue")
      case True
      then show ?thesis using fsm_search_avail_none [OF True] eq r same q by auto
    next
      case False
      then have ge: "minvalue \<le> fp_nodes q ! 0" by simp
      obtain s where "s < LeafNodesPerPage" "minvalue \<le> fsm_get_avail q s"
        "fsm_search_avail q minvalue adv = Some (int s, q\<lparr>fp_next_slot := int s + (if adv then 1 else 0)\<rparr>)"
        using fsm_search_heap [OF r(2) ge] by metis
      then show ?thesis using eq r same q
        by (auto simp: fsm_wf_def fsm_heap_def fsm_get_avail_def)
    qed
  qed
qed

text \<open>On any page, also one torn by a crash so that the upper nodes lie about the
  slots, the search returns: at most one rebuild happens, no slot is changed,
  and a slot that is returned lies on the page and really has the category
  asked for.\<close>

theorem fsm_search_avail_torn:
  assumes "fsm_wf page"
  shows "\<exists>r page'. fsm_search_avail page minvalue adv = Some (r, page') \<and> fsm_wf page'
     \<and> (\<forall>s<LeafNodesPerPage. fsm_get_avail page' s = fsm_get_avail page s)
     \<and> (fp_nodes page' = fp_nodes page \<or> fp_nodes page' = fp_nodes (snd (fsm_rebuild_page page)) \<and> fsm_heap page')
     \<and> (r = -1 \<or> (\<exists>s<LeafNodesPerPage. r = int s \<and> minvalue \<le> fsm_get_avail page s))"
  by (rule search_avail_any [OF assms])

theorem fsm_search_avail_torn_witness:
  "\<exists>r page'. fsm_search_avail \<lparr>fp_next_slot = -3, fp_nodes = (replicate NodesPerPage 0)[0 := 200]\<rparr> 100 False
     = Some (r, page')"
  using fsm_search_avail_torn [of "\<lparr>fp_next_slot = -3, fp_nodes = (replicate NodesPerPage 0)[0 := 200]\<rparr>" 100 False]
  by (auto simp: fsm_wf_def)

lemma for_update_zero_id:
  assumes "\<forall>i. lo \<le> i \<and> i < hi \<longrightarrow> xs ! i = z" "hi \<le> length xs"
  shows "for_update lo hi (\<lambda>_ _. z) xs = xs"
  using assms by (intro nth_equalityI) (auto simp: nth_for_update)

lemma fsm_truncate_avail_any:
  assumes "fsm_wf page" "fsm_truncate_avail page nslots = (changed, page')"
  shows "fsm_wf page' \<and> (fsm_heap page \<longrightarrow> fsm_heap page') \<and> fp_next_slot page' = fp_next_slot page
       \<and> (\<forall>s<LeafNodesPerPage. fsm_get_avail page' s = (if nslots \<le> s then 0 else fsm_get_avail page s))
       \<and> changed = (\<exists>s<LeafNodesPerPage. nslots \<le> s \<and> fsm_get_avail page s \<noteq> 0)"
proof -
  let ?first = "NonLeafNodesPerPage + nslots"
  let ?p = "page\<lparr>fp_nodes := for_update ?first NodesPerPage (\<lambda>_ _. 0) (fp_nodes page)\<rparr>"
  let ?ch = "list_ex (\<lambda>i. fp_nodes page ! i \<noteq> 0) [?first..<NodesPerPage]"
  have len: "length (fp_nodes page) = NodesPerPage" using assms(1) by (simp add: fsm_wf_def)
  have NL: "NodesPerPage = NonLeafNodesPerPage + LeafNodesPerPage" by (simp add: fsm_sizes)
  have ch: "?ch = (\<exists>s<LeafNodesPerPage. nslots \<le> s \<and> fsm_get_avail page s \<noteq> 0)" (is "_ = ?R")
  proof
    assume ?ch
    then obtain i where i: "?first \<le> i" "i < NodesPerPage" "fp_nodes page ! i \<noteq> 0" by (auto simp: list_ex_iff)
    then show ?R by (intro exI [of _ "i - NonLeafNodesPerPage"]) (auto simp: fsm_get_avail_def NL)
  next
    assume ?R
    then obtain s where "s < LeafNodesPerPage" "nslots \<le> s" "fsm_get_avail page s \<noteq> 0" by blast
    then show ?ch unfolding list_ex_iff fsm_get_avail_def
      by (intro bexI [of _ "NonLeafNodesPerPage + s"]) (simp_all add: NL)
  qed
  have wfp: "fsm_wf ?p" using len by (simp add: fsm_wf_def)
  have slots: "\<forall>s<LeafNodesPerPage. fsm_get_avail ?p s = (if nslots \<le> s then 0 else fsm_get_avail page s)"
    using len by (simp add: fsm_get_avail_def nth_for_update NL)
  show ?thesis
  proof (cases ?ch)
    case True
    then obtain c where "fsm_rebuild_page ?p = (c, page')" "changed"
      using assms(2) unfolding fsm_truncate_avail_def Let_def by (auto simp: prod.collapse) (metis prod.collapse)
    from fsm_rebuild_page_spec [OF wfp this(1)] this(2) slots ch True show ?thesis
      by (simp add: fsm_get_avail_def)
  next
    case False
    then have "\<forall>i. ?first \<le> i \<and> i < NodesPerPage \<longrightarrow> fp_nodes page ! i = 0" by (auto simp: list_ex_iff)
    then have "?p = page" using for_update_zero_id [of ?first NodesPerPage "fp_nodes page" 0] len by simp
    moreover have "page' = ?p" "\<not> changed"
      using assms(2) False unfolding fsm_truncate_avail_def Let_def by (auto split: if_splits)
    ultimately show ?thesis using slots ch False assms(1) by simp
  qed
qed

end
