(* ===== verification/Freespace.thy ===== *)
theory Freespace
  imports Fsm_Page
begin

text \<open>
  The free space map of a relation (\<^verbatim>\<open>storage/freespace/freespace.c\<close>): a tree of
  map pages of depth three, stored in depth-first order in the free space map
  fork, in which the slots of a bottom page describe heap blocks and the slots
  of an upper page hold the root values of its child pages.

  The state is what one backend sees of the fork through its storage manager
  handle: whether the fork exists, its pages, and the cached fork size.  A page
  that \<^verbatim>\<open>PageIsNew\<close> holds of is None.  Buffer pins and locks have no counterpart;
  the functions run without interference from other backends.
\<close>

section \<open>Categories of free space\<close>

definition MaxHeapTupleSize :: nat where
  "MaxHeapTupleSize = BLCKSZ - MAXALIGN (SizeOfPageHeaderData + sizeof_ItemIdData)"

definition FSM_CATEGORIES :: nat where
  "FSM_CATEGORIES = 256"

definition FSM_CAT_STEP :: nat where
  "FSM_CAT_STEP = BLCKSZ div FSM_CATEGORIES"

definition MaxFSMRequestSize :: nat where
  "MaxFSMRequestSize = MaxHeapTupleSize"

definition fsm_space_avail_to_cat :: "nat \<Rightarrow> uint8" where
  "fsm_space_avail_to_cat avail =
     (if avail \<ge> MaxFSMRequestSize then 255
      else let cat = avail div FSM_CAT_STEP;
               cat = (if cat > 254 then 254 else cat)
           in of_nat cat)"

definition fsm_space_cat_to_avail :: "uint8 \<Rightarrow> nat" where
  "fsm_space_cat_to_avail cat =
     (if cat = 255 then MaxFSMRequestSize else unat cat * FSM_CAT_STEP)"

definition fsm_space_needed_to_cat :: "nat \<Rightarrow> pg_error + uint8" where
  "fsm_space_needed_to_cat needed =
     (if needed > MaxFSMRequestSize then Inl (Elog ''invalid FSM request size'')
      else if needed = 0 then Inr 1
      else let cat = (needed + FSM_CAT_STEP - 1) div FSM_CAT_STEP;
               cat = (if cat > 255 then 255 else cat)
           in Inr (of_nat cat))"

section \<open>Addresses\<close>

type_synonym BlockNumber = nat

definition InvalidBlockNumber :: BlockNumber where
  "InvalidBlockNumber = 0xFFFFFFFF"

definition SlotsPerFSMPage :: nat where
  "SlotsPerFSMPage = LeafNodesPerPage"

definition FSM_TREE_DEPTH :: nat where
  "FSM_TREE_DEPTH = (if SlotsPerFSMPage \<ge> 1626 then 3 else 4)"

definition FSM_ROOT_LEVEL :: nat where
  "FSM_ROOT_LEVEL = FSM_TREE_DEPTH - 1"

definition FSM_BOTTOM_LEVEL :: nat where
  "FSM_BOTTOM_LEVEL = 0"

record FSMAddress =
  level :: nat
  logpageno :: nat

definition FSM_ROOT_ADDRESS :: FSMAddress where
  "FSM_ROOT_ADDRESS = \<lparr>level = FSM_ROOT_LEVEL, logpageno = 0\<rparr>"

primrec fsm_count_pages :: "nat \<Rightarrow> nat \<Rightarrow> nat \<Rightarrow> nat" where
  "fsm_count_pages 0 leafno pages = pages"
| "fsm_count_pages (Suc l) leafno pages =
     fsm_count_pages l (leafno div SlotsPerFSMPage) (pages + (leafno + 1))"

definition fsm_logical_to_physical :: "FSMAddress \<Rightarrow> BlockNumber" where
  "fsm_logical_to_physical addr =
     (let leafno = ((\<lambda>n. n * SlotsPerFSMPage) ^^ level addr) (logpageno addr);
          pages = fsm_count_pages FSM_TREE_DEPTH leafno 0
      in pages - level addr - 1)"

definition fsm_get_location :: "BlockNumber \<Rightarrow> FSMAddress \<times> nat" where
  "fsm_get_location heapblk =
     (\<lparr>level = FSM_BOTTOM_LEVEL, logpageno = heapblk div SlotsPerFSMPage\<rparr>,
      heapblk mod SlotsPerFSMPage)"

definition fsm_get_heap_blk :: "FSMAddress \<Rightarrow> nat \<Rightarrow> BlockNumber" where
  "fsm_get_heap_blk addr slot = (logpageno addr * SlotsPerFSMPage + slot) mod 2 ^ 32"

definition fsm_get_parent :: "FSMAddress \<Rightarrow> FSMAddress \<times> nat" where
  "fsm_get_parent child =
     (\<lparr>level = level child + 1, logpageno = logpageno child div SlotsPerFSMPage\<rparr>,
      logpageno child mod SlotsPerFSMPage)"

definition fsm_get_child :: "FSMAddress \<Rightarrow> nat \<Rightarrow> FSMAddress" where
  "fsm_get_child parent slot =
     \<lparr>level = level parent - 1, logpageno = logpageno parent * SlotsPerFSMPage + slot\<rparr>"

section \<open>The fork\<close>

record FSMRelation =
  smgr_fsm_nblocks :: BlockNumber
  fsm_exists :: bool
  fsm_pages :: "FSMPageData option list"

definition fsm_page :: "FSMRelation \<Rightarrow> BlockNumber \<Rightarrow> FSMPageData" where
  "fsm_page rel blkno =
     (case fsm_pages rel ! blkno of None \<Rightarrow> fsm_init_page | Some page \<Rightarrow> page)"

definition fsm_put_page :: "FSMRelation \<Rightarrow> BlockNumber \<Rightarrow> FSMPageData \<Rightarrow> FSMRelation" where
  "fsm_put_page rel blkno page = rel\<lparr>fsm_pages := (fsm_pages rel)[blkno := Some page]\<rparr>"

function fsm_extend_loop :: "FSMPageData option list \<Rightarrow> BlockNumber \<Rightarrow> FSMPageData option list" where
  "fsm_extend_loop pages fsm_nblocks =
     (if length pages < fsm_nblocks
      then fsm_extend_loop (pages @ [Some fsm_init_page]) fsm_nblocks
      else pages)"
  by pat_completeness auto
termination
  by (relation "measure (\<lambda>(pages, n). n - length pages)") auto

declare fsm_extend_loop.simps [simp del]

definition fsm_extend :: "FSMRelation \<Rightarrow> BlockNumber \<Rightarrow> FSMRelation" where
  "fsm_extend rel fsm_nblocks =
     (let rel1 = (if (smgr_fsm_nblocks rel = 0 \<or> smgr_fsm_nblocks rel = InvalidBlockNumber)
                     \<and> \<not> fsm_exists rel
                  then rel\<lparr>fsm_exists := True\<rparr> else rel);
          pages = fsm_extend_loop (fsm_pages rel1) fsm_nblocks
      in rel1\<lparr>fsm_pages := pages, smgr_fsm_nblocks := length pages\<rparr>)"

definition fsm_readbuf :: "FSMRelation \<Rightarrow> FSMAddress \<Rightarrow> bool \<Rightarrow> BlockNumber option \<times> FSMRelation" where
  "fsm_readbuf rel addr ext =
     (let blkno = fsm_logical_to_physical addr;
          rel1 = (if smgr_fsm_nblocks rel = InvalidBlockNumber \<or> blkno \<ge> smgr_fsm_nblocks rel
                  then rel\<lparr>smgr_fsm_nblocks := (if fsm_exists rel then length (fsm_pages rel) else 0)\<rparr>
                  else rel)
      in if blkno \<ge> smgr_fsm_nblocks rel1 \<and> \<not> ext then (None, rel1)
         else let rel2 = (if blkno \<ge> smgr_fsm_nblocks rel1 then fsm_extend rel1 (blkno + 1) else rel1)
              in (Some blkno, if fsm_pages rel2 ! blkno = None
                              then fsm_put_page rel2 blkno fsm_init_page else rel2))"

section \<open>Setting, searching, vacuuming\<close>

definition fsm_set_and_search ::
    "FSMRelation \<Rightarrow> FSMAddress \<Rightarrow> nat \<Rightarrow> uint8 \<Rightarrow> uint8 \<Rightarrow> (int \<times> FSMRelation) option" where
  "fsm_set_and_search rel addr slot newValue minValue =
     (case fsm_readbuf rel addr True of
        (None, _) \<Rightarrow> None
      | (Some buf, rel1) \<Rightarrow>
          let page = snd (fsm_set_avail (fsm_page rel1 buf) slot newValue)
          in if minValue \<noteq> 0
             then (case fsm_search_avail page minValue (level addr = FSM_BOTTOM_LEVEL) of
                     None \<Rightarrow> None
                   | Some (newslot, page') \<Rightarrow> Some (newslot, fsm_put_page rel1 buf page'))
             else Some (-1, fsm_put_page rel1 buf page))"

text \<open>
  One iteration of the loop of \<^verbatim>\<open>fsm_search\<close> up to the release of the buffer: the
  slot found, or -1, and then the largest category on the page.
\<close>

definition fsm_search_page ::
    "FSMRelation \<Rightarrow> FSMAddress \<Rightarrow> uint8 \<Rightarrow> (int \<times> uint8 \<times> FSMRelation) option" where
  "fsm_search_page rel addr min_cat =
     (case fsm_readbuf rel addr False of
        (None, rel1) \<Rightarrow> Some (-1, 0, rel1)
      | (Some buf, rel1) \<Rightarrow>
          (case fsm_search_avail (fsm_page rel1 buf) min_cat (level addr = FSM_BOTTOM_LEVEL) of
             None \<Rightarrow> None
           | Some (slot, page) \<Rightarrow>
               Some (slot, if slot = -1 then fsm_get_max_avail page else 0,
                     fsm_put_page rel1 buf page)))"

function fsm_search_loop ::
    "FSMRelation \<Rightarrow> uint8 \<Rightarrow> nat \<Rightarrow> FSMAddress \<Rightarrow> (BlockNumber \<times> FSMRelation) option" where
  "fsm_search_loop rel min_cat restarts addr =
     (case fsm_search_page rel addr min_cat of
        None \<Rightarrow> None
      | Some (slot, max_avail, rel1) \<Rightarrow>
          if slot \<noteq> -1 then
            if level addr = FSM_BOTTOM_LEVEL then Some (fsm_get_heap_blk addr (nat slot), rel1)
            else fsm_search_loop rel1 min_cat restarts (fsm_get_child addr (nat slot))
          else if level addr = FSM_ROOT_LEVEL then Some (InvalidBlockNumber, rel1)
          else (case fsm_set_and_search rel1 (fst (fsm_get_parent addr)) (snd (fsm_get_parent addr)) max_avail 0 of
                  None \<Rightarrow> None
                | Some (_, rel2) \<Rightarrow>
                    if restarts > 10000 then Some (InvalidBlockNumber, rel2)
                    else fsm_search_loop rel2 min_cat (restarts + 1) FSM_ROOT_ADDRESS))"
  by pat_completeness auto
termination
  by (relation "measures [\<lambda>(_, _, restarts, _). 10001 - restarts, \<lambda>(_, _, _, addr). level addr]")
    (auto simp: fsm_get_child_def FSM_BOTTOM_LEVEL_def)

declare fsm_search_loop.simps [simp del]

definition fsm_search :: "FSMRelation \<Rightarrow> uint8 \<Rightarrow> (BlockNumber \<times> FSMRelation) option" where
  "fsm_search rel min_cat = fsm_search_loop rel min_cat 0 FSM_ROOT_ADDRESS"

text \<open>
  \<^verbatim>\<open>fsm_vacuum_page\<close> and its loop over the slots.  The result is the largest
  category of the page and whether the page is past the end of the fork.  The
  loop runs for upper pages only, as in the source; its guard on the level
  repeats that.
\<close>

function fsm_vacuum_page :: "FSMRelation \<Rightarrow> FSMAddress \<Rightarrow> uint8 \<times> bool \<times> FSMRelation"
  and fsm_vacuum_slots :: "FSMRelation \<Rightarrow> FSMAddress \<Rightarrow> BlockNumber \<Rightarrow> nat \<Rightarrow> bool \<Rightarrow> FSMRelation" where
  "fsm_vacuum_page rel addr =
     (case fsm_readbuf rel addr False of
        (None, rel1) \<Rightarrow> (0, True, rel1)
      | (Some buf, rel1) \<Rightarrow>
          let rel2 = (if level addr > FSM_BOTTOM_LEVEL
                      then fsm_vacuum_slots rel1 addr buf 0 False else rel1);
              page = fsm_page rel2 buf;
              max_avail = fsm_get_max_avail page
          in (max_avail, False, fsm_put_page rel2 buf (page\<lparr>fp_next_slot := 0\<rparr>)))"
| "fsm_vacuum_slots rel addr buf slot eof =
     (if slot < SlotsPerFSMPage \<and> level addr > FSM_BOTTOM_LEVEL then
        let (child_avail, eof', rel1) =
              (if \<not> eof then fsm_vacuum_page rel (fsm_get_child addr slot) else (0, eof, rel));
            rel2 = (if fsm_get_avail (fsm_page rel1 buf) slot \<noteq> child_avail
                    then fsm_put_page rel1 buf (snd (fsm_set_avail (fsm_page rel1 buf) slot child_avail))
                    else rel1)
        in fsm_vacuum_slots rel2 addr buf (slot + 1) eof'
      else rel)"
  by pat_completeness auto
termination
  by (relation "measures [\<lambda>x. case x of Inl (_, a) \<Rightarrow> level a | Inr (_, a, _, _, _) \<Rightarrow> level a,
                          \<lambda>x. case x of Inl _ \<Rightarrow> 1 | Inr _ \<Rightarrow> 0,
                          \<lambda>x. case x of Inl _ \<Rightarrow> 0 | Inr (_, _, _, slot, _) \<Rightarrow> SlotsPerFSMPage - slot]")
    (auto simp: fsm_get_child_def FSM_BOTTOM_LEVEL_def)

declare fsm_vacuum_page.simps [simp del] fsm_vacuum_slots.simps [simp del]

section \<open>Public interface\<close>

definition GetPageWithFreeSpace ::
    "FSMRelation \<Rightarrow> nat \<Rightarrow> pg_error + (BlockNumber \<times> FSMRelation) option" where
  "GetPageWithFreeSpace rel spaceNeeded =
     (case fsm_space_needed_to_cat spaceNeeded of
        Inl e \<Rightarrow> Inl e
      | Inr min_cat \<Rightarrow> Inr (fsm_search rel min_cat))"

definition RecordAndGetPageWithFreeSpace ::
    "FSMRelation \<Rightarrow> BlockNumber \<Rightarrow> nat \<Rightarrow> nat \<Rightarrow> pg_error + (BlockNumber \<times> FSMRelation) option" where
  "RecordAndGetPageWithFreeSpace rel oldPage oldSpaceAvail spaceNeeded =
     (let old_cat = fsm_space_avail_to_cat oldSpaceAvail in
      case fsm_space_needed_to_cat spaceNeeded of
        Inl e \<Rightarrow> Inl e
      | Inr search_cat \<Rightarrow>
          let (addr, slot) = fsm_get_location oldPage in
          Inr (case fsm_set_and_search rel addr slot old_cat search_cat of
                 None \<Rightarrow> None
               | Some (search_slot, rel1) \<Rightarrow>
                   if search_slot \<noteq> -1 then Some (fsm_get_heap_blk addr (nat search_slot), rel1)
                   else fsm_search rel1 search_cat))"

definition RecordPageWithFreeSpace :: "FSMRelation \<Rightarrow> BlockNumber \<Rightarrow> nat \<Rightarrow> FSMRelation option" where
  "RecordPageWithFreeSpace rel heapBlk spaceAvail =
     (let new_cat = fsm_space_avail_to_cat spaceAvail;
          (addr, slot) = fsm_get_location heapBlk
      in map_option snd (fsm_set_and_search rel addr slot new_cat 0))"

definition XLogRecordPageWithFreeSpace :: "FSMRelation \<Rightarrow> BlockNumber \<Rightarrow> nat \<Rightarrow> FSMRelation" where
  "XLogRecordPageWithFreeSpace rel heapBlk spaceAvail =
     (let new_cat = fsm_space_avail_to_cat spaceAvail;
          (addr, slot) = fsm_get_location heapBlk;
          blkno = fsm_logical_to_physical addr;
          pages = fsm_pages rel @ replicate (blkno + 1 - length (fsm_pages rel)) None;
          rel1 = rel\<lparr>fsm_exists := True, fsm_pages := pages\<rparr>;
          rel2 = (if pages ! blkno = None then fsm_put_page rel1 blkno fsm_init_page else rel1)
      in fsm_put_page rel2 blkno (snd (fsm_set_avail (fsm_page rel2 blkno) slot new_cat)))"

definition GetRecordedFreeSpace :: "FSMRelation \<Rightarrow> BlockNumber \<Rightarrow> nat \<times> FSMRelation" where
  "GetRecordedFreeSpace rel heapBlk =
     (let (addr, slot) = fsm_get_location heapBlk in
      case fsm_readbuf rel addr False of
        (None, rel1) \<Rightarrow> (0, rel1)
      | (Some buf, rel1) \<Rightarrow>
          (fsm_space_cat_to_avail (fsm_get_avail (fsm_page rel1 buf) slot), rel1))"

text \<open>\<^verbatim>\<open>smgrtruncate\<close> cuts the fork to the given number of blocks.\<close>

definition fsm_smgrtruncate :: "FSMRelation \<Rightarrow> BlockNumber \<Rightarrow> FSMRelation" where
  "fsm_smgrtruncate rel n =
     rel\<lparr>fsm_pages := take n (fsm_pages rel), smgr_fsm_nblocks := n\<rparr>"

definition FreeSpaceMapTruncateRel :: "FSMRelation \<Rightarrow> BlockNumber \<Rightarrow> FSMRelation" where
  "FreeSpaceMapTruncateRel rel nblocks =
     (if \<not> fsm_exists rel then rel
      else let (first_removed_address, first_removed_slot) = fsm_get_location nblocks in
           if first_removed_slot > 0 then
             (case fsm_readbuf rel first_removed_address False of
                (None, rel1) \<Rightarrow> rel1
              | (Some buf, rel1) \<Rightarrow>
                  let rel2 = fsm_put_page rel1 buf
                        (snd (fsm_truncate_avail (fsm_page rel1 buf) first_removed_slot))
                  in fsm_smgrtruncate rel2 (fsm_logical_to_physical first_removed_address + 1))
           else let new_nfsmblocks = fsm_logical_to_physical first_removed_address in
                if length (fsm_pages rel) \<le> new_nfsmblocks then rel
                else fsm_smgrtruncate rel new_nfsmblocks)"

definition FreeSpaceMapVacuum :: "FSMRelation \<Rightarrow> FSMRelation" where
  "FreeSpaceMapVacuum rel = snd (snd (fsm_vacuum_page rel FSM_ROOT_ADDRESS))"

section \<open>Properties of the categories\<close>

lemma MaxFSMRequestSize_eq: "MaxFSMRequestSize = 8160"
  by (simp add: MaxFSMRequestSize_def MaxHeapTupleSize_def BLCKSZ_def MAXALIGN_eq
      SizeOfPageHeaderData_def sizeof_ItemIdData_def)

lemma FSM_CAT_STEP_eq: "FSM_CAT_STEP = 32"
  by (simp add: FSM_CAT_STEP_def BLCKSZ_def FSM_CATEGORIES_def)

lemmas fsm_cat_consts = MaxFSMRequestSize_eq FSM_CAT_STEP_eq

lemma unat_avail_to_cat:
  "unat (fsm_space_avail_to_cat a) = (if a \<ge> 8160 then 255 else a div 32)"
  by (auto simp: fsm_space_avail_to_cat_def fsm_cat_consts Let_def unat_of_nat take_bit_eq_mod)

lemma unat_needed_to_cat:
  "fsm_space_needed_to_cat n = Inr c \<longleftrightarrow>
   n \<le> 8160 \<and> unat c = (if n = 0 then 1 else (n + 31) div 32)"
proof -
  have "unat (of_nat k :: uint8) = k" if "k \<le> 255" for k
    using that by (simp add: unat_of_nat take_bit_eq_mod)
  moreover have "(n + 31) div 32 \<le> 255" if "n \<le> 8160" using that by linarith
  ultimately show ?thesis
    by (auto simp: fsm_space_needed_to_cat_def fsm_cat_consts Let_def word_unat_eq_iff not_less)
qed

lemma unat_cat_to_avail:
  "fsm_space_cat_to_avail c = (if unat c = 255 then 8160 else unat c * 32)"
proof -
  have "c = 255 \<longleftrightarrow> unat c = 255" by (simp add: word_unat_eq_iff)
  then show ?thesis by (simp add: fsm_space_cat_to_avail_def fsm_cat_consts)
qed

text \<open>Free-space categories are conservative: a request is refused exactly when it
  exceeds the largest heap tuple; a page recorded with a category at least the
  one a request is mapped to has room for the request; the space read back from
  a category never exceeds the space recorded and loses less than one step of
  it below the top; reading back and recording again is the identity.\<close>

theorem fsm_categories_conservative:
  "(\<exists>e. fsm_space_needed_to_cat needed = Inl e) = (needed > MaxHeapTupleSize)
   \<and> (\<forall>c. fsm_space_needed_to_cat needed = Inr c \<longrightarrow>
        c \<noteq> 0 \<and> (c \<le> fsm_space_avail_to_cat avail \<longrightarrow> needed \<le> avail)
        \<and> (needed + 31 \<le> avail \<or> MaxHeapTupleSize \<le> avail \<longrightarrow> 0 < needed \<longrightarrow> c \<le> fsm_space_avail_to_cat avail))
   \<and> fsm_space_cat_to_avail (fsm_space_avail_to_cat avail) \<le> avail
   \<and> (avail < MaxHeapTupleSize \<longrightarrow> avail < fsm_space_cat_to_avail (fsm_space_avail_to_cat avail) + FSM_CAT_STEP)
   \<and> fsm_space_avail_to_cat (fsm_space_cat_to_avail cat) = cat"
proof (intro conjI allI impI)
  have max: "MaxHeapTupleSize = 8160" using MaxFSMRequestSize_eq by (simp add: MaxFSMRequestSize_def)
  show "(\<exists>e. fsm_space_needed_to_cat needed = Inl e) = (needed > MaxHeapTupleSize)"
    by (simp add: fsm_space_needed_to_cat_def fsm_cat_consts max Let_def)
  show "fsm_space_cat_to_avail (fsm_space_avail_to_cat avail) \<le> avail"
    by (auto simp: unat_cat_to_avail unat_avail_to_cat)
  show "avail < fsm_space_cat_to_avail (fsm_space_avail_to_cat avail) + FSM_CAT_STEP"
    if "avail < MaxHeapTupleSize"
    using that by (auto simp: unat_cat_to_avail unat_avail_to_cat max FSM_CAT_STEP_eq)
  show "fsm_space_avail_to_cat (fsm_space_cat_to_avail cat) = cat"
  proof -
    have "unat cat < 256" using unsigned_less [of cat] by simp
    then show ?thesis by (auto simp: word_unat_eq_iff unat_avail_to_cat unat_cat_to_avail)
  qed
  fix c assume c: "fsm_space_needed_to_cat needed = Inr c"
  then have n: "needed \<le> 8160" "unat c = (if needed = 0 then 1 else (needed + 31) div 32)"
    by (simp_all add: unat_needed_to_cat)
  show "c \<noteq> 0" using n(2) by (auto simp: word_unat_eq_iff split: if_splits)
  show "needed \<le> avail" if "c \<le> fsm_space_avail_to_cat avail"
    using that n by (auto simp: word_le_nat_alt unat_avail_to_cat split: if_splits)
  show "c \<le> fsm_space_avail_to_cat avail"
    if "needed + 31 \<le> avail \<or> MaxHeapTupleSize \<le> avail" "0 < needed"
    using that n by (auto simp: word_le_nat_alt unat_avail_to_cat max div_le_mono)
qed

theorem fsm_categories_conservative_witness:
  "\<exists>c. fsm_space_needed_to_cat 100 = Inr c \<and> c \<le> fsm_space_avail_to_cat 8000"
proof -
  have "fsm_space_needed_to_cat 100 = Inr 4"
    by (simp add: fsm_space_needed_to_cat_def fsm_cat_consts Let_def)
  then show ?thesis using fsm_categories_conservative [of 100 8000 0] by auto
qed

section \<open>Properties of the addresses\<close>

lemma SlotsPerFSMPage_eq: "SlotsPerFSMPage = 4069"
  by (simp add: SlotsPerFSMPage_def LeafNodesPerPage_eq)

lemma FSM_TREE_DEPTH_eq: "FSM_TREE_DEPTH = 3"
  by (simp add: FSM_TREE_DEPTH_def SlotsPerFSMPage_eq)

lemma FSM_ROOT_LEVEL_eq: "FSM_ROOT_LEVEL = 2"
  by (simp add: FSM_ROOT_LEVEL_def FSM_TREE_DEPTH_eq)

lemmas fsm_addr_consts = SlotsPerFSMPage_eq FSM_TREE_DEPTH_eq FSM_ROOT_LEVEL_eq FSM_BOTTOM_LEVEL_def

text \<open>The addresses of the tree: one root page and 4069 children per upper page.\<close>

definition addr_valid :: "FSMAddress \<Rightarrow> bool" where
  "addr_valid addr \<longleftrightarrow>
     level addr \<le> FSM_ROOT_LEVEL \<and> logpageno addr < SlotsPerFSMPage ^ (FSM_ROOT_LEVEL - level addr)"

lemma phys_root: "fsm_logical_to_physical \<lparr>level = 2, logpageno = 0\<rparr> = 0"
  by (simp add: fsm_logical_to_physical_def fsm_addr_consts Let_def numeral_3_eq_3 numeral_2_eq_2)

lemma phys_1: "p < 4069 \<Longrightarrow> fsm_logical_to_physical \<lparr>level = Suc 0, logpageno = p\<rparr> = p * 4070 + 1"
  by (simp add: fsm_logical_to_physical_def fsm_addr_consts Let_def numeral_3_eq_3)

lemma phys_0: "q < 16556761 \<Longrightarrow> fsm_logical_to_physical \<lparr>level = 0, logpageno = q\<rparr> = q + q div 4069 + 2"
  by (simp add: fsm_logical_to_physical_def fsm_addr_consts Let_def numeral_3_eq_3 flip: div_mult2_eq)

lemma addr_valid_cases:
  assumes "addr_valid addr"
  obtains (root) "addr = \<lparr>level = 2, logpageno = 0\<rparr>"
    | (mid) p where "addr = \<lparr>level = Suc 0, logpageno = p\<rparr>" "p < 4069"
    | (bottom) q where "addr = \<lparr>level = 0, logpageno = q\<rparr>" "q < 16556761"
proof -
  obtain l n where a: "addr = \<lparr>level = l, logpageno = n\<rparr>" by (cases addr)
  have "l = 0 \<or> l = Suc 0 \<or> l = 2" using assms by (auto simp: addr_valid_def a fsm_addr_consts)
  then show thesis
    using assms that unfolding a addr_valid_def fsm_addr_consts by (auto simp: power2_eq_square)
qed

lemma phys_bottom_decomp:
  assumes "a * 4069 + b < 16556761" "b < 4069"
  shows "fsm_logical_to_physical \<lparr>level = 0, logpageno = a * 4069 + b\<rparr> = a * 4070 + b + 2"
  using assms by (simp add: phys_0)

text \<open>The address of a block, the inverse of \<open>fsm_logical_to_physical\<close>.\<close>

definition phys_addr :: "BlockNumber \<Rightarrow> FSMAddress" where
  "phys_addr x =
     (if x = 0 then \<lparr>level = 2, logpageno = 0\<rparr>
      else if (x - 1) mod 4070 = 0 then \<lparr>level = Suc 0, logpageno = (x - 1) div 4070\<rparr>
      else \<lparr>level = 0, logpageno = (x - 1) div 4070 * 4069 + ((x - 1) mod 4070 - 1)\<rparr>)"

lemma bottom_decomp:
  assumes "q < 16556761"
  obtains a b where "q = a * 4069 + b" "a < 4069" "b < (4069 :: nat)"
proof
  show "q = q div 4069 * 4069 + q mod 4069" by simp
  show "q div 4069 < 4069" using assms by (simp add: div_less_iff_less_mult)
qed simp

lemma phys_addr_phys: "addr_valid addr \<Longrightarrow> phys_addr (fsm_logical_to_physical addr) = addr"
proof (erule addr_valid_cases)
  fix q assume a: "addr = \<lparr>level = 0, logpageno = q\<rparr>" and q: "q < 16556761"
  obtain a b where q': "q = a * 4069 + b" "a < 4069" "b < 4069" using bottom_decomp [OF q] .
  have "a * 4070 + b + 2 - 1 = a * 4070 + (b + 1)" by simp
  moreover have "(a * 4070 + (b + 1)) mod 4070 = b + 1" "(a * 4070 + (b + 1)) div 4070 = a" using q'(3) by simp_all
  ultimately show ?thesis
    using phys_bottom_decomp [of a b] q q' unfolding a phys_addr_def by simp
qed (simp_all add: phys_root phys_1 phys_addr_def)

lemma phys_inj: "inj_on fsm_logical_to_physical {addr. addr_valid addr}"
  by (rule inj_on_inverseI [of _ phys_addr]) (simp add: phys_addr_phys)

lemma phys_less: "addr_valid addr \<Longrightarrow> fsm_logical_to_physical addr < 1 + 4069 + 4069 * 4069"
  by (erule addr_valid_cases) (auto simp: phys_root phys_1 elim!: bottom_decomp simp: phys_bottom_decomp)

lemma phys_surj:
  assumes "x < 1 + 4069 + 4069 * 4069"
  shows "addr_valid (phys_addr x) \<and> fsm_logical_to_physical (phys_addr x) = x"
proof (cases "x = 0")
  case True
  then show ?thesis by (simp add: phys_addr_def phys_root addr_valid_def fsm_addr_consts)
next
  case False
  define a r where "a = (x - 1) div 4070" and "r = (x - 1) mod 4070"
  have x: "x = a * 4070 + r + 1" "r < 4070" using False by (simp_all add: a_def r_def)
  then have a: "a < 4069" using assms by linarith
  show ?thesis
  proof (cases "r = 0")
    case True
    then show ?thesis using False a x
      by (simp add: phys_addr_def addr_valid_def fsm_addr_consts phys_1 flip: a_def r_def)
  next
    case r: False
    then have "a * 4069 + (r - 1) < 16556761" using a x(2) by linarith
    then show ?thesis using False r x phys_bottom_decomp [of a "r - 1"]
      by (simp add: phys_addr_def addr_valid_def fsm_addr_consts power2_eq_square flip: a_def r_def)
  qed
qed

lemma addr_valid_child:
  assumes "addr_valid addr" "level addr > 0" "slot < SlotsPerFSMPage"
  shows "addr_valid (fsm_get_child addr slot)"
  using assms(1)
proof (cases rule: addr_valid_cases)
  case (mid p)
  then show ?thesis using assms(3)
    by (simp add: fsm_get_child_def addr_valid_def fsm_addr_consts power2_eq_square)
qed (use assms in \<open>simp_all add: fsm_get_child_def addr_valid_def fsm_addr_consts\<close>)

lemma addr_valid_parent:
  assumes "addr_valid addr" "level addr < FSM_ROOT_LEVEL"
  shows "addr_valid (fst (fsm_get_parent addr))" "level (fst (fsm_get_parent addr)) = Suc (level addr)"
    "snd (fsm_get_parent addr) < SlotsPerFSMPage"
    "fsm_get_child (fst (fsm_get_parent addr)) (snd (fsm_get_parent addr)) = addr"
proof -
  show "addr_valid (fst (fsm_get_parent addr))"
    using assms(1)
    by (cases rule: addr_valid_cases)
      (use assms(2) in \<open>simp_all add: fsm_get_parent_def addr_valid_def fsm_addr_consts div_less_iff_less_mult\<close>)
qed (simp_all add: fsm_get_parent_def fsm_get_child_def SlotsPerFSMPage_eq)

lemma parent_of_child:
  "level addr > 0 \<Longrightarrow> slot < SlotsPerFSMPage \<Longrightarrow> fsm_get_parent (fsm_get_child addr slot) = (addr, slot)"
  by (simp add: fsm_get_parent_def fsm_get_child_def)

text \<open>The number of pages in the subtree of a page of the given level.\<close>

definition subtree_pages :: "nat \<Rightarrow> nat" where
  "subtree_pages l = (if l = 0 then 1 else if l = 1 then 4070 else 1 + 4069 * 4070)"

lemma phys_child:
  assumes "addr_valid addr" "level addr > 0" "slot < SlotsPerFSMPage"
  shows "fsm_logical_to_physical (fsm_get_child addr slot)
    = fsm_logical_to_physical addr + 1 + slot * subtree_pages (level addr - 1)"
  using assms(1)
proof (cases rule: addr_valid_cases)
  case root
  then show ?thesis using assms(3)
    by (simp add: fsm_get_child_def phys_root phys_1 fsm_addr_consts subtree_pages_def)
next
  case (mid p)
  then have "p * 4069 + slot < 16556761" using assms(3) unfolding SlotsPerFSMPage_eq by linarith
  then show ?thesis using assms(3) mid phys_bottom_decomp [of p slot]
    by (simp add: fsm_get_child_def phys_1 fsm_addr_consts subtree_pages_def)
next
  case (bottom q)
  then show ?thesis using assms(2) by simp
qed

lemma location_valid:
  assumes "heapblk < 2 ^ 32"
  shows "addr_valid (fst (fsm_get_location heapblk))" "level (fst (fsm_get_location heapblk)) = 0"
    "snd (fsm_get_location heapblk) < SlotsPerFSMPage"
    "fsm_get_heap_blk (fst (fsm_get_location heapblk)) (snd (fsm_get_location heapblk)) = heapblk"
  using assms
  by (simp_all add: fsm_get_location_def addr_valid_def fsm_addr_consts power2_eq_square
      div_less_iff_less_mult fsm_get_heap_blk_def)

text \<open>The map pages are laid out in depth-first order without gaps: addresses and
  block numbers correspond one to one, a child subtree follows its parent and
  its left siblings, parent and child addressing undo each other, and every
  heap block has its own slot on a bottom page, from which it is read back.\<close>

theorem fsm_addressing:
  "bij_betw fsm_logical_to_physical {addr. addr_valid addr}
     {..<1 + SlotsPerFSMPage + SlotsPerFSMPage * SlotsPerFSMPage}
   \<and> (\<forall>addr slot. addr_valid addr \<and> level addr > FSM_BOTTOM_LEVEL \<and> slot < SlotsPerFSMPage \<longrightarrow>
        addr_valid (fsm_get_child addr slot)
        \<and> fsm_get_parent (fsm_get_child addr slot) = (addr, slot)
        \<and> fsm_logical_to_physical (fsm_get_child addr slot)
          = fsm_logical_to_physical addr + 1 + slot * subtree_pages (level addr - 1))
   \<and> (\<forall>addr. addr_valid addr \<and> level addr < FSM_ROOT_LEVEL \<longrightarrow>
        (case fsm_get_parent addr of (parent, slot) \<Rightarrow>
           addr_valid parent \<and> fsm_get_child parent slot = addr))
   \<and> (\<forall>heapblk<2 ^ 32. case fsm_get_location heapblk of (addr, slot) \<Rightarrow>
        addr_valid addr \<and> slot < SlotsPerFSMPage \<and> fsm_get_heap_blk addr slot = heapblk)"
proof (intro conjI allI impI)
  show "bij_betw fsm_logical_to_physical {addr. addr_valid addr}
      {..<1 + SlotsPerFSMPage + SlotsPerFSMPage * SlotsPerFSMPage}"
    unfolding bij_betw_def SlotsPerFSMPage_eq using phys_inj phys_less phys_surj
    by (auto simp: image_iff) (metis phys_surj)
next
  fix addr slot
  assume a: "addr_valid addr \<and> level addr > FSM_BOTTOM_LEVEL \<and> slot < SlotsPerFSMPage"
  then show "addr_valid (fsm_get_child addr slot)"
    "fsm_get_parent (fsm_get_child addr slot) = (addr, slot)"
    "fsm_logical_to_physical (fsm_get_child addr slot)
     = fsm_logical_to_physical addr + 1 + slot * subtree_pages (level addr - 1)"
    using addr_valid_child parent_of_child phys_child by (simp_all add: FSM_BOTTOM_LEVEL_def)
next
  fix addr assume "addr_valid addr \<and> level addr < FSM_ROOT_LEVEL"
  then show "case fsm_get_parent addr of (parent, slot) \<Rightarrow> addr_valid parent \<and> fsm_get_child parent slot = addr"
    using addr_valid_parent [of addr] by (simp add: case_prod_beta)
next
  fix heapblk :: nat assume "heapblk < 2 ^ 32"
  then show "case fsm_get_location heapblk of (addr, slot) \<Rightarrow>
      addr_valid addr \<and> slot < SlotsPerFSMPage \<and> fsm_get_heap_blk addr slot = heapblk"
    using location_valid [of heapblk] by (simp add: case_prod_beta)
qed

theorem fsm_addressing_witness:
  "fsm_get_heap_blk (fst (fsm_get_location 123456)) (snd (fsm_get_location 123456)) = 123456"
  using fsm_addressing by (simp add: case_prod_beta)

section \<open>The map as a function from addresses to pages\<close>

text \<open>
  \<open>fsm_rel_wf\<close> is what the storage manager guarantees: no pages without a fork,
  a cached size that is never larger than the fork, and pages of the right
  size.  \<open>fsm_at\<close> reads the page at an address; pages that do not exist count
  as empty ones, which is how every operation treats them.
\<close>

definition fsm_rel_wf :: "FSMRelation \<Rightarrow> bool" where
  "fsm_rel_wf rel \<longleftrightarrow>
     (\<not> fsm_exists rel \<longrightarrow> fsm_pages rel = [])
     \<and> (smgr_fsm_nblocks rel = InvalidBlockNumber \<or> smgr_fsm_nblocks rel \<le> length (fsm_pages rel))
     \<and> length (fsm_pages rel) < InvalidBlockNumber
     \<and> (\<forall>page. Some page \<in> set (fsm_pages rel) \<longrightarrow> fsm_wf page)"

definition fsm_at :: "FSMRelation \<Rightarrow> FSMAddress \<Rightarrow> FSMPageData" where
  "fsm_at rel addr =
     (let blkno = fsm_logical_to_physical addr
      in if blkno < length (fsm_pages rel) then fsm_page rel blkno else fsm_init_page)"

lemma fsm_page_wf:
  assumes "fsm_rel_wf rel" "b < length (fsm_pages rel)"
  shows "fsm_wf (fsm_page rel b)"
proof (cases "fsm_pages rel ! b")
  case (Some page)
  then have "Some page \<in> set (fsm_pages rel)" using nth_mem [OF assms(2)] by simp
  then show ?thesis using assms(1) Some by (simp add: fsm_page_def fsm_rel_wf_def)
qed (simp add: fsm_page_def wf_zero_page)

lemma fsm_at_wf: "fsm_rel_wf rel \<Longrightarrow> fsm_wf (fsm_at rel addr)"
  by (simp add: fsm_at_def Let_def fsm_page_wf wf_zero_page)

lemma fsm_put_page_wf:
  assumes "fsm_rel_wf rel" "fsm_wf page"
  shows "fsm_rel_wf (fsm_put_page rel b page)"
proof -
  have "Some q \<in> set ((fsm_pages rel)[b := Some page]) \<Longrightarrow> fsm_wf q" for q
    using assms set_update_subset_insert [of "fsm_pages rel" b "Some page"]
    by (auto simp: fsm_rel_wf_def)
  then show ?thesis using assms by (simp add: fsm_rel_wf_def fsm_put_page_def)
qed

lemma fsm_at_put:
  assumes "addr_valid addr" "addr_valid a" "fsm_logical_to_physical addr < length (fsm_pages rel)"
  shows "fsm_at (fsm_put_page rel (fsm_logical_to_physical addr) page) a
    = (if a = addr then page else fsm_at rel a)"
proof (cases "a = addr")
  case False
  then have "fsm_logical_to_physical a \<noteq> fsm_logical_to_physical addr"
    using inj_onD [OF phys_inj] assms by blast
  then show ?thesis using False by (simp add: fsm_at_def fsm_put_page_def fsm_page_def Let_def)
qed (use assms in \<open>simp add: fsm_at_def fsm_put_page_def fsm_page_def Let_def\<close>)

lemma length_put [simp]: "length (fsm_pages (fsm_put_page rel b page)) = length (fsm_pages rel)"
  by (simp add: fsm_put_page_def)

lemma fsm_extend_loop_eq:
  "fsm_extend_loop pages n = pages @ replicate (n - length pages) (Some fsm_init_page)"
proof (induction pages n rule: fsm_extend_loop.induct)
  case (1 pages n)
  show ?case
  proof (cases "length pages < n")
    case True
    then have "n - length pages = Suc (n - Suc (length pages))" by simp
    then show ?thesis using True "1.IH" by (subst fsm_extend_loop.simps) simp
  next
    case False
    then show ?thesis by (subst fsm_extend_loop.simps) simp
  qed
qed

lemma fsm_at_extend: "fsm_at (fsm_extend rel n) a = fsm_at rel a"
  by (simp add: fsm_at_def fsm_extend_def Let_def fsm_extend_loop_eq fsm_page_def nth_append
      split: option.splits)

lemma fsm_extend_wf:
  assumes "fsm_rel_wf rel" "n < InvalidBlockNumber" "fsm_exists rel \<or> smgr_fsm_nblocks rel = 0"
  shows "fsm_rel_wf (fsm_extend rel n)"
  using assms
  by (auto simp: fsm_rel_wf_def fsm_extend_def Let_def fsm_extend_loop_eq set_replicate_conv_if wf_zero_page)

text \<open>What reading a page does: the map does not change as a function.\<close>

lemma fsm_readbuf_spec:
  assumes wf: "fsm_rel_wf rel" and a: "addr_valid addr" and r: "fsm_readbuf rel addr ext = (buf, rel1)"
  shows "fsm_rel_wf rel1 \<and> (\<forall>a. addr_valid a \<longrightarrow> fsm_at rel1 a = fsm_at rel a)
    \<and> (\<not> ext \<longrightarrow> length (fsm_pages rel1) = length (fsm_pages rel))
    \<and> (case buf of None \<Rightarrow> \<not> ext \<and> length (fsm_pages rel) \<le> fsm_logical_to_physical addr
       | Some b \<Rightarrow> b = fsm_logical_to_physical addr \<and> b < length (fsm_pages rel1)
                   \<and> fsm_page rel1 b = fsm_at rel addr)"
proof -
  let ?b = "fsm_logical_to_physical addr"
  define rel0 where "rel0 = (if smgr_fsm_nblocks rel = InvalidBlockNumber \<or> ?b \<ge> smgr_fsm_nblocks rel
      then rel\<lparr>smgr_fsm_nblocks := (if fsm_exists rel then length (fsm_pages rel) else 0)\<rparr> else rel)"
  have bl: "?b + 1 < InvalidBlockNumber" using phys_less [OF a] by (simp add: InvalidBlockNumber_def)
  have pages0: "fsm_pages rel0 = fsm_pages rel" "fsm_exists rel0 = fsm_exists rel" by (simp_all add: rel0_def)
  have wf0: "fsm_rel_wf rel0" using wf by (auto simp: fsm_rel_wf_def rel0_def)
  have ge0: "?b \<ge> smgr_fsm_nblocks rel0 \<longleftrightarrow> length (fsm_pages rel) \<le> ?b"
    using wf by (auto simp: rel0_def fsm_rel_wf_def)
  have at0: "fsm_at rel0 x = fsm_at rel x" for x by (simp add: fsm_at_def fsm_page_def pages0 Let_def)
  have r': "(buf, rel1) = (if ?b \<ge> smgr_fsm_nblocks rel0 \<and> \<not> ext then (None, rel0)
         else let rel2 = (if ?b \<ge> smgr_fsm_nblocks rel0 then fsm_extend rel0 (?b + 1) else rel0)
              in (Some ?b, if fsm_pages rel2 ! ?b = None then fsm_put_page rel2 ?b fsm_init_page else rel2))"
    using r unfolding fsm_readbuf_def Let_def rel0_def by simp
  show ?thesis
  proof (cases "?b \<ge> smgr_fsm_nblocks rel0 \<and> \<not> ext")
    case True
    then show ?thesis using r' wf0 ge0 at0 pages0 by simp
  next
    case False
    define rel2 where "rel2 = (if ?b \<ge> smgr_fsm_nblocks rel0 then fsm_extend rel0 (?b + 1) else rel0)"
    have buf: "buf = Some ?b"
      and rel1: "rel1 = (if fsm_pages rel2 ! ?b = None then fsm_put_page rel2 ?b fsm_init_page else rel2)"
      using r' False by (simp_all add: rel2_def Let_def)
    have "?b \<ge> smgr_fsm_nblocks rel0 \<Longrightarrow> fsm_exists rel0 \<or> smgr_fsm_nblocks rel0 = 0"
      using wf by (auto simp: rel0_def fsm_rel_wf_def InvalidBlockNumber_def)
    then have wf2: "fsm_rel_wf rel2" using fsm_extend_wf [OF wf0 bl] wf0 by (auto simp: rel2_def)
    have at2: "fsm_at rel2 x = fsm_at rel x" for x by (simp add: rel2_def at0 fsm_at_extend)
    have len2: "?b < length (fsm_pages rel2)" "\<not> ext \<longrightarrow> length (fsm_pages rel2) = length (fsm_pages rel)"
      using ge0 False by (auto simp: rel2_def fsm_extend_def Let_def fsm_extend_loop_eq pages0)
    have at1: "fsm_at rel1 x = fsm_at rel x" if "addr_valid x" for x
    proof (cases "fsm_pages rel2 ! ?b = None")
      case True
      then have "fsm_at rel2 addr = fsm_init_page" using len2 by (simp add: fsm_at_def fsm_page_def Let_def)
      then show ?thesis using fsm_at_put [OF a that len2(1), of fsm_init_page] True at2 rel1 by simp
    next
      case False
      then have "rel1 = rel2" unfolding rel1 by (simp only: if_False)
      then show ?thesis by (simp add: at2)
    qed
    have "fsm_rel_wf rel1" using wf2 fsm_put_page_wf [OF wf2 wf_zero_page] by (simp add: rel1)
    moreover have len1: "length (fsm_pages rel1) = length (fsm_pages rel2)" by (simp add: rel1)
    moreover have "fsm_page rel1 ?b = fsm_at rel addr"
      using at1 [OF a] len1 len2(1) by (simp add: fsm_at_def Let_def)
    ultimately show ?thesis using at1 len2 by (simp add: buf)
  qed
qed

lemma fsm_at_missing: "length (fsm_pages rel) \<le> fsm_logical_to_physical addr \<Longrightarrow> fsm_at rel addr = fsm_init_page"
  by (simp add: fsm_at_def Let_def)

subsection \<open>Setting a slot of the map\<close>

lemma Slots_Leaf: "SlotsPerFSMPage = LeafNodesPerPage"
  by (simp add: SlotsPerFSMPage_def)

lemma fsm_set_and_search_set:
  assumes wf: "fsm_rel_wf rel" and a: "addr_valid addr" and s: "slot < SlotsPerFSMPage"
  shows "\<exists>rel'. fsm_set_and_search rel addr slot v 0 = Some (-1, rel') \<and> fsm_rel_wf rel'
    \<and> (\<forall>a. addr_valid a \<longrightarrow> fsm_at rel' a = (if a = addr then snd (fsm_set_avail (fsm_at rel addr) slot v)
                                                  else fsm_at rel a))"
proof -
  obtain buf rel1 where r: "fsm_readbuf rel addr True = (buf, rel1)" by fastforce
  note sp = fsm_readbuf_spec [OF wf a r]
  then have b: "buf = Some (fsm_logical_to_physical addr)" "fsm_logical_to_physical addr < length (fsm_pages rel1)"
    "fsm_page rel1 (fsm_logical_to_physical addr) = fsm_at rel addr"
    by (auto split: option.splits)
  let ?p = "snd (fsm_set_avail (fsm_at rel addr) slot v)"
  have "fsm_wf ?p"
    using fsm_set_avail_any [OF fsm_at_wf [OF wf] s [unfolded Slots_Leaf] prod.collapse [symmetric]] by blast
  then have "fsm_rel_wf (fsm_put_page rel1 (fsm_logical_to_physical addr) ?p)"
    using fsm_put_page_wf sp by blast
  then show ?thesis
    using sp b(3) fsm_at_put [OF a _ b(2)] by (simp add: fsm_set_and_search_def r b(1))
qed

subsection \<open>Searching the map\<close>

lemma fsm_search_page_spec:
  assumes wf: "fsm_rel_wf rel" and a: "addr_valid addr"
  obtains slot m rel1 where "fsm_search_page rel addr min_cat = Some (slot, m, rel1)" "fsm_rel_wf rel1"
    "\<forall>a. addr_valid a \<and> a \<noteq> addr \<longrightarrow> fsm_at rel1 a = fsm_at rel a"
    "\<forall>s<SlotsPerFSMPage. fsm_get_avail (fsm_at rel1 addr) s = fsm_get_avail (fsm_at rel addr) s"
    "slot = -1 \<or> (\<exists>s<SlotsPerFSMPage. slot = int s \<and> min_cat \<le> fsm_get_avail (fsm_at rel addr) s)"
proof -
  obtain buf rel1 where r: "fsm_readbuf rel addr False = (buf, rel1)" by fastforce
  note sp = fsm_readbuf_spec [OF wf a r]
  show thesis
  proof (cases buf)
    case None
    then show thesis using sp r a
      by (intro that [of "-1" 0 rel1]) (simp_all add: fsm_search_page_def)
  next
    case (Some b)
    then have b: "b = fsm_logical_to_physical addr" "b < length (fsm_pages rel1)" "fsm_page rel1 b = fsm_at rel addr"
      using sp by auto
    obtain k page where k: "fsm_search_avail (fsm_at rel addr) min_cat (level addr = FSM_BOTTOM_LEVEL) = Some (k, page)"
      "fsm_wf page" "\<forall>s<LeafNodesPerPage. fsm_get_avail page s = fsm_get_avail (fsm_at rel addr) s"
      "k = -1 \<or> (\<exists>s<LeafNodesPerPage. k = int s \<and> min_cat \<le> fsm_get_avail (fsm_at rel addr) s)"
      using search_avail_any [OF fsm_at_wf [OF wf]] by blast
    let ?rel2 = "fsm_put_page rel1 b page"
    have at: "\<And>a. addr_valid a \<Longrightarrow> fsm_at ?rel2 a = (if a = addr then page else fsm_at rel a)"
      using fsm_at_put [OF a _ b(2) [unfolded b(1)]] sp b(1) by simp
    show thesis
      by (rule that [of k "if k = -1 then fsm_get_max_avail page else 0" ?rel2])
        (use r Some b(3) k at a fsm_put_page_wf sp in \<open>auto simp: fsm_search_page_def Slots_Leaf\<close>)
  qed
qed

text \<open>The slots of all bottom pages, one for every heap block.\<close>

definition same_bottom :: "FSMRelation \<Rightarrow> FSMRelation \<Rightarrow> bool" where
  "same_bottom rel rel' \<longleftrightarrow>
     (\<forall>a s. addr_valid a \<and> level a = 0 \<and> s < SlotsPerFSMPage \<longrightarrow>
        fsm_get_avail (fsm_at rel' a) s = fsm_get_avail (fsm_at rel a) s)"

lemma same_bottom_refl: "same_bottom rel rel"
  by (simp add: same_bottom_def)

lemma same_bottom_trans: "same_bottom r1 r2 \<Longrightarrow> same_bottom r2 r3 \<Longrightarrow> same_bottom r1 r3"
  by (simp add: same_bottom_def)

lemma fsm_search_loop_sound:
  assumes "fsm_rel_wf rel" "addr_valid addr"
  shows "\<exists>blk rel'. fsm_search_loop rel min_cat restarts addr = Some (blk, rel') \<and> fsm_rel_wf rel'
    \<and> same_bottom rel rel'
    \<and> (blk = InvalidBlockNumber
       \<or> (\<exists>a s. addr_valid a \<and> level a = 0 \<and> s < SlotsPerFSMPage \<and> blk = fsm_get_heap_blk a s
            \<and> min_cat \<le> fsm_get_avail (fsm_at rel a) s))"
  using assms
proof (induction rel min_cat restarts addr rule: fsm_search_loop.induct)
  case (1 rel min_cat restarts addr)
  obtain slot m rel1 where sp: "fsm_search_page rel addr min_cat = Some (slot, m, rel1)" "fsm_rel_wf rel1"
    "\<forall>a. addr_valid a \<and> a \<noteq> addr \<longrightarrow> fsm_at rel1 a = fsm_at rel a"
    "\<forall>s<SlotsPerFSMPage. fsm_get_avail (fsm_at rel1 addr) s = fsm_get_avail (fsm_at rel addr) s"
    "slot = -1 \<or> (\<exists>s<SlotsPerFSMPage. slot = int s \<and> min_cat \<le> fsm_get_avail (fsm_at rel addr) s)"
    using fsm_search_page_spec [OF "1.prems"] .
  have sb1: "same_bottom rel rel1" using sp(3,4) unfolding same_bottom_def by metis
  have mono: "\<exists>blk rel''. X = Some (blk, rel'') \<and> fsm_rel_wf rel'' \<and> same_bottom rel rel''
      \<and> (blk = InvalidBlockNumber \<or> (\<exists>a s. addr_valid a \<and> level a = 0 \<and> s < SlotsPerFSMPage
           \<and> blk = fsm_get_heap_blk a s \<and> min_cat \<le> fsm_get_avail (fsm_at rel a) s))"
    if "same_bottom rel rel2" "\<exists>blk rel''. X = Some (blk, rel'') \<and> fsm_rel_wf rel'' \<and> same_bottom rel2 rel''
      \<and> (blk = InvalidBlockNumber \<or> (\<exists>a s. addr_valid a \<and> level a = 0 \<and> s < SlotsPerFSMPage
           \<and> blk = fsm_get_heap_blk a s \<and> min_cat \<le> fsm_get_avail (fsm_at rel2 a) s))" for X rel2
    using that unfolding same_bottom_def by metis
  note step = fsm_search_loop.simps [of rel min_cat restarts addr] 
  consider (found) s where "s < SlotsPerFSMPage" "slot = int s" "min_cat \<le> fsm_get_avail (fsm_at rel addr) s" "level addr = 0"
    | (down) s where "s < SlotsPerFSMPage" "slot = int s" "level addr > 0"
    | (none) "slot = -1" "level addr = FSM_ROOT_LEVEL" | (up) "slot = -1" "level addr < FSM_ROOT_LEVEL"
    using sp(5) "1.prems"(2) by (fastforce simp: addr_valid_def le_less)
  then show ?case
  proof cases
    case found
    have "fsm_search_loop rel min_cat restarts addr = Some (fsm_get_heap_blk addr s, rel1)"
      unfolding step using found sp(1) by (simp add: FSM_BOTTOM_LEVEL_def)
    then show ?thesis using found "1.prems"(2) sp(2) sb1 by blast
  next
    case down
    have eq: "fsm_search_loop rel min_cat restarts addr = fsm_search_loop rel1 min_cat restarts (fsm_get_child addr s)"
      unfolding step using down sp(1) by (simp add: FSM_BOTTOM_LEVEL_def)
    have "addr_valid (fsm_get_child addr s)" using addr_valid_child "1.prems"(2) down by simp
    then have "addr_valid (fsm_get_child addr (nat slot))" using down by simp
    note ih = "1.IH"(1) [OF sp(1) refl refl _ _ sp(2) this]
    show ?thesis unfolding eq
      by (rule mono [OF sb1]) (use ih down in \<open>simp add: FSM_BOTTOM_LEVEL_def\<close>)
  next
    case none
    then show ?thesis unfolding step using sp sb1 by (simp add: FSM_BOTTOM_LEVEL_def)
  next
    case up
    note par = addr_valid_parent [OF "1.prems"(2) up(2)]
    obtain rel2 where r2: "fsm_set_and_search rel1 (fst (fsm_get_parent addr)) (snd (fsm_get_parent addr)) m 0 = Some (-1, rel2)"
      "fsm_rel_wf rel2" "\<forall>a. addr_valid a \<longrightarrow> fsm_at rel2 a = (if a = fst (fsm_get_parent addr)
          then snd (fsm_set_avail (fsm_at rel1 (fst (fsm_get_parent addr))) (snd (fsm_get_parent addr)) m) else fsm_at rel1 a)"
      using fsm_set_and_search_set [OF sp(2) par(1,3)] by blast
    have "\<forall>a. addr_valid a \<and> level a = 0 \<longrightarrow> fsm_at rel2 a = fsm_at rel1 a" using r2(3) par(2) by auto
    then have sb2: "same_bottom rel rel2" using sb1 by (simp add: same_bottom_def)
    have root: "addr_valid FSM_ROOT_ADDRESS" by (simp add: addr_valid_def FSM_ROOT_ADDRESS_def)
    show ?thesis
    proof (cases "restarts > 10000")
      case True
      then have "fsm_search_loop rel min_cat restarts addr = Some (InvalidBlockNumber, rel2)"
        unfolding step using up sp(1) r2(1) by simp
      then show ?thesis using r2(2) sb2 by blast
    next
      case False
      have eq: "fsm_search_loop rel min_cat restarts addr = fsm_search_loop rel2 min_cat (restarts + 1) FSM_ROOT_ADDRESS"
        unfolding step using up sp(1) r2(1) False by simp
      note ih = "1.IH"(2) [OF sp(1) refl refl _ _ r2(1) refl False r2(2) root]
      show ?thesis unfolding eq by (rule mono [OF sb2]) (use ih up in simp)
    qed
  qed
qed

section \<open>Properties of the map\<close>

text \<open>
  The abstract view of a map: the category recorded for every heap block.
  \<open>fsm_no_ghosts\<close> says that nothing is recorded for block numbers a heap cannot
  have; \<open>fsm_rel_heap\<close> that the tree inside every page is consistent.
\<close>

definition fsm_recorded :: "FSMRelation \<Rightarrow> BlockNumber \<Rightarrow> uint8" where
  "fsm_recorded rel heapblk =
     (case fsm_get_location heapblk of (addr, slot) \<Rightarrow> fsm_get_avail (fsm_at rel addr) slot)"

definition fsm_no_ghosts :: "FSMRelation \<Rightarrow> bool" where
  "fsm_no_ghosts rel \<longleftrightarrow>
     (\<forall>a s. addr_valid a \<and> level a = 0 \<and> s < SlotsPerFSMPage
        \<and> InvalidBlockNumber \<le> logpageno a * SlotsPerFSMPage + s \<longrightarrow> fsm_get_avail (fsm_at rel a) s = 0)"

definition fsm_rel_heap :: "FSMRelation \<Rightarrow> bool" where
  "fsm_rel_heap rel \<longleftrightarrow> (\<forall>a. addr_valid a \<longrightarrow> fsm_heap (fsm_at rel a))"

lemma same_bottom_recorded: "same_bottom rel rel' \<Longrightarrow> b < 2 ^ 32 \<Longrightarrow> fsm_recorded rel' b = fsm_recorded rel b"
  using location_valid [of b] by (simp add: same_bottom_def fsm_recorded_def case_prod_beta)

lemma recorded_of_slot:
  assumes "addr_valid a" "level a = 0" "s < SlotsPerFSMPage" "fsm_no_ghosts rel" "fsm_get_avail (fsm_at rel a) s \<noteq> 0"
  shows "fsm_get_heap_blk a s < InvalidBlockNumber"
    "fsm_recorded rel (fsm_get_heap_blk a s) = fsm_get_avail (fsm_at rel a) s"
proof -
  obtain q where a: "a = \<lparr>level = 0, logpageno = q\<rparr>" using assms(2) by (cases a) auto
  have lt: "q * SlotsPerFSMPage + s < InvalidBlockNumber"
  proof (rule ccontr)
    assume "\<not> ?thesis"
    then have "fsm_get_avail (fsm_at rel a) s = 0"
      using assms(1-4) by (auto simp: fsm_no_ghosts_def a)
    then show False using assms(5) by simp
  qed
  then have blk: "fsm_get_heap_blk a s = q * SlotsPerFSMPage + s"
    by (simp add: fsm_get_heap_blk_def a InvalidBlockNumber_def)
  show "fsm_get_heap_blk a s < InvalidBlockNumber" using lt blk by simp
  show "fsm_recorded rel (fsm_get_heap_blk a s) = fsm_get_avail (fsm_at rel a) s"
    unfolding blk using assms(3) by (simp add: fsm_recorded_def fsm_get_location_def a FSM_BOTTOM_LEVEL_def)
qed

lemma cat_enough:
  assumes "fsm_space_needed_to_cat needed = Inr c" "c \<le> cat"
  shows "needed \<le> fsm_space_cat_to_avail cat"
  using assms by (auto simp: unat_needed_to_cat unat_cat_to_avail word_le_nat_alt split: if_splits)

lemma needed_to_cat_ex: "needed \<le> MaxHeapTupleSize \<Longrightarrow> \<exists>c. fsm_space_needed_to_cat needed = Inr c"
  by (auto simp: fsm_space_needed_to_cat_def MaxFSMRequestSize_def Let_def)

lemma needed_to_cat_nonzero: "fsm_space_needed_to_cat needed = Inr c \<Longrightarrow> c \<noteq> 0"
  by (auto simp: unat_needed_to_cat split: if_splits)

lemma fsm_search_sound:
  assumes "fsm_rel_wf rel" "fsm_no_ghosts rel" "c \<noteq> 0"
  shows "\<exists>blk rel'. fsm_search rel c = Some (blk, rel') \<and> fsm_rel_wf rel' \<and> same_bottom rel rel'
    \<and> (blk \<noteq> InvalidBlockNumber \<longrightarrow> blk < InvalidBlockNumber \<and> c \<le> fsm_recorded rel blk)"
proof -
  have "addr_valid FSM_ROOT_ADDRESS" by (simp add: addr_valid_def FSM_ROOT_ADDRESS_def)
  then obtain blk rel' where r: "fsm_search rel c = Some (blk, rel')" "fsm_rel_wf rel'" "same_bottom rel rel'"
    "blk = InvalidBlockNumber \<or> (\<exists>a s. addr_valid a \<and> level a = 0 \<and> s < SlotsPerFSMPage \<and> blk = fsm_get_heap_blk a s
            \<and> c \<le> fsm_get_avail (fsm_at rel a) s)"
    using fsm_search_loop_sound [OF assms(1)] unfolding fsm_search_def by blast
  have "blk < InvalidBlockNumber \<and> c \<le> fsm_recorded rel blk" if ne: "blk \<noteq> InvalidBlockNumber"
  proof -
    obtain a s where as: "addr_valid a" "level a = 0" "s < SlotsPerFSMPage" "blk = fsm_get_heap_blk a s"
      "c \<le> fsm_get_avail (fsm_at rel a) s" using r(4) ne by blast
    have "fsm_get_avail (fsm_at rel a) s \<noteq> 0" using as(5) assms(3) by auto
    from recorded_of_slot [OF as(1-3) assms(2) this] as show ?thesis by simp
  qed
  then show ?thesis using r by blast
qed

text \<open>C37. A search for free space returns, whatever the upper pages of the map say (they
  may be stale or torn): a block number it returns is one whose recorded free
  space covers the request, and searching does not change what is recorded for
  any heap block.\<close>

theorem GetPageWithFreeSpace_sound:
  assumes "fsm_rel_wf rel" "fsm_no_ghosts rel" "spaceNeeded \<le> MaxHeapTupleSize"
  shows "\<exists>blk rel'. GetPageWithFreeSpace rel spaceNeeded = Inr (Some (blk, rel'))
    \<and> fsm_rel_wf rel' \<and> (\<forall>b<2 ^ 32. fsm_recorded rel' b = fsm_recorded rel b)
    \<and> (blk \<noteq> InvalidBlockNumber \<longrightarrow>
         blk < InvalidBlockNumber \<and> spaceNeeded \<le> fsm_space_cat_to_avail (fsm_recorded rel blk))"
proof -
  obtain c where c: "fsm_space_needed_to_cat spaceNeeded = Inr c"
    using needed_to_cat_ex [OF assms(3)] by blast
  obtain blk rel' where r: "fsm_search rel c = Some (blk, rel')" "fsm_rel_wf rel'" "same_bottom rel rel'"
    "blk \<noteq> InvalidBlockNumber \<longrightarrow> blk < InvalidBlockNumber \<and> c \<le> fsm_recorded rel blk"
    using fsm_search_sound [OF assms(1,2) needed_to_cat_nonzero [OF c]] by blast
  show ?thesis
    using r cat_enough [OF c] same_bottom_recorded [OF r(3)] c by (simp add: GetPageWithFreeSpace_def)
qed

definition fsm_empty_rel :: FSMRelation where
  "fsm_empty_rel = \<lparr>smgr_fsm_nblocks = InvalidBlockNumber, fsm_exists = False, fsm_pages = []\<rparr>"

lemma fsm_empty_rel_ok: "fsm_rel_wf fsm_empty_rel" "fsm_no_ghosts fsm_empty_rel" "fsm_rel_heap fsm_empty_rel"
  by (simp_all add: fsm_rel_wf_def fsm_no_ghosts_def fsm_rel_heap_def fsm_empty_rel_def fsm_at_def
      InvalidBlockNumber_def heap_zero_page Slots_Leaf)

theorem GetPageWithFreeSpace_sound_witness:
  "\<exists>blk rel'. GetPageWithFreeSpace fsm_empty_rel 100 = Inr (Some (blk, rel')) \<and> fsm_rel_wf rel'"
  using GetPageWithFreeSpace_sound [OF fsm_empty_rel_ok(1,2), of 100] MaxFSMRequestSize_eq
  by (auto simp: MaxFSMRequestSize_def)

subsection \<open>Recording\<close>

lemma fsm_set_and_search_spec:
  assumes wf: "fsm_rel_wf rel" and a: "addr_valid addr" and s: "slot < SlotsPerFSMPage"
  shows "\<exists>k rel'. fsm_set_and_search rel addr slot v minv = Some (k, rel') \<and> fsm_rel_wf rel'
    \<and> (\<forall>a. addr_valid a \<and> a \<noteq> addr \<longrightarrow> fsm_at rel' a = fsm_at rel a)
    \<and> (\<forall>t<SlotsPerFSMPage. fsm_get_avail (fsm_at rel' addr) t
         = (if t = slot then v else fsm_get_avail (fsm_at rel addr) t))
    \<and> (k = -1 \<or> (\<exists>t<SlotsPerFSMPage. k = int t \<and> minv \<le> fsm_get_avail (fsm_at rel' addr) t))"
proof -
  obtain buf rel1 where r: "fsm_readbuf rel addr True = (buf, rel1)" by fastforce
  note sp = fsm_readbuf_spec [OF wf a r]
  define b where "b = fsm_logical_to_physical addr"
  have b: "buf = Some b" "b < length (fsm_pages rel1)" "fsm_page rel1 b = fsm_at rel addr"
    using sp by (auto simp: b_def split: option.splits)
  let ?p = "snd (fsm_set_avail (fsm_at rel addr) slot v)"
  have p: "fsm_wf ?p" "\<forall>t<LeafNodesPerPage. fsm_get_avail ?p t = (if t = slot then v else fsm_get_avail (fsm_at rel addr) t)"
    using fsm_set_avail_any [OF fsm_at_wf [OF wf] s [unfolded Slots_Leaf] prod.collapse [symmetric]] by blast+
  have put: "fsm_rel_wf (fsm_put_page rel1 b q) \<and> (\<forall>a. addr_valid a \<longrightarrow> fsm_at (fsm_put_page rel1 b q) a
       = (if a = addr then q else fsm_at rel a))" if "fsm_wf q" for q
    using fsm_put_page_wf [OF _ that] sp fsm_at_put [OF a _ b(2) [unfolded b_def]] unfolding b_def by simp
  show ?thesis
  proof (cases "minv = 0")
    case True
    then show ?thesis using put [OF p(1)] p(2) a r b by (simp add: fsm_set_and_search_def Slots_Leaf)
  next
    case False
    obtain k q where k: "fsm_search_avail ?p minv (level addr = FSM_BOTTOM_LEVEL) = Some (k, q)" "fsm_wf q"
      "\<forall>s<LeafNodesPerPage. fsm_get_avail q s = fsm_get_avail ?p s"
      "k = -1 \<or> (\<exists>s<LeafNodesPerPage. k = int s \<and> minv \<le> fsm_get_avail ?p s)"
      using search_avail_any [OF p(1)] by blast
    then have "fsm_set_and_search rel addr slot v minv = Some (k, fsm_put_page rel1 b q)"
      using False r b by (simp add: fsm_set_and_search_def)
    then show ?thesis using put [OF k(2)] k(3,4) p(2) a by (auto simp: Slots_Leaf)
  qed
qed

lemma location_inj:
  assumes "fst (fsm_get_location b) = fst (fsm_get_location b')" "snd (fsm_get_location b) = snd (fsm_get_location b')"
  shows "b = b'"
  using assms by (simp add: fsm_get_location_def) (metis div_mult_mod_eq)

lemma recorded_update:
  assumes "blk < 2 ^ 32"
    and "\<forall>a. addr_valid a \<and> a \<noteq> fst (fsm_get_location blk) \<longrightarrow> fsm_at rel' a = fsm_at rel a"
    and "\<forall>t<SlotsPerFSMPage. fsm_get_avail (fsm_at rel' (fst (fsm_get_location blk))) t
         = (if t = snd (fsm_get_location blk) then v else fsm_get_avail (fsm_at rel (fst (fsm_get_location blk))) t)"
  shows "\<forall>b<2 ^ 32. fsm_recorded rel' b = (if b = blk then v else fsm_recorded rel b)"
proof (intro allI impI)
  fix b :: nat assume b: "b < 2 ^ 32"
  show "fsm_recorded rel' b = (if b = blk then v else fsm_recorded rel b)"
  proof (cases "fst (fsm_get_location b) = fst (fsm_get_location blk)")
    case True
    then have "b = blk \<longleftrightarrow> snd (fsm_get_location b) = snd (fsm_get_location blk)" using location_inj by blast
    then show ?thesis using assms(3) True location_valid(3) [OF b] by (simp add: fsm_recorded_def case_prod_beta)
  next
    case False
    then show ?thesis using assms(2) location_valid(1) [OF b] by (auto simp: fsm_recorded_def case_prod_beta)
  qed
qed

lemma no_ghosts_update:
  assumes "fsm_no_ghosts rel" "blk < InvalidBlockNumber"
    and "\<forall>a. addr_valid a \<and> a \<noteq> fst (fsm_get_location blk) \<longrightarrow> fsm_at rel' a = fsm_at rel a"
    and "\<forall>t<SlotsPerFSMPage. fsm_get_avail (fsm_at rel' (fst (fsm_get_location blk))) t
         = (if t = snd (fsm_get_location blk) then v else fsm_get_avail (fsm_at rel (fst (fsm_get_location blk))) t)"
  shows "fsm_no_ghosts rel'"
  unfolding fsm_no_ghosts_def
proof (intro allI impI, elim conjE)
  fix a s assume as: "addr_valid a" "level a = 0" "s < SlotsPerFSMPage"
    "InvalidBlockNumber \<le> logpageno a * SlotsPerFSMPage + s"
  have "logpageno (fst (fsm_get_location blk)) * SlotsPerFSMPage + snd (fsm_get_location blk) = blk"
    by (simp add: fsm_get_location_def)
  then have "a = fst (fsm_get_location blk) \<Longrightarrow> s \<noteq> snd (fsm_get_location blk)" using as(4) assms(2) by auto
  then show "fsm_get_avail (fsm_at rel' a) s = 0"
    using assms(1,3,4) as unfolding fsm_no_ghosts_def by metis
qed

lemma RecordPage_spec:
  assumes "fsm_rel_wf rel" "heapBlk < 2 ^ 32"
  obtains rel' where "RecordPageWithFreeSpace rel heapBlk spaceAvail = Some rel'" "fsm_rel_wf rel'"
    "\<forall>b<2 ^ 32. fsm_recorded rel' b = (if b = heapBlk then fsm_space_avail_to_cat spaceAvail else fsm_recorded rel b)"
proof -
  note loc = location_valid [OF assms(2)]
  obtain k rel' where k: "fsm_set_and_search rel (fst (fsm_get_location heapBlk)) (snd (fsm_get_location heapBlk))
      (fsm_space_avail_to_cat spaceAvail) 0 = Some (k, rel')" "fsm_rel_wf rel'"
    "\<forall>a. addr_valid a \<and> a \<noteq> fst (fsm_get_location heapBlk) \<longrightarrow> fsm_at rel' a = fsm_at rel a"
    "\<forall>t<SlotsPerFSMPage. fsm_get_avail (fsm_at rel' (fst (fsm_get_location heapBlk))) t
         = (if t = snd (fsm_get_location heapBlk) then fsm_space_avail_to_cat spaceAvail
            else fsm_get_avail (fsm_at rel (fst (fsm_get_location heapBlk))) t)"
    using fsm_set_and_search_spec [OF assms(1) loc(1,3)] by blast
  show thesis
    by (rule that [OF _ k(2) recorded_update [OF assms(2) k(3,4)]])
      (simp add: RecordPageWithFreeSpace_def case_prod_beta k(1))
qed

lemma XLogRecordPage_spec:
  fixes spaceAvail :: nat
  assumes wf: "fsm_rel_wf rel" and blk: "heapBlk < 2 ^ 32"
  defines "rel' \<equiv> XLogRecordPageWithFreeSpace rel heapBlk spaceAvail"
  shows "fsm_rel_wf rel'"
    "\<forall>b<2 ^ 32. fsm_recorded rel' b = (if b = heapBlk then fsm_space_avail_to_cat spaceAvail else fsm_recorded rel b)"
proof -
  note loc = location_valid [OF blk]
  define addr slot v where "addr = fst (fsm_get_location heapBlk)" and "slot = snd (fsm_get_location heapBlk)"
    and "v = fsm_space_avail_to_cat spaceAvail"
  define n where "n = fsm_logical_to_physical addr"
  define pages where "pages = fsm_pages rel @ replicate (n + 1 - length (fsm_pages rel)) None"
  define rel1 where "rel1 = rel\<lparr>fsm_exists := True, fsm_pages := pages\<rparr>"
  define rel2 where "rel2 = (if pages ! n = None then fsm_put_page rel1 n fsm_init_page else rel1)"
  have addr: "addr_valid addr" "slot < SlotsPerFSMPage" using loc by (simp_all add: addr_def slot_def)
  have nl: "n < length pages" by (simp add: pages_def)
  have rel1p: "fsm_pages rel1 = pages" by (simp add: rel1_def)
  have "length pages < InvalidBlockNumber"
    using wf phys_less [OF addr(1)] by (auto simp: pages_def fsm_rel_wf_def n_def InvalidBlockNumber_def)
  moreover have "length (fsm_pages rel) \<le> length pages" by (simp add: pages_def)
  moreover have "Some p \<in> set pages \<Longrightarrow> fsm_wf p" for p
    using wf by (auto simp: pages_def fsm_rel_wf_def split: if_splits)
  ultimately have wf1: "fsm_rel_wf rel1" using wf by (auto simp: rel1_def fsm_rel_wf_def)
  have at1: "fsm_at rel1 a = fsm_at rel a" for a
    by (simp add: fsm_at_def rel1_def fsm_page_def pages_def nth_append Let_def)
  have wf2: "fsm_rel_wf rel2" using wf1 fsm_put_page_wf [OF wf1 wf_zero_page] by (simp add: rel2_def)
  have at2: "fsm_at rel2 a = fsm_at rel a" if "addr_valid a" for a
  proof (cases "pages ! n = None")
    case True
    then have "fsm_at rel1 addr = fsm_init_page"
      using nl by (simp add: fsm_at_def fsm_page_def rel1p Let_def flip: n_def)
    then show ?thesis
      using fsm_at_put [OF addr(1) that, of rel1 fsm_init_page] True at1 nl by (simp add: rel2_def rel1p flip: n_def)
  next
    case False
    then have "rel2 = rel1" unfolding rel2_def by (simp only: if_False)
    then show ?thesis using at1 by simp
  qed
  have nl2: "n < length (fsm_pages rel2)" using nl by (simp add: rel2_def rel1p)
  then have "fsm_page rel2 n = fsm_at rel2 addr" by (simp add: fsm_at_def n_def)
  with at2 [OF addr(1)] nl2 have pg: "fsm_page rel2 n = fsm_at rel addr" "n < length (fsm_pages rel2)"
    by simp_all
  let ?p = "snd (fsm_set_avail (fsm_at rel addr) slot v)"
  have p: "fsm_wf ?p" "\<forall>t<LeafNodesPerPage. fsm_get_avail ?p t = (if t = slot then v else fsm_get_avail (fsm_at rel addr) t)"
    using fsm_set_avail_any [OF fsm_at_wf [OF wf] addr(2) [unfolded Slots_Leaf] prod.collapse [symmetric]] by blast+
  have rel': "rel' = fsm_put_page rel2 n ?p"
    unfolding rel'_def XLogRecordPageWithFreeSpace_def Let_def case_prod_beta
    by (simp only: addr_def [symmetric] slot_def [symmetric] v_def [symmetric] n_def [symmetric]
        pages_def [symmetric] rel1_def [symmetric] rel2_def [symmetric] pg(1))
  show "fsm_rel_wf rel'" unfolding rel' by (rule fsm_put_page_wf [OF wf2 p(1)])
  have at': "addr_valid a \<Longrightarrow> fsm_at rel' a = (if a = addr then ?p else fsm_at rel a)" for a
    unfolding rel' n_def using fsm_at_put [OF addr(1) _ pg(2) [unfolded n_def]] at2 by simp
  show "\<forall>b<2 ^ 32. fsm_recorded rel' b = (if b = heapBlk then fsm_space_avail_to_cat spaceAvail else fsm_recorded rel b)"
    by (rule recorded_update [OF blk]) (use at' p(2) addr(1) in \<open>simp_all add: Slots_Leaf flip: addr_def slot_def v_def\<close>)
qed

lemma GetRecorded_spec:
  assumes "fsm_rel_wf rel" "heapBlk < 2 ^ 32"
  shows "fst (GetRecordedFreeSpace rel heapBlk) = fsm_space_cat_to_avail (fsm_recorded rel heapBlk)"
proof -
  note loc = location_valid [OF assms(2)]
  obtain buf rel1 where r: "fsm_readbuf rel (fst (fsm_get_location heapBlk)) False = (buf, rel1)" by fastforce
  note sp = fsm_readbuf_spec [OF assms(1) loc(1) r]
  show ?thesis
  proof (cases buf)
    case None
    then have "fsm_recorded rel heapBlk = 0"
      using sp loc(3) by (simp add: fsm_recorded_def case_prod_beta fsm_at_missing Slots_Leaf)
    then show ?thesis using None r by (simp add: GetRecordedFreeSpace_def case_prod_beta unat_cat_to_avail)
  next
    case (Some b)
    then have "fsm_page rel1 b = fsm_at rel (fst (fsm_get_location heapBlk))" using sp by auto
    then show ?thesis using Some r by (simp add: GetRecordedFreeSpace_def case_prod_beta fsm_recorded_def)
  qed
qed

text \<open>Recording free space for a heap block, in normal running or in WAL replay,
  changes exactly what is recorded for that block; what is read back for it is
  at most what was recorded and, below the largest tuple size, less than one
  category step short of it.\<close>

theorem RecordPageWithFreeSpace_roundtrip:
  assumes "fsm_rel_wf rel" "heapBlk < 2 ^ 32"
  shows "\<exists>rel'. RecordPageWithFreeSpace rel heapBlk spaceAvail = Some rel'
    \<and> (\<forall>r \<in> {rel', XLogRecordPageWithFreeSpace rel heapBlk spaceAvail}. fsm_rel_wf r
        \<and> (\<forall>b<2 ^ 32. fsm_recorded r b
             = (if b = heapBlk then fsm_space_avail_to_cat spaceAvail else fsm_recorded rel b))
        \<and> fst (GetRecordedFreeSpace r heapBlk) \<le> spaceAvail
        \<and> (spaceAvail < MaxHeapTupleSize \<longrightarrow> spaceAvail < fst (GetRecordedFreeSpace r heapBlk) + FSM_CAT_STEP))"
proof -
  obtain rel' where r: "RecordPageWithFreeSpace rel heapBlk spaceAvail = Some rel'" "fsm_rel_wf rel'"
    "\<forall>b<2 ^ 32. fsm_recorded rel' b = (if b = heapBlk then fsm_space_avail_to_cat spaceAvail else fsm_recorded rel b)"
    using RecordPage_spec [OF assms] .
  note x = XLogRecordPage_spec [OF assms, of spaceAvail]
  have max: "MaxHeapTupleSize = 8160" using MaxFSMRequestSize_eq by (simp add: MaxFSMRequestSize_def)
  have "fsm_space_cat_to_avail (fsm_space_avail_to_cat spaceAvail) \<le> spaceAvail
    \<and> (spaceAvail < MaxHeapTupleSize \<longrightarrow> spaceAvail < fsm_space_cat_to_avail (fsm_space_avail_to_cat spaceAvail) + FSM_CAT_STEP)"
    by (auto simp: unat_cat_to_avail unat_avail_to_cat FSM_CAT_STEP_eq max)
  then have "fst (GetRecordedFreeSpace r heapBlk) \<le> spaceAvail
      \<and> (spaceAvail < MaxHeapTupleSize \<longrightarrow> spaceAvail < fst (GetRecordedFreeSpace r heapBlk) + FSM_CAT_STEP)"
    if "fsm_rel_wf r" "fsm_recorded r heapBlk = fsm_space_avail_to_cat spaceAvail" for r
    using GetRecorded_spec [OF that(1) assms(2)] that(2) by simp
  then show ?thesis using r x assms(2) by simp
qed

theorem RecordPageWithFreeSpace_roundtrip_witness:
  "\<exists>rel'. RecordPageWithFreeSpace fsm_empty_rel 70000 500 = Some rel'
    \<and> fst (GetRecordedFreeSpace rel' 70000) \<le> 500"
  using RecordPageWithFreeSpace_roundtrip [OF fsm_empty_rel_ok(1), of 70000 500] by auto

text \<open>Reporting the free space of a page and asking for another one, in one call,
  records exactly the report, and a block number it returns is one whose
  recorded free space, after the report, covers the request.\<close>

theorem RecordAndGetPageWithFreeSpace_sound:
  assumes "fsm_rel_wf rel" "fsm_no_ghosts rel" "oldPage < InvalidBlockNumber" "spaceNeeded \<le> MaxHeapTupleSize"
  shows "\<exists>blk rel'. RecordAndGetPageWithFreeSpace rel oldPage oldSpaceAvail spaceNeeded = Inr (Some (blk, rel'))
    \<and> fsm_rel_wf rel'
    \<and> (\<forall>b<2 ^ 32. fsm_recorded rel' b
         = (if b = oldPage then fsm_space_avail_to_cat oldSpaceAvail else fsm_recorded rel b))
    \<and> (blk \<noteq> InvalidBlockNumber \<longrightarrow>
         blk < InvalidBlockNumber \<and> spaceNeeded \<le> fsm_space_cat_to_avail (fsm_recorded rel' blk))"
proof -
  let ?addr = "fst (fsm_get_location oldPage)" and ?slot = "snd (fsm_get_location oldPage)"
  let ?v = "fsm_space_avail_to_cat oldSpaceAvail"
  have old: "oldPage < 2 ^ 32" using assms(3) by (simp add: InvalidBlockNumber_def)
  note loc = location_valid [OF old]
  obtain c where c: "fsm_space_needed_to_cat spaceNeeded = Inr c"
    using needed_to_cat_ex [OF assms(4)] by blast
  note c0 = needed_to_cat_nonzero [OF c]
  obtain k rel1 where k: "fsm_set_and_search rel ?addr ?slot ?v c = Some (k, rel1)" "fsm_rel_wf rel1"
    "\<forall>a. addr_valid a \<and> a \<noteq> ?addr \<longrightarrow> fsm_at rel1 a = fsm_at rel a"
    "\<forall>t<SlotsPerFSMPage. fsm_get_avail (fsm_at rel1 ?addr) t = (if t = ?slot then ?v else fsm_get_avail (fsm_at rel ?addr) t)"
    "k = -1 \<or> (\<exists>t<SlotsPerFSMPage. k = int t \<and> c \<le> fsm_get_avail (fsm_at rel1 ?addr) t)"
    using fsm_set_and_search_spec [OF assms(1) loc(1,3)] by blast
  note rec = recorded_update [OF old k(3,4)] and ng = no_ghosts_update [OF assms(2,3) k(3,4)]
  show ?thesis
  proof (cases "k = -1")
    case True
    obtain blk rel' where r: "fsm_search rel1 c = Some (blk, rel')" "fsm_rel_wf rel'" "same_bottom rel1 rel'"
      "blk \<noteq> InvalidBlockNumber \<longrightarrow> blk < InvalidBlockNumber \<and> c \<le> fsm_recorded rel1 blk"
      using fsm_search_sound [OF k(2) ng c0] by blast
    have "fsm_recorded rel' b = fsm_recorded rel1 b" if "b < 2 ^ 32" for b
      using same_bottom_recorded [OF r(3) that] .
    moreover have "RecordAndGetPageWithFreeSpace rel oldPage oldSpaceAvail spaceNeeded = Inr (Some (blk, rel'))"
      using c k(1) r(1) True by (simp add: RecordAndGetPageWithFreeSpace_def case_prod_beta)
    ultimately show ?thesis using r rec cat_enough [OF c] by (auto simp: InvalidBlockNumber_def)
  next
    case False
    then obtain t where t: "t < SlotsPerFSMPage" "k = int t" "c \<le> fsm_get_avail (fsm_at rel1 ?addr) t"
      using k(5) by blast
    then have "fsm_get_avail (fsm_at rel1 ?addr) t \<noteq> 0" using c0 by auto
    note rs = recorded_of_slot [OF loc(1,2) t(1) ng this]
    have "RecordAndGetPageWithFreeSpace rel oldPage oldSpaceAvail spaceNeeded = Inr (Some (fsm_get_heap_blk ?addr t, rel1))"
      using c k(1) t by (simp add: RecordAndGetPageWithFreeSpace_def case_prod_beta)
    then show ?thesis using rs rec k(2) t(3) cat_enough [OF c, of "fsm_get_avail (fsm_at rel1 ?addr) t"] by simp
  qed
qed

theorem RecordAndGetPageWithFreeSpace_sound_witness:
  "\<exists>blk rel'. RecordAndGetPageWithFreeSpace fsm_empty_rel 3 4000 100 = Inr (Some (blk, rel'))
     \<and> fsm_recorded rel' 3 = fsm_space_avail_to_cat 4000"
  using RecordAndGetPageWithFreeSpace_sound [OF fsm_empty_rel_ok(1,2), of 3 100 4000] MaxFSMRequestSize_eq
  by (auto simp: MaxFSMRequestSize_def InvalidBlockNumber_def)

subsection \<open>Completeness of the search\<close>

text \<open>
  In an up-to-date map every upper slot holds the root value of the child page
  it stands for.  \<open>same_nodes\<close> relates maps that differ in next-slot pointers only.
\<close>

definition fsm_upper_ok :: "FSMRelation \<Rightarrow> bool" where
  "fsm_upper_ok rel \<longleftrightarrow>
     (\<forall>a s. addr_valid a \<and> level a > 0 \<and> s < SlotsPerFSMPage \<longrightarrow>
        fsm_get_avail (fsm_at rel a) s = fsm_get_max_avail (fsm_at rel (fsm_get_child a s)))"

definition same_nodes :: "FSMRelation \<Rightarrow> FSMRelation \<Rightarrow> bool" where
  "same_nodes rel rel' \<longleftrightarrow> (\<forall>a. addr_valid a \<longrightarrow> fp_nodes (fsm_at rel' a) = fp_nodes (fsm_at rel a))"

lemma same_nodes_avail:
  "same_nodes rel rel' \<Longrightarrow> addr_valid a \<Longrightarrow> fsm_get_avail (fsm_at rel' a) s = fsm_get_avail (fsm_at rel a) s"
  "same_nodes rel rel' \<Longrightarrow> addr_valid a \<Longrightarrow> fsm_get_max_avail (fsm_at rel' a) = fsm_get_max_avail (fsm_at rel a)"
  by (simp_all add: same_nodes_def fsm_get_avail_def fsm_get_max_avail_def)

lemma same_nodes_heap: "same_nodes rel rel' \<Longrightarrow> fsm_rel_heap rel \<Longrightarrow> fsm_rel_heap rel'"
  by (simp add: same_nodes_def fsm_rel_heap_def fsm_heap_def)

lemma same_nodes_upper_ok: "same_nodes rel rel' \<Longrightarrow> fsm_upper_ok rel \<Longrightarrow> fsm_upper_ok rel'"
  by (simp add: fsm_upper_ok_def same_nodes_avail addr_valid_child)

lemma same_nodes_trans: "same_nodes r1 r2 \<Longrightarrow> same_nodes r2 r3 \<Longrightarrow> same_nodes r1 r3"
  by (simp add: same_nodes_def)

lemma max_avail_init: "fsm_get_max_avail fsm_init_page = 0"
  by (simp add: fsm_get_max_avail_def fsm_init_page_def fsm_sizes)

lemma avail_le_max:
  assumes "fsm_heap page" "s < SlotsPerFSMPage"
  shows "fsm_get_avail page s \<le> fsm_get_max_avail page"
  unfolding fsm_get_max_avail_Max [OF assms(1)] using assms(2) by (simp add: Slots_Leaf)

lemma fsm_search_page_found:
  assumes wf: "fsm_rel_wf rel" and a: "addr_valid addr" and heap: "fsm_heap (fsm_at rel addr)"
    and c: "c \<noteq> 0" "c \<le> fsm_get_max_avail (fsm_at rel addr)"
  obtains s rel1 where "fsm_search_page rel addr c = Some (int s, 0, rel1)" "s < SlotsPerFSMPage"
    "c \<le> fsm_get_avail (fsm_at rel addr) s" "fsm_rel_wf rel1" "same_nodes rel rel1"
proof -
  obtain buf rel1 where r: "fsm_readbuf rel addr False = (buf, rel1)" by fastforce
  note sp = fsm_readbuf_spec [OF wf a r]
  define b where "b = fsm_logical_to_physical addr"
  have "buf \<noteq> None"
  proof
    assume "buf = None"
    then have "fsm_at rel addr = fsm_init_page" using sp by (simp add: fsm_at_missing)
    then show False using c by (simp add: max_avail_init)
  qed
  then have b: "buf = Some b" "b < length (fsm_pages rel1)" "fsm_page rel1 b = fsm_at rel addr"
    using sp by (auto simp: b_def)
  let ?adv = "level addr = FSM_BOTTOM_LEVEL"
  obtain s where s: "s < LeafNodesPerPage" "c \<le> fsm_get_avail (fsm_at rel addr) s"
    "fsm_search_avail (fsm_at rel addr) c ?adv
     = Some (int s, (fsm_at rel addr)\<lparr>fp_next_slot := int s + (if ?adv then 1 else 0)\<rparr>)"
    using fsm_search_heap [OF heap, of c ?adv] c(2) unfolding fsm_get_max_avail_def by metis
  let ?p = "(fsm_at rel addr)\<lparr>fp_next_slot := int s + (if ?adv then 1 else 0)\<rparr>"
  have "fsm_wf ?p" using fsm_at_wf [OF wf, of addr] by (simp add: fsm_wf_def)
  then have "fsm_rel_wf (fsm_put_page rel1 b ?p)" using fsm_put_page_wf sp by blast
  moreover have "same_nodes rel (fsm_put_page rel1 b ?p)"
    using fsm_at_put [OF a _ b(2) [unfolded b_def], folded b_def] sp by (simp add: same_nodes_def)
  moreover have "fsm_search_page rel addr c = Some (int s, 0, fsm_put_page rel1 b ?p)"
    using r b s(3) by (simp add: fsm_search_page_def)
  ultimately show thesis using s(1,2) by (intro that) (simp_all add: Slots_Leaf)
qed

lemma fsm_search_page_none:
  assumes wf: "fsm_rel_wf rel" and a: "addr_valid addr" and c: "fsm_get_max_avail (fsm_at rel addr) < c"
  obtains m rel1 where "fsm_search_page rel addr c = Some (-1, m, rel1)"
proof -
  obtain buf rel1 where r: "fsm_readbuf rel addr False = (buf, rel1)" by fastforce
  note sp = fsm_readbuf_spec [OF wf a r]
  show thesis
  proof (cases buf)
    case None
    then show thesis using that r by (simp add: fsm_search_page_def)
  next
    case (Some b)
    then have "fsm_page rel1 b = fsm_at rel addr" using sp by auto
    then show thesis
      using that r Some fsm_search_avail_none [of "fsm_at rel addr" c] c
      by (simp add: fsm_search_page_def fsm_get_max_avail_def)
  qed
qed

lemma fsm_search_loop_complete:
  assumes "fsm_rel_wf rel" "fsm_rel_heap rel" "fsm_upper_ok rel" "addr_valid addr"
    "c \<noteq> 0" "c \<le> fsm_get_max_avail (fsm_at rel addr)"
  shows "\<exists>a s rel'. fsm_search_loop rel c r addr = Some (fsm_get_heap_blk a s, rel') \<and> addr_valid a \<and> level a = 0
    \<and> s < SlotsPerFSMPage \<and> c \<le> fsm_get_avail (fsm_at rel a) s"
  using assms
proof (induction "level addr" arbitrary: rel addr)
  case 0
  obtain s rel1 where s: "fsm_search_page rel addr c = Some (int s, 0, rel1)" "s < SlotsPerFSMPage"
    "c \<le> fsm_get_avail (fsm_at rel addr) s"
    using fsm_search_page_found [OF "0.prems"(1,4)] "0.prems" by (metis fsm_rel_heap_def)
  then have "fsm_search_loop rel c r addr = Some (fsm_get_heap_blk addr s, rel1)"
    using "0.hyps" by (subst fsm_search_loop.simps) (simp add: FSM_BOTTOM_LEVEL_def)
  then show ?case using s "0.prems"(4) "0.hyps" by (metis)
next
  case (Suc l)
  obtain s rel1 where s: "fsm_search_page rel addr c = Some (int s, 0, rel1)" "s < SlotsPerFSMPage"
    "c \<le> fsm_get_avail (fsm_at rel addr) s" "fsm_rel_wf rel1" "same_nodes rel rel1"
    using fsm_search_page_found [OF Suc.prems(1,4)] Suc.prems by (metis fsm_rel_heap_def)
  let ?ch = "fsm_get_child addr s"
  have lev: "level addr > 0" using Suc.hyps(2) by simp
  have eq: "fsm_search_loop rel c r addr = fsm_search_loop rel1 c r ?ch"
    using s(1) lev by (subst fsm_search_loop.simps) (simp add: FSM_BOTTOM_LEVEL_def)
  have ch: "addr_valid ?ch" by (rule addr_valid_child [OF Suc.prems(4) lev s(2)])
  have "c \<le> fsm_get_max_avail (fsm_at rel ?ch)"
    using s(2,3) Suc.prems(3,4) lev by (simp add: fsm_upper_ok_def)
  then have "c \<le> fsm_get_max_avail (fsm_at rel1 ?ch)" using same_nodes_avail(2) [OF s(5) ch] by simp
  moreover have "l = level ?ch" using Suc.hyps(2) by (simp add: fsm_get_child_def)
  ultimately have "\<exists>a s rel'. fsm_search_loop rel1 c r ?ch = Some (fsm_get_heap_blk a s, rel') \<and> addr_valid a \<and> level a = 0
    \<and> s < SlotsPerFSMPage \<and> c \<le> fsm_get_avail (fsm_at rel1 a) s"
    using Suc.hyps(1) s(4) same_nodes_heap [OF s(5) Suc.prems(2)] same_nodes_upper_ok [OF s(5) Suc.prems(3)] ch Suc.prems(5)
    by blast
  then show ?case unfolding eq using same_nodes_avail(1) [OF s(5)] by metis
qed

lemma max_avail_le_root:
  assumes "fsm_rel_heap rel" "fsm_upper_ok rel" "addr_valid a"
  shows "fsm_get_max_avail (fsm_at rel a) \<le> fsm_get_max_avail (fsm_at rel FSM_ROOT_ADDRESS)"
  using assms(3)
proof (induction "FSM_ROOT_LEVEL - level a" arbitrary: a)
  case 0
  then have "a = FSM_ROOT_ADDRESS"
    by (elim addr_valid_cases) (simp_all add: FSM_ROOT_ADDRESS_def fsm_addr_consts)
  then show ?case by simp
next
  case (Suc n)
  then have lt: "level a < FSM_ROOT_LEVEL" by simp
  note par = addr_valid_parent [OF Suc.prems lt]
  have "fsm_get_max_avail (fsm_at rel a) \<le> fsm_get_max_avail (fsm_at rel (fst (fsm_get_parent a)))"
    using assms(2) avail_le_max [OF _ par(3)] assms(1) par unfolding fsm_upper_ok_def fsm_rel_heap_def
    by (metis zero_less_Suc)
  also have "\<dots> \<le> fsm_get_max_avail (fsm_at rel FSM_ROOT_ADDRESS)"
    using Suc.hyps par(1,2) by (metis diff_Suc_Suc Suc_diff_le Suc_leI lt diff_Suc_1 Suc.hyps(2) diff_Suc_eq_diff_pred)
  finally show ?case .
qed

lemma fsm_search_complete:
  assumes "fsm_rel_wf rel" "fsm_rel_heap rel" "fsm_upper_ok rel" "fsm_no_ghosts rel" "c \<noteq> 0"
  shows "\<exists>blk rel'. fsm_search rel c = Some (blk, rel')
     \<and> (blk = InvalidBlockNumber \<longleftrightarrow> (\<forall>b<InvalidBlockNumber. fsm_recorded rel b < c))
     \<and> (blk \<noteq> InvalidBlockNumber \<longrightarrow> blk < InvalidBlockNumber \<and> c \<le> fsm_recorded rel blk)"
proof (cases "c \<le> fsm_get_max_avail (fsm_at rel FSM_ROOT_ADDRESS)")
  case True
  have root: "addr_valid FSM_ROOT_ADDRESS" by (simp add: addr_valid_def FSM_ROOT_ADDRESS_def)
  obtain a s rel' where f: "fsm_search rel c = Some (fsm_get_heap_blk a s, rel')" "addr_valid a" "level a = 0"
    "s < SlotsPerFSMPage" "c \<le> fsm_get_avail (fsm_at rel a) s"
    using fsm_search_loop_complete [OF assms(1-3) root assms(5) True] unfolding fsm_search_def by blast
  have "fsm_get_avail (fsm_at rel a) s \<noteq> 0" using f(5) assms(5) by auto
  from recorded_of_slot [OF f(2-4) assms(4) this] f show ?thesis
    by (metis leD order_less_irrefl)
next
  case False
  have root: "addr_valid FSM_ROOT_ADDRESS" by (simp add: addr_valid_def FSM_ROOT_ADDRESS_def)
  have lt: "fsm_get_max_avail (fsm_at rel FSM_ROOT_ADDRESS) < c" using False by simp
  obtain m rel1 where "fsm_search_page rel FSM_ROOT_ADDRESS c = Some (-1, m, rel1)"
    using fsm_search_page_none [OF assms(1) root lt] .
  then have "fsm_search rel c = Some (InvalidBlockNumber, rel1)"
    unfolding fsm_search_def by (subst fsm_search_loop.simps) (simp add: FSM_ROOT_ADDRESS_def)
  moreover have "fsm_recorded rel b < c" if "b < InvalidBlockNumber" for b
  proof -
    have "b < 2 ^ 32" using that by (simp add: InvalidBlockNumber_def)
    note loc = location_valid [OF this]
    have "fsm_recorded rel b \<le> fsm_get_max_avail (fsm_at rel (fst (fsm_get_location b)))"
      using avail_le_max [OF _ loc(3)] assms(2) loc(1) by (simp add: fsm_recorded_def case_prod_beta fsm_rel_heap_def)
    then show ?thesis using max_avail_le_root [OF assms(2,3) loc(1)] lt by simp
  qed
  ultimately show ?thesis by blast
qed

subsection \<open>Vacuuming\<close>

text \<open>The pages of the subtree below an address.\<close>

definition in_subtree :: "FSMAddress \<Rightarrow> FSMAddress \<Rightarrow> bool" where
  "in_subtree addr a \<longleftrightarrow>
     level a \<le> level addr \<and> logpageno a div SlotsPerFSMPage ^ (level addr - level a) = logpageno addr"

definition subtree_ok :: "FSMRelation \<Rightarrow> FSMAddress \<Rightarrow> bool" where
  "subtree_ok rel addr \<longleftrightarrow>
     (\<forall>a s. addr_valid a \<and> in_subtree addr a \<and> level a > 0 \<and> s < SlotsPerFSMPage \<longrightarrow>
        fsm_get_avail (fsm_at rel a) s = fsm_get_max_avail (fsm_at rel (fsm_get_child a s)))"

lemma in_subtree_refl: "in_subtree addr addr"
  by (simp add: in_subtree_def)

lemma Slots_pos: "SlotsPerFSMPage > 0"
  by (simp add: SlotsPerFSMPage_eq)

lemma in_subtree_child_iff:
  assumes "level addr > 0" "s < SlotsPerFSMPage"
  shows "in_subtree (fsm_get_child addr s) a \<longleftrightarrow>
    level a < level addr
    \<and> logpageno a div SlotsPerFSMPage ^ (level addr - 1 - level a) = logpageno addr * SlotsPerFSMPage + s"
  using assms by (auto simp: in_subtree_def fsm_get_child_def)

lemma div_pow_Suc: "(n :: nat) div m ^ Suc k = n div m ^ k div m"
  by (simp only: power_Suc2 div_mult2_eq)

lemma in_subtree_of_child:
  assumes "level addr > 0" "s < SlotsPerFSMPage" "in_subtree (fsm_get_child addr s) a"
  shows "in_subtree addr a" "level a < level addr"
proof -
  let ?S = SlotsPerFSMPage
  have a: "level a < level addr" "logpageno a div ?S ^ (level addr - 1 - level a) = logpageno addr * ?S + s"
    using assms by (simp_all add: in_subtree_child_iff)
  have "level addr - level a = Suc (level addr - 1 - level a)" using a(1) by simp
  then have "logpageno a div ?S ^ (level addr - level a) = (logpageno addr * ?S + s) div ?S"
    using a(2) by (simp only: div_pow_Suc)
  then show "in_subtree addr a" using a(1) assms(2) by (simp add: in_subtree_def)
  show "level a < level addr" by (rule a(1))
qed

lemma in_subtree_child_unique:
  assumes "level addr > 0" "s < SlotsPerFSMPage" "t < SlotsPerFSMPage"
    "in_subtree (fsm_get_child addr s) a" "in_subtree (fsm_get_child addr t) a"
  shows "s = t"
  using assms by (simp add: in_subtree_child_iff)

lemma in_subtree_cases:
  assumes "level addr > 0" "in_subtree addr a"
  obtains "a = addr" | s where "s < SlotsPerFSMPage" "in_subtree (fsm_get_child addr s) a"
proof (cases "level a = level addr")
  case True
  then show thesis using assms(2) that(1) by (cases a, cases addr) (simp add: in_subtree_def)
next
  case False
  let ?S = SlotsPerFSMPage
  let ?q = "logpageno a div ?S ^ (level addr - 1 - level a)"
  have l: "level a < level addr" using False assms(2) by (simp add: in_subtree_def)
  then have "level addr - level a = Suc (level addr - 1 - level a)" by simp
  then have "?q div ?S = logpageno addr"
    using assms(2) by (simp only: in_subtree_def div_pow_Suc)
  then have "?q = logpageno addr * ?S + ?q mod ?S" by (metis div_mult_mod_eq)
  moreover have "?q mod ?S < ?S" using Slots_pos by simp
  ultimately show thesis using that(2) [of "?q mod ?S"] l assms(1) by (simp add: in_subtree_child_iff)
qed

lemma in_subtree_phys:
  assumes "addr_valid addr" "addr_valid a" "in_subtree addr a"
  shows "fsm_logical_to_physical addr \<le> fsm_logical_to_physical a"
  using assms
proof (induction "level addr" arbitrary: addr)
  case 0
  then have "a = addr" by (cases a, cases addr) (simp add: in_subtree_def)
  then show ?case by simp
next
  case (Suc l)
  then have lev: "level addr > 0" by simp
  from lev Suc.prems(3) show ?case
  proof (cases rule: in_subtree_cases)
    case (2 s)
    have "fsm_logical_to_physical (fsm_get_child addr s) \<le> fsm_logical_to_physical a"
      by (rule Suc.hyps(1)) (use 2 Suc addr_valid_child [OF Suc.prems(1) lev] in \<open>auto simp: fsm_get_child_def\<close>)
    then show ?thesis using phys_child [OF Suc.prems(1) lev 2(1)] by simp
  qed simp
qed

lemma subtree_missing:
  assumes "addr_valid addr" "length (fsm_pages rel) \<le> fsm_logical_to_physical addr"
  shows "subtree_ok rel addr"
  unfolding subtree_ok_def
proof (intro allI impI, elim conjE)
  fix a s assume a: "addr_valid a" "in_subtree addr a" "0 < level a" "s < SlotsPerFSMPage"
  have "length (fsm_pages rel) \<le> fsm_logical_to_physical a"
    using in_subtree_phys [OF assms(1) a(1,2)] assms(2) by simp
  moreover from this have "length (fsm_pages rel) \<le> fsm_logical_to_physical (fsm_get_child a s)"
    using phys_child [OF a(1,3,4)] by simp
  ultimately show "fsm_get_avail (fsm_at rel a) s = fsm_get_max_avail (fsm_at rel (fsm_get_child a s))"
    using a(4) by (simp add: fsm_at_missing max_avail_init Slots_Leaf)
qed

text \<open>The subtree of one child is not touched by what happens elsewhere.\<close>

lemma in_subtree_grandchild:
  assumes "level a > 0" "s < SlotsPerFSMPage" "in_subtree addr a"
  shows "in_subtree addr (fsm_get_child a s)"
proof -
  let ?S = SlotsPerFSMPage
  have l: "level addr - (level a - 1) = Suc (level addr - level a)" "level a \<le> level addr"
    using assms by (auto simp: in_subtree_def)
  have "(logpageno a * ?S + s) div (?S * ?S ^ (level addr - level a)) = logpageno a div ?S ^ (level addr - level a)"
    using assms(2) by (simp add: div_mult2_eq)
  then show ?thesis using assms(3) l by (auto simp: in_subtree_def fsm_get_child_def)
qed

lemma subtree_ok_cong:
  assumes "subtree_ok rel addr" "\<forall>a. addr_valid a \<and> in_subtree addr a \<longrightarrow> fsm_at rel' a = fsm_at rel a"
  shows "subtree_ok rel' addr"
  using assms in_subtree_grandchild addr_valid_child unfolding subtree_ok_def by metis

definition vacuum_post :: "FSMRelation \<Rightarrow> FSMAddress \<Rightarrow> FSMRelation \<Rightarrow> bool" where
  "vacuum_post rel addr rel' \<longleftrightarrow>
     fsm_rel_wf rel' \<and> fsm_rel_heap rel' \<and> length (fsm_pages rel') = length (fsm_pages rel)
     \<and> same_bottom rel rel'
     \<and> (\<forall>a. addr_valid a \<and> \<not> in_subtree addr a \<longrightarrow> fsm_at rel' a = fsm_at rel a)"

definition vacuum_page_post :: "FSMRelation \<Rightarrow> FSMAddress \<Rightarrow> uint8 \<times> bool \<times> FSMRelation \<Rightarrow> bool" where
  "vacuum_page_post rel addr res \<longleftrightarrow>
     (case res of (m, eof, rel') \<Rightarrow>
        vacuum_post rel addr rel' \<and> subtree_ok rel' addr
        \<and> m = fsm_get_max_avail (fsm_at rel' addr)
        \<and> eof = (length (fsm_pages rel) \<le> fsm_logical_to_physical addr))"

text \<open>Replacing the page at the top of the subtree by one with the same or a better slot.\<close>

lemma vacuum_post_put:
  assumes "vacuum_post rel addr rel1" "addr_valid addr" "fsm_logical_to_physical addr < length (fsm_pages rel)"
    "fsm_wf page" "fsm_heap page"
    "level addr = 0 \<Longrightarrow> \<forall>s<SlotsPerFSMPage. fsm_get_avail page s = fsm_get_avail (fsm_at rel1 addr) s"
  shows "vacuum_post rel addr (fsm_put_page rel1 (fsm_logical_to_physical addr) page)"
proof -
  let ?rel2 = "fsm_put_page rel1 (fsm_logical_to_physical addr) page"
  have at: "addr_valid a \<Longrightarrow> fsm_at ?rel2 a = (if a = addr then page else fsm_at rel1 a)" for a
    using fsm_at_put [OF assms(2)] assms(1,3) by (simp add: vacuum_post_def)
  have sb: "same_bottom rel1 ?rel2"
    unfolding same_bottom_def
  proof (intro allI impI, elim conjE)
    fix a s assume a: "addr_valid a" "level a = 0" "s < SlotsPerFSMPage"
    show "fsm_get_avail (fsm_at ?rel2 a) s = fsm_get_avail (fsm_at rel1 a) s"
      using at [OF a(1)] assms(6) a by (cases "a = addr") simp_all
  qed
  have "fsm_rel_wf ?rel2" "fsm_rel_heap ?rel2"
    using fsm_put_page_wf assms(1,4,5) at by (auto simp: vacuum_post_def fsm_rel_heap_def)
  moreover have "\<forall>a. addr_valid a \<and> \<not> in_subtree addr a \<longrightarrow> fsm_at ?rel2 a = fsm_at rel a"
    using at assms(1) in_subtree_refl by (auto simp: vacuum_post_def)
  ultimately show ?thesis
    using assms(1) same_bottom_trans [OF _ sb] by (simp add: vacuum_post_def)
qed

text \<open>One step of the loop over the slots of an upper page.\<close>

definition vacuum_slot_ok :: "FSMRelation \<Rightarrow> FSMAddress \<Rightarrow> nat \<Rightarrow> bool" where
  "vacuum_slot_ok rel addr t \<longleftrightarrow> subtree_ok rel (fsm_get_child addr t)
     \<and> fsm_get_avail (fsm_at rel addr) t = fsm_get_max_avail (fsm_at rel (fsm_get_child addr t))"

lemma vacuum_post_refl: "fsm_rel_wf rel \<Longrightarrow> fsm_rel_heap rel \<Longrightarrow> vacuum_post rel addr rel"
  by (simp add: vacuum_post_def same_bottom_refl)

lemma vacuum_post_trans:
  "vacuum_post r1 addr r2 \<Longrightarrow> vacuum_post r2 addr r3 \<Longrightarrow> vacuum_post r1 addr r3"
  using same_bottom_trans [of r1 r2 r3] by (simp add: vacuum_post_def)

lemma vacuum_post_child:
  assumes "vacuum_post rel (fsm_get_child addr s) rel'" "level addr > 0" "s < SlotsPerFSMPage"
  shows "vacuum_post rel addr rel'"
  using assms in_subtree_of_child(1) [OF assms(2,3)] by (auto simp: vacuum_post_def)

lemma child_valid_subtree:
  assumes "addr_valid addr" "level addr > 0" "t < SlotsPerFSMPage"
  shows "addr_valid (fsm_get_child addr t)" "in_subtree (fsm_get_child addr t) (fsm_get_child addr t)"
    "\<not> in_subtree (fsm_get_child addr t) addr"
  using addr_valid_child [OF assms] in_subtree_refl in_subtree_child_iff [OF assms(2,3)] by auto

lemma vacuum_slot_ok_frame:
  assumes ok: "vacuum_slot_ok rel addr t" and addr: "addr_valid addr" "level addr > 0"
    and t: "t < SlotsPerFSMPage"
    and same: "\<forall>a. addr_valid a \<and> in_subtree (fsm_get_child addr t) a \<longrightarrow> fsm_at rel' a = fsm_at rel a"
    and slot: "fsm_get_avail (fsm_at rel' addr) t = fsm_get_avail (fsm_at rel addr) t"
  shows "vacuum_slot_ok rel' addr t"
  using ok subtree_ok_cong [OF _ same] same child_valid_subtree [OF addr t] slot
  unfolding vacuum_slot_ok_def by auto

lemma vacuum_set_slot:
  assumes addr: "addr_valid addr" "level addr > 0" "fsm_logical_to_physical addr < length (fsm_pages rel)"
    and wf: "fsm_rel_wf rel" "fsm_rel_heap rel" and s: "s < SlotsPerFSMPage"
    and sub: "subtree_ok rel (fsm_get_child addr s)"
    and m: "m = fsm_get_max_avail (fsm_at rel (fsm_get_child addr s))"
    and prior: "\<forall>t < s. vacuum_slot_ok rel addr t"
  defines "b \<equiv> fsm_logical_to_physical addr"
  defines "rel' \<equiv> (if fsm_get_avail (fsm_page rel b) s \<noteq> m
      then fsm_put_page rel b (snd (fsm_set_avail (fsm_page rel b) s m)) else rel)"
  shows "vacuum_post rel addr rel' \<and> (\<forall>t<Suc s. vacuum_slot_ok rel' addr t)"
proof -
  have pg: "fsm_page rel b = fsm_at rel addr" using addr(3) by (simp add: fsm_at_def b_def)
  let ?p = "snd (fsm_set_avail (fsm_at rel addr) s m)"
  have heap: "fsm_heap (fsm_at rel addr)" using wf(2) addr(1) by (simp add: fsm_rel_heap_def)
  note p = fsm_set_avail_snd [OF fsm_at_wf [OF wf(1)] heap s [unfolded Slots_Leaf], where v = m]
  show ?thesis
  proof (cases "fsm_get_avail (fsm_at rel addr) s = m")
    case True
    then have "rel' = rel" by (simp add: rel'_def pg)
    then show ?thesis
      using True prior sub m vacuum_post_refl [OF wf] by (auto simp: less_Suc_eq vacuum_slot_ok_def)
  next
    case False
    then have rel': "rel' = fsm_put_page rel b ?p" by (simp add: rel'_def pg)
    have post: "vacuum_post rel addr rel'"
      unfolding rel' b_def
      by (rule vacuum_post_put [OF vacuum_post_refl [OF wf] addr(1,3) p(1,2)]) (use addr in simp)
    have at: "addr_valid a \<Longrightarrow> fsm_at rel' a = (if a = addr then ?p else fsm_at rel a)" for a
      unfolding rel' b_def by (rule fsm_at_put [OF addr(1) _ addr(3)])
    have same: "\<forall>a. addr_valid a \<and> in_subtree (fsm_get_child addr t) a \<longrightarrow> fsm_at rel' a = fsm_at rel a"
      if "t < SlotsPerFSMPage" for t
      using at child_valid_subtree(3) [OF addr(1,2) that] by auto
    have "vacuum_slot_ok rel' addr t" if "t < s" for t
      by (rule vacuum_slot_ok_frame [OF _ addr(1,2) _ same])
        (use prior that s at [OF addr(1)] p(4) in \<open>auto simp: Slots_Leaf\<close>)
    moreover have "vacuum_slot_ok rel' addr s"
      unfolding vacuum_slot_ok_def
      using subtree_ok_cong [OF sub same [OF s]] at [OF addr(1)] p(4) [of s] s m
        at [OF child_valid_subtree(1) [OF addr(1,2) s]] child_valid_subtree(2,3) [OF addr(1,2) s]
      by (auto simp: Slots_Leaf)
    ultimately show ?thesis using post by (auto simp: less_Suc_eq)
  qed
qed

lemma phys_child_mono:
  assumes "addr_valid addr" "level addr > 0" "t < SlotsPerFSMPage" "s \<le> t"
  shows "fsm_logical_to_physical (fsm_get_child addr s) \<le> fsm_logical_to_physical (fsm_get_child addr t)"
  using assms phys_child [OF assms(1-3)] phys_child [OF assms(1,2), of s] by simp

lemma vacuum_slots_spec:
  assumes IH: "\<And>rel c. fsm_rel_wf rel \<Longrightarrow> fsm_rel_heap rel \<Longrightarrow> addr_valid c \<Longrightarrow> level c = l
      \<Longrightarrow> vacuum_page_post rel c (fsm_vacuum_page rel c)"
    and addr: "addr_valid addr" "level addr = Suc l"
    and "fsm_rel_wf rel" "fsm_rel_heap rel" "fsm_logical_to_physical addr < length (fsm_pages rel)"
    and "s \<le> SlotsPerFSMPage" "\<forall>t < s. vacuum_slot_ok rel addr t"
    and "eof \<longrightarrow> (\<forall>t. s \<le> t \<and> t < SlotsPerFSMPage \<longrightarrow>
           length (fsm_pages rel) \<le> fsm_logical_to_physical (fsm_get_child addr t))"
  shows "vacuum_post rel addr (fsm_vacuum_slots rel addr (fsm_logical_to_physical addr) s eof)
     \<and> (\<forall>t<SlotsPerFSMPage.
          vacuum_slot_ok (fsm_vacuum_slots rel addr (fsm_logical_to_physical addr) s eof) addr t)"
  using assms(4-)
proof (induction "SlotsPerFSMPage - s" arbitrary: rel s eof)
  case 0
  then have "s = SlotsPerFSMPage" by simp
  then have "fsm_vacuum_slots rel addr (fsm_logical_to_physical addr) s eof = rel"
    by (subst fsm_vacuum_slots.simps) simp
  then show ?case using 0 \<open>s = SlotsPerFSMPage\<close> vacuum_post_refl by simp
next
  case (Suc n)
  let ?b = "fsm_logical_to_physical addr" and ?ch = "fsm_get_child addr s"
  have s: "s < SlotsPerFSMPage" and lev: "level addr > 0" using Suc.hyps(2) addr(2) by simp_all
  note chv = child_valid_subtree [OF addr(1) lev s]
  obtain m eof' rel1 where r1: "(if \<not> eof then fsm_vacuum_page rel ?ch else (0, eof, rel)) = (m, eof', rel1)"
    by (metis surj_pair)
  have P1: "vacuum_post rel ?ch rel1 \<and> subtree_ok rel1 ?ch \<and> m = fsm_get_max_avail (fsm_at rel1 ?ch)
      \<and> (eof' \<longrightarrow> length (fsm_pages rel) \<le> fsm_logical_to_physical ?ch)"
  proof (cases eof)
    case True
    then have miss: "length (fsm_pages rel) \<le> fsm_logical_to_physical ?ch" using Suc.prems(6) s by simp
    then show ?thesis
      using r1 True vacuum_post_refl [OF Suc.prems(1,2)] subtree_missing [OF chv(1) miss]
      by (auto simp: fsm_at_missing max_avail_init)
  next
    case False
    have "level ?ch = l" using addr(2) by (simp add: fsm_get_child_def)
    from IH [OF Suc.prems(1,2) chv(1) this] show ?thesis using r1 False by (simp add: vacuum_page_post_def)
  qed
  have len1: "length (fsm_pages rel1) = length (fsm_pages rel)" and wf1: "fsm_rel_wf rel1" "fsm_rel_heap rel1"
    using P1 by (simp_all add: vacuum_post_def)
  have at1: "addr_valid a \<Longrightarrow> \<not> in_subtree ?ch a \<Longrightarrow> fsm_at rel1 a = fsm_at rel a" for a
    using P1 by (simp add: vacuum_post_def)
  have prior1: "vacuum_slot_ok rel1 addr t" if "t < s" for t
  proof -
    have t: "t < SlotsPerFSMPage" using that s by simp
    show ?thesis
    proof (rule vacuum_slot_ok_frame [OF _ addr(1) lev t])
      show "vacuum_slot_ok rel addr t" using Suc.prems(5) that by simp
      show "fsm_get_avail (fsm_at rel1 addr) t = fsm_get_avail (fsm_at rel addr) t"
        using at1 [OF addr(1) chv(3)] by simp
      show "\<forall>a. addr_valid a \<and> in_subtree (fsm_get_child addr t) a \<longrightarrow> fsm_at rel1 a = fsm_at rel a"
        using at1 in_subtree_child_unique [OF lev s t] that by blast
    qed
  qed
  define rel2 where "rel2 = (if fsm_get_avail (fsm_page rel1 ?b) s \<noteq> m
      then fsm_put_page rel1 ?b (snd (fsm_set_avail (fsm_page rel1 ?b) s m)) else rel1)"
  have lt1: "?b < length (fsm_pages rel1)" using Suc.prems(3) len1 by simp
  have P2: "vacuum_post rel1 addr rel2 \<and> (\<forall>t<Suc s. vacuum_slot_ok rel2 addr t)"
    unfolding rel2_def
    by (rule vacuum_set_slot [OF addr(1) lev lt1 wf1 s]) (use P1 prior1 in auto)
  have step: "fsm_vacuum_slots rel addr ?b s eof = fsm_vacuum_slots rel2 addr ?b (Suc s) eof'"
    using s lev r1
    by (subst fsm_vacuum_slots.simps) (simp add: FSM_BOTTOM_LEVEL_def Let_def rel2_def split del: if_split)
  have len2: "length (fsm_pages rel2) = length (fsm_pages rel)" using P2 len1 by (simp add: vacuum_post_def)
  have "vacuum_post rel2 addr (fsm_vacuum_slots rel2 addr ?b (Suc s) eof')
     \<and> (\<forall>t<SlotsPerFSMPage. vacuum_slot_ok (fsm_vacuum_slots rel2 addr ?b (Suc s) eof') addr t)"
  proof (rule Suc.hyps(1))
    show "n = SlotsPerFSMPage - Suc s" "Suc s \<le> SlotsPerFSMPage" using Suc.hyps(2) by simp_all
    show "fsm_rel_wf rel2" "fsm_rel_heap rel2" "\<forall>t<Suc s. vacuum_slot_ok rel2 addr t"
      using P2 by (simp_all add: vacuum_post_def)
    show "?b < length (fsm_pages rel2)" using len2 Suc.prems(3) by simp
    show "eof' \<longrightarrow> (\<forall>t. Suc s \<le> t \<and> t < SlotsPerFSMPage \<longrightarrow>
        length (fsm_pages rel2) \<le> fsm_logical_to_physical (fsm_get_child addr t))"
      using P1 len2 phys_child_mono [OF addr(1) lev, of _ s] by (auto intro: order_trans)
  qed
  then show ?case
    unfolding step using vacuum_post_trans vacuum_post_child [OF _ lev s] P1 P2 by blast
qed

lemma vacuum_page_spec:
  assumes "fsm_rel_wf rel" "fsm_rel_heap rel" "addr_valid addr"
  shows "vacuum_page_post rel addr (fsm_vacuum_page rel addr)"
  using assms
proof (induction "level addr" arbitrary: rel addr rule: less_induct)
  case less
  note IH = less.hyps and wf = less.prems(1,2) and a = less.prems(3)
  let ?b = "fsm_logical_to_physical addr"
  obtain buf rel1 where r: "fsm_readbuf rel addr False = (buf, rel1)" by fastforce
  note sp = fsm_readbuf_spec [OF wf(1) a r]
  have v1: "vacuum_post rel addr rel1" "fsm_rel_wf rel1" "fsm_rel_heap rel1"
    using sp wf(2) by (simp_all add: vacuum_post_def same_bottom_def fsm_rel_heap_def)
  show ?case
  proof (cases buf)
    case None
    then have miss: "length (fsm_pages rel1) \<le> ?b" using sp by simp
    have "fsm_vacuum_page rel addr = (0, True, rel1)"
      using r None by (subst fsm_vacuum_page.simps) simp
    then show ?thesis
      using v1 subtree_missing [OF a miss] fsm_at_missing [OF miss] sp None
      by (simp add: vacuum_page_post_def max_avail_init)
  next
    case (Some b)
    then have b: "b = ?b" "?b < length (fsm_pages rel1)" "length (fsm_pages rel1) = length (fsm_pages rel)"
      using sp by auto
    define rel2 where "rel2 = (if level addr > FSM_BOTTOM_LEVEL then fsm_vacuum_slots rel1 addr ?b 0 False else rel1)"
    have P2: "vacuum_post rel1 addr rel2 \<and> (level addr > 0 \<longrightarrow> (\<forall>t<SlotsPerFSMPage. vacuum_slot_ok rel2 addr t))"
    proof (cases "level addr")
      case 0
      then show ?thesis using vacuum_post_refl v1 by (simp add: rel2_def FSM_BOTTOM_LEVEL_def)
    next
      case (Suc k)
      have "vacuum_post rel1 addr (fsm_vacuum_slots rel1 addr ?b 0 False)
          \<and> (\<forall>t<SlotsPerFSMPage. vacuum_slot_ok (fsm_vacuum_slots rel1 addr ?b 0 False) addr t)"
        by (rule vacuum_slots_spec [OF _ a Suc v1(2,3) b(2)]) (use IH Suc in auto)
      then show ?thesis by (simp add: rel2_def Suc FSM_BOTTOM_LEVEL_def)
    qed
    let ?page = "fsm_page rel2 ?b"
    let ?p = "?page\<lparr>fp_next_slot := 0\<rparr>"
    define rel3 where "rel3 = fsm_put_page rel2 ?b ?p"
    have res: "fsm_vacuum_page rel addr = (fsm_get_max_avail ?page, False, rel3)"
      using r Some b(1) by (subst fsm_vacuum_page.simps) (simp add: rel2_def rel3_def Let_def)
    have v2: "vacuum_post rel addr rel2" using vacuum_post_trans v1(1) P2 by blast
    have wf2: "fsm_rel_wf rel2" "fsm_rel_heap rel2" "length (fsm_pages rel2) = length (fsm_pages rel)"
      using v2 by (simp_all add: vacuum_post_def)
    have pg: "?page = fsm_at rel2 addr" using b wf2(3) by (simp add: fsm_at_def)
    have "fsm_wf ?p" using fsm_at_wf [OF wf2(1), of addr] by (simp add: pg fsm_wf_def)
    moreover have "fsm_heap ?p" using wf2(2) a by (simp add: pg fsm_rel_heap_def fsm_heap_def)
    ultimately have v3: "vacuum_post rel addr rel3"
      unfolding rel3_def
      by (intro vacuum_post_put [OF v2 a]) (use b in \<open>simp_all add: pg fsm_get_avail_def\<close>)
    have at3: "addr_valid x \<Longrightarrow> fsm_at rel3 x = (if x = addr then ?p else fsm_at rel2 x)" for x
      unfolding rel3_def by (rule fsm_at_put [OF a]) (use b wf2(3) in simp_all)
    have eqv: "fsm_get_avail (fsm_at rel3 x) t = fsm_get_avail (fsm_at rel2 x) t"
      "fsm_get_max_avail (fsm_at rel3 x) = fsm_get_max_avail (fsm_at rel2 x)" if "addr_valid x" for x t
      using at3 [OF that] pg by (auto simp: fsm_get_avail_def fsm_get_max_avail_def)
    have "subtree_ok rel3 addr"
      unfolding subtree_ok_def
    proof (intro allI impI, elim conjE)
      fix x t assume x: "addr_valid x" "in_subtree addr x" "0 < level x" "t < SlotsPerFSMPage"
      have lev: "level addr > 0" using x(2,3) by (simp add: in_subtree_def)
      have ok: "\<forall>t<SlotsPerFSMPage. vacuum_slot_ok rel2 addr t" using P2 lev by simp
      from lev x(2) have "fsm_get_avail (fsm_at rel2 x) t = fsm_get_max_avail (fsm_at rel2 (fsm_get_child x t))"
      proof (cases rule: in_subtree_cases)
        case 1
        then show ?thesis using ok x(4) by (simp add: vacuum_slot_ok_def)
      next
        case (2 u)
        then have "subtree_ok rel2 (fsm_get_child addr u)" using ok by (simp add: vacuum_slot_ok_def)
        then show ?thesis using x 2(2) by (simp add: subtree_ok_def)
      qed
      then show "fsm_get_avail (fsm_at rel3 x) t = fsm_get_max_avail (fsm_at rel3 (fsm_get_child x t))"
        using eqv x(1) addr_valid_child [OF x(1,3,4)] by simp
    qed
    then show ?thesis
      using res v3 eqv(2) [OF a] b pg by (simp add: vacuum_page_post_def)
  qed
qed



subsection \<open>Truncation\<close>

lemma phys_bottom_mono:
  assumes "q \<le> q'" "q' < 16556761"
  shows "fsm_logical_to_physical \<lparr>level = 0, logpageno = q\<rparr> \<le> fsm_logical_to_physical \<lparr>level = 0, logpageno = q'\<rparr>"
    "q < q' \<Longrightarrow> fsm_logical_to_physical \<lparr>level = 0, logpageno = q\<rparr> < fsm_logical_to_physical \<lparr>level = 0, logpageno = q'\<rparr>"
  using assms by (simp_all add: phys_0 add_mono div_le_mono add_less_le_mono)

lemma location_fst: "fst (fsm_get_location b) = \<lparr>level = 0, logpageno = b div SlotsPerFSMPage\<rparr>"
  and location_snd: "snd (fsm_get_location b) = b mod SlotsPerFSMPage"
  by (simp_all add: fsm_get_location_def FSM_BOTTOM_LEVEL_def)

lemma fsm_at_truncate:
  "fsm_at (fsm_smgrtruncate rel n) a
   = (if fsm_logical_to_physical a < n then fsm_at rel a else fsm_init_page)"
  by (simp add: fsm_at_def fsm_smgrtruncate_def fsm_page_def Let_def)

lemma fsm_truncate_wf:
  "fsm_rel_wf rel \<Longrightarrow> n \<le> length (fsm_pages rel) \<Longrightarrow> fsm_rel_wf (fsm_smgrtruncate rel n)"
  by (auto simp: fsm_rel_wf_def fsm_smgrtruncate_def dest: in_set_takeD)

lemma phys_location_mono:
  assumes "b < 2 ^ 32" "n < 2 ^ 32"
  shows "b div SlotsPerFSMPage \<le> n div SlotsPerFSMPage \<longleftrightarrow>
     fsm_logical_to_physical (fst (fsm_get_location b)) \<le> fsm_logical_to_physical (fst (fsm_get_location n))"
proof -
  have "x div SlotsPerFSMPage < 16556761" if "x < 2 ^ 32" for x :: nat
    using that by (simp add: SlotsPerFSMPage_eq div_less_iff_less_mult)
  then show ?thesis
    unfolding location_fst using phys_bottom_mono(1) [of "b div SlotsPerFSMPage" "n div SlotsPerFSMPage"]
      phys_bottom_mono(2) [of "n div SlotsPerFSMPage" "b div SlotsPerFSMPage"] assms
    by (meson leD linear less_le_not_le not_le_imp_less)
qed

text \<open>Truncating the map for a heap of the given number of blocks keeps what is
  recorded for the remaining blocks and records no free space for the removed
  ones, whether or not the cut falls on a page boundary or past the end of the fork.\<close>

theorem FreeSpaceMapTruncateRel_correct:
  assumes "fsm_rel_wf rel" "nblocks < 2 ^ 32"
  shows "fsm_rel_wf (FreeSpaceMapTruncateRel rel nblocks)
    \<and> (\<forall>b<2 ^ 32. fsm_recorded (FreeSpaceMapTruncateRel rel nblocks) b
         = (if b < nblocks then fsm_recorded rel b else 0))"
proof -
  let ?S = SlotsPerFSMPage
  let ?addr = "fst (fsm_get_location nblocks)" and ?slot = "snd (fsm_get_location nblocks)"
  let ?n = "fsm_logical_to_physical ?addr"
  note loc = location_valid [OF assms(2)]
  have rec0: "fsm_recorded rel b = 0" if "b < 2 ^ 32" "length (fsm_pages rel) \<le> fsm_logical_to_physical (fst (fsm_get_location b))" for b
    using fsm_at_missing [OF that(2)] location_valid(3) [OF that(1)]
    by (simp add: fsm_recorded_def case_prod_beta Slots_Leaf)
  have page_le: "b div ?S \<le> nblocks div ?S" if "b < nblocks" for b using that by (simp add: div_le_mono)
  have page_ge: "nblocks div ?S \<le> b div ?S" if "nblocks \<le> b" for b using that by (simp add: div_le_mono)
  have phys_ge: "?n \<le> fsm_logical_to_physical (fst (fsm_get_location b))" if "b < 2 ^ 32" "nblocks \<le> b" for b
    using phys_location_mono [OF assms(2) that(1)] page_ge [OF that(2)] by simp
  have split: "b < nblocks \<longleftrightarrow> b mod ?S < nblocks mod ?S" if "b div ?S = nblocks div ?S" for b
    using that by (metis div_mult_mod_eq nat_add_left_cancel_less)
  consider (nofork) "\<not> fsm_exists rel" | (inside) "fsm_exists rel" "?slot > 0" | (boundary) "fsm_exists rel" "?slot = 0"
    by blast
  then show ?thesis
  proof cases
    case nofork
    then have "fsm_pages rel = []" using assms(1) by (simp add: fsm_rel_wf_def)
    then show ?thesis using nofork assms(1) rec0 by (auto simp: FreeSpaceMapTruncateRel_def)
  next
    case boundary
    have b_lt: "fsm_logical_to_physical (fst (fsm_get_location b)) < ?n" if "b < nblocks" "b < 2 ^ 32" for b
    proof -
      have "b div ?S \<noteq> nblocks div ?S" using split [of b] that boundary(2) by (auto simp: location_snd)
      then have "\<not> nblocks div ?S \<le> b div ?S" using page_le [OF that(1)] by simp
      then show ?thesis using phys_location_mono [OF assms(2) that(2)] by simp
    qed
    show ?thesis
    proof (cases "length (fsm_pages rel) \<le> ?n")
      case True
      then have "FreeSpaceMapTruncateRel rel nblocks = rel"
        using boundary by (simp add: FreeSpaceMapTruncateRel_def case_prod_beta Let_def)
      moreover have "fsm_recorded rel b = 0" if "b < 2 ^ 32" "nblocks \<le> b" for b
        using rec0 [OF that(1)] phys_ge [OF that] True by simp
      ultimately show ?thesis using assms(1) by auto
    next
      case False
      then have t: "FreeSpaceMapTruncateRel rel nblocks = fsm_smgrtruncate rel ?n"
        using boundary by (simp add: FreeSpaceMapTruncateRel_def case_prod_beta Let_def)
      have "fsm_recorded (fsm_smgrtruncate rel ?n) b = (if b < nblocks then fsm_recorded rel b else 0)"
        if "b < 2 ^ 32" for b
        using b_lt [OF _ that] phys_ge [OF that] location_valid(3) [OF that]
        by (auto simp: fsm_recorded_def case_prod_beta fsm_at_truncate Slots_Leaf not_less)
      then show ?thesis using t fsm_truncate_wf assms(1) False by simp
    qed
  next
    case inside
    obtain buf rel1 where r: "fsm_readbuf rel ?addr False = (buf, rel1)" by fastforce
    note sp = fsm_readbuf_spec [OF assms(1) loc(1) r]
    have rec1: "fsm_recorded rel1 b = fsm_recorded rel b" if "b < 2 ^ 32" for b
      using sp location_valid(1) [OF that] by (simp add: fsm_recorded_def case_prod_beta)
    show ?thesis
    proof (cases buf)
      case None
      then have t: "FreeSpaceMapTruncateRel rel nblocks = rel1" and miss: "length (fsm_pages rel) \<le> ?n"
        using inside r sp by (simp_all add: FreeSpaceMapTruncateRel_def case_prod_beta Let_def)
      have "fsm_recorded rel b = 0" if "b < 2 ^ 32" "nblocks \<le> b" for b
        using rec0 [OF that(1)] phys_ge [OF that] miss by simp
      then show ?thesis using t sp rec1 by auto
    next
      case (Some b)
      then have b: "b = ?n" "?n < length (fsm_pages rel1)" "fsm_page rel1 ?n = fsm_at rel ?addr" using sp by auto
      let ?p = "snd (fsm_truncate_avail (fsm_at rel ?addr) ?slot)"
      let ?rel2 = "fsm_put_page rel1 ?n ?p"
      have p: "fsm_wf ?p" "\<forall>s<LeafNodesPerPage. fsm_get_avail ?p s = (if ?slot \<le> s then 0 else fsm_get_avail (fsm_at rel ?addr) s)"
        using fsm_truncate_avail_any [OF fsm_at_wf [OF assms(1)] prod.collapse [symmetric]] by blast+
      have t: "FreeSpaceMapTruncateRel rel nblocks = fsm_smgrtruncate ?rel2 (?n + 1)"
        using inside r Some b by (simp add: FreeSpaceMapTruncateRel_def case_prod_beta Let_def)
      have "fsm_rel_wf ?rel2" using fsm_put_page_wf p(1) sp by blast
      then have wf: "fsm_rel_wf (fsm_smgrtruncate ?rel2 (?n + 1))" using fsm_truncate_wf b(2) by simp
      have at: "addr_valid a \<Longrightarrow> fsm_at ?rel2 a = (if a = ?addr then ?p else fsm_at rel a)" for a
        using fsm_at_put [OF loc(1) _ b(2)] sp by simp
      have "fsm_recorded (fsm_smgrtruncate ?rel2 (?n + 1)) b = (if b < nblocks then fsm_recorded rel b else 0)"
        if b32: "b < 2 ^ 32" for b
      proof -
        note lb = location_valid [OF b32]
        consider (same) "b div ?S = nblocks div ?S" | (before) "b div ?S < nblocks div ?S" | (after) "nblocks div ?S < b div ?S"
          by linarith
        then show ?thesis
        proof cases
          case same
          then have "fst (fsm_get_location b) = ?addr" by (simp add: location_fst)
          then show ?thesis using at [OF loc(1)] p(2) lb(3) split [OF same]
            by (auto simp: fsm_recorded_def case_prod_beta fsm_at_truncate Slots_Leaf location_snd)
        next
          case before
          then have "b < nblocks" using page_ge by (meson leD not_le)
          moreover have "fst (fsm_get_location b) \<noteq> ?addr" using before by (simp add: location_fst)
          moreover have "fsm_logical_to_physical (fst (fsm_get_location b)) < ?n + 1"
            using phys_location_mono [OF b32 assms(2)] before by simp
          ultimately show ?thesis using at [OF lb(1)] by (simp add: fsm_recorded_def case_prod_beta fsm_at_truncate)
        next
          case after
          then have "\<not> b < nblocks" using page_le by (meson leD)
          moreover have "\<not> fsm_logical_to_physical (fst (fsm_get_location b)) < ?n + 1"
            using phys_location_mono [OF b32 assms(2)] after by simp
          ultimately show ?thesis using lb(3) by (simp add: fsm_recorded_def case_prod_beta fsm_at_truncate Slots_Leaf)
        qed
      qed
      then show ?thesis using t wf by simp
    qed
  qed
qed

theorem FreeSpaceMapTruncateRel_correct_witness:
  "fsm_recorded (FreeSpaceMapTruncateRel fsm_empty_rel 100) 200 = 0"
  using FreeSpaceMapTruncateRel_correct [OF fsm_empty_rel_ok(1), of 100] by simp

end
