(* ===== verification/Transam.thy ===== *)
theory Transam
  imports PG_Prelude
begin

text \<open>
  Transaction identifiers (\<^verbatim>\<open>access/transam.h\<close>, the comparison functions of
  \<^verbatim>\<open>access/transam/transam.c\<close>).  Identifiers are 32-bit words compared modulo
  \<open>2^31\<close>; the first three are permanent.
\<close>

unbundle bit_operations_syntax

type_synonym TransactionId = uint32
type_synonym Oid = uint32

section \<open>Macros and comparisons\<close>

definition InvalidTransactionId :: TransactionId where
  "InvalidTransactionId = 0"

definition BootstrapTransactionId :: TransactionId where
  "BootstrapTransactionId = 1"

definition FrozenTransactionId :: TransactionId where
  "FrozenTransactionId = 2"

definition FirstNormalTransactionId :: TransactionId where
  "FirstNormalTransactionId = 3"

definition MaxTransactionId :: TransactionId where
  "MaxTransactionId = 0xFFFFFFFF"

definition TransactionIdIsValid :: "TransactionId \<Rightarrow> bool" where
  "TransactionIdIsValid xid \<longleftrightarrow> xid \<noteq> InvalidTransactionId"

definition TransactionIdIsNormal :: "TransactionId \<Rightarrow> bool" where
  "TransactionIdIsNormal xid \<longleftrightarrow> xid \<ge> FirstNormalTransactionId"

definition TransactionIdAdvance :: "TransactionId \<Rightarrow> TransactionId" where
  "TransactionIdAdvance xid =
     (let dest = xid + 1
      in if dest < FirstNormalTransactionId then FirstNormalTransactionId else dest)"

function TransactionIdRetreat :: "TransactionId \<Rightarrow> TransactionId" where
  "TransactionIdRetreat xid =
     (let dest = xid - 1
      in if dest < FirstNormalTransactionId then TransactionIdRetreat dest else dest)"
  by pat_completeness auto
termination
proof (relation "measure unat")
  fix xid dest :: TransactionId
  assume "dest = xid - 1" "dest < FirstNormalTransactionId"
  then have "unat (xid - 1) < 3" by (simp add: FirstNormalTransactionId_def word_less_nat_alt)
  then have "xid \<noteq> 0" by (auto simp: unsigned_minus_1_eq_mask mask_eq_exp_minus_1)
  then have "unat (xid - 1) < unat xid" by (rule measure_unat)
  then show "(dest, xid) \<in> measure unat" using \<open>dest = xid - 1\<close> by simp
qed simp

declare TransactionIdRetreat.simps [simp del]

definition TransactionIdPrecedes :: "TransactionId \<Rightarrow> TransactionId \<Rightarrow> bool" where
  "TransactionIdPrecedes id1 id2 =
     (if \<not> TransactionIdIsNormal id1 \<or> \<not> TransactionIdIsNormal id2 then id1 < id2
      else sint (id1 - id2) < 0)"

definition TransactionIdPrecedesOrEquals :: "TransactionId \<Rightarrow> TransactionId \<Rightarrow> bool" where
  "TransactionIdPrecedesOrEquals id1 id2 =
     (if \<not> TransactionIdIsNormal id1 \<or> \<not> TransactionIdIsNormal id2 then id1 \<le> id2
      else sint (id1 - id2) \<le> 0)"

definition TransactionIdFollows :: "TransactionId \<Rightarrow> TransactionId \<Rightarrow> bool" where
  "TransactionIdFollows id1 id2 =
     (if \<not> TransactionIdIsNormal id1 \<or> \<not> TransactionIdIsNormal id2 then id1 > id2
      else sint (id1 - id2) > 0)"

definition TransactionIdFollowsOrEquals :: "TransactionId \<Rightarrow> TransactionId \<Rightarrow> bool" where
  "TransactionIdFollowsOrEquals id1 id2 =
     (if \<not> TransactionIdIsNormal id1 \<or> \<not> TransactionIdIsNormal id2 then id1 \<ge> id2
      else sint (id1 - id2) \<ge> 0)"

text \<open>The loop of \<^verbatim>\<open>TransactionIdLatest\<close> scans the array from its last element to its first.\<close>

definition TransactionIdLatest :: "TransactionId \<Rightarrow> TransactionId list \<Rightarrow> TransactionId" where
  "TransactionIdLatest mainxid xids =
     foldl (\<lambda>result x. if TransactionIdPrecedes result x then x else result) mainxid (rev xids)"

section \<open>Write-ahead log positions\<close>

record XLogRecPtr =
  xlogid :: uint32
  xrecoff :: uint32

definition InvalidXLogRecPtr :: XLogRecPtr where
  "InvalidXLogRecPtr = \<lparr>xlogid = 0, xrecoff = 0\<rparr>"

definition XLogRecPtrIsInvalid :: "XLogRecPtr \<Rightarrow> bool" where
  "XLogRecPtrIsInvalid r \<longleftrightarrow> xrecoff r = 0"

definition XLByteLT :: "XLogRecPtr \<Rightarrow> XLogRecPtr \<Rightarrow> bool" where
  "XLByteLT a b \<longleftrightarrow> xlogid a < xlogid b \<or> (xlogid a = xlogid b \<and> xrecoff a < xrecoff b)"

definition XLByteLE :: "XLogRecPtr \<Rightarrow> XLogRecPtr \<Rightarrow> bool" where
  "XLByteLE a b \<longleftrightarrow> xlogid a < xlogid b \<or> (xlogid a = xlogid b \<and> xrecoff a \<le> xrecoff b)"

section \<open>Circular order\<close>

text \<open>The distance of an identifier from a base, going forward around the circle.\<close>

definition xid_age :: "TransactionId \<Rightarrow> TransactionId \<Rightarrow> nat" where
  "xid_age base x = unat (x - base)"

lemma sint_word_of_int_32: "- (2 ^ 31) \<le> k \<Longrightarrow> k < 2 ^ 31 \<Longrightarrow> sint (word_of_int k :: 32 word) = k"
  by (simp only: sint_sbintrunc') (simp add: signed_take_bit_int_eq_self)

lemma sint_diff_window:
  assumes "xid_age base x < 2 ^ 31" "xid_age base y < 2 ^ 31"
  shows "sint (x - y) = int (xid_age base x) - int (xid_age base y)"
proof -
  have "x - y = (x - base) - (y - base)" by simp
  also have "\<dots> = word_of_int (uint (x - base) - uint (y - base))" by simp
  finally have "x - y = word_of_int (int (xid_age base x) - int (xid_age base y))"
    by (simp only: xid_age_def uint_nat)
  moreover have "sint (word_of_int (int (xid_age base x) - int (xid_age base y)) :: 32 word)
      = int (xid_age base x) - int (xid_age base y)"
    by (rule sint_word_of_int_32) (use assms in auto)
  ultimately show ?thesis by simp
qed

lemma xid_age_inj: "xid_age base x = xid_age base y \<Longrightarrow> x = y"
  unfolding xid_age_def by (drule word_unat_eq_iff [THEN iffD2]) simp

lemma precedes_normal_window:
  assumes "TransactionIdIsNormal x" "TransactionIdIsNormal y" "xid_age base x < 2 ^ 31" "xid_age base y < 2 ^ 31"
  shows "TransactionIdPrecedes x y \<longleftrightarrow> xid_age base x < xid_age base y"
    "TransactionIdPrecedesOrEquals x y \<longleftrightarrow> xid_age base x \<le> xid_age base y"
    "TransactionIdFollows x y \<longleftrightarrow> xid_age base y < xid_age base x"
    "TransactionIdFollowsOrEquals x y \<longleftrightarrow> xid_age base y \<le> xid_age base x"
  using assms sint_diff_window [OF assms(3,4)]
  by (simp_all add: TransactionIdPrecedes_def TransactionIdPrecedesOrEquals_def
      TransactionIdFollows_def TransactionIdFollowsOrEquals_def)

lemma unat_less_32: "unat (x :: 32 word) < 4294967296"
  by (rule order_less_le_trans [OF unsigned_less]) simp

lemma unat_plus_one_32: "unat (x :: 32 word) \<noteq> 0xFFFFFFFF \<Longrightarrow> unat (x + 1) = unat x + 1"
  using unat_less_32 [of x] by (simp add: unat_word_ariths)

lemma normal_ge_3: "TransactionIdIsNormal x \<longleftrightarrow> 3 \<le> unat x"
  by (simp add: TransactionIdIsNormal_def FirstNormalTransactionId_def word_le_nat_alt)

text \<open>Identifiers that lie within half the circle of a common base are linearly
  ordered by their distance from it: all four comparisons agree with that
  order, exactly one of precedes, equals, follows holds, and the order is
  transitive.  Permanent identifiers precede all normal ones.\<close>

theorem xid_comparison_linear_in_window:
  assumes "TransactionIdIsNormal x" "TransactionIdIsNormal y" "TransactionIdIsNormal z"
    and "xid_age base x < 2 ^ 31" "xid_age base y < 2 ^ 31" "xid_age base z < 2 ^ 31"
  shows "TransactionIdPrecedes x y = (xid_age base x < xid_age base y)
    \<and> TransactionIdPrecedesOrEquals x y = (TransactionIdPrecedes x y \<or> x = y)
    \<and> TransactionIdFollows x y = TransactionIdPrecedes y x
    \<and> TransactionIdFollowsOrEquals x y = (\<not> TransactionIdPrecedes x y)
    \<and> (TransactionIdPrecedes x y \<or> x = y \<or> TransactionIdPrecedes y x)
    \<and> \<not> (TransactionIdPrecedes x y \<and> TransactionIdPrecedes y x)
    \<and> (TransactionIdPrecedes x y \<longrightarrow> TransactionIdPrecedes y z \<longrightarrow> TransactionIdPrecedes x z)
    \<and> (\<forall>p. \<not> TransactionIdIsNormal p \<longrightarrow> TransactionIdPrecedes p x)"
proof -
  have "\<not> TransactionIdIsNormal p \<Longrightarrow> TransactionIdPrecedes p x" for p
    using assms(1) by (auto simp: TransactionIdPrecedes_def normal_ge_3 word_less_nat_alt)
  moreover note precedes_normal_window [OF assms(1,2,4,5)] precedes_normal_window(1) [OF assms(2,1,5,4)]
    precedes_normal_window(1) [OF assms(2,3,5,6)] precedes_normal_window(1) [OF assms(1,3,4,6)]
  moreover have "xid_age base x = xid_age base y \<longleftrightarrow> x = y" using xid_age_inj by blast
  ultimately show ?thesis by (simp add: le_less not_less) (metis linorder_neqE_nat)
qed

theorem xid_comparison_linear_in_window_witness:
  "TransactionIdPrecedes 4294967290 5 \<and> \<not> TransactionIdPrecedes 5 4294967290"
  using xid_comparison_linear_in_window [of 4294967290 5 5 4294967290]
  by (simp add: TransactionIdIsNormal_def FirstNormalTransactionId_def xid_age_def)

lemma TransactionIdAdvance_age:
  "TransactionIdIsNormal x \<Longrightarrow> TransactionIdAdvance x = (if x = MaxTransactionId then 3 else x + 1)"
proof -
  assume n: "TransactionIdIsNormal x"
  show ?thesis
  proof (cases "x = MaxTransactionId")
    case True
    then show ?thesis by (simp add: TransactionIdAdvance_def MaxTransactionId_def FirstNormalTransactionId_def)
  next
    case False
    then have "unat x \<noteq> 0xFFFFFFFF" by (simp add: MaxTransactionId_def word_unat_eq_iff)
    then have "unat (x + 1) = unat x + 1" by (rule unat_plus_one_32)
    then have "3 \<le> x + 1" using n by (simp add: normal_ge_3 word_le_nat_alt)
    then show ?thesis using False by (simp add: TransactionIdAdvance_def FirstNormalTransactionId_def Let_def not_less [symmetric])
  qed
qed

lemma TransactionIdRetreat_normal:
  assumes "TransactionIdIsNormal x"
  shows "TransactionIdRetreat x = (if x = 3 then MaxTransactionId else x - 1)"
proof (cases "x = 3")
  case True
  then show ?thesis
    by (simp add: TransactionIdRetreat.simps FirstNormalTransactionId_def MaxTransactionId_def Let_def)
next
  case False
  then have "unat x \<noteq> 3" by (simp add: word_unat_eq_iff)
  moreover have "x \<noteq> 0" using assms by (auto simp: normal_ge_3)
  ultimately have "3 \<le> x - 1" using assms by (simp add: normal_ge_3 word_le_nat_alt unat_minus_one)
  then show ?thesis using False
    by (subst TransactionIdRetreat.simps) (simp add: FirstNormalTransactionId_def Let_def not_less [symmetric])
qed

text \<open>Advancing and retreating an identifier skip the permanent ones at
  wrap-around, undo each other on normal identifiers, and move strictly
  forward and backward in the circular order; the retreat loop ends.\<close>

theorem xid_advance_retreat:
  assumes "TransactionIdIsNormal x"
  shows "TransactionIdIsNormal (TransactionIdAdvance x) \<and> TransactionIdIsNormal (TransactionIdRetreat x)
    \<and> TransactionIdRetreat (TransactionIdAdvance x) = x \<and> TransactionIdAdvance (TransactionIdRetreat x) = x
    \<and> TransactionIdPrecedes x (TransactionIdAdvance x) \<and> TransactionIdPrecedes (TransactionIdRetreat x) x"
proof -
  have normal: "TransactionIdIsNormal (TransactionIdAdvance x)" "TransactionIdIsNormal (TransactionIdRetreat x)"
  proof -
    show "TransactionIdIsNormal (TransactionIdAdvance x)"
      by (simp add: TransactionIdAdvance_def TransactionIdIsNormal_def Let_def not_less)
    have "unat x = 3 \<or> 3 \<le> unat x - 1" using assms by (auto simp: normal_ge_3)
    moreover have "x \<noteq> 0" using assms by (auto simp: normal_ge_3)
    ultimately show "TransactionIdIsNormal (TransactionIdRetreat x)"
      using assms
      by (auto simp: TransactionIdRetreat_normal normal_ge_3 MaxTransactionId_def unat_minus_one word_unat_eq_iff)
  qed
  have inv: "TransactionIdRetreat (TransactionIdAdvance x) = x" "TransactionIdAdvance (TransactionIdRetreat x) = x"
  proof -
    have "x \<noteq> MaxTransactionId \<Longrightarrow> x + 1 \<noteq> 3"
    proof
      assume "x + 1 = 3"
      then have "x = 2" by (metis add_diff_cancel_right' diff_numeral_special(9) numeral_3_eq_3 one_add_one add_diff_cancel numeral_plus_one semiring_norm(5))
      then show False using assms by (simp add: normal_ge_3)
    qed
    then show "TransactionIdRetreat (TransactionIdAdvance x) = x"
      using TransactionIdRetreat_normal [OF normal(1)] assms by (auto simp: TransactionIdAdvance_age)
    have "x \<noteq> 3 \<Longrightarrow> x - 1 \<noteq> MaxTransactionId"
    proof
      assume "x - 1 = MaxTransactionId"
      then have "x = 0" by (simp add: MaxTransactionId_def eq_diff_eq [symmetric] diff_eq_eq)
      then show False using assms by (simp add: normal_ge_3)
    qed
    then show "TransactionIdAdvance (TransactionIdRetreat x) = x"
      using TransactionIdAdvance_age [OF normal(2)] assms by (auto simp: TransactionIdRetreat_normal)
  qed
  have "TransactionIdPrecedes x (TransactionIdAdvance x)" if "TransactionIdIsNormal x" for x
  proof -
    have "xid_age x x = 0" by (simp add: xid_age_def)
    moreover have "xid_age x (TransactionIdAdvance x) = (if x = MaxTransactionId then 4 else 1)"
      using that by (simp add: TransactionIdAdvance_age xid_age_def MaxTransactionId_def)
    moreover have "TransactionIdIsNormal (TransactionIdAdvance x)"
      by (simp add: TransactionIdAdvance_def TransactionIdIsNormal_def Let_def not_less)
    ultimately show ?thesis using precedes_normal_window(1) [OF that, of "TransactionIdAdvance x" x] by simp
  qed
  from this [OF assms] this [OF normal(2)] show ?thesis using normal inv by simp
qed

theorem xid_advance_retreat_witness:
  "TransactionIdAdvance (TransactionIdRetreat 3) = 3 \<and> TransactionIdRetreat 3 = 4294967295"
  using xid_advance_retreat [of 3]
  by (simp add: TransactionIdRetreat_normal TransactionIdIsNormal_def FirstNormalTransactionId_def MaxTransactionId_def)

lemma latest_foldl:
  assumes "\<forall>y \<in> insert m (set ys). TransactionIdIsNormal y \<and> xid_age base y < 2 ^ 31"
  defines "r \<equiv> foldl (\<lambda>result x. if TransactionIdPrecedes result x then x else result) m ys"
  shows "r \<in> insert m (set ys) \<and> (\<forall>y \<in> insert m (set ys). xid_age base y \<le> xid_age base r)"
  using assms(1) unfolding r_def
proof (induction ys arbitrary: m)
  case (Cons y ys)
  define m' where "m' = (if TransactionIdPrecedes m y then y else m)"
  have p: "TransactionIdPrecedes m y \<longleftrightarrow> xid_age base m < xid_age base y"
    using precedes_normal_window(1) Cons.prems by simp
  have "m' \<in> {m, y}" "xid_age base m \<le> xid_age base m'" "xid_age base y \<le> xid_age base m'"
    using p by (auto simp: m'_def)
  moreover have "foldl (\<lambda>result x. if TransactionIdPrecedes result x then x else result) m' ys \<in> insert m' (set ys)
     \<and> (\<forall>z \<in> insert m' (set ys). xid_age base z
          \<le> xid_age base (foldl (\<lambda>result x. if TransactionIdPrecedes result x then x else result) m' ys))"
    by (rule Cons.IH) (use Cons.prems \<open>m' \<in> {m, y}\<close> in auto)
  ultimately show ?case by (auto simp flip: m'_def intro: order_trans)
qed simp

text \<open>The latest identifier among a transaction and its children, all within half
  the circle of a common base, is one of them and none of them follows it.\<close>

theorem TransactionIdLatest_correct:
  assumes "\<forall>y \<in> set (mainxid # xids). TransactionIdIsNormal y \<and> xid_age base y < 2 ^ 31"
  shows "TransactionIdLatest mainxid xids \<in> set (mainxid # xids)
    \<and> (\<forall>y \<in> set (mainxid # xids). \<not> TransactionIdFollows y (TransactionIdLatest mainxid xids))"
proof -
  have r: "TransactionIdLatest mainxid xids \<in> insert mainxid (set (rev xids))"
    "\<forall>y \<in> insert mainxid (set (rev xids)). xid_age base y \<le> xid_age base (TransactionIdLatest mainxid xids)"
    using latest_foldl [of mainxid "rev xids" base] assms unfolding TransactionIdLatest_def by simp_all
  moreover have "\<not> TransactionIdFollows y (TransactionIdLatest mainxid xids)" if "y \<in> set (mainxid # xids)" for y
    using precedes_normal_window(3) [of y "TransactionIdLatest mainxid xids" base] that r assms by auto
  ultimately show ?thesis by auto
qed

theorem TransactionIdLatest_correct_witness:
  "TransactionIdLatest 4294967290 [4294967293, 7, 4294967295] = 7"
proof -
  have n: "\<forall>y \<in> set (4294967290 # [4294967293, 7, 4294967295]). TransactionIdIsNormal y \<and> xid_age 4294967290 y < 2 ^ 31"
    by (simp add: TransactionIdIsNormal_def FirstNormalTransactionId_def xid_age_def)
  have "TransactionIdFollows 7 y" if "y \<in> {4294967290, 4294967293, 4294967295}" for y
    using that by (auto simp: TransactionIdFollows_def TransactionIdIsNormal_def FirstNormalTransactionId_def)
  then show ?thesis using TransactionIdLatest_correct [OF n] by auto
qed

end
