(* ===== verification/Clog.thy ===== *)
theory Clog
  imports Transam
begin

text \<open>
  The commit log (\<^verbatim>\<open>access/transam/clog.c\<close>): two status bits per transaction,
  packed four to a byte in pages of a simple LRU store.

  The LRU buffers are transparent: the state maps page numbers to the bytes of
  the page, wherever they currently are, and to the group LSNs kept for it.
  Each call of \<^verbatim>\<open>TransactionIdSetPageStatus\<close> runs under the exclusive control
  lock, so other backends see the states between such calls and no others.
  An array argument of C with its length is a function and a number: the source
  also looks one element past the end.
\<close>

unbundle bit_operations_syntax

section \<open>Layout\<close>

datatype XidStatus =
    TRANSACTION_STATUS_IN_PROGRESS
  | TRANSACTION_STATUS_COMMITTED
  | TRANSACTION_STATUS_ABORTED
  | TRANSACTION_STATUS_SUB_COMMITTED

fun XidStatus_code :: "XidStatus \<Rightarrow> uint8" where
  "XidStatus_code TRANSACTION_STATUS_IN_PROGRESS = 0x00"
| "XidStatus_code TRANSACTION_STATUS_COMMITTED = 0x01"
| "XidStatus_code TRANSACTION_STATUS_ABORTED = 0x02"
| "XidStatus_code TRANSACTION_STATUS_SUB_COMMITTED = 0x03"

definition XidStatus_of :: "uint8 \<Rightarrow> XidStatus" where
  "XidStatus_of c =
     (if c = 0x00 then TRANSACTION_STATUS_IN_PROGRESS
      else if c = 0x01 then TRANSACTION_STATUS_COMMITTED
      else if c = 0x02 then TRANSACTION_STATUS_ABORTED
      else TRANSACTION_STATUS_SUB_COMMITTED)"

definition CLOG_BITS_PER_XACT :: nat where
  "CLOG_BITS_PER_XACT = 2"

definition CLOG_XACTS_PER_BYTE :: nat where
  "CLOG_XACTS_PER_BYTE = 4"

definition CLOG_XACTS_PER_PAGE :: nat where
  "CLOG_XACTS_PER_PAGE = BLCKSZ * CLOG_XACTS_PER_BYTE"

definition CLOG_XACT_BITMASK :: uint8 where
  "CLOG_XACT_BITMASK = push_bit CLOG_BITS_PER_XACT 1 - 1"

definition TransactionIdToPage :: "TransactionId \<Rightarrow> nat" where
  "TransactionIdToPage xid = unat xid div CLOG_XACTS_PER_PAGE"

definition TransactionIdToPgIndex :: "TransactionId \<Rightarrow> nat" where
  "TransactionIdToPgIndex xid = unat xid mod CLOG_XACTS_PER_PAGE"

definition TransactionIdToByte :: "TransactionId \<Rightarrow> nat" where
  "TransactionIdToByte xid = TransactionIdToPgIndex xid div CLOG_XACTS_PER_BYTE"

definition TransactionIdToBIndex :: "TransactionId \<Rightarrow> nat" where
  "TransactionIdToBIndex xid = unat xid mod CLOG_XACTS_PER_BYTE"

definition CLOG_XACTS_PER_LSN_GROUP :: nat where
  "CLOG_XACTS_PER_LSN_GROUP = 32"

definition GetLSNIndex :: "TransactionId \<Rightarrow> nat" where
  "GetLSNIndex xid = unat xid mod CLOG_XACTS_PER_PAGE div CLOG_XACTS_PER_LSN_GROUP"

record ClogData =
  page_buffer :: "nat \<Rightarrow> uint8 list"
  group_lsn :: "nat \<Rightarrow> nat \<Rightarrow> XLogRecPtr"
  latest_page_number :: nat

section \<open>Operations\<close>

text \<open>The page a call works on stands for the buffer slot that holds it.\<close>

definition TransactionIdSetStatusBit ::
    "bool \<Rightarrow> TransactionId \<Rightarrow> XidStatus \<Rightarrow> XLogRecPtr \<Rightarrow> nat \<Rightarrow> ClogData \<Rightarrow> ClogData" where
  "TransactionIdSetStatusBit InRecovery xid status lsn pageno clog =
     (let byteno = TransactionIdToByte xid;
          bshift = TransactionIdToBIndex xid * CLOG_BITS_PER_XACT;
          page = page_buffer clog pageno;
          curval = drop_bit bshift (page ! byteno) AND CLOG_XACT_BITMASK
      in if InRecovery \<and> status = TRANSACTION_STATUS_SUB_COMMITTED
            \<and> curval = XidStatus_code TRANSACTION_STATUS_COMMITTED
         then clog
         else let byteval = page ! byteno AND NOT (push_bit bshift CLOG_XACT_BITMASK);
                  byteval = byteval OR push_bit bshift (XidStatus_code status);
                  clog1 = clog\<lparr>page_buffer := (page_buffer clog)(pageno := page[byteno := byteval])\<rparr>
              in if \<not> XLogRecPtrIsInvalid lsn then
                   let lsnindex = GetLSNIndex xid in
                   if XLByteLT (group_lsn clog1 pageno lsnindex) lsn
                   then clog1\<lparr>group_lsn := (group_lsn clog1)
                                (pageno := (group_lsn clog1 pageno)(lsnindex := lsn))\<rparr>
                   else clog1
                 else clog1)"

definition TransactionIdGetStatus :: "ClogData \<Rightarrow> TransactionId \<Rightarrow> XidStatus \<times> XLogRecPtr" where
  "TransactionIdGetStatus clog xid =
     (let pageno = TransactionIdToPage xid;
          byteno = TransactionIdToByte xid;
          bshift = TransactionIdToBIndex xid * CLOG_BITS_PER_XACT;
          status = drop_bit bshift (page_buffer clog pageno ! byteno) AND CLOG_XACT_BITMASK
      in (XidStatus_of status, group_lsn clog pageno (GetLSNIndex xid)))"

definition TransactionIdSetPageStatus ::
    "bool \<Rightarrow> TransactionId \<Rightarrow> TransactionId list \<Rightarrow> XidStatus \<Rightarrow> XLogRecPtr \<Rightarrow> nat \<Rightarrow> ClogData \<Rightarrow> ClogData" where
  "TransactionIdSetPageStatus InRecovery xid subxids status lsn pageno clog =
     (let clog1 =
            (if TransactionIdIsValid xid then
               let clog0 =
                     (if status = TRANSACTION_STATUS_COMMITTED
                      then fold (\<lambda>x. TransactionIdSetStatusBit InRecovery x
                                        TRANSACTION_STATUS_SUB_COMMITTED lsn pageno) subxids clog
                      else clog)
               in TransactionIdSetStatusBit InRecovery xid status lsn pageno clog0
             else clog)
      in fold (\<lambda>x. TransactionIdSetStatusBit InRecovery x status lsn pageno) subxids clog1)"

text \<open>
  What \<^verbatim>\<open>TransactionIdSetTreeStatus\<close> does is a sequence of calls of
  \<^verbatim>\<open>TransactionIdSetPageStatus\<close>; the sequence is kept explicit, because other
  backends may look at the log between two of them.
\<close>

record PageStatusCall =
  call_xid :: TransactionId
  call_subxids :: "TransactionId list"
  call_status :: XidStatus
  call_pageno :: nat

text \<open>The inner loop of \<^verbatim>\<open>set_status_by_pages\<close>: the end of the run of entries on one page.\<close>

function same_page_run :: "nat \<Rightarrow> (nat \<Rightarrow> TransactionId) \<Rightarrow> nat \<Rightarrow> nat \<Rightarrow> nat" where
  "same_page_run nsubxids subxids pageno i =
     (if TransactionIdToPage (subxids i) = pageno \<and> i < nsubxids
      then same_page_run nsubxids subxids pageno (i + 1) else i)"
  by pat_completeness auto
termination
  by (relation "measure (\<lambda>(n, _, _, i). n - i)") auto

declare same_page_run.simps [simp del]

lemma same_page_run_ge: "i \<le> same_page_run n subxids pageno i"
proof (induction n subxids pageno i rule: same_page_run.induct)
  case (1 n subxids pageno i)
  then show ?case by (subst same_page_run.simps) auto
qed

lemma same_page_run_step:
  "i < n \<Longrightarrow> TransactionIdToPage (subxids i) = pageno \<Longrightarrow> i < same_page_run n subxids pageno i"
  using same_page_run_ge [of "i + 1" n subxids pageno] by (subst same_page_run.simps) simp

function set_status_by_pages_from ::
    "nat \<Rightarrow> (nat \<Rightarrow> TransactionId) \<Rightarrow> XidStatus \<Rightarrow> nat \<Rightarrow> PageStatusCall list" where
  "set_status_by_pages_from nsubxids subxids status offset =
     (if offset < nsubxids then
        let pageno = TransactionIdToPage (subxids offset);
            i = same_page_run nsubxids subxids pageno offset
        in \<lparr>call_xid = InvalidTransactionId, call_subxids = map subxids [offset..<i],
            call_status = status, call_pageno = pageno\<rparr>
           # set_status_by_pages_from nsubxids subxids status i
      else [])"
  by pat_completeness auto
termination
  by (relation "measure (\<lambda>(n, _, _, i). n - i)")
    (auto intro: diff_less_mono2 same_page_run_step)

declare set_status_by_pages_from.simps [simp del]

definition set_status_by_pages :: "nat \<Rightarrow> (nat \<Rightarrow> TransactionId) \<Rightarrow> XidStatus \<Rightarrow> PageStatusCall list" where
  "set_status_by_pages nsubxids subxids status = set_status_by_pages_from nsubxids subxids status 0"

definition set_tree_status_calls ::
    "TransactionId \<Rightarrow> nat \<Rightarrow> (nat \<Rightarrow> TransactionId) \<Rightarrow> XidStatus \<Rightarrow> PageStatusCall list" where
  "set_tree_status_calls xid nsubxids subxids status =
     (let pageno = TransactionIdToPage xid;
          i = same_page_run nsubxids subxids pageno 0
      in if i = nsubxids
         then [\<lparr>call_xid = xid, call_subxids = map subxids [0..<nsubxids],
                call_status = status, call_pageno = pageno\<rparr>]
         else (if status = TRANSACTION_STATUS_COMMITTED
               then set_status_by_pages (nsubxids - i) (\<lambda>j. subxids (i + j)) TRANSACTION_STATUS_SUB_COMMITTED
               else [])
              @ [\<lparr>call_xid = xid, call_subxids = map subxids [0..<i],
                  call_status = status, call_pageno = pageno\<rparr>]
              @ set_status_by_pages (nsubxids - i) (\<lambda>j. subxids (i + j)) status)"

definition run_call :: "bool \<Rightarrow> XLogRecPtr \<Rightarrow> PageStatusCall \<Rightarrow> ClogData \<Rightarrow> ClogData" where
  "run_call InRecovery lsn c =
     TransactionIdSetPageStatus InRecovery (call_xid c) (call_subxids c) (call_status c) lsn (call_pageno c)"

definition TransactionIdSetTreeStatus ::
    "bool \<Rightarrow> TransactionId \<Rightarrow> nat \<Rightarrow> (nat \<Rightarrow> TransactionId) \<Rightarrow> XidStatus \<Rightarrow> XLogRecPtr \<Rightarrow> ClogData \<Rightarrow> ClogData" where
  "TransactionIdSetTreeStatus InRecovery xid nsubxids subxids status lsn =
     fold (run_call InRecovery lsn) (set_tree_status_calls xid nsubxids subxids status)"

text \<open>Pages are zeroed when first used; a zeroed page has no group LSNs.\<close>

definition ZeroCLOGPage :: "nat \<Rightarrow> ClogData \<Rightarrow> ClogData" where
  "ZeroCLOGPage pageno clog =
     clog\<lparr>page_buffer := (page_buffer clog)(pageno := replicate BLCKSZ 0),
          group_lsn := (group_lsn clog)(pageno := (\<lambda>_. InvalidXLogRecPtr)),
          latest_page_number := pageno\<rparr>"

definition ExtendCLOG :: "TransactionId \<Rightarrow> ClogData \<Rightarrow> ClogData" where
  "ExtendCLOG newestXact clog =
     (if TransactionIdToPgIndex newestXact \<noteq> 0 \<and> newestXact \<noteq> FirstNormalTransactionId then clog
      else ZeroCLOGPage (TransactionIdToPage newestXact) clog)"

definition StartupCLOG :: "TransactionId \<Rightarrow> ClogData \<Rightarrow> ClogData" where
  "StartupCLOG nextXid clog = clog\<lparr>latest_page_number := TransactionIdToPage nextXid\<rparr>"

definition TrimCLOG :: "TransactionId \<Rightarrow> ClogData \<Rightarrow> ClogData" where
  "TrimCLOG nextXid clog =
     (let pageno = TransactionIdToPage nextXid;
          clog1 = clog\<lparr>latest_page_number := pageno\<rparr>
      in if TransactionIdToPgIndex nextXid \<noteq> 0 then
           let byteno = TransactionIdToByte nextXid;
               bshift = TransactionIdToBIndex nextXid * CLOG_BITS_PER_XACT;
               page = page_buffer clog1 pageno;
               page1 = page[byteno := page ! byteno AND (push_bit bshift 1 - 1)];
               page2 = for_update (byteno + 1) BLCKSZ (\<lambda>_ _. 0) page1
           in clog1\<lparr>page_buffer := (page_buffer clog1)(pageno := page2)\<rparr>
         else clog1)"

definition CLOGPagePrecedes :: "nat \<Rightarrow> nat \<Rightarrow> bool" where
  "CLOGPagePrecedes page1 page2 =
     (let xid1 = of_nat page1 * of_nat CLOG_XACTS_PER_PAGE;
          xid1 = xid1 + FirstNormalTransactionId;
          xid2 = of_nat page2 * of_nat CLOG_XACTS_PER_PAGE;
          xid2 = xid2 + FirstNormalTransactionId
      in TransactionIdPrecedes xid1 xid2)"

section \<open>The log as a function from identifiers to statuses\<close>

definition clog_wf :: "ClogData \<Rightarrow> bool" where
  "clog_wf clog \<longleftrightarrow> (\<forall>p. length (page_buffer clog p) = BLCKSZ)"

definition clog_status :: "ClogData \<Rightarrow> TransactionId \<Rightarrow> XidStatus" where
  "clog_status clog xid = fst (TransactionIdGetStatus clog xid)"

lemma CLOG_XACT_BITMASK_eq: "CLOG_XACT_BITMASK = mask 2"
  by (simp add: CLOG_XACT_BITMASK_def CLOG_BITS_PER_XACT_def mask_eq_exp_minus_1)

lemma CLOG_XACTS_PER_PAGE_eq: "CLOG_XACTS_PER_PAGE = 32768"
  by (simp add: CLOG_XACTS_PER_PAGE_def BLCKSZ_def CLOG_XACTS_PER_BYTE_def)

lemmas clog_consts = CLOG_XACT_BITMASK_eq CLOG_XACTS_PER_PAGE_eq CLOG_XACTS_PER_BYTE_def CLOG_BITS_PER_XACT_def

text \<open>A two-bit field of a byte, read and written.\<close>

definition get_field :: "nat \<Rightarrow> uint8 \<Rightarrow> uint8" where
  "get_field b w = drop_bit (b * 2) w AND mask 2"

definition put_field :: "nat \<Rightarrow> uint8 \<Rightarrow> uint8 \<Rightarrow> uint8" where
  "put_field b c w = (w AND NOT (push_bit (b * 2) (mask 2))) OR push_bit (b * 2) c"

lemma bit_get_field: "bit (get_field b w) n \<longleftrightarrow> n < 2 \<and> bit w (b * 2 + n)"
  by (auto simp: get_field_def bit_and_iff bit_drop_bit_eq bit_mask_iff add.commute)

lemma get_put_field_same:
  assumes "b < 4" "c AND mask 2 = c"
  shows "get_field b (put_field b c w) = c"
proof (rule bit_word_eqI)
  fix n assume "n < LENGTH(8)"
  have "bit c n \<Longrightarrow> n < 2" using assms(2) by (metis bit_and_iff bit_mask_iff)
  then show "bit (get_field b (put_field b c w)) n = bit c n"
    using assms(1)
    by (auto simp: bit_get_field put_field_def bit_or_iff bit_and_iff bit_not_iff bit_push_bit_iff bit_mask_iff
        possible_bit_word)
qed

lemma get_put_field_other:
  assumes "b < 4" "b' < 4" "b \<noteq> b'" "c AND mask 2 = c"
  shows "get_field b' (put_field b c w) = get_field b' w"
proof (rule bit_word_eqI)
  fix n assume "n < LENGTH(8)"
  have c: "bit c n \<Longrightarrow> n < 2" for n using assms(4) by (metis bit_and_iff bit_mask_iff)
  have "\<not> (b * 2 \<le> b' * 2 + n \<and> b' * 2 + n - b * 2 < 2)" if "n < 2" using assms(3) that by presburger
  then show "bit (get_field b' (put_field b c w)) n = bit (get_field b' w) n"
    using assms(1,2) c
    by (auto simp: bit_get_field put_field_def bit_or_iff bit_and_iff bit_not_iff bit_push_bit_iff bit_mask_iff
        possible_bit_word dest: c)
qed

lemma XidStatus_code_field: "XidStatus_code s AND mask 2 = XidStatus_code s"
  by (cases s) (simp_all add: mask_eq_exp_minus_1)

lemma XidStatus_of_code [simp]: "XidStatus_of (XidStatus_code s) = s"
  by (cases s) (simp_all add: XidStatus_of_def)

lemma XidStatus_of_0 [simp]: "XidStatus_of 0 = TRANSACTION_STATUS_IN_PROGRESS"
  by (simp add: XidStatus_of_def)

lemma clog_status_field:
  "clog_status clog xid
   = XidStatus_of (get_field (TransactionIdToBIndex xid) (page_buffer clog (TransactionIdToPage xid) ! TransactionIdToByte xid))"
  by (simp add: clog_status_def TransactionIdGetStatus_def get_field_def clog_consts Let_def)

lemma xid_position: "unat z = TransactionIdToPage z * 32768 + TransactionIdToByte z * 4 + TransactionIdToBIndex z"
proof -
  have "unat z mod 32768 mod 4 = unat z mod 4" by (simp add: mod_mod_cancel)
  moreover have "unat z = unat z div 32768 * 32768 + unat z mod 32768" by simp
  moreover have "unat z mod 32768 = unat z mod 32768 div 4 * 4 + unat z mod 32768 mod 4"
    by (simp only: div_mult_mod_eq)
  ultimately show ?thesis
    unfolding TransactionIdToPage_def TransactionIdToByte_def TransactionIdToBIndex_def TransactionIdToPgIndex_def clog_consts
    by linarith
qed

lemma xid_position_inj:
  assumes "TransactionIdToPage x = TransactionIdToPage y" "TransactionIdToByte x = TransactionIdToByte y"
    "TransactionIdToBIndex x = TransactionIdToBIndex y"
  shows "x = y"
  using xid_position [of x] xid_position [of y] assms by (simp only: word_unat_eq_iff)

lemma byte_less: "TransactionIdToByte x < BLCKSZ"
proof -
  have "unat x mod 32768 < 32768" by simp
  then show ?thesis unfolding TransactionIdToByte_def TransactionIdToPgIndex_def clog_consts BLCKSZ_def by linarith
qed

lemma bindex_less: "TransactionIdToBIndex x < 4"
  by (simp add: TransactionIdToBIndex_def clog_consts)

text \<open>What setting one status does, and when it does nothing.\<close>

definition skips_subcommit :: "bool \<Rightarrow> XidStatus \<Rightarrow> XidStatus \<Rightarrow> bool" where
  "skips_subcommit InRecovery status cur \<longleftrightarrow>
     InRecovery \<and> status = TRANSACTION_STATUS_SUB_COMMITTED \<and> cur = TRANSACTION_STATUS_COMMITTED"

lemma get_field_cases: "get_field b w \<in> {0, 1, 2, 3}"
proof -
  have "get_field b w = take_bit 2 (drop_bit (b * 2) w)" by (simp add: get_field_def take_bit_eq_mask)
  then have "unat (get_field b w) = take_bit 2 (unat (drop_bit (b * 2) w))" by (simp only: unsigned_take_bit_eq)
  then have "unat (get_field b w) < 4" using take_bit_nat_less_exp [of 2 "unat (drop_bit (b * 2) w)"] by simp
  then have "unat (get_field b w) \<in> {0, 1, 2, 3}" by auto
  then show ?thesis by (auto simp: word_unat_eq_iff)
qed

lemma status_committed_code:
  "get_field b w = XidStatus_code TRANSACTION_STATUS_COMMITTED \<longleftrightarrow> XidStatus_of (get_field b w) = TRANSACTION_STATUS_COMMITTED"
  using get_field_cases [of b w] by (auto simp: XidStatus_of_def)

lemma SetStatusBit_pages:
  assumes "TransactionIdToPage xid = pageno"
  shows "page_buffer (TransactionIdSetStatusBit rec xid status lsn pageno clog) =
    (if skips_subcommit rec status (clog_status clog xid) then page_buffer clog
     else (page_buffer clog)(pageno := (page_buffer clog pageno)
       [TransactionIdToByte xid := put_field (TransactionIdToBIndex xid) (XidStatus_code status)
          (page_buffer clog pageno ! TransactionIdToByte xid)]))"
  using assms status_committed_code [of "TransactionIdToBIndex xid" "page_buffer clog pageno ! TransactionIdToByte xid"]
  unfolding TransactionIdSetStatusBit_def skips_subcommit_def clog_status_field get_field_def put_field_def
  by (simp add: clog_consts Let_def)

lemma SetStatusBit_wf:
  assumes "clog_wf clog" "TransactionIdToPage xid = pageno"
  shows "clog_wf (TransactionIdSetStatusBit rec xid status lsn pageno clog)"
  using assms by (simp add: clog_wf_def SetStatusBit_pages)

lemma SetStatusBit_status:
  assumes wf: "clog_wf clog" and pg: "TransactionIdToPage xid = pageno"
  shows "clog_status (TransactionIdSetStatusBit rec xid status lsn pageno clog)
    = (if skips_subcommit rec status (clog_status clog xid) then clog_status clog
       else (clog_status clog)(xid := status))"
proof (cases "skips_subcommit rec status (clog_status clog xid)")
  case True
  then show ?thesis using SetStatusBit_pages [OF pg, of rec status lsn clog] by (auto simp: clog_status_field)
next
  case False
  have len: "length (page_buffer clog p) = BLCKSZ" for p using wf by (simp add: clog_wf_def)
  show ?thesis
  proof
    fix y
    let ?new = "page_buffer (TransactionIdSetStatusBit rec xid status lsn pageno clog)"
    note new = SetStatusBit_pages [OF pg, of rec status lsn clog]
    have "clog_status (TransactionIdSetStatusBit rec xid status lsn pageno clog) y = ((clog_status clog)(xid := status)) y"
    proof (cases "TransactionIdToPage y = pageno \<and> TransactionIdToByte y = TransactionIdToByte xid")
      case True
      show ?thesis
      proof (cases "TransactionIdToBIndex y = TransactionIdToBIndex xid")
        case same: True
        then have "y = xid" using True pg by (intro xid_position_inj) simp_all
        then show ?thesis using new False pg len byte_less bindex_less
          by (simp add: clog_status_field get_put_field_same XidStatus_code_field)
      next
        case diff: False
        then have "y \<noteq> xid" by auto
        then show ?thesis using True diff new False pg len byte_less
          get_put_field_other [OF bindex_less bindex_less diff [symmetric] XidStatus_code_field]
          by (simp add: clog_status_field)
      qed
    next
      case other: False
      then have "y \<noteq> xid" using pg by auto
      moreover have "?new (TransactionIdToPage y) ! TransactionIdToByte y = page_buffer clog (TransactionIdToPage y) ! TransactionIdToByte y"
        using new False other by (auto simp: nth_list_update)
      ultimately show ?thesis by (simp add: clog_status_field)
    qed
    then show "clog_status (TransactionIdSetStatusBit rec xid status lsn pageno clog) y
        = (if skips_subcommit rec status (clog_status clog xid) then clog_status clog
           else (clog_status clog)(xid := status)) y" using False by simp
  qed
qed

text \<open>Setting a list of statuses on one page.\<close>

lemma SetStatusBit_fold:
  assumes "clog_wf clog" "\<forall>x \<in> set xs. TransactionIdToPage x = pageno"
  shows "clog_wf (fold (\<lambda>x. TransactionIdSetStatusBit rec x st lsn pageno) xs clog)
    \<and> clog_status (fold (\<lambda>x. TransactionIdSetStatusBit rec x st lsn pageno) xs clog)
      = (\<lambda>y. if y \<in> set xs \<and> \<not> skips_subcommit rec st (clog_status clog y) then st else clog_status clog y)"
  using assms
proof (induction xs arbitrary: clog)
  case (Cons x xs)
  let ?c = "TransactionIdSetStatusBit rec x st lsn pageno clog"
  have c: "clog_wf ?c" "clog_status ?c = (if skips_subcommit rec st (clog_status clog x) then clog_status clog
       else (clog_status clog)(x := st))"
    using SetStatusBit_wf SetStatusBit_status Cons.prems by simp_all
  then show ?case using Cons.IH [OF c(1)] Cons.prems by (auto simp: fun_eq_iff skips_subcommit_def)
qed simp

text \<open>
  One call of \<^verbatim>\<open>TransactionIdSetPageStatus\<close> gives the main transaction, if there
  is one, and the listed subtransactions the status at once.
\<close>

definition set_statuses :: "bool \<Rightarrow> TransactionId set \<Rightarrow> XidStatus \<Rightarrow> (TransactionId \<Rightarrow> XidStatus) \<Rightarrow> TransactionId \<Rightarrow> XidStatus" where
  "set_statuses rec X st f = (\<lambda>y. if y \<in> X \<and> \<not> skips_subcommit rec st (f y) then st else f y)"

lemma SetPageStatus_status:
  assumes wf: "clog_wf clog" and sub: "\<forall>x \<in> set subxids. TransactionIdToPage x = pageno"
    and xid: "TransactionIdIsValid xid \<Longrightarrow> TransactionIdToPage xid = pageno \<and> st \<noteq> TRANSACTION_STATUS_SUB_COMMITTED"
  shows "clog_wf (TransactionIdSetPageStatus rec xid subxids st lsn pageno clog)
    \<and> clog_status (TransactionIdSetPageStatus rec xid subxids st lsn pageno clog)
      = set_statuses rec (set subxids \<union> (if TransactionIdIsValid xid then {xid} else {})) st (clog_status clog)"
proof (cases "TransactionIdIsValid xid")
  case False
  then show ?thesis using SetStatusBit_fold [OF wf sub]
    by (simp add: TransactionIdSetPageStatus_def set_statuses_def)
next
  case True
  note x = xid [OF True]
  define clog0 where "clog0 = (if st = TRANSACTION_STATUS_COMMITTED
      then fold (\<lambda>x. TransactionIdSetStatusBit rec x TRANSACTION_STATUS_SUB_COMMITTED lsn pageno) subxids clog else clog)"
  have c0: "clog_wf clog0" "\<And>y. y \<notin> set subxids \<Longrightarrow> clog_status clog0 y = clog_status clog y"
    using SetStatusBit_fold [OF wf sub, of rec TRANSACTION_STATUS_SUB_COMMITTED lsn] wf by (auto simp: clog0_def)
  let ?c1 = "TransactionIdSetStatusBit rec xid st lsn pageno clog0"
  have no: "\<not> skips_subcommit rec st c" for c using x by (simp add: skips_subcommit_def)
  have c1: "clog_wf ?c1" "clog_status ?c1 = (clog_status clog0)(xid := st)"
    using SetStatusBit_wf [OF c0(1)] SetStatusBit_status [OF c0(1)] x no by simp_all
  have "TransactionIdSetPageStatus rec xid subxids st lsn pageno clog
      = fold (\<lambda>x. TransactionIdSetStatusBit rec x st lsn pageno) subxids ?c1"
    using True by (simp add: TransactionIdSetPageStatus_def clog0_def Let_def)
  then show ?thesis
    using SetStatusBit_fold [OF c1(1) sub] True c0(2) c1(2) no by (auto simp: set_statuses_def fun_eq_iff)
qed

section \<open>Setting the status of a transaction tree\<close>

definition call_ok :: "PageStatusCall \<Rightarrow> bool" where
  "call_ok c \<longleftrightarrow> (\<forall>x \<in> set (call_subxids c). TransactionIdToPage x = call_pageno c)
     \<and> (TransactionIdIsValid (call_xid c) \<longrightarrow>
          TransactionIdToPage (call_xid c) = call_pageno c \<and> call_status c \<noteq> TRANSACTION_STATUS_SUB_COMMITTED)"

definition call_set :: "PageStatusCall \<Rightarrow> TransactionId set" where
  "call_set c = set (call_subxids c) \<union> (if TransactionIdIsValid (call_xid c) then {call_xid c} else {})"

lemma run_call_status:
  assumes "clog_wf clog" "call_ok c"
  shows "clog_wf (run_call rec lsn c clog)
    \<and> clog_status (run_call rec lsn c clog) = set_statuses rec (call_set c) (call_status c) (clog_status clog)"
  unfolding run_call_def call_set_def
  by (rule SetPageStatus_status) (use assms in \<open>auto simp: call_ok_def\<close>)

lemma run_calls_wf:
  "clog_wf clog \<Longrightarrow> \<forall>c \<in> set cs. call_ok c \<Longrightarrow> clog_wf (fold (run_call rec lsn) cs clog)"
  by (induction cs arbitrary: clog) (auto simp: run_call_status)

text \<open>Calls that all set the same status: each entry has its old status or the new one.\<close>

lemma run_calls_uniform:
  assumes "clog_wf clog" "\<forall>c \<in> set cs. call_ok c \<and> call_status c = st \<and> call_set c \<subseteq> X"
  shows "(y \<notin> X \<longrightarrow> clog_status (fold (run_call rec lsn) cs clog) y = clog_status clog y)
    \<and> clog_status (fold (run_call rec lsn) cs clog) y \<in> {clog_status clog y, st}"
  using assms
proof (induction cs arbitrary: clog)
  case (Cons c cs)
  then show ?case
    using run_call_status [of clog c rec lsn] Cons.IH [of "run_call rec lsn c clog"]
    by (auto simp: set_statuses_def split: if_splits)
qed simp

lemma run_calls_all:
  assumes "clog_wf clog" "\<forall>c \<in> set cs. call_ok c \<and> call_status c = st" "st \<noteq> TRANSACTION_STATUS_SUB_COMMITTED"
  shows "clog_status (fold (run_call rec lsn) cs clog)
    = (\<lambda>y. if y \<in> \<Union> (call_set ` set cs) then st else clog_status clog y)"
  using assms
proof (induction cs arbitrary: clog)
  case (Cons c cs)
  then show ?case
    using run_call_status [of clog c rec lsn] Cons.IH [of "run_call rec lsn c clog"]
    by (auto simp: set_statuses_def skips_subcommit_def fun_eq_iff)
qed simp

subsection \<open>The sequence of calls\<close>

lemma same_page_run_prefix:
  "i \<le> j \<Longrightarrow> j < same_page_run n subxids pageno i \<Longrightarrow> TransactionIdToPage (subxids j) = pageno"
proof (induction n subxids pageno i rule: same_page_run.induct)
  case (1 n subxids pageno i)
  show ?case
  proof (cases "TransactionIdToPage (subxids i) = pageno \<and> i < n")
    case True
    then have "same_page_run n subxids pageno i = same_page_run n subxids pageno (i + 1)"
      by (subst same_page_run.simps) simp
    then show ?thesis using 1 True by (cases "j = i") auto
  next
    case False
    then have "same_page_run n subxids pageno i = i" by (subst same_page_run.simps) auto
    then show ?thesis using "1.prems" by simp
  qed
qed

lemma same_page_run_le: "i \<le> n \<Longrightarrow> same_page_run n subxids pageno i \<le> n"
proof (induction n subxids pageno i rule: same_page_run.induct)
  case (1 n subxids pageno i)
  then show ?case by (subst same_page_run.simps) auto
qed

lemma set_status_by_pages_from_spec:
  assumes "offset \<le> n"
  shows "(\<forall>c \<in> set (set_status_by_pages_from n subxids st offset). call_ok c \<and> call_status c = st)
    \<and> \<Union> (call_set ` set (set_status_by_pages_from n subxids st offset)) = subxids ` {offset..<n}"
  using assms
proof (induction n subxids st offset rule: set_status_by_pages_from.induct)
  case (1 n subxids st offset)
  show ?case
  proof (cases "offset < n")
    case True
    define pg where "pg = TransactionIdToPage (subxids offset)"
    define i where "i = same_page_run n subxids pg offset"
    have i: "offset < i" "i \<le> n"
      using same_page_run_step [OF True] same_page_run_le [of offset n] True by (simp_all add: i_def pg_def)
    define c where "c = \<lparr>call_xid = InvalidTransactionId, call_subxids = map subxids [offset..<i],
            call_status = st, call_pageno = pg\<rparr>"
    have eq: "set_status_by_pages_from n subxids st offset = c # set_status_by_pages_from n subxids st i"
      using True by (subst set_status_by_pages_from.simps) (simp add: i_def c_def pg_def Let_def)
    have "\<forall>j. offset \<le> j \<and> j < i \<longrightarrow> TransactionIdToPage (subxids j) = pg"
      using same_page_run_prefix unfolding i_def by blast
    then have ok: "call_ok c" "call_status c = st" "call_set c = subxids ` {offset..<i}"
      by (simp_all add: c_def call_ok_def call_set_def TransactionIdIsValid_def)
    have "{offset..<n} = {offset..<i} \<union> {i..<n}" using i by auto
    then have "subxids ` {offset..<n} = subxids ` {offset..<i} \<union> subxids ` {i..<n}" by (simp add: image_Un)
    moreover have "(\<forall>c \<in> set (set_status_by_pages_from n subxids st i). call_ok c \<and> call_status c = st)
      \<and> \<Union> (call_set ` set (set_status_by_pages_from n subxids st i)) = subxids ` {i..<n}"
      using "1.IH" [OF True pg_def i_def] i(2) by blast
    ultimately show ?thesis unfolding eq using ok by simp
  next
    case False
    then show ?thesis using "1.prems" by (subst (1 2) set_status_by_pages_from.simps) simp
  qed
qed

lemma set_status_by_pages_spec:
  "(\<forall>c \<in> set (set_status_by_pages n subxids st). call_ok c \<and> call_status c = st)
   \<and> \<Union> (call_set ` set (set_status_by_pages n subxids st)) = subxids ` {..<n}"
  using set_status_by_pages_from_spec [of 0 n subxids st] by (simp add: set_status_by_pages_def atLeast0LessThan)

text \<open>
  The shape of the whole sequence: sub-commit the entries on other pages (for a
  commit only), then the page of the main transaction, then the other pages.
\<close>

lemma set_tree_status_calls_spec:
  assumes "TransactionIdIsValid xid" "st \<noteq> TRANSACTION_STATUS_SUB_COMMITTED"
  obtains pre m post where "set_tree_status_calls xid n subxids st = pre @ m # post"
    "\<forall>c \<in> set pre. call_ok c \<and> call_status c = TRANSACTION_STATUS_SUB_COMMITTED \<and> call_set c \<subseteq> subxids ` {..<n}"
    "st \<noteq> TRANSACTION_STATUS_COMMITTED \<Longrightarrow> pre = []"
    "call_ok m" "call_status m = st" "xid \<in> call_set m"
    "\<forall>c \<in> set post. call_ok c \<and> call_status c = st"
    "call_set m \<union> \<Union> (call_set ` set post) = insert xid (subxids ` {..<n})"
    "st = TRANSACTION_STATUS_COMMITTED \<Longrightarrow> \<Union> (call_set ` set pre) = \<Union> (call_set ` set post)"
proof -
  define i where "i = same_page_run n subxids (TransactionIdToPage xid) 0"
  have i: "i \<le> n" using same_page_run_le by (simp add: i_def)
  have pg: "\<forall>j < i. TransactionIdToPage (subxids j) = TransactionIdToPage xid"
    using same_page_run_prefix [of 0 _ n subxids "TransactionIdToPage xid"] by (auto simp: i_def)
  define m where "m = \<lparr>call_xid = xid, call_subxids = map subxids [0..<i], call_status = st,
      call_pageno = TransactionIdToPage xid\<rparr>"
  have m: "call_ok m" "call_status m = st" "call_set m = insert xid (subxids ` {..<i})"
    using pg assms by (auto simp: m_def call_ok_def call_set_def)
  show thesis
  proof (cases "i = n")
    case True
    then have "set_tree_status_calls xid n subxids st = [] @ m # []"
      by (simp add: set_tree_status_calls_def i_def [symmetric] m_def)
    then show thesis using m True by (intro that [of "[]" m "[]"]) auto
  next
    case False
    define sub where "sub = (\<lambda>s. set_status_by_pages (n - i) (\<lambda>j. subxids (i + j)) s)"
    have s: "\<forall>c \<in> set (sub s). call_ok c \<and> call_status c = s"
      "\<Union> (call_set ` set (sub s)) = (\<lambda>j. subxids (i + j)) ` {..<n - i}" for s
      using set_status_by_pages_spec [of "n - i" "\<lambda>j. subxids (i + j)" s] by (simp_all add: sub_def)
    have "(\<lambda>j. subxids (i + j)) ` {..<n - i} = subxids ` {i..<n}"
    proof -
      have "(+) i ` {0..<n - i} = {i..<n}" using i by (simp add: image_add_atLeastLessThan)
      then show ?thesis by (metis atLeast0LessThan image_image)
    qed
    note s = s [unfolded this]
    have all: "subxids ` {..<i} \<union> subxids ` {i..<n} = subxids ` {..<n}"
      using i by (simp only: image_Un [symmetric] ivl_disj_un_one(2))
    have "set_tree_status_calls xid n subxids st
        = (if st = TRANSACTION_STATUS_COMMITTED then sub TRANSACTION_STATUS_SUB_COMMITTED else []) @ m # sub st"
      using False by (simp add: set_tree_status_calls_def i_def [symmetric] m_def sub_def Let_def)
    moreover have "\<forall>c \<in> set (sub TRANSACTION_STATUS_SUB_COMMITTED). call_set c \<subseteq> subxids ` {..<n}"
      using s(2) [of TRANSACTION_STATUS_SUB_COMMITTED] all by blast
    moreover have "call_set m \<union> \<Union> (call_set ` set (sub st)) = insert xid (subxids ` {..<n})"
      unfolding m(3) s(2) using all by blast
    ultimately show thesis
      using s(1) [of TRANSACTION_STATUS_SUB_COMMITTED] s(1) [of st] s(2) m
      by (intro that [of "if st = TRANSACTION_STATUS_COMMITTED then sub TRANSACTION_STATUS_SUB_COMMITTED else []" m "sub st"])
        simp_all
  qed
qed

subsection \<open>Properties\<close>

lemma SetTreeStatus_status:
  assumes wf: "clog_wf clog" and xid: "TransactionIdIsValid xid"
    and st: "st \<in> {TRANSACTION_STATUS_COMMITTED, TRANSACTION_STATUS_ABORTED}"
  shows "clog_wf (TransactionIdSetTreeStatus rec xid n subxids st lsn clog)
    \<and> clog_status (TransactionIdSetTreeStatus rec xid n subxids st lsn clog)
      = (\<lambda>y. if y \<in> insert xid (subxids ` {..<n}) then st else clog_status clog y)"
proof -
  have st': "st \<noteq> TRANSACTION_STATUS_SUB_COMMITTED" using st by auto
  obtain pre m post where c: "set_tree_status_calls xid n subxids st = pre @ m # post"
    "\<forall>c \<in> set pre. call_ok c \<and> call_status c = TRANSACTION_STATUS_SUB_COMMITTED \<and> call_set c \<subseteq> subxids ` {..<n}"
    "call_ok m" "call_status m = st" "\<forall>c \<in> set post. call_ok c \<and> call_status c = st"
    "call_set m \<union> \<Union> (call_set ` set post) = insert xid (subxids ` {..<n})"
    using set_tree_status_calls_spec [OF xid st', of n subxids] by metis
  let ?g = "fold (run_call rec lsn) pre clog"
  have g: "clog_wf ?g" "\<And>y. y \<notin> subxids ` {..<n} \<Longrightarrow> clog_status ?g y = clog_status clog y"
    using run_calls_wf [OF wf] run_calls_uniform [OF wf c(2)] c(2) by blast+
  have all: "\<Union> (call_set ` set (m # post)) = insert xid (subxids ` {..<n})" using c(6) by simp
  have "clog_status (fold (run_call rec lsn) (m # post) ?g)
      = (\<lambda>y. if y \<in> insert xid (subxids ` {..<n}) then st else clog_status ?g y)"
    using run_calls_all [OF g(1), of "m # post" st] c(3-5) st' unfolding all by simp
  moreover have "clog_wf (fold (run_call rec lsn) (m # post) ?g)"
    by (rule run_calls_wf [OF g(1)]) (use c in auto)
  moreover have "TransactionIdSetTreeStatus rec xid n subxids st lsn clog = fold (run_call rec lsn) (m # post) ?g"
    by (simp only: TransactionIdSetTreeStatus_def c(1) fold_append comp_apply)
  ultimately show ?thesis using g(2) by (auto simp: fun_eq_iff)
qed

lemma run_calls_sub:
  assumes "clog_wf clog" "\<forall>c \<in> set cs. call_ok c \<and> call_status c = TRANSACTION_STATUS_SUB_COMMITTED"
    "y \<in> \<Union> (call_set ` set cs) \<or> clog_status clog y \<in> {TRANSACTION_STATUS_SUB_COMMITTED, TRANSACTION_STATUS_COMMITTED}"
  shows "clog_status (fold (run_call rec lsn) cs clog) y \<in> {TRANSACTION_STATUS_SUB_COMMITTED, TRANSACTION_STATUS_COMMITTED}"
  using assms
proof (induction cs arbitrary: clog)
  case (Cons c cs)
  have r: "clog_wf (run_call rec lsn c clog)"
    "clog_status (run_call rec lsn c clog) = set_statuses rec (call_set c) TRANSACTION_STATUS_SUB_COMMITTED (clog_status clog)"
    using run_call_status [OF Cons.prems(1)] Cons.prems(2) by simp_all
  have "y \<in> \<Union> (call_set ` set cs)
      \<or> clog_status (run_call rec lsn c clog) y \<in> {TRANSACTION_STATUS_SUB_COMMITTED, TRANSACTION_STATUS_COMMITTED}"
    using Cons.prems(3) r(2) by (auto simp: set_statuses_def skips_subcommit_def)
  then show ?case using Cons.IH [OF r(1)] Cons.prems(2) by simp
qed simp

text \<open>What other backends can see in the course of a commit.\<close>

lemma commit_prefix:
  fixes rec :: bool and lsn :: XLogRecPtr and k :: nat
  assumes wf: "clog_wf clog" and xid: "TransactionIdIsValid xid" "xid \<notin> subxids ` {..<n}"
  defines "T \<equiv> insert xid (subxids ` {..<n})"
  defines "g \<equiv> clog_status (fold (run_call rec lsn) (take k (set_tree_status_calls xid n subxids TRANSACTION_STATUS_COMMITTED)) clog)"
  shows "(\<forall>y. y \<notin> T \<longrightarrow> g y = clog_status clog y)
    \<and> (g xid = clog_status clog xid \<and> (\<forall>y \<in> T. g y \<in> {clog_status clog y, TRANSACTION_STATUS_SUB_COMMITTED})
       \<or> g xid = TRANSACTION_STATUS_COMMITTED
         \<and> (\<forall>y \<in> T. g y \<in> {TRANSACTION_STATUS_COMMITTED, TRANSACTION_STATUS_SUB_COMMITTED}))"
proof -
  have ne: "TRANSACTION_STATUS_COMMITTED \<noteq> TRANSACTION_STATUS_SUB_COMMITTED" by simp
  obtain pre m post where c: "set_tree_status_calls xid n subxids TRANSACTION_STATUS_COMMITTED = pre @ m # post"
    "\<forall>c \<in> set pre. call_ok c \<and> call_status c = TRANSACTION_STATUS_SUB_COMMITTED \<and> call_set c \<subseteq> subxids ` {..<n}"
    "call_ok m" "call_status m = TRANSACTION_STATUS_COMMITTED" "xid \<in> call_set m"
    "\<forall>c \<in> set post. call_ok c \<and> call_status c = TRANSACTION_STATUS_COMMITTED"
    "call_set m \<union> \<Union> (call_set ` set post) = T" "\<Union> (call_set ` set pre) = \<Union> (call_set ` set post)"
    using set_tree_status_calls_spec [OF xid(1) ne, of n subxids] unfolding T_def by metis
  show ?thesis
  proof (cases "k \<le> length pre")
    case True
    then have "take k (pre @ m # post) = take k pre" by simp
    then have g: "g = clog_status (fold (run_call rec lsn) (take k pre) clog)" by (simp add: g_def c(1))
    have "\<forall>c \<in> set (take k pre). call_ok c \<and> call_status c = TRANSACTION_STATUS_SUB_COMMITTED \<and> call_set c \<subseteq> subxids ` {..<n}"
      using c(2) by (meson in_set_takeD)
    note u = run_calls_uniform [OF wf this]
    show ?thesis using u xid(2) unfolding g T_def by blast
  next
    case False
    define p where "p = fold (run_call rec lsn) pre clog"
    define ms where "ms = m # take (k - length pre - 1) post"
    have "take k (pre @ m # post) = pre @ ms" using False by (cases "k - length pre") (auto simp: ms_def)
    then have g: "g = clog_status (fold (run_call rec lsn) ms p)"
      by (simp only: g_def c(1) fold_append comp_apply p_def)
    have wfp: "clog_wf p" unfolding p_def by (rule run_calls_wf [OF wf]) (use c(2) in blast)
    have p: "\<forall>y. y \<notin> subxids ` {..<n} \<longrightarrow> clog_status p y = clog_status clog y"
      unfolding p_def using run_calls_uniform [OF wf c(2)] by blast
    have ms: "\<forall>c \<in> set ms. call_ok c \<and> call_status c = TRANSACTION_STATUS_COMMITTED"
      using c(3,4,6) by (auto simp: ms_def dest: in_set_takeD)
    have sub: "\<Union> (call_set ` set ms) \<subseteq> T" "call_set m \<subseteq> \<Union> (call_set ` set ms)"
      using c(7) by (auto simp: ms_def dest!: in_set_takeD)
    have gall: "g = (\<lambda>y. if y \<in> \<Union> (call_set ` set ms) then TRANSACTION_STATUS_COMMITTED else clog_status p y)"
      unfolding g by (rule run_calls_all [OF wfp ms]) simp
    have "g y \<in> {TRANSACTION_STATUS_COMMITTED, TRANSACTION_STATUS_SUB_COMMITTED}" if "y \<in> T" for y
    proof (cases "y \<in> call_set m")
      case True
      then show ?thesis using sub(2) unfolding gall by auto
    next
      case no: False
      then have "y \<in> \<Union> (call_set ` set pre)" using that c(7,8) by blast
      then have "clog_status p y \<in> {TRANSACTION_STATUS_SUB_COMMITTED, TRANSACTION_STATUS_COMMITTED}"
        unfolding p_def by (intro run_calls_sub [OF wf]) (use c(2) in blast)+
      then show ?thesis unfolding gall by auto
    qed
    moreover have "g xid = TRANSACTION_STATUS_COMMITTED" using c(5) sub(2) unfolding gall by auto
    moreover have "g y = clog_status clog y" if "y \<notin> T" for y using that sub(1) p unfolding gall T_def by auto
    ultimately show ?thesis by blast
  qed
qed

definition clog_zero :: ClogData where
  "clog_zero = \<lparr>page_buffer = (\<lambda>_. replicate BLCKSZ 0), group_lsn = (\<lambda>_ _. InvalidXLogRecPtr), latest_page_number = 0\<rparr>"

lemma clog_zero_wf: "clog_wf clog_zero"
  by (simp add: clog_zero_def clog_wf_def)

lemma clog_status_zero [simp]: "clog_status clog_zero x = TRANSACTION_STATUS_IN_PROGRESS"
  by (simp add: clog_status_field clog_zero_def byte_less get_field_def XidStatus_of_def)

text \<open>C30. Setting the status of a transaction tree, however its members are spread over
  the pages of the log, gives exactly the members of the tree the new status
  and leaves every other transaction's status as it was.\<close>

theorem TransactionIdSetTreeStatus_correct:
  assumes "clog_wf clog" "TransactionIdIsValid xid"
    and "st = TRANSACTION_STATUS_COMMITTED \<or> st = TRANSACTION_STATUS_ABORTED"
  shows "clog_wf (TransactionIdSetTreeStatus rec xid n subxids st lsn clog)
    \<and> (\<forall>y. fst (TransactionIdGetStatus (TransactionIdSetTreeStatus rec xid n subxids st lsn clog) y)
         = (if y = xid \<or> (\<exists>j<n. y = subxids j) then st else fst (TransactionIdGetStatus clog y)))"
  using SetTreeStatus_status [OF assms(1,2), of st rec n subxids lsn] assms(3)
  by (auto simp: clog_status_def [symmetric])

theorem TransactionIdSetTreeStatus_correct_witness:
  "fst (TransactionIdGetStatus (TransactionIdSetTreeStatus False 40000 2 (\<lambda>j. 40001 + of_nat j * 70000)
      TRANSACTION_STATUS_COMMITTED InvalidXLogRecPtr clog_zero) 110001) = TRANSACTION_STATUS_COMMITTED"
proof -
  have "\<exists>j < 2. (110001 :: TransactionId) = 40001 + of_nat j * 70000" by (rule exI [of _ "Suc 0"]) simp
  moreover have "TransactionIdIsValid 40000" by (simp add: TransactionIdIsValid_def InvalidTransactionId_def)
  ultimately show ?thesis
    using TransactionIdSetTreeStatus_correct [OF clog_zero_wf, of 40000 TRANSACTION_STATUS_COMMITTED False 2
      "\<lambda>j. 40001 + of_nat j * 70000" InvalidXLogRecPtr] by simp
qed

subsection \<open>Commit positions\<close>

lemma XLByteLE_refl [simp]: "XLByteLE a a"
  by (simp add: XLByteLE_def)

lemma XLByteLE_trans: "XLByteLE a b \<Longrightarrow> XLByteLE b c \<Longrightarrow> XLByteLE a c"
  by (auto simp: XLByteLE_def)

lemma not_XLByteLT: "\<not> XLByteLT a b \<Longrightarrow> XLByteLE b a"
  by (auto simp: XLByteLT_def XLByteLE_def)

lemma XLByteLT_LE: "XLByteLT a b \<Longrightarrow> XLByteLE a b"
  by (auto simp: XLByteLT_def XLByteLE_def)

definition lsns_grow :: "ClogData \<Rightarrow> ClogData \<Rightarrow> bool" where
  "lsns_grow c c' \<longleftrightarrow> (\<forall>p i. XLByteLE (group_lsn c p i) (group_lsn c' p i))"

lemma lsns_grow_refl [simp]: "lsns_grow c c"
  by (simp add: lsns_grow_def)

lemma lsns_grow_trans: "lsns_grow a b \<Longrightarrow> lsns_grow b c \<Longrightarrow> lsns_grow a c"
  unfolding lsns_grow_def using XLByteLE_trans by blast

lemma SetStatusBit_lsn:
  assumes "TransactionIdToPage xid = pageno"
  shows "lsns_grow clog (TransactionIdSetStatusBit False xid st lsn pageno clog)
    \<and> (\<not> XLogRecPtrIsInvalid lsn \<longrightarrow>
         XLByteLE lsn (group_lsn (TransactionIdSetStatusBit False xid st lsn pageno clog) pageno (GetLSNIndex xid)))"
  using not_XLByteLT XLByteLT_LE
  by (auto simp: TransactionIdSetStatusBit_def lsns_grow_def Let_def)

lemma SetStatusBit_fold_lsn:
  assumes "\<forall>x \<in> set xs. TransactionIdToPage x = pageno"
  shows "lsns_grow clog (fold (\<lambda>x. TransactionIdSetStatusBit False x st lsn pageno) xs clog)
    \<and> (\<not> XLogRecPtrIsInvalid lsn \<longrightarrow> (\<forall>x \<in> set xs.
         XLByteLE lsn (group_lsn (fold (\<lambda>x. TransactionIdSetStatusBit False x st lsn pageno) xs clog) pageno (GetLSNIndex x))))"
  using assms
proof (induction xs arbitrary: clog)
  case (Cons x xs)
  let ?c = "TransactionIdSetStatusBit False x st lsn pageno clog"
  let ?r = "fold (\<lambda>x. TransactionIdSetStatusBit False x st lsn pageno) xs ?c"
  have x: "lsns_grow clog ?c" "\<not> XLogRecPtrIsInvalid lsn \<longrightarrow> XLByteLE lsn (group_lsn ?c pageno (GetLSNIndex x))"
    using SetStatusBit_lsn Cons.prems by simp_all
  have r: "lsns_grow ?c ?r" "\<not> XLogRecPtrIsInvalid lsn \<longrightarrow> (\<forall>x \<in> set xs. XLByteLE lsn (group_lsn ?r pageno (GetLSNIndex x)))"
    using Cons.IH [of ?c] Cons.prems by simp_all
  have "\<not> XLogRecPtrIsInvalid lsn \<longrightarrow> XLByteLE lsn (group_lsn ?r pageno (GetLSNIndex x))"
    using x(2) r(1) XLByteLE_trans unfolding lsns_grow_def by blast
  then show ?case using r x(1) lsns_grow_trans [OF x(1) r(1)] by simp
qed simp

lemma run_call_lsn:
  assumes "call_ok c"
  shows "lsns_grow clog (run_call False lsn c clog)
    \<and> (\<not> XLogRecPtrIsInvalid lsn \<longrightarrow> (\<forall>x \<in> call_set c.
         XLByteLE lsn (group_lsn (run_call False lsn c clog) (TransactionIdToPage x) (GetLSNIndex x))))"
proof -
  let ?p = "call_pageno c" and ?st = "call_status c" and ?xs = "call_subxids c" and ?x = "call_xid c"
  let ?f = "\<lambda>st. fold (\<lambda>x. TransactionIdSetStatusBit False x st lsn ?p) ?xs"
  have xs: "\<forall>x \<in> set ?xs. TransactionIdToPage x = ?p" using assms by (simp add: call_ok_def)
  define c0 where "c0 = (if ?st = TRANSACTION_STATUS_COMMITTED then ?f TRANSACTION_STATUS_SUB_COMMITTED clog else clog)"
  define c1 where "c1 = (if TransactionIdIsValid ?x then TransactionIdSetStatusBit False ?x ?st lsn ?p c0 else clog)"
  have run: "run_call False lsn c clog = ?f ?st c1"
    by (simp add: run_call_def TransactionIdSetPageStatus_def c0_def c1_def Let_def)
  have "lsns_grow clog c0" using SetStatusBit_fold_lsn [OF xs] by (simp add: c0_def)
  then have c1: "lsns_grow clog c1"
    "TransactionIdIsValid ?x \<and> \<not> XLogRecPtrIsInvalid lsn \<longrightarrow> XLByteLE lsn (group_lsn c1 ?p (GetLSNIndex ?x))"
    using SetStatusBit_lsn [of ?x ?p c0 ?st lsn] lsns_grow_trans assms by (auto simp: c1_def call_ok_def)
  note f = SetStatusBit_fold_lsn [OF xs, of c1 ?st lsn]
  have "TransactionIdIsValid ?x \<and> \<not> XLogRecPtrIsInvalid lsn \<longrightarrow> XLByteLE lsn (group_lsn (?f ?st c1) ?p (GetLSNIndex ?x))"
    using c1(2) f XLByteLE_trans unfolding lsns_grow_def by blast
  then show ?thesis
    unfolding run using f lsns_grow_trans [OF c1(1)] xs assms by (auto simp: call_set_def call_ok_def split: if_splits)
qed

lemma run_calls_lsn:
  assumes "\<forall>c \<in> set cs. call_ok c"
  shows "lsns_grow clog (fold (run_call False lsn) cs clog)
    \<and> (\<not> XLogRecPtrIsInvalid lsn \<longrightarrow> (\<forall>x \<in> \<Union> (call_set ` set cs).
         XLByteLE lsn (group_lsn (fold (run_call False lsn) cs clog) (TransactionIdToPage x) (GetLSNIndex x))))"
  using assms
proof (induction cs arbitrary: clog)
  case (Cons c cs)
  let ?c = "run_call False lsn c clog"
  have c: "lsns_grow clog ?c" "\<not> XLogRecPtrIsInvalid lsn \<longrightarrow>
      (\<forall>x \<in> call_set c. XLByteLE lsn (group_lsn ?c (TransactionIdToPage x) (GetLSNIndex x)))"
    using run_call_lsn Cons.prems by simp_all
  have r: "lsns_grow ?c (fold (run_call False lsn) cs ?c)" "\<not> XLogRecPtrIsInvalid lsn \<longrightarrow> (\<forall>x \<in> \<Union> (call_set ` set cs).
         XLByteLE lsn (group_lsn (fold (run_call False lsn) cs ?c) (TransactionIdToPage x) (GetLSNIndex x)))"
    using Cons.IH Cons.prems by simp_all
  have "\<not> XLogRecPtrIsInvalid lsn \<longrightarrow> (\<forall>x \<in> call_set c.
       XLByteLE lsn (group_lsn (fold (run_call False lsn) cs ?c) (TransactionIdToPage x) (GetLSNIndex x)))"
    using c(2) r(1) XLByteLE_trans unfolding lsns_grow_def by blast
  then show ?case using lsns_grow_trans [OF c(1) r(1)] r(2) by auto
qed simp



subsection \<open>Starting and extending the log\<close>

lemma put_field_zero_above:
  assumes "b < 4" "b' < 4"
  shows "get_field b' (w AND (push_bit (b * 2) 1 - 1)) = (if b' < b then get_field b' w else 0)"
proof (rule bit_word_eqI)
  fix n assume "n < LENGTH(8)"
  have "push_bit (b * 2) (1 :: uint8) - 1 = mask (b * 2)" by (simp add: mask_eq_exp_minus_1)
  moreover have "n < 2 \<Longrightarrow> (b' * 2 + n < b * 2) = (b' < b)" by presburger
  ultimately show "bit (get_field b' (w AND (push_bit (b * 2) 1 - 1))) n = bit (if b' < b then get_field b' w else 0) n"
    using assms by (auto simp: bit_get_field bit_and_iff bit_mask_iff)
qed

lemma XidStatus_of_zero_field: "XidStatus_of (get_field b 0) = TRANSACTION_STATUS_IN_PROGRESS"
  by (simp add: get_field_def XidStatus_of_def)

lemma ExtendCLOG_wf: "clog_wf clog \<Longrightarrow> clog_wf (ExtendCLOG nextXid clog)"
  by (simp add: clog_wf_def ExtendCLOG_def ZeroCLOGPage_def)

lemma ExtendCLOG_status:
  "clog_wf clog \<Longrightarrow> clog_status (ExtendCLOG nextXid clog) y
     = (if TransactionIdToPage y = TransactionIdToPage nextXid
           \<and> (TransactionIdToPgIndex nextXid = 0 \<or> nextXid = FirstNormalTransactionId)
        then TRANSACTION_STATUS_IN_PROGRESS else clog_status clog y)"
  by (simp add: clog_status_field ExtendCLOG_def ZeroCLOGPage_def byte_less XidStatus_of_zero_field)

text \<open>At the end of recovery the commit log is trimmed: every identifier from the
  next one on to the end of its page reads as in progress, and every other
  status is kept.  Extending the log for a new identifier clears exactly the
  page it opens, and nothing at any other identifier.\<close>

theorem TrimCLOG_ExtendCLOG_correct:
  assumes "clog_wf clog"
  shows "clog_wf (TrimCLOG nextXid clog) \<and> clog_wf (ExtendCLOG nextXid clog)
    \<and> (\<forall>y. fst (TransactionIdGetStatus (TrimCLOG nextXid clog) y)
         = (if TransactionIdToPage y = TransactionIdToPage nextXid \<and> nextXid \<le> y \<and> TransactionIdToPgIndex nextXid \<noteq> 0
            then TRANSACTION_STATUS_IN_PROGRESS else fst (TransactionIdGetStatus clog y)))
    \<and> (\<forall>y. fst (TransactionIdGetStatus (ExtendCLOG nextXid clog) y)
         = (if TransactionIdToPage y = TransactionIdToPage nextXid
               \<and> (TransactionIdToPgIndex nextXid = 0 \<or> nextXid = FirstNormalTransactionId)
            then TRANSACTION_STATUS_IN_PROGRESS else fst (TransactionIdGetStatus clog y)))"
proof (intro conjI allI)
  let ?b = "TransactionIdToByte nextXid" and ?i = "TransactionIdToBIndex nextXid" and ?p = "TransactionIdToPage nextXid"
  have len: "length (page_buffer clog p) = BLCKSZ" for p using assms by (simp add: clog_wf_def)
  show "clog_wf (TrimCLOG nextXid clog)" "clog_wf (ExtendCLOG nextXid clog)"
    using assms ExtendCLOG_wf by (simp_all add: clog_wf_def TrimCLOG_def Let_def)
  fix y
  show "fst (TransactionIdGetStatus (ExtendCLOG nextXid clog) y)
      = (if TransactionIdToPage y = TransactionIdToPage nextXid
            \<and> (TransactionIdToPgIndex nextXid = 0 \<or> nextXid = FirstNormalTransactionId)
         then TRANSACTION_STATUS_IN_PROGRESS else fst (TransactionIdGetStatus clog y))"
    unfolding clog_status_def [symmetric] by (rule ExtendCLOG_status [OF assms])
  have le: "nextXid \<le> y \<longleftrightarrow> (?b < TransactionIdToByte y \<or> ?b = TransactionIdToByte y \<and> ?i \<le> TransactionIdToBIndex y)"
    if "TransactionIdToPage y = ?p"
    using that xid_position [of y] xid_position [of nextXid] bindex_less [of y] bindex_less [of nextXid]
    unfolding word_le_nat_alt by linarith
  show "fst (TransactionIdGetStatus (TrimCLOG nextXid clog) y)
      = (if TransactionIdToPage y = ?p \<and> nextXid \<le> y \<and> TransactionIdToPgIndex nextXid \<noteq> 0
         then TRANSACTION_STATUS_IN_PROGRESS else fst (TransactionIdGetStatus clog y))"
  proof (cases "TransactionIdToPgIndex nextXid \<noteq> 0 \<and> TransactionIdToPage y = ?p")
    case False
    then show ?thesis by (auto simp: clog_status_def [symmetric] clog_status_field TrimCLOG_def Let_def)
  next
    case True
    have "page_buffer (TrimCLOG nextXid clog) ?p ! TransactionIdToByte y
        = (if ?b < TransactionIdToByte y then 0
           else if ?b = TransactionIdToByte y then page_buffer clog ?p ! ?b AND (push_bit (?i * 2) 1 - 1)
           else page_buffer clog ?p ! TransactionIdToByte y)"
      using True byte_less by (simp add: TrimCLOG_def Let_def nth_for_update len CLOG_BITS_PER_XACT_def)
    then show ?thesis
      using True le put_field_zero_above [OF bindex_less [of nextXid] bindex_less [of y]] XidStatus_of_zero_field
      by (auto simp: clog_status_def [symmetric] clog_status_field)
  qed
qed

theorem TrimCLOG_ExtendCLOG_correct_witness:
  "fst (TransactionIdGetStatus (TrimCLOG 100 clog_zero) 200) = TRANSACTION_STATUS_IN_PROGRESS"
  using TrimCLOG_ExtendCLOG_correct [OF clog_zero_wf, of 100] clog_status_zero [of 200]
  by (simp add: clog_status_def)

subsection \<open>Truncation and array bounds\<close>

lemma page_precedes_distance:
  assumes "p < 131072" "q < 131072" "CLOGPagePrecedes p q" "p \<noteq> (q + 65536) mod 131072"
  shows "0 < (int q - int p) mod 131072 \<and> (int q - int p) mod 131072 < 65536"
proof -
  let ?w = "\<lambda>n::nat. of_nat n * of_nat CLOG_XACTS_PER_PAGE + FirstNormalTransactionId"
  have norm: "TransactionIdIsNormal (?w n)" if "n < 131072" for n
  proof -
    have "unat (?w n) = n * 32768 + 3"
      using that by (simp add: CLOG_XACTS_PER_PAGE_eq FirstNormalTransactionId_def unat_word_ariths unat_of_nat take_bit_eq_mod)
    then show ?thesis by (simp add: normal_ge_3)
  qed
  define k where "k = int p - int q"
  have "?w p - ?w q = word_of_int (k * 32768)"
    by (simp add: CLOG_XACTS_PER_PAGE_eq k_def algebra_simps)
  then have "sint (word_of_int (k * 32768) :: 32 word) < 0"
    using assms(3) norm [OF assms(1)] norm [OF assms(2)]
    by (simp add: CLOGPagePrecedes_def Let_def TransactionIdPrecedes_def)
  then have neg: "(k * 32768 + 2147483648) mod 4294967296 < 2147483648"
    unfolding int_word_sint by simp
  have k: "-131072 < k" "k < 131072" using assms(1,2) by (simp_all add: k_def)
  have half: "k \<noteq> 65536" "k \<noteq> -65536" using assms(1,2,4) by (auto simp: k_def mod_if split: if_splits)
  consider "0 \<le> k" "k < 65536" | "65536 < k" | "-65536 < k" "k < 0" | "k < -65536" using half by linarith
  then show ?thesis
  proof cases
    case 1
    then have "(k * 32768 + 2147483648) mod 4294967296 = k * 32768 + 2147483648" by (intro mod_pos_pos_trivial) auto
    then show ?thesis using neg 1 by simp
  next
    case 2
    then have "(int q - int p) mod 131072 = 131072 - k"
      using mod_pos_pos_trivial [of "131072 - k" 131072] k by (simp add: k_def)
    then show ?thesis using 2 k by simp
  next
    case 3
    then have "(int q - int p) mod 131072 = - k" by (intro trans [OF mod_pos_pos_trivial]) (auto simp: k_def)
    then show ?thesis using 3 by simp
  next
    case 4
    have "(k * 32768 + 2147483648) mod 4294967296 = (k * 32768 + 2147483648 + 4294967296) mod 4294967296"
      by (simp only: mod_add_self2)
    also have "\<dots> = k * 32768 + 2147483648 + 4294967296" by (rule mod_pos_pos_trivial) (use 4 k in simp_all)
    finally have "(k * 32768 + 2147483648) mod 4294967296 = k * 32768 + 2147483648 + 4294967296" .
    then show ?thesis using neg 4 k by simp
  qed
qed

text \<open>The page comparison used to truncate the log is safe: when it says that a page
  is older than the page of the oldest transaction still needed, every normal
  identifier on it precedes that transaction (unless the pages are exactly half
  the circle apart, which the limits on identifier assignment exclude).\<close>

theorem CLOGPagePrecedes_safe:
  assumes "TransactionIdIsNormal x" "TransactionIdIsNormal oldest"
    and "CLOGPagePrecedes (TransactionIdToPage x) (TransactionIdToPage oldest)"
    and "TransactionIdToPage x \<noteq> (TransactionIdToPage oldest + 65536) mod 131072"
  shows "TransactionIdPrecedes x oldest"
proof -
  let ?p = "TransactionIdToPage x" and ?q = "TransactionIdToPage oldest"
  have pq: "?p < 131072" "?q < 131072"
    using unat_less_32 [of x] unat_less_32 [of oldest] by (simp_all add: TransactionIdToPage_def CLOG_XACTS_PER_PAGE_eq div_less_iff_less_mult)
  define d where "d = (int ?q - int ?p) mod 131072"
  have d: "0 < d" "d < 65536" using page_precedes_distance [OF pq assms(3,4)] by (simp_all add: d_def)
  define rx ro where "rx = unat x mod 32768" and "ro = unat oldest mod 32768"
  have u: "unat x = ?p * 32768 + rx" "unat oldest = ?q * 32768 + ro"
    by (simp_all add: TransactionIdToPage_def CLOG_XACTS_PER_PAGE_eq rx_def ro_def)
  have r: "rx < 32768" "ro < 32768" by (simp_all add: rx_def ro_def)
  define base :: TransactionId where "base = of_nat (?p * 32768)"
  have ub: "uint base = int ?p * 32768"
    using pq(1) unfolding base_def unsigned_of_nat by (simp add: take_bit_eq_mod)
  have ages: "int (xid_age base y) = (int (unat y) - int ?p * 32768) mod 4294967296" for y
    unfolding xid_age_def uint_nat [symmetric] uint_word_ariths ub by simp
  have "(int ?q - int ?p) * 32768 mod 4294967296 = d * 32768"
    using mult_mod_right [of 32768 "int ?q - int ?p" 131072] by (simp add: d_def mult.commute)
  then have "(int (unat oldest) - int ?p * 32768) mod 4294967296 = (d * 32768 + int ro) mod 4294967296"
    using mod_add_left_eq [of "(int ?q - int ?p) * 32768" 4294967296 "int ro"] by (simp add: u(2) algebra_simps)
  then have ao: "int (xid_age base oldest) = d * 32768 + int ro" using d r ages by simp
  have ax: "int (xid_age base x) = int rx" using ages [of x] r(1) by (simp add: u(1))
  have "xid_age base x < 2147483648" using ax r by linarith
  moreover have "xid_age base oldest < 2147483648" using ao d r by linarith
  moreover have "xid_age base x < xid_age base oldest" using ax ao d r by linarith
  ultimately show ?thesis using precedes_normal_window(1) [OF assms(1,2), of base] by simp
qed

theorem CLOGPagePrecedes_safe_witness: "TransactionIdPrecedes 4294967000 40000"
  using CLOGPagePrecedes_safe [of 4294967000 40000]
  by (simp add: CLOGPagePrecedes_def TransactionIdPrecedes_def TransactionIdIsNormal_def FirstNormalTransactionId_def
      TransactionIdToPage_def CLOG_XACTS_PER_PAGE_eq Let_def)

lemma same_page_run_cong:
  "\<forall>j<n. s j = s' j \<Longrightarrow> same_page_run n s pageno i = same_page_run n s' pageno i"
proof (induction n s pageno i rule: same_page_run.induct)
  case (1 n s pageno i)
  then show ?case by (subst (1 2) same_page_run.simps) auto
qed

lemma set_status_by_pages_from_cong:
  "\<forall>j<n. s j = s' j \<Longrightarrow> set_status_by_pages_from n s st i = set_status_by_pages_from n s' st i"
proof (induction n s st i rule: set_status_by_pages_from.induct)
  case (1 n s st i)
  have run: "same_page_run n s pg i = same_page_run n s' pg i" for pg by (rule same_page_run_cong [OF "1.prems"])
  have "i < n \<longrightarrow> (\<forall>x \<in> {i..<same_page_run n s' pg i}. s x = s' x)" for pg
    using "1.prems" same_page_run_le [of i n s' pg] by auto
  then show ?case
    using 1 run by (subst (1 2) set_status_by_pages_from.simps) (simp add: Let_def)
qed

text \<open>The loops over the subtransaction array look at the element one past its end
  before they check the index; what is written to the log does not depend on
  what they read there.\<close>

theorem set_tree_status_overread_harmless:
  assumes "\<forall>j<n. s j = s' j"
  shows "set_tree_status_calls xid n s st = set_tree_status_calls xid n s' st
    \<and> TransactionIdSetTreeStatus rec xid n s st lsn clog = TransactionIdSetTreeStatus rec xid n s' st lsn clog"
proof -
  have run: "same_page_run n s pg 0 = same_page_run n s' pg 0" for pg by (rule same_page_run_cong [OF assms])
  let ?i = "same_page_run n s' (TransactionIdToPage xid) 0"
  have le: "?i \<le> n" using same_page_run_le by simp
  have "map s [0..<?i] = map s' [0..<?i]" "map s [0..<n] = map s' [0..<n]" using assms le by auto
  moreover have "set_status_by_pages (n - ?i) (\<lambda>j. s (?i + j)) st' = set_status_by_pages (n - ?i) (\<lambda>j. s' (?i + j)) st'" for st'
    unfolding set_status_by_pages_def by (rule set_status_by_pages_from_cong) (use assms in auto)
  ultimately have "set_tree_status_calls xid n s st = set_tree_status_calls xid n s' st"
    by (simp add: set_tree_status_calls_def run Let_def)
  then show ?thesis by (simp add: TransactionIdSetTreeStatus_def)
qed

theorem set_tree_status_overread_harmless_witness:
  "set_tree_status_calls 10 1 (\<lambda>j. if j = 0 then 11 else 999999) TRANSACTION_STATUS_COMMITTED
   = set_tree_status_calls 10 1 (\<lambda>j. 11) TRANSACTION_STATUS_COMMITTED"
  using set_tree_status_overread_harmless [of 1 "\<lambda>j. if j = 0 then 11 else 999999" "\<lambda>j. 11" 10 TRANSACTION_STATUS_COMMITTED]
  by simp

end
