(* ===== verification/Subtrans.thy ===== *)
theory Subtrans
  imports Transam
begin

text \<open>
  The subtransaction log (\<^verbatim>\<open>access/transam/subtrans.c\<close>): for every
  transaction the identifier of its parent, in pages of a simple LRU store that
  is transparent here as it is for the commit log.
\<close>

section \<open>Layout and operations\<close>

definition SUBTRANS_XACTS_PER_PAGE :: nat where
  "SUBTRANS_XACTS_PER_PAGE = BLCKSZ div 4"

definition SubTrans_TransactionIdToPage :: "TransactionId \<Rightarrow> nat" where
  "SubTrans_TransactionIdToPage xid = unat xid div SUBTRANS_XACTS_PER_PAGE"

definition TransactionIdToEntry :: "TransactionId \<Rightarrow> nat" where
  "TransactionIdToEntry xid = unat xid mod SUBTRANS_XACTS_PER_PAGE"

record SubTransData =
  sub_page :: "nat \<Rightarrow> TransactionId list"
  sub_latest_page_number :: nat

definition SubTransSetParent :: "TransactionId \<Rightarrow> TransactionId \<Rightarrow> SubTransData \<Rightarrow> SubTransData" where
  "SubTransSetParent xid parent sub =
     (let pageno = SubTrans_TransactionIdToPage xid;
          entryno = TransactionIdToEntry xid
      in sub\<lparr>sub_page := (sub_page sub)(pageno := (sub_page sub pageno)[entryno := parent])\<rparr>)"

definition SubTransGetParent :: "SubTransData \<Rightarrow> TransactionId \<Rightarrow> TransactionId" where
  "SubTransGetParent sub xid =
     (if \<not> TransactionIdIsNormal xid then InvalidTransactionId
      else sub_page sub (SubTrans_TransactionIdToPage xid) ! TransactionIdToEntry xid)"

text \<open>
  The loop of \<^verbatim>\<open>SubTransGetTopmostTransaction\<close> ends only if the parent links do
  not run in a circle; None stands for not returning.
\<close>

partial_function (option) topmost_loop ::
    "SubTransData \<Rightarrow> TransactionId \<Rightarrow> TransactionId \<Rightarrow> TransactionId \<Rightarrow> TransactionId option" where
  "topmost_loop sub TransactionXmin parentXid previousXid =
     (if TransactionIdIsValid parentXid then
        if TransactionIdPrecedes parentXid TransactionXmin then Some parentXid
        else topmost_loop sub TransactionXmin (SubTransGetParent sub parentXid) parentXid
      else Some previousXid)"

definition SubTransGetTopmostTransaction :: "SubTransData \<Rightarrow> TransactionId \<Rightarrow> TransactionId \<Rightarrow> TransactionId option" where
  "SubTransGetTopmostTransaction sub TransactionXmin xid = topmost_loop sub TransactionXmin xid xid"

definition ZeroSUBTRANSPage :: "nat \<Rightarrow> SubTransData \<Rightarrow> SubTransData" where
  "ZeroSUBTRANSPage pageno sub =
     sub\<lparr>sub_page := (sub_page sub)(pageno := replicate SUBTRANS_XACTS_PER_PAGE InvalidTransactionId),
         sub_latest_page_number := pageno\<rparr>"

definition BootStrapSUBTRANS :: "SubTransData \<Rightarrow> SubTransData" where
  "BootStrapSUBTRANS sub = ZeroSUBTRANSPage 0 sub"

partial_function (option) startup_loop :: "SubTransData \<Rightarrow> nat \<Rightarrow> nat \<Rightarrow> SubTransData option" where
  "startup_loop sub startPage endPage =
     (if startPage \<noteq> endPage
      then startup_loop (ZeroSUBTRANSPage startPage sub) (startPage + 1) endPage
      else Some (ZeroSUBTRANSPage startPage sub))"

definition StartupSUBTRANS :: "TransactionId \<Rightarrow> TransactionId \<Rightarrow> SubTransData \<Rightarrow> SubTransData option" where
  "StartupSUBTRANS nextXid oldestActiveXID sub =
     startup_loop sub (SubTrans_TransactionIdToPage oldestActiveXID) (SubTrans_TransactionIdToPage nextXid)"

definition ExtendSUBTRANS :: "TransactionId \<Rightarrow> SubTransData \<Rightarrow> SubTransData" where
  "ExtendSUBTRANS newestXact sub =
     (if TransactionIdToEntry newestXact \<noteq> 0 \<and> newestXact \<noteq> FirstNormalTransactionId then sub
      else ZeroSUBTRANSPage (SubTrans_TransactionIdToPage newestXact) sub)"

definition SubTransPagePrecedes :: "nat \<Rightarrow> nat \<Rightarrow> bool" where
  "SubTransPagePrecedes page1 page2 =
     (let xid1 = of_nat page1 * of_nat SUBTRANS_XACTS_PER_PAGE;
          xid1 = xid1 + FirstNormalTransactionId;
          xid2 = of_nat page2 * of_nat SUBTRANS_XACTS_PER_PAGE;
          xid2 = xid2 + FirstNormalTransactionId
      in TransactionIdPrecedes xid1 xid2)"

section \<open>Parents\<close>

definition sub_wf :: "SubTransData \<Rightarrow> bool" where
  "sub_wf sub \<longleftrightarrow> (\<forall>p. length (sub_page sub p) = SUBTRANS_XACTS_PER_PAGE)"

lemma SUBTRANS_XACTS_PER_PAGE_eq: "SUBTRANS_XACTS_PER_PAGE = 2048"
  by (simp add: SUBTRANS_XACTS_PER_PAGE_def BLCKSZ_def)

lemma entry_less: "TransactionIdToEntry x < SUBTRANS_XACTS_PER_PAGE"
  by (simp add: TransactionIdToEntry_def SUBTRANS_XACTS_PER_PAGE_eq)

lemma sub_position_inj:
  assumes "SubTrans_TransactionIdToPage x = SubTrans_TransactionIdToPage y" "TransactionIdToEntry x = TransactionIdToEntry y"
  shows "x = y"
proof -
  have "unat x = unat x div 2048 * 2048 + unat x mod 2048" "unat y = unat y div 2048 * 2048 + unat y mod 2048"
    by simp_all
  then have "unat x = unat y"
    using assms unfolding SubTrans_TransactionIdToPage_def TransactionIdToEntry_def SUBTRANS_XACTS_PER_PAGE_eq by linarith
  then show ?thesis by (simp only: word_unat_eq_iff)
qed

lemma SetParent_wf: "sub_wf sub \<Longrightarrow> sub_wf (SubTransSetParent xid parent sub)"
  by (simp add: sub_wf_def SubTransSetParent_def Let_def)

lemma SetParent_parent:
  assumes "sub_wf sub"
  shows "SubTransGetParent (SubTransSetParent xid parent sub) y
     = (if \<not> TransactionIdIsNormal y then InvalidTransactionId else if y = xid then parent else SubTransGetParent sub y)"
proof -
  have "length (sub_page sub p) = SUBTRANS_XACTS_PER_PAGE" for p using assms by (simp add: sub_wf_def)
  then show ?thesis
    using sub_position_inj [of y xid] entry_less
    by (auto simp: SubTransGetParent_def SubTransSetParent_def Let_def nth_list_update)
qed

lemma Extend_wf: "sub_wf sub \<Longrightarrow> sub_wf (ExtendSUBTRANS xid sub)"
  by (simp add: sub_wf_def ExtendSUBTRANS_def ZeroSUBTRANSPage_def)

lemma Extend_parent:
  "SubTransGetParent (ExtendSUBTRANS xid sub) y
     = (if SubTrans_TransactionIdToPage y = SubTrans_TransactionIdToPage xid
           \<and> (TransactionIdToEntry xid = 0 \<or> xid = FirstNormalTransactionId)
        then InvalidTransactionId else SubTransGetParent sub y)"
  using entry_less by (auto simp: SubTransGetParent_def ExtendSUBTRANS_def ZeroSUBTRANSPage_def)

text \<open>The subtransaction log is a map from normal identifiers to parents: a parent
  that was set is read back, other entries keep theirs, permanent identifiers
  have none, and opening a page for a new identifier clears exactly that page.\<close>

theorem SubTrans_parent_map:
  assumes "sub_wf sub"
  shows "sub_wf (SubTransSetParent xid parent sub) \<and> sub_wf (ExtendSUBTRANS xid sub)
    \<and> (\<forall>y. SubTransGetParent (SubTransSetParent xid parent sub) y
         = (if \<not> TransactionIdIsNormal y then InvalidTransactionId
            else if y = xid then parent else SubTransGetParent sub y))
    \<and> (\<forall>y. SubTransGetParent (ExtendSUBTRANS xid sub) y
         = (if SubTrans_TransactionIdToPage y = SubTrans_TransactionIdToPage xid
               \<and> (TransactionIdToEntry xid = 0 \<or> xid = FirstNormalTransactionId)
            then InvalidTransactionId else SubTransGetParent sub y))"
  using assms SetParent_wf Extend_wf SetParent_parent Extend_parent by blast

definition sub_zero :: SubTransData where
  "sub_zero = \<lparr>sub_page = (\<lambda>_. replicate SUBTRANS_XACTS_PER_PAGE InvalidTransactionId), sub_latest_page_number = 0\<rparr>"

lemma sub_zero_wf: "sub_wf sub_zero"
  by (simp add: sub_zero_def sub_wf_def)

theorem SubTrans_parent_map_witness: "SubTransGetParent (SubTransSetParent 100 50 sub_zero) 100 = 50"
  using SubTrans_parent_map [OF sub_zero_wf, of 100 50]
  by (simp add: TransactionIdIsNormal_def FirstNormalTransactionId_def)

section \<open>The topmost transaction\<close>

text \<open>
  Parents are assigned their identifiers before their children.  \<open>sub_ordered\<close> states
  it for the identifiers a backend with the given xmin may ask about.
\<close>

definition sub_ordered :: "SubTransData \<Rightarrow> TransactionId \<Rightarrow> bool" where
  "sub_ordered sub xmin \<longleftrightarrow>
     (\<forall>x. TransactionIdIsNormal x \<and> xid_age xmin x < 2 ^ 31 \<longrightarrow>
        SubTransGetParent sub x = InvalidTransactionId \<or> TransactionIdPrecedes (SubTransGetParent sub x) x)"

text \<open>One step towards the parent moves closer to xmin or past it.\<close>

lemma not_precedes_xmin_normal:
  assumes "TransactionIdIsNormal xmin" "TransactionIdIsValid p" "\<not> TransactionIdPrecedes p xmin"
  shows "TransactionIdIsNormal p \<and> 0 \<le> sint (p - xmin)"
proof (cases "TransactionIdIsNormal p")
  case False
  then have "p < xmin" using assms(1) by (simp add: normal_ge_3 word_less_nat_alt)
  then show ?thesis using assms(3) False by (simp add: TransactionIdPrecedes_def)
qed (use assms in \<open>simp add: TransactionIdPrecedes_def\<close>)

lemma sint_32: "sint (w :: 32 word) = (if uint w < 2 ^ 31 then uint w else uint w - 2 ^ 32)"
proof -
  have "sint w = (uint w + 2147483648) mod 4294967296 - 2147483648"
    using int_word_sint [of "uint w", where 'a = 32] by simp
  moreover have "0 \<le> uint w" "uint w < 4294967296" using uint_bounded [of w] by simp_all
  moreover have "(uint w + 2147483648) mod 4294967296
      = (if uint w < 2147483648 then uint w + 2147483648 else uint w - 2147483648)"
  proof (cases "uint w < 2147483648")
    case False
    have "(uint w + 2147483648) mod 4294967296 = (uint w - 2147483648 + 4294967296) mod 4294967296" by (simp add: add.commute)
    also have "\<dots> = (uint w - 2147483648) mod 4294967296" by (simp only: mod_add_self2)
    also have "\<dots> = uint w - 2147483648" by (rule mod_pos_pos_trivial) (use False calculation uint_bounded [of w] in simp_all)
    finally show ?thesis using False by simp
  qed simp
  ultimately show ?thesis by simp
qed

lemma sint_nonneg_age:
  assumes "0 \<le> sint (p - xmin)"
  shows "xid_age xmin p < 2 ^ 31" "int (xid_age xmin p) = sint (p - xmin)"
proof -
  have "uint (p - xmin) < 2 ^ 32" using uint_bounded [of "p - xmin"] by simp
  then have "uint (p - xmin) < 2 ^ 31" "sint (p - xmin) = uint (p - xmin)"
    using assms by (simp_all add: sint_32 split: if_splits)
  moreover have "int (xid_age xmin p) = uint (p - xmin)" unfolding xid_age_def by (simp only: uint_nat)
  ultimately show "int (xid_age xmin p) = sint (p - xmin)" "xid_age xmin p < 2 ^ 31" by simp_all
qed

lemma parent_closer:
  assumes "TransactionIdIsNormal xmin" "TransactionIdIsNormal x" "xid_age xmin x < 2 ^ 31"
    and "TransactionIdIsValid p" "\<not> TransactionIdPrecedes p xmin" "TransactionIdPrecedes p x"
  shows "TransactionIdIsNormal p \<and> xid_age xmin p < xid_age xmin x"
proof -
  have p: "TransactionIdIsNormal p" "0 \<le> sint (p - xmin)" using not_precedes_xmin_normal [OF assms(1,4,5)] by simp_all
  then show ?thesis
    using precedes_normal_window(1) [OF p(1) assms(2) sint_nonneg_age(1) [OF p(2)] assms(3)] assms(6) by simp
qed

lemma topmost_loop_returns:
  assumes "sub_ordered sub xmin" "TransactionIdIsNormal xmin" "TransactionIdIsNormal x" "xid_age xmin x < 2 ^ 31"
  shows "\<exists>k. topmost_loop sub xmin x prev = Some ((SubTransGetParent sub ^^ k) x)
    \<and> TransactionIdIsValid ((SubTransGetParent sub ^^ k) x)
    \<and> (TransactionIdPrecedes ((SubTransGetParent sub ^^ k) x) xmin
       \<or> SubTransGetParent sub ((SubTransGetParent sub ^^ k) x) = InvalidTransactionId)"
  using assms(3,4)
proof (induction "xid_age xmin x" arbitrary: x prev rule: less_induct)
  case less
  let ?p = "SubTransGetParent sub x"
  have v: "TransactionIdIsValid x" using less.prems(1) by (auto simp: normal_ge_3 TransactionIdIsValid_def InvalidTransactionId_def)
  have np: "\<not> TransactionIdPrecedes x xmin"
    using precedes_normal_window(1) [OF less.prems(1) assms(2) less.prems(2), of] by (simp add: xid_age_def)
  have step: "topmost_loop sub xmin x prev = topmost_loop sub xmin ?p x"
    by (subst topmost_loop.simps) (simp add: v np)
  consider (none) "\<not> TransactionIdIsValid ?p" | (old) "TransactionIdIsValid ?p" "TransactionIdPrecedes ?p xmin"
    | (up) "TransactionIdIsValid ?p" "\<not> TransactionIdPrecedes ?p xmin" by blast
  then show ?case
  proof cases
    case none
    then have "topmost_loop sub xmin ?p x = Some x" by (subst topmost_loop.simps) simp
    then show ?thesis using none v by (intro exI [of _ 0]) (simp add: step TransactionIdIsValid_def)
  next
    case old
    then have "topmost_loop sub xmin ?p x = Some ?p" by (subst topmost_loop.simps) simp
    then show ?thesis using old by (intro exI [of _ 1]) (simp add: step)
  next
    case up
    then have "TransactionIdPrecedes ?p x"
      using assms(1) less.prems by (auto simp: sub_ordered_def TransactionIdIsValid_def)
    then have c: "TransactionIdIsNormal ?p" "xid_age xmin ?p < xid_age xmin x"
      using parent_closer [OF assms(2) less.prems up] by simp_all
    then obtain k where k: "topmost_loop sub xmin ?p x = Some ((SubTransGetParent sub ^^ k) ?p)"
      "TransactionIdIsValid ((SubTransGetParent sub ^^ k) ?p)"
      "TransactionIdPrecedes ((SubTransGetParent sub ^^ k) ?p) xmin
       \<or> SubTransGetParent sub ((SubTransGetParent sub ^^ k) ?p) = InvalidTransactionId"
      using less.hyps [OF c(2,1), of x] less.prems(2) by force
    then show ?thesis by (intro exI [of _ "Suc k"]) (simp add: step funpow_Suc_right del: funpow.simps)
  qed
qed

text \<open>Looking up the topmost transaction ends: with parents older than their children
  the loop follows the parent links to a transaction that has no parent or is
  older than xmin, and returns it.\<close>

theorem SubTransGetTopmostTransaction_returns:
  assumes "sub_ordered sub xmin" "TransactionIdIsNormal xmin" "TransactionIdIsNormal x" "xid_age xmin x < 2 ^ 31"
  shows "\<exists>k top. SubTransGetTopmostTransaction sub xmin x = Some top \<and> top = (SubTransGetParent sub ^^ k) x
    \<and> TransactionIdIsValid top
    \<and> (TransactionIdPrecedes top xmin \<or> SubTransGetParent sub top = InvalidTransactionId)"
  using topmost_loop_returns [OF assms, of x] by (auto simp: SubTransGetTopmostTransaction_def)

lemma sub_zero_parent: "SubTransGetParent sub_zero x = InvalidTransactionId"
  by (simp add: SubTransGetParent_def sub_zero_def entry_less)

theorem SubTransGetTopmostTransaction_returns_witness:
  "\<exists>top. SubTransGetTopmostTransaction (SubTransSetParent 100 50 sub_zero) 40 100 = Some top"
proof -
  have mem: "SubTransGetParent (SubTransSetParent 100 50 sub_zero) x \<in> {InvalidTransactionId, if x = 100 then 50 else InvalidTransactionId}" for x
    using sub_position_inj [of x 100] sub_zero_parent [of x] entry_less sub_zero_wf
    by (auto simp: SubTransGetParent_def SubTransSetParent_def Let_def nth_list_update sub_zero_def)
  have "TransactionIdPrecedes 50 100"
    by (simp add: TransactionIdPrecedes_def TransactionIdIsNormal_def FirstNormalTransactionId_def)
  then have "SubTransGetParent (SubTransSetParent 100 50 sub_zero) x = InvalidTransactionId
      \<or> TransactionIdPrecedes (SubTransGetParent (SubTransSetParent 100 50 sub_zero) x) x" for x
    using mem [of x] by (cases "x = 100") auto
  then have "sub_ordered (SubTransSetParent 100 50 sub_zero) 40"
    unfolding sub_ordered_def by blast
  then show ?thesis
    using SubTransGetTopmostTransaction_returns [of "SubTransSetParent 100 50 sub_zero" 40 100]
    by (auto simp: TransactionIdIsNormal_def FirstNormalTransactionId_def xid_age_def)
qed

section \<open>Startup\<close>

lemma startup_loop_le:
  assumes "startup_loop sub s e = Some r"
  shows "s \<le> e"
  by (rule startup_loop.raw_induct [where P = "\<lambda>sub s e r. s \<le> e", OF _ assms])
    (fastforce split: if_splits dest: Suc_leD)

lemma startup_loop_zeroes:
  assumes "s \<le> e"
  shows "\<exists>r. startup_loop sub s e = Some r \<and> (\<forall>p. sub_page r p
     = (if s \<le> p \<and> p \<le> e then replicate SUBTRANS_XACTS_PER_PAGE InvalidTransactionId else sub_page sub p))"
  using assms
proof (induction "e - s" arbitrary: s sub)
  case 0
  then have "s = e" by simp
  then have "startup_loop sub s e = Some (ZeroSUBTRANSPage s sub)" by (subst startup_loop.simps) simp
  then show ?case using \<open>s = e\<close> by (auto simp: ZeroSUBTRANSPage_def)
next
  case (Suc n)
  then have "startup_loop sub s e = startup_loop (ZeroSUBTRANSPage s sub) (s + 1) e"
    by (subst startup_loop.simps) auto
  moreover obtain r where "startup_loop (ZeroSUBTRANSPage s sub) (s + 1) e = Some r" "\<forall>p. sub_page r p
     = (if s + 1 \<le> p \<and> p \<le> e then replicate SUBTRANS_XACTS_PER_PAGE InvalidTransactionId
        else sub_page (ZeroSUBTRANSPage s sub) p)"
  proof -
    have "n = e - (s + 1)" "s + 1 \<le> e" using Suc.hyps(2) by simp_all
    then show thesis using that Suc.hyps(1) [of "s + 1" "ZeroSUBTRANSPage s sub"] by blast
  qed
  ultimately show ?case using Suc.hyps(2) by (auto simp: ZeroSUBTRANSPage_def)
qed



end
