(* ===== verification/Xact_Status.thy ===== *)
theory Xact_Status
  imports Clog Subtrans
begin

text \<open>
  Did a transaction commit?  The interface functions of
  \<^verbatim>\<open>access/transam/transam.c\<close> on top of the commit log and the subtransaction
  log, with the one-item cache each backend keeps.
\<close>

section \<open>Operations\<close>

record XactCache =
  cachedFetchXid :: TransactionId
  cachedFetchXidStatus :: XidStatus
  cachedCommitLSN :: XLogRecPtr

definition TransactionLogFetch :: "ClogData \<Rightarrow> XactCache \<Rightarrow> TransactionId \<Rightarrow> XidStatus \<times> XactCache" where
  "TransactionLogFetch clog cache xid =
     (if xid = cachedFetchXid cache then (cachedFetchXidStatus cache, cache)
      else if \<not> TransactionIdIsNormal xid then
        (if xid = BootstrapTransactionId then TRANSACTION_STATUS_COMMITTED
         else if xid = FrozenTransactionId then TRANSACTION_STATUS_COMMITTED
         else TRANSACTION_STATUS_ABORTED, cache)
      else let (xidstatus, xidlsn) = TransactionIdGetStatus clog xid in
           if xidstatus \<noteq> TRANSACTION_STATUS_IN_PROGRESS \<and> xidstatus \<noteq> TRANSACTION_STATUS_SUB_COMMITTED
           then (xidstatus, \<lparr>cachedFetchXid = xid, cachedFetchXidStatus = xidstatus, cachedCommitLSN = xidlsn\<rparr>)
           else (xidstatus, cache))"

text \<open>The recursions through the parents may in principle not end; None stands for that.\<close>

partial_function (option) TransactionIdDidCommit ::
    "ClogData \<Rightarrow> SubTransData \<Rightarrow> TransactionId \<Rightarrow> XactCache \<Rightarrow> TransactionId \<Rightarrow> (bool \<times> XactCache) option" where
  "TransactionIdDidCommit clog sub TransactionXmin cache xid =
     (case TransactionLogFetch clog cache xid of (xidstatus, cache1) \<Rightarrow>
        if xidstatus = TRANSACTION_STATUS_COMMITTED then Some (True, cache1)
        else if xidstatus = TRANSACTION_STATUS_SUB_COMMITTED then
          if TransactionIdPrecedes xid TransactionXmin then Some (False, cache1)
          else if \<not> TransactionIdIsValid (SubTransGetParent sub xid) then Some (False, cache1)
          else TransactionIdDidCommit clog sub TransactionXmin cache1 (SubTransGetParent sub xid)
        else Some (False, cache1))"

partial_function (option) TransactionIdDidAbort ::
    "ClogData \<Rightarrow> SubTransData \<Rightarrow> TransactionId \<Rightarrow> XactCache \<Rightarrow> TransactionId \<Rightarrow> (bool \<times> XactCache) option" where
  "TransactionIdDidAbort clog sub TransactionXmin cache xid =
     (case TransactionLogFetch clog cache xid of (xidstatus, cache1) \<Rightarrow>
        if xidstatus = TRANSACTION_STATUS_ABORTED then Some (True, cache1)
        else if xidstatus = TRANSACTION_STATUS_SUB_COMMITTED then
          if TransactionIdPrecedes xid TransactionXmin then Some (True, cache1)
          else if \<not> TransactionIdIsValid (SubTransGetParent sub xid) then Some (True, cache1)
          else TransactionIdDidAbort clog sub TransactionXmin cache1 (SubTransGetParent sub xid)
        else Some (False, cache1))"

definition TransactionIdIsKnownCompleted :: "XactCache \<Rightarrow> TransactionId \<Rightarrow> bool" where
  "TransactionIdIsKnownCompleted cache xid = (xid = cachedFetchXid cache)"

definition TransactionIdCommitTree :: "bool \<Rightarrow> TransactionId \<Rightarrow> nat \<Rightarrow> (nat \<Rightarrow> TransactionId) \<Rightarrow> ClogData \<Rightarrow> ClogData" where
  "TransactionIdCommitTree InRecovery xid nxids xids =
     TransactionIdSetTreeStatus InRecovery xid nxids xids TRANSACTION_STATUS_COMMITTED InvalidXLogRecPtr"

definition TransactionIdAsyncCommitTree ::
    "bool \<Rightarrow> TransactionId \<Rightarrow> nat \<Rightarrow> (nat \<Rightarrow> TransactionId) \<Rightarrow> XLogRecPtr \<Rightarrow> ClogData \<Rightarrow> ClogData" where
  "TransactionIdAsyncCommitTree InRecovery xid nxids xids lsn =
     TransactionIdSetTreeStatus InRecovery xid nxids xids TRANSACTION_STATUS_COMMITTED lsn"

definition TransactionIdAbortTree :: "bool \<Rightarrow> TransactionId \<Rightarrow> nat \<Rightarrow> (nat \<Rightarrow> TransactionId) \<Rightarrow> ClogData \<Rightarrow> ClogData" where
  "TransactionIdAbortTree InRecovery xid nxids xids =
     TransactionIdSetTreeStatus InRecovery xid nxids xids TRANSACTION_STATUS_ABORTED InvalidXLogRecPtr"

definition TransactionIdGetCommitLSN :: "ClogData \<Rightarrow> XactCache \<Rightarrow> TransactionId \<Rightarrow> XLogRecPtr" where
  "TransactionIdGetCommitLSN clog cache xid =
     (if xid = cachedFetchXid cache then cachedCommitLSN cache
      else if \<not> TransactionIdIsNormal xid then InvalidXLogRecPtr
      else snd (TransactionIdGetStatus clog xid))"

section \<open>Specification\<close>

text \<open>
  The status of an identifier, permanent ones included, and the outcome of a
  transaction: it is its own status, or, for a sub-committed one that is not
  older than xmin and has a parent, the outcome of the parent.
\<close>

definition xact_status :: "(TransactionId \<Rightarrow> XidStatus) \<Rightarrow> TransactionId \<Rightarrow> XidStatus" where
  "xact_status status x =
     (if TransactionIdIsNormal x then status x
      else if x = BootstrapTransactionId \<or> x = FrozenTransactionId then TRANSACTION_STATUS_COMMITTED
      else TRANSACTION_STATUS_ABORTED)"

definition asks_parent :: "(TransactionId \<Rightarrow> XidStatus) \<Rightarrow> SubTransData \<Rightarrow> TransactionId \<Rightarrow> TransactionId \<Rightarrow> bool" where
  "asks_parent status sub xmin x \<longleftrightarrow>
     xact_status status x = TRANSACTION_STATUS_SUB_COMMITTED \<and> \<not> TransactionIdPrecedes x xmin
     \<and> TransactionIdIsValid (SubTransGetParent sub x)"

inductive did_commit :: "(TransactionId \<Rightarrow> XidStatus) \<Rightarrow> SubTransData \<Rightarrow> TransactionId \<Rightarrow> TransactionId \<Rightarrow> bool"
  for status sub xmin where
  own: "xact_status status x = TRANSACTION_STATUS_COMMITTED \<Longrightarrow> did_commit status sub xmin x"
| inherited: "asks_parent status sub xmin x \<Longrightarrow> did_commit status sub xmin (SubTransGetParent sub x)
    \<Longrightarrow> did_commit status sub xmin x"

inductive did_abort :: "(TransactionId \<Rightarrow> XidStatus) \<Rightarrow> SubTransData \<Rightarrow> TransactionId \<Rightarrow> TransactionId \<Rightarrow> bool"
  for status sub xmin where
  own: "xact_status status x = TRANSACTION_STATUS_ABORTED \<Longrightarrow> did_abort status sub xmin x"
| orphan: "xact_status status x = TRANSACTION_STATUS_SUB_COMMITTED \<Longrightarrow> \<not> asks_parent status sub xmin x
    \<Longrightarrow> did_abort status sub xmin x"
| inherited: "asks_parent status sub xmin x \<Longrightarrow> did_abort status sub xmin (SubTransGetParent sub x)
    \<Longrightarrow> did_abort status sub xmin x"

inductive_simps did_commit_unfold: "did_commit status sub xmin x"
inductive_simps did_abort_unfold: "did_abort status sub xmin x"

definition cache_ok :: "ClogData \<Rightarrow> XactCache \<Rightarrow> bool" where
  "cache_ok clog cache \<longleftrightarrow>
     \<not> TransactionIdIsValid (cachedFetchXid cache)
     \<or> TransactionIdIsNormal (cachedFetchXid cache)
       \<and> cachedFetchXidStatus cache = clog_status clog (cachedFetchXid cache)
       \<and> cachedFetchXidStatus cache \<in> {TRANSACTION_STATUS_COMMITTED, TRANSACTION_STATUS_ABORTED}"

lemma valid_ne_0: "TransactionIdIsValid x \<longleftrightarrow> x \<noteq> 0"
  by (simp add: TransactionIdIsValid_def InvalidTransactionId_def)

lemma normal_valid: "TransactionIdIsNormal x \<Longrightarrow> TransactionIdIsValid x"
  by (auto simp: normal_ge_3 valid_ne_0)

lemma TransactionLogFetch_spec:
  assumes "cache_ok clog cache" "TransactionIdIsValid x"
  shows "fst (TransactionLogFetch clog cache x) = xact_status (clog_status clog) x
    \<and> cache_ok clog (snd (TransactionLogFetch clog cache x))"
proof (cases "x = cachedFetchXid cache")
  case True
  then have "xact_status (clog_status clog) x = cachedFetchXidStatus cache"
    using assms by (metis cache_ok_def xact_status_def)
  then show ?thesis using True assms(1) by (simp add: TransactionLogFetch_def)
next
  case False
  obtain st lsn where g: "TransactionIdGetStatus clog x = (st, lsn)" by fastforce
  then have cs: "clog_status clog x = st" by (simp add: clog_status_def)
  have hit: "cache_ok clog \<lparr>cachedFetchXid = x, cachedFetchXidStatus = st, cachedCommitLSN = lsn\<rparr>"
    if "TransactionIdIsNormal x" "st \<in> {TRANSACTION_STATUS_COMMITTED, TRANSACTION_STATUS_ABORTED}"
    using that cs by (simp add: cache_ok_def)
  show ?thesis
    using False assms(1) hit cs g by (cases st) (simp_all add: TransactionLogFetch_def xact_status_def)
qed

text \<open>The parent of a transaction that asks it is younger than xmin or the chain stops there.\<close>

definition xid_known :: "TransactionId \<Rightarrow> TransactionId \<Rightarrow> bool" where
  "xid_known xmin x \<longleftrightarrow> TransactionIdIsValid x
     \<and> (TransactionIdIsNormal x \<longrightarrow> xid_age xmin x < 2 ^ 31 \<or> TransactionIdPrecedes x xmin)"

lemma asks_parent_closer:
  assumes "sub_ordered sub xmin" "TransactionIdIsNormal xmin" "xid_known xmin x" "asks_parent status sub xmin x"
  shows "TransactionIdIsNormal x" "xid_age xmin x < 2 ^ 31" "xid_known xmin (SubTransGetParent sub x)"
    "asks_parent status sub xmin (SubTransGetParent sub x) \<Longrightarrow> xid_age xmin (SubTransGetParent sub x) < xid_age xmin x"
proof -
  let ?p = "SubTransGetParent sub x"
  show x: "TransactionIdIsNormal x" "xid_age xmin x < 2 ^ 31"
    using assms(3,4) by (auto simp: asks_parent_def xid_known_def xact_status_def split: if_splits)
  have p: "TransactionIdIsValid ?p" "TransactionIdPrecedes ?p x"
    using assms(1,4) x by (auto simp: asks_parent_def sub_ordered_def TransactionIdIsValid_def)
  have closer: "\<not> TransactionIdPrecedes ?p xmin \<Longrightarrow> TransactionIdIsNormal ?p \<and> xid_age xmin ?p < xid_age xmin x"
    using parent_closer [OF assms(2) x p(1) _ p(2)] by simp
  then show "xid_known xmin ?p" using p(1) x(2) by (auto simp: xid_known_def)
  show "asks_parent status sub xmin ?p \<Longrightarrow> xid_age xmin ?p < xid_age xmin x"
    using closer by (simp add: asks_parent_def)
qed

section \<open>The answers\<close>

lemma did_commit_step:
  "did_commit status sub xmin x \<longleftrightarrow>
     (if asks_parent status sub xmin x then did_commit status sub xmin (SubTransGetParent sub x)
      else xact_status status x = TRANSACTION_STATUS_COMMITTED)"
  by (subst did_commit_unfold) (auto simp: asks_parent_def)

lemma did_abort_step:
  "did_abort status sub xmin x \<longleftrightarrow>
     (if asks_parent status sub xmin x then did_abort status sub xmin (SubTransGetParent sub x)
      else xact_status status x \<in> {TRANSACTION_STATUS_ABORTED, TRANSACTION_STATUS_SUB_COMMITTED})"
  by (subst did_abort_unfold) (auto simp: asks_parent_def)

lemma xid_known_valid: "xid_known xmin x \<Longrightarrow> TransactionIdIsValid x"
  by (simp add: xid_known_def)

text \<open>Induction along the parents that are asked.\<close>

lemma asks_parent_induct [consumes 3, case_names step]:
  assumes "sub_ordered sub xmin" "TransactionIdIsNormal xmin" "xid_known xmin x"
    and step: "\<And>x. xid_known xmin x
      \<Longrightarrow> (asks_parent status sub xmin x \<Longrightarrow> xid_known xmin (SubTransGetParent sub x) \<and> P (SubTransGetParent sub x)) \<Longrightarrow> P x"
  shows "P x"
  using assms(3)
proof (induction "if asks_parent status sub xmin x then Suc (xid_age xmin x) else 0" arbitrary: x rule: less_induct)
  case less
  show ?case
  proof (rule step [OF less.prems])
    assume a: "asks_parent status sub xmin x"
    note c = asks_parent_closer [OF assms(1,2) less.prems a]
    then show "xid_known xmin (SubTransGetParent sub x) \<and> P (SubTransGetParent sub x)"
      using a less.hyps [of "SubTransGetParent sub x"] by auto
  qed
qed

lemma TransactionIdDidCommit_spec:
  assumes "sub_ordered sub xmin" "TransactionIdIsNormal xmin" "xid_known xmin x" "cache_ok clog cache"
  shows "\<exists>cache'. TransactionIdDidCommit clog sub xmin cache x
      = Some (did_commit (clog_status clog) sub xmin x, cache') \<and> cache_ok clog cache'"
  using assms(1-3) assms(4)
proof (induction x arbitrary: cache rule: asks_parent_induct [where status = "clog_status clog"])
  case (step x)
  obtain st c1 where f: "TransactionLogFetch clog cache x = (st, c1)" by fastforce
  then have st: "st = xact_status (clog_status clog) x" and c1: "cache_ok clog c1"
    using TransactionLogFetch_spec [OF step.prems xid_known_valid [OF step.hyps(1)]] by auto
  show ?case
  proof (cases "asks_parent (clog_status clog) sub xmin x")
    case True
    then have "TransactionIdDidCommit clog sub xmin cache x = TransactionIdDidCommit clog sub xmin c1 (SubTransGetParent sub x)"
      by (subst TransactionIdDidCommit.simps) (simp add: f st asks_parent_def)
    then show ?thesis using step.IH [OF True] c1 True by (simp add: did_commit_step [of _ _ _ x])
  next
    case False
    then show ?thesis
      by (subst TransactionIdDidCommit.simps) (auto simp: f st c1 did_commit_step [of _ _ _ x] asks_parent_def)
  qed
qed

lemma TransactionIdDidAbort_spec:
  assumes "sub_ordered sub xmin" "TransactionIdIsNormal xmin" "xid_known xmin x" "cache_ok clog cache"
  shows "\<exists>cache'. TransactionIdDidAbort clog sub xmin cache x
      = Some (did_abort (clog_status clog) sub xmin x, cache') \<and> cache_ok clog cache'"
  using assms(1-3) assms(4)
proof (induction x arbitrary: cache rule: asks_parent_induct [where status = "clog_status clog"])
  case (step x)
  obtain st c1 where f: "TransactionLogFetch clog cache x = (st, c1)" by fastforce
  then have st: "st = xact_status (clog_status clog) x" and c1: "cache_ok clog c1"
    using TransactionLogFetch_spec [OF step.prems xid_known_valid [OF step.hyps(1)]] by auto
  show ?case
  proof (cases "asks_parent (clog_status clog) sub xmin x")
    case True
    then have "TransactionIdDidAbort clog sub xmin cache x = TransactionIdDidAbort clog sub xmin c1 (SubTransGetParent sub x)"
      by (subst TransactionIdDidAbort.simps) (simp add: f st asks_parent_def)
    then show ?thesis using step.IH [OF True] c1 True by (simp add: did_abort_step [of _ _ _ x])
  next
    case False
    then show ?thesis
      by (subst TransactionIdDidAbort.simps) (auto simp: f st c1 did_abort_step [of _ _ _ x] asks_parent_def)
  qed
qed

lemma did_commit_not_abort: "did_commit status sub xmin x \<Longrightarrow> \<not> did_abort status sub xmin x"
  by (induction rule: did_commit.induct) (auto simp: did_abort_step asks_parent_def)

text \<open>A tree of transactions: every member asks a parent inside the tree, unless its status is decided.\<close>

definition tree_links :: "SubTransData \<Rightarrow> TransactionId \<Rightarrow> TransactionId \<Rightarrow> TransactionId set \<Rightarrow> bool" where
  "tree_links sub xmin root subs \<longleftrightarrow>
     (\<forall>y \<in> subs. TransactionIdIsNormal y \<and> xid_age xmin y < 2 ^ 31
        \<and> (SubTransGetParent sub y = root \<or> SubTransGetParent sub y \<in> subs))"

lemma window_not_precedes:
  assumes "TransactionIdIsNormal xmin" "TransactionIdIsNormal y" "xid_age xmin y < 2 ^ 31"
  shows "xid_known xmin y" "\<not> TransactionIdPrecedes y xmin"
  using assms precedes_normal_window(1) [of y xmin xmin] by (auto simp: xid_known_def normal_valid xid_age_def)

definition commit_in_progress :: "(TransactionId \<Rightarrow> XidStatus) \<Rightarrow> TransactionId \<Rightarrow> TransactionId set \<Rightarrow> bool" where
  "commit_in_progress g root subs \<longleftrightarrow>
     g root = TRANSACTION_STATUS_IN_PROGRESS
       \<and> (\<forall>y \<in> subs. g y \<in> {TRANSACTION_STATUS_IN_PROGRESS, TRANSACTION_STATUS_SUB_COMMITTED})
     \<or> g root = TRANSACTION_STATUS_COMMITTED
       \<and> (\<forall>y \<in> subs. g y \<in> {TRANSACTION_STATUS_COMMITTED, TRANSACTION_STATUS_SUB_COMMITTED})"

lemma tree_asks:
  assumes "tree_links sub xmin root subs" "TransactionIdIsNormal xmin" "TransactionIdIsNormal root"
    and "y \<in> subs" "g y = TRANSACTION_STATUS_SUB_COMMITTED"
  shows "asks_parent g sub xmin y"
proof -
  have y: "TransactionIdIsNormal y" "xid_age xmin y < 2 ^ 31" "TransactionIdIsNormal (SubTransGetParent sub y)"
    using assms(1,3,4) unfolding tree_links_def by metis+
  then show ?thesis
    using assms(5) window_not_precedes(2) [OF assms(2) y(1,2)] by (simp add: asks_parent_def xact_status_def normal_valid)
qed

lemma commit_in_progress_did:
  assumes ord: "sub_ordered sub xmin" "TransactionIdIsNormal xmin"
    and root: "TransactionIdIsNormal root" "xid_known xmin root"
    and tree: "tree_links sub xmin root subs" and g: "commit_in_progress g root subs"
    and y: "y \<in> insert root subs"
  shows "(did_commit g sub xmin y \<longleftrightarrow> g root = TRANSACTION_STATUS_COMMITTED) \<and> \<not> did_abort g sub xmin y"
proof -
  have "xid_known xmin y" using y root tree window_not_precedes(1) [OF ord(2)] by (auto simp: tree_links_def)
  with ord show ?thesis using y
  proof (induction y rule: asks_parent_induct [where status = g])
    case (step y)
    show ?case
    proof (cases "y \<in> subs \<and> y \<noteq> root")
      case True
      then have n: "TransactionIdIsNormal y" and p: "SubTransGetParent sub y \<in> insert root subs"
        using tree by (auto simp: tree_links_def)
      show ?thesis
      proof (cases "g y = TRANSACTION_STATUS_SUB_COMMITTED")
        case sub: True
        then have a: "asks_parent g sub xmin y"
          using True tree_asks [OF tree ord(2) root(1)] by simp
        from step.IH [OF a] p
        have "(did_commit g sub xmin (SubTransGetParent sub y) \<longleftrightarrow> g root = TRANSACTION_STATUS_COMMITTED)
            \<and> \<not> did_abort g sub xmin (SubTransGetParent sub y)" by blast
        with a show ?thesis by (simp add: did_commit_step [of _ _ _ y] did_abort_step [of _ _ _ y])
      next
        case False
        then have "\<not> asks_parent g sub xmin y" using n by (simp add: asks_parent_def xact_status_def)
        with False True n g show ?thesis
          by (auto simp: did_commit_step [of _ _ _ y] did_abort_step [of _ _ _ y] xact_status_def commit_in_progress_def)
      qed
    next
      case False
      then have [simp]: "y = root" using step.prems by auto
      have "g root \<noteq> TRANSACTION_STATUS_SUB_COMMITTED" "g root \<noteq> TRANSACTION_STATUS_ABORTED"
        using g by (auto simp: commit_in_progress_def)
      with root show ?thesis
        by (simp add: did_commit_step [of _ _ _ root] did_abort_step [of _ _ _ root] xact_status_def asks_parent_def)
    qed
  qed
qed

text \<open>The page updates of a commit keep the statuses in progress, up to any update.\<close>

definition clog_during :: "bool \<Rightarrow> XLogRecPtr \<Rightarrow> TransactionId \<Rightarrow> nat \<Rightarrow> (nat \<Rightarrow> TransactionId) \<Rightarrow> ClogData \<Rightarrow> nat \<Rightarrow> ClogData" where
  "clog_during rec lsn xid n subxids clog k =
     fold (run_call rec lsn) (take k (set_tree_status_calls xid n subxids TRANSACTION_STATUS_COMMITTED)) clog"

definition commit_starts :: "ClogData \<Rightarrow> TransactionId \<Rightarrow> nat \<Rightarrow> (nat \<Rightarrow> TransactionId) \<Rightarrow> bool" where
  "commit_starts clog xid n subxids \<longleftrightarrow>
     clog_wf clog \<and> TransactionIdIsNormal xid \<and> xid \<notin> subxids ` {..<n}
     \<and> clog_status clog xid = TRANSACTION_STATUS_IN_PROGRESS
     \<and> (\<forall>j < n. clog_status clog (subxids j) \<in> {TRANSACTION_STATUS_IN_PROGRESS, TRANSACTION_STATUS_SUB_COMMITTED})"

lemma clog_during_in_progress:
  assumes "commit_starts clog xid n subxids"
  shows "commit_in_progress (clog_status (clog_during rec lsn xid n subxids clog k)) xid (subxids ` {..<n})"
proof -
  define S where "S = subxids ` {..<n}"
  define f where "f = clog_status clog"
  define g where "g = clog_status (clog_during rec lsn xid n subxids clog k)"
  have st: "clog_wf clog" "TransactionIdIsValid xid" "xid \<notin> S" "f xid = TRANSACTION_STATUS_IN_PROGRESS"
    "\<forall>y \<in> S. f y \<in> {TRANSACTION_STATUS_IN_PROGRESS, TRANSACTION_STATUS_SUB_COMMITTED}"
    using assms by (auto simp: commit_starts_def normal_valid S_def f_def)
  have "g xid = f xid \<and> (\<forall>y \<in> insert xid S. g y \<in> {f y, TRANSACTION_STATUS_SUB_COMMITTED})
      \<or> g xid = TRANSACTION_STATUS_COMMITTED
        \<and> (\<forall>y \<in> insert xid S. g y \<in> {TRANSACTION_STATUS_COMMITTED, TRANSACTION_STATUS_SUB_COMMITTED})"
    using commit_prefix [OF st(1,2) st(3) [unfolded S_def], of rec lsn k]
    unfolding g_def f_def S_def clog_during_def by (elim conjE)
  then have "commit_in_progress g xid S"
  proof
    assume a: "g xid = f xid \<and> (\<forall>y \<in> insert xid S. g y \<in> {f y, TRANSACTION_STATUS_SUB_COMMITTED})"
    have "g y \<in> {TRANSACTION_STATUS_IN_PROGRESS, TRANSACTION_STATUS_SUB_COMMITTED}" if "y \<in> S" for y
      using that a bspec [OF st(5) that] by auto
    then show ?thesis using a st(4) unfolding commit_in_progress_def by simp
  qed (simp add: commit_in_progress_def)
  then show ?thesis by (simp add: g_def S_def)
qed

lemma clog_during_ends:
  assumes "commit_starts clog xid n subxids"
    and "length (set_tree_status_calls xid n subxids TRANSACTION_STATUS_COMMITTED) \<le> k"
  shows "clog_status (clog_during rec lsn xid n subxids clog k) xid = TRANSACTION_STATUS_COMMITTED"
  using SetTreeStatus_status [of clog xid TRANSACTION_STATUS_COMMITTED rec n subxids lsn] assms normal_valid [of xid]
  by (simp add: clog_during_def commit_starts_def TransactionIdSetTreeStatus_def)

text \<open>C9. Commits are atomic.  Between any two of the page updates by which the commit of
  a tree of transactions is recorded, all members of the tree report the same:
  either none has committed or all have, and none is reported aborted; before the
  first update none has, after the last all have.  The questions always return,
  whatever the backend that asks has in its cache.\<close>

theorem TransactionIdCommitTree_atomic:
  fixes rec :: bool and lsn :: XLogRecPtr and k :: nat
  assumes "commit_starts clog xid n subxids"
    and "sub_ordered sub xmin" "TransactionIdIsNormal xmin" "xid_known xmin xid"
    and "tree_links sub xmin xid (subxids ` {..<n})"
  defines "now \<equiv> clog_during rec lsn xid n subxids clog k"
  shows "\<exists>committed. (k = 0 \<longrightarrow> \<not> committed)
    \<and> (length (set_tree_status_calls xid n subxids TRANSACTION_STATUS_COMMITTED) \<le> k \<longrightarrow> committed)
    \<and> (\<forall>y \<in> insert xid (subxids ` {..<n}). \<forall>cache. cache_ok now cache \<longrightarrow>
         (\<exists>cache'. TransactionIdDidCommit now sub xmin cache y = Some (committed, cache'))
         \<and> (\<exists>cache'. TransactionIdDidAbort now sub xmin cache y = Some (False, cache')))"
proof (intro exI conjI)
  let ?c = "clog_status now xid = TRANSACTION_STATUS_COMMITTED"
  have nx: "TransactionIdIsNormal xid" using assms(1) by (simp add: commit_starts_def)
  show "k = 0 \<longrightarrow> \<not> ?c" using assms(1) by (simp add: now_def clog_during_def commit_starts_def)
  show "length (set_tree_status_calls xid n subxids TRANSACTION_STATUS_COMMITTED) \<le> k \<longrightarrow> ?c"
    using clog_during_ends [OF assms(1)] by (simp add: now_def)
  show "\<forall>y \<in> insert xid (subxids ` {..<n}). \<forall>cache. cache_ok now cache \<longrightarrow>
         (\<exists>cache'. TransactionIdDidCommit now sub xmin cache y = Some (?c, cache'))
         \<and> (\<exists>cache'. TransactionIdDidAbort now sub xmin cache y = Some (False, cache'))"
  proof (intro ballI allI impI)
    fix y cache assume y: "y \<in> insert xid (subxids ` {..<n})" and cache: "cache_ok now cache"
    have "xid_known xmin y"
      using y assms(4,5) window_not_precedes(1) [OF assms(3)] by (auto simp: tree_links_def)
    note specs = TransactionIdDidCommit_spec [OF assms(2,3) this cache] TransactionIdDidAbort_spec [OF assms(2,3) this cache]
    from commit_in_progress_did [OF assms(2,3) nx assms(4,5) clog_during_in_progress [OF assms(1)] y, of rec lsn k] specs
    show "(\<exists>cache'. TransactionIdDidCommit now sub xmin cache y = Some (?c, cache'))
         \<and> (\<exists>cache'. TransactionIdDidAbort now sub xmin cache y = Some (False, cache'))"
      by (auto simp: now_def)
  qed
qed

lemma SubTrans_one_parent:
  assumes "p \<noteq> InvalidTransactionId" "TransactionIdIsNormal c"
  shows "SubTransGetParent (SubTransSetParent c p sub_zero) x = (if x = c then p else InvalidTransactionId)"
  using assms sub_position_inj [of x c] sub_zero_parent [of x] entry_less sub_zero_wf
  by (auto simp: SubTransGetParent_def SubTransSetParent_def Let_def nth_list_update sub_zero_def)

theorem TransactionIdCommitTree_atomic_witness:
  "\<exists>committed c1 c2.
     TransactionIdDidCommit (clog_during False InvalidXLogRecPtr 40000 1 (\<lambda>_. 80000) clog_zero 2)
       (SubTransSetParent 80000 40000 sub_zero) 39000
       \<lparr>cachedFetchXid = 0, cachedFetchXidStatus = TRANSACTION_STATUS_IN_PROGRESS, cachedCommitLSN = InvalidXLogRecPtr\<rparr> 40000
       = Some (committed, c1)
   \<and> TransactionIdDidCommit (clog_during False InvalidXLogRecPtr 40000 1 (\<lambda>_. 80000) clog_zero 2)
       (SubTransSetParent 80000 40000 sub_zero) 39000
       \<lparr>cachedFetchXid = 0, cachedFetchXidStatus = TRANSACTION_STATUS_IN_PROGRESS, cachedCommitLSN = InvalidXLogRecPtr\<rparr> 80000
       = Some (committed, c2)"
proof -
  let ?sub = "SubTransSetParent 80000 40000 sub_zero"
  let ?cache = "\<lparr>cachedFetchXid = 0, cachedFetchXidStatus = TRANSACTION_STATUS_IN_PROGRESS, cachedCommitLSN = InvalidXLogRecPtr\<rparr>"
  note nums = TransactionIdIsNormal_def FirstNormalTransactionId_def TransactionIdIsValid_def InvalidTransactionId_def
    TransactionIdPrecedes_def xid_age_def
  have st: "commit_starts clog_zero 40000 1 (\<lambda>_. 80000)"
    using clog_zero_wf by (auto simp: commit_starts_def nums)
  have par: "SubTransGetParent ?sub x = (if x = 80000 then 40000 else InvalidTransactionId)" for x
    by (rule SubTrans_one_parent) (simp_all add: nums)
  have ord: "sub_ordered ?sub 39000" by (simp add: sub_ordered_def par) (simp add: nums)
  have links: "tree_links ?sub 39000 40000 ((\<lambda>_. 80000) ` {..<Suc 0})"
    by (simp add: tree_links_def par) (simp add: nums)
  have known: "TransactionIdIsNormal 39000" "xid_known 39000 40000" by (simp_all add: xid_known_def nums)
  have cache: "cache_ok clog ?cache" for clog by (simp add: cache_ok_def nums)
  define now where "now = clog_during False InvalidXLogRecPtr 40000 1 (\<lambda>_. 80000) clog_zero 2"
  obtain committed where all: "\<forall>y \<in> insert 40000 ((\<lambda>_. 80000) ` {..<1::nat}). \<forall>cache. cache_ok now cache \<longrightarrow>
         (\<exists>cache'. TransactionIdDidCommit now ?sub 39000 cache y = Some (committed, cache'))
         \<and> (\<exists>cache'. TransactionIdDidAbort now ?sub 39000 cache y = Some (False, cache'))"
    using TransactionIdCommitTree_atomic [OF st ord known links [folded One_nat_def], of 2 False InvalidXLogRecPtr]
    unfolding now_def by (elim exE conjE)
  have "\<exists>c. TransactionIdDidCommit now ?sub 39000 ?cache y = Some (committed, c)"
    if "y \<in> insert 40000 ((\<lambda>_. 80000) ` {..<1::nat})" for y
    using bspec [OF all that] cache [of now] by (elim allE [of _ ?cache]) simp
  from this [of 40000] this [of 80000] show ?thesis unfolding now_def by auto
qed

text \<open>
  A backend asking while the commit is being recorded reads the statuses one after
  the other, and updates may come in between.  \<open>commit_read\<close> is
  TransactionIdDidCommit with the log advancing between its reads.
\<close>

inductive commit_read :: "(nat \<Rightarrow> TransactionId \<Rightarrow> XidStatus) \<Rightarrow> SubTransData \<Rightarrow> TransactionId
    \<Rightarrow> nat \<Rightarrow> TransactionId \<Rightarrow> nat \<Rightarrow> bool \<Rightarrow> bool" for g sub xmin where
  stop: "\<not> asks_parent (g k) sub xmin x
    \<Longrightarrow> commit_read g sub xmin k x k (xact_status (g k) x = TRANSACTION_STATUS_COMMITTED)"
| ask: "asks_parent (g k) sub xmin x \<Longrightarrow> k \<le> k' \<Longrightarrow> commit_read g sub xmin k' (SubTransGetParent sub x) k'' b
    \<Longrightarrow> commit_read g sub xmin k x k'' b"

lemma run_calls_stay_committed:
  assumes "clog_wf clog" "\<forall>c \<in> set cs. call_ok c \<and> (call_status c = TRANSACTION_STATUS_COMMITTED \<or> x \<notin> call_set c)"
    and "clog_status clog x = TRANSACTION_STATUS_COMMITTED"
  shows "clog_status (fold (run_call rec lsn) cs clog) x = TRANSACTION_STATUS_COMMITTED"
  using assms
proof (induction cs arbitrary: clog)
  case (Cons c cs)
  then have "clog_wf (run_call rec lsn c clog)" "clog_status (run_call rec lsn c clog) x = TRANSACTION_STATUS_COMMITTED"
    using run_call_status [of clog c rec lsn] by (auto simp: set_statuses_def)
  then show ?case using Cons by simp
qed simp

lemma clog_during_mono:
  assumes st: "commit_starts clog xid n subxids" and "k \<le> k'"
    and now: "clog_status (clog_during rec lsn xid n subxids clog k) xid = TRANSACTION_STATUS_COMMITTED"
  shows "clog_status (clog_during rec lsn xid n subxids clog k') xid = TRANSACTION_STATUS_COMMITTED"
proof -
  define cs where "cs = set_tree_status_calls xid n subxids TRANSACTION_STATUS_COMMITTED"
  have ne: "TRANSACTION_STATUS_COMMITTED \<noteq> TRANSACTION_STATUS_SUB_COMMITTED" by simp
  have ok: "\<forall>c \<in> set cs. call_ok c \<and> (call_status c = TRANSACTION_STATUS_COMMITTED \<or> xid \<notin> call_set c)"
    using st unfolding cs_def commit_starts_def
    by (elim conjE) (rule set_tree_status_calls_spec [OF normal_valid ne, of xid n subxids], auto)
  have split: "take k' cs = take k cs @ drop k (take k' cs)"
    using assms(2) by (metis append_take_drop_id min.absorb1 take_take)
  have "clog_wf (fold (run_call rec lsn) (take k cs) clog)"
    by (rule run_calls_wf) (use st ok in \<open>auto simp: commit_starts_def dest: in_set_takeD\<close>)
  moreover have "\<forall>c \<in> set (drop k (take k' cs)). call_ok c \<and> (call_status c = TRANSACTION_STATUS_COMMITTED \<or> xid \<notin> call_set c)"
    using ok by (meson in_set_dropD in_set_takeD)
  ultimately have "clog_status (fold (run_call rec lsn) (drop k (take k' cs)) (fold (run_call rec lsn) (take k cs) clog)) xid
      = TRANSACTION_STATUS_COMMITTED"
    using now run_calls_stay_committed unfolding clog_during_def cs_def [symmetric] by blast
  then show ?thesis unfolding clog_during_def cs_def [symmetric] by (subst split) (simp only: fold_append comp_apply)
qed

lemma commit_read_spec:
  assumes "commit_read g sub xmin k y k' b"
    and "TransactionIdIsNormal xmin" "TransactionIdIsNormal root"
    and "tree_links sub xmin root subs" "\<And>k. commit_in_progress (g k) root subs"
    and "y \<in> insert root subs"
  shows "k \<le> k' \<and> (b \<longrightarrow> g k' root = TRANSACTION_STATUS_COMMITTED)
    \<and> (\<not> b \<longrightarrow> g k root \<noteq> TRANSACTION_STATUS_COMMITTED \<or> (\<exists>j. k \<le> j \<and> j \<le> k' \<and> g j root \<noteq> TRANSACTION_STATUS_COMMITTED))"
  using assms(1,6)
proof (induction rule: commit_read.induct)
  case (stop k x)
  have "TransactionIdIsNormal x" using stop assms(3,4) by (auto simp: tree_links_def)
  then have st: "xact_status (g k) x = g k x" by (simp add: xact_status_def)
  have "g k x \<noteq> TRANSACTION_STATUS_SUB_COMMITTED"
  proof (cases "x \<in> subs")
    case True
    then show ?thesis using stop.hyps tree_asks [OF assms(4,2,3) True, of "g k"] by blast
  next
    case False
    then show ?thesis using stop.prems assms(5) [of k] by (auto simp: commit_in_progress_def)
  qed
  then show ?case using stop.prems assms(5) [of k] unfolding st commit_in_progress_def by auto
next
  case (ask k x k' k'' b)
  have "x \<noteq> root"
    using ask.hyps(1) assms(3) assms(5) [of k] by (auto simp: asks_parent_def xact_status_def commit_in_progress_def)
  then have "SubTransGetParent sub x \<in> insert root subs" using ask.prems assms(4) by (auto simp: tree_links_def)
  then show ?case using ask.IH ask.hyps(2) by (meson order_trans order_refl)
qed

text \<open>C10. Reading while the commit is under way is safe.  When updates of the commit come
  between the reads of one question, the answer is still that of a single moment
  during the question: yes only if the tree has committed when the question ends,
  no only if it had not committed when it began.\<close>

theorem TransactionIdDidCommit_linearizable:
  assumes "commit_starts clog xid n subxids" "TransactionIdIsNormal xmin"
    and "tree_links sub xmin xid (subxids ` {..<n})" "y = xid \<or> (\<exists>j < n. y = subxids j)"
    and "commit_read (\<lambda>k. clog_status (clog_during rec lsn xid n subxids clog k)) sub xmin k y k' b"
  shows "k \<le> k'
    \<and> (b \<longrightarrow> clog_status (clog_during rec lsn xid n subxids clog k') xid = TRANSACTION_STATUS_COMMITTED)
    \<and> (\<not> b \<longrightarrow> clog_status (clog_during rec lsn xid n subxids clog k) xid = TRANSACTION_STATUS_IN_PROGRESS)"
proof -
  have nx: "TransactionIdIsNormal xid" and y: "y \<in> insert xid (subxids ` {..<n})"
    using assms(1,4) by (auto simp: commit_starts_def)
  note r = commit_read_spec [OF assms(5,2) nx assms(3) clog_during_in_progress [OF assms(1)] y]
  moreover have "clog_status (clog_during rec lsn xid n subxids clog k) xid
      \<in> {TRANSACTION_STATUS_IN_PROGRESS, TRANSACTION_STATUS_COMMITTED}"
    using clog_during_in_progress [OF assms(1), of rec lsn k] by (auto simp: commit_in_progress_def)
  ultimately show ?thesis using clog_during_mono [OF assms(1)] by blast
qed

theorem TransactionIdDidCommit_linearizable_witness:
  "clog_status (clog_during False InvalidXLogRecPtr 40000 1 (\<lambda>_. 80000) clog_zero 0) 40000 = TRANSACTION_STATUS_IN_PROGRESS"
proof -
  let ?sub = "SubTransSetParent 80000 40000 sub_zero"
  let ?g = "\<lambda>k. clog_status (clog_during False InvalidXLogRecPtr 40000 1 (\<lambda>_. 80000) clog_zero k)"
  note nums = TransactionIdIsNormal_def FirstNormalTransactionId_def InvalidTransactionId_def xid_age_def
  have st: "commit_starts clog_zero 40000 1 (\<lambda>_. 80000)"
    using clog_zero_wf by (auto simp: commit_starts_def nums)
  have links: "tree_links ?sub 39000 40000 ((\<lambda>_. 80000) ` {..<1})"
    by (simp add: tree_links_def SubTrans_one_parent nums)
  have zero: "?g 0 = (\<lambda>_. TRANSACTION_STATUS_IN_PROGRESS)" by (simp add: clog_during_def fun_eq_iff)
  then have "commit_read ?g ?sub 39000 0 40000 0 False"
    using commit_read.stop [of ?g 0 ?sub 39000 40000] by (simp add: asks_parent_def xact_status_def nums)
  with TransactionIdDidCommit_linearizable [OF st _ links, of 40000 False InvalidXLogRecPtr 0 0 False]
  show ?thesis by (simp add: nums)
qed

lemma undecided_chain:
  assumes "sub_ordered sub xmin" "TransactionIdIsNormal xmin" "xid_known xmin x"
    and "\<not> did_commit g sub xmin x" "\<not> did_abort g sub xmin x"
  shows "\<exists>k. TransactionIdIsNormal ((SubTransGetParent sub ^^ k) x)
     \<and> g ((SubTransGetParent sub ^^ k) x) = TRANSACTION_STATUS_IN_PROGRESS
     \<and> (\<forall>j < k. asks_parent g sub xmin ((SubTransGetParent sub ^^ j) x))"
  using assms
proof (induction x rule: asks_parent_induct [where status = g])
  case (step x)
  show ?case
  proof (cases "asks_parent g sub xmin x")
    case True
    then have "\<not> did_commit g sub xmin (SubTransGetParent sub x)" "\<not> did_abort g sub xmin (SubTransGetParent sub x)"
      using step.prems by (simp_all add: did_commit_step [of _ _ _ x] did_abort_step [of _ _ _ x])
    with step.IH [OF True] obtain k where k: "TransactionIdIsNormal ((SubTransGetParent sub ^^ k) (SubTransGetParent sub x))"
      "g ((SubTransGetParent sub ^^ k) (SubTransGetParent sub x)) = TRANSACTION_STATUS_IN_PROGRESS"
      "\<forall>j < k. asks_parent g sub xmin ((SubTransGetParent sub ^^ j) (SubTransGetParent sub x))" by blast
    have "\<forall>j < Suc k. asks_parent g sub xmin ((SubTransGetParent sub ^^ j) x)"
      using k(3) True by (auto simp: less_Suc_eq_0_disj funpow_swap1)
    with k show ?thesis by (intro exI [of _ "Suc k"]) (simp add: funpow_swap1)
  next
    case False
    then have "xact_status g x = TRANSACTION_STATUS_IN_PROGRESS"
      using step.prems by (cases "xact_status g x") (simp_all add: did_commit_step [of _ _ _ x] did_abort_step [of _ _ _ x])
    then show ?thesis by (intro exI [of _ 0]) (simp add: xact_status_def split: if_splits)
  qed
qed

text \<open>C21. The questions about the outcome of a transaction always return, with the answer
  the statuses and the parent links give; no transaction is reported both
  committed and aborted; and one that is reported neither is, or descends
  through sub-committed transactions from, one in progress.\<close>

theorem TransactionIdDidCommit_DidAbort_decide:
  assumes "sub_ordered sub xmin" "TransactionIdIsNormal xmin" "xid_known xmin x" "cache_ok clog cache"
  shows "\<exists>committed aborted c1 c2.
    TransactionIdDidCommit clog sub xmin cache x = Some (committed, c1)
    \<and> TransactionIdDidAbort clog sub xmin cache x = Some (aborted, c2)
    \<and> cache_ok clog c1 \<and> cache_ok clog c2
    \<and> (committed \<longleftrightarrow> did_commit (clog_status clog) sub xmin x) \<and> \<not> (committed \<and> aborted)
    \<and> (\<not> committed \<and> \<not> aborted \<longrightarrow>
         (\<exists>k. let y = (SubTransGetParent sub ^^ k) x in
            TransactionIdIsNormal y \<and> fst (TransactionIdGetStatus clog y) = TRANSACTION_STATUS_IN_PROGRESS
            \<and> (\<forall>j < k. asks_parent (clog_status clog) sub xmin ((SubTransGetParent sub ^^ j) x))))"
proof -
  obtain c1 c2 where "TransactionIdDidCommit clog sub xmin cache x = Some (did_commit (clog_status clog) sub xmin x, c1)"
    "TransactionIdDidAbort clog sub xmin cache x = Some (did_abort (clog_status clog) sub xmin x, c2)"
    "cache_ok clog c1" "cache_ok clog c2"
    using TransactionIdDidCommit_spec [OF assms] TransactionIdDidAbort_spec [OF assms] by blast
  then show ?thesis
    using did_commit_not_abort [of "clog_status clog" sub xmin x] undecided_chain [OF assms(1-3), of "clog_status clog"]
    unfolding clog_status_def [symmetric] Let_def by auto
qed

theorem TransactionIdDidCommit_DidAbort_decide_witness:
  "\<exists>committed aborted c1 c2.
    TransactionIdDidCommit clog_zero (SubTransSetParent 80000 40000 sub_zero) 39000
      \<lparr>cachedFetchXid = 0, cachedFetchXidStatus = TRANSACTION_STATUS_IN_PROGRESS, cachedCommitLSN = InvalidXLogRecPtr\<rparr> 80000
      = Some (committed, c1)
    \<and> TransactionIdDidAbort clog_zero (SubTransSetParent 80000 40000 sub_zero) 39000
      \<lparr>cachedFetchXid = 0, cachedFetchXidStatus = TRANSACTION_STATUS_IN_PROGRESS, cachedCommitLSN = InvalidXLogRecPtr\<rparr> 80000
      = Some (aborted, c2)"
proof -
  let ?sub = "SubTransSetParent 80000 40000 sub_zero"
  note nums = TransactionIdIsNormal_def FirstNormalTransactionId_def TransactionIdIsValid_def InvalidTransactionId_def
    TransactionIdPrecedes_def xid_age_def
  have "SubTransGetParent ?sub x = (if x = 80000 then 40000 else InvalidTransactionId)" for x
    by (rule SubTrans_one_parent) (simp_all add: nums)
  then have ord: "sub_ordered ?sub 39000" by (simp add: sub_ordered_def) (simp add: nums)
  have known: "TransactionIdIsNormal 39000" "xid_known 39000 80000" by (simp_all add: xid_known_def nums)
  have cache: "cache_ok clog_zero
      \<lparr>cachedFetchXid = 0, cachedFetchXidStatus = TRANSACTION_STATUS_IN_PROGRESS, cachedCommitLSN = InvalidXLogRecPtr\<rparr>"
    by (simp add: cache_ok_def nums)
  show ?thesis using TransactionIdDidCommit_DidAbort_decide [OF ord known cache] by blast
qed

section \<open>Outcomes are permanent\<close>

text \<open>
  What transam.c relies on of the commit log: setting the status of a tree keeps
  the log well formed and changes the statuses of the members only.
\<close>

record TreeEnd =
  te_commit :: bool
  te_async :: "XLogRecPtr option"
  te_xid :: TransactionId
  te_nxids :: nat
  te_xids :: "nat \<Rightarrow> TransactionId"

definition te_members :: "TreeEnd \<Rightarrow> TransactionId set" where
  "te_members e = insert (te_xid e) (te_xids e ` {..<te_nxids e})"

definition te_status :: "TreeEnd \<Rightarrow> XidStatus" where
  "te_status e = (if te_commit e then TRANSACTION_STATUS_COMMITTED else TRANSACTION_STATUS_ABORTED)"

definition end_tree :: "bool \<Rightarrow> TreeEnd \<Rightarrow> ClogData \<Rightarrow> ClogData" where
  "end_tree InRecovery e =
     (if te_commit e then
        case te_async e of None \<Rightarrow> TransactionIdCommitTree InRecovery (te_xid e) (te_nxids e) (te_xids e)
        | Some lsn \<Rightarrow> TransactionIdAsyncCommitTree InRecovery (te_xid e) (te_nxids e) (te_xids e) lsn
      else TransactionIdAbortTree InRecovery (te_xid e) (te_nxids e) (te_xids e))"

locale outcome_log =
  fixes wf :: "'c \<Rightarrow> bool"
    and status :: "'c \<Rightarrow> TransactionId \<Rightarrow> XidStatus"
    and finish :: "TreeEnd \<Rightarrow> 'c \<Rightarrow> 'c"
  assumes finish_wf: "wf c \<Longrightarrow> TransactionIdIsValid (te_xid e) \<Longrightarrow> wf (finish e c)"
    and finish_status: "wf c \<Longrightarrow> TransactionIdIsValid (te_xid e) \<Longrightarrow>
      status (finish e c) y = (if y \<in> te_members e then te_status e else status c y)"
begin

lemma history_wf: "wf c \<Longrightarrow> \<forall>e \<in> set es. TransactionIdIsValid (te_xid e) \<Longrightarrow> wf (fold finish es c)"
  by (induction es arbitrary: c) (auto simp: finish_wf)

lemma history_untouched:
  "wf c \<Longrightarrow> \<forall>e \<in> set es. TransactionIdIsValid (te_xid e) \<and> y \<notin> te_members e \<Longrightarrow> status (fold finish es c) y = status c y"
  by (induction es arbitrary: c) (auto simp: finish_wf finish_status)

lemma history_outcome:
  assumes "wf c" "\<forall>e \<in> set (pre @ e # post). TransactionIdIsValid (te_xid e)"
    and "y \<in> te_members e" "\<forall>e' \<in> set post. y \<notin> te_members e'"
  shows "status (fold finish (pre @ e # post) c) y = te_status e"
proof -
  have "wf (fold finish pre c)" using assms(1,2) history_wf by simp
  then have "wf (finish e (fold finish pre c))" "status (finish e (fold finish pre c)) y = te_status e"
    using assms(2,3) by (simp_all add: finish_wf finish_status)
  then show ?thesis using assms(2,4) history_untouched by simp
qed

end

lemma end_tree_SetTreeStatus:
  "end_tree rec e = TransactionIdSetTreeStatus rec (te_xid e) (te_nxids e) (te_xids e) (te_status e)
     (if te_commit e then case te_async e of None \<Rightarrow> InvalidXLogRecPtr | Some lsn \<Rightarrow> lsn else InvalidXLogRecPtr)"
  by (simp add: end_tree_def te_status_def TransactionIdCommitTree_def TransactionIdAsyncCommitTree_def
      TransactionIdAbortTree_def split: option.splits)

interpretation outcomes: outcome_log clog_wf clog_status "end_tree rec" for rec
proof
  fix c y and e :: TreeEnd
  assume a: "clog_wf c" "TransactionIdIsValid (te_xid e)"
  have "te_status e \<in> {TRANSACTION_STATUS_COMMITTED, TRANSACTION_STATUS_ABORTED}" by (simp add: te_status_def)
  note s = SetTreeStatus_status [OF a this]
  show "clog_wf (end_tree rec e c)" using s by (simp add: end_tree_SetTreeStatus)
  show "clog_status (end_tree rec e c) y = (if y \<in> te_members e then te_status e else clog_status c y)"
    using s by (simp only: end_tree_SetTreeStatus te_members_def)
qed

text \<open>C14. Outcomes are durable.  In any history of transaction trees that commit, commit
  asynchronously or abort, every member of a tree that is in no later tree is
  reported, from then on, as that tree ended: committed and not aborted, or
  aborted and not committed.\<close>

theorem tree_outcomes_durable:
  assumes "clog_wf clog" "\<forall>e \<in> set (pre @ e # post). TransactionIdIsValid (te_xid e)"
    and "y \<in> te_members e" "\<forall>e' \<in> set post. y \<notin> te_members e'" "TransactionIdIsNormal y"
    and "cache_ok (fold (end_tree rec) (pre @ e # post) clog) cache"
  shows "(\<exists>c1. TransactionIdDidCommit (fold (end_tree rec) (pre @ e # post) clog) sub xmin cache y = Some (te_commit e, c1))
    \<and> (\<exists>c2. TransactionIdDidAbort (fold (end_tree rec) (pre @ e # post) clog) sub xmin cache y = Some (\<not> te_commit e, c2))"
proof -
  define now where "now = fold (end_tree rec) (pre @ e # post) clog"
  have "xact_status (clog_status now) y = te_status e"
    using outcomes.history_outcome [OF assms(1-4), of rec] assms(5) by (simp only: now_def xact_status_def if_True)
  moreover obtain st c where f: "TransactionLogFetch now cache y = (st, c)" by fastforce
  ultimately have "st = te_status e"
    using TransactionLogFetch_spec [OF assms(6) [folded now_def] normal_valid [OF assms(5)]] by simp
  then show ?thesis unfolding now_def [symmetric]
    by (subst TransactionIdDidCommit.simps, subst TransactionIdDidAbort.simps) (simp add: f te_status_def)
qed

theorem tree_outcomes_durable_witness:
  "\<exists>c. TransactionIdDidCommit
     (fold (end_tree False)
        [\<lparr>te_commit = True, te_async = None, te_xid = 40000, te_nxids = 1, te_xids = (\<lambda>_. 80000)\<rparr>,
         \<lparr>te_commit = False, te_async = None, te_xid = 40001, te_nxids = 0, te_xids = (\<lambda>_. 0)\<rparr>] clog_zero) sub_zero 39000
     \<lparr>cachedFetchXid = 0, cachedFetchXidStatus = TRANSACTION_STATUS_IN_PROGRESS, cachedCommitLSN = InvalidXLogRecPtr\<rparr> 80000
     = Some (True, c)"
  using tree_outcomes_durable [OF clog_zero_wf, of "[]"
      "\<lparr>te_commit = True, te_async = None, te_xid = 40000, te_nxids = 1, te_xids = (\<lambda>_. 80000)\<rparr>"
      "[\<lparr>te_commit = False, te_async = None, te_xid = 40001, te_nxids = 0, te_xids = (\<lambda>_. 0)\<rparr>]" 80000 False
      "\<lparr>cachedFetchXid = 0, cachedFetchXidStatus = TRANSACTION_STATUS_IN_PROGRESS, cachedCommitLSN = InvalidXLogRecPtr\<rparr>" sub_zero 39000]
  by (simp add: te_members_def cache_ok_def TransactionIdIsNormal_def FirstNormalTransactionId_def
      TransactionIdIsValid_def InvalidTransactionId_def)

text \<open>The one-item cache of a backend is transparent: fetching a status through it
  gives the status the log has and keeps the cache valid, a transaction the cache
  knows to be completed has a final status, and the cache stays valid while other
  trees end, so it never has to be invalidated.\<close>

theorem TransactionLogFetch_cache_transparent:
  assumes "cache_ok clog cache" "TransactionIdIsValid x"
  shows "fst (TransactionLogFetch clog cache x) = xact_status (\<lambda>y. fst (TransactionIdGetStatus clog y)) x
    \<and> cache_ok clog (snd (TransactionLogFetch clog cache x))
    \<and> (TransactionIdIsKnownCompleted cache x \<longrightarrow>
         fst (TransactionIdGetStatus clog x) \<in> {TRANSACTION_STATUS_COMMITTED, TRANSACTION_STATUS_ABORTED})
    \<and> (\<forall>e rec. clog_wf clog \<and> TransactionIdIsValid (te_xid e) \<and> cachedFetchXid cache \<notin> te_members e
         \<longrightarrow> cache_ok (end_tree rec e clog) cache)"
proof (intro conjI allI impI)
  note f = TransactionLogFetch_spec [OF assms]
  then show "fst (TransactionLogFetch clog cache x) = xact_status (\<lambda>y. fst (TransactionIdGetStatus clog y)) x"
    by (simp add: clog_status_def xact_status_def)
  from f show "cache_ok clog (snd (TransactionLogFetch clog cache x))" by simp
  show "fst (TransactionIdGetStatus clog x) \<in> {TRANSACTION_STATUS_COMMITTED, TRANSACTION_STATUS_ABORTED}"
    if "TransactionIdIsKnownCompleted cache x"
    using that assms unfolding TransactionIdIsKnownCompleted_def cache_ok_def clog_status_def by metis
  show "cache_ok (end_tree rec e clog) cache"
    if "clog_wf clog \<and> TransactionIdIsValid (te_xid e) \<and> cachedFetchXid cache \<notin> te_members e" for e rec
    using that assms(1) outcomes.finish_status [of clog e rec "cachedFetchXid cache"]
    unfolding cache_ok_def by metis
qed

theorem TransactionLogFetch_cache_transparent_witness:
  "fst (TransactionLogFetch clog_zero
     \<lparr>cachedFetchXid = 0, cachedFetchXidStatus = TRANSACTION_STATUS_IN_PROGRESS, cachedCommitLSN = InvalidXLogRecPtr\<rparr> 2)
   = TRANSACTION_STATUS_COMMITTED"
  using TransactionLogFetch_cache_transparent [of clog_zero
      "\<lparr>cachedFetchXid = 0, cachedFetchXidStatus = TRANSACTION_STATUS_IN_PROGRESS, cachedCommitLSN = InvalidXLogRecPtr\<rparr>" 2]
  by (simp add: cache_ok_def TransactionIdIsNormal_def FirstNormalTransactionId_def xact_status_def
      TransactionIdIsValid_def InvalidTransactionId_def FrozenTransactionId_def)

end
