(* ===== verification/Hypo_Planner.thy ===== *)
theory Hypo_Planner
  imports Transam "HOL-Library.Signed_Division"
begin

text \<open>
  Hypothetical indexes in the server: which statements may see them
  (\<^verbatim>\<open>parser/gram.y\<close>, \<^verbatim>\<open>parser/analyze.c\<close>, \<^verbatim>\<open>commands/explain.c\<close>), what the
  planner is told about them (\<^verbatim>\<open>optimizer/util/plancat.c\<close>), and which indexes the
  executor maintains (\<^verbatim>\<open>executor/execUtils.c\<close>).
\<close>

section \<open>Parse analysis\<close>

subsection \<open>Statements\<close>

text \<open>
  Raw parse trees, as far as the hypothetical flag goes.  The list of a node holds
  the sub-statements that are analysed with \<^verbatim>\<open>parse_sub_analyze\<close>: members of WITH,
  subqueries in FROM, sub-selects in expressions and the arms of set operations.
  The source of an INSERT says whether it is a general SELECT (isGeneralSelect).
\<close>

datatype explain_option =
    Opt_analyze bool | Opt_verbose bool | Opt_costs bool | Opt_buffers bool | Opt_format string

datatype select_form = ValuesLists | Setop_None | Setop

datatype RawStmt =
    InsertStmt "(bool \<times> RawStmt) option" "RawStmt list"
  | DeleteStmt "RawStmt list"
  | UpdateStmt "RawStmt list"
  | SelectStmt select_form "RawStmt list"
  | DeclareCursorStmt RawStmt
  | ExplainStmt bool "explain_option list" RawStmt
  | UtilityStmt

text \<open>The productions of ExplainStmt in the grammar.\<close>

datatype explain_production =
    Explain_opt_hypothetical bool
  | Explain_analyze bool
  | Explain_verbose
  | Explain_options "explain_option list"

fun ExplainStmt_node :: "explain_production \<Rightarrow> RawStmt \<Rightarrow> RawStmt" where
  "ExplainStmt_node (Explain_opt_hypothetical h) q = ExplainStmt h [] q"
| "ExplainStmt_node (Explain_analyze opt_verbose) q =
     ExplainStmt False (Opt_analyze True # (if opt_verbose then [Opt_verbose True] else [])) q"
| "ExplainStmt_node Explain_verbose q = ExplainStmt False [Opt_verbose True] q"
| "ExplainStmt_node (Explain_options opts) q = ExplainStmt False opts q"

fun grammatical :: "RawStmt \<Rightarrow> bool" where
  "grammatical (InsertStmt src subs) =
     ((case src of None \<Rightarrow> True | Some (g, s) \<Rightarrow> grammatical s) \<and> (\<forall>s \<in> set subs. grammatical s))"
| "grammatical (DeleteStmt subs) = (\<forall>s \<in> set subs. grammatical s)"
| "grammatical (UpdateStmt subs) = (\<forall>s \<in> set subs. grammatical s)"
| "grammatical (SelectStmt f subs) = (\<forall>s \<in> set subs. grammatical s)"
| "grammatical (DeclareCursorStmt q) = grammatical q"
| "grammatical (ExplainStmt h opts q) =
     ((\<exists>p \<in> {Explain_opt_hypothetical h, Explain_analyze False, Explain_analyze True, Explain_verbose, Explain_options opts}.
         ExplainStmt_node p q = ExplainStmt h opts q) \<and> grammatical q)"
| "grammatical UtilityStmt = True"

subsection \<open>Queries\<close>

text \<open>
  A query carries the flag, its subqueries and, for EXPLAIN, the options and the query
  that is explained.
\<close>

datatype Query = Query bool "Query list" "(explain_option list \<times> Query) option"

text \<open>
  \<^verbatim>\<open>transformDeclareCursorStmt\<close> assigns through its result pointer before the pointer is
  set, which C leaves undefined: None.
\<close>

fun transformStmt :: "bool \<Rightarrow> RawStmt \<Rightarrow> Query option" where
  "transformStmt hypothetical (InsertStmt src subs) =
     (case those (map (transformStmt False) subs) of
        None \<Rightarrow> None
      | Some qs \<Rightarrow>
          (case src of
             Some (True, selectStmt) \<Rightarrow>
               (case transformStmt hypothetical selectStmt of
                  None \<Rightarrow> None | Some selectQuery \<Rightarrow> Some (Query hypothetical (selectQuery # qs) None))
           | _ \<Rightarrow> Some (Query hypothetical qs None)))"
| "transformStmt hypothetical (DeleteStmt subs) =
     map_option (\<lambda>qs. Query hypothetical qs None) (those (map (transformStmt False) subs))"
| "transformStmt hypothetical (UpdateStmt subs) =
     map_option (\<lambda>qs. Query hypothetical qs None) (those (map (transformStmt False) subs))"
| "transformStmt hypothetical (SelectStmt form subs) =
     map_option (\<lambda>qs. Query (case form of Setop_None \<Rightarrow> hypothetical | _ \<Rightarrow> False) qs None)
       (those (map (transformStmt False) subs))"
| "transformStmt hypothetical (DeclareCursorStmt query) = None"
| "transformStmt hypothetical (ExplainStmt h opts query) =
     map_option (\<lambda>q. Query h [] (Some (opts, q))) (transformStmt h query)"
| "transformStmt hypothetical UtilityStmt = Some (Query False [] None)"

text \<open>Every caller for statements of a client passes false.\<close>

definition parse_analyze :: "RawStmt \<Rightarrow> Query option" where
  "parse_analyze = transformStmt False"

text \<open>The last ANALYZE option decides whether EXPLAIN executes the query.\<close>

definition es_analyze :: "explain_option list \<Rightarrow> bool" where
  "es_analyze opts = fold (\<lambda>opt b. case opt of Opt_analyze v \<Rightarrow> v | _ \<Rightarrow> b) opts False"

text \<open>The levels of a query that are planned, and those that are executed as well.\<close>

fun planned_levels :: "Query \<Rightarrow> bool list" where
  "planned_levels (Query h subs None) = h # concat (map planned_levels subs)"
| "planned_levels (Query h subs (Some (opts, q))) = planned_levels q"

fun executed_levels :: "Query \<Rightarrow> bool list" where
  "executed_levels (Query h subs None) = h # concat (map executed_levels subs)"
| "executed_levels (Query h subs (Some (opts, q))) = (if es_analyze opts then executed_levels q else [])"

section \<open>What the planner is told\<close>

subsection \<open>Catalog rows\<close>

text \<open>The row of pg_index and, after it, what the relation cache holds for an index.\<close>

record FormData_pg_index =
  indexrelid :: Oid
  indrelid :: Oid
  indnatts :: nat
  indisunique :: bool
  indisprimary :: bool
  indisexclusion :: bool
  indimmediate :: bool
  indisclustered :: bool
  indishypothetical :: bool
  indisvalid :: bool
  indcheckxmin :: bool
  indisready :: bool
  indkey :: "nat list"
  indoption :: "uint16 list"

record IndexAttr =
  atttypmod :: int
  attlen :: int

record IndexRel =
  rd_index :: FormData_pg_index
  rd_xmin :: TransactionId
  rd_relam :: Oid
  rd_amcanorder :: bool
  rd_opfamily :: "Oid list"
  rd_opcintype :: "Oid list"
  rd_att :: "IndexAttr list"
  rd_has_indpred :: bool
  rd_nblocks :: uint32
  rd_estimate :: "uint32 \<times> nat"

subsection \<open>The size of a hypothetical index\<close>

definition VARHDRSZ :: int where
  "VARHDRSZ = 4"

abbreviation BOOLOID :: Oid where "BOOLOID \<equiv> 16"

abbreviation CHAROID :: Oid where "CHAROID \<equiv> 18"

abbreviation NAMEOID :: Oid where "NAMEOID \<equiv> 19"

abbreviation INT8OID :: Oid where "INT8OID \<equiv> 20"

abbreviation INT2OID :: Oid where "INT2OID \<equiv> 21"

abbreviation INT4OID :: Oid where "INT4OID \<equiv> 23"

abbreviation TEXTOID :: Oid where "TEXTOID \<equiv> 25"

abbreviation FLOAT4OID :: Oid where "FLOAT4OID \<equiv> 700"

abbreviation FLOAT8OID :: Oid where "FLOAT8OID \<equiv> 701"

abbreviation ABSTIMEOID :: Oid where "ABSTIMEOID \<equiv> 702"

abbreviation RELTIMEOID :: Oid where "RELTIMEOID \<equiv> 703"

abbreviation TINTERVALOID :: Oid where "TINTERVALOID \<equiv> 704"

abbreviation BPCHAROID :: Oid where "BPCHAROID \<equiv> 1042"

abbreviation VARCHAROID :: Oid where "VARCHAROID \<equiv> 1043"

abbreviation DATEOID :: Oid where "DATEOID \<equiv> 1082"

abbreviation TIMEOID :: Oid where "TIMEOID \<equiv> 1083"

abbreviation TIMESTAMPOID :: Oid where "TIMESTAMPOID \<equiv> 1114"

abbreviation TIMESTAMPTZOID :: Oid where "TIMESTAMPTZOID \<equiv> 1184"

abbreviation INTERVALOID :: Oid where "INTERVALOID \<equiv> 1186"

abbreviation TIMETZOID :: Oid where "TIMETZOID \<equiv> 1266"

abbreviation BITOID :: Oid where "BITOID \<equiv> 1560"

abbreviation VARBITOID :: Oid where "VARBITOID \<equiv> 1562"

abbreviation NUMERICOID :: Oid where "NUMERICOID \<equiv> 1700"

text \<open>The switch that gives the width of a column; the sums of at most 32 such widths fit an int.\<close>

definition hypo_columnsize :: "Oid \<Rightarrow> IndexAttr \<Rightarrow> int" where
  "hypo_columnsize opcintype att =
     (if opcintype = BITOID then atttypmod att sdiv 8
      else if opcintype \<in> {BOOLOID, FLOAT4OID} then 4
      else if opcintype = INT2OID then 2
      else if opcintype = INT4OID then attlen att
      else if opcintype \<in> {FLOAT8OID, INT8OID} then 8
      else if opcintype \<in> {BPCHAROID, CHAROID, VARCHAROID, NAMEOID, TEXTOID} then atttypmod att - VARHDRSZ
      else if opcintype = NUMERICOID then
        (let tmp_typmod = atttypmod att - VARHDRSZ;
             precision = take_bit 16 (drop_bit 16 tmp_typmod);
             scale = take_bit 16 tmp_typmod
         in if precision \<le> 4 then 2
            else if precision \<le> 9 then 4
            else if precision \<le> 18 then 8
            else 4 + 2 * (((precision - scale) + 3) sdiv 4 + (scale + 3) sdiv 4 + 1))
      else if opcintype \<in> {TIMEOID, ABSTIMEOID, DATEOID, RELTIMEOID} then 8
      else if opcintype \<in> {INTERVALOID, TINTERVALOID, TIMETZOID} then 12
      else if opcintype \<in> {TIMESTAMPOID, TIMESTAMPTZOID} then 8
      else if opcintype = VARBITOID then atttypmod att sdiv 8
      else 4)"

text \<open>
  The number of leaf pages.  The integer division traps when the entry size is 0; when
  no entry fits, the quotient of the row count is infinite or not a number, and its
  conversion to int is undefined, as is that of a quotient out of range.  The
  number of rows is a natural number.
\<close>

datatype c_trap = Integer_division_by_zero | Undefined_conversion

definition hypo_entrysize :: "nat \<Rightarrow> int \<Rightarrow> int" where
  "hypo_entrysize ncolumns totalcolumnsize =
     (let keysize = int ncolumns * 4 + totalcolumnsize in keysize + 9 + 4)"

definition hypo_pages :: "nat \<Rightarrow> int \<Rightarrow> nat \<Rightarrow> c_trap + uint32" where
  "hypo_pages ncolumns totalcolumnsize tuples =
     (let entrysize = hypo_entrysize ncolumns totalcolumnsize in
      if entrysize = 0 then Inl Integer_division_by_zero
      else let pagents = 8172 sdiv entrysize in
           if pagents = 0 then Inl Undefined_conversion
           else let leaves = - ((- int tuples) div pagents) in
                if leaves < - (2 ^ 31) \<or> 2 ^ 31 \<le> leaves then Inl Undefined_conversion
                else Inr (word_of_int leaves))"

subsection \<open>The list of indexes\<close>

record IndexOptInfo =
  io_indexoid :: Oid
  io_ncolumns :: nat
  io_indexkeys :: "nat list"
  io_opcintype :: "Oid list"
  io_relam :: Oid
  io_sortopfamily :: "Oid list option"
  io_reverse_sort :: "bool list"
  io_nulls_first :: "bool list"
  io_has_indpred :: bool
  io_unique :: bool
  io_immediate :: bool
  io_hypothetical :: bool
  io_pages :: uint32
  io_tuples :: nat

definition BTREE_AM_OID :: Oid where
  "BTREE_AM_OID = 403"

definition INDOPTION_DESC :: uint16 where
  "INDOPTION_DESC = 1"

definition INDOPTION_NULLS_FIRST :: uint16 where
  "INDOPTION_NULLS_FIRST = 2"

text \<open>
  The sort ordering of an index.  \<open>btree_opfamily\<close> is the lookup of the btree
  operator family that matches the less-than operator of a column.
\<close>

definition index_ordering :: "(Oid \<Rightarrow> Oid \<Rightarrow> Oid option) \<Rightarrow> IndexRel \<Rightarrow> Oid list option \<times> bool list \<times> bool list" where
  "index_ordering btree_opfamily ir =
     (let n = indnatts (rd_index ir);
          opts = take n (indoption (rd_index ir));
          reverse_sort = map (\<lambda>opt. opt AND INDOPTION_DESC \<noteq> 0) opts;
          nulls_first = map (\<lambda>opt. opt AND INDOPTION_NULLS_FIRST \<noteq> 0) opts
      in if rd_relam ir = BTREE_AM_OID then (Some (take n (rd_opfamily ir)), reverse_sort, nulls_first)
         else if rd_amcanorder ir then
           (case those (map2 btree_opfamily (take n (rd_opfamily ir)) (take n (rd_opcintype ir))) of
              Some fams \<Rightarrow> (Some fams, reverse_sort, nulls_first)
            | None \<Rightarrow> (None, [], []))
         else (None, [], []))"

definition index_size :: "IndexRel \<Rightarrow> nat \<Rightarrow> c_trap + (uint32 \<times> nat)" where
  "index_size ir rel_tuples =
     (let n = indnatts (rd_index ir);
          totalcolumnsize = sum_list (map2 hypo_columnsize (take n (rd_opcintype ir)) (take n (rd_att ir)))
      in if indishypothetical (rd_index ir)
         then (case hypo_pages n totalcolumnsize rel_tuples of Inl e \<Rightarrow> Inl e | Inr pages \<Rightarrow> Inr (pages, rel_tuples))
         else if \<not> rd_has_indpred ir then Inr (rd_nblocks ir, rel_tuples)
         else case rd_estimate ir of (pages, tuples) \<Rightarrow> Inr (pages, if rel_tuples < tuples then rel_tuples else tuples))"

definition make_IndexOptInfo :: "(Oid \<Rightarrow> Oid \<Rightarrow> Oid option) \<Rightarrow> nat \<Rightarrow> IndexRel \<Rightarrow> c_trap + IndexOptInfo" where
  "make_IndexOptInfo btree_opfamily rel_tuples ir =
     (let index = rd_index ir; n = indnatts index in
      case index_ordering btree_opfamily ir of (sortopfamily, reverse_sort, nulls_first) \<Rightarrow>
      case index_size ir rel_tuples of
        Inl e \<Rightarrow> Inl e
      | Inr (pages, tuples) \<Rightarrow>
          Inr \<lparr>io_indexoid = indexrelid index, io_ncolumns = n, io_indexkeys = take n (indkey index),
               io_opcintype = take n (rd_opcintype ir), io_relam = rd_relam ir,
               io_sortopfamily = sortopfamily, io_reverse_sort = reverse_sort, io_nulls_first = nulls_first,
               io_has_indpred = rd_has_indpred ir, io_unique = indisunique index,
               io_immediate = indimmediate index, io_hypothetical = indishypothetical index,
               io_pages = pages, io_tuples = tuples\<rparr>)"

text \<open>The loop over the indexes of a table: the list built so far and the transient-plan mark.\<close>

fun get_indexes :: "(Oid \<Rightarrow> Oid \<Rightarrow> Oid option) \<Rightarrow> TransactionId \<Rightarrow> bool \<Rightarrow> nat
    \<Rightarrow> IndexRel list \<Rightarrow> IndexOptInfo list \<Rightarrow> bool \<Rightarrow> c_trap + IndexOptInfo list \<times> bool" where
  "get_indexes btf TransactionXmin hypothetical rel_tuples [] indexinfos transientPlan = Inr (indexinfos, transientPlan)"
| "get_indexes btf TransactionXmin hypothetical rel_tuples (ir # irs) indexinfos transientPlan =
     (if \<not> indisvalid (rd_index ir)
      then get_indexes btf TransactionXmin hypothetical rel_tuples irs indexinfos transientPlan
      else if hypothetical \<or> \<not> indishypothetical (rd_index ir) then
        if indcheckxmin (rd_index ir) \<and> \<not> TransactionIdPrecedes (rd_xmin ir) TransactionXmin
        then get_indexes btf TransactionXmin hypothetical rel_tuples irs indexinfos True
        else case make_IndexOptInfo btf rel_tuples ir of
               Inl e \<Rightarrow> Inl e
             | Inr info \<Rightarrow> get_indexes btf TransactionXmin hypothetical rel_tuples irs (info # indexinfos) transientPlan
      else get_indexes btf TransactionXmin hypothetical rel_tuples irs indexinfos transientPlan)"

text \<open>
  The table as get_relation_info sees it; \<open>rel_estimate\<close> is what estimate_rel_size
  gives for it.
\<close>

record HeapRel =
  rel_needs_wal :: bool
  rel_is_system :: bool
  relhasindex :: bool
  rel_estimate :: "uint32 \<times> nat"
  rel_indexes :: "IndexRel list"

record RelOptInfo =
  ro_pages :: uint32
  ro_tuples :: nat
  ro_indexlist :: "IndexOptInfo list"
  ro_transientPlan :: bool

datatype plan_error = Plan_error pg_error | Plan_trap c_trap

definition get_relation_info :: "(Oid \<Rightarrow> Oid \<Rightarrow> Oid option) \<Rightarrow> bool \<Rightarrow> bool \<Rightarrow> TransactionId
    \<Rightarrow> HeapRel \<Rightarrow> bool \<Rightarrow> bool \<Rightarrow> plan_error + RelOptInfo" where
  "get_relation_info btf RecoveryInProgress IgnoreSystemIndexes TransactionXmin relation inhparent hypothetical =
     (if \<not> rel_needs_wal relation \<and> RecoveryInProgress then Inl (Plan_error (Ereport ERRCODE_FEATURE_NOT_SUPPORTED))
      else let (pages, tuples) = (if inhparent then (0, 0) else rel_estimate relation);
               hasindex = (if inhparent \<or> IgnoreSystemIndexes \<and> rel_is_system relation then False else relhasindex relation)
           in if \<not> hasindex
              then Inr \<lparr>ro_pages = pages, ro_tuples = tuples, ro_indexlist = [], ro_transientPlan = False\<rparr>
              else case get_indexes btf TransactionXmin hypothetical tuples (rel_indexes relation) [] False of
                     Inl e \<Rightarrow> Inl (Plan_trap e)
                   | Inr (indexlist, transientPlan) \<Rightarrow>
                       Inr \<lparr>ro_pages = pages, ro_tuples = tuples, ro_indexlist = indexlist,
                            ro_transientPlan = transientPlan\<rparr>)"

section \<open>What the executor maintains\<close>

definition INDEX_MAX_KEYS :: nat where
  "INDEX_MAX_KEYS = 32"

record IndexInfo =
  ii_NumIndexAttrs :: nat
  ii_KeyAttrNumbers :: "nat list"
  ii_Unique :: bool
  ii_Hypothetical :: bool
  ii_ReadyForInserts :: bool
  ii_Concurrent :: bool
  ii_BrokenHotChain :: bool

definition BuildIndexInfo :: "IndexRel \<Rightarrow> pg_error + IndexInfo" where
  "BuildIndexInfo ir =
     (let indexStruct = rd_index ir; numKeys = indnatts indexStruct in
      if numKeys < 1 \<or> numKeys > INDEX_MAX_KEYS then Inl (Elog ''invalid indnatts'')
      else Inr \<lparr>ii_NumIndexAttrs = numKeys, ii_KeyAttrNumbers = take numKeys (indkey indexStruct),
                ii_Unique = indisunique indexStruct, ii_Hypothetical = indishypothetical indexStruct,
                ii_ReadyForInserts = indisready indexStruct, ii_Concurrent = False, ii_BrokenHotChain = False\<rparr>)"

record ResultRelInfo =
  ri_NumIndices :: nat
  ri_IndexRelationDescs :: "IndexRel list"
  ri_IndexRelationInfo :: "IndexInfo list"

fun open_indices :: "bool \<Rightarrow> IndexRel list \<Rightarrow> pg_error + IndexRel list \<times> IndexInfo list" where
  "open_indices hypothetical [] = Inr ([], [])"
| "open_indices hypothetical (ir # irs) =
     (case BuildIndexInfo ir of
        Inl e \<Rightarrow> Inl e
      | Inr ii \<Rightarrow>
          (case open_indices hypothetical irs of
             Inl e \<Rightarrow> Inl e
           | Inr (descs, infos) \<Rightarrow>
               if hypothetical \<or> \<not> ii_Hypothetical ii then Inr (ir # descs, ii # infos) else Inr (descs, infos)))"

definition ExecOpenIndices :: "HeapRel \<Rightarrow> bool \<Rightarrow> pg_error + ResultRelInfo" where
  "ExecOpenIndices resultRelation hypothetical =
     (if \<not> relhasindex resultRelation \<or> rel_indexes resultRelation = []
      then Inr \<lparr>ri_NumIndices = 0, ri_IndexRelationDescs = [], ri_IndexRelationInfo = []\<rparr>
      else case open_indices hypothetical (rel_indexes resultRelation) of
             Inl e \<Rightarrow> Inl e
           | Inr (descs, infos) \<Rightarrow>
               Inr \<lparr>ri_NumIndices = length descs, ri_IndexRelationDescs = descs, ri_IndexRelationInfo = infos\<rparr>)"

section \<open>Hypothetical indexes are only explained\<close>

lemma those_map_in:
  "those (map f xs) = Some ys \<Longrightarrow> y \<in> set ys \<Longrightarrow> \<exists>x \<in> set xs. f x = Some y"
  by (induction xs arbitrary: ys) (auto split: option.splits)

lemma grammatical_explain: "grammatical (ExplainStmt h opts q) \<Longrightarrow> (h \<longrightarrow> opts = []) \<and> grammatical q"
  by auto

definition never_hypothetical :: "Query \<Rightarrow> bool" where
  "never_hypothetical q \<longleftrightarrow> (\<forall>b \<in> set (executed_levels q). \<not> b)"

lemma never_hypothetical_simps [simp]:
  "never_hypothetical (Query h qs None) \<longleftrightarrow> \<not> h \<and> (\<forall>q \<in> set qs. never_hypothetical q)"
  "never_hypothetical (Query h qs (Some (opts, q))) \<longleftrightarrow> (es_analyze opts \<longrightarrow> never_hypothetical q)"
  by (auto simp: never_hypothetical_def)

lemma subqueries_never_hypothetical:
  assumes "those (map (transformStmt False) subs) = Some qs"
    and "\<And>s q. s \<in> set subs \<Longrightarrow> transformStmt False s = Some q \<Longrightarrow> never_hypothetical q"
  shows "\<forall>q \<in> set qs. never_hypothetical q"
  using those_map_in [OF assms(1)] assms(2) by blast

lemma executed_not_hypothetical:
  "transformStmt False s = Some q \<Longrightarrow> grammatical s \<Longrightarrow> never_hypothetical q"
proof (induction s arbitrary: q)
  case (InsertStmt src subs)
  obtain qs where qs: "those (map (transformStmt False) subs) = Some qs"
    using InsertStmt.prems(1) by (auto split: option.splits)
  have sub: "\<forall>q \<in> set qs. never_hypothetical q"
    by (rule subqueries_never_hypothetical [OF qs]) (use InsertStmt in auto)
  show ?case
  proof (cases "\<exists>selectStmt. src = Some (True, selectStmt)")
    case True
    then obtain selectStmt where src: "src = Some (True, selectStmt)" by blast
    then obtain sq where sq: "transformStmt False selectStmt = Some sq" "q = Query False (sq # qs) None"
      using InsertStmt.prems(1) qs by (auto split: option.splits)
    have "never_hypothetical sq"
      using InsertStmt.IH(1) [of "(True, selectStmt)" selectStmt sq] InsertStmt.prems(2) sq(1) src by simp
    then show ?thesis using sq(2) sub by simp
  next
    case False
    then have "q = Query False qs None"
      using InsertStmt.prems(1) qs by (auto split: option.splits prod.splits bool.splits)
    then show ?thesis using sub by simp
  qed
next
  case (DeleteStmt subs)
  then obtain qs where qs: "those (map (transformStmt False) subs) = Some qs" "q = Query False qs None" by auto
  have "\<forall>q \<in> set qs. never_hypothetical q"
    by (rule subqueries_never_hypothetical [OF qs(1)]) (use DeleteStmt in auto)
  then show ?case using qs(2) by simp
next
  case (UpdateStmt subs)
  then obtain qs where qs: "those (map (transformStmt False) subs) = Some qs" "q = Query False qs None" by auto
  have "\<forall>q \<in> set qs. never_hypothetical q"
    by (rule subqueries_never_hypothetical [OF qs(1)]) (use UpdateStmt in auto)
  then show ?case using qs(2) by simp
next
  case (SelectStmt form subs)
  then obtain qs where qs: "those (map (transformStmt False) subs) = Some qs" "q = Query False qs None"
    by (auto split: select_form.splits)
  have "\<forall>q \<in> set qs. never_hypothetical q"
    by (rule subqueries_never_hypothetical [OF qs(1)]) (use SelectStmt in auto)
  then show ?case using qs(2) by simp
next
  case (ExplainStmt h opts s)
  then obtain q' where q': "transformStmt h s = Some q'" "q = Query h [] (Some (opts, q'))" by auto
  show ?case
  proof (cases h)
    case True
    then show ?thesis using grammatical_explain [OF ExplainStmt.prems(2)] q'(2) by (simp add: es_analyze_def)
  next
    case False
    then show ?thesis using ExplainStmt.IH [of q'] grammatical_explain [OF ExplainStmt.prems(2)] q' by simp
  qed
qed simp_all

lemma get_indexes_spec:
  assumes "get_indexes btf xmin h tuples irs infos tr = Inr (indexlist, tr')"
  shows "\<exists>new. indexlist = rev new @ infos
    \<and> map io_indexoid new = map (indexrelid \<circ> rd_index)
        (filter (\<lambda>ir. indisvalid (rd_index ir) \<and> (h \<or> \<not> indishypothetical (rd_index ir))
           \<and> \<not> (indcheckxmin (rd_index ir) \<and> \<not> TransactionIdPrecedes (rd_xmin ir) xmin)) irs)
    \<and> (\<forall>io \<in> set new. io_hypothetical io \<longrightarrow> h)
    \<and> (tr' \<longleftrightarrow> tr \<or> (\<exists>ir \<in> set irs. indisvalid (rd_index ir) \<and> (h \<or> \<not> indishypothetical (rd_index ir))
           \<and> indcheckxmin (rd_index ir) \<and> \<not> TransactionIdPrecedes (rd_xmin ir) xmin))"
  using assms
proof (induction irs arbitrary: infos tr)
  case (Cons ir irs)
  consider (skip) "\<not> indisvalid (rd_index ir) \<or> \<not> (h \<or> \<not> indishypothetical (rd_index ir))"
    | (wait) "indisvalid (rd_index ir)" "h \<or> \<not> indishypothetical (rd_index ir)"
        "indcheckxmin (rd_index ir)" "\<not> TransactionIdPrecedes (rd_xmin ir) xmin"
    | (use) "indisvalid (rd_index ir)" "h \<or> \<not> indishypothetical (rd_index ir)"
        "\<not> (indcheckxmin (rd_index ir) \<and> \<not> TransactionIdPrecedes (rd_xmin ir) xmin)" by blast
  then show ?case
  proof cases
    case skip
    then show ?thesis using Cons by (auto split: if_splits)
  next
    case wait
    then show ?thesis using Cons.prems Cons.IH [of infos True] by (auto split: if_splits)
  next
    case use
    then obtain info where i: "make_IndexOptInfo btf tuples ir = Inr info"
      "get_indexes btf xmin h tuples irs (info # infos) tr = Inr (indexlist, tr')"
      using Cons.prems by (auto split: if_splits sum.splits)
    then have "io_indexoid info = indexrelid (rd_index ir)" "io_hypothetical info = indishypothetical (rd_index ir)"
      by (auto simp: make_IndexOptInfo_def Let_def split: prod.splits sum.splits)
    moreover obtain new where "indexlist = rev new @ info # infos"
      "map io_indexoid new = map (indexrelid \<circ> rd_index)
        (filter (\<lambda>ir. indisvalid (rd_index ir) \<and> (h \<or> \<not> indishypothetical (rd_index ir))
           \<and> \<not> (indcheckxmin (rd_index ir) \<and> \<not> TransactionIdPrecedes (rd_xmin ir) xmin)) irs)"
      "\<forall>io \<in> set new. io_hypothetical io \<longrightarrow> h"
      "tr' \<longleftrightarrow> tr \<or> (\<exists>ir \<in> set irs. indisvalid (rd_index ir) \<and> (h \<or> \<not> indishypothetical (rd_index ir))
           \<and> indcheckxmin (rd_index ir) \<and> \<not> TransactionIdPrecedes (rd_xmin ir) xmin)"
      using Cons.IH [OF i(2)] by blast
    ultimately show ?thesis using use by (intro exI [of _ "info # new"]) auto
  qed
qed simp

lemma get_relation_info_hypothetical:
  assumes "get_relation_info btf rec ign xmin rel inh h = Inr r" "io \<in> set (ro_indexlist r)" "io_hypothetical io"
  shows h
proof -
  have "relhasindex rel" "\<not> inh"
    using assms by (auto simp: get_relation_info_def split: if_splits prod.splits)
  then obtain tr where "get_indexes btf xmin h (snd (rel_estimate rel)) (rel_indexes rel) [] False = Inr (ro_indexlist r, tr)"
    using assms by (auto simp: get_relation_info_def Let_def split: if_splits prod.splits sum.splits)
  then show ?thesis using get_indexes_spec assms(2,3) by fastforce
qed

lemma open_indices_spec:
  assumes "open_indices h irs = Inr (descs, infos)"
  shows "descs = filter (\<lambda>ir. h \<or> \<not> indishypothetical (rd_index ir)) irs
    \<and> map ii_Hypothetical infos = map (indishypothetical \<circ> rd_index) descs"
  using assms
  by (induction irs arbitrary: descs infos)
     (auto simp: BuildIndexInfo_def Let_def split: sum.splits if_splits prod.splits)

text \<open>C1. No statement that is executed touches a hypothetical index.  For every statement
  the grammar can produce, at every level of the query that is executed rather
  than only explained, the planner's list of indexes contains no hypothetical
  index, and the indexes opened for maintenance are exactly the real ones.\<close>

theorem hypothetical_never_executed:
  assumes "grammatical s" "parse_analyze s = Some q" "b \<in> set (executed_levels q)"
  shows "(\<forall>r. get_relation_info btf rec ign xmin rel inh b = Inr r \<longrightarrow>
           (\<forall>io \<in> set (ro_indexlist r). \<not> io_hypothetical io))
    \<and> (\<forall>ri. ExecOpenIndices rel b = Inr ri \<longrightarrow>
           ri_IndexRelationDescs ri =
             (if relhasindex rel then filter (\<lambda>ir. \<not> indishypothetical (rd_index ir)) (rel_indexes rel) else [])
           \<and> ri_NumIndices ri = length (ri_IndexRelationDescs ri))"
proof -
  have b: "\<not> b" using executed_not_hypothetical assms by (auto simp: parse_analyze_def never_hypothetical_def)
  then show ?thesis
    using get_relation_info_hypothetical [of btf rec ign xmin rel inh b]
    by (auto simp: ExecOpenIndices_def dest: open_indices_spec split: if_splits sum.splits)
qed

text \<open>An example index: hypothetical, on columns of type text without a length.\<close>

definition text_index :: "bool \<Rightarrow> nat \<Rightarrow> IndexRel" where
  "text_index hypo n =
     \<lparr>rd_index = \<lparr>indexrelid = 50000, indrelid = 40000, indnatts = n, indisunique = False, indisprimary = False,
        indisexclusion = False, indimmediate = True, indisclustered = False, indishypothetical = hypo,
        indisvalid = True, indcheckxmin = False, indisready = True, indkey = [1..<Suc n], indoption = replicate n 0\<rparr>,
      rd_xmin = 1000, rd_relam = BTREE_AM_OID, rd_amcanorder = True, rd_opfamily = replicate n 1994,
      rd_opcintype = replicate n TEXTOID, rd_att = replicate n \<lparr>atttypmod = -1, attlen = -1\<rparr>,
      rd_has_indpred = False, rd_nblocks = 7, rd_estimate = (7, 0)\<rparr>"

definition text_table :: "IndexRel list \<Rightarrow> HeapRel" where
  "text_table irs = \<lparr>rel_needs_wal = True, rel_is_system = False, relhasindex = True, rel_estimate = (100, 10000), rel_indexes = irs\<rparr>"

lemma text_table_simps [simp]:
  "rel_indexes (text_table irs) = irs" "relhasindex (text_table irs)" "rel_needs_wal (text_table irs)"
  "\<not> rel_is_system (text_table irs)" "rel_estimate (text_table irs) = (100, 10000)"
  "indishypothetical (rd_index (text_index h n)) = h" "indisvalid (rd_index (text_index h n))"
  "\<not> indcheckxmin (rd_index (text_index h n))" "indnatts (rd_index (text_index h n)) = n"
  "rd_opcintype (text_index h n) = replicate n TEXTOID"
  "rd_att (text_index h n) = replicate n \<lparr>atttypmod = -1, attlen = -1\<rparr>"
  by (simp_all add: text_table_def text_index_def)

theorem hypothetical_never_executed_witness:
  "\<exists>ri. ExecOpenIndices (text_table [text_index True 1]) False = Inr ri \<and> ri_IndexRelationDescs ri = []"
proof -
  obtain ri where ri: "ExecOpenIndices (text_table [text_index True 1]) False = Inr ri"
    by (cases "ExecOpenIndices (text_table [text_index True 1]) False")
       (simp_all add: ExecOpenIndices_def BuildIndexInfo_def INDEX_MAX_KEYS_def Let_def)
  then have "ri_IndexRelationDescs ri = []"
    using hypothetical_never_executed [of "InsertStmt None []" "Query False [] None" False
        "\<lambda>_ _. None" False False 3 "text_table [text_index True 1]" False]
    by (simp add: parse_analyze_def)
  then show ?thesis using ri by blast
qed

section \<open>The list of indexes and the size estimate\<close>



text \<open>The estimate when at least one entry fits a page.\<close>

lemma hypo_pages_ok:
  assumes e: "0 < hypo_entrysize n width" "hypo_entrysize n width \<le> 8172" and t: "tuples < 2 ^ 31"
  defines "per_page \<equiv> nat (8172 div hypo_entrysize n width)"
  shows "\<exists>pages. hypo_pages n width tuples = Inr pages
    \<and> tuples \<le> unat pages * per_page \<and> (0 < tuples \<longrightarrow> (unat pages - 1) * per_page < tuples) \<and> unat pages \<le> tuples"
proof -
  define p where "p = 8172 div hypo_entrysize n width"
  have sd: "8172 sdiv hypo_entrysize n width = p"
    using e by (simp add: signed_divide_int_def p_def)
  have p: "1 \<le> p"
  proof -
    have "hypo_entrysize n width div hypo_entrysize n width \<le> 8172 div hypo_entrysize n width"
      using e by (intro zdiv_mono1) auto
    then show ?thesis using e by (simp add: p_def)
  qed
  define l where "l = - ((- int tuples) div p)"
  have l: "int tuples \<le> l * p" "l * p < int tuples + p"
  proof -
    define m where "m = (- int tuples) mod p"
    have "- int tuples = p * ((- int tuples) div p) + m" unfolding m_def by (rule mult_div_mod_eq [symmetric])
    then have "l * p = int tuples + m" by (simp add: l_def algebra_simps)
    moreover have "0 \<le> m" "m < p" using p by (simp_all add: m_def)
    ultimately show "int tuples \<le> l * p" "l * p < int tuples + p" by simp_all
  qed
  have l0: "0 \<le> l" using l(1) p by (metis linorder_not_le mult_neg_pos of_nat_0_le_iff order_less_le_trans zero_less_one)
  have lt: "l \<le> int tuples"
  proof (rule ccontr)
    assume "\<not> l \<le> int tuples"
    then have "(int tuples + 1) * p \<le> l * p" using p by (intro mult_right_mono) auto
    then have "int tuples * p < int tuples" using l(2) by (simp add: algebra_simps)
    moreover have "int tuples * 1 \<le> int tuples * p" using p by (intro mult_left_mono) auto
    ultimately show False by simp
  qed
  have u: "unat (word_of_int l :: uint32) = nat l"
    using l0 lt t by (simp add: unsigned_of_int take_bit_int_eq_self)
  have "hypo_pages n width tuples = Inr (word_of_int l)"
    using e p l0 lt t by (simp add: hypo_pages_def Let_def sd l_def [symmetric])
  moreover have "tuples \<le> nat l * nat p" "(0 < tuples \<longrightarrow> (nat l - 1) * nat p < tuples)" "nat l \<le> tuples"
  proof -
    show "tuples \<le> nat l * nat p" using l(1) l0 p by (simp flip: nat_mult_distrib)
    show "0 < tuples \<longrightarrow> (nat l - 1) * nat p < tuples"
    proof
      assume "0 < tuples"
      then have "0 < l" using l(1) l0 by (cases "l = 0") auto
      then have "int ((nat l - 1) * nat p) = l * p - p" using p by (simp add: of_nat_diff algebra_simps)
      then show "(nat l - 1) * nat p < tuples" using l(2) by linarith
    qed
    show "nat l \<le> tuples" using lt by simp
  qed
  ultimately show ?thesis unfolding per_page_def p_def [symmetric] using u by auto
qed

text \<open>C27. The size estimate of a hypothetical index.  When the estimated entry has a
  positive size and fits a page, and the table has fewer than 2^31 rows, the index
  is given the least number of pages whose entries hold one entry for each row of
  the table, at most one page for each row, and as many rows as the table.\<close>

theorem hypothetical_index_size:
  assumes "indishypothetical (rd_index ir)" "rel_tuples < 2 ^ 31"
  defines "n \<equiv> indnatts (rd_index ir)"
  defines "width \<equiv> sum_list (map2 hypo_columnsize (take n (rd_opcintype ir)) (take n (rd_att ir)))"
  defines "entry \<equiv> 4 * int n + width + 13"
  assumes "0 < entry" "entry \<le> 8172"
  shows "\<exists>pages. index_size ir rel_tuples = Inr (pages, rel_tuples)
    \<and> rel_tuples \<le> unat pages * nat (8172 div entry)
    \<and> (\<forall>fewer < unat pages. fewer * nat (8172 div entry) < rel_tuples) \<and> unat pages \<le> rel_tuples"
proof -
  have e: "hypo_entrysize n width = entry" by (simp add: hypo_entrysize_def entry_def Let_def)
  obtain pages where h: "hypo_pages n width rel_tuples = Inr pages" "rel_tuples \<le> unat pages * nat (8172 div entry)"
    "0 < rel_tuples \<longrightarrow> (unat pages - 1) * nat (8172 div entry) < rel_tuples" "unat pages \<le> rel_tuples"
    using hypo_pages_ok [of n width rel_tuples] assms(2,6,7) unfolding e by blast
  have "fewer * nat (8172 div entry) < rel_tuples" if "fewer < unat pages" for fewer
  proof -
    have "fewer * nat (8172 div entry) \<le> (unat pages - 1) * nat (8172 div entry)"
      using that by (intro mult_right_mono) auto
    then show ?thesis using h(3,4) that by linarith
  qed
  moreover have "index_size ir rel_tuples = Inr (pages, rel_tuples)"
    using h(1) assms(1) by (simp add: index_size_def Let_def n_def width_def)
  ultimately show ?thesis using h(2,4) by blast
qed

lemma text_width: "sum_list (map2 hypo_columnsize (replicate n TEXTOID) (replicate n \<lparr>atttypmod = -1, attlen = -1\<rparr>)) = - 5 * int n"
  by (simp add: zip_replicate hypo_columnsize_def VARHDRSZ_def sum_list_replicate)

theorem hypothetical_index_size_witness:
  "\<exists>pages. index_size (text_index True 1) 10000 = Inr (pages, 10000) \<and> 10000 \<le> unat pages * 681"
proof -
  have "sum_list (map2 hypo_columnsize (take 1 (replicate 1 TEXTOID)) (take 1 (replicate 1 \<lparr>atttypmod = -1, attlen = -1\<rparr>))) = - 5"
    using text_width [of 1] by simp
  then show ?thesis
    using hypothetical_index_size [of "text_index True 1" 10000] by auto
qed


end
