(* ===== verification/Hypo_Catalog.thy ===== *)
theory Hypo_Catalog
  imports Hypo_Planner
begin

text \<open>
  Creating, dropping and maintaining hypothetical indexes: the parts of
  \<^verbatim>\<open>commands/indexcmds.c\<close>, \<^verbatim>\<open>catalog/index.c\<close>, \<^verbatim>\<open>commands/tablecmds.c\<close>,
  \<^verbatim>\<open>commands/cluster.c\<close> and \<^verbatim>\<open>commands/vacuumlazy.c\<close> that tell hypothetical indexes
  from real ones, over the catalogs pg_class and pg_index.
\<close>

section \<open>Catalogs\<close>

datatype RelKind = RELKIND_RELATION | RELKIND_INDEX | RELKIND_SEQUENCE | RELKIND_VIEW | RELKIND_FOREIGN_TABLE

text \<open>
  A row of pg_class with its attributes; the last fields say whether the table
  is a temporary table of another session, a system catalog, and whether the
  user may create in its namespace or owns it.
\<close>

record RelRow =
  rel_oid :: nat
  relname :: string
  relkind :: RelKind
  relatts :: "string list"
  rel_other_temp :: bool
  rel_system :: bool
  rel_create_ok :: bool
  rel_owned :: bool

text \<open>
  The index rows are those of pg_index, with the identifiers as natural numbers.
  \<open>built\<close> lists the indexes whose access method was told to build them;
  \<open>registered\<close> is the list ILHead of index_register; \<open>nextOid\<close> the counter of
  object identifiers, whose wraparound is not modelled.
\<close>

record IndRow =
  ix_relid :: nat
  ix_heap :: nat
  ix_natts :: nat
  ix_unique :: bool
  ix_hypothetical :: bool
  ix_valid :: bool
  ix_ready :: bool
  ix_clustered :: bool
  ix_key :: "nat list"

record Catalog =
  pg_class :: "RelRow list"
  pg_index :: "IndRow list"
  built :: "nat list"
  registered :: "nat list"
  nextOid :: nat

definition get_relname_relid :: "Catalog \<Rightarrow> string \<Rightarrow> RelRow option" where
  "get_relname_relid cat name = find (\<lambda>r. relname r = name) (pg_class cat)"

definition get_index :: "Catalog \<Rightarrow> nat \<Rightarrow> IndRow option" where
  "get_index cat relid = find (\<lambda>i. ix_relid i = relid) (pg_index cat)"

text \<open>The first identifier from the counter on that no row of pg_class has.\<close>

definition GetNewOid :: "Catalog \<Rightarrow> nat" where
  "GetNewOid cat =
     (let used = map rel_oid (pg_class cat)
      in hd (filter (\<lambda>n. n \<notin> set used) [nextOid cat..<Suc (nextOid cat + length used)]))"

section \<open>CREATE INDEX\<close>

record IndexStmt =
  st_idxname :: string
  st_relation :: string
  st_indexParams :: "string list"
  st_unique :: bool
  st_concurrent :: bool
  st_hypothetical :: bool

fun attnum_of :: "string \<Rightarrow> string list \<Rightarrow> nat \<Rightarrow> nat option" where
  "attnum_of name [] n = None"
| "attnum_of name (a # atts) n = (if a = name then Some n else attnum_of name atts (Suc n))"

definition ComputeIndexAttrs :: "RelRow \<Rightarrow> string list \<Rightarrow> pg_error + nat list" where
  "ComputeIndexAttrs rel attList =
     (case those (map (\<lambda>a. attnum_of a (relatts rel) 1) attList) of
        None \<Rightarrow> Inl (Ereport ERRCODE_UNDEFINED_COLUMN)
      | Some keys \<Rightarrow> Inr keys)"

definition index_create :: "bool \<Rightarrow> Catalog \<Rightarrow> RelRow \<Rightarrow> string \<Rightarrow> IndexInfo \<Rightarrow> bool \<Rightarrow> bool \<Rightarrow> pg_error + nat \<times> Catalog" where
  "index_create allow_system_table_mods cat heapRelation indexRelationName indexInfo skip_build concurrent =
     (if ii_NumIndexAttrs indexInfo < 1 then Inl (Elog ''must index at least one column'')
      else if \<not> allow_system_table_mods \<and> rel_system heapRelation then Inl (Ereport ERRCODE_FEATURE_NOT_SUPPORTED)
      else if concurrent \<and> rel_system heapRelation then Inl (Ereport ERRCODE_FEATURE_NOT_SUPPORTED)
      else if get_relname_relid cat indexRelationName \<noteq> None then Inl (Ereport ERRCODE_DUPLICATE_TABLE)
      else let indexRelationId = GetNewOid cat;
               row = \<lparr>rel_oid = indexRelationId, relname = indexRelationName, relkind = RELKIND_INDEX,
                      relatts = map (\<lambda>k. relatts heapRelation ! (k - 1)) (ii_KeyAttrNumbers indexInfo),
                      rel_other_temp = False, rel_system = rel_system heapRelation,
                      rel_create_ok = rel_create_ok heapRelation, rel_owned = rel_owned heapRelation\<rparr>;
               index = \<lparr>ix_relid = indexRelationId, ix_heap = rel_oid heapRelation,
                        ix_natts = ii_NumIndexAttrs indexInfo, ix_unique = ii_Unique indexInfo,
                        ix_hypothetical = ii_Hypothetical indexInfo, ix_valid = \<not> concurrent, ix_ready = \<not> concurrent,
                        ix_clustered = False, ix_key = ii_KeyAttrNumbers indexInfo\<rparr>;
               cat1 = cat\<lparr>pg_class := pg_class cat @ [row], pg_index := pg_index cat @ [index],
                          nextOid := Suc indexRelationId\<rparr>
           in Inr (indexRelationId,
                if skip_build \<or> ii_Hypothetical indexInfo
                then if ii_Hypothetical indexInfo then cat1\<lparr>registered := indexRelationId # registered cat1\<rparr> else cat1
                else cat1\<lparr>built := indexRelationId # built cat1\<rparr>))"

text \<open>After a concurrent build the row is marked ready and valid.\<close>

definition mark_ready_valid :: "nat \<Rightarrow> Catalog \<Rightarrow> Catalog" where
  "mark_ready_valid relid cat =
     cat\<lparr>pg_index := map (\<lambda>i. if ix_relid i = relid then i\<lparr>ix_ready := True, ix_valid := True\<rparr> else i) (pg_index cat)\<rparr>"

definition DefineIndex :: "bool \<Rightarrow> Catalog \<Rightarrow> IndexStmt \<Rightarrow> pg_error + Catalog" where
  "DefineIndex allowSystemTableMods cat stmt =
     (let numberOfAttributes = length (st_indexParams stmt) in
      if numberOfAttributes \<le> 0 then Inl (Ereport ERRCODE_INVALID_OBJECT_DEFINITION)
      else if numberOfAttributes > INDEX_MAX_KEYS then Inl (Ereport ERRCODE_TOO_MANY_COLUMNS)
      else case get_relname_relid cat (st_relation stmt) of
        None \<Rightarrow> Inl (Ereport ERRCODE_UNDEFINED_TABLE)
      | Some rel \<Rightarrow>
          if relkind rel \<noteq> RELKIND_RELATION then Inl (Ereport ERRCODE_WRONG_OBJECT_TYPE)
          else if rel_other_temp rel then Inl (Ereport ERRCODE_FEATURE_NOT_SUPPORTED)
          else if \<not> rel_create_ok rel then Inl (Ereport ERRCODE_INSUFFICIENT_PRIVILEGE)
          else case ComputeIndexAttrs rel (st_indexParams stmt) of
            Inl e \<Rightarrow> Inl e
          | Inr keys \<Rightarrow>
              let indexInfo = \<lparr>ii_NumIndexAttrs = numberOfAttributes, ii_KeyAttrNumbers = keys,
                    ii_Unique = st_unique stmt, ii_Hypothetical = st_hypothetical stmt,
                    ii_ReadyForInserts = \<not> st_concurrent stmt, ii_Concurrent = st_concurrent stmt, ii_BrokenHotChain = False\<rparr>
              in case index_create allowSystemTableMods cat rel (st_idxname stmt) indexInfo
                        (False \<or> st_concurrent stmt) (st_concurrent stmt) of
                   Inl e \<Rightarrow> Inl e
                 | Inr (indexRelationId, cat1) \<Rightarrow>
                     if \<not> st_concurrent stmt then Inr cat1
                     else Inr (mark_ready_valid indexRelationId (cat1\<lparr>built := indexRelationId # built cat1\<rparr>)))"

section \<open>DROP INDEX\<close>

datatype DropObject = OBJECT_HYP_INDEX | OBJECT_INDEX | OBJECT_TABLE | OBJECT_SEQUENCE | OBJECT_VIEW | OBJECT_FOREIGN_TABLE

fun drop_relkind :: "DropObject \<Rightarrow> RelKind" where
  "drop_relkind OBJECT_TABLE = RELKIND_RELATION"
| "drop_relkind OBJECT_HYP_INDEX = RELKIND_INDEX"
| "drop_relkind OBJECT_INDEX = RELKIND_INDEX"
| "drop_relkind OBJECT_SEQUENCE = RELKIND_SEQUENCE"
| "drop_relkind OBJECT_VIEW = RELKIND_VIEW"
| "drop_relkind OBJECT_FOREIGN_TABLE = RELKIND_FOREIGN_TABLE"

text \<open>The checks for one name; None when there is no such relation and that is allowed.\<close>

definition drop_check :: "bool \<Rightarrow> Catalog \<Rightarrow> DropObject \<Rightarrow> bool \<Rightarrow> string \<Rightarrow> pg_error + nat option" where
  "drop_check allowSystemTableMods cat removeType missing_ok name =
     (let hypothetical = (removeType = OBJECT_HYP_INDEX); rk = drop_relkind removeType in
      case get_relname_relid cat name of
        None \<Rightarrow> if \<not> missing_ok then Inl (Ereport (if rk \<in> {RELKIND_INDEX, RELKIND_FOREIGN_TABLE}
                  then ERRCODE_UNDEFINED_OBJECT else ERRCODE_UNDEFINED_TABLE))
                else Inr None
      | Some rel \<Rightarrow>
          if rk = RELKIND_INDEX \<and> relkind rel \<noteq> RELKIND_INDEX then Inl (Ereport ERRCODE_WRONG_OBJECT_TYPE)
          else if rk = RELKIND_INDEX \<and> get_index cat (rel_oid rel) = None then Inl (Elog ''cache lookup failed for index'')
          else if rk = RELKIND_INDEX \<and> ix_hypothetical (the (get_index cat (rel_oid rel))) \<noteq> hypothetical
               then Inl (Ereport ERRCODE_WRONG_OBJECT_TYPE)
          else if relkind rel \<noteq> rk then Inl (Ereport ERRCODE_WRONG_OBJECT_TYPE)
          else if \<not> rel_owned rel then Inl (Ereport ERRCODE_INSUFFICIENT_PRIVILEGE)
          else if \<not> allowSystemTableMods \<and> rel_system rel then Inl (Ereport ERRCODE_INSUFFICIENT_PRIVILEGE)
          else Inr (Some (rel_oid rel)))"

fun drop_objects :: "bool \<Rightarrow> Catalog \<Rightarrow> DropObject \<Rightarrow> bool \<Rightarrow> string list \<Rightarrow> pg_error + nat list" where
  "drop_objects asm cat removeType missing_ok [] = Inr []"
| "drop_objects asm cat removeType missing_ok (name # names) =
     (case drop_check asm cat removeType missing_ok name of
        Inl e \<Rightarrow> Inl e
      | Inr obj \<Rightarrow>
          (case drop_objects asm cat removeType missing_ok names of
             Inl e \<Rightarrow> Inl e
           | Inr objs \<Rightarrow> Inr (case obj of None \<Rightarrow> objs | Some relid \<Rightarrow> relid # objs)))"

text \<open>Dropping an index removes its rows; the deletion of other kinds of relations is not modelled.\<close>

definition index_drop :: "nat \<Rightarrow> Catalog \<Rightarrow> Catalog" where
  "index_drop indexId cat =
     cat\<lparr>pg_class := filter (\<lambda>r. rel_oid r \<noteq> indexId) (pg_class cat),
         pg_index := filter (\<lambda>i. ix_relid i \<noteq> indexId) (pg_index cat)\<rparr>"

definition RemoveRelations :: "bool \<Rightarrow> Catalog \<Rightarrow> DropObject \<Rightarrow> bool \<Rightarrow> string list \<Rightarrow> pg_error + Catalog" where
  "RemoveRelations allowSystemTableMods cat removeType missing_ok objects =
     (case drop_objects allowSystemTableMods cat removeType missing_ok objects of
        Inl e \<Rightarrow> Inl e
      | Inr relids \<Rightarrow> Inr (fold index_drop relids cat))"

section \<open>REINDEX, CLUSTER and VACUUM\<close>

definition reindex_index :: "Catalog \<Rightarrow> nat \<Rightarrow> pg_error + Catalog" where
  "reindex_index cat indexId =
     (case get_index cat indexId of
        None \<Rightarrow> Inl (Elog ''cache lookup failed for index'')
      | Some i \<Rightarrow> if ix_hypothetical i then Inl (Ereport ERRCODE_WRONG_OBJECT_TYPE)
                  else Inr (cat\<lparr>built := indexId # built cat\<rparr>))"

text \<open>Both REINDEX INDEX and the loop of reindex_relation pass over hypothetical indexes.\<close>

definition ReindexIndex :: "Catalog \<Rightarrow> nat \<Rightarrow> pg_error + Catalog" where
  "ReindexIndex cat indOid =
     (case get_index cat indOid of
        None \<Rightarrow> Inl (Elog ''cache lookup failed for index'')
      | Some i \<Rightarrow> if \<not> ix_hypothetical i then reindex_index cat indOid else Inr cat)"

fun reindex_relation :: "Catalog \<Rightarrow> nat list \<Rightarrow> pg_error + Catalog" where
  "reindex_relation cat [] = Inr cat"
| "reindex_relation cat (indexOid # indexIds) =
     (case get_index cat indexOid of
        None \<Rightarrow> Inl (Elog ''cache lookup failed for index'')
      | Some i \<Rightarrow>
          if \<not> ix_hypothetical i then
            (case reindex_index cat indexOid of Inl e \<Rightarrow> Inl e | Inr cat1 \<Rightarrow> reindex_relation cat1 indexIds)
          else reindex_relation cat indexIds)"

text \<open>The index chosen by CLUSTER: the one named, or the one last clustered on.\<close>

definition cluster_index :: "Catalog \<Rightarrow> RelRow \<Rightarrow> string option \<Rightarrow> pg_error + nat" where
  "cluster_index cat rel indexname =
     (case indexname of
        None \<Rightarrow>
          (case find (\<lambda>i. ix_heap i = rel_oid rel \<and> ix_clustered i) (pg_index cat) of
             None \<Rightarrow> Inl (Ereport ERRCODE_UNDEFINED_OBJECT)
           | Some i \<Rightarrow> Inr (ix_relid i))
      | Some name \<Rightarrow>
          (case get_relname_relid cat name of
             None \<Rightarrow> Inl (Ereport ERRCODE_UNDEFINED_OBJECT)
           | Some r \<Rightarrow>
               (case get_index cat (rel_oid r) of
                  None \<Rightarrow> Inl (Ereport ERRCODE_WRONG_OBJECT_TYPE)
                | Some i \<Rightarrow> if ix_hypothetical i then Inl (Ereport ERRCODE_UNDEFINED_OBJECT) else Inr (rel_oid r))))"

text \<open>The indexes that get post-vacuum cleanup.\<close>

definition lazy_cleanup_indexes :: "IndRow list \<Rightarrow> nat list" where
  "lazy_cleanup_indexes Irel = map ix_relid (filter (\<lambda>i. \<not> ix_hypothetical i) Irel)"

section \<open>Statements\<close>

text \<open>The index statements of a client, dispatched as in ProcessUtility.\<close>

datatype IndexCommand = CreateIndexCmd IndexStmt | DropCmd DropObject bool "string list" | ReindexIndexCmd string

definition run_command :: "bool \<Rightarrow> Catalog \<Rightarrow> IndexCommand \<Rightarrow> pg_error + Catalog" where
  "run_command asm cat cmd =
     (case cmd of
        CreateIndexCmd stmt \<Rightarrow> DefineIndex asm cat stmt
      | DropCmd removeType missing_ok names \<Rightarrow> RemoveRelations asm cat removeType missing_ok names
      | ReindexIndexCmd name \<Rightarrow>
          (case get_relname_relid cat name of
             None \<Rightarrow> Inl (Ereport ERRCODE_UNDEFINED_TABLE)
           | Some r \<Rightarrow> if relkind r \<noteq> RELKIND_INDEX then Inl (Ereport ERRCODE_WRONG_OBJECT_TYPE)
                       else if \<not> rel_owned r then Inl (Ereport ERRCODE_INSUFFICIENT_PRIVILEGE)
                       else ReindexIndex cat (rel_oid r)))"

section \<open>Well-formed catalogs\<close>

definition cat_wf :: "Catalog \<Rightarrow> bool" where
  "cat_wf cat \<longleftrightarrow>
     distinct (map rel_oid (pg_class cat)) \<and> distinct (map relname (pg_class cat))
     \<and> distinct (map ix_relid (pg_index cat))
     \<and> ix_relid ` set (pg_index cat) = rel_oid ` set (filter (\<lambda>r. relkind r = RELKIND_INDEX) (pg_class cat))
     \<and> (\<forall>i \<in> set (pg_index cat). \<exists>r \<in> set (pg_class cat). rel_oid r = ix_heap i \<and> relkind r = RELKIND_RELATION)
     \<and> (\<forall>r \<in> set (pg_class cat). rel_oid r < nextOid cat) \<and> (\<forall>b \<in> set (built cat). b < nextOid cat)"

lemma find_distinct:
  assumes "distinct (map key xs)"
  shows "find (\<lambda>x. key x = k) xs = Some y \<longleftrightarrow> y \<in> set xs \<and> key y = k"
  using assms by (induction xs) auto

lemma find_none: "find (\<lambda>x. key x = k) xs = None \<longleftrightarrow> k \<notin> key ` set xs"
  by (induction xs) auto

lemma get_relname_Some: "cat_wf cat \<Longrightarrow> get_relname_relid cat n = Some r \<longleftrightarrow> r \<in> set (pg_class cat) \<and> relname r = n"
  by (simp add: get_relname_relid_def cat_wf_def find_distinct)

lemma get_relname_None: "get_relname_relid cat n = None \<longleftrightarrow> n \<notin> relname ` set (pg_class cat)"
  by (simp add: get_relname_relid_def find_none)

lemma get_index_Some: "cat_wf cat \<Longrightarrow> get_index cat k = Some i \<longleftrightarrow> i \<in> set (pg_index cat) \<and> ix_relid i = k"
  by (simp add: get_index_def cat_wf_def find_distinct)

lemma GetNewOid_fresh:
  "GetNewOid cat \<notin> rel_oid ` set (pg_class cat)" "nextOid cat \<le> GetNewOid cat"
proof -
  let ?used = "map rel_oid (pg_class cat)" and ?r = "[nextOid cat..<Suc (nextOid cat + length (pg_class cat))]"
  let ?free = "filter (\<lambda>n. n \<notin> set ?used) ?r"
  have "?free \<noteq> []"
  proof
    assume "?free = []"
    then have "set ?r \<subseteq> set ?used" unfolding filter_empty_conv by blast
    then have "card (set ?r) \<le> card (set ?used)" by (intro card_mono) simp_all
    moreover have "card (set ?used) \<le> length (pg_class cat)" using card_length [of ?used] by simp
    ultimately show False by simp
  qed
  then have "hd ?free \<in> set ?free" by (rule hd_in_set)
  then show "GetNewOid cat \<notin> rel_oid ` set (pg_class cat)" "nextOid cat \<le> GetNewOid cat"
    by (simp_all add: GetNewOid_def Let_def del: upt_Suc)
qed

text \<open>What creating an index does to the catalogs when it succeeds.\<close>

lemma attnum_of_Some: "attnum_of a atts m = Some k \<Longrightarrow> m \<le> k \<and> k - m < length atts \<and> atts ! (k - m) = a"
proof (induction atts arbitrary: m)
  case (Cons b atts)
  show ?case
  proof (cases "b = a")
    case False
    then have "Suc m \<le> k \<and> k - Suc m < length atts \<and> atts ! (k - Suc m) = a" using Cons by simp
    then show ?thesis by (auto simp: nth_Cons')
  qed (use Cons in simp)
qed simp

lemma attnum_of_mem: "a \<in> set atts \<Longrightarrow> \<exists>k. attnum_of a atts m = Some k"
  by (induction atts arbitrary: m) auto

lemma ComputeIndexAttrs_names:
  assumes "ComputeIndexAttrs rel attList = Inr keys"
  shows "map (\<lambda>k. relatts rel ! (k - 1)) keys = attList"
proof -
  have t: "those (map (\<lambda>a. attnum_of a (relatts rel) 1) attList) = Some keys"
    using assms by (auto simp: ComputeIndexAttrs_def split: option.splits)
  then show ?thesis
    by (induction attList arbitrary: keys) (auto split: option.splits dest: attnum_of_Some)
qed

lemma ComputeIndexAttrs_ok: "set attList \<subseteq> set (relatts rel) \<Longrightarrow> \<exists>keys. ComputeIndexAttrs rel attList = Inr keys"
proof -
  assume a: "set attList \<subseteq> set (relatts rel)"
  have "\<exists>keys. those (map (\<lambda>a. attnum_of a (relatts rel) 1) attList) = Some keys"
    using a by (induction attList) (auto dest: attnum_of_mem [of _ _ 1])
  then show ?thesis by (auto simp: ComputeIndexAttrs_def)
qed

definition new_rel_row :: "Catalog \<Rightarrow> RelRow \<Rightarrow> IndexStmt \<Rightarrow> RelRow" where
  "new_rel_row cat rel stmt =
     \<lparr>rel_oid = GetNewOid cat, relname = st_idxname stmt, relkind = RELKIND_INDEX, relatts = st_indexParams stmt,
      rel_other_temp = False, rel_system = rel_system rel, rel_create_ok = rel_create_ok rel, rel_owned = rel_owned rel\<rparr>"

definition new_ind_row :: "Catalog \<Rightarrow> RelRow \<Rightarrow> IndexStmt \<Rightarrow> nat list \<Rightarrow> IndRow" where
  "new_ind_row cat rel stmt keys =
     \<lparr>ix_relid = GetNewOid cat, ix_heap = rel_oid rel, ix_natts = length (st_indexParams stmt), ix_unique = st_unique stmt,
      ix_hypothetical = st_hypothetical stmt, ix_valid = True, ix_ready = True, ix_clustered = False, ix_key = keys\<rparr>"

lemma mark_fresh:
  assumes "k \<notin> ix_relid ` set is"
  shows "map (\<lambda>i. if ix_relid i = k then f i else i) is = is"
  using assms by (induction "is") auto

lemma DefineIndex_cases:
  assumes wf: "cat_wf cat" and d: "DefineIndex asm cat stmt = Inr cat'"
  obtains rel keys where "get_relname_relid cat (st_relation stmt) = Some rel" "relkind rel = RELKIND_RELATION"
    "get_relname_relid cat (st_idxname stmt) = None" "asm \<or> \<not> rel_system rel" "rel_create_ok rel" "\<not> rel_other_temp rel"
    "map (\<lambda>k. relatts rel ! (k - 1)) keys = st_indexParams stmt"
    "pg_class cat' = pg_class cat @ [new_rel_row cat rel stmt]"
    "pg_index cat' = pg_index cat @ [new_ind_row cat rel stmt keys]"
    "nextOid cat' = Suc (GetNewOid cat)"
    "built cat' = (if st_hypothetical stmt \<and> \<not> st_concurrent stmt then built cat else GetNewOid cat # built cat)"
proof -
  obtain rel keys where r: "get_relname_relid cat (st_relation stmt) = Some rel" "relkind rel = RELKIND_RELATION"
    "\<not> rel_other_temp rel" "rel_create_ok rel" "ComputeIndexAttrs rel (st_indexParams stmt) = Inr keys"
    using d by (auto simp: DefineIndex_def Let_def split: if_splits option.splits sum.splits)
  note names = ComputeIndexAttrs_names [OF r(5)]
  obtain ii where ii: "ii = \<lparr>ii_NumIndexAttrs = length (st_indexParams stmt), ii_KeyAttrNumbers = keys,
      ii_Unique = st_unique stmt, ii_Hypothetical = st_hypothetical stmt,
      ii_ReadyForInserts = \<not> st_concurrent stmt, ii_Concurrent = st_concurrent stmt, ii_BrokenHotChain = False\<rparr>" by blast
  obtain k cat1 where c: "index_create asm cat rel (st_idxname stmt) ii (st_concurrent stmt) (st_concurrent stmt) = Inr (k, cat1)"
    "cat' = (if \<not> st_concurrent stmt then cat1 else mark_ready_valid k (cat1\<lparr>built := k # built cat1\<rparr>))"
    using d r by (auto simp: DefineIndex_def Let_def ii split: if_splits sum.splits)
  have n: "get_relname_relid cat (st_idxname stmt) = None" "asm \<or> \<not> rel_system rel" and k: "k = GetNewOid cat"
    using c(1) by (auto simp: index_create_def Let_def split: if_splits)
  have fresh: "GetNewOid cat \<notin> ix_relid ` set (pg_index cat)"
    using wf GetNewOid_fresh(1) [of cat] by (auto simp: cat_wf_def)
  show thesis
    by (rule that [OF r(1,2) n r(4,3) names])
       (use c k names mark_fresh [OF fresh] in
         \<open>auto simp: index_create_def ii Let_def mark_ready_valid_def new_rel_row_def new_ind_row_def split: if_splits\<close>)
qed

lemma DefineIndex_wf:
  assumes wf: "cat_wf cat" and d: "DefineIndex asm cat stmt = Inr cat'"
  shows "cat_wf cat'"
proof -
  obtain rel keys where r: "get_relname_relid cat (st_relation stmt) = Some rel" "relkind rel = RELKIND_RELATION"
    "get_relname_relid cat (st_idxname stmt) = None"
    "pg_class cat' = pg_class cat @ [new_rel_row cat rel stmt]"
    "pg_index cat' = pg_index cat @ [new_ind_row cat rel stmt keys]"
    "nextOid cat' = Suc (GetNewOid cat)"
    "built cat' = (if st_hypothetical stmt \<and> \<not> st_concurrent stmt then built cat else GetNewOid cat # built cat)"
    by (rule DefineIndex_cases [OF wf d])
  have rel: "rel \<in> set (pg_class cat)" using r(1) get_relname_Some [OF wf] by simp
  have fresh: "GetNewOid cat \<notin> ix_relid ` set (pg_index cat)"
    using wf GetNewOid_fresh(1) [of cat] by (auto simp: cat_wf_def)
  have b: "\<forall>b \<in> set (built cat). b < Suc (GetNewOid cat)" "\<forall>r \<in> set (pg_class cat). rel_oid r < Suc (GetNewOid cat)"
    using wf GetNewOid_fresh(2) [of cat] by (force simp: cat_wf_def)+
  show ?thesis
    using wf rel r(2) fresh b GetNewOid_fresh(1) [of cat] get_relname_None [of cat "st_idxname stmt"] r(3)
    unfolding cat_wf_def r(4-7) by (auto simp: new_rel_row_def new_ind_row_def)
qed

section \<open>Dropping\<close>

lemma index_drop_fold:
  "pg_class (fold index_drop ks cat) = filter (\<lambda>r. rel_oid r \<notin> set ks) (pg_class cat)"
  "pg_index (fold index_drop ks cat) = filter (\<lambda>i. ix_relid i \<notin> set ks) (pg_index cat)"
  "built (fold index_drop ks cat) = built cat" "nextOid (fold index_drop ks cat) = nextOid cat"
  by (induction ks arbitrary: cat) (auto simp: index_drop_def intro: filter_cong)

lemma distinct_map_filter': "distinct (map f xs) \<Longrightarrow> distinct (map f (filter P xs))"
  by (induction xs) auto

lemma image_filter_diff: "f ` {x \<in> X. f x \<notin> K} = f ` X - K"
  by auto

lemma index_drop_wf:
  assumes wf: "cat_wf cat" and ks: "set ks \<subseteq> ix_relid ` set (pg_index cat)"
  shows "cat_wf (fold index_drop ks cat)"
proof -
  have heap: "ix_heap i \<notin> set ks" if i: "i \<in> set (pg_index cat)" for i
  proof
    assume "ix_heap i \<in> set ks"
    then obtain r where r: "r \<in> set (pg_class cat)" "rel_oid r = ix_heap i" "relkind r = RELKIND_INDEX"
      using ks wf by (auto simp: cat_wf_def)
    obtain r' where r': "r' \<in> set (pg_class cat)" "rel_oid r' = ix_heap i" "relkind r' = RELKIND_RELATION"
      using wf i by (auto simp: cat_wf_def)
    have "r = r'" using r(1,2) r'(1,2) wf unfolding cat_wf_def distinct_map by (metis inj_onD)
    then show False using r(3) r'(3) by simp
  qed
  have eq: "ix_relid ` set (filter (\<lambda>i. ix_relid i \<notin> set ks) (pg_index cat))
      = rel_oid ` set (filter (\<lambda>r. relkind r = RELKIND_INDEX) (filter (\<lambda>r. rel_oid r \<notin> set ks) (pg_class cat)))"
    using wf image_filter_diff [of ix_relid "set (pg_index cat)" "set ks"]
      image_filter_diff [of rel_oid "set (filter (\<lambda>r. relkind r = RELKIND_INDEX) (pg_class cat))" "set ks"]
    by (simp add: cat_wf_def conj_commute conj_left_commute)
  have "\<exists>r \<in> set (filter (\<lambda>r. rel_oid r \<notin> set ks) (pg_class cat)). rel_oid r = ix_heap i \<and> relkind r = RELKIND_RELATION"
    if i: "i \<in> set (filter (\<lambda>i. ix_relid i \<notin> set ks) (pg_index cat))" for i
  proof -
    have "i \<in> set (pg_index cat)" using i by simp
    moreover obtain r where "r \<in> set (pg_class cat)" "rel_oid r = ix_heap i" "relkind r = RELKIND_RELATION"
      using wf calculation unfolding cat_wf_def by blast
    ultimately show ?thesis using heap by (intro bexI [of _ r]) auto
  qed
  then show ?thesis
    using wf eq unfolding cat_wf_def index_drop_fold by (simp add: distinct_map_filter')
qed

lemma drop_check_Some:
  assumes "cat_wf cat" "drop_check asm cat removeType missing_ok name = Inr (Some k)" "drop_relkind removeType = RELKIND_INDEX"
  shows "\<exists>r i. r \<in> set (pg_class cat) \<and> relname r = name \<and> rel_oid r = k
    \<and> i \<in> set (pg_index cat) \<and> ix_relid i = k \<and> (ix_hypothetical i \<longleftrightarrow> removeType = OBJECT_HYP_INDEX)"
proof -
  obtain r where r: "get_relname_relid cat name = Some r" using assms(2,3) by (auto simp: drop_check_def Let_def split: option.splits if_splits)
  then obtain i where "get_index cat (rel_oid r) = Some i" "ix_hypothetical i \<longleftrightarrow> removeType = OBJECT_HYP_INDEX" "rel_oid r = k"
    using assms(2,3) by (auto simp: drop_check_def Let_def split: if_splits)
  then show ?thesis using r get_relname_Some [OF assms(1)] get_index_Some [OF assms(1)] by blast
qed

lemma drop_objects_sub:
  assumes "cat_wf cat" "drop_objects asm cat removeType missing_ok names = Inr ks" "drop_relkind removeType = RELKIND_INDEX"
  shows "\<forall>k \<in> set ks. \<exists>r i. r \<in> set (pg_class cat) \<and> relname r \<in> set names \<and> rel_oid r = k
    \<and> i \<in> set (pg_index cat) \<and> ix_relid i = k \<and> (ix_hypothetical i \<longleftrightarrow> removeType = OBJECT_HYP_INDEX)"
  using assms(2)
proof (induction names arbitrary: ks)
  case (Cons name names)
  then obtain obj objs where o: "drop_check asm cat removeType missing_ok name = Inr obj"
    "drop_objects asm cat removeType missing_ok names = Inr objs"
    "ks = (case obj of None \<Rightarrow> objs | Some relid \<Rightarrow> relid # objs)"
    by (auto split: sum.splits)
  show ?case
  proof (cases obj)
    case None
    then show ?thesis using Cons.IH [OF o(2)] o(3) by fastforce
  next
    case (Some k)
    then show ?thesis
      using Cons.IH [OF o(2)] o(3) drop_check_Some [OF assms(1) o(1) [unfolded Some] assms(3)] by fastforce
  qed
qed simp

text \<open>A command about indexes.\<close>

fun index_command :: "IndexCommand \<Rightarrow> bool" where
  "index_command (DropCmd removeType missing_ok names) = (drop_relkind removeType = RELKIND_INDEX)"
| "index_command _ = True"

fun concurrent_hypothetical :: "IndexCommand \<Rightarrow> bool" where
  "concurrent_hypothetical (CreateIndexCmd stmt) = (st_hypothetical stmt \<and> st_concurrent stmt)"
| "concurrent_hypothetical _ = False"

definition hypothetical_unbuilt :: "Catalog \<Rightarrow> bool" where
  "hypothetical_unbuilt cat \<longleftrightarrow> (\<forall>i \<in> set (pg_index cat). ix_hypothetical i \<longrightarrow> ix_relid i \<notin> set (built cat))"

lemma RemoveRelations_cases:
  assumes "cat_wf cat" "RemoveRelations asm cat removeType missing_ok names = Inr cat'" "drop_relkind removeType = RELKIND_INDEX"
  obtains ks where "cat' = fold index_drop ks cat" "set ks \<subseteq> ix_relid ` set (pg_index cat)"
    "drop_objects asm cat removeType missing_ok names = Inr ks"
proof -
  obtain ks where ks: "drop_objects asm cat removeType missing_ok names = Inr ks" "cat' = fold index_drop ks cat"
    using assms(2) by (auto simp: RemoveRelations_def split: sum.splits)
  then show thesis using that drop_objects_sub [OF assms(1) ks(1) assms(3)] by force
qed

lemma run_command_wf:
  assumes "cat_wf cat" "run_command asm cat cmd = Inr cat'" "index_command cmd"
  shows "cat_wf cat'"
proof (cases cmd)
  case (CreateIndexCmd stmt)
  then show ?thesis using assms DefineIndex_wf by (auto simp: run_command_def)
next
  case (DropCmd removeType missing_ok names)
  then have "RemoveRelations asm cat removeType missing_ok names = Inr cat'" "drop_relkind removeType = RELKIND_INDEX"
    using assms(2,3) by (simp_all add: run_command_def)
  then obtain ks where "cat' = fold index_drop ks cat" "set ks \<subseteq> ix_relid ` set (pg_index cat)"
    by (rule RemoveRelations_cases [OF assms(1)])
  then show ?thesis using index_drop_wf [OF assms(1)] by simp
next
  case (ReindexIndexCmd name)
  then have "cat' = cat \<or> (\<exists>r \<in> set (pg_class cat). cat' = cat\<lparr>built := rel_oid r # built cat\<rparr>)"
    using assms(2) get_relname_Some [OF assms(1)]
    by (auto simp: run_command_def ReindexIndex_def reindex_index_def split: option.splits if_splits)
  then show ?thesis using assms(1) by (elim disjE bexE) (simp_all add: cat_wf_def)
qed

lemma ix_relid_inj:
  assumes "cat_wf cat" "i \<in> set (pg_index cat)" "j \<in> set (pg_index cat)" "ix_relid j = ix_relid i"
  shows "j = i"
  using get_index_Some [OF assms(1), of "ix_relid i" i] get_index_Some [OF assms(1), of "ix_relid i" j] assms(2-4) by simp

lemma run_command_unbuilt:
  assumes wf: "cat_wf cat" and r: "run_command asm cat cmd = Inr cat'" "index_command cmd" "\<not> concurrent_hypothetical cmd"
    and u: "hypothetical_unbuilt cat"
  shows "hypothetical_unbuilt cat'"
proof (cases cmd)
  case (CreateIndexCmd stmt)
  then have d: "DefineIndex asm cat stmt = Inr cat'" using r(1) by (simp add: run_command_def)
  have "GetNewOid cat \<notin> ix_relid ` set (pg_index cat)"
    using wf GetNewOid_fresh(1) [of cat] by (auto simp: cat_wf_def)
  then have "\<forall>i \<in> set (pg_index cat). ix_relid i \<noteq> GetNewOid cat" by (metis imageI)
  moreover have "GetNewOid cat \<notin> set (built cat)"
    using wf GetNewOid_fresh(2) [of cat] unfolding cat_wf_def by (metis leD)
  moreover obtain rel keys where "pg_index cat' = pg_index cat @ [new_ind_row cat rel stmt keys]"
    "built cat' = (if st_hypothetical stmt \<and> \<not> st_concurrent stmt then built cat else GetNewOid cat # built cat)"
    by (rule DefineIndex_cases [OF wf d])
  moreover have "\<not> (st_hypothetical stmt \<and> st_concurrent stmt)" using r(3) CreateIndexCmd by simp
  ultimately show ?thesis using u by (simp add: hypothetical_unbuilt_def new_ind_row_def)
next
  case (DropCmd removeType missing_ok names)
  then have "RemoveRelations asm cat removeType missing_ok names = Inr cat'" "drop_relkind removeType = RELKIND_INDEX"
    using r(1,2) by (simp_all add: run_command_def)
  then obtain ks where "cat' = fold index_drop ks cat" by (rule RemoveRelations_cases [OF wf])
  then show ?thesis using u by (simp add: hypothetical_unbuilt_def index_drop_fold)
next
  case (ReindexIndexCmd name)
  then obtain row :: RelRow where row: "ReindexIndex cat (rel_oid row) = Inr cat'"
    using r(1) by (auto simp: run_command_def split: option.splits if_splits)
  then obtain i where i: "get_index cat (rel_oid row) = Some i" by (auto simp: ReindexIndex_def split: option.splits)
  show ?thesis
  proof (cases "ix_hypothetical i")
    case False
    then have c: "cat' = cat\<lparr>built := ix_relid i # built cat\<rparr>" and m: "i \<in> set (pg_index cat)"
      using row i get_index_Some [OF wf, of "rel_oid row" i] by (auto simp: ReindexIndex_def reindex_index_def)
    have "\<forall>j \<in> set (pg_index cat). ix_hypothetical j \<longrightarrow> ix_relid j \<noteq> ix_relid i"
      using ix_relid_inj [OF wf m] False by blast
    then show ?thesis using u unfolding c by (simp add: hypothetical_unbuilt_def)
  qed (use u row i in \<open>simp add: ReindexIndex_def\<close>)
qed

text \<open>Catalogs reached by index commands of clients.\<close>

inductive reaches :: "Catalog \<Rightarrow> Catalog \<Rightarrow> bool" where
  start: "reaches cat cat"
| step: "reaches cat cat' \<Longrightarrow> run_command asm cat' cmd = Inr cat'' \<Longrightarrow> index_command cmd
    \<Longrightarrow> \<not> concurrent_hypothetical cmd \<Longrightarrow> reaches cat cat''"


text \<open>A table as in the example database of the tuner.\<close>

definition products_row :: RelRow where
  "products_row = \<lparr>rel_oid = 17000, relname = ''products'', relkind = RELKIND_RELATION,
     relatts = [''prod_id'', ''category'', ''title''], rel_other_temp = False, rel_system = False,
     rel_create_ok = True, rel_owned = True\<rparr>"

definition products_catalog :: Catalog where
  "products_catalog = \<lparr>pg_class = [products_row], pg_index = [], built = [], registered = [], nextOid = 17001\<rparr>"

definition hypothetical_stmt :: "string \<Rightarrow> string \<Rightarrow> string list \<Rightarrow> IndexStmt" where
  "hypothetical_stmt name table columns =
     \<lparr>st_idxname = name, st_relation = table, st_indexParams = columns, st_unique = False,
      st_concurrent = False, st_hypothetical = True\<rparr>"

lemma products_wf: "cat_wf products_catalog" "hypothetical_unbuilt products_catalog"
  by (simp_all add: cat_wf_def hypothetical_unbuilt_def products_catalog_def products_row_def)

lemma products_create:
  "DefineIndex False products_catalog (hypothetical_stmt ''hix'' ''products'' [''title'']) =
     Inr \<lparr>pg_class = [products_row, \<lparr>rel_oid = 17001, relname = ''hix'', relkind = RELKIND_INDEX, relatts = [''title''],
            rel_other_temp = False, rel_system = False, rel_create_ok = True, rel_owned = True\<rparr>],
          pg_index = [\<lparr>ix_relid = 17001, ix_heap = 17000, ix_natts = 1, ix_unique = False, ix_hypothetical = True,
            ix_valid = True, ix_ready = True, ix_clustered = False, ix_key = [3]\<rparr>],
          built = [], registered = [17001], nextOid = 17002\<rparr>"
  by (simp add: DefineIndex_def products_catalog_def products_row_def hypothetical_stmt_def get_relname_relid_def
      ComputeIndexAttrs_def index_create_def GetNewOid_def INDEX_MAX_KEYS_def)


text \<open>Created concurrently, a hypothetical index is built after all.\<close>

lemma concurrent_hypothetical_built:
  assumes "cat_wf cat" "DefineIndex asm cat stmt = Inr cat'" "st_hypothetical stmt" "st_concurrent stmt"
  shows "\<exists>i \<in> set (pg_index cat'). ix_hypothetical i \<and> ix_relid i \<in> set (built cat')"
proof -
  obtain rel keys where "pg_index cat' = pg_index cat @ [new_ind_row cat rel stmt keys]"
    "built cat' = (if st_hypothetical stmt \<and> \<not> st_concurrent stmt then built cat else GetNewOid cat # built cat)"
    by (rule DefineIndex_cases [OF assms(1,2)])
  then show ?thesis using assms(3,4) by (simp add: new_ind_row_def)
qed

lemma filter_append_new:
  assumes "\<forall>x \<in> set xs. key x \<noteq> k" "key y = k"
  shows "filter (\<lambda>x. key x \<noteq> k) (xs @ [y]) = xs"
  using assms by (simp add: filter_id_conv)

lemma new_index_lookup:
  assumes wf: "cat_wf cat" and d: "DefineIndex asm cat stmt = Inr cat'"
    and r: "pg_class cat' = pg_class cat @ [new_rel_row cat rel stmt]" "pg_index cat' = pg_index cat @ [new_ind_row cat rel stmt keys]"
  shows "get_relname_relid cat' (st_idxname stmt) = Some (new_rel_row cat rel stmt)"
    "get_index cat' (GetNewOid cat) = Some (new_ind_row cat rel stmt keys)"
  using get_relname_Some [OF DefineIndex_wf [OF wf d], of "st_idxname stmt"] get_index_Some [OF DefineIndex_wf [OF wf d]] r
  by (simp_all add: new_rel_row_def new_ind_row_def)



section \<open>What a client relies on\<close>

text \<open>
  The view of a client that creates and drops hypothetical indexes: its own
  hypothetical indexes by name, with table and columns; the tables it may index;
  and the names in use.
\<close>

definition hyp_view :: "Catalog \<Rightarrow> string \<Rightarrow> (string \<times> string list) option" where
  "hyp_view cat n =
     (case get_relname_relid cat n of
        None \<Rightarrow> None
      | Some r \<Rightarrow>
          (case get_index cat (rel_oid r) of
             None \<Rightarrow> None
           | Some i \<Rightarrow>
               if ix_hypothetical i \<and> rel_owned r \<and> \<not> rel_system r
               then map_option (\<lambda>h. (relname h, relatts r)) (find (\<lambda>h. rel_oid h = ix_heap i) (pg_class cat))
               else None))"

definition user_table :: "Catalog \<Rightarrow> string \<Rightarrow> string list option" where
  "user_table cat t =
     (case get_relname_relid cat t of
        None \<Rightarrow> None
      | Some r \<Rightarrow>
          if relkind r = RELKIND_RELATION \<and> \<not> rel_other_temp r \<and> \<not> rel_system r \<and> rel_create_ok r \<and> rel_owned r
          then Some (relatts r) else None)"

definition rel_names :: "Catalog \<Rightarrow> string set" where
  "rel_names cat = relname ` set (pg_class cat)"

lemma hyp_view_iff:
  assumes "cat_wf cat"
  shows "hyp_view cat n = Some (t, cols) \<longleftrightarrow>
    (\<exists>r \<in> set (pg_class cat). \<exists>i \<in> set (pg_index cat). \<exists>h \<in> set (pg_class cat).
       relname r = n \<and> ix_relid i = rel_oid r \<and> ix_heap i = rel_oid h \<and> ix_hypothetical i \<and> rel_owned r \<and> \<not> rel_system r
       \<and> t = relname h \<and> cols = relatts r)"
    (is "?l \<longleftrightarrow> ?r")
proof
  assume ?l
  then obtain r i h where "get_relname_relid cat n = Some r" "get_index cat (rel_oid r) = Some i"
    "find (\<lambda>h. rel_oid h = ix_heap i) (pg_class cat) = Some h" "ix_hypothetical i" "rel_owned r" "\<not> rel_system r"
    "t = relname h" "cols = relatts r"
    by (auto simp: hyp_view_def split: option.splits if_splits)
  moreover have "find (\<lambda>h. rel_oid h = ix_heap i) (pg_class cat) = Some h \<longleftrightarrow> h \<in> set (pg_class cat) \<and> rel_oid h = ix_heap i"
    using assms by (simp add: cat_wf_def find_distinct)
  ultimately show ?r using get_relname_Some [OF assms, of n r] get_index_Some [OF assms, of "rel_oid r" i] by metis
next
  assume ?r
  then obtain r i h where a: "r \<in> set (pg_class cat)" "i \<in> set (pg_index cat)" "h \<in> set (pg_class cat)"
    "relname r = n" "ix_relid i = rel_oid r" "ix_heap i = rel_oid h" "ix_hypothetical i" "rel_owned r" "\<not> rel_system r"
    "t = relname h" "cols = relatts r" by blast
  have "get_relname_relid cat n = Some r" "get_index cat (rel_oid r) = Some i"
    "find (\<lambda>x. rel_oid x = ix_heap i) (pg_class cat) = Some h"
    using a get_relname_Some [OF assms] get_index_Some [OF assms] assms by (simp_all add: cat_wf_def find_distinct)
  then show ?l using a by (simp add: hyp_view_def)
qed

lemma hyp_view_name: "hyp_view cat n \<noteq> None \<Longrightarrow> n \<in> rel_names cat"
  using get_relname_None [of cat n] by (auto simp: hyp_view_def rel_names_def split: option.splits)

lemma find_append_new:
  assumes "key y \<notin> key ` set xs"
  shows "find (\<lambda>x. key x = k) (xs @ [y]) = (if k = key y then Some y else find (\<lambda>x. key x = k) xs)"
  using assms by (induction xs) auto

lemma class_inj:
  assumes "cat_wf cat"
  shows "inj_on rel_oid (set (pg_class cat))" "inj_on relname (set (pg_class cat))"
  using assms by (simp_all add: cat_wf_def distinct_map)

lemma index_heap_table:
  "cat_wf cat \<Longrightarrow> j \<in> set (pg_index cat) \<Longrightarrow> \<exists>y \<in> set (pg_class cat). rel_oid y = ix_heap j \<and> relkind y = RELKIND_RELATION"
  by (simp add: cat_wf_def)

lemma find_filter_key:
  "(\<And>x. x \<in> set xs \<Longrightarrow> key x = k \<Longrightarrow> Q x) \<Longrightarrow> find (\<lambda>x. key x = k) (filter Q xs) = find (\<lambda>x. key x = k) xs"
  by (induction xs) auto

lemma index_row_exists:
  assumes "cat_wf cat" "i \<in> set (pg_index cat)"
  shows "\<exists>r \<in> set (pg_class cat). rel_oid r = ix_relid i" "\<exists>r \<in> set (pg_class cat). rel_oid r = ix_heap i"
proof -
  have "ix_relid i \<in> rel_oid ` set (filter (\<lambda>r. relkind r = RELKIND_INDEX) (pg_class cat))"
    using assms unfolding cat_wf_def by (metis imageI)
  then show "\<exists>r \<in> set (pg_class cat). rel_oid r = ix_relid i" by auto
  show "\<exists>r \<in> set (pg_class cat). rel_oid r = ix_heap i" using assms unfolding cat_wf_def by blast
qed

lemma views_append:
  assumes wf: "cat_wf cat" and c: "pg_class cat' = pg_class cat @ [row]" "pg_index cat' = pg_index cat @ [ind]"
    and new: "rel_oid row \<notin> rel_oid ` set (pg_class cat)" "relname row \<notin> relname ` set (pg_class cat)"
    and row: "ix_relid ind = rel_oid row" "ix_hypothetical ind" "rel_owned row" "\<not> rel_system row" "relkind row = RELKIND_INDEX"
    and h: "h \<in> set (pg_class cat)" "ix_heap ind = rel_oid h"
  shows "hyp_view cat' = (hyp_view cat)(relname row \<mapsto> (relname h, relatts row))" "user_table cat' = user_table cat"
proof -
  have oid: "rel_oid x \<noteq> rel_oid row" if "x \<in> set (pg_class cat)" for x using new(1) that by (metis imageI)
  have heap: "ix_heap j \<noteq> rel_oid row" if "j \<in> set (pg_index cat)" for j
    using index_row_exists(2) [OF wf that] oid by metis
  have g: "get_relname_relid cat' m = (if m = relname row then Some row else get_relname_relid cat m)" for m
    unfolding get_relname_relid_def c by (rule find_append_new [OF new(2)])
  have "rel_oid row \<notin> ix_relid ` set (pg_index cat)" using oid index_row_exists(1) [OF wf] by (metis imageE)
  then have i: "get_index cat' k = (if k = rel_oid row then Some ind else get_index cat k)" for k
    unfolding get_index_def c using find_append_new [of ix_relid ind "pg_index cat" k] row(1) by simp
  have f: "find (\<lambda>x. rel_oid x = k) (pg_class cat') = find (\<lambda>x. rel_oid x = k) (pg_class cat)" if "k \<noteq> rel_oid row" for k
    using that find_append_new [OF new(1)] unfolding c by simp
  have fi: "find (\<lambda>x. rel_oid x = ix_heap a) (pg_class cat') = find (\<lambda>x. rel_oid x = ix_heap a) (pg_class cat)"
    if "get_index cat k = Some a" for a k
    by (rule f) (use that heap get_index_Some [OF wf, of k a] in blast)
  have hh: "find (\<lambda>x. rel_oid x = rel_oid h) (pg_class cat) = Some h" "rel_oid h \<noteq> rel_oid row"
    using wf h(1) oid [OF h(1)] by (simp_all add: cat_wf_def find_distinct)
  show "hyp_view cat' = (hyp_view cat)(relname row \<mapsto> (relname h, relatts row))"
  proof
    fix m
    show "hyp_view cat' m = ((hyp_view cat)(relname row \<mapsto> (relname h, relatts row))) m"
    proof (cases "m = relname row")
      case True
      then show ?thesis using row h hh f by (simp add: hyp_view_def g i)
    next
      case False
      show ?thesis
      proof (cases "get_relname_relid cat m")
        case (Some r)
        then have "rel_oid r \<noteq> rel_oid row" using get_relname_Some [OF wf, of m r] oid by simp
        then show ?thesis using False Some
          by (cases "get_index cat (rel_oid r)") (simp_all add: hyp_view_def g i fi)
      qed (simp add: hyp_view_def g False)
    qed
  qed
  show "user_table cat' = user_table cat"
  proof
    fix m
    have "get_relname_relid cat (relname row) = None" using new(2) by (simp add: get_relname_None)
    then show "user_table cat' m = user_table cat m" using row(5) by (simp add: user_table_def g)
  qed
qed

lemma create_hypothetical_view:
  assumes wf: "cat_wf cat" and t: "user_table cat t = Some atts" and cols: "set cols \<subseteq> set atts" "cols \<noteq> []" "length cols \<le> 32"
    and n: "n \<notin> rel_names cat"
  shows "\<exists>cat'. run_command False cat (CreateIndexCmd (hypothetical_stmt n t cols)) = Inr cat' \<and> cat_wf cat'
    \<and> hyp_view cat' = (hyp_view cat)(n \<mapsto> (t, cols)) \<and> user_table cat' = user_table cat \<and> rel_names cat' = insert n (rel_names cat)"
proof -
  let ?stmt = "hypothetical_stmt n t cols"
  obtain rel where rel: "get_relname_relid cat t = Some rel" "relkind rel = RELKIND_RELATION" "\<not> rel_other_temp rel"
    "\<not> rel_system rel" "rel_create_ok rel" "rel_owned rel" "relatts rel = atts"
    using t by (auto simp: user_table_def split: option.splits if_splits)
  obtain keys where keys: "ComputeIndexAttrs rel cols = Inr keys" using ComputeIndexAttrs_ok [of cols rel] cols(1) rel(7) by blast
  have none: "get_relname_relid cat n = None" using n by (simp add: get_relname_None rel_names_def)
  have "\<exists>cat'. DefineIndex False cat ?stmt = Inr cat'"
    using rel keys none cols(2,3)
    by (simp add: DefineIndex_def hypothetical_stmt_def Let_def index_create_def INDEX_MAX_KEYS_def Suc_le_eq)
  then obtain cat' where d: "DefineIndex False cat ?stmt = Inr cat'" by blast
  obtain rel' keys where "get_relname_relid cat (st_relation ?stmt) = Some rel'"
    and r: "pg_class cat' = pg_class cat @ [new_rel_row cat rel' ?stmt]" "pg_index cat' = pg_index cat @ [new_ind_row cat rel' ?stmt keys]"
    by (rule DefineIndex_cases [OF wf d])
  then have [simp]: "rel' = rel" using rel(1) by (simp add: hypothetical_stmt_def)
  note wf' = DefineIndex_wf [OF wf d]
  have relin: "rel \<in> set (pg_class cat)" "relname rel = t" using rel(1) get_relname_Some [OF wf] by simp_all
  have "hyp_view cat' = (hyp_view cat)(n \<mapsto> (t, cols))" "user_table cat' = user_table cat"
    using views_append [OF wf r, of rel] GetNewOid_fresh(1) [of cat] n relin rel(4,6)
    by (simp_all add: new_rel_row_def new_ind_row_def hypothetical_stmt_def rel_names_def)
  note view = this
  have "rel_names cat' = insert n (rel_names cat)" using r(1) by (simp add: rel_names_def new_rel_row_def hypothetical_stmt_def)
  then show ?thesis using d wf' view by (simp add: run_command_def)
qed

lemma drop_hypothetical_view:
  assumes wf: "cat_wf cat" and n: "hyp_view cat n = Some x"
  shows "\<exists>cat'. run_command False cat (DropCmd OBJECT_HYP_INDEX False [n]) = Inr cat' \<and> cat_wf cat'
    \<and> hyp_view cat' = (hyp_view cat)(n := None) \<and> user_table cat' = user_table cat \<and> rel_names cat' = rel_names cat - {n}"
proof -
  obtain r i where ri: "get_relname_relid cat n = Some r" "get_index cat (rel_oid r) = Some i" "ix_hypothetical i"
    "rel_owned r" "\<not> rel_system r"
    using n by (auto simp: hyp_view_def split: option.splits if_splits)
  define k where "k = rel_oid r"
  have rin: "r \<in> set (pg_class cat)" "relname r = n" and iin: "i \<in> set (pg_index cat)" "ix_relid i = k"
    using ri(1,2) get_relname_Some [OF wf] get_index_Some [OF wf] by (simp_all add: k_def)
  have kind: "relkind r = RELKIND_INDEX"
  proof -
    have "k \<in> rel_oid ` set (filter (\<lambda>r. relkind r = RELKIND_INDEX) (pg_class cat))"
      using wf iin unfolding cat_wf_def by (metis imageI)
    then obtain r' where "r' \<in> set (pg_class cat)" "rel_oid r' = k" "relkind r' = RELKIND_INDEX" by auto
    moreover have "r' = r" using inj_onD [OF class_inj(1) [OF wf]] calculation(1,2) rin(1) by (simp add: k_def)
    ultimately show ?thesis by simp
  qed
  have "drop_check False cat OBJECT_HYP_INDEX False n = Inr (Some k)"
    using ri kind by (simp add: drop_check_def k_def)
  then have run: "run_command False cat (DropCmd OBJECT_HYP_INDEX False [n]) = Inr (index_drop k cat)"
    by (simp add: run_command_def RemoveRelations_def)
  have wf': "cat_wf (index_drop k cat)" by (rule run_command_wf [OF wf run]) simp
  have only: "rel_oid x = k \<longleftrightarrow> x = r" if "x \<in> set (pg_class cat)" for x
    using inj_onD [OF class_inj(1) [OF wf] _ that rin(1)] by (auto simp: k_def)
  have named: "relname x = n \<longleftrightarrow> x = r" if "x \<in> set (pg_class cat)" for x
    using inj_onD [OF class_inj(2) [OF wf] _ that rin(1)] rin(2) by auto
  have heap: "ix_heap j \<noteq> k" if j: "j \<in> set (pg_index cat)" for j
  proof
    assume "ix_heap j = k"
    moreover obtain y where "y \<in> set (pg_class cat)" "rel_oid y = ix_heap j" "relkind y = RELKIND_RELATION"
      using index_heap_table [OF wf j] by blast
    ultimately show False using only [of y] kind by simp
  qed
  have g: "get_relname_relid (index_drop k cat) m = (if m = n then None else get_relname_relid cat m)" for m
  proof (cases "m = n")
    case True
    then show ?thesis using only named by (simp add: get_relname_None) (auto simp: index_drop_def)
  next
    case False
    then show ?thesis
      using only rin(2) by (auto simp: get_relname_relid_def index_drop_def intro!: find_filter_key)
  qed
  have i: "get_index (index_drop k cat) m = get_index cat m" if "m \<noteq> k" for m
    using that by (auto simp: get_index_def index_drop_def intro!: find_filter_key)
  have f: "find (\<lambda>x. rel_oid x = m) (pg_class (index_drop k cat)) = find (\<lambda>x. rel_oid x = m) (pg_class cat)" if "m \<noteq> k" for m
    using that by (auto simp: index_drop_def intro!: find_filter_key)
  have fi: "find (\<lambda>x. rel_oid x = ix_heap a) (pg_class (index_drop k cat)) = find (\<lambda>x. rel_oid x = ix_heap a) (pg_class cat)"
    if "get_index cat m = Some a" for a m
    by (rule f) (use that heap get_index_Some [OF wf, of m a] in blast)
  have "hyp_view (index_drop k cat) = (hyp_view cat)(n := None)"
  proof
    fix m
    show "hyp_view (index_drop k cat) m = ((hyp_view cat)(n := None)) m"
    proof (cases "m = n \<or> get_relname_relid cat m = None")
      case False
      then obtain r' where r': "get_relname_relid cat m = Some r'" by auto
      then have "rel_oid r' \<noteq> k" using False only [of r'] rin(2) get_relname_Some [OF wf, of m r'] by auto
      then show ?thesis
        using False r' by (cases "get_index cat (rel_oid r')") (simp_all add: hyp_view_def g i fi)
    qed (auto simp: hyp_view_def g)
  qed
  moreover have "user_table (index_drop k cat) = user_table cat"
  proof
    fix m
    show "user_table (index_drop k cat) m = user_table cat m" using ri(1) kind by (simp add: user_table_def g)
  qed
  moreover have "rel_names (index_drop k cat) = rel_names cat - {n}"
    using only named by (auto simp: rel_names_def index_drop_def)
  ultimately show ?thesis using run wf' by blast
qed

text \<open>
  The contract of the server with a client of hypothetical indexes: the effect of the
  two statements on the client's view.
\<close>

locale hyp_index_server =
  fixes inv :: "'db \<Rightarrow> bool"
    and exec :: "'db \<Rightarrow> IndexCommand \<Rightarrow> pg_error + 'db"
    and hyps :: "'db \<Rightarrow> string \<Rightarrow> (string \<times> string list) option"
    and tabs :: "'db \<Rightarrow> string \<Rightarrow> string list option"
    and names :: "'db \<Rightarrow> string set"
  assumes create: "inv db \<Longrightarrow> tabs db t = Some atts \<Longrightarrow> set cols \<subseteq> set atts \<Longrightarrow> cols \<noteq> [] \<Longrightarrow> length cols \<le> 32
      \<Longrightarrow> n \<notin> names db \<Longrightarrow>
      \<exists>db'. exec db (CreateIndexCmd (hypothetical_stmt n t cols)) = Inr db' \<and> inv db'
        \<and> hyps db' = (hyps db)(n \<mapsto> (t, cols)) \<and> tabs db' = tabs db \<and> names db' = insert n (names db)"
    and drop: "inv db \<Longrightarrow> hyps db n = Some x \<Longrightarrow>
      \<exists>db'. exec db (DropCmd OBJECT_HYP_INDEX False [n]) = Inr db' \<and> inv db'
        \<and> hyps db' = (hyps db)(n := None) \<and> tabs db' = tabs db \<and> names db' = names db - {n}"
    and hyps_named: "inv db \<Longrightarrow> hyps db n = Some x \<Longrightarrow> n \<in> names db"

interpretation catalog_server: hyp_index_server cat_wf "run_command False" hyp_view user_table rel_names
proof
  fix db t atts cols n
  assume "cat_wf db" "user_table db t = Some atts" "set cols \<subseteq> set atts" "cols \<noteq> []" "length cols \<le> 32" "n \<notin> rel_names db"
  then show "\<exists>db'. run_command False db (CreateIndexCmd (hypothetical_stmt n t cols)) = Inr db' \<and> cat_wf db'
        \<and> hyp_view db' = (hyp_view db)(n \<mapsto> (t, cols)) \<and> user_table db' = user_table db \<and> rel_names db' = insert n (rel_names db)"
    by (rule create_hypothetical_view)
next
  fix db n x
  assume a: "cat_wf db" "hyp_view db n = Some x"
  then show "\<exists>db'. run_command False db (DropCmd OBJECT_HYP_INDEX False [n]) = Inr db' \<and> cat_wf db'
        \<and> hyp_view db' = (hyp_view db)(n := None) \<and> user_table db' = user_table db \<and> rel_names db' = rel_names db - {n}"
    by (rule drop_hypothetical_view)
  show "n \<in> rel_names db" using a(2) hyp_view_name [of db n] by simp
qed

end
