(* ===== verification/Tuner_Index.thy ===== *)
theory Tuner_Index
  imports Hypo_Catalog "HOL-Library.Char_ord" "HOL-Library.List_Lexorder"
begin

text \<open>
  The index tuner: its index objects and its connection to the database
  (\<^verbatim>\<open>Index.java\<close>, \<^verbatim>\<open>DBConnection.java\<close>, \<^verbatim>\<open>DBTime.java\<close>, \<^verbatim>\<open>IndexExtraction.java\<close> and the
  configuration handling of \<^verbatim>\<open>IndexTuner.java\<close>).  Index objects live in a heap and are
  referred to by address, because the tuner compares them by identity and changes
  them in place.
\<close>

section \<open>Exceptions and effects\<close>

datatype jexn = NullPointerException | IndexOutOfBoundsException | SQLException | NumberFormatException

text \<open>A method reads and changes a state and returns a value or throws.\<close>

type_synonym ('s, 'a) jm = "'s \<Rightarrow> (jexn + 'a) \<times> 's"

definition jreturn :: "'a \<Rightarrow> ('s, 'a) jm" where
  "jreturn x s = (Inr x, s)"

definition jthrow :: "jexn \<Rightarrow> ('s, 'a) jm" where
  "jthrow e s = (Inl e, s)"

definition jbind :: "('s, 'a) jm \<Rightarrow> ('a \<Rightarrow> ('s, 'b) jm) \<Rightarrow> ('s, 'b) jm" where
  "jbind m f s = (case m s of (Inl e, s') \<Rightarrow> (Inl e, s') | (Inr x, s') \<Rightarrow> f x s')"

text \<open>\<^verbatim>\<open>for (x : xs) body\<close>, with a value carried along.\<close>

fun jfold :: "('x \<Rightarrow> 'a \<Rightarrow> ('s, 'a) jm) \<Rightarrow> 'x list \<Rightarrow> 'a \<Rightarrow> ('s, 'a) jm" where
  "jfold f [] a = jreturn a"
| "jfold f (x # xs) a = jbind (f x a) (jfold f xs)"

lemma jreturn_run [simp]: "jreturn x s = (Inr x, s)"
  by (simp add: jreturn_def)

lemma jthrow_run [simp]: "jthrow e s = (Inl e, s)"
  by (simp add: jthrow_def)

lemma jbind_run: "jbind m f s = (case m s of (Inl e, s') \<Rightarrow> (Inl e, s') | (Inr x, s') \<Rightarrow> f x s')"
  by (simp add: jbind_def)

section \<open>Strings\<close>

text \<open>The whitespace of Java regular expressions.\<close>

definition jspace :: "char \<Rightarrow> bool" where
  "jspace c \<longleftrightarrow> c \<in> {CHR '' '', CHR 0x09, CHR 0x0A, CHR 0x0B, CHR 0x0C, CHR 0x0D}"

definition drop_trailing_empty :: "string list \<Rightarrow> string list" where
  "drop_trailing_empty xs = rev (dropWhile (\<lambda>s. s = []) (rev xs))"

text \<open>The pieces between the occurrences of a character.\<close>

fun pieces :: "char \<Rightarrow> string \<Rightarrow> string list" where
  "pieces d [] = [[]]"
| "pieces d (c # cs) = (if c = d then [] # pieces d cs
                         else (case pieces d cs of p # ps \<Rightarrow> (c # p) # ps | [] \<Rightarrow> [[c]]))"

text \<open>
  \<^verbatim>\<open>split("\s*,\s*")\<close>: the pieces between commas, without the whitespace next to a comma;
  trailing empty pieces are dropped unless there is no comma at all.
\<close>

definition split_comma :: "string \<Rightarrow> string list" where
  "split_comma s =
     (let ps = pieces (CHR '','') s; n = length ps in
      if n = 1 then ps
      else drop_trailing_empty
        (map (\<lambda>i. let p = ps ! i;
                      l = (if 0 < i then dropWhile jspace p else p)
                  in if Suc i < n then rev (dropWhile jspace (rev l)) else l) [0..<n]))"

text \<open>\<^verbatim>\<open>split("\.")\<close>.\<close>

definition split_dot :: "string \<Rightarrow> string list" where
  "split_dot s = (let ps = pieces (CHR ''.'') s in if length ps = 1 then ps else drop_trailing_empty ps)"

text \<open>\<^verbatim>\<open>split("\.\.")\<close>.\<close>

fun pieces_dots :: "string \<Rightarrow> string list" where
  "pieces_dots [] = [[]]"
| "pieces_dots [c] = [[c]]"
| "pieces_dots (c # d # cs) =
     (if c = CHR ''.'' \<and> d = CHR ''.'' then [] # pieces_dots cs
      else case pieces_dots (d # cs) of p # ps \<Rightarrow> (c # p) # ps | [] \<Rightarrow> [[c]])"

definition split_dots :: "string \<Rightarrow> string list" where
  "split_dots s = (let ps = pieces_dots s in if length ps = 1 then ps else drop_trailing_empty ps)"

fun join_comma :: "string list \<Rightarrow> string" where
  "join_comma [] = []"
| "join_comma [s] = s"
| "join_comma (s # t # ss) = s @ '', '' @ join_comma (t # ss)"

section \<open>Indexes\<close>

record JIndex =
  ji_id :: nat
  ji_name :: string
  ji_table_name :: string
  ji_table_id :: nat
  ji_column_names :: "string list"
  ji_hypothetical :: bool
  ji_dbname :: string
  ji_materialized :: bool

text \<open>The constructor; the list of column numbers is always empty and left out.\<close>

definition new_Index :: "nat \<Rightarrow> string \<Rightarrow> string \<Rightarrow> nat \<Rightarrow> string \<Rightarrow> bool \<Rightarrow> string \<Rightarrow> bool \<Rightarrow> JIndex" where
  "new_Index a_id a_name a_table_name a_table_id a_column_names a_hypothetical a_dbname a_materialized =
     \<lparr>ji_id = a_id, ji_name = a_name, ji_table_name = a_table_name, ji_table_id = a_table_id,
      ji_column_names = sort (split_comma a_column_names), ji_hypothetical = a_hypothetical,
      ji_dbname = a_dbname, ji_materialized = a_materialized\<rparr>"

text \<open>The printed list with its brackets, and all others, removed.\<close>

definition getColumnNames :: "JIndex \<Rightarrow> string" where
  "getColumnNames x = filter (\<lambda>c. c \<noteq> CHR ''['' \<and> c \<noteq> CHR '']'') (join_comma (ji_column_names x))"

definition equals_names :: "JIndex \<Rightarrow> string \<Rightarrow> string \<Rightarrow> string \<Rightarrow> bool" where
  "equals_names x a_dbname a_table_name a_column_names \<longleftrightarrow>
     ji_dbname x = a_dbname \<and> ji_table_name x = a_table_name \<and> ji_column_names x = split_comma a_column_names"

text \<open>The sign of compareTo: by number of columns, then by the column names in order.\<close>

fun compare_columns :: "string list \<Rightarrow> string list \<Rightarrow> int" where
  "compare_columns (a # as) (b # bs) = (if a < b then -1 else if b < a then 1 else compare_columns as bs)"
| "compare_columns _ _ = 0"

definition compareTo :: "JIndex \<Rightarrow> JIndex \<Rightarrow> int" where
  "compareTo x y =
     (if length (ji_column_names x) < length (ji_column_names y) then -1
      else if length (ji_column_names x) > length (ji_column_names y) then 1
      else compare_columns (ji_column_names x) (ji_column_names y))"

section \<open>The connection\<close>

text \<open>
  The heap of index objects, the list of hypothetical indexes of the connection and
  the database behind it.
\<close>

type_synonym iref = nat

record 'db world =
  w_heap :: "iref \<Rightarrow> JIndex"
  w_next :: iref
  w_curHypConfig :: "iref list"
  w_db :: 'db
  w_dbname :: string

text \<open>
  What lies outside: the database executing index statements and explaining queries
  (None for an SQLException, else the first row if there is one), and the parsing of numbers.
\<close>

record ('db, 'c) DbEnv =
  db_exec :: "'db \<Rightarrow> IndexCommand \<Rightarrow> pg_error + 'db"
  db_explain :: "'db \<Rightarrow> string \<Rightarrow> string option option"
  parseFloat :: "string \<Rightarrow> 'c option"

definition alloc_Index :: "JIndex \<Rightarrow> ('db world, iref) jm" where
  "alloc_Index x w = (Inr (w_next w), w\<lparr>w_heap := (w_heap w)(w_next w := x), w_next := Suc (w_next w)\<rparr>)"

text \<open>
  An identifier in the text of a statement: letters, digits and underscores, folded to
  lower case and truncated to 63 characters.  Anything else is a syntax error.  Reserved words,
  which the parser would refuse too, are not told from other identifiers.
\<close>

definition ident_char :: "char \<Rightarrow> bool" where
  "ident_char c \<longleftrightarrow> (let n = of_char c :: nat in
     97 \<le> n \<and> n \<le> 122 \<or> 65 \<le> n \<and> n \<le> 90 \<or> 48 \<le> n \<and> n \<le> 57 \<or> n = 95)"

definition lower :: "char \<Rightarrow> char" where
  "lower c = (let n = of_char c :: nat in if 65 \<le> n \<and> n \<le> 90 then char_of (n + 32) else c)"

definition sql_ident :: "string \<Rightarrow> string option" where
  "sql_ident s =
     (if s \<noteq> [] \<and> list_all ident_char s \<and> \<not> (let n = of_char (hd s) :: nat in 48 \<le> n \<and> n \<le> 57)
      then Some (take 63 (map lower s)) else None)"

definition sql_create_index :: "bool \<Rightarrow> string \<Rightarrow> string \<Rightarrow> string \<Rightarrow> IndexCommand option" where
  "sql_create_index hypothetical name table_name columns =
     (case (sql_ident name, sql_ident table_name, those (map sql_ident (split_comma columns))) of
        (Some n, Some t, Some cs) \<Rightarrow>
          Some (CreateIndexCmd \<lparr>st_idxname = n, st_relation = t, st_indexParams = cs, st_unique = False,
            st_concurrent = False, st_hypothetical = hypothetical\<rparr>)
      | _ \<Rightarrow> None)"

definition sql_drop_index :: "bool \<Rightarrow> string \<Rightarrow> IndexCommand option" where
  "sql_drop_index hypothetical name =
     map_option (\<lambda>n. DropCmd (if hypothetical then OBJECT_HYP_INDEX else OBJECT_INDEX) False [n]) (sql_ident name)"

definition execStmt :: "('db, 'c) DbEnv \<Rightarrow> IndexCommand option \<Rightarrow> ('db world, unit) jm" where
  "execStmt env cmd w =
     (case cmd of
        None \<Rightarrow> (Inl SQLException, w)
      | Some c \<Rightarrow> (case db_exec env (w_db w) c of
                      Inl e \<Rightarrow> (Inl SQLException, w)
                    | Inr db' \<Rightarrow> (Inr (), w\<lparr>w_db := db'\<rparr>)))"

definition set_index :: "iref \<Rightarrow> JIndex \<Rightarrow> ('db world, unit) jm" where
  "set_index i x w = (Inr (), w\<lparr>w_heap := (w_heap w)(i := x)\<rparr>)"

definition Index_drop :: "('db, 'c) DbEnv \<Rightarrow> iref \<Rightarrow> ('db world, unit) jm" where
  "Index_drop env i w =
     (let x = w_heap w i in
      if \<not> ji_materialized x then jreturn () w
      else if w_dbname w = ji_dbname x
      then jbind (execStmt env (sql_drop_index (ji_hypothetical x) (ji_name x)))
                 (\<lambda>_. set_index i (x\<lparr>ji_materialized := False\<rparr>)) w
      else jreturn () w)"

definition Index_create :: "('db, 'c) DbEnv \<Rightarrow> iref \<Rightarrow> ('db world, unit) jm" where
  "Index_create env i w =
     (let x = w_heap w i in
      if ji_materialized x then jreturn () w
      else if w_dbname w = ji_dbname x
      then let name = (if ji_name x = []
                       then (if ji_hypothetical x then ''hix_'' else ''ix_'') @ ji_table_name x @ ''_'' @ getColumnNames x
                       else ji_name x);
               x1 = x\<lparr>ji_name := name\<rparr>
           in jbind (set_index i x1) (\<lambda>_.
              jbind (execStmt env (sql_create_index (ji_hypothetical x) name (ji_table_name x) (getColumnNames x))) (\<lambda>_.
              set_index i (x1\<lparr>ji_materialized := True\<rparr>))) w
      else jreturn () w)"

subsection \<open>EXPLAIN\<close>

text \<open>The group of the first match of \<^verbatim>\<open>cost=(.*?) rows=\<close>.\<close>

fun until_rows :: "string \<Rightarrow> string option" where
  "until_rows s =
     (if take 6 s = '' rows='' then Some []
      else case s of [] \<Rightarrow> None
                   | c # cs \<Rightarrow> if c = CHR 0x0A \<or> c = CHR 0x0D then None else map_option (Cons c) (until_rows cs))"

fun find_cost :: "string \<Rightarrow> string option" where
  "find_cost s =
     (case (if take 5 s = ''cost='' then until_rows (drop 5 s) else None) of
        Some g \<Rightarrow> Some g
      | None \<Rightarrow> (case s of [] \<Rightarrow> None | c # cs \<Rightarrow> find_cost cs))"

definition execExplain :: "('db, 'c) DbEnv \<Rightarrow> string \<Rightarrow> ('db world, 'c option) jm" where
  "execExplain env query w =
     (case db_explain env (w_db w) query of
        Some (Some mydata) \<Rightarrow>
          (case find_cost mydata of
             None \<Rightarrow> (Inr None, w)
           | Some g \<Rightarrow>
               (let parts = split_dots g in
                if length parts < 2 then (Inl IndexOutOfBoundsException, w)
                else case parseFloat env (parts ! 1) of
                       None \<Rightarrow> (Inl NumberFormatException, w)
                     | Some c \<Rightarrow> (Inr (Some c), w)))
      | _ \<Rightarrow> (Inr None, w))"

text \<open>A row of the catalog query: index oid, table, index, columns, hypothetical.\<close>

type_synonym index_row = "nat \<times> string \<times> string \<times> string \<times> bool"

fun loadCurrentConfiguration :: "index_row list \<Rightarrow> ('db world, unit) jm" where
  "loadCurrentConfiguration [] w = (Inr (), w)"
| "loadCurrentConfiguration ((oid, table_name, index_name, column_names, ishyp) # rows) w =
     jbind (alloc_Index (new_Index oid index_name table_name 0 column_names True (w_dbname w) True)) (\<lambda>ind w1.
       loadCurrentConfiguration rows
         (if ishyp then w1\<lparr>w_curHypConfig := w_curHypConfig w1 @ [ind]\<rparr> else w1)) w"

text \<open>AdminDB: the real indexes of the copy are replaced by hypothetical ones.\<close>

fun dropIdxAndCreateHypIdx :: "('db, 'c) DbEnv \<Rightarrow> index_row list \<Rightarrow> ('db world, unit) jm" where
  "dropIdxAndCreateHypIdx env [] w = (Inr (), w)"
| "dropIdxAndCreateHypIdx env ((oid, table_name, index_name, column_names, ishyp) # rows) w =
     jbind (alloc_Index (new_Index oid index_name table_name 0 column_names False (w_dbname w) True)) (\<lambda>ind.
     jbind (if \<not> ishyp
            then jbind (Index_drop env ind) (\<lambda>_ w1.
                 jbind (alloc_Index (new_Index 0 (''hi_'' @ index_name) table_name 0 column_names True (w_dbname w1) False))
                       (Index_create env) w1)
            else jreturn ()) (\<lambda>_. dropIdxAndCreateHypIdx env rows)) w"

section \<open>Configurations\<close>

definition drop_current :: "('db, 'c) DbEnv \<Rightarrow> ('db world, unit) jm" where
  "drop_current env w =
     jbind (jfold (\<lambda>i _. Index_drop env i) (w_curHypConfig w) ()) (\<lambda>_ w1. (Inr (), w1\<lparr>w_curHypConfig := []\<rparr>)) w"

definition add_index :: "('db, 'c) DbEnv \<Rightarrow> iref \<Rightarrow> ('db world, unit) jm" where
  "add_index env i w =
     (if ji_hypothetical (w_heap w i)
      then jbind (Index_create env i) (\<lambda>_ w1. (Inr (), w1\<lparr>w_curHypConfig := w_curHypConfig w1 @ [i]\<rparr>)) w
      else (Inr (), w))"

definition simulateConfig :: "('db, 'c) DbEnv \<Rightarrow> iref list \<Rightarrow> ('db world, unit) jm" where
  "simulateConfig env configuration = jbind (drop_current env) (\<lambda>_. jfold (\<lambda>i _. add_index env i) configuration ())"

definition whatIf :: "('db, 'c) DbEnv \<Rightarrow> string \<Rightarrow> iref list \<Rightarrow> ('db world, 'c option) jm" where
  "whatIf env query configuration = jbind (simulateConfig env configuration) (\<lambda>_. execExplain env query)"

text \<open>Adding a null cost throws.\<close>

definition costOf :: "('db, 'c :: {zero, plus}) DbEnv \<Rightarrow> string list \<Rightarrow> iref list \<Rightarrow> ('db world, 'c) jm" where
  "costOf env workload configuration =
     jbind (simulateConfig env configuration) (\<lambda>_.
       jfold (\<lambda>query cst. jbind (execExplain env query) (\<lambda>t.
                case t of None \<Rightarrow> jthrow NullPointerException | Some c \<Rightarrow> jreturn (cst + c))) workload 0)"

definition costOfCreating :: "('db, 'c :: minus) DbEnv \<Rightarrow> iref \<Rightarrow> ('db world, 'c) jm" where
  "costOfCreating env index w =
     (let x = w_heap w index;
          query = ''SELECT '' @ getColumnNames x @ '' FROM '' @ ji_table_name x @ '' ORDER BY '' @ getColumnNames x
      in jbind (execExplain env query) (\<lambda>pre.
         jbind (Index_create env index) (\<lambda>_.
         jbind (execExplain env query) (\<lambda>post.
         jbind (Index_drop env index) (\<lambda>_.
           case (pre, post) of (Some a, Some b) \<Rightarrow> jreturn (a - b) | _ \<Rightarrow> jthrow NullPointerException)))) w)"

text \<open>
  A target index is kept once for each current index it equals; the others are new.
\<close>

definition config_common :: "(iref \<Rightarrow> JIndex) \<Rightarrow> iref list \<Rightarrow> iref list \<Rightarrow> iref list" where
  "config_common h cur target =
     concat (map (\<lambda>t. map (\<lambda>_. t)
       (filter (\<lambda>c. equals_names (h c) (ji_dbname (h t)) (ji_table_name (h t)) (getColumnNames (h t))) cur)) target)"

definition config_new :: "(iref \<Rightarrow> JIndex) \<Rightarrow> iref list \<Rightarrow> iref list \<Rightarrow> iref list" where
  "config_new h cur target =
     filter (\<lambda>t. \<not> (\<exists>c \<in> set cur. equals_names (h c) (ji_dbname (h t)) (ji_table_name (h t)) (getColumnNames (h t)))) target"

definition changeConfig :: "('db, 'c :: {zero, plus, minus}) DbEnv \<Rightarrow> iref list \<Rightarrow> iref list \<Rightarrow> ('db world, 'c) jm" where
  "changeConfig env cur target w =
     jbind (simulateConfig env (config_common (w_heap w) cur target)) (\<lambda>_.
       jfold (\<lambda>index cost. jbind (costOfCreating env index) (\<lambda>c. jreturn (cost + c)))
         (config_new (w_heap w) cur target) 0) w"

section \<open>Column lists survive printing\<close>

definition plain :: "string \<Rightarrow> bool" where
  "plain s \<longleftrightarrow> sql_ident s = Some s"

lemma plain_chars:
  assumes "plain s"
  shows "s \<noteq> []" "\<And>c. c \<in> set s \<Longrightarrow> ident_char c"
  using assms by (auto simp: plain_def sql_ident_def list_all_iff split: if_splits)

lemma ident_char_not:
  assumes "ident_char c"
  shows "c \<noteq> CHR '',''" "\<not> jspace c" "c \<noteq> CHR ''[''" "c \<noteq> CHR '']''" "c \<noteq> CHR ''.''"
  using assms by (auto simp: ident_char_def jspace_def)

lemma pieces_nonempty: "pieces d s \<noteq> []"
  by (induction s) (auto split: list.splits)

lemma pieces_append:
  "d \<notin> set a \<Longrightarrow> pieces d (a @ d # s) = a # pieces d s"
  by (induction a) auto

lemma pieces_single: "d \<notin> set a \<Longrightarrow> pieces d a = [a]"
  by (induction a) auto

lemma pieces_join:
  assumes "ss \<noteq> []" "\<forall>s \<in> set ss. CHR '','' \<notin> set s"
  shows "pieces (CHR '','') (join_comma ss) = hd ss # map (\<lambda>s. CHR '' '' # s) (tl ss)"
  using assms
proof (induction ss rule: join_comma.induct)
  case (3 s t ss)
  have "pieces (CHR '','') (join_comma (s # t # ss)) = s # pieces (CHR '','') (CHR '' '' # join_comma (t # ss))"
    using 3 pieces_append [of "CHR '',''" s] by simp
  also have "pieces (CHR '','') (CHR '' '' # join_comma (t # ss)) = (CHR '' '' # t) # map (\<lambda>s. CHR '' '' # s) ss"
    using 3 by simp
  finally show ?case by simp
qed (simp_all add: pieces_single)

lemma dropWhile_plain: "plain s \<Longrightarrow> dropWhile jspace s = s" "plain s \<Longrightarrow> rev (dropWhile jspace (rev s)) = s"
proof -
  assume s: "plain s"
  have "\<not> jspace (hd s)" "\<not> jspace (last s)"
    using plain_chars [OF s] ident_char_not(2) by auto
  then have "dropWhile jspace s = s" "dropWhile jspace (rev s) = rev s"
    using plain_chars(1) [OF s] by (simp_all only: dropWhile_eq_self_iff hd_rev) simp_all
  then show "dropWhile jspace s = s" "rev (dropWhile jspace (rev s)) = s" by simp_all
qed

lemma drop_trailing_plain:
  "ss \<noteq> [] \<Longrightarrow> \<forall>s \<in> set ss. s \<noteq> [] \<Longrightarrow> drop_trailing_empty ss = ss"
proof -
  assume a: "ss \<noteq> []" "\<forall>s \<in> set ss. s \<noteq> []"
  then have "last ss \<noteq> []" by simp
  then have "dropWhile (\<lambda>s. s = []) (rev ss) = rev ss" by (simp only: dropWhile_eq_self_iff hd_rev) simp
  then show "drop_trailing_empty ss = ss" by (simp add: drop_trailing_empty_def)
qed

lemma split_join:
  assumes "ss \<noteq> []" "\<forall>s \<in> set ss. plain s"
  shows "split_comma (join_comma ss) = ss"
proof -
  have nc: "\<forall>s \<in> set ss. CHR '','' \<notin> set s" using assms(2) plain_chars(2) ident_char_not(1) by blast
  let ?ps = "hd ss # map (\<lambda>s. CHR '' '' # s) (tl ss)"
  have ps: "pieces (CHR '','') (join_comma ss) = ?ps" by (rule pieces_join [OF assms(1) nc])
  have len: "length ?ps = length ss" using assms(1) by simp
  have nth: "?ps ! i = (if i = 0 then ss ! 0 else CHR '' '' # ss ! i)" if "i < length ss" for i
    using that assms(1) by (cases ss; cases i) auto
  show ?thesis
  proof (cases "length ss = 1")
    case True
    then show ?thesis using ps assms(1) by (cases ss) (auto simp: split_comma_def)
  next
    case False
    have sp: "jspace (CHR '' '')" by (simp add: jspace_def)
    have "map (\<lambda>i. let p = ?ps ! i; l = (if 0 < i then dropWhile jspace p else p)
            in if Suc i < length ss then rev (dropWhile jspace (rev l)) else l) [0..<length ss] = map (\<lambda>i. ss ! i) [0..<length ss]"
      by (rule map_cong [OF refl]) (use nth assms(2) dropWhile_plain sp in \<open>auto simp: Let_def\<close>)
    then have "map (\<lambda>i. let p = ?ps ! i; l = (if 0 < i then dropWhile jspace p else p)
            in if Suc i < length ss then rev (dropWhile jspace (rev l)) else l) [0..<length ss] = ss"
      by (simp add: map_nth)
    then show ?thesis
      using False len drop_trailing_plain [OF assms(1)] assms(2) plain_chars(1)
      unfolding split_comma_def ps Let_def len by simp
  qed
qed

lemma join_chars: "c \<in> set (join_comma ss) \<Longrightarrow> c = CHR '','' \<or> c = CHR '' '' \<or> (\<exists>s \<in> set ss. c \<in> set s)"
  by (induction ss rule: join_comma.induct) auto

lemma getColumnNames_plain:
  assumes "\<forall>s \<in> set (ji_column_names x). plain s"
  shows "getColumnNames x = join_comma (ji_column_names x)"
proof -
  have "c \<noteq> CHR ''['' \<and> c \<noteq> CHR '']''" if c: "c \<in> set (join_comma (ji_column_names x))" for c
  proof -
    consider "c = CHR '',''" | "c = CHR '' ''" | s where "s \<in> set (ji_column_names x)" "c \<in> set s"
      using join_chars [OF c] by blast
    then show ?thesis
    proof cases
      case 3
      then have "ident_char c" using assms plain_chars(2) by blast
      then show ?thesis using ident_char_not(3,4) by blast
    qed simp_all
  qed
  then show ?thesis by (simp add: getColumnNames_def filter_id_conv)
qed

lemma those_plain: "\<forall>s \<in> set ss. plain s \<Longrightarrow> those (map sql_ident ss) = Some ss"
  by (induction ss) (auto simp: plain_def)

section \<open>The database has the configuration that is simulated\<close>

text \<open>The name an index has or is given when it is created.\<close>

definition index_name :: "JIndex \<Rightarrow> string" where
  "index_name x =
     (if ji_name x = []
      then (if ji_hypothetical x then ''hix_'' else ''ix_'') @ ji_table_name x @ ''_'' @ getColumnNames x else ji_name x)"

text \<open>A hypothetical index that can be created in a database with the given tables.\<close>

definition creatable :: "(string \<Rightarrow> string list option) \<Rightarrow> string \<Rightarrow> JIndex \<Rightarrow> bool" where
  "creatable tables dbname x \<longleftrightarrow>
     ji_hypothetical x \<and> ji_dbname x = dbname \<and> plain (index_name x) \<and> plain (ji_table_name x)
     \<and> ji_column_names x \<noteq> [] \<and> length (ji_column_names x) \<le> 32 \<and> (\<forall>c \<in> set (ji_column_names x). plain c)
     \<and> (case tables (ji_table_name x) of None \<Rightarrow> False | Some atts \<Rightarrow> set (ji_column_names x) \<subseteq> set atts)"

text \<open>An index that exists in the database under its name.\<close>

definition exists_in :: "(string \<Rightarrow> (string \<times> string list) option) \<Rightarrow> string \<Rightarrow> JIndex \<Rightarrow> bool" where
  "exists_in hyps dbname x \<longleftrightarrow>
     ji_hypothetical x \<and> ji_dbname x = dbname \<and> ji_materialized x \<and> plain (ji_name x)
     \<and> hyps (ji_name x) = Some (ji_table_name x, ji_column_names x)"

definition unmaterialize :: "iref set \<Rightarrow> (iref \<Rightarrow> JIndex) \<Rightarrow> iref \<Rightarrow> JIndex" where
  "unmaterialize I h = (\<lambda>i. if i \<in> I then (h i)\<lparr>ji_materialized := False\<rparr> else h i)"

definition materialize :: "iref set \<Rightarrow> (iref \<Rightarrow> JIndex) \<Rightarrow> iref \<Rightarrow> JIndex" where
  "materialize I h = (\<lambda>i. if i \<in> I then (h i)\<lparr>ji_name := index_name (h i), ji_materialized := True\<rparr> else h i)"

definition without :: "(string \<Rightarrow> 'v option) \<Rightarrow> string set \<Rightarrow> string \<Rightarrow> 'v option" where
  "without m N = (\<lambda>n. if n \<in> N then None else m n)"

lemma unmaterialize_simps [simp]:
  "ji_name (unmaterialize I h i) = ji_name (h i)" "ji_table_name (unmaterialize I h i) = ji_table_name (h i)"
  "ji_column_names (unmaterialize I h i) = ji_column_names (h i)" "ji_hypothetical (unmaterialize I h i) = ji_hypothetical (h i)"
  "ji_dbname (unmaterialize I h i) = ji_dbname (h i)" "getColumnNames (unmaterialize I h i) = getColumnNames (h i)"
  "index_name (unmaterialize I h i) = index_name (h i)"
  "creatable t d (unmaterialize I h i) = creatable t d (h i)"
  "ji_materialized (unmaterialize I h i) \<longleftrightarrow> i \<notin> I \<and> ji_materialized (h i)"
  by (simp_all add: unmaterialize_def getColumnNames_def index_name_def creatable_def cong: option.case_cong)

lemma jfold_unit_Cons: "jfold (\<lambda>i _. f i) (i # is) () w = jbind (f i) (\<lambda>_. jfold (\<lambda>i _. f i) is ()) w"
  by (simp add: jbind_def)

definition with_indexes :: "(iref \<Rightarrow> JIndex) \<Rightarrow> iref list \<Rightarrow> (string \<Rightarrow> (string \<times> string list) option) \<Rightarrow> string \<Rightarrow> (string \<times> string list) option" where
  "with_indexes h is m = m ++ map_of (map (\<lambda>i. (index_name (h i), ji_table_name (h i), ji_column_names (h i))) is)"

text \<open>The indexes of the connection exist in the database, under different names.\<close>

definition in_sync :: "(string \<Rightarrow> (string \<times> string list) option) \<Rightarrow> 'db world \<Rightarrow> bool" where
  "in_sync hyps w \<longleftrightarrow>
     (\<forall>i \<in> set (w_curHypConfig w). exists_in hyps (w_dbname w) (w_heap w i))
     \<and> distinct (map (\<lambda>i. ji_name (w_heap w i)) (w_curHypConfig w))"

definition cur_names :: "'db world \<Rightarrow> string set" where
  "cur_names w = (\<lambda>i. ji_name (w_heap w i)) ` set (w_curHypConfig w)"

text \<open>
  A configuration that can be simulated: its indexes can be created, are not
  materialized outside the current configuration, and their names are different and free once
  the current configuration is gone.
\<close>

definition simulable :: "(string \<Rightarrow> string list option) \<Rightarrow> string set \<Rightarrow> 'db world \<Rightarrow> iref list \<Rightarrow> bool" where
  "simulable tables used w configuration \<longleftrightarrow>
     (\<forall>i \<in> set configuration. creatable tables (w_dbname w) (w_heap w i)
        \<and> (i \<in> set (w_curHypConfig w) \<or> \<not> ji_materialized (w_heap w i))
        \<and> index_name (w_heap w i) \<notin> used - cur_names w)
     \<and> distinct (map (\<lambda>i. index_name (w_heap w i)) configuration)"

lemma materialize_exists:
  assumes "i \<in> set is" "distinct (map (\<lambda>i. index_name (h i)) is)" "creatable t d (h i)"
  shows "exists_in (with_indexes h is m) d (materialize (set is) h i)"
proof -
  have "map_of (map (\<lambda>i. (index_name (h i), ji_table_name (h i), ji_column_names (h i))) is) (index_name (h i))
      = Some (ji_table_name (h i), ji_column_names (h i))"
    using assms(1,2) by (intro map_of_is_SomeI) (auto simp: o_def)
  then show ?thesis using assms by (simp add: exists_in_def materialize_def with_indexes_def creatable_def)
qed

context hyp_index_server
begin

lemma Index_drop_existing:
  assumes env: "db_exec env = exec" and inv: "inv (w_db w)" and x: "exists_in (hyps (w_db w)) (w_dbname w) (w_heap w i)"
  shows "\<exists>db'. Index_drop env i w = (Inr (), w\<lparr>w_db := db', w_heap := (w_heap w)(i := (w_heap w i)\<lparr>ji_materialized := False\<rparr>)\<rparr>)
    \<and> inv db' \<and> hyps db' = (hyps (w_db w))(ji_name (w_heap w i) := None) \<and> tabs db' = tabs (w_db w)
    \<and> names db' = names (w_db w) - {ji_name (w_heap w i)}"
proof -
  let ?x = "w_heap w i"
  obtain db' where db': "exec (w_db w) (DropCmd OBJECT_HYP_INDEX False [ji_name ?x]) = Inr db'" "inv db'"
    "hyps db' = (hyps (w_db w))(ji_name ?x := None)" "tabs db' = tabs (w_db w)" "names db' = names (w_db w) - {ji_name ?x}"
    using drop [OF inv] x unfolding exists_in_def by blast
  have "Index_drop env i w = (Inr (), w\<lparr>w_db := db', w_heap := (w_heap w)(i := ?x\<lparr>ji_materialized := False\<rparr>)\<rparr>)"
    using x db'(1) env
    by (simp add: Index_drop_def Let_def exists_in_def jbind_def execStmt_def set_index_def sql_drop_index_def plain_def)
  then show ?thesis using db'(2-) by blast
qed

lemma drop_list:
  assumes env: "db_exec env = exec"
  shows "inv (w_db w) \<Longrightarrow> \<forall>i \<in> set is. exists_in (hyps (w_db w)) (w_dbname w) (w_heap w i)
    \<Longrightarrow> distinct (map (\<lambda>i. ji_name (w_heap w i)) is) \<Longrightarrow>
    \<exists>db'. jfold (\<lambda>i _. Index_drop env i) is () w = (Inr (), w\<lparr>w_db := db', w_heap := unmaterialize (set is) (w_heap w)\<rparr>)
      \<and> inv db' \<and> hyps db' = without (hyps (w_db w)) ((\<lambda>i. ji_name (w_heap w i)) ` set is)
      \<and> tabs db' = tabs (w_db w) \<and> names db' = names (w_db w) - (\<lambda>i. ji_name (w_heap w i)) ` set is"
proof (induction "is" arbitrary: w)
  case Nil
  then show ?case by (intro exI [of _ "w_db w"]) (simp add: unmaterialize_def without_def)
next
  case (Cons i "is")
  let ?x = "w_heap w i"
  obtain db1 where one: "Index_drop env i w = (Inr (), w\<lparr>w_db := db1, w_heap := (w_heap w)(i := ?x\<lparr>ji_materialized := False\<rparr>)\<rparr>)"
    "inv db1" "hyps db1 = (hyps (w_db w))(ji_name ?x := None)" "tabs db1 = tabs (w_db w)" "names db1 = names (w_db w) - {ji_name ?x}"
    using Index_drop_existing [OF env Cons.prems(1), of i] Cons.prems(2) by auto
  define w1 where "w1 = w\<lparr>w_db := db1, w_heap := (w_heap w)(i := ?x\<lparr>ji_materialized := False\<rparr>)\<rparr>"
  have ni: "i \<notin> set is" using Cons.prems(3) by auto
  have nn: "\<forall>j \<in> set is. ji_name (w_heap w j) \<noteq> ji_name ?x" using Cons.prems(3) by simp (metis imageI)
  have same: "w_heap w1 j = w_heap w j" if "j \<in> set is" for j using that ni by (auto simp: w1_def)
  have ex: "\<forall>j \<in> set is. exists_in (hyps (w_db w1)) (w_dbname w1) (w_heap w1 j)"
  proof
    fix j assume j: "j \<in> set is"
    then show "exists_in (hyps (w_db w1)) (w_dbname w1) (w_heap w1 j)"
      using Cons.prems(2) nn unfolding same [OF j] by (simp add: w1_def one(3) exists_in_def)
  qed
  have "map (\<lambda>j. ji_name (w_heap w1 j)) is = map (\<lambda>j. ji_name (w_heap w j)) is" using same by simp
  then have dist: "distinct (map (\<lambda>j. ji_name (w_heap w1 j)) is)"
    using Cons.prems(3) by (simp only: list.map distinct.simps)
  have inv1: "inv (w_db w1)" using one(2) by (simp add: w1_def)
  obtain db' where rest: "jfold (\<lambda>i _. Index_drop env i) is () w1 = (Inr (), w1\<lparr>w_db := db', w_heap := unmaterialize (set is) (w_heap w1)\<rparr>)"
    "inv db'" "hyps db' = without (hyps (w_db w1)) ((\<lambda>j. ji_name (w_heap w1 j)) ` set is)"
    "tabs db' = tabs (w_db w1)" "names db' = names (w_db w1) - (\<lambda>j. ji_name (w_heap w1 j)) ` set is"
    using Cons.IH [OF inv1 ex dist] by blast
  have img: "(\<lambda>j. ji_name (w_heap w1 j)) ` set is = (\<lambda>j. ji_name (w_heap w j)) ` set is" using same by force
  have "unmaterialize (set is) (w_heap w1) = unmaterialize (set (i # is)) (w_heap w)"
    using ni by (auto simp: unmaterialize_def w1_def fun_eq_iff)
  then have "jfold (\<lambda>i _. Index_drop env i) (i # is) () w
      = (Inr (), w\<lparr>w_db := db', w_heap := unmaterialize (set (i # is)) (w_heap w)\<rparr>)"
    using one(1) rest(1) by (simp add: jbind_def w1_def [symmetric]) (simp add: w1_def)
  moreover have "hyps db' = without (hyps (w_db w)) ((\<lambda>i. ji_name (w_heap w i)) ` set (i # is))"
    unfolding rest(3) img by (auto simp: w1_def one(3) without_def)
  moreover have "names db' = names (w_db w) - (\<lambda>i. ji_name (w_heap w i)) ` set (i # is)"
    unfolding rest(5) img by (auto simp: w1_def one(5))
  ultimately show ?case using rest(2,4) one(4) by (auto simp: w1_def)
qed

lemma Index_create_new:
  assumes env: "db_exec env = exec" and inv: "inv (w_db w)" and x: "creatable (tabs (w_db w)) (w_dbname w) (w_heap w i)"
    and new: "\<not> ji_materialized (w_heap w i)" "index_name (w_heap w i) \<notin> names (w_db w)"
  shows "\<exists>db'. Index_create env i w = (Inr (), w\<lparr>w_db := db',
        w_heap := (w_heap w)(i := (w_heap w i)\<lparr>ji_name := index_name (w_heap w i), ji_materialized := True\<rparr>)\<rparr>)
    \<and> inv db' \<and> hyps db' = (hyps (w_db w))(index_name (w_heap w i) \<mapsto> (ji_table_name (w_heap w i), ji_column_names (w_heap w i)))
    \<and> tabs db' = tabs (w_db w) \<and> names db' = insert (index_name (w_heap w i)) (names (w_db w))"
proof -
  let ?x = "w_heap w i"
  have cols: "ji_column_names ?x \<noteq> []" "\<forall>c \<in> set (ji_column_names ?x). plain c" using x by (auto simp: creatable_def)
  have sj: "split_comma (getColumnNames ?x) = ji_column_names ?x"
    using split_join [OF cols] getColumnNames_plain [OF cols(2)] by simp
  have cmd: "sql_create_index True (index_name ?x) (ji_table_name ?x) (getColumnNames ?x)
      = Some (CreateIndexCmd (hypothetical_stmt (index_name ?x) (ji_table_name ?x) (ji_column_names ?x)))"
    using x those_plain [OF cols(2)] sj
    by (simp add: sql_create_index_def creatable_def plain_def hypothetical_stmt_def)
  obtain db' where db': "exec (w_db w) (CreateIndexCmd (hypothetical_stmt (index_name ?x) (ji_table_name ?x) (ji_column_names ?x))) = Inr db'"
    "inv db'" "hyps db' = (hyps (w_db w))(index_name ?x \<mapsto> (ji_table_name ?x, ji_column_names ?x))" "tabs db' = tabs (w_db w)"
    "names db' = insert (index_name ?x) (names (w_db w))"
    using create [OF inv, of "ji_table_name ?x" _ "ji_column_names ?x" "index_name ?x"] x new(2)
    unfolding creatable_def by (auto split: option.splits)
  have h: "ji_hypothetical ?x" "ji_dbname ?x = w_dbname w" using x by (simp_all add: creatable_def)
  have "Index_create env i w = (Inr (), w\<lparr>w_db := db',
        w_heap := (w_heap w)(i := ?x\<lparr>ji_name := index_name ?x, ji_materialized := True\<rparr>)\<rparr>)"
    unfolding Index_create_def Let_def index_name_def [symmetric]
    using h new(1) cmd db'(1) env by (simp add: jbind_def set_index_def execStmt_def)
  then show ?thesis using db'(2-) by blast
qed

lemma add_index_new:
  assumes env: "db_exec env = exec" and inv: "inv (w_db w)" and x: "creatable (tabs (w_db w)) (w_dbname w) (w_heap w i)"
    and new: "\<not> ji_materialized (w_heap w i)" "index_name (w_heap w i) \<notin> names (w_db w)"
  shows "\<exists>db'. add_index env i w = (Inr (), w\<lparr>w_db := db', w_curHypConfig := w_curHypConfig w @ [i],
        w_heap := (w_heap w)(i := (w_heap w i)\<lparr>ji_name := index_name (w_heap w i), ji_materialized := True\<rparr>)\<rparr>)
    \<and> inv db' \<and> hyps db' = (hyps (w_db w))(index_name (w_heap w i) \<mapsto> (ji_table_name (w_heap w i), ji_column_names (w_heap w i)))
    \<and> tabs db' = tabs (w_db w) \<and> names db' = insert (index_name (w_heap w i)) (names (w_db w))"
proof -
  have "ji_hypothetical (w_heap w i)" using x by (simp add: creatable_def)
  then have "add_index env i w = jbind (Index_create env i) (\<lambda>_ w1. (Inr (), w1\<lparr>w_curHypConfig := w_curHypConfig w1 @ [i]\<rparr>)) w"
    by (simp add: add_index_def)
  moreover obtain db' where "Index_create env i w = (Inr (), w\<lparr>w_db := db',
        w_heap := (w_heap w)(i := (w_heap w i)\<lparr>ji_name := index_name (w_heap w i), ji_materialized := True\<rparr>)\<rparr>)"
    "inv db'" "hyps db' = (hyps (w_db w))(index_name (w_heap w i) \<mapsto> (ji_table_name (w_heap w i), ji_column_names (w_heap w i)))"
    "tabs db' = tabs (w_db w)" "names db' = insert (index_name (w_heap w i)) (names (w_db w))"
    using Index_create_new [OF assms] by blast
  ultimately show ?thesis by (intro exI [of _ db']) (simp add: jbind_def)
qed

lemma add_list:
  assumes env: "db_exec env = exec"
  shows "inv (w_db w) \<Longrightarrow> \<forall>i \<in> set is. creatable (tabs (w_db w)) (w_dbname w) (w_heap w i) \<and> \<not> ji_materialized (w_heap w i)
      \<and> index_name (w_heap w i) \<notin> names (w_db w)
    \<Longrightarrow> distinct (map (\<lambda>i. index_name (w_heap w i)) is) \<Longrightarrow>
    \<exists>db'. jfold (\<lambda>i _. add_index env i) is () w = (Inr (), w\<lparr>w_db := db', w_curHypConfig := w_curHypConfig w @ is,
          w_heap := materialize (set is) (w_heap w)\<rparr>)
      \<and> inv db' \<and> hyps db' = with_indexes (w_heap w) is (hyps (w_db w)) \<and> tabs db' = tabs (w_db w)
      \<and> names db' = names (w_db w) \<union> (\<lambda>i. index_name (w_heap w i)) ` set is"
proof (induction "is" arbitrary: w)
  case Nil
  then show ?case by (intro exI [of _ "w_db w"]) (simp add: materialize_def with_indexes_def)
next
  case (Cons i "is")
  let ?x = "w_heap w i" and ?nm = "\<lambda>j. index_name (w_heap w j)"
  define x1 where "x1 = ?x\<lparr>ji_name := index_name ?x, ji_materialized := True\<rparr>"
  obtain db1 where one: "add_index env i w = (Inr (), w\<lparr>w_db := db1, w_curHypConfig := w_curHypConfig w @ [i], w_heap := (w_heap w)(i := x1)\<rparr>)"
    "inv db1" "hyps db1 = (hyps (w_db w))(index_name ?x \<mapsto> (ji_table_name ?x, ji_column_names ?x))" "tabs db1 = tabs (w_db w)"
    "names db1 = insert (index_name ?x) (names (w_db w))"
    using add_index_new [OF env Cons.prems(1), of i] Cons.prems(2) unfolding x1_def by auto
  define w1 where "w1 = w\<lparr>w_db := db1, w_curHypConfig := w_curHypConfig w @ [i], w_heap := (w_heap w)(i := x1)\<rparr>"
  have ni: "i \<notin> set is" using Cons.prems(3) by auto
  have nn: "\<forall>j \<in> set is. ?nm j \<noteq> index_name ?x" using Cons.prems(3) by simp (metis imageI)
  have same: "w_heap w1 j = w_heap w j" if "j \<in> set is" for j using that ni by (auto simp: w1_def)
  have ok: "\<forall>j \<in> set is. creatable (tabs (w_db w1)) (w_dbname w1) (w_heap w1 j) \<and> \<not> ji_materialized (w_heap w1 j)
      \<and> index_name (w_heap w1 j) \<notin> names (w_db w1)"
  proof
    fix j assume j: "j \<in> set is"
    then show "creatable (tabs (w_db w1)) (w_dbname w1) (w_heap w1 j) \<and> \<not> ji_materialized (w_heap w1 j)
      \<and> index_name (w_heap w1 j) \<notin> names (w_db w1)"
      using Cons.prems(2) nn unfolding same [OF j] by (simp add: w1_def one(4,5))
  qed
  have "map (\<lambda>j. index_name (w_heap w1 j)) is = map ?nm is" using same by simp
  then have dist: "distinct (map (\<lambda>j. index_name (w_heap w1 j)) is)"
    using Cons.prems(3) by (simp only: list.map distinct.simps)
  have inv1: "inv (w_db w1)" using one(2) by (simp add: w1_def)
  obtain db' where rest: "jfold (\<lambda>i _. add_index env i) is () w1 = (Inr (), w1\<lparr>w_db := db',
      w_curHypConfig := w_curHypConfig w1 @ is, w_heap := materialize (set is) (w_heap w1)\<rparr>)"
    "inv db'" "hyps db' = with_indexes (w_heap w1) is (hyps (w_db w1))" "tabs db' = tabs (w_db w1)"
    "names db' = names (w_db w1) \<union> (\<lambda>j. index_name (w_heap w1 j)) ` set is"
    using Cons.IH [OF inv1 ok dist] by blast
  have img: "(\<lambda>j. index_name (w_heap w1 j)) ` set is = ?nm ` set is" using same by force
  have "materialize (set is) (w_heap w1) = materialize (set (i # is)) (w_heap w)"
    using ni by (auto simp: materialize_def w1_def x1_def fun_eq_iff)
  then have "jfold (\<lambda>i _. add_index env i) (i # is) () w
      = (Inr (), w\<lparr>w_db := db', w_curHypConfig := w_curHypConfig w @ i # is, w_heap := materialize (set (i # is)) (w_heap w)\<rparr>)"
    using one(1) rest(1) by (simp add: jbind_def w1_def [symmetric]) (simp add: w1_def)
  moreover have "hyps db' = with_indexes (w_heap w) (i # is) (hyps (w_db w))"
  proof -
    have m: "map (\<lambda>i. (index_name (w_heap w1 i), ji_table_name (w_heap w1 i), ji_column_names (w_heap w1 i))) is
        = map (\<lambda>i. (?nm i, ji_table_name (w_heap w i), ji_column_names (w_heap w i))) is" using same by simp
    have "map_of (map (\<lambda>i. (?nm i, ji_table_name (w_heap w i), ji_column_names (w_heap w i))) is) (index_name ?x) = None"
      using nn by (auto simp: map_of_eq_None_iff)
    then show ?thesis unfolding rest(3) with_indexes_def m
      by (auto simp: w1_def one(3) fun_eq_iff map_add_def split: option.splits)
  qed
  moreover have "names db' = names (w_db w) \<union> ?nm ` set (i # is)" unfolding rest(5) img by (auto simp: w1_def one(5))
  ultimately show ?case using rest(2,4) one(4) by (auto simp: w1_def)
qed

lemma simulateConfig_run:
  assumes env: "db_exec env = exec" and inv: "inv (w_db w)" and sync: "in_sync (hyps (w_db w)) w"
    and conf: "simulable (tabs (w_db w)) (names (w_db w)) w configuration"
  shows "\<exists>w'. simulateConfig env configuration w = (Inr (), w') \<and> w_curHypConfig w' = configuration \<and> inv (w_db w')
    \<and> hyps (w_db w') = with_indexes (w_heap w) configuration (without (hyps (w_db w)) (cur_names w))
    \<and> tabs (w_db w') = tabs (w_db w) \<and> in_sync (hyps (w_db w')) w'
    \<and> names (w_db w') = names (w_db w) - cur_names w \<union> (\<lambda>i. index_name (w_heap w i)) ` set configuration
    \<and> w_heap w' = materialize (set configuration) (unmaterialize (set (w_curHypConfig w)) (w_heap w)) \<and> w_dbname w' = w_dbname w"
proof -
  let ?cur = "w_curHypConfig w"
  obtain db1 where d: "jfold (\<lambda>i _. Index_drop env i) ?cur () w = (Inr (), w\<lparr>w_db := db1, w_heap := unmaterialize (set ?cur) (w_heap w)\<rparr>)"
    "inv db1" "hyps db1 = without (hyps (w_db w)) (cur_names w)" "tabs db1 = tabs (w_db w)" "names db1 = names (w_db w) - cur_names w"
    using drop_list [OF env inv, of ?cur] sync unfolding in_sync_def cur_names_def by blast
  define w1 where "w1 = w\<lparr>w_db := db1, w_heap := unmaterialize (set ?cur) (w_heap w), w_curHypConfig := []\<rparr>"
  have dc: "drop_current env w = (Inr (), w1)" using d(1) by (simp add: drop_current_def jbind_def w1_def)
  have nm: "(\<lambda>i. index_name (w_heap w1 i)) = (\<lambda>i. index_name (w_heap w i))" by (simp add: w1_def fun_eq_iff)
  have ok: "\<forall>i \<in> set configuration. creatable (tabs (w_db w1)) (w_dbname w1) (w_heap w1 i) \<and> \<not> ji_materialized (w_heap w1 i)
      \<and> index_name (w_heap w1 i) \<notin> names (w_db w1)"
    using conf unfolding simulable_def by (auto simp: w1_def d(4,5))
  have dist: "distinct (map (\<lambda>i. index_name (w_heap w1 i)) configuration)" using conf unfolding nm simulable_def by simp
  have inv1: "inv (w_db w1)" using d(2) by (simp add: w1_def)
  obtain db' where a: "jfold (\<lambda>i _. add_index env i) configuration () w1 = (Inr (), w1\<lparr>w_db := db',
      w_curHypConfig := w_curHypConfig w1 @ configuration, w_heap := materialize (set configuration) (w_heap w1)\<rparr>)"
    "inv db'" "hyps db' = with_indexes (w_heap w1) configuration (hyps (w_db w1))" "tabs db' = tabs (w_db w1)"
    "names db' = names (w_db w1) \<union> (\<lambda>i. index_name (w_heap w1 i)) ` set configuration"
    using add_list [OF env inv1 ok dist] by blast
  define w2 where "w2 = w1\<lparr>w_db := db', w_curHypConfig := w_curHypConfig w1 @ configuration,
      w_heap := materialize (set configuration) (w_heap w1)\<rparr>"
  have run: "simulateConfig env configuration w = (Inr (), w2)"
    using dc a(1) by (simp add: simulateConfig_def jbind_def w2_def)
  have "with_indexes (w_heap w1) configuration = with_indexes (w_heap w) configuration"
    by (simp add: with_indexes_def fun_eq_iff w1_def)
  moreover have "in_sync (hyps (w_db w2)) w2"
  proof -
    have "map (\<lambda>i. ji_name (w_heap w2 i)) configuration = map (\<lambda>i. index_name (w_heap w1 i)) configuration"
      by (simp add: w2_def materialize_def)
    then have "distinct (map (\<lambda>i. ji_name (w_heap w2 i)) configuration)" using dist by (simp only:)
    moreover have "\<forall>i \<in> set configuration. exists_in (hyps db') (w_dbname w) (materialize (set configuration) (w_heap w1) i)"
      using materialize_exists [OF _ dist, of _ "tabs (w_db w1)" "w_dbname w1"] ok a(3) by (simp add: w1_def)
    ultimately show ?thesis by (simp add: in_sync_def w2_def w1_def)
  qed
  ultimately show ?thesis
    using run a(2-5) d(3-5) nm by (intro exI [of _ w2]) (simp add: w2_def w1_def)
qed

end

text \<open>C3. Simulating a configuration works.  On the catalogs of the server, when the
  connection's list of hypothetical indexes is in step with the database and
  the indexes of the configuration can be created, simulateConfig succeeds: the database then has
  the indexes of the configuration and none of the previous one, every other
  hypothetical index and all tables are unchanged, and the list is in step again.\<close>

theorem simulateConfig_exact:
  assumes "db_exec env = run_command False" "cat_wf (w_db w)" "in_sync (hyp_view (w_db w)) w"
    and "simulable (user_table (w_db w)) (rel_names (w_db w)) w configuration"
  shows "\<exists>w'. simulateConfig env configuration w = (Inr (), w') \<and> w_curHypConfig w' = configuration
    \<and> cat_wf (w_db w') \<and> in_sync (hyp_view (w_db w')) w' \<and> user_table (w_db w') = user_table (w_db w)
    \<and> (\<forall>i \<in> set configuration. hyp_view (w_db w') (index_name (w_heap w i))
         = Some (ji_table_name (w_heap w i), ji_column_names (w_heap w i)))
    \<and> (\<forall>n. n \<notin> (\<lambda>i. index_name (w_heap w i)) ` set configuration \<longrightarrow>
         hyp_view (w_db w') n = (if n \<in> cur_names w then None else hyp_view (w_db w) n))"
proof -
  obtain w' where w': "simulateConfig env configuration w = (Inr (), w')" "w_curHypConfig w' = configuration" "cat_wf (w_db w')"
    "hyp_view (w_db w') = with_indexes (w_heap w) configuration (without (hyp_view (w_db w)) (cur_names w))"
    "user_table (w_db w') = user_table (w_db w)" "in_sync (hyp_view (w_db w')) w'"
    using catalog_server.simulateConfig_run [OF assms] by blast
  have "with_indexes (w_heap w) configuration m (index_name (w_heap w i)) = Some (ji_table_name (w_heap w i), ji_column_names (w_heap w i))"
    if "i \<in> set configuration" for i m
  proof -
    have "map_of (map (\<lambda>i. (index_name (w_heap w i), ji_table_name (w_heap w i), ji_column_names (w_heap w i))) configuration)
        (index_name (w_heap w i)) = Some (ji_table_name (w_heap w i), ji_column_names (w_heap w i))"
      using that assms(4) by (intro map_of_is_SomeI) (auto simp: o_def simulable_def)
    then show ?thesis by (simp add: with_indexes_def)
  qed
  moreover have "with_indexes (w_heap w) configuration m n = m n"
    if "n \<notin> (\<lambda>i. index_name (w_heap w i)) ` set configuration" for n m
    using that by (simp add: with_indexes_def map_add_def map_of_eq_None_iff [THEN iffD2] image_image)
  ultimately show ?thesis using w' by (auto simp: without_def)
qed

definition products_index :: "string \<Rightarrow> JIndex" where
  "products_index col = new_Index 0 [] ''products'' 0 col True ''it_dellstore2'' False"

definition products_env :: "(Catalog, int) DbEnv" where
  "products_env = \<lparr>db_exec = run_command False, db_explain = (\<lambda>_ _. None), parseFloat = (\<lambda>_. None)\<rparr>"

definition products_world :: "Catalog world" where
  "products_world = \<lparr>w_heap = (\<lambda>i. if i = 0 then products_index ''category'' else products_index ''title''), w_next = 2,
     w_curHypConfig = [], w_db = products_catalog, w_dbname = ''it_dellstore2''\<rparr>"

lemma plain_names: "plain ''products''" "plain ''category''" "plain ''title''" "plain ''hix_products_title''" "plain ''hix_products_category''"
  by (simp_all add: plain_def sql_ident_def ident_char_def lower_def)

lemma products_fields:
  "ji_name (products_index c) = []" "ji_table_name (products_index c) = ''products''"
  "ji_hypothetical (products_index c)" "ji_dbname (products_index c) = ''it_dellstore2''" "\<not> ji_materialized (products_index c)"
  "ji_column_names (products_index ''title'') = [''title'']" "ji_column_names (products_index ''category'') = [''category'']"
  by (simp_all add: products_index_def new_Index_def split_comma_def)

lemma products_index_names: "index_name (products_index ''title'') = ''hix_products_title''" "index_name (products_index ''category'') = ''hix_products_category''"
  by (simp_all add: index_name_def products_fields getColumnNames_def)

lemma products_simulable:
  "simulable (user_table (w_db products_world)) (rel_names (w_db products_world)) products_world [0, 1]"
  by (simp add: simulable_def products_world_def creatable_def products_fields products_index_names plain_names user_table_def
    products_catalog_def rel_names_def products_row_def get_relname_relid_def cur_names_def)

theorem simulateConfig_exact_witness:
  "\<exists>w'. simulateConfig products_env [0, 1] products_world = (Inr (), w')
     \<and> hyp_view (w_db w') ''hix_products_title'' = Some (''products'', [''title''])"
proof -
  have start: "in_sync (hyp_view (w_db products_world)) products_world" "cat_wf (w_db products_world)"
    by (simp_all add: in_sync_def products_world_def products_wf)
  have title: "w_heap products_world 1 = products_index ''title''" by (simp add: products_world_def)
  have "db_exec products_env = run_command False" by (simp add: products_env_def)
  from simulateConfig_exact [OF this start(2,1) products_simulable]
  obtain w' where "simulateConfig products_env [0, 1] products_world = (Inr (), w')"
    and "\<forall>i \<in> set [0, 1]. hyp_view (w_db w') (index_name (w_heap products_world i))
         = Some (ji_table_name (w_heap products_world i), ji_column_names (w_heap products_world i))" by blast
  moreover from this(2) have "hyp_view (w_db w') (index_name (w_heap products_world 1))
         = Some (ji_table_name (w_heap products_world 1), ji_column_names (w_heap products_world 1))" by simp
  ultimately show ?thesis unfolding title products_fields products_index_names by blast
qed

end
