(* ===== verification/Tuner_Search.thy ===== *)
theory Tuner_Search
  imports Tuner_Index
begin

text \<open>
  The search for candidate indexes (\<^verbatim>\<open>IndexTuner.java\<close>: getSubsets, greedymk, enumerate,
  CISelection, extractIndexes; \<^verbatim>\<open>IndexExtraction.java\<close>).  The iteration orders of hash
  tables and the SQL parser are parameters.
\<close>

section \<open>Subsets of a given size\<close>

text \<open>The recursive method; the list is the part of \<^verbatim>\<open>superSet\<close> from \<^verbatim>\<open>idx\<close> on.\<close>

fun getSubsets_from :: "nat \<Rightarrow> nat list \<Rightarrow> nat set \<Rightarrow> nat set list" where
  "getSubsets_from k [] current = (if card current = k then [current] else [])"
| "getSubsets_from k (x # xs) current =
     (if card current = k then [current]
      else getSubsets_from k xs (insert x current) @ getSubsets_from k xs (insert x current - {x}))"

definition getSubsets :: "nat list \<Rightarrow> nat \<Rightarrow> nat set list" where
  "getSubsets superSet k = getSubsets_from k superSet {}"

section \<open>The greedy search\<close>

text \<open>
  \<^verbatim>\<open>TreeMap.put\<close> on the sorted entries: a key that is present keeps its place and
  gets the new value.
\<close>

fun tree_put :: "'c :: linorder \<Rightarrow> 'v \<Rightarrow> ('c \<times> 'v) list \<Rightarrow> ('c \<times> 'v) list" where
  "tree_put k v [] = [(k, v)]"
| "tree_put k v ((k', v') # es) =
     (if k < k' then (k, v) # (k', v') # es
      else if k' < k then (k', v') # tree_put k v es
      else (k', v) # es)"

text \<open>
  What iteration gives: the elements of a hash set of positions, and the entries of a
  hash map whose keys are cost objects.  Costs do not override \<^verbatim>\<open>equals\<close>, so the map
  has an entry for every cost object put into it.
\<close>

record ('c, 'v) HashOrder =
  set_iter :: "nat set \<Rightarrow> nat list"
  cost_iter :: "('c \<times> 'v) list \<Rightarrow> ('c \<times> 'v) list"

text \<open>The costs of all subsets of candidates, in the order in which they are computed.\<close>

definition subset_costs ::
  "('db, 'c :: {zero, plus}) DbEnv \<Rightarrow> string list \<Rightarrow> iref list list \<Rightarrow> ('db world, ('c \<times> iref list) list) jm" where
  "subset_costs env workload subCIs =
     jfold (\<lambda>CIset cost. jbind (costOf env workload CIset) (\<lambda>cst. jreturn (cost @ [(cst, CIset)]))) subCIs []"

text \<open>One pass over the remaining candidates: the last one that is cheaper.\<close>

definition cheaper_index ::
  "('db, 'c :: {zero, plus, linorder}) DbEnv \<Rightarrow> string list \<Rightarrow> iref list \<Rightarrow> iref list \<Rightarrow> 'c \<Rightarrow> ('db world, iref option) jm" where
  "cheaper_index env workload S CIs minCost =
     jfold (\<lambda>I minI. jbind (costOf env workload (S @ [I])) (\<lambda>costd.
       jreturn (if costd < minCost then Some I else minI))) CIs None"

text \<open>
  The loop that extends the set; the first argument is the number of indexes that may be
  added.  The added index may be null, which the next pass dereferences.
\<close>

fun extend_loop ::
  "nat \<Rightarrow> ('db, 'c :: {zero, plus, linorder}) DbEnv \<Rightarrow> string list \<Rightarrow> iref list \<Rightarrow> 'c \<Rightarrow> 'c \<Rightarrow> iref list
     \<Rightarrow> ('db world, iref list) jm" where
  "extend_loop 0 env workload CIs minCost mCost S = jreturn S"
| "extend_loop (Suc room) env workload CIs minCost mCost S =
     jbind (cheaper_index env workload S CIs minCost) (\<lambda>minI.
       if mCost \<le> minCost then jreturn S
       else case minI of None \<Rightarrow> jthrow NullPointerException
                       | Some I \<Rightarrow> extend_loop room env workload CIs minCost mCost (S @ [I]))"

text \<open>None is null: there is no subset of the size asked for.\<close>

definition greedymk ::
  "('c, iref list) HashOrder \<Rightarrow> ('db, 'c :: {zero, plus, linorder}) DbEnv \<Rightarrow> string list \<Rightarrow> iref list \<Rightarrow> nat \<Rightarrow> nat
     \<Rightarrow> ('db world, iref list option) jm" where
  "greedymk ord env workload CandIndexes m k =
     (let subSets = getSubsets [0..<length CandIndexes] m;
          subCIs = map (\<lambda>subset. map (\<lambda>idx. CandIndexes ! idx) (set_iter ord subset)) subSets
      in jbind (subset_costs env workload subCIs) (\<lambda>cost.
           case foldl (\<lambda>t (c, v). tree_put c v t) [] (cost_iter ord cost) of
             [] \<Rightarrow> jreturn None
           | (_, S) # _ \<Rightarrow>
               let CIs = filter (\<lambda>I. I \<notin> set S) CandIndexes
               in jbind (costOf env workload S) (\<lambda>minCost.
                  jbind (extend_loop (k - length S) env workload CIs minCost minCost S) (\<lambda>S'.
                    jreturn (Some S')))))"

definition enumerate :: 
  "('c, iref list) HashOrder \<Rightarrow> ('db, 'c :: {zero, plus, linorder}) DbEnv \<Rightarrow> nat \<Rightarrow> iref list \<Rightarrow> string list
     \<Rightarrow> ('db world, iref list option) jm" where
  "enumerate ord env k CI W = greedymk ord env W CI 2 k"

section \<open>Candidate indexes of a query\<close>

datatype EExpressionType = simple_comparison_t | group_comparison_t | in_t | other_t

text \<open>
  What the parser makes of a query: an error, no statement, a statement without WHERE, or the
  nodes of the condition in the order of the traversal, each with its kind and the text of its
  left operand.
\<close>

datatype parsed = Parse_error | No_statement | No_where | Condition "(EExpressionType \<times> string) list"

definition is_compare_condition :: "EExpressionType \<Rightarrow> bool" where
  "is_compare_condition t \<longleftrightarrow> t = simple_comparison_t \<or> t = group_comparison_t \<or> t = in_t"

definition exprVisit :: "string \<Rightarrow> EExpressionType \<times> string \<Rightarrow> iref list \<Rightarrow> ('db world, iref list) jm" where
  "exprVisit ADB_NAME lcexpr indexes =
     (if is_compare_condition (fst lcexpr)
      then let lea = split_dot (snd lcexpr)
           in if length lea < 2 then jthrow IndexOutOfBoundsException
              else jbind (alloc_Index (new_Index 0 [] (lea ! 0) 0 (lea ! 1) True ADB_NAME False)) (\<lambda>i.
                     jreturn (indexes @ [i]))
      else jreturn indexes)"

definition getIndexes :: "string \<Rightarrow> (EExpressionType \<times> string) list \<Rightarrow> ('db world, iref list) jm" where
  "getIndexes ADB_NAME condition = jfold (exprVisit ADB_NAME) condition []"

text \<open>None is null.\<close>

definition extractIndexes :: "(string \<Rightarrow> parsed) \<Rightarrow> string \<Rightarrow> ('db world, iref list option) jm" where
  "extractIndexes parse query =
     (case parse query of
        Parse_error \<Rightarrow> jreturn None
      | No_statement \<Rightarrow> jthrow IndexOutOfBoundsException
      | No_where \<Rightarrow> jthrow NullPointerException
      | Condition nodes \<Rightarrow> jbind (getIndexes ''it_dellstore2'' nodes) (\<lambda>is. jreturn (Some is)))"

text \<open>Adding the elements of null throws.\<close>

definition add_all :: "'a list \<Rightarrow> 'a list option \<Rightarrow> ('s, 'a list) jm" where
  "add_all xs ys = (case ys of None \<Rightarrow> jthrow NullPointerException | Some l \<Rightarrow> jreturn (xs @ l))"

definition CISelection ::
  "('c, iref list) HashOrder \<Rightarrow> (string \<Rightarrow> parsed) \<Rightarrow> ('db, 'c :: {zero, plus, linorder}) DbEnv \<Rightarrow> string list
     \<Rightarrow> ('db world, iref list) jm" where
  "CISelection ord parse env workload =
     jfold (\<lambda>query CI.
       jbind (extractIndexes parse query) (\<lambda>is.
       jbind (add_all [] is) (\<lambda>Is.
       jbind (enumerate ord env 10 Is [query]) (\<lambda>S. add_all CI S)))) workload []"

section \<open>All subsets, each once\<close>

lemma subsets_insert_split:
  assumes "x \<notin> B" "x \<notin> X"
  shows "{A. B \<subseteq> A \<and> A \<subseteq> B \<union> insert x X \<and> card A = k} =
    {A. insert x B \<subseteq> A \<and> A \<subseteq> insert x B \<union> X \<and> card A = k} \<union> {A. B \<subseteq> A \<and> A \<subseteq> B \<union> X \<and> card A = k}"
  using assms by auto

lemma getSubsets_from_spec:
  assumes "distinct xs" "finite current" "set xs \<inter> current = {}" "card current \<le> k"
  shows "set (getSubsets_from k xs current) = {A. current \<subseteq> A \<and> A \<subseteq> current \<union> set xs \<and> card A = k}
    \<and> distinct (getSubsets_from k xs current)"
  using assms
proof (induction xs arbitrary: current)
  case Nil
  then show ?case by (auto simp: subset_antisym)
next
  case (Cons x xs)
  show ?case
  proof (cases "card current = k")
    case True
    have "A = current" if "current \<subseteq> A" "A \<subseteq> current \<union> set (x # xs)" "card A = k" for A
      using that True Cons.prems(2) by (metis card_subset_eq finite_Un finite_set finite_subset)
    then show ?thesis using True by auto
  next
    case False
    have x: "x \<notin> current" "x \<notin> set xs" using Cons.prems(1,3) by auto
    have 1: "set (getSubsets_from k xs (insert x current))
        = {A. insert x current \<subseteq> A \<and> A \<subseteq> insert x current \<union> set xs \<and> card A = k}"
      "distinct (getSubsets_from k xs (insert x current))"
      using Cons.IH [of "insert x current"] Cons.prems False x by auto
    have 2: "set (getSubsets_from k xs current) = {A. current \<subseteq> A \<and> A \<subseteq> current \<union> set xs \<and> card A = k}"
      "distinct (getSubsets_from k xs current)"
      using Cons.IH [of current] Cons.prems by auto
    have "insert x current - {x} = current" using x by simp
    moreover have "set (getSubsets_from k xs (insert x current)) \<inter> set (getSubsets_from k xs current) = {}"
      using x unfolding 1 2 by auto
    ultimately show ?thesis
      using False 1 2 subsets_insert_split [OF x, of k] by simp
  qed
qed

lemma getSubsets_spec:
  assumes "distinct superSet"
  shows "set (getSubsets superSet k) = {A. A \<subseteq> set superSet \<and> card A = k}" "distinct (getSubsets superSet k)"
  using getSubsets_from_spec [of superSet "{}" k] assms by (simp_all add: getSubsets_def)

text \<open>The subsets of a given size are enumerated.  For a list without duplicates getSubsets gives
  every subset with k elements exactly once, n choose k of them.\<close>

theorem getSubsets_enumerates:
  assumes "distinct superSet"
  shows "set (getSubsets superSet k) = {A. A \<subseteq> set superSet \<and> card A = k}
    \<and> distinct (getSubsets superSet k) \<and> length (getSubsets superSet k) = length superSet choose k"
proof -
  have "length (getSubsets superSet k) = card {A. A \<subseteq> set superSet \<and> card A = k}"
    using getSubsets_spec [OF assms] by (metis distinct_card)
  then show ?thesis
    using getSubsets_spec [OF assms] n_subsets [of "set superSet" k] assms by (simp add: distinct_card)
qed

theorem getSubsets_enumerates_witness:
  "getSubsets [0, 1, 2] 2 = [{0, 1}, {0, 2}, {1, 2}] \<and> length (getSubsets [0, 1, 2] 2) = 3"
  using getSubsets_enumerates [of "[0, 1, 2]" 2]
  by (auto simp: getSubsets_def numeral_2_eq_2)

section \<open>The cheapest entry\<close>

lemma tree_put_spec:
  assumes "sorted_wrt (<) (map fst t)"
  shows "sorted_wrt (<) (map fst (tree_put k v t)) \<and> fst ` set (tree_put k v t) = insert k (fst ` set t)
    \<and> set (tree_put k v t) \<subseteq> insert (k, v) (set t)"
  using assms by (induction k v t rule: tree_put.induct) (auto simp: not_less_iff_gr_or_eq)

lemma tree_puts_spec:
  fixes es :: "('c :: linorder \<times> 'v) list"
  defines "t \<equiv> foldl (\<lambda>t (c, v). tree_put c v t) [] es"
  shows "sorted_wrt (<) (map fst t) \<and> fst ` set t = fst ` set es \<and> set t \<subseteq> set es"
  unfolding t_def
proof (induction es rule: rev_induct)
  case (snoc e es)
  show ?case
    using snoc tree_put_spec [of "foldl (\<lambda>t (c, v). tree_put c v t) [] es" "fst e" "snd e"]
    by (cases e) auto
qed simp

lemma first_entry_least:
  fixes es :: "('c :: linorder \<times> 'v) list"
  assumes "foldl (\<lambda>t (c, v). tree_put c v t) [] es = (c, v) # rest"
  shows "(c, v) \<in> set es" "\<forall>(c', v') \<in> set es. c \<le> c'"
proof -
  have t: "sorted_wrt (<) (map fst ((c, v) # rest))" "fst ` set ((c, v) # rest) = fst ` set es" "set ((c, v) # rest) \<subseteq> set es"
    using tree_puts_spec [of es] unfolding assms by auto
  then show "(c, v) \<in> set es" by simp
  have "c \<le> k" if "k \<in> fst ` set ((c, v) # rest)" for k
    using that t(1) by fastforce
  then show "\<forall>(c', v') \<in> set es. c \<le> c'" using t(2) by force
qed

lemma no_entry: "foldl (\<lambda>t (c, v). tree_put c v t) [] es = [] \<longleftrightarrow> es = []"
  using tree_puts_spec [of es] by auto

section \<open>Costs on a server that explains\<close>

text \<open>What \<^verbatim>\<open>execExplain\<close> makes of the answer of the database.\<close>

definition read_cost :: "(string \<Rightarrow> 'c option) \<Rightarrow> string option option \<Rightarrow> jexn + 'c option" where
  "read_cost pf answer =
     (case answer of
        Some (Some mydata) \<Rightarrow>
          (case find_cost mydata of
             None \<Rightarrow> Inr None
           | Some g \<Rightarrow> if length (split_dots g) < 2 then Inl IndexOutOfBoundsException
                        else case pf (split_dots g ! 1) of None \<Rightarrow> Inl NumberFormatException | Some c \<Rightarrow> Inr (Some c))
      | _ \<Rightarrow> Inr None)"

lemma execExplain_read: "execExplain env query w = (read_cost (parseFloat env) (db_explain env (w_db w) query), w)"
  by (simp add: execExplain_def read_cost_def Let_def split: option.splits)

text \<open>
  The database explains the queries of a workload with a cost that depends only on
  the hypothetical indexes it has.
\<close>

definition prices ::
  "('db, 'c) DbEnv \<Rightarrow> ('db \<Rightarrow> bool) \<Rightarrow> ('db \<Rightarrow> 'v) \<Rightarrow> string list \<Rightarrow> ('v \<Rightarrow> string \<Rightarrow> 'c) \<Rightarrow> bool" where
  "prices env ok view workload price \<longleftrightarrow>
     (\<forall>db q. ok db \<longrightarrow> q \<in> set workload \<longrightarrow>
        read_cost (parseFloat env) (db_explain env db q) = Inr (Some (price (view db) q)))"

definition total_price :: "('v \<Rightarrow> string \<Rightarrow> 'c :: {zero, plus}) \<Rightarrow> string list \<Rightarrow> 'v \<Rightarrow> 'c" where
  "total_price price workload v = foldl (\<lambda>cst q. cst + price v q) 0 workload"

text \<open>The hypothetical indexes that are not of the connection.\<close>

definition base_view :: "('db \<Rightarrow> string \<Rightarrow> 'v option) \<Rightarrow> 'db world \<Rightarrow> string \<Rightarrow> 'v option" where
  "base_view hyps w = without (hyps (w_db w)) (cur_names w)"

text \<open>
  The state during a search among candidates that started in a given state: every
  configuration of candidates can be simulated, and what does not belong to the candidates is
  as it was.
\<close>

definition searching ::
  "('db \<Rightarrow> bool) \<Rightarrow> ('db \<Rightarrow> string \<Rightarrow> (string \<times> string list) option) \<Rightarrow> ('db \<Rightarrow> string \<Rightarrow> string list option)
     \<Rightarrow> ('db \<Rightarrow> string set) \<Rightarrow> iref list \<Rightarrow> 'db world \<Rightarrow> 'db world \<Rightarrow> bool" where
  "searching ok hyps tabs names cand w0 w \<longleftrightarrow>
     ok (w_db w) \<and> in_sync (hyps (w_db w)) w \<and> simulable (tabs (w_db w)) (names (w_db w)) w cand
     \<and> base_view hyps w = base_view hyps w0 \<and> tabs (w_db w) = tabs (w_db w0) \<and> w_dbname w = w_dbname w0
     \<and> (\<forall>i \<in> set cand. index_name (w_heap w i) = index_name (w_heap w0 i)
          \<and> ji_table_name (w_heap w i) = ji_table_name (w_heap w0 i)
          \<and> ji_column_names (w_heap w i) = ji_column_names (w_heap w0 i))"

lemma simulable_subset:
  assumes "simulable t u w cand" "set conf \<subseteq> set cand" "distinct conf"
  shows "simulable t u w conf"
proof -
  have "inj_on (\<lambda>i. index_name (w_heap w i)) (set cand)"
    using assms(1) by (simp add: simulable_def distinct_map)
  then have "inj_on (\<lambda>i. index_name (w_heap w i)) (set conf)" using assms(2) inj_on_subset by blast
  then show ?thesis using assms by (auto simp: simulable_def distinct_map)
qed

lemma with_indexes_cong:
  assumes "\<forall>i \<in> set conf. index_name (h i) = index_name (h' i) \<and> ji_table_name (h i) = ji_table_name (h' i)
      \<and> ji_column_names (h i) = ji_column_names (h' i)"
  shows "with_indexes h conf m = with_indexes h' conf m"
  unfolding with_indexes_def using assms by (intro arg_cong [where f = "\<lambda>es. m ++ map_of es"] map_cong) auto

lemma index_name_plain: "creatable t d x \<Longrightarrow> index_name (x\<lparr>ji_name := index_name x, ji_materialized := b\<rparr>) = index_name x"
  using plain_chars(1) [of "index_name x"] by (simp add: creatable_def index_name_def)

text \<open>The candidates after a simulation differ only in their names and status.\<close>

lemma simulated_candidate:
  fixes conf :: "iref list"
  assumes "simulable t u w cand" "i \<in> set cand"
  defines "h' \<equiv> materialize (set conf) (unmaterialize (set (w_curHypConfig w)) (w_heap w))"
  shows "index_name (h' i) = index_name (w_heap w i)" "ji_table_name (h' i) = ji_table_name (w_heap w i)"
    "ji_column_names (h' i) = ji_column_names (w_heap w i)" "creatable t (w_dbname w) (h' i)"
    "i \<in> set conf \<or> \<not> ji_materialized (h' i)"
proof -
  have c: "creatable t (w_dbname w) (w_heap w i)" "i \<in> set (w_curHypConfig w) \<or> \<not> ji_materialized (w_heap w i)"
    using assms(1,2) by (auto simp: simulable_def)
  have "index_name (x\<lparr>ji_name := index_name x, ji_materialized := True\<rparr>) = index_name x"
    if "x = unmaterialize (set (w_curHypConfig w)) (w_heap w) i" for x
    by (rule index_name_plain [of t "w_dbname w"]) (use c(1) that in simp)
  note nm = this [OF refl]
  show "index_name (h' i) = index_name (w_heap w i)" using nm by (simp add: h'_def materialize_def)
  then show "creatable t (w_dbname w) (h' i)"
    using c(1) by (simp add: creatable_def h'_def materialize_def cong: option.case_cong)
  show "ji_table_name (h' i) = ji_table_name (w_heap w i)" "ji_column_names (h' i) = ji_column_names (w_heap w i)"
    by (simp_all add: h'_def materialize_def)
  show "i \<in> set conf \<or> \<not> ji_materialized (h' i)" using c(2) by (auto simp: h'_def materialize_def)
qed

lemma simulated_simulable:
  assumes s: "simulable t u w cand" and conf: "set conf \<subseteq> set cand"
    and w': "w_curHypConfig w' = conf" "w_dbname w' = w_dbname w"
      "w_heap w' = materialize (set conf) (unmaterialize (set (w_curHypConfig w)) (w_heap w))"
  defines "nm \<equiv> \<lambda>i. index_name (w_heap w i)"
  shows "cur_names w' = nm ` set conf" "simulable t (u - cur_names w \<union> nm ` set conf) w' cand"
proof -
  note same = simulated_candidate [OF s, of _ conf, folded w'(3)]
  show cn: "cur_names w' = nm ` set conf"
    by (auto simp: cur_names_def w' materialize_def image_def nm_def)
  have "map (\<lambda>i. index_name (w_heap w' i)) cand = map nm cand" using same(1) by (intro map_cong) (auto simp: nm_def)
  moreover have "distinct (map nm cand)" using s by (simp add: simulable_def nm_def)
  ultimately have "distinct (map (\<lambda>i. index_name (w_heap w' i)) cand)" by (simp only:)
  moreover have "index_name (w_heap w' i) \<notin> (u - cur_names w \<union> nm ` set conf) - cur_names w'" if "i \<in> set cand" for i
    using s that same(1) [OF that] by (auto simp: cn simulable_def)
  ultimately show "simulable t (u - cur_names w \<union> nm ` set conf) w' cand"
    using same(4,5) w'(1,2) by (auto simp: simulable_def)
qed

lemma base_view_with_indexes:
  assumes "hyps (w_db w') = with_indexes h conf m" "cur_names w' = (\<lambda>i. index_name (h i)) ` set conf"
    and "\<And>n. n \<in> (\<lambda>i. index_name (h i)) ` set conf \<Longrightarrow> m n = None"
  shows "base_view hyps w' = m"
proof
  fix n
  show "base_view hyps w' n = m n"
  proof (cases "n \<in> (\<lambda>i. index_name (h i)) ` set conf")
    case True
    then show ?thesis using assms(3) by (simp add: base_view_def without_def assms(2))
  next
    case False
    then have "map_of (map (\<lambda>i. (index_name (h i), ji_table_name (h i), ji_column_names (h i))) conf) n = None"
      by (force simp: map_of_eq_None_iff)
    then show ?thesis using False by (simp add: base_view_def without_def assms(1,2) with_indexes_def map_add_def)
  qed
qed

context hyp_index_server
begin

lemma simulate_searching:
  assumes env: "db_exec env = exec" and s: "searching inv hyps tabs names cand w0 w"
    and conf: "set conf \<subseteq> set cand" "distinct conf"
  shows "\<exists>w'. simulateConfig env conf w = (Inr (), w') \<and> searching inv hyps tabs names cand w0 w'
    \<and> hyps (w_db w') = with_indexes (w_heap w0) conf (base_view hyps w0) \<and> w_curHypConfig w' = conf"
proof -
  have s1: "inv (w_db w)" "in_sync (hyps (w_db w)) w" "simulable (tabs (w_db w)) (names (w_db w)) w cand"
    "base_view hyps w = base_view hyps w0" "tabs (w_db w) = tabs (w_db w0)" "w_dbname w = w_dbname w0"
    and same: "\<And>i. i \<in> set cand \<Longrightarrow> index_name (w_heap w i) = index_name (w_heap w0 i)
          \<and> ji_table_name (w_heap w i) = ji_table_name (w_heap w0 i) \<and> ji_column_names (w_heap w i) = ji_column_names (w_heap w0 i)"
    using s by (auto simp: searching_def)
  let ?nm = "\<lambda>i. index_name (w_heap w i)"
  obtain w' where w': "simulateConfig env conf w = (Inr (), w')" "w_curHypConfig w' = conf" "inv (w_db w')"
    "hyps (w_db w') = with_indexes (w_heap w) conf (base_view hyps w)" "tabs (w_db w') = tabs (w_db w)"
    "in_sync (hyps (w_db w')) w'" "names (w_db w') = names (w_db w) - cur_names w \<union> ?nm ` set conf"
    "w_heap w' = materialize (set conf) (unmaterialize (set (w_curHypConfig w)) (w_heap w))" "w_dbname w' = w_dbname w"
    using simulateConfig_run [OF env s1(1,2) simulable_subset [OF s1(3) conf]] unfolding base_view_def by blast
  note cand' = simulated_simulable [OF s1(3) conf(1) w'(2,9,8)]
  have free: "base_view hyps w n = None" if n: "n \<in> ?nm ` set conf" for n
  proof (rule ccontr)
    assume "base_view hyps w n \<noteq> None"
    then have "n \<in> names (w_db w) - cur_names w"
      using hyps_named [OF s1(1)] by (auto simp: base_view_def without_def split: if_splits)
    then show False using n s1(3) conf(1) by (auto simp: simulable_def)
  qed
  have "base_view hyps w' = base_view hyps w" by (rule base_view_with_indexes [of hyps w', OF w'(4) cand'(1) free])
  moreover have "with_indexes (w_heap w) conf (base_view hyps w) = with_indexes (w_heap w0) conf (base_view hyps w0)"
    using with_indexes_cong [of conf "w_heap w" "w_heap w0"] same conf(1) s1(4) by auto
  ultimately show ?thesis
    using w' cand'(2) s1 same simulated_candidate [OF s1(3), of _ conf]
    by (intro exI [of _ w']) (simp add: searching_def)
qed

lemma costOf_searching:
  assumes env: "db_exec env = exec" and p: "prices env inv hyps workload price"
    and s: "searching inv hyps tabs names cand w0 w" and conf: "set conf \<subseteq> set cand" "distinct conf"
  shows "\<exists>w'. costOf env workload conf w
      = (Inr (total_price price workload (with_indexes (w_heap w0) conf (base_view hyps w0))), w')
    \<and> searching inv hyps tabs names cand w0 w'"
proof -
  obtain w' where w': "simulateConfig env conf w = (Inr (), w')" "searching inv hyps tabs names cand w0 w'"
    "hyps (w_db w') = with_indexes (w_heap w0) conf (base_view hyps w0)"
    using simulate_searching [OF env s conf] by blast
  have inv': "inv (w_db w')" using w'(2) by (simp add: searching_def)
  have "jfold (\<lambda>query cst. jbind (execExplain env query) (\<lambda>t.
          case t of None \<Rightarrow> jthrow NullPointerException | Some c \<Rightarrow> jreturn (cst + c))) qs c w'
      = (Inr (foldl (\<lambda>cst q. cst + price (hyps (w_db w')) q) c qs), w')" if "set qs \<subseteq> set workload" for qs c
    using that
  proof (induction qs arbitrary: c)
    case (Cons q qs)
    then have "execExplain env q w' = (Inr (Some (price (hyps (w_db w')) q)), w')"
      using p inv' by (simp add: execExplain_read prices_def)
    then show ?case using Cons by (simp add: jbind_def)
  qed simp
  from this [of workload 0] show ?thesis
    using w' by (simp add: costOf_def jbind_def total_price_def)
qed

end

section \<open>The greedy search finds the cheapest subset and stops\<close>

text \<open>What iteration over hash tables promises.\<close>

definition iterates :: "('c, 'v) HashOrder \<Rightarrow> bool" where
  "iterates ord \<longleftrightarrow> (\<forall>A. finite A \<longrightarrow> set (set_iter ord A) = A \<and> distinct (set_iter ord A))
     \<and> (\<forall>es. set (cost_iter ord es) = set es)"

lemma jfold_append: "jfold f (xs @ ys) a s = jbind (jfold f xs a) (jfold f ys) s"
  by (induction xs arbitrary: a s) (auto simp: jbind_def split: prod.splits sum.splits)

lemma jbind_step: "m s = (Inr x, s') \<Longrightarrow> jbind m f s = f x s'"
  by (simp add: jbind_def)

lemma jfold_invariant:
  assumes "P w" "\<forall>x \<in> set xs. \<forall>a w. P w \<longrightarrow> (\<exists>b w'. f x a w = (Inr b, w') \<and> P w')"
  shows "\<exists>b w'. jfold f xs a w = (Inr b, w') \<and> P w'"
  using assms
proof (induction xs arbitrary: a w)
  case (Cons x xs)
  obtain b w1 where x: "f x a w = (Inr b, w1)" "P w1" using Cons.prems by (meson list.set_intros(1))
  then obtain c w2 where "jfold f xs b w1 = (Inr c, w2)" "P w2" using Cons.IH [of w1 b] Cons.prems(2) by auto
  then show ?case using x(1) by (simp add: jbind_def)
qed simp

lemma iterated_subset:
  assumes "iterates ord" "A \<subseteq> {0..<length cand}" "distinct cand"
  shows "set (map ((!) cand) (set_iter ord A)) \<subseteq> set cand" "distinct (map ((!) cand) (set_iter ord A))"
    "length (map ((!) cand) (set_iter ord A)) = card A" "set (map ((!) cand) (set_iter ord A)) = (!) cand ` A"
proof -
  have "finite A" using assms(2) by (rule finite_subset) simp
  then have A: "set (set_iter ord A) = A" "distinct (set_iter ord A)"
    using assms(1) by (simp_all add: iterates_def)
  show "set (map ((!) cand) (set_iter ord A)) = (!) cand ` A" using A(1) by simp
  show "set (map ((!) cand) (set_iter ord A)) \<subseteq> set cand" using A(1) assms(2) by auto
  have "inj_on ((!) cand) {0..<length cand}" using assms(3) by (simp add: inj_on_nth)
  then have "inj_on ((!) cand) A" using assms(2) inj_on_subset by blast
  then show "distinct (map ((!) cand) (set_iter ord A))" using A by (simp add: distinct_map)
  show "length (map ((!) cand) (set_iter ord A)) = card A" using A by (metis distinct_card length_map)
qed

lemma subset_listed:
  assumes "iterates ord" "distinct cand" "distinct conf" "set conf \<subseteq> set cand" "length conf = m"
  shows "\<exists>l \<in> set (map (\<lambda>subset. map ((!) cand) (set_iter ord subset)) (getSubsets [0..<length cand] m)).
    set l = set conf \<and> distinct l"
proof -
  have "set conf \<subseteq> (!) cand ` {0..<length cand}" using assms(4) by (simp add: nth_image)
  then obtain A where A: "A \<subseteq> {0..<length cand}" "(!) cand ` A = set conf" "inj_on ((!) cand) A"
    by (auto simp: subset_image_inj)
  then have "card A = m" using assms(3,5) by (metis card_image distinct_card)
  then have "A \<in> set (getSubsets [0..<length cand] m)"
    using A(1) getSubsets_spec(1) [of "[0..<length cand]" m] by simp
  then have "map ((!) cand) (set_iter ord A) \<in> set (map (\<lambda>subset. map ((!) cand) (set_iter ord subset))
      (getSubsets [0..<length cand] m))" by simp
  then show ?thesis
    by (rule bexI [rotated]) (use iterated_subset(2,4) [OF assms(1) A(1) assms(2)] A(2) in simp)
qed

lemma with_indexes_set:
  assumes "inj_on (\<lambda>i. index_name (h i)) (set conf)" "set conf = set conf'" "distinct conf" "distinct conf'"
  shows "with_indexes h conf m = with_indexes h conf' m"
proof -
  let ?es = "\<lambda>is. map (\<lambda>i. (index_name (h i), ji_table_name (h i), ji_column_names (h i))) is"
  have "map_of (?es conf) = map_of (?es conf')"
    by (rule map_of_inject_set [THEN iffD2]) (use assms in \<open>auto simp: o_def distinct_map\<close>)
  then show ?thesis by (simp add: with_indexes_def)
qed

context hyp_index_server
begin

lemma subset_costs_run:
  assumes env: "db_exec env = exec" and p: "prices env inv hyps workload price"
    and s: "searching inv hyps tabs names cand w0 w" and subs: "\<forall>conf \<in> set subCIs. set conf \<subseteq> set cand \<and> distinct conf"
  shows "\<exists>w'. subset_costs env workload subCIs w
      = (Inr (map (\<lambda>conf. (total_price price workload (with_indexes (w_heap w0) conf (base_view hyps w0)), conf)) subCIs), w')
    \<and> searching inv hyps tabs names cand w0 w'"
  using subs unfolding subset_costs_def
proof (induction subCIs rule: rev_induct)
  case (snoc conf subCIs)
  let ?run = "jfold (\<lambda>CIset cost. jbind (costOf env workload CIset) (\<lambda>cst. jreturn (cost @ [(cst, CIset)])))"
  let ?costs = "map (\<lambda>conf. (total_price price workload (with_indexes (w_heap w0) conf (base_view hyps w0)), conf))"
  have "\<forall>conf \<in> set subCIs. set conf \<subseteq> set cand \<and> distinct conf" and c: "set conf \<subseteq> set cand" "distinct conf"
    using snoc.prems by auto
  then obtain w1 where w1: "?run subCIs [] w = (Inr (?costs subCIs), w1)" "searching inv hyps tabs names cand w0 w1"
    using snoc.IH by blast
  obtain w2 where w2: "costOf env workload conf w1
      = (Inr (total_price price workload (with_indexes (w_heap w0) conf (base_view hyps w0))), w2)" "searching inv hyps tabs names cand w0 w2"
    using costOf_searching [OF env p w1(2) c] by blast
  have "?run (subCIs @ [conf]) [] w = jbind (?run subCIs []) (?run [conf]) w" by (rule jfold_append)
  also have "\<dots> = ?run [conf] (?costs subCIs) w1" by (rule jbind_step) (rule w1(1))
  also have "\<dots> = (Inr (?costs (subCIs @ [conf])), w2)" using w2(1) by (simp add: jbind_def)
  finally show ?case using w2(2) by blast
qed (use s in auto)

lemma cheaper_index_run:
  assumes env: "db_exec env = exec" and p: "prices env inv hyps workload price"
    and s: "searching inv hyps tabs names cand w0 w" and S: "set S \<subseteq> set cand" "distinct S" and I: "set CIs \<subseteq> set cand - set S"
  shows "\<exists>r w'. cheaper_index env workload S CIs minCost w = (Inr r, w') \<and> searching inv hyps tabs names cand w0 w'"
  unfolding cheaper_index_def
proof (rule jfold_invariant [where P = "searching inv hyps tabs names cand w0", OF s], intro ballI allI impI)
  fix I minI w1
  assume I': "I \<in> set CIs" and w1: "searching inv hyps tabs names cand w0 w1"
  have "set (S @ [I]) \<subseteq> set cand" "distinct (S @ [I])" using I I' S by auto
  from costOf_searching [OF env p w1 this]
  show "\<exists>r w'. jbind (costOf env workload (S @ [I])) (\<lambda>costd. jreturn (if costd < minCost then Some I else minI)) w1 = (Inr r, w')
      \<and> searching inv hyps tabs names cand w0 w'" by (auto simp: jbind_def)
qed

lemma extend_loop_run:
  assumes env: "db_exec env = exec" and p: "prices env inv hyps workload price"
    and s: "searching inv hyps tabs names cand w0 w" and S: "set S \<subseteq> set cand" "distinct S" and I: "set CIs \<subseteq> set cand - set S"
  shows "\<exists>w'. extend_loop room env workload CIs minCost minCost S w = (Inr S, w') \<and> searching inv hyps tabs names cand w0 w'"
proof (cases room)
  case (Suc n)
  then show ?thesis using cheaper_index_run [OF assms, of minCost] by (auto simp: jbind_def)
qed (use s in auto)

lemma greedymk_run:
  assumes env: "db_exec env = exec" and p: "prices env inv hyps workload price" and ord: "iterates ord"
    and s: "searching inv hyps tabs names cand w w"
  defines "cst \<equiv> \<lambda>conf. total_price price workload (with_indexes (w_heap w) conf (base_view hyps w))"
  shows "\<exists>r w'. greedymk ord env workload cand m k w = (Inr r, w') \<and> searching inv hyps tabs names cand w w'
    \<and> (if length cand < m then r = None
       else \<exists>S. r = Some S \<and> distinct S \<and> set S \<subseteq> set cand \<and> length S = m
         \<and> (\<forall>conf. distinct conf \<and> set conf \<subseteq> set cand \<and> length conf = m \<longrightarrow> cst S \<le> cst conf))"
proof -
  have inj: "inj_on (\<lambda>i. index_name (w_heap w i)) (set cand)" "distinct cand"
    using s by (auto simp: searching_def simulable_def distinct_map)
  define subCIs where "subCIs = map (\<lambda>subset. map ((!) cand) (set_iter ord subset)) (getSubsets [0..<length cand] m)"
  have sets: "set (getSubsets [0..<length cand] m) = {A. A \<subseteq> {0..<length cand} \<and> card A = m}"
    using getSubsets_spec(1) [of "[0..<length cand]" m] by simp
  have subs: "\<forall>conf \<in> set subCIs. set conf \<subseteq> set cand \<and> distinct conf \<and> length conf = m"
    using iterated_subset [OF ord _ inj(2)] unfolding subCIs_def by (auto simp: sets)
  obtain w1 where w1: "subset_costs env workload subCIs w = (Inr (map (\<lambda>conf. (cst conf, conf)) subCIs), w1)"
    "searching inv hyps tabs names cand w w1"
    using subset_costs_run [OF env p s, of subCIs] subs unfolding cst_def by blast
  define t where "t = foldl (\<lambda>t (c, v). tree_put c v t) [] (cost_iter ord (map (\<lambda>conf. (cst conf, conf)) subCIs))"
  have es: "set (cost_iter ord (map (\<lambda>conf. (cst conf, conf)) subCIs)) = (\<lambda>conf. (cst conf, conf)) ` set subCIs"
    using ord by (simp add: iterates_def)
  have run: "greedymk ord env workload cand m k w = (case t of [] \<Rightarrow> jreturn None
        | (_, S) # _ \<Rightarrow> jbind (costOf env workload S) (\<lambda>minCost.
            jbind (extend_loop (k - length S) env workload (filter (\<lambda>I. I \<notin> set S) cand) minCost minCost S) (\<lambda>S'.
              jreturn (Some S')))) w1"
    unfolding greedymk_def Let_def t_def by (rule jbind_step) (use w1(1) in \<open>simp only: subCIs_def\<close>)
  have any: "\<exists>A. A \<subseteq> {0..<length cand} \<and> card A = m" if "m \<le> length cand"
    using that by (intro exI [of _ "{0..<m}"]) auto
  show ?thesis
  proof (cases t)
    case Nil
    then have "set (cost_iter ord (map (\<lambda>conf. (cst conf, conf)) subCIs)) = {}" by (simp add: t_def no_entry)
    then have "set subCIs = {}" using es by simp
    then have "set (getSubsets [0..<length cand] m) = {}" by (simp add: subCIs_def)
    then have "\<not> m \<le> length cand" using any unfolding sets by blast
    then show ?thesis using run w1(2) unfolding Nil by simp
  next
    case (Cons e rest)
    obtain S where e: "e = (cst S, S)" "S \<in> set subCIs"
      using first_entry_least(1) [of _ "fst e" "snd e" rest] Cons es unfolding t_def by (cases e) auto
    have least: "\<forall>conf \<in> set subCIs. cst S \<le> cst conf"
      using first_entry_least(2) [of _ "fst e" "snd e" rest] Cons es e(1) unfolding t_def by auto
    have S: "set S \<subseteq> set cand" "distinct S" "length S = m" using subs e(2) by auto
    obtain w2 where w2: "costOf env workload S w1 = (Inr (cst S), w2)" "searching inv hyps tabs names cand w w2"
      using costOf_searching [OF env p w1(2) S(1,2)] unfolding cst_def by blast
    obtain w3 where w3: "extend_loop (k - length S) env workload (filter (\<lambda>I. I \<notin> set S) cand) (cst S) (cst S) S w2 = (Inr S, w3)"
      "searching inv hyps tabs names cand w w3"
      using extend_loop_run [OF env p w2(2) S(1,2), of "filter (\<lambda>I. I \<notin> set S) cand"] by auto
    have "cst S \<le> cst conf" if c: "distinct conf" "set conf \<subseteq> set cand" "length conf = m" for conf
    proof -
      obtain l where l: "l \<in> set subCIs" "set l = set conf" "distinct l"
        using subset_listed [OF ord inj(2) c] unfolding subCIs_def by blast
      have "cst l = cst conf"
        unfolding cst_def using l c inj(1)
        by (intro arg_cong [where f = "total_price price workload"] with_indexes_set) (auto intro: inj_on_subset)
      then show ?thesis using least l(1) by auto
    qed
    moreover have "m \<le> length cand" using S inj(2) by (metis card_mono distinct_card List.finite_set)
    ultimately show ?thesis using run Cons e w2 w3 S by (auto simp: jbind_def)
  qed
qed

end


text \<open>A server whose plans are cheap when there is an index on titles.\<close>

definition titles_env :: "(Catalog, int) DbEnv" where
  "titles_env = \<lparr>db_exec = run_command False,
     db_explain = (\<lambda>db q. Some (Some (if hyp_view db ''hix_products_title'' = None
                                       then ''cost=0..9 rows=1'' else ''cost=0..2 rows=1''))),
     parseFloat = (\<lambda>s. if s = ''2'' then Some 2 else Some 9)\<rparr>"

definition sorted_order :: "('c, 'v) HashOrder" where
  "sorted_order = \<lparr>set_iter = sorted_list_of_set, cost_iter = (\<lambda>es. es)\<rparr>"

lemma iterates_sorted: "iterates sorted_order"
  by (simp add: iterates_def sorted_order_def)

lemma titles_prices:
  "prices titles_env cat_wf hyp_view workload (\<lambda>v q. if v ''hix_products_title'' = None then 9 else 2)"
  by (simp add: prices_def titles_env_def read_cost_def split_dots_def drop_trailing_empty_def)


section \<open>Queries with too few conditions\<close>

text \<open>The comparisons of a condition, each with a left operand \<^verbatim>\<open>table.column\<close>.\<close>

definition comparisons :: "(EExpressionType \<times> string) list \<Rightarrow> (EExpressionType \<times> string) list" where
  "comparisons nodes = filter (\<lambda>n. is_compare_condition (fst n)) nodes"

definition all_qualified :: "(EExpressionType \<times> string) list \<Rightarrow> bool" where
  "all_qualified nodes \<longleftrightarrow> (\<forall>n \<in> set (comparisons nodes). 2 \<le> length (split_dot (snd n)))"

definition candidate :: "EExpressionType \<times> string \<Rightarrow> JIndex" where
  "candidate n = new_Index 0 [] (split_dot (snd n) ! 0) 0 (split_dot (snd n) ! 1) True ''it_dellstore2'' False"

text \<open>Extraction allocates one index for each comparison and touches nothing else.\<close>

lemma getIndexes_run:
  assumes "all_qualified nodes"
  shows "\<exists>w'. jfold (exprVisit ''it_dellstore2'') nodes is w
      = (Inr (is @ [w_next w..<w_next w + length (comparisons nodes)]), w')
    \<and> w_next w' = w_next w + length (comparisons nodes)
    \<and> w_db w' = w_db w \<and> w_curHypConfig w' = w_curHypConfig w \<and> w_dbname w' = w_dbname w
    \<and> (\<forall>i. w_heap w' i = (if w_next w \<le> i \<and> i < w_next w' then candidate (comparisons nodes ! (i - w_next w)) else w_heap w i))"
  using assms
proof (induction nodes arbitrary: "is" w)
  case (Cons n nodes)
  show ?case
  proof (cases "is_compare_condition (fst n)")
    case False
    then have c: "comparisons (n # nodes) = comparisons nodes" "all_qualified nodes"
      using Cons.prems by (auto simp: comparisons_def all_qualified_def)
    have "exprVisit ''it_dellstore2'' n is w = (Inr is, w)" using False by (simp add: exprVisit_def)
    then have "jfold (exprVisit ''it_dellstore2'') (n # nodes) is w = jfold (exprVisit ''it_dellstore2'') nodes is w"
      by (simp add: jbind_def)
    then show ?thesis using Cons.IH [OF c(2), of "is" w] unfolding c(1) by simp
  next
    case True
    then have c: "comparisons (n # nodes) = n # comparisons nodes" "all_qualified nodes" "2 \<le> length (split_dot (snd n))"
      using Cons.prems by (auto simp: comparisons_def all_qualified_def)
    define w1 where "w1 = w\<lparr>w_heap := (w_heap w)(w_next w := candidate n), w_next := Suc (w_next w)\<rparr>"
    have step: "exprVisit ''it_dellstore2'' n is w = (Inr (is @ [w_next w]), w1)"
      using True c(3) by (simp add: exprVisit_def jbind_def alloc_Index_def w1_def candidate_def Let_def)
    obtain w2 where w2: "jfold (exprVisit ''it_dellstore2'') nodes (is @ [w_next w]) w1
        = (Inr ((is @ [w_next w]) @ [w_next w1..<w_next w1 + length (comparisons nodes)]), w2)"
      "w_next w2 = w_next w1 + length (comparisons nodes)"
      "w_db w2 = w_db w1" "w_curHypConfig w2 = w_curHypConfig w1" "w_dbname w2 = w_dbname w1"
      "\<forall>i. w_heap w2 i = (if w_next w1 \<le> i \<and> i < w_next w2 then candidate (comparisons nodes ! (i - w_next w1)) else w_heap w1 i)"
      using Cons.IH [OF c(2), of "is @ [w_next w]" w1] by blast
    have heap: "w_heap w2 i = (if w_next w \<le> i \<and> i < w_next w2 then candidate ((n # comparisons nodes) ! (i - w_next w)) else w_heap w i)" for i
    proof (cases "i = w_next w")
      case True
      then show ?thesis using w2(2,6) by (simp add: w1_def)
    next
      case False
      then have "(n # comparisons nodes) ! (i - w_next w) = comparisons nodes ! (i - Suc (w_next w))" if "w_next w \<le> i"
        using that by (simp add: nth_Cons')
      then show ?thesis using w2(6) [rule_format, of i] False by (simp add: w1_def Suc_le_eq)
    qed
    have addr: "(is @ [w_next w]) @ [w_next w1..<w_next w1 + length (comparisons nodes)]
        = is @ [w_next w..<w_next w + length (n # comparisons nodes)]"
      by (simp add: w1_def upt_conv_Cons del: upt_Suc)
    have run: "jfold (exprVisit ''it_dellstore2'') (n # nodes) is w = jfold (exprVisit ''it_dellstore2'') nodes (is @ [w_next w]) w1"
      using step by (simp add: jbind_def)
    show ?thesis unfolding run c(1)
    proof (intro exI [of _ w2] conjI allI)
      show "jfold (exprVisit ''it_dellstore2'') nodes (is @ [w_next w]) w1
          = (Inr (is @ [w_next w..<w_next w + length (n # comparisons nodes)]), w2)"
        using w2(1) unfolding addr .
    qed (use w2(2-5) heap in \<open>simp_all add: w1_def\<close>)
  qed
qed (auto simp: comparisons_def)

lemma greedymk_few:
  assumes "iterates ord" "length cand < m"
  shows "greedymk ord env workload cand m k w = (Inr None, w)"
proof -
  have "A \<subseteq> {0..<length cand} \<Longrightarrow> card A \<noteq> m" for A
    using assms(2) by (metis card_atLeastLessThan card_mono diff_zero finite_atLeastLessThan leD)
  then have "set (getSubsets [0..<length cand] m) = {}"
    using getSubsets_spec(1) [of "[0..<length cand]" m] by auto
  then have "getSubsets [0..<length cand] m = []" by simp
  moreover have "set (cost_iter ord []) = {}" using assms(1) unfolding iterates_def by (metis empty_set)
  then have "cost_iter ord [] = []" by simp
  ultimately show ?thesis by (simp add: greedymk_def Let_def subset_costs_def jbind_def)
qed

lemma CISelection_append:
  "CISelection ord parse env (qs @ q # rest) w =
     jbind (CISelection ord parse env qs) (\<lambda>CI.
       jfold (\<lambda>query CI.
         jbind (extractIndexes parse query) (\<lambda>is.
         jbind (add_all [] is) (\<lambda>Is.
         jbind (enumerate ord env 10 Is [query]) (\<lambda>S. add_all CI S)))) (q # rest) CI) w"
  unfolding CISelection_def by (rule jfold_append)

lemma CISelection_few:
  assumes "iterates ord" "CISelection ord parse env qs w = (Inr CI, w1)"
    and "parse q = Condition nodes" "all_qualified nodes" "length (comparisons nodes) < 2"
  shows "\<exists>w'. CISelection ord parse env (qs @ q # rest) w = (Inl NullPointerException, w')
    \<and> w_db w' = w_db w1 \<and> w_curHypConfig w' = w_curHypConfig w1"
proof -
  obtain w2 where w2: "getIndexes ''it_dellstore2'' nodes w1 = (Inr [w_next w1..<w_next w1 + length (comparisons nodes)], w2)"
    "w_db w2 = w_db w1" "w_curHypConfig w2 = w_curHypConfig w1"
    using getIndexes_run [OF assms(4), of "[]" w1] by (auto simp: getIndexes_def)
  then have "extractIndexes parse q w1 = (Inr (Some [w_next w1..<w_next w1 + length (comparisons nodes)]), w2)"
    using assms(3) by (simp add: extractIndexes_def jbind_def)
  moreover have "enumerate ord env 10 [w_next w1..<w_next w1 + length (comparisons nodes)] [q] w2 = (Inr None, w2)"
    unfolding enumerate_def by (rule greedymk_few [OF assms(1)]) (use assms(5) in simp)
  ultimately show ?thesis
    using w2(2,3) unfolding CISelection_append by (simp add: jbind_def assms(2) add_all_def)
qed

text \<open>A query with fewer than two comparisons stops the selection of candidates.  Wherever it stands
  in a workload whose earlier queries were dealt with, the selection throws a
  NullPointerException when it reaches the query, without having asked the database about it.\<close>

theorem CISelection_needs_two_comparisons:
  assumes "iterates ord" "CISelection ord parse env qs w = (Inr CI, w1)"
    and "parse q = Condition nodes" "all_qualified nodes" "length (comparisons nodes) < 2"
  shows "\<exists>w'. CISelection ord parse env (qs @ q # rest) w = (Inl NullPointerException, w')
    \<and> w_db w' = w_db w1 \<and> w_curHypConfig w' = w_curHypConfig w1"
  using assms by (rule CISelection_few)

theorem CISelection_needs_two_comparisons_witness:
  "\<exists>w'. CISelection sorted_order (\<lambda>_. Condition [(simple_comparison_t, ''products.title'')]) titles_env
      [''SELECT * FROM products WHERE products.title = 1''] products_world = (Inl NullPointerException, w')"
proof -
  have "all_qualified [(simple_comparison_t, ''products.title'')]"
    by (simp add: all_qualified_def comparisons_def is_compare_condition_def split_dot_def drop_trailing_empty_def)
  moreover have "CISelection sorted_order (\<lambda>_. Condition [(simple_comparison_t, ''products.title'')]) titles_env [] products_world
      = (Inr [], products_world)" by (simp add: CISelection_def)
  moreover have "length (comparisons [(simple_comparison_t, ''products.title'')]) < 2"
    by (simp add: comparisons_def is_compare_condition_def)
  ultimately have "\<exists>w'. CISelection sorted_order (\<lambda>_. Condition [(simple_comparison_t, ''products.title'')]) titles_env
      ([] @ ''SELECT * FROM products WHERE products.title = 1'' # []) products_world = (Inl NullPointerException, w')
    \<and> w_db w' = w_db products_world \<and> w_curHypConfig w' = w_curHypConfig products_world"
    by (intro CISelection_needs_two_comparisons [OF iterates_sorted]) simp_all
  then show ?thesis by auto
qed

end
