(* ===== verification/Tuner_Partition.thy ===== *)
theory Tuner_Partition
  imports Tuner_Search Complex_Main "HOL-Library.Multiset"
begin

text \<open>
  The partitioning of candidates (\<^verbatim>\<open>Partitioner.java\<close>).  Costs and weights are real
  numbers; the rounding of \<^verbatim>\<open>float\<close> is not modelled.
\<close>

record Partitioner =
  pt_workBench :: "string list"
  pt_k :: int
  pt_maxPartition :: int
  pt_prev :: int

section \<open>Edges\<close>

text \<open>
  The constructor assigns the field to its parameter instead of the other way round: the second
  end of every edge keeps the initial value of the field.
\<close>

record Edge =
  e_a :: nat
  e_b :: nat
  e_wt :: real

definition new_Edge :: "nat \<Rightarrow> nat \<Rightarrow> real \<Rightarrow> Edge" where
  "new_Edge ax bx wtx = \<lparr>e_a = ax, e_b = 0, e_wt = wtx\<rparr>"

definition Edge_compareTo :: "Edge \<Rightarrow> Edge \<Rightarrow> int" where
  "Edge_compareTo x y =
     (if e_wt x > e_wt y then -1
      else if e_wt x < e_wt y then 1
      else if e_a x = e_a y \<and> e_b x = e_b y then 0
      else if e_a x < e_a y then -1
      else if e_a x > e_a y then 1
      else if e_b x < e_b y then -1
      else 1)"

text \<open>\<^verbatim>\<open>Collections.sort\<close>: a stable sort by the comparison.\<close>

fun insert_edge :: "Edge \<Rightarrow> Edge list \<Rightarrow> Edge list" where
  "insert_edge e [] = [e]"
| "insert_edge e (x # xs) = (if Edge_compareTo x e \<le> 0 then x # insert_edge e xs else e # x # xs)"

definition sort_edges :: "Edge list \<Rightarrow> Edge list" where
  "sort_edges es = foldl (\<lambda>t e. insert_edge e t) [] es"

section \<open>Weights\<close>

text \<open>
  One query: the cost with all candidates, without the first index, and without the second.  The
  list of candidates is changed in place; the two indexes end up at its end.
\<close>

definition degree ::
  "('db, real) DbEnv \<Rightarrow> string \<Rightarrow> iref \<Rightarrow> iref \<Rightarrow> nat \<Rightarrow> iref list \<Rightarrow> ('db world, real \<times> iref list) jm" where
  "degree env query a b i cand =
     (let ask = (\<lambda>conf. jbind (whatIf env query conf) (\<lambda>t.
                  case t of None \<Rightarrow> jthrow NullPointerException | Some c \<Rightarrow> jreturn c));
          cand1 = remove1 a cand;
          cand2 = remove1 b cand1 @ [a]
      in jbind (ask cand) (\<lambda>denom.
         jbind (ask cand1) (\<lambda>c1.
         jbind (ask cand2) (\<lambda>c2.
           let num1 = denom - c1; num2 = denom - c2
           in jreturn (\<bar>num1 + num2 / denom\<bar> / sqrt (real i + 1), cand2 @ [b])))))"

text \<open>The loop over the last queries; it reads the size of the list of candidates every time.\<close>

fun weight_loop ::
  "nat \<Rightarrow> nat \<Rightarrow> ('db, real) DbEnv \<Rightarrow> string list \<Rightarrow> iref \<Rightarrow> iref \<Rightarrow> iref list \<Rightarrow> real \<Rightarrow> ('db world, real \<times> iref list) jm" where
  "weight_loop 0 i env workBench a b cand res = jreturn (res, cand)"
| "weight_loop (Suc n) i env workBench a b cand res =
     (if i < length cand
      then if i < length workBench
           then jbind (degree env (workBench ! (length workBench - i - 1)) a b i cand) (\<lambda>(d, cand').
                  weight_loop n (Suc i) env workBench a b cand' (res + d))
           else jthrow IndexOutOfBoundsException
      else jreturn (res, cand))"

definition calculateWt ::
  "Partitioner \<Rightarrow> ('db, real) DbEnv \<Rightarrow> iref \<Rightarrow> iref \<Rightarrow> iref list \<Rightarrow> ('db world, real \<times> iref list) jm" where
  "calculateWt p env a b cand = weight_loop (nat (pt_prev p)) 0 env (pt_workBench p) a b cand 0"

text \<open>All pairs; the indexes are read from the list as the previous pairs left it.\<close>

definition edge_list ::
  "Partitioner \<Rightarrow> ('db, real) DbEnv \<Rightarrow> iref list \<Rightarrow> ('db world, Edge list \<times> iref list) jm" where
  "edge_list p env cand =
     (let n = length cand
      in jfold (\<lambda>(i, j) (edgeList, cand).
           if j < length cand
           then jbind (calculateWt p env (cand ! i) (cand ! j) cand) (\<lambda>(x, cand').
                  jreturn (edgeList @ [new_Edge i j x], cand'))
           else jthrow IndexOutOfBoundsException)
         (concat (map (\<lambda>i. map (Pair i) [Suc i..<n]) [0..<n])) ([], cand))"

section \<open>Union-find\<close>

text \<open>
  The representative of an element, with the links halved on the way.  Outside the array
  the loop throws; None stands for a loop that does not end.
\<close>

partial_function (option) parent :: "nat \<Rightarrow> nat list \<Rightarrow> (jexn + nat \<times> nat list) option" where
  "parent x ed =
     (if length ed \<le> x then Some (Inl IndexOutOfBoundsException)
      else if ed ! x = x then Some (Inr (x, ed))
      else if length ed \<le> ed ! x then Some (Inl IndexOutOfBoundsException)
      else parent (ed ! x) (ed[x := ed ! (ed ! x)]))"

text \<open>
  Merging along the edges: \<^verbatim>\<open>map\<close>, \<^verbatim>\<open>wt\<close> and the number of partitions.  The position
  \<^verbatim>\<open>curEdge\<close> does not change in the loop.
\<close>

definition merge_step ::
  "int \<Rightarrow> nat \<Rightarrow> nat \<Rightarrow> nat list \<Rightarrow> int list \<Rightarrow> int \<Rightarrow> nat list \<times> int list \<times> int" where
  "merge_step maxPartition t1 t2 mp wt numpar =
     (if t1 \<noteq> t2
      then if wt ! t1 < wt ! t2 \<and> wt ! t2 < maxPartition
           then (mp[t1 := t2], wt[t2 := wt ! t2 + wt ! t1], numpar - 1)
           else if wt ! t2 < wt ! t1 \<and> wt ! t1 < maxPartition
           then (mp[t2 := t1], wt[t1 := wt ! t1 + wt ! t2], numpar - 1)
           else (mp, wt, numpar)
      else (mp, wt, numpar))"

partial_function (option) merge_loop ::
  "Partitioner \<Rightarrow> Edge list \<Rightarrow> nat \<Rightarrow> nat list \<Rightarrow> int list \<Rightarrow> int \<Rightarrow> (jexn + nat list \<times> int list \<times> int) option" where
  "merge_loop p edgeList curEdge mp wt numpar =
     (if curEdge < length edgeList \<and> numpar > pt_k p
      then case parent (e_a (edgeList ! curEdge)) mp of
             None \<Rightarrow> None
           | Some (Inl e) \<Rightarrow> Some (Inl e)
           | Some (Inr (t1, mp1)) \<Rightarrow>
               (case parent (e_b (edgeList ! curEdge)) mp1 of
                  None \<Rightarrow> None
                | Some (Inl e) \<Rightarrow> Some (Inl e)
                | Some (Inr (t2, mp2)) \<Rightarrow>
                    (let (mp', wt', numpar') = merge_step (pt_maxPartition p) t1 t2 mp2 wt numpar
                     in merge_loop p edgeList curEdge mp' wt' numpar'))
      else Some (Inr (mp, wt, numpar)))"

text \<open>The representatives of all elements, each asked for twice.\<close>

fun find_parents :: "nat list \<Rightarrow> nat list \<Rightarrow> (jexn + nat list) option" where
  "find_parents [] mp = Some (Inr [])"
| "find_parents (i # is) mp =
     (case parent i mp of
        None \<Rightarrow> None
      | Some (Inl e) \<Rightarrow> Some (Inl e)
      | Some (Inr (_, mp1)) \<Rightarrow>
          (case parent i mp1 of
             None \<Rightarrow> None
           | Some (Inl e) \<Rightarrow> Some (Inl e)
           | Some (Inr (r, mp2)) \<Rightarrow>
               (case find_parents is mp2 of
                  None \<Rightarrow> None
                | Some (Inl e) \<Rightarrow> Some (Inl e)
                | Some (Inr rs) \<Rightarrow> Some (Inr (r # rs)))))"

definition group_by_parent :: "nat list \<Rightarrow> iref list \<Rightarrow> iref list list" where
  "group_by_parent par cand =
     map (\<lambda>ip. map ((!) cand) (filter (\<lambda>i. par ! i = ip) [0..<length cand])) (sort (remdups par))"

text \<open>
  None when the method does not return.  The second result is the list of candidates, which was
  changed in place.
\<close>

definition makeParitions ::
  "Partitioner \<Rightarrow> ('db, real) DbEnv \<Rightarrow> iref list \<Rightarrow> 'db world \<Rightarrow> ((jexn + iref list list \<times> iref list) \<times> 'db world) option" where
  "makeParitions p env cand w =
     (case edge_list p env cand w of
        (Inl e, w') \<Rightarrow> Some (Inl e, w')
      | (Inr (edgeList, cand'), w') \<Rightarrow>
          (case merge_loop p (sort_edges edgeList) 0 [0..<length cand'] (replicate (length cand') 0) (int (length edgeList)) of
             None \<Rightarrow> None
           | Some (Inl e) \<Rightarrow> Some (Inl e, w')
           | Some (Inr (mp, _, _)) \<Rightarrow>
               (case find_parents [0..<length cand'] mp of
                  None \<Rightarrow> None
                | Some (Inl e) \<Rightarrow> Some (Inl e, w')
                | Some (Inr par) \<Rightarrow> Some (Inr (group_by_parent par cand', cand'), w'))))"

section \<open>The edges\<close>

lemma mset_insert_edge: "mset (insert_edge e es) = add_mset e (mset es)"
  by (induction es) auto

lemma mset_sort_edges [simp]: "mset (sort_edges es) = mset es"
  by (induction es rule: rev_induct) (simp_all add: sort_edges_def mset_insert_edge)

lemma set_sort_edges [simp]: "set (sort_edges es) = set es"
  by (metis mset_sort_edges set_mset_mset)

lemma length_sort_edges [simp]: "length (sort_edges es) = length es"
  by (metis mset_sort_edges size_mset)

lemma degree_cand:
  assumes "degree env query a b i cand w = (Inr (d, cand'), w')"
  shows "cand' = remove1 b (remove1 a cand) @ [a, b]"
  using assms by (auto simp: degree_def jbind_def Let_def split: prod.splits sum.splits)

lemma two_positions:
  assumes "i < j" "j < length cand"
  shows "{# cand ! i, cand ! j #} \<subseteq># mset cand"
proof -
  have "cand ! i \<in> set (take j cand)" using assms by (auto simp: in_set_conv_nth)
  moreover have "cand ! j \<in> set (drop j cand)" using assms(2) by (metis Cons_nth_drop_Suc list.set_intros(1))
  ultimately have "{# cand ! i #} + {# cand ! j #} \<subseteq># mset (take j cand) + mset (drop j cand)"
    by (intro subset_mset.add_mono) simp_all
  moreover have "mset (take j cand) + mset (drop j cand) = mset cand" by (metis append_take_drop_id mset_append)
  ultimately show ?thesis by (simp add: add_mset_commute)
qed

lemma mset_moved:
  assumes "{# a, b #} \<subseteq># mset cand"
  shows "mset (remove1 b (remove1 a cand) @ [a, b]) = mset cand"
proof -
  have "mset (remove1 b (remove1 a cand) @ [a, b]) = mset cand - {# a, b #} + {# a, b #}" by (simp add: add_mset_commute)
  also have "\<dots> = mset cand" using assms by (rule subset_mset.diff_add)
  finally show ?thesis .
qed

lemma weight_loop_mset:
  assumes "weight_loop n i env wb a b cand r w = (Inr (x, cand'), w')" "{# a, b #} \<subseteq># mset cand"
  shows "mset cand' = mset cand"
  using assms
proof (induction n arbitrary: i cand r w)
  case (Suc n)
  show ?case
  proof (cases "i < length cand")
    case True
    then obtain d cand1 w1 where d: "degree env (wb ! (length wb - i - 1)) a b i cand w = (Inr (d, cand1), w1)"
      "weight_loop n (Suc i) env wb a b cand1 (r + d) w1 = (Inr (x, cand'), w')"
      using Suc.prems(1) by (auto simp: jbind_def split: prod.splits sum.splits if_splits)
    have "mset cand1 = mset cand" using degree_cand [OF d(1)] mset_moved [OF Suc.prems(2)] by simp
    then show ?thesis using Suc.IH [OF d(2)] Suc.prems(2) by simp
  qed (use Suc.prems in simp)
qed simp

text \<open>Pairs \<^verbatim>\<open>(i, j)\<close> with \<^verbatim>\<open>i < j < n\<close> in the order of the two loops.\<close>

lemma length_pairs: "length (concat (map (\<lambda>i. map (Pair i) [Suc i..<n]) [0..<n])) = n choose 2"
proof -
  have "length (concat (map (\<lambda>i. map (Pair i) [Suc i..<n]) [0..<n])) = (\<Sum>i<n. n - Suc i)"
    by (simp add: length_concat o_def sum_list_sum_nth atLeast0LessThan)
  also have "\<dots> = (\<Sum>i<n. i)" by (rule sum.nat_diff_reindex)
  also have "\<dots> = n choose 2" by (simp add: gbinomial_sum_lower_neg choose_two Sum_Ico_nat lessThan_atLeast0)
  finally show ?thesis .
qed

lemma edge_fold:
  assumes "jfold (\<lambda>(i, j) (edgeList, cand).
           if j < length cand
           then jbind (calculateWt p env (cand ! i) (cand ! j) cand) (\<lambda>(x, cand').
                  jreturn (edgeList @ [new_Edge i j x], cand'))
           else jthrow IndexOutOfBoundsException) ps (es, cand) w = (Inr (es', cand'), w')"
    and "\<forall>(i, j) \<in> set ps. i < j \<and> j < n" "length cand = n" "\<forall>e \<in> set es. e_a e < n \<and> e_b e < n"
  shows "length es' = length es + length ps \<and> (\<forall>e \<in> set es'. e_a e < n \<and> e_b e < n) \<and> mset cand' = mset cand"
  using assms
proof (induction ps arbitrary: es cand w)
  case (Cons ij ps)
  obtain i j where ij: "ij = (i, j)" "i < j" "j < n" using Cons.prems(2) by auto
  then obtain x cand1 w1 where x: "calculateWt p env (cand ! i) (cand ! j) cand w = (Inr (x, cand1), w1)"
    "jfold (\<lambda>(i, j) (edgeList, cand).
           if j < length cand
           then jbind (calculateWt p env (cand ! i) (cand ! j) cand) (\<lambda>(x, cand').
                  jreturn (edgeList @ [new_Edge i j x], cand'))
           else jthrow IndexOutOfBoundsException) ps (es @ [new_Edge i j x], cand1) w1 = (Inr (es', cand'), w')"
    using Cons.prems(1,3) by (auto simp: jbind_def split: prod.splits sum.splits if_splits)
  have "{# cand ! i, cand ! j #} \<subseteq># mset cand" using two_positions [of i j cand] ij Cons.prems(3) by blast
  with x(1) have m: "mset cand1 = mset cand" unfolding calculateWt_def by (rule weight_loop_mset)
  then have "length cand1 = n" using Cons.prems(3) by (metis size_mset)
  moreover have "\<forall>e \<in> set (es @ [new_Edge i j x]). e_a e < n \<and> e_b e < n"
    using Cons.prems(4) ij by (auto simp: new_Edge_def)
  moreover have "\<forall>(i, j) \<in> set ps. i < j \<and> j < n" using Cons.prems(2) by simp
  ultimately have "length es' = length (es @ [new_Edge i j x]) + length ps \<and> (\<forall>e \<in> set es'. e_a e < n \<and> e_b e < n)
      \<and> mset cand' = mset cand1"
    by (intro Cons.IH [OF x(2)])
  then show ?case using m by simp
qed simp

lemma edge_list_spec:
  assumes "edge_list p env cand w = (Inr (es, cand'), w')"
  shows "length es = length cand choose 2" "\<forall>e \<in> set es. e_a e < length cand \<and> e_b e < length cand" "mset cand' = mset cand"
proof -
  have "\<forall>(i, j) \<in> set (concat (map (\<lambda>i. map (Pair i) [Suc i..<length cand]) [0..<length cand])). i < j \<and> j < length cand" by auto
  from edge_fold [OF assms [unfolded edge_list_def Let_def] this]
  show "length es = length cand choose 2" "\<forall>e \<in> set es. e_a e < length cand \<and> e_b e < length cand" "mset cand' = mset cand"
    by (simp_all add: length_pairs)
qed

section \<open>Representatives\<close>

text \<open>Links that lead somewhere: every link that is not a loop goes down in some rank.\<close>

definition links_ok :: "(nat \<Rightarrow> nat) \<Rightarrow> nat list \<Rightarrow> bool" where
  "links_ok rank ed \<longleftrightarrow> (\<forall>x < length ed. ed ! x < length ed \<and> (ed ! x \<noteq> x \<longrightarrow> rank (ed ! x) < rank x))"

text \<open>Following links to the end, as a relation.\<close>

inductive leads_to :: "nat list \<Rightarrow> nat \<Rightarrow> nat \<Rightarrow> bool" for ed where
  root: "ed ! x = x \<Longrightarrow> leads_to ed x x"
| link: "ed ! x \<noteq> x \<Longrightarrow> leads_to ed (ed ! x) r \<Longrightarrow> leads_to ed x r"

inductive_cases leads_toE: "leads_to ed x r"

lemma links_okD:
  assumes "links_ok rank ed" "x < length ed"
  shows "ed ! x < length ed" "ed ! x \<noteq> x \<Longrightarrow> rank (ed ! x) < rank x" "rank (ed ! x) \<le> rank x"
proof -
  show "ed ! x < length ed" and r: "ed ! x \<noteq> x \<Longrightarrow> rank (ed ! x) < rank x"
    using assms by (auto simp: links_ok_def)
  show "rank (ed ! x) \<le> rank x" using r by (cases "ed ! x = x") auto
qed

lemma links_ok_halve:
  assumes "links_ok rank ed" "x < length ed" "ed ! x \<noteq> x"
  shows "links_ok rank (ed[x := ed ! (ed ! x)])"
  unfolding links_ok_def
proof (intro allI impI)
  fix v assume "v < length (ed[x := ed ! (ed ! x)])"
  moreover have "rank (ed ! (ed ! x)) < rank x" and "ed ! (ed ! x) < length ed"
    using links_okD(3) [OF assms(1), of "ed ! x"] links_okD [OF assms(1,2)] assms(3) links_okD(1) [OF assms(1), of "ed ! x"] by auto
  ultimately show "ed[x := ed ! (ed ! x)] ! v < length (ed[x := ed ! (ed ! x)])
      \<and> (ed[x := ed ! (ed ! x)] ! v \<noteq> v \<longrightarrow> rank (ed[x := ed ! (ed ! x)] ! v) < rank v)"
    using links_okD [OF assms(1)] by (cases "v = x") auto
qed

lemma leads_to_halve:
  assumes ok: "links_ok rank ed" and x: "x < length ed" "ed ! x \<noteq> x" and l: "leads_to ed v r"
  shows "leads_to (ed[x := ed ! (ed ! x)]) v r"
  using l
proof induction
  case (root v)
  then have "v \<noteq> x" using x(2) by auto
  then have "ed[x := ed ! (ed ! x)] ! v = v" using root by simp
  then show ?case by (rule leads_to.root)
next
  case (link v r)
  let ?ed = "ed[x := ed ! (ed ! x)]"
  show ?case
  proof (cases "v = x")
    case False
    then have "?ed ! v = ed ! v" by simp
    then show ?thesis using link.hyps(1) link.IH by - (rule leads_to.link, simp_all)
  next
    case True
    let ?y = "ed ! x"
    have y: "?y < length ed" "rank ?y < rank x" using links_okD [OF ok x(1)] x(2) by auto
    then have z: "rank (ed ! ?y) \<le> rank ?y" using links_okD(3) [OF ok] by blast
    have eds: "?ed ! x = ed ! ?y" "?ed ! ?y = ed ! ?y" using x by auto
    have "leads_to ?ed (ed ! ?y) r"
    proof (cases "ed ! ?y = ?y")
      case True
      then show ?thesis using link.IH \<open>v = x\<close> by simp
    next
      case False
      then have "?ed ! ?y \<noteq> ?y" using eds(2) by simp
      moreover have "leads_to ?ed ?y r" using link.IH \<open>v = x\<close> by simp
      ultimately have "leads_to ?ed (?ed ! ?y) r" by (metis leads_toE)
      then show ?thesis unfolding eds(2) .
    qed
    moreover have "?ed ! x \<noteq> x" using eds(1) y(2) z by auto
    ultimately show ?thesis unfolding \<open>v = x\<close> using eds(1) by - (rule leads_to.link, simp_all)
  qed
qed

lemma leads_to_unique: "leads_to ed x r \<Longrightarrow> leads_to ed x s \<Longrightarrow> r = s"
  by (induction rule: leads_to.induct) (auto elim: leads_toE)

lemma leads_to_total:
  assumes "links_ok rank ed" "x < length ed"
  shows "\<exists>r. leads_to ed x r"
  using assms(2)
proof (induction "rank x" arbitrary: x rule: less_induct)
  case less
  show ?case
  proof (cases "ed ! x = x")
    case False
    then show ?thesis using less links_okD [OF assms(1) less.prems] by (blast intro: leads_to.link)
  qed (auto intro: leads_to.root)
qed

lemma parent_returns:
  assumes "links_ok rank ed" "x < length ed"
  shows "\<exists>r ed'. parent x ed = Some (Inr (r, ed')) \<and> leads_to ed' x r \<and> ed' ! r = r \<and> r < length ed'
    \<and> links_ok rank ed' \<and> length ed' = length ed \<and> (\<forall>v s. leads_to ed v s \<longrightarrow> leads_to ed' v s)"
  using assms
proof (induction "rank x" arbitrary: x ed rule: less_induct)
  case less
  show ?case
  proof (cases "ed ! x = x")
    case True
    then show ?thesis using less.prems by (subst parent.simps) (auto intro: leads_to.root)
  next
    case False
    let ?ed = "ed[x := ed ! (ed ! x)]"
    have y: "ed ! x < length ed" "rank (ed ! x) < rank x" using links_okD [OF less.prems] False by auto
    have ok: "links_ok rank ?ed" using links_ok_halve [OF less.prems False] .
    obtain r ed' where r: "parent (ed ! x) ?ed = Some (Inr (r, ed'))" "leads_to ed' (ed ! x) r" "ed' ! r = r" "r < length ed'"
      "links_ok rank ed'" "length ed' = length ?ed" "\<forall>v s. leads_to ?ed v s \<longrightarrow> leads_to ed' v s"
      using less.hyps [OF y(2) ok] y(1) by auto
    have step: "parent x ed = parent (ed ! x) ?ed"
      using False less.prems(2) y(1) by (subst parent.simps) simp
    have keep: "leads_to ed' v s" if "leads_to ed v s" for v s
      using leads_to_halve [OF less.prems False that] r(7) by blast
    obtain r0 where r0: "leads_to ed (ed ! x) r0" using leads_to_total [OF less.prems(1) y(1)] by blast
    then have "r0 = r" using keep leads_to_unique r(2) by blast
    then have "leads_to ed' x r" using keep leads_to.link [OF False r0] by blast
    then show ?thesis using r keep unfolding step by auto
  qed
qed

section \<open>The merge loop never merges\<close>

lemma parent_root: "x < length mp \<Longrightarrow> mp ! x = x \<Longrightarrow> parent x mp = Some (Inr (x, mp))"
  by (subst parent.simps) simp

text \<open>All weights start at zero, and only unequal weights are merged.\<close>

lemma merge_step_zero:
  "t1 < n \<Longrightarrow> t2 < n \<Longrightarrow> merge_step mx t1 t2 mp (replicate n 0) numpar = (mp, replicate n 0, numpar)"
  by (simp add: merge_step_def)

lemma merge_loop_done:
  assumes "length edgeList \<le> curEdge \<or> numpar \<le> pt_k p"
  shows "merge_loop p edgeList curEdge mp wt numpar = Some (Inr (mp, wt, numpar))"
  using assms by (subst merge_loop.simps) auto

lemma merge_loop_diverges:
  assumes "merge_loop p edgeList curEdge mp wt numpar = Some y"
  shows "\<not> (mp = [0..<n] \<and> wt = replicate n 0 \<and> curEdge < length edgeList \<and> numpar > pt_k p
    \<and> e_a (edgeList ! curEdge) < n \<and> e_b (edgeList ! curEdge) < n)"
proof (rule merge_loop.raw_induct [OF _ assms, where P = "\<lambda>p edgeList curEdge mp wt numpar y.
    \<not> (mp = [0..<n] \<and> wt = replicate n 0 \<and> curEdge < length edgeList \<and> numpar > pt_k p
    \<and> e_a (edgeList ! curEdge) < n \<and> e_b (edgeList ! curEdge) < n)"])
  fix f p edgeList curEdge mp wt numpar y
  assume IH: "\<And>p edgeList curEdge mp wt numpar y. f p edgeList curEdge mp wt numpar = Some y \<Longrightarrow>
      \<not> (mp = [0..<n] \<and> wt = replicate n 0 \<and> curEdge < length edgeList \<and> pt_k p < numpar
        \<and> e_a (edgeList ! curEdge) < n \<and> e_b (edgeList ! curEdge) < n)"
    and body: "(if curEdge < length edgeList \<and> pt_k p < numpar
      then case parent (e_a (edgeList ! curEdge)) mp of
             None \<Rightarrow> None
           | Some (Inl e) \<Rightarrow> Some (Inl e)
           | Some (Inr (t1, mp1)) \<Rightarrow>
               (case parent (e_b (edgeList ! curEdge)) mp1 of
                  None \<Rightarrow> None
                | Some (Inl e) \<Rightarrow> Some (Inl e)
                | Some (Inr (t2, mp2)) \<Rightarrow>
                    (let (mp', wt', numpar') = merge_step (pt_maxPartition p) t1 t2 mp2 wt numpar
                     in f p edgeList curEdge mp' wt' numpar'))
      else Some (Inr (mp, wt, numpar))) = Some y"
  show "\<not> (mp = [0..<n] \<and> wt = replicate n 0 \<and> curEdge < length edgeList \<and> pt_k p < numpar
      \<and> e_a (edgeList ! curEdge) < n \<and> e_b (edgeList ! curEdge) < n)"
  proof
    assume a: "mp = [0..<n] \<and> wt = replicate n 0 \<and> curEdge < length edgeList \<and> pt_k p < numpar
      \<and> e_a (edgeList ! curEdge) < n \<and> e_b (edgeList ! curEdge) < n"
    then have "f p edgeList curEdge mp wt numpar = Some y"
      using body by (simp add: parent_root merge_step_zero)
    from IH [OF this] a show False by blast
  qed
qed

lemma find_parents_root: "set is \<subseteq> {0..<n} \<Longrightarrow> find_parents is [0..<n] = Some (Inr is)"
  by (induction "is") (simp_all add: parent_root)

lemma group_singletons: "group_by_parent [0..<length cand] cand = map (\<lambda>i. [i]) cand"
proof -
  have "filter (\<lambda>i. [0..<length cand] ! i = j) [0..<length cand] = [j]" if j: "j < length cand" for j
  proof -
    have "filter (\<lambda>i. [0..<length cand] ! i = j) [0..<length cand] = filter (\<lambda>i. i = j) [0..<length cand]"
      by (rule filter_cong) auto
    also have "\<dots> = [j]"
    proof -
      have "[0..<length cand] = [0..<j] @ j # [Suc j..<length cand]"
        using j by (metis le_add1 le_add_same_cancel1 less_imp_le_nat upt_add_eq_append upt_conv_Cons le_add_diff_inverse)
      then show ?thesis by simp
    qed
    finally show ?thesis .
  qed
  then have "map (\<lambda>ip. map ((!) cand) (filter (\<lambda>i. [0..<length cand] ! i = ip) [0..<length cand])) [0..<length cand]
      = map (\<lambda>ip. [cand ! ip]) [0..<length cand]" by simp
  also have "\<dots> = map (\<lambda>i. [i]) cand" by (rule nth_equalityI) auto
  finally show ?thesis by (simp add: group_by_parent_def sort_key_id_if_sorted)
qed

text \<open>C6. Partitioning ends only when it has nothing to do.  Once the costs of all pairs have been computed, one
  edge for each pair, makeParitions returns exactly if there is no pair or the number
  of pairs is at most k; then every candidate is a partition of its own.  Otherwise
  it never returns: its loop looks at the first edge again and again and never merges.\<close>

theorem makeParitions_returns_iff:
  assumes "edge_list p env cand w = (Inr (edgeList, cand'), w')"
  shows "makeParitions p env cand w =
      (if 2 \<le> length cand \<and> int (length cand choose 2) > pt_k p then None
       else Some (Inr (map (\<lambda>i. [i]) cand', cand'), w'))
    \<and> mset cand' = mset cand"
proof -
  note spec = edge_list_spec [OF assms]
  let ?es = "sort_edges edgeList" and ?n = "length cand'"
  let ?loop = "merge_loop p ?es 0 [0..<?n] (replicate ?n 0) (int (length edgeList))"
  have len: "length cand = ?n" using spec(3) by (metis size_mset)
  have run: "makeParitions p env cand w = (case ?loop of
             None \<Rightarrow> None
           | Some (Inl e) \<Rightarrow> Some (Inl e, w')
           | Some (Inr (mp, _, _)) \<Rightarrow>
               (case find_parents [0..<?n] mp of
                  None \<Rightarrow> None
                | Some (Inl e) \<Rightarrow> Some (Inl e, w')
                | Some (Inr par) \<Rightarrow> Some (Inr (group_by_parent par cand', cand'), w')))"
    by (simp add: makeParitions_def assms)
  have edges: "length edgeList = ?n choose 2" "\<forall>e \<in> set edgeList. e_a e < ?n \<and> e_b e < ?n"
    using spec(1,2) by (simp_all add: len)
  have two: "2 \<le> ?n \<longleftrightarrow> 0 < length edgeList" by (simp add: edges(1) zero_less_binomial_iff)
  have "makeParitions p env cand w =
      (if 2 \<le> ?n \<and> int (?n choose 2) > pt_k p then None else Some (Inr (map (\<lambda>i. [i]) cand', cand'), w'))"
  proof (cases "2 \<le> ?n \<and> int (?n choose 2) > pt_k p")
    case True
    then have e: "0 < length ?es" using two by simp
    then have "?es ! 0 \<in> set edgeList" by (metis nth_mem set_sort_edges)
    then have "e_a (?es ! 0) < ?n \<and> e_b (?es ! 0) < ?n" using edges(2) by blast
    then have "?loop \<noteq> Some y" for y
      using merge_loop_diverges [of p ?es 0 "[0..<?n]" "replicate ?n 0" "int (length edgeList)" y ?n] True e edges(1) by auto
    then have "?loop = None" by auto
    then show ?thesis using True run by simp
  next
    case False
    then have "length edgeList \<le> 0 \<or> int (length edgeList) \<le> pt_k p" unfolding edges(1) [symmetric] two by linarith
    then have "length ?es \<le> 0 \<or> int (length edgeList) \<le> pt_k p" by simp
    then have "?loop = Some (Inr ([0..<?n], replicate ?n 0, int (length edgeList)))" by (rule merge_loop_done)
    moreover have "find_parents [0..<?n] [0..<?n] = Some (Inr [0..<?n])" by (rule find_parents_root) simp
    ultimately show ?thesis using False run group_singletons [of cand'] by auto
  qed
  then show ?thesis using spec(3) unfolding len by blast
qed

text \<open>The partitioner of the tuner, on a server that is not asked.\<close>

definition silent_env :: "(Catalog, real) DbEnv" where
  "silent_env = \<lparr>db_exec = run_command False, db_explain = (\<lambda>_ _. None), parseFloat = (\<lambda>_. None)\<rparr>"

definition master_partitioner :: "string list \<Rightarrow> Partitioner" where
  "master_partitioner wb = \<lparr>pt_workBench = wb, pt_k = 2, pt_maxPartition = 10, pt_prev = 0\<rparr>"

theorem makeParitions_returns_iff_witness:
  "makeParitions (master_partitioner []) silent_env [0, 1, 2] products_world = None
   \<and> makeParitions (master_partitioner []) silent_env [0, 1] products_world = Some (Inr ([[0], [1]], [0, 1]), products_world)"
proof -
  have "edge_list (master_partitioner []) silent_env [0, 1, 2] products_world
      = (Inr ([new_Edge 0 1 0, new_Edge 0 2 0, new_Edge 1 2 0], [0, 1, 2]), products_world)"
    by (simp add: edge_list_def calculateWt_def master_partitioner_def jbind_def upt_rec numeral_eq_Suc)
  moreover have "edge_list (master_partitioner []) silent_env [0, 1] products_world
      = (Inr ([new_Edge 0 1 0], [0, 1]), products_world)"
    by (simp add: edge_list_def calculateWt_def master_partitioner_def jbind_def upt_rec)
  ultimately show ?thesis
    using makeParitions_returns_iff [of "master_partitioner []" silent_env "[0, 1, 2]" products_world]
      makeParitions_returns_iff [of "master_partitioner []" silent_env "[0, 1]" products_world]
    by (simp add: master_partitioner_def choose_two)
qed

end
