(* ===== verification/Tuner_Master.thy ===== *)
theory Tuner_Master
  imports Tuner_Partition "HOL-Library.Word" "HOL-Library.Sublist"
begin

text \<open>
  The online tuner (\<^verbatim>\<open>IndexTuner.java\<close>: analyze, feedback, recommend; \<^verbatim>\<open>Master.java\<close>).  The state of a
  tuner is changed in place, so that an exception leaves what was done before it.
\<close>

unbundle bit_operations_syntax

section \<open>Sets of indexes\<close>

text \<open>
  \<^verbatim>\<open>TreeSet<Index>\<close> as the list of its elements in order.  Elements are compared by
  \<^verbatim>\<open>compareTo\<close>, that is by their columns; an element that compares equal to one in the set is not
  added.
\<close>

fun tree_add :: "(iref \<Rightarrow> JIndex) \<Rightarrow> iref \<Rightarrow> iref list \<Rightarrow> iref list" where
  "tree_add h x [] = [x]"
| "tree_add h x (y # ys) =
     (let c = compareTo (h x) (h y)
      in if c < 0 then x # y # ys else if 0 < c then y # tree_add h x ys else y # ys)"

definition tree_addAll :: "(iref \<Rightarrow> JIndex) \<Rightarrow> iref list \<Rightarrow> iref list \<Rightarrow> iref list" where
  "tree_addAll h t xs = foldl (\<lambda>t x. tree_add h x t) t xs"

definition tree_contains :: "(iref \<Rightarrow> JIndex) \<Rightarrow> iref list \<Rightarrow> iref \<Rightarrow> bool" where
  "tree_contains h t x \<longleftrightarrow> (\<exists>y \<in> set t. compareTo (h x) (h y) = 0)"

definition intersect :: "(iref \<Rightarrow> JIndex) \<Rightarrow> iref list \<Rightarrow> iref list \<Rightarrow> iref list" where
  "intersect h s1 s2 = filter (tree_contains h (tree_addAll h [] s2)) s1"

definition union :: "(iref \<Rightarrow> JIndex) \<Rightarrow> iref list \<Rightarrow> iref list \<Rightarrow> iref list" where
  "union h s1 s2 = tree_addAll h (tree_addAll h [] s1) s2"

definition subtract :: "(iref \<Rightarrow> JIndex) \<Rightarrow> iref list \<Rightarrow> iref list \<Rightarrow> iref list" where
  "subtract h s1 s2 = filter (\<lambda>t. \<not> tree_contains h (tree_addAll h [] s2) t) s1"

section \<open>A tuner\<close>

text \<open>None is null.\<close>

record IndexTuner =
  it_allCand :: "iref list option"
  it_curCand :: "iref list list option"
  it_w :: "real list option"
  it_sugg :: "iref list option"

definition new_IndexTuner :: IndexTuner where
  "new_IndexTuner = \<lparr>it_allCand = None, it_curCand = None, it_w = None, it_sugg = None\<rparr>"

type_synonym ('db, 'a) tm = "('db world \<times> IndexTuner, 'a) jm"

definition in_world :: "('db world, 'a) jm \<Rightarrow> ('db world \<times> 't, 'a) jm" where
  "in_world m s = (case m (fst s) of (r, w') \<Rightarrow> (r, (w', snd s)))"

definition jread :: "('s \<Rightarrow> 'a) \<Rightarrow> ('s, 'a) jm" where
  "jread f s = (Inr (f s), s)"

definition jmodify :: "('s \<Rightarrow> 's) \<Rightarrow> ('s, unit) jm" where
  "jmodify f s = (Inr (), f s)"

text \<open>Dereferencing null throws, and so does an index out of range.\<close>

definition non_null :: "'a option \<Rightarrow> ('s, 'a) jm" where
  "non_null x = (case x of None \<Rightarrow> jthrow NullPointerException | Some y \<Rightarrow> jreturn y)"

definition jnth :: "'a list \<Rightarrow> nat \<Rightarrow> ('s, 'a) jm" where
  "jnth xs i = (if i < length xs then jreturn (xs ! i) else jthrow IndexOutOfBoundsException)"

text \<open>\<^verbatim>\<open>try ... catch (Exception e)\<close> around a computation.\<close>

definition jcatch :: "('s, 'a) jm \<Rightarrow> ('s, 'a option) jm" where
  "jcatch m s = (case m s of (Inl e, s') \<Rightarrow> (Inr None, s') | (Inr x, s') \<Rightarrow> (Inr (Some x), s'))"

definition get_curCand :: "('db, iref list list) tm" where
  "get_curCand = jbind (jread (it_curCand \<circ> snd)) non_null"

definition get_w :: "('db, real list) tm" where
  "get_w = jbind (jread (it_w \<circ> snd)) non_null"

definition set_w :: "nat \<Rightarrow> real \<Rightarrow> ('db, unit) tm" where
  "set_w i x = jmodify (\<lambda>(w, t). (w, t\<lparr>it_w := map_option (\<lambda>ws. ws[i := x]) (it_w t)\<rparr>))"

subsection \<open>Analysis of a query\<close>

text \<open>The costs of the query under all configurations; a failure is printed and its cost left out.\<close>

definition exec_times :: "('db, real) DbEnv \<Rightarrow> string \<Rightarrow> ('db, real option list) tm" where
  "exec_times env query =
     jbind get_curCand (\<lambda>confs. jfold (\<lambda>conf execTime.
       jbind (jcatch (in_world (whatIf env query conf))) (\<lambda>r.
         jreturn (case r of None \<Rightarrow> execTime | Some t \<Rightarrow> execTime @ [t]))) confs [])"

text \<open>
  The first loop adds the costs to the work function.  The list \<^verbatim>\<open>wdash\<close> is a copy of the list
  \<^verbatim>\<open>w\<close> with the same elements, so that writing to its elements writes to \<^verbatim>\<open>w\<close>.
\<close>

definition add_times :: "real option list \<Rightarrow> ('db, unit) tm" where
  "add_times execTime =
     jbind get_w (\<lambda>w0. jfold (\<lambda>i _.
       jbind get_w (\<lambda>w.
       jbind (jnth execTime i) (\<lambda>t.
       jbind (non_null t) (\<lambda>c. set_w i (w ! i + c))))) [0..<length w0] ())"

text \<open>The second loop: the cheapest way to be in a configuration, over the values as they are being replaced.\<close>

definition work_function :: "('db, real) DbEnv \<Rightarrow> ('db, unit) tm" where
  "work_function env =
     jbind get_w (\<lambda>w0. jfold (\<lambda>i _.
       jbind get_w (\<lambda>w.
       jbind (jfold (\<lambda>j mini.
         jbind get_curCand (\<lambda>confs.
         jbind (jnth confs i) (\<lambda>ci.
         jbind (jnth confs j) (\<lambda>cj.
         jbind (in_world (changeConfig env ci cj)) (\<lambda>d.
           jreturn (min mini (w ! j + d))))))) [0..<length w0] (w ! i)) (set_w i))) [0..<length w0] ())"

text \<open>The third loop: the value of a configuration and the cost of going to the suggestion.\<close>

definition switch_times :: "('db, real) DbEnv \<Rightarrow> real option list \<Rightarrow> ('db, real option list) tm" where
  "switch_times env execTime =
     jbind get_w (\<lambda>w0. jfold (\<lambda>i execTime.
       jbind get_w (\<lambda>w.
       jbind get_curCand (\<lambda>confs.
       jbind (jnth confs i) (\<lambda>ci.
       jbind (jread (it_sugg \<circ> snd)) (\<lambda>sugg.
       jbind (non_null sugg) (\<lambda>sg.
       jbind (in_world (changeConfig env ci sg)) (\<lambda>d.
       jbind (jnth execTime i) (\<lambda>t.
       jbind (non_null t) (\<lambda>_.
         jreturn (execTime[i := Some (w ! i + d)])))))))))) [0..<length w0] execTime)"

text \<open>The last two loops: the least value, and the last configuration that has it.\<close>

definition pick_suggestion :: "real option list \<Rightarrow> ('db, unit) tm" where
  "pick_suggestion execTime =
     jbind get_w (\<lambda>w.
     jbind (jbind (jnth execTime 0) non_null) (\<lambda>t0.
     jbind (jfold (\<lambda>i mini.
       jbind (jbind (jnth execTime i) non_null) (\<lambda>t. jreturn (min mini t))) [0..<length w] t0) (\<lambda>mini.
     jfold (\<lambda>i _.
       jbind (jbind (jnth execTime i) non_null) (\<lambda>t.
         if t = mini
         then jbind get_curCand (\<lambda>confs. jbind (jnth confs i) (\<lambda>ci.
                jmodify (\<lambda>(w, t). (w, t\<lparr>it_sugg := Some ci\<rparr>))))
         else jreturn ())) [0..<length w] ())))"

definition analyze :: "('db, real) DbEnv \<Rightarrow> string \<Rightarrow> ('db, unit) tm" where
  "analyze env query =
     jbind (exec_times env query) (\<lambda>execTime.
     jbind (add_times execTime) (\<lambda>_.
     jbind (work_function env) (\<lambda>_.
     jbind (switch_times env execTime) pick_suggestion)))"

subsection \<open>Feedback\<close>

text \<open>The position of a list in a list of lists, or -1.\<close>

definition index_of :: "'a \<Rightarrow> 'a list \<Rightarrow> int" where
  "index_of x xs = (let n = length (takeWhile (\<lambda>y. y \<noteq> x) xs) in if n < length xs then int n else -1)"

text \<open>
  One configuration.  The variable \<^verbatim>\<open>diff\<close> is the element of \<^verbatim>\<open>w\<close>, not a copy of it: the differences are
  added to the work function itself, and the value of the suggestion is read after that.
\<close>

definition feedback_step ::
  "('db, real) DbEnv \<Rightarrow> iref list \<Rightarrow> iref list \<Rightarrow> int \<Rightarrow> iref list \<Rightarrow> nat \<Rightarrow> ('db, unit) tm" where
  "feedback_step env fPlus fMinusSet indexSugg sugg i =
     jbind get_curCand (\<lambda>confs.
     jbind (jnth confs i) (\<lambda>s.
     jbind (jread (w_heap \<circ> fst)) (\<lambda>h.
     let sCons = fPlus @ filter (\<lambda>ix. ix \<notin> set fPlus \<and> \<not> tree_contains h fMinusSet ix) s
     in jbind (in_world (changeConfig env s sCons)) (\<lambda>d1.
        jbind (in_world (changeConfig env sCons s)) (\<lambda>d2.
        jbind get_w (\<lambda>w.
        jbind (jnth w i) (\<lambda>x.
        jbind (in_world (changeConfig env s sugg)) (\<lambda>d3.
        jbind (set_w i (x + d3)) (\<lambda>_.
        jbind get_w (\<lambda>w.
        jbind (jnth w (nat indexSugg)) (\<lambda>y.
        jbind (set_w i (x + d3 + y)) (\<lambda>_.
          let diff = x + d3 + y; minDiff = d1 + d2
          in if diff < minDiff then set_w i (diff + minDiff - diff) else jreturn ())))))))))))) "

definition feedback :: "('db, real) DbEnv \<Rightarrow> iref list \<Rightarrow> iref list \<Rightarrow> ('db, unit) tm" where
  "feedback env fPlus fMinus =
     jbind (jread (w_heap \<circ> fst)) (\<lambda>h.
     jbind (jbind (jread (it_sugg \<circ> snd)) non_null) (\<lambda>sugg.
     let fMinusSet = tree_addAll h [] fMinus;
         newList = fPlus @ filter (\<lambda>ix. \<not> tree_contains h fMinusSet ix) sugg
     in jbind get_curCand (\<lambda>confs.
        let indexSugg = index_of sugg confs
        in jbind (if indexSugg = -1 then jreturn ()
                  else jfold (\<lambda>i _. feedback_step env fPlus fMinusSet indexSugg sugg i) [0..<length confs] ()) (\<lambda>_.
           jmodify (\<lambda>(w, t). (w, t\<lparr>it_sugg := Some newList\<rparr>))))))"

definition recommend :: "('db, real) DbEnv \<Rightarrow> string \<Rightarrow> iref list \<Rightarrow> iref list \<Rightarrow> ('db, iref list option) tm" where
  "recommend env query fPlus fMinus =
     jbind (analyze env query) (\<lambda>_.
     jbind (feedback env fPlus fMinus) (\<lambda>_. jread (it_sugg \<circ> snd)))"

section \<open>The master\<close>

text \<open>
  The list \<^verbatim>\<open>start\<close> is given by the caller; it may be the list of hypothetical indexes of
  the connection itself.
\<close>

datatype list_ref = Own "iref list" | CurHypConfig

record 'db Master =
  ms_world :: "'db world"
  ms_workbench :: "string list"
  ms_prevallCand :: "iref list option"
  ms_allcand :: "iref list option"
  ms_start :: list_ref
  ms_curCand :: "iref list option"
  ms_ik :: "IndexTuner list"
  ms_overallSugg :: "iref list"
  ms_first :: bool

definition deref :: "list_ref \<Rightarrow> 'db world \<Rightarrow> iref list" where
  "deref r w = (case r of Own is \<Rightarrow> is | CurHypConfig \<Rightarrow> w_curHypConfig w)"

definition new_Master :: "'db world \<Rightarrow> list_ref \<Rightarrow> 'db Master" where
  "new_Master w startx =
     \<lparr>ms_world = w, ms_workbench = [], ms_prevallCand = Some [], ms_allcand = Some [], ms_start = startx, ms_curCand = None,
      ms_ik = [new_IndexTuner, new_IndexTuner], ms_overallSugg = deref startx w, ms_first = True\<rparr>"

text \<open>A computation of the connection, and one of the i-th tuner.\<close>

definition on_world :: "('db world, 'a) jm \<Rightarrow> ('db Master, 'a) jm" where
  "on_world m s = (case m (ms_world s) of (r, w') \<Rightarrow> (r, s\<lparr>ms_world := w'\<rparr>))"

definition on_tuner :: "nat \<Rightarrow> ('db, 'a) tm \<Rightarrow> ('db Master, 'a) jm" where
  "on_tuner i m s =
     (case m (ms_world s, ms_ik s ! i) of (r, (w', t')) \<Rightarrow> (r, s\<lparr>ms_world := w', ms_ik := (ms_ik s)[i := t']\<rparr>))"

definition set_tuner :: "nat \<Rightarrow> (IndexTuner \<Rightarrow> IndexTuner) \<Rightarrow> ('db Master, unit) jm" where
  "set_tuner i f = jmodify (\<lambda>s. s\<lparr>ms_ik := (ms_ik s)[i := f (ms_ik s ! i)]\<rparr>)"

text \<open>The contribution of a tuner to the value of a configuration.\<close>

definition old_value :: "(iref \<Rightarrow> JIndex) \<Rightarrow> iref list \<Rightarrow> IndexTuner \<Rightarrow> real \<Rightarrow> ('s, real) jm" where
  "old_value h ix t res =
     jbind (non_null (it_allCand t)) (\<lambda>allCand.
     jbind (non_null (it_curCand t)) (\<lambda>confs.
     let ikp = index_of (intersect h allCand ix) confs
     in if ikp \<noteq> -1
        then jbind (non_null (it_w t)) (\<lambda>w. jbind (jnth w (nat ikp)) (\<lambda>x. jreturn (res + x)))
        else jreturn res))"

definition updateCand :: "('db, real) DbEnv \<Rightarrow> iref list \<Rightarrow> iref list \<Rightarrow> ('db Master, real) jm" where
  "updateCand env ix dm =
     jbind (jread id) (\<lambda>s.
     if ms_first s then on_world (changeConfig env (deref (ms_start s) (ms_world s)) ix)
     else let h = w_heap (ms_world s)
          in jbind (jfold (old_value h ix) (ms_ik s) 0) (\<lambda>res.
             jbind (non_null (ms_prevallCand s)) (\<lambda>prevallCand.
             let target = subtract h ix prevallCand;
                 curi = subtract h (intersect h (deref (ms_start s) (ms_world s)) dm) prevallCand
             in jbind (on_world (changeConfig env curi target)) (\<lambda>d. jreturn (res + d)))))"

text \<open>
  The configurations of a partition: the numbers below \<^verbatim>\<open>1 << n\<close>, a shift of an \<^verbatim>\<open>int\<close> by n modulo 32,
  and the elements at the positions of their bits.
\<close>

definition subset_bound :: "nat \<Rightarrow> int" where
  "subset_bound n = sint (push_bit (n mod 32) (1 :: 32 word))"

fun pick_bits :: "nat \<Rightarrow> 'a list \<Rightarrow> 'a list" where
  "pick_bits px [] = []"
| "pick_bits px (x # xs) = (if odd px then [x] else []) @ pick_bits (px div 2) xs"

definition configurations :: "'a list \<Rightarrow> 'a list list" where
  "configurations ix = map (\<lambda>j. pick_bits j ix) [1..<nat (subset_bound (length ix))]"

definition deploy_part :: "('db, real) DbEnv \<Rightarrow> nat \<Rightarrow> iref list \<Rightarrow> ('db Master, unit) jm" where
  "deploy_part env i ix =
     jbind (set_tuner i (\<lambda>t. t\<lparr>it_allCand := Some ix\<rparr>)) (\<lambda>_.
     jbind (jfold (\<lambda>pc (subSet, timeSet).
       jbind (updateCand env pc ix) (\<lambda>d. jreturn (subSet @ [pc], timeSet @ [d]))) (configurations ix) ([], []))
     (\<lambda>(subSet, timeSet).
     jbind (jread id) (\<lambda>s.
       set_tuner i (\<lambda>t. t\<lparr>it_curCand := Some subSet, it_w := Some timeSet,
         it_sugg := Some (intersect (w_heap (ms_world s)) ix (ms_overallSugg s))\<rparr>))))"

definition deploy :: "('db, real) DbEnv \<Rightarrow> iref list list \<Rightarrow> ('db Master, unit) jm" where
  "deploy env part =
     jbind (jfold (\<lambda>i _. deploy_part env i (part ! i)) [0..<min 2 (length part)] ()) (\<lambda>_.
       jmodify (\<lambda>s. s\<lparr>ms_first := False\<rparr>))"

text \<open>The suggestions of the first tuners, as one set.\<close>

definition join_suggestions :: "nat \<Rightarrow> ('db Master, unit) jm" where
  "join_suggestions n =
     jbind (jmodify (\<lambda>s. s\<lparr>ms_overallSugg := []\<rparr>)) (\<lambda>_.
       jfold (\<lambda>i _. jbind (jread id) (\<lambda>s.
         jbind (non_null (it_sugg (ms_ik s ! i))) (\<lambda>sugg.
           jmodify (\<lambda>s. s\<lparr>ms_overallSugg := union (w_heap (ms_world s)) (ms_overallSugg s) sugg\<rparr>)))) [0..<n] ())"

text \<open>
  Adding a query; None when it does not return.  The partitioner works on the list of
  candidates itself and may change it.
\<close>

definition addQuery ::
  "(real, iref list) HashOrder \<Rightarrow> (string \<Rightarrow> parsed) \<Rightarrow> ('db, real) DbEnv \<Rightarrow> string \<Rightarrow> 'db Master
     \<Rightarrow> ((jexn + unit) \<times> 'db Master) option" where
  "addQuery ord parse env query s0 =
     (let s1 = s0\<lparr>ms_workbench := ms_workbench s0 @ [query], ms_prevallCand := ms_allcand s0\<rparr>;
          W = ms_workbench s1
      in case jbind (on_world (CISelection ord parse env W)) (\<lambda>CI.
              jbind (jmodify (\<lambda>s. s\<lparr>ms_curCand := Some CI\<rparr>)) (\<lambda>_.
              jbind (on_world (enumerate ord env 10 CI W)) (\<lambda>S.
              jbind (jmodify (\<lambda>s. s\<lparr>ms_curCand := S, ms_allcand := S\<rparr>)) (\<lambda>_. non_null S)))) s1 of
           (Inl e, s2) \<Rightarrow> Some (Inl e, s2)
         | (Inr cand, s2) \<Rightarrow>
             (case makeParitions (master_partitioner W) env cand (ms_world s2) of
                None \<Rightarrow> None
              | Some (Inl e, w) \<Rightarrow> Some (Inl e, s2\<lparr>ms_world := w\<rparr>)
              | Some (Inr (ps, cand'), w) \<Rightarrow>
                  Some (jbind (deploy env ps) (\<lambda>_.
                        jbind (jfold (\<lambda>i _. on_tuner i (analyze env query)) [0..<min 2 (length ps)] ()) (\<lambda>_.
                          join_suggestions (min 2 (length ps))))
                    (s2\<lparr>ms_world := w, ms_curCand := Some cand', ms_allcand := Some cand'\<rparr>))))"

definition suggest :: "('db, real) DbEnv \<Rightarrow> iref list \<Rightarrow> iref list \<Rightarrow> ('db Master, iref list) jm" where
  "suggest env fPlus fMinus =
     jbind (jfold (\<lambda>i _. on_tuner i (feedback env fPlus fMinus)) [0..<2] ()) (\<lambda>_.
     jbind (join_suggestions 2) (\<lambda>_. jread ms_overallSugg))"

section \<open>Sets of indexes are sets of column lists\<close>

text \<open>Indexes are ordered by the number of their columns and then by the columns.\<close>

definition cols :: "(iref \<Rightarrow> JIndex) \<Rightarrow> iref \<Rightarrow> string list" where
  "cols h i = ji_column_names (h i)"

definition col_less :: "string list \<Rightarrow> string list \<Rightarrow> bool" where
  "col_less xs ys \<longleftrightarrow> length xs < length ys \<or> length xs = length ys \<and> xs < ys"

lemma compare_columns_sign:
  assumes "length xs = length ys"
  shows "compare_columns xs ys < 0 \<longleftrightarrow> xs < ys" "compare_columns xs ys = 0 \<longleftrightarrow> xs = ys"
  using assms by (induction xs ys rule: list_induct2) auto

lemma compareTo_sign:
  "compareTo (h x) (h y) < 0 \<longleftrightarrow> col_less (cols h x) (cols h y)"
  "compareTo (h x) (h y) = 0 \<longleftrightarrow> cols h x = cols h y"
  using compare_columns_sign [of "cols h x" "cols h y"]
  by (auto simp: compareTo_def col_less_def cols_def)

lemma col_less_trans: "col_less xs ys \<Longrightarrow> col_less ys zs \<Longrightarrow> col_less xs zs"
  by (auto simp: col_less_def)

lemma col_less_cases: "col_less xs ys \<or> xs = ys \<or> col_less ys xs"
  by (auto simp: col_less_def)

lemma col_less_irrefl [simp]: "\<not> col_less xs xs"
  by (simp add: col_less_def)

lemma tree_add_simps:
  "tree_add h x (y # ys) =
     (if col_less (cols h x) (cols h y) then x # y # ys
      else if cols h x = cols h y then y # ys else y # tree_add h x ys)"
proof -
  have "0 < compareTo (h x) (h y) \<longleftrightarrow> \<not> compareTo (h x) (h y) < 0 \<and> compareTo (h x) (h y) \<noteq> 0" by auto
  then show ?thesis by (simp add: Let_def compareTo_sign)
qed

declare tree_add.simps(2) [simp del]

definition tree_sorted :: "(iref \<Rightarrow> JIndex) \<Rightarrow> iref list \<Rightarrow> bool" where
  "tree_sorted h t \<longleftrightarrow> sorted_wrt (\<lambda>x y. col_less (cols h x) (cols h y)) t"

lemma set_tree_add:
  assumes "tree_sorted h t"
  shows "set (tree_add h x t) = (if cols h x \<in> cols h ` set t then set t else insert x (set t))"
  using assms
proof (induction t)
  case (Cons y ys)
  have "cols h x \<notin> cols h ` set (y # ys)" if "col_less (cols h x) (cols h y)"
    using Cons.prems that by (auto simp: tree_sorted_def dest: col_less_trans)
  then show ?case using Cons by (auto simp: tree_add_simps tree_sorted_def)
qed simp

lemma tree_sorted_add:
  assumes "tree_sorted h t"
  shows "tree_sorted h (tree_add h x t)"
  using assms
proof (induction t)
  case (Cons y ys)
  have "tree_sorted h ys" using Cons.prems by (simp add: tree_sorted_def)
  then show ?case
    using Cons set_tree_add [of h ys x] col_less_cases [of "cols h x" "cols h y"]
    by (auto simp: tree_add_simps tree_sorted_def dest: col_less_trans split: if_splits)
qed (simp add: tree_sorted_def)

text \<open>Adding a list: the first element with new columns is added.\<close>

lemma tree_addAll_spec:
  assumes "tree_sorted h t"
  shows "tree_sorted h (tree_addAll h t xs) \<and> cols h ` set (tree_addAll h t xs) = cols h ` set t \<union> cols h ` set xs
    \<and> (\<forall>y \<in> set (tree_addAll h t xs). y \<in> set t
         \<or> (\<exists>us vs. xs = us @ y # vs \<and> cols h y \<notin> cols h ` set t \<union> cols h ` set us))"
proof (induction xs rule: rev_induct)
  case Nil
  then show ?case using assms by (simp add: tree_addAll_def)
next
  case (snoc x xs)
  let ?t = "tree_addAll h t xs"
  have step: "tree_addAll h t (xs @ [x]) = tree_add h x ?t" by (simp add: tree_addAll_def)
  have s: "tree_sorted h ?t" and c: "cols h ` set ?t = cols h ` set t \<union> cols h ` set xs"
    and f: "\<And>y. y \<in> set ?t \<Longrightarrow> y \<in> set t \<or> (\<exists>us vs. xs = us @ y # vs \<and> cols h y \<notin> cols h ` set t \<union> cols h ` set us)"
    using snoc by auto
  have "y \<in> set t \<or> (\<exists>us vs. xs @ [x] = us @ y # vs \<and> cols h y \<notin> cols h ` set t \<union> cols h ` set us)"
    if y: "y \<in> set (tree_add h x ?t)" for y
  proof (cases "y \<in> set ?t")
    case True
    then show ?thesis using f by fastforce
  next
    case False
    then have "y = x" "cols h x \<notin> cols h ` set ?t" using y set_tree_add [OF s, of x] by (auto split: if_splits)
    then show ?thesis using c by blast
  qed
  moreover have "cols h ` set (tree_add h x ?t) = cols h ` set t \<union> cols h ` set (xs @ [x])"
    using set_tree_add [OF s, of x] c by auto
  ultimately show ?case unfolding step using tree_sorted_add [OF s] by blast
qed

lemma tree_contains_iff: "tree_contains h t x \<longleftrightarrow> cols h x \<in> cols h ` set t"
  by (auto simp: tree_contains_def compareTo_sign)

lemma tree_set_cols: "cols h ` set (tree_addAll h [] xs) = cols h ` set xs"
  using tree_addAll_spec [of h "[]" xs] by (simp add: tree_sorted_def)

lemma tree_sorted_distinct: "tree_sorted h t \<Longrightarrow> distinct (map (cols h) t)"
  by (induction t) (auto simp: tree_sorted_def)

text \<open>C8. Sets of indexes are sets of column lists.  Intersection and difference keep the indexes whose columns
  occur, or do not occur, in the other list; the union has, in the order of the columns,
  one index for each list of columns of the two lists, the first that has it.  The table of an
  index plays no part, so that of two indexes on different tables with the same
  column names one is lost.\<close>

theorem index_sets_by_columns:
  "intersect h s1 s2 = filter (\<lambda>i. cols h i \<in> cols h ` set s2) s1
   \<and> subtract h s1 s2 = filter (\<lambda>i. cols h i \<notin> cols h ` set s2) s1
   \<and> cols h ` set (union h s1 s2) = cols h ` set (s1 @ s2)
   \<and> sorted_wrt (\<lambda>x y. col_less (cols h x) (cols h y)) (union h s1 s2) \<and> distinct (map (cols h) (union h s1 s2))
   \<and> (\<forall>y \<in> set (union h s1 s2). \<exists>us vs. s1 @ s2 = us @ y # vs \<and> cols h y \<notin> cols h ` set us)"
proof -
  have u: "union h s1 s2 = tree_addAll h [] (s1 @ s2)" by (simp add: union_def tree_addAll_def)
  have "tree_sorted h []" by (simp add: tree_sorted_def)
  note spec = tree_addAll_spec [OF this, of "s1 @ s2"]
  show ?thesis
    unfolding u intersect_def subtract_def tree_contains_iff tree_set_cols
    using spec tree_sorted_distinct [of h "tree_addAll h [] (s1 @ s2)"] by (auto simp: tree_sorted_def)
qed

text \<open>Two indexes on columns of the same name in different tables.\<close>

definition same_columns :: "iref \<Rightarrow> JIndex" where
  "same_columns i = new_Index i [] (if i = 0 then ''orders'' else ''customers'') 0 ''customerid'' True ''it_dellstore2'' False"

lemma same_columns_cols: "cols same_columns i = [''customerid'']"
  by (simp add: cols_def same_columns_def new_Index_def split_comma_def)

theorem index_sets_by_columns_witness:
  "union same_columns [0] [1] = [0] \<and> ji_table_name (same_columns 0) \<noteq> ji_table_name (same_columns 1)"
proof -
  let ?u = "union same_columns [0] [1]"
  have u: "cols same_columns ` set ?u = cols same_columns ` set ([0] @ [1])" "distinct (map (cols same_columns) ?u)"
    "\<forall>y \<in> set ?u. \<exists>us vs. [0] @ [1] = us @ y # vs \<and> cols same_columns y \<notin> cols same_columns ` set us"
    using index_sets_by_columns [of same_columns "[0]" "[1]"] by blast+
  have first: "y = 0" if y: "y \<in> set ?u" for y
  proof -
    obtain us vs where "[0] @ [1] = us @ y # vs" "cols same_columns y \<notin> cols same_columns ` set us"
      using u(3) y by blast
    then show ?thesis by (cases us) (auto simp: same_columns_cols)
  qed
  have "?u \<noteq> []" using u(1) by auto
  then obtain v vs where v: "?u = v # vs" by (cases ?u) auto
  have "vs = []"
  proof (cases vs)
    case (Cons x xs)
    then show ?thesis using u(2) v by (simp add: same_columns_cols)
  qed simp
  then have "?u = [0]" using first v by simp
  then show ?thesis by (simp add: same_columns_def new_Index_def)
qed

section \<open>The configurations of a partition\<close>

lemma subset_bound_small: "n \<le> 30 \<Longrightarrow> subset_bound n = 2 ^ n"
proof -
  assume n: "n \<le> 30"
  have "(2 :: int) ^ n < 2 ^ 31" using n by (intro power_strict_increasing) simp_all
  then have "signed_take_bit 31 (2 ^ n :: int) = 2 ^ n"
    by (intro signed_take_bit_int_eq_self) (auto intro: order_trans [of _ 0])
  then have "sint (word_of_int (2 ^ n) :: 32 word) = 2 ^ n"
    by (subst signed_of_int) simp
  then show ?thesis using n by (simp add: subset_bound_def push_bit_eq_mult)
qed

lemma subset_bound_31: "subset_bound 31 = - (2 ^ 31)"
  by (simp add: subset_bound_def)

lemma pick_bits_subseq: "pick_bits j xs \<in> set (subseqs xs)"
  by (induction xs arbitrary: j) (auto simp: Let_def)

lemma pick_bits_surj:
  assumes "ys \<in> set (subseqs xs)"
  shows "\<exists>j < 2 ^ length xs. pick_bits j xs = ys \<and> (ys \<noteq> [] \<longrightarrow> 0 < j)"
  using assms
proof (induction xs arbitrary: ys)
  case (Cons x xs)
  then consider zs where "ys = x # zs" "zs \<in> set (subseqs xs)" | "ys \<in> set (subseqs xs)"
    by (auto simp: Let_def)
  then show ?case
  proof cases
    case 1
    obtain j where "j < 2 ^ length xs" "pick_bits j xs = zs" using Cons.IH [OF 1(2)] by blast
    then show ?thesis using 1(1) by (intro exI [of _ "Suc (2 * j)"]) auto
  next
    case 2
    obtain j where "j < 2 ^ length xs" "pick_bits j xs = ys" "ys \<noteq> [] \<longrightarrow> 0 < j" using Cons.IH [OF 2] by blast
    then show ?thesis by (intro exI [of _ "2 * j"]) auto
  qed
qed simp

lemma pick_bits_empty: "j < 2 ^ length xs \<Longrightarrow> pick_bits j xs = [] \<Longrightarrow> j = 0"
proof (induction xs arbitrary: j)
  case (Cons x xs)
  have "even j" "pick_bits (j div 2) xs = []" using Cons.prems(2) by (auto split: if_splits)
  moreover have "j div 2 < 2 ^ length xs" using Cons.prems(1) by (simp add: less_mult_imp_div_less)
  ultimately show ?case using Cons.IH [of "j div 2"] by (auto elim: evenE)
qed simp

text \<open>The configurations of a partition.  For a partition of at most 30 indexes they are all its non-empty
  subsequences, 2 to the n minus 1 numbers in binary order; a partition of 31 indexes has
  none, because the bound of the loop overflows.\<close>

theorem configurations_enumerate:
  "(length ix \<le> 30 \<longrightarrow> set (configurations ix) = set (subseqs ix) - {[]} \<and> length (configurations ix) = 2 ^ length ix - 1)
   \<and> (length ix = 31 \<longrightarrow> configurations ix = [])"
proof (intro conjI impI)
  assume n: "length ix \<le> 30"
  have b: "configurations ix = map (\<lambda>j. pick_bits j ix) [1..<2 ^ length ix]"
    using subset_bound_small [OF n] by (simp add: configurations_def nat_power_eq)
  show "length (configurations ix) = 2 ^ length ix - 1" by (simp add: b)
  show "set (configurations ix) = set (subseqs ix) - {[]}"
  proof (intro equalityI subsetI)
    fix ys assume "ys \<in> set (configurations ix)"
    then obtain j where "j < 2 ^ length ix" "0 < j" "ys = pick_bits j ix" by (auto simp: b)
    then show "ys \<in> set (subseqs ix) - {[]}" using pick_bits_subseq [of j ix] pick_bits_empty [of j ix] by auto
  next
    fix ys assume "ys \<in> set (subseqs ix) - {[]}"
    then obtain j where "j < 2 ^ length ix" "pick_bits j ix = ys" "0 < j" using pick_bits_surj by blast
    then show "ys \<in> set (configurations ix)" by (auto simp: b)
  qed
next
  assume "length ix = 31"
  then show "configurations ix = []" by (simp add: configurations_def subset_bound_31)
qed

theorem configurations_enumerate_witness:
  "set (configurations [4, 7 :: iref]) = {[4], [7], [4, 7]}"
  using configurations_enumerate [of "[4, 7]"] by auto

section \<open>A query with too few conditions stops the tuner for good\<close>

definition too_few :: "(string \<Rightarrow> parsed) \<Rightarrow> string \<Rightarrow> bool" where
  "too_few parse q \<longleftrightarrow> (case parse q of Condition nodes \<Rightarrow> all_qualified nodes \<and> length (comparisons nodes) < 2 | _ \<Rightarrow> False)"

lemma CISelection_too_few:
  assumes "iterates ord" "q \<in> set workload" "too_few parse q"
  shows "\<exists>e w'. CISelection ord parse env workload w = (Inl e, w')"
proof -
  obtain qs rest where split: "workload = qs @ q # rest" using assms(2) by (auto simp: in_set_conv_decomp)
  obtain nodes where q: "parse q = Condition nodes" "all_qualified nodes" "length (comparisons nodes) < 2"
    using assms(3) by (auto simp: too_few_def split: parsed.splits)
  obtain r w1 where r: "CISelection ord parse env qs w = (r, w1)" by fastforce
  show ?thesis
  proof (cases r)
    case (Inl e)
    then show ?thesis using r unfolding split CISelection_append by (simp add: jbind_def)
  next
    case (Inr CI)
    then have "CISelection ord parse env qs w = (Inr CI, w1)" using r by simp
    from CISelection_few [where parse = parse and q = q, OF assms(1) this q, of rest] show ?thesis unfolding split by blast
  qed
qed

text \<open>C7. The tuner does not recover from a query with fewer than two comparisons.  Once the workbench contains such a
  query, adding this or any other query throws; the query stays in the workbench, and the tuners and the suggestion stay as they
  were.\<close>

theorem addQuery_never_recovers:
  assumes "iterates ord" "q \<in> set (ms_workbench s @ [query])" "too_few parse q"
  shows "\<exists>e s'. addQuery ord parse env query s = Some (Inl e, s')
    \<and> ms_workbench s' = ms_workbench s @ [query] \<and> ms_ik s' = ms_ik s \<and> ms_overallSugg s' = ms_overallSugg s"
proof -
  obtain e w' where "CISelection ord parse env (ms_workbench s @ [query]) (ms_world s) = (Inl e, w')"
    using CISelection_too_few [OF assms] by blast
  then show ?thesis by (simp add: addQuery_def Let_def jbind_def on_world_def)
qed

text \<open>A workload whose only query has one comparison.\<close>

definition one_comparison :: "string \<Rightarrow> parsed" where
  "one_comparison q = Condition [(simple_comparison_t, ''products.title'')]"

theorem addQuery_never_recovers_witness:
  "\<exists>e s'. addQuery sorted_order one_comparison silent_env ''q2'' (new_Master products_world CurHypConfig\<lparr>ms_workbench := [''q1'']\<rparr>)
     = Some (Inl e, s')"
proof -
  have "too_few one_comparison ''q1''"
    by (simp add: too_few_def one_comparison_def all_qualified_def comparisons_def is_compare_condition_def
      split_dot_def drop_trailing_empty_def)
  then show ?thesis
    using addQuery_never_recovers [OF iterates_sorted, of "''q1''" "new_Master products_world CurHypConfig\<lparr>ms_workbench := [''q1'']\<rparr>"
      "''q2''" one_comparison silent_env] by auto
qed

section \<open>The cost of changing the configuration\<close>

text \<open>The query whose cost with and without an index is the cost of creating it.\<close>

definition create_query :: "JIndex \<Rightarrow> string" where
  "create_query x = ''SELECT '' @ getColumnNames x @ '' FROM '' @ ji_table_name x @ '' ORDER BY '' @ getColumnNames x"

definition with_index :: "JIndex \<Rightarrow> (string \<Rightarrow> (string \<times> string list) option) \<Rightarrow> string \<Rightarrow> (string \<times> string list) option" where
  "with_index x v = v(index_name x \<mapsto> (ji_table_name x, ji_column_names x))"

text \<open>
  The cost of going from one configuration to another: what each new index saves on its
  query, on top of the indexes that are kept.
\<close>

definition switch_cost ::
  "((string \<Rightarrow> (string \<times> string list) option) \<Rightarrow> string \<Rightarrow> 'c :: {zero, plus, minus}) \<Rightarrow> (iref \<Rightarrow> JIndex)
     \<Rightarrow> (string \<Rightarrow> (string \<times> string list) option) \<Rightarrow> iref list \<Rightarrow> iref list \<Rightarrow> 'c" where
  "switch_cost price h base cur target =
     (let v = with_indexes h (filter (\<lambda>t. t \<in> set cur) target) base
      in foldl (\<lambda>c i. c + (price v (create_query (h i)) - price (with_index (h i) v) (create_query (h i)))) 0
           (filter (\<lambda>t. t \<notin> set cur) target))"

text \<open>No two candidates are on the same columns of the same table.\<close>

definition different_indexes :: "(iref \<Rightarrow> JIndex) \<Rightarrow> iref list \<Rightarrow> bool" where
  "different_indexes h cand \<longleftrightarrow> inj_on (\<lambda>i. (ji_table_name (h i), ji_column_names (h i))) (set cand)"

lemma equals_names_creatable:
  assumes "creatable t d x" "creatable t d y"
  shows "equals_names x (ji_dbname y) (ji_table_name y) (getColumnNames y)
    \<longleftrightarrow> ji_table_name x = ji_table_name y \<and> ji_column_names x = ji_column_names y"
proof -
  have c: "ji_column_names y \<noteq> []" "\<forall>c \<in> set (ji_column_names y). plain c" using assms(2) by (auto simp: creatable_def)
  have "split_comma (getColumnNames y) = ji_column_names y"
    using split_join [OF c] getColumnNames_plain [OF c(2)] by simp
  moreover have "ji_dbname x = ji_dbname y" using assms by (simp add: creatable_def)
  ultimately show ?thesis by (auto simp: equals_names_def)
qed

lemma config_split:
  assumes "\<forall>i \<in> set cand. creatable t d (h i)" "different_indexes h cand"
    and "set cur \<subseteq> set cand" "distinct cur" "set target \<subseteq> set cand"
  shows "config_common h cur target = filter (\<lambda>t. t \<in> set cur) target"
    "config_new h cur target = filter (\<lambda>t. t \<notin> set cur) target"
proof -
  have eq: "equals_names (h c) (ji_dbname (h t)) (ji_table_name (h t)) (getColumnNames (h t)) \<longleftrightarrow> c = t"
    if "c \<in> set cand" "t \<in> set cand" for c t
    using equals_names_creatable [of _ d "h c" "h t"] assms(1,2) that by (auto simp: different_indexes_def inj_on_def)
  have once: "filter (\<lambda>c. c = t) cur = (if t \<in> set cur then [t] else [])" for t
    using assms(4) by (induction cur) auto
  have one: "filter (\<lambda>c. equals_names (h c) (ji_dbname (h t)) (ji_table_name (h t)) (getColumnNames (h t))) cur
      = (if t \<in> set cur then [t] else [])" if t: "t \<in> set target" for t
  proof -
    have "filter (\<lambda>c. equals_names (h c) (ji_dbname (h t)) (ji_table_name (h t)) (getColumnNames (h t))) cur
        = filter (\<lambda>c. c = t) cur"
      using t assms(3,5) eq by (intro filter_cong) auto
    then show ?thesis by (simp only: once)
  qed
  have "config_common h cur target = concat (map (\<lambda>t. if t \<in> set cur then [t] else []) target)"
    unfolding config_common_def using one by (intro arg_cong [where f = concat] map_cong) auto
  also have "\<dots> = filter (\<lambda>t. t \<in> set cur) target" by (induction target) auto
  finally show "config_common h cur target = filter (\<lambda>t. t \<in> set cur) target" .
  show "config_new h cur target = filter (\<lambda>t. t \<notin> set cur) target"
    unfolding config_new_def using assms(3,5) eq by (intro filter_cong) (auto simp: subset_iff)
qed

text \<open>A candidate outside the current configuration may get its name without being there.\<close>

lemma searching_named:
  assumes s: "searching ok hyps tabs names cand w0 w" and i: "i \<in> set cand" "i \<notin> set (w_curHypConfig w)"
    and w': "w' = w\<lparr>w_db := db', w_heap := (w_heap w)(i := (w_heap w i)\<lparr>ji_name := index_name (w_heap w i), ji_materialized := False\<rparr>)\<rparr>"
    and db': "ok db'" "hyps db' = hyps (w_db w)" "tabs db' = tabs (w_db w)" "names db' = names (w_db w)"
  shows "searching ok hyps tabs names cand w0 w'"
proof -
  let ?x = "w_heap w i" and ?h = "w_heap w"
  have s1: "in_sync (hyps (w_db w)) w" "simulable (tabs (w_db w)) (names (w_db w)) w cand"
    using s by (auto simp: searching_def)
  then have x: "creatable (tabs (w_db w)) (w_dbname w) ?x" using i by (auto simp: simulable_def)
  have h2: "index_name (w_heap w' j) = index_name (?h j)" "ji_table_name (w_heap w' j) = ji_table_name (?h j)"
    "ji_column_names (w_heap w' j) = ji_column_names (?h j)" "creatable t d (w_heap w' j) = creatable t d (?h j)"
    "ji_materialized (w_heap w' j) \<Longrightarrow> ji_materialized (?h j)" for j t d
  proof -
    have n: "index_name (?x\<lparr>ji_name := index_name ?x, ji_materialized := False\<rparr>) = index_name ?x" using index_name_plain [OF x] .
    then show "index_name (w_heap w' j) = index_name (?h j)" by (simp add: w')
    then show "creatable t d (w_heap w' j) = creatable t d (?h j)"
      by (simp add: creatable_def w' cong: option.case_cong)
  qed (simp_all add: w' split: if_splits)
  have cur: "w_heap w' j = ?h j" if "j \<in> set (w_curHypConfig w)" for j using that i(2) by (auto simp: w')
  then have "map (\<lambda>j. ji_name (w_heap w' j)) (w_curHypConfig w) = map (\<lambda>j. ji_name (?h j)) (w_curHypConfig w)"
    by (intro map_cong) auto
  moreover have "distinct (map (\<lambda>j. ji_name (?h j)) (w_curHypConfig w))" using s1(1) by (simp add: in_sync_def)
  ultimately have "distinct (map (\<lambda>j. ji_name (w_heap w' j)) (w_curHypConfig w))" by (simp only:)
  then have sync: "in_sync (hyps (w_db w)) w'"
    using s1(1) cur w' by (simp add: in_sync_def)
  have cn: "cur_names w' = cur_names w" using cur w' by (simp add: cur_names_def)
  have "map (\<lambda>j. index_name (w_heap w' j)) cand = map (\<lambda>j. index_name (?h j)) cand" by (simp add: h2(1))
  then have "simulable (tabs (w_db w')) (names (w_db w')) w' cand"
    using s1(2) h2 cn db' w' by (auto simp: simulable_def)
  then show ?thesis
    using s sync cn db' h2(1-3) w' by (simp add: searching_def base_view_def)
qed

context hyp_index_server
begin

lemma unused_name:
  assumes s: "searching inv hyps tabs names cand w0 w" and cur: "set (w_curHypConfig w) \<subseteq> set cand"
    and i: "i \<in> set cand" "i \<notin> set (w_curHypConfig w)"
  shows "index_name (w_heap w i) \<notin> names (w_db w)"
proof -
  let ?x = "w_heap w i" and ?h = "w_heap w"
  have s1: "in_sync (hyps (w_db w)) w" "simulable (tabs (w_db w)) (names (w_db w)) w cand"
    using s by (auto simp: searching_def)
  have "index_name ?x \<notin> cur_names w"
  proof
    assume "index_name ?x \<in> cur_names w"
    then obtain j where j: "j \<in> set (w_curHypConfig w)" "index_name ?x = ji_name (?h j)" by (auto simp: cur_names_def)
    have "ji_name (?h j) \<noteq> []" using s1(1) j(1) plain_chars(1) by (auto simp: in_sync_def exists_in_def)
    then have "index_name (?h j) = index_name ?x" using j(2) by (simp add: index_name_def)
    moreover have "inj_on (\<lambda>i. index_name (?h i)) (set cand)" using s1(2) by (simp add: simulable_def distinct_map)
    ultimately have "j = i" using cur j(1) i(1) by (auto dest: inj_onD)
    then show False using j(1) i(2) by simp
  qed
  then show ?thesis using s1(2) i(1) by (auto simp: simulable_def)
qed

lemma costOfCreating_searching:
  assumes env: "db_exec env = exec" and p: "prices env inv hyps workload price"
    and s: "searching inv hyps tabs names cand w0 w" and cur: "set (w_curHypConfig w) \<subseteq> set cand"
    and i: "i \<in> set cand" "i \<notin> set (w_curHypConfig w)" and q: "create_query (w_heap w0 i) \<in> set workload"
  defines "v \<equiv> hyps (w_db w)" and "x \<equiv> w_heap w0 i"
  shows "\<exists>w'. costOfCreating env i w = (Inr (price v (create_query x) - price (with_index x v) (create_query x)), w')
    \<and> searching inv hyps tabs names cand w0 w' \<and> w_curHypConfig w' = w_curHypConfig w \<and> hyps (w_db w') = v"
proof -
  let ?x = "w_heap w i" and ?h = "w_heap w"
  have s1: "inv (w_db w)" "simulable (tabs (w_db w)) (names (w_db w)) w cand"
    and same: "index_name ?x = index_name x" "ji_table_name ?x = ji_table_name x" "ji_column_names ?x = ji_column_names x"
    using s i(1) by (auto simp: searching_def x_def)
  have x: "creatable (tabs (w_db w)) (w_dbname w) ?x" "\<not> ji_materialized ?x" using s1(2) i by (auto simp: simulable_def)
  note nm = unused_name [OF s cur i]
  define x1 where "x1 = ?x\<lparr>ji_name := index_name ?x, ji_materialized := True\<rparr>"
  obtain db1 where c: "Index_create env i w = (Inr (), w\<lparr>w_db := db1, w_heap := ?h(i := x1)\<rparr>)" "inv db1"
    "hyps db1 = (hyps (w_db w))(index_name ?x \<mapsto> (ji_table_name ?x, ji_column_names ?x))" "tabs db1 = tabs (w_db w)"
    "names db1 = insert (index_name ?x) (names (w_db w))"
    using Index_create_new [OF env s1(1) x(1,2) nm] unfolding x1_def by blast
  define w1 where "w1 = w\<lparr>w_db := db1, w_heap := ?h(i := x1)\<rparr>"
  have "exists_in (hyps (w_db w1)) (w_dbname w1) (w_heap w1 i)" "inv (w_db w1)"
    using x(1) c(2,3) by (simp_all add: exists_in_def w1_def x1_def creatable_def)
  then obtain db2 where d: "Index_drop env i w1 = (Inr (), w1\<lparr>w_db := db2, w_heap := (w_heap w1)(i := x1\<lparr>ji_materialized := False\<rparr>)\<rparr>)"
    "inv db2" "hyps db2 = (hyps db1)(index_name ?x := None)" "tabs db2 = tabs db1" "names db2 = names db1 - {index_name ?x}"
    using Index_drop_existing [OF env, of w1 i] by (auto simp: w1_def x1_def)
  define w2 where "w2 = w\<lparr>w_db := db2, w_heap := ?h(i := ?x\<lparr>ji_name := index_name ?x, ji_materialized := False\<rparr>)\<rparr>"
  have w2: "Index_drop env i w1 = (Inr (), w2)" using d(1) by (simp add: w1_def w2_def x1_def)
  have "v (index_name ?x) = None" using hyps_named [OF s1(1)] nm unfolding v_def by (cases "hyps (w_db w) (index_name ?x)") auto
  then have db2: "hyps db2 = v" "names db2 = names (w_db w)" "tabs db2 = tabs (w_db w)" "inv db2"
    using d c nm by (auto simp: v_def fun_upd_idem)
  have cq: "create_query ?x = create_query x" using same by (simp add: create_query_def getColumnNames_def)
  have v1: "hyps db1 = with_index x v" using c(3) same by (simp add: with_index_def v_def)
  have "execExplain env (create_query x) w = (Inr (Some (price v (create_query x))), w)"
    "execExplain env (create_query x) w1 = (Inr (Some (price (with_index x v) (create_query x))), w1)"
    using p q s1(1) c(2) v1 by (simp_all add: execExplain_read prices_def x_def v_def w1_def)
  then have run: "costOfCreating env i w = (Inr (price v (create_query x) - price (with_index x v) (create_query x)), w2)"
    unfolding costOfCreating_def Let_def create_query_def [symmetric] cq
    using c(1) w2 by (simp add: jbind_def w1_def)
  have "searching inv hyps tabs names cand w0 w2"
    by (rule searching_named [OF s i w2_def]) (use db2 in \<open>simp_all add: v_def\<close>)
  then show ?thesis using run db2(1) by (intro exI [of _ w2]) (simp add: w2_def)
qed

lemma changeConfig_searching:
  assumes env: "db_exec env = exec" and p: "prices env inv hyps workload price"
    and s: "searching inv hyps tabs names cand w0 w" and diff: "different_indexes (w_heap w0) cand"
    and cur: "set cur \<subseteq> set cand" "distinct cur" and target: "set target \<subseteq> set cand" "distinct target"
    and q: "\<forall>i \<in> set cand. create_query (w_heap w0 i) \<in> set workload"
  shows "\<exists>w'. changeConfig env cur target w = (Inr (switch_cost price (w_heap w0) (base_view hyps w0) cur target), w')
    \<and> searching inv hyps tabs names cand w0 w'"
proof -
  let ?h = "w_heap w0" and ?common = "filter (\<lambda>t. t \<in> set cur) target" and ?new = "filter (\<lambda>t. t \<notin> set cur) target"
  let ?v = "with_indexes ?h ?common (base_view hyps w0)"
  let ?d = "\<lambda>i. price ?v (create_query (?h i)) - price (with_index (?h i) ?v) (create_query (?h i))"
  have cr: "\<forall>i \<in> set cand. creatable (tabs (w_db w)) (w_dbname w) (w_heap w i)"
    and same: "\<forall>i \<in> set cand. ji_table_name (w_heap w i) = ji_table_name (?h i) \<and> ji_column_names (w_heap w i) = ji_column_names (?h i)"
    using s by (auto simp: searching_def simulable_def)
  have "different_indexes (w_heap w) cand" using diff same by (simp add: different_indexes_def inj_on_def)
  note split = config_split [OF cr this cur target(1)]
  obtain w1 where w1: "simulateConfig env ?common w = (Inr (), w1)" "searching inv hyps tabs names cand w0 w1"
    "hyps (w_db w1) = ?v" "w_curHypConfig w1 = ?common"
    using simulate_searching [OF env s, of ?common] target by auto
  have "\<exists>w'. jfold (\<lambda>index cost. jbind (costOfCreating env index) (\<lambda>c. jreturn (cost + c))) is c w2
      = (Inr (foldl (\<lambda>c i. c + ?d i) c is), w') \<and> searching inv hyps tabs names cand w0 w'"
    if "set is \<subseteq> set ?new" "searching inv hyps tabs names cand w0 w2" "hyps (w_db w2) = ?v" "w_curHypConfig w2 = ?common" for "is" c w2
    using that
  proof (induction "is" arbitrary: c w2)
    case (Cons i "is")
    have i: "i \<in> set cand" "i \<notin> set (w_curHypConfig w2)" using Cons.prems target(1) by auto
    have "set (w_curHypConfig w2) \<subseteq> set cand" using Cons.prems(4) target(1) by auto
    from costOfCreating_searching [OF env p Cons.prems(2) this i] q i(1)
    obtain w3 where w3: "costOfCreating env i w2 = (Inr (?d i), w3)" "searching inv hyps tabs names cand w0 w3"
      "w_curHypConfig w3 = ?common" "hyps (w_db w3) = ?v"
      unfolding Cons.prems(3,4) by blast
    then show ?case using Cons.IH [of w3 "c + ?d i"] Cons.prems(1) by (simp add: jbind_def)
  qed auto
  from this [of ?new w1 0, OF _ w1(2-4)] show ?thesis
    using w1(1) unfolding changeConfig_def split by (simp add: jbind_def switch_cost_def Let_def)
qed

end

section \<open>The work function\<close>

text \<open>The values after the second loop, as a function of the values before it and the costs of changing.\<close>

definition relax :: "(nat \<Rightarrow> nat \<Rightarrow> real) \<Rightarrow> nat \<Rightarrow> real list \<Rightarrow> real list" where
  "relax \<delta> i ws = ws[i := foldl (\<lambda>m j. min m (ws ! j + \<delta> i j)) (ws ! i) [0..<length ws]]"

definition relax_all :: "(nat \<Rightarrow> nat \<Rightarrow> real) \<Rightarrow> real list \<Rightarrow> real list" where
  "relax_all \<delta> ws = foldl (\<lambda>ws i. relax \<delta> i ws) ws [0..<length ws]"

lemma length_relax [simp]: "length (relax \<delta> i ws) = length ws"
  by (simp add: relax_def)

lemma foldl_min: "foldl (\<lambda>m j. min m (f j)) a js = Min (insert a (f ` set js))"
  for a :: real
proof (induction js arbitrary: a)
  case (Cons j js)
  have "Min (insert (min a (f j)) (f ` set js)) = Min (insert a (insert (f j) (f ` set js)))"
    by (cases "js = []") (simp_all add: min.assoc)
  then show ?case using Cons by simp
qed simp

text \<open>The least value over all configurations one may come from.\<close>

definition reach_cost :: "(nat \<Rightarrow> nat \<Rightarrow> real) \<Rightarrow> real list \<Rightarrow> nat \<Rightarrow> real" where
  "reach_cost \<delta> ws i = Min ((\<lambda>j. ws ! j + \<delta> i j) ` {0..<length ws})"

lemma reach_cost_le: "j < length ws \<Longrightarrow> reach_cost \<delta> ws i \<le> ws ! j + \<delta> i j"
  by (auto simp: reach_cost_def intro!: Min_le)

lemma reach_cost_attained: "ws \<noteq> [] \<Longrightarrow> \<exists>j < length ws. reach_cost \<delta> ws i = ws ! j + \<delta> i j"
proof -
  assume "ws \<noteq> []"
  then have "reach_cost \<delta> ws i \<in> (\<lambda>j. ws ! j + \<delta> i j) ` {0..<length ws}"
    unfolding reach_cost_def by (intro Min_in) auto
  then show ?thesis by auto
qed

text \<open>
  With costs of changing that are zero for staying and satisfy the triangle inequality, it does no harm that the
  loop reads values it has already replaced.
\<close>

lemma relax_prefix:
  assumes stay: "\<And>i. i < n \<Longrightarrow> \<delta> i i = 0" and tri: "\<And>i j k. i < n \<Longrightarrow> j < n \<Longrightarrow> k < n \<Longrightarrow> \<delta> i k \<le> \<delta> i j + \<delta> j k"
    and n: "length ws = n" "m \<le> n"
  shows "length (foldl (\<lambda>ws i. relax \<delta> i ws) ws [0..<m]) = n
    \<and> (\<forall>i < n. foldl (\<lambda>ws i. relax \<delta> i ws) ws [0..<m] ! i = (if i < m then reach_cost \<delta> ws i else ws ! i))"
  using n(2)
proof (induction m)
  case (Suc m)
  define us where "us = foldl (\<lambda>ws i. relax \<delta> i ws) ws [0..<m]"
  have us: "length us = n" "\<And>i. i < n \<Longrightarrow> us ! i = (if i < m then reach_cost \<delta> ws i else ws ! i)"
    using Suc by (auto simp: us_def)
  have m: "m < n" using Suc.prems by simp
  have ne: "ws \<noteq> []" using m n(1) by auto
  have lower: "reach_cost \<delta> ws m \<le> us ! j + \<delta> m j" if j: "j < n" for j
  proof (cases "j < m")
    case True
    obtain k where k: "k < n" "reach_cost \<delta> ws j = ws ! k + \<delta> j k" using reach_cost_attained [OF ne, of \<delta> j] n(1) by auto
    have "reach_cost \<delta> ws m \<le> ws ! k + \<delta> m k" using reach_cost_le k(1) n(1) by blast
    also have "\<dots> \<le> ws ! k + \<delta> j k + \<delta> m j" using tri [OF m j k(1)] by simp
    finally show ?thesis using True us(2) [OF j] k(2) by simp
  next
    case False
    then show ?thesis using us(2) [OF j] reach_cost_le [of j ws \<delta> m] j n(1) by simp
  qed
  obtain k where k: "k < n" "reach_cost \<delta> ws m = ws ! k + \<delta> m k" using reach_cost_attained [OF ne, of \<delta> m] n(1) by auto
  have "us ! k \<le> ws ! k" using us(2) [OF k(1)] reach_cost_le [of k ws \<delta> k] stay [OF k(1)] k(1) n(1) by auto
  then have upper: "us ! k + \<delta> m k \<le> reach_cost \<delta> ws m" using k(2) by simp
  have "foldl (\<lambda>x j. min x (us ! j + \<delta> m j)) (us ! m) [0..<n] = reach_cost \<delta> ws m"
    unfolding foldl_min
  proof (rule Min_eqI)
    show "reach_cost \<delta> ws m \<le> y" if "y \<in> insert (us ! m) ((\<lambda>j. us ! j + \<delta> m j) ` set [0..<n])" for y
      using that lower lower [OF m] stay [OF m] by auto
    show "reach_cost \<delta> ws m \<in> insert (us ! m) ((\<lambda>j. us ! j + \<delta> m j) ` set [0..<n])"
      using upper lower [OF k(1)] k(1) by (auto intro!: image_eqI [of _ _ k])
  qed simp
  then have "relax \<delta> m us = us[m := reach_cost \<delta> ws m]" by (simp add: relax_def us(1))
  then show ?case using us m by (auto simp: us_def [symmetric] nth_list_update less_Suc_eq)
qed (use n in simp)

lemma relax_all_exact:
  assumes "\<And>i. i < length ws \<Longrightarrow> \<delta> i i = 0"
    and "\<And>i j k. i < length ws \<Longrightarrow> j < length ws \<Longrightarrow> k < length ws \<Longrightarrow> \<delta> i k \<le> \<delta> i j + \<delta> j k"
  shows "relax_all \<delta> ws = map (reach_cost \<delta> ws) [0..<length ws]"
  using relax_prefix [OF assms refl order_refl] by (auto simp: relax_all_def intro!: nth_equalityI)

section \<open>Analysis computes the work function\<close>

text \<open>A loop whose body acts on the state as a function of an abstract state.\<close>

lemma jfold_sim:
  assumes step: "\<And>x a b s. x \<in> set xs \<Longrightarrow> R b s \<Longrightarrow> \<exists>s'. f x a s = (Inr (g x a b), s') \<and> R (u x b) s'"
    and "R b s"
  shows "\<exists>s'. jfold f xs a s = (Inr (fst (foldl (\<lambda>(a, b) x. (g x a b, u x b)) (a, b) xs)), s')
    \<and> R (snd (foldl (\<lambda>(a, b) x. (g x a b, u x b)) (a, b) xs)) s'"
  using assms
proof (induction xs arbitrary: a b s)
  case (Cons x xs)
  obtain s1 where s1: "f x a s = (Inr (g x a b), s1)" "R (u x b) s1" using Cons.prems by (meson list.set_intros(1))
  have "\<exists>s'. jfold f xs (g x a b) s1 = (Inr (fst (foldl (\<lambda>(a, b) x. (g x a b, u x b)) (g x a b, u x b) xs)), s')
      \<and> R (snd (foldl (\<lambda>(a, b) x. (g x a b, u x b)) (g x a b, u x b) xs)) s'"
    by (rule Cons.IH [OF _ s1(2)]) (use Cons.prems(1) in auto)
  then show ?case using s1(1) by (simp add: jbind_def)
qed simp

lemma jfold_pure:
  assumes "\<And>x a s. x \<in> set xs \<Longrightarrow> R s \<Longrightarrow> \<exists>s'. f x a s = (Inr (g x a), s') \<and> R s'" and "R s"
  shows "\<exists>s'. jfold f xs a s = (Inr (foldl (\<lambda>a x. g x a) a xs), s') \<and> R s'"
proof -
  have "fst (foldl (\<lambda>(a, b) x. (g x a, b)) (a, b) xs) = foldl (\<lambda>a x. g x a) a xs" for a and b :: unit
    by (induction xs arbitrary: a) auto
  then show ?thesis using jfold_sim [of xs "\<lambda>_ :: unit. R" f "\<lambda>x a _. g x a" "\<lambda>_ b. b" "()" s a] assms by auto
qed

lemma jfold_state:
  assumes "\<And>x b s. x \<in> set xs \<Longrightarrow> R b s \<Longrightarrow> \<exists>s'. f x () s = (Inr (), s') \<and> R (u x b) s'" and "R b s"
  shows "\<exists>s'. jfold f xs () s = (Inr (), s') \<and> R (foldl (\<lambda>b x. u x b) b xs) s'"
proof -
  have "snd (foldl (\<lambda>(a, b) x. ((), u x b)) (a, b) xs) = foldl (\<lambda>b x. u x b) b xs" for a b
    by (induction xs arbitrary: a b) auto
  then show ?thesis using jfold_sim [of xs R f "\<lambda>_ _ _. ()" u b s "()"] assms by auto
qed

text \<open>The state of a tuner during analysis.\<close>

definition tuner_state :: "('db world \<Rightarrow> bool) \<Rightarrow> iref list option \<Rightarrow> iref list list \<Rightarrow> iref list \<Rightarrow> real list \<Rightarrow> 'db world \<times> IndexTuner \<Rightarrow> bool" where
  "tuner_state S ac confs sg ws s \<longleftrightarrow> S (fst s) \<and> length ws = length confs
     \<and> snd s = \<lparr>it_allCand = ac, it_curCand = Some confs, it_w = Some ws, it_sugg = Some sg\<rparr>"

lemma tuner_state_get:
  assumes "tuner_state S ac confs sg ws s"
  shows "get_curCand s = (Inr confs, s)" "get_w s = (Inr ws, s)" "jread (it_sugg \<circ> snd) s = (Inr (Some sg), s)"
  using assms by (simp_all add: tuner_state_def get_curCand_def get_w_def jread_def jbind_def non_null_def)

lemma tuner_state_set:
  assumes "tuner_state S ac confs sg ws s"
  shows "\<exists>s'. set_w i x s = (Inr (), s') \<and> tuner_state S ac confs sg (ws[i := x]) s'"
  using assms by (cases s) (auto simp: tuner_state_def set_w_def jmodify_def)

lemma tuner_state_world:
  assumes "tuner_state S ac confs sg ws s" "\<And>w. S w \<Longrightarrow> \<exists>w'. m w = (Inr x, w') \<and> S w'"
  shows "\<exists>s'. in_world m s = (Inr x, s') \<and> tuner_state S ac confs sg ws s'"
  using assms(1) assms(2) [of "fst s"] by (auto simp: tuner_state_def in_world_def)

lemma jnth_in [simp]: "i < length xs \<Longrightarrow> jnth xs i s = (Inr (xs ! i), s)"
  by (simp add: jnth_def)

lemma non_null_Some [simp]: "non_null (Some x) s = (Inr x, s)"
  by (simp add: non_null_def)

lemma foldl_snoc_map: "foldl (\<lambda>a x. a @ [f x]) a xs = a @ map f xs"
  by (induction xs arbitrary: a) auto

lemma jfold_snoc:
  assumes "jfold f xs a s = (Inr b, s1)" "f x b s1 = (Inr c, s2)"
  shows "jfold f (xs @ [x]) a s = (Inr c, s2)"
  unfolding jfold_append using assms by (simp add: jbind_def)

lemma foldl_update_each:
  assumes "m \<le> length xs"
  shows "foldl (\<lambda>xs i. xs[i := F i (xs ! i)]) xs [0..<m] = map (\<lambda>i. if i < m then F i (xs ! i) else xs ! i) [0..<length xs]"
  using assms
proof (induction m)
  case (Suc m)
  then show ?case by (auto intro!: nth_equalityI simp: nth_list_update less_Suc_eq)
qed (simp add: map_nth)

lemma foldl_set_each:
  assumes "m \<le> length xs"
  shows "foldl (\<lambda>xs i. xs[i := F i]) xs [0..<m] = map (\<lambda>i. if i < m then F i else xs ! i) [0..<length xs]"
  using foldl_update_each [OF assms, of "\<lambda>i _. F i"] by simp

section \<open>The loops of analyze\<close>

lemma exec_times_run:
  assumes s: "tuner_state S ac confs sg ws s"
    and c: "\<And>conf w. conf \<in> set confs \<Longrightarrow> S w \<Longrightarrow> \<exists>w'. whatIf env query conf w = (Inr (Some (C conf)), w') \<and> S w'"
  shows "\<exists>s'. exec_times env query s = (Inr (map (\<lambda>conf. Some (C conf)) confs), s') \<and> tuner_state S ac confs sg ws s'"
proof -
  let ?f = "\<lambda>conf execTime. jbind (jcatch (in_world (whatIf env query conf))) (\<lambda>r.
         jreturn (case r of None \<Rightarrow> execTime | Some t \<Rightarrow> execTime @ [t]))"
  have "\<exists>s'. jfold ?f confs [] s = (Inr (foldl (\<lambda>a x. a @ [Some (C x)]) [] confs), s') \<and> tuner_state S ac confs sg ws s'"
  proof (rule jfold_pure [where R = "tuner_state S ac confs sg ws", OF _ s])
    fix conf a s assume conf: "conf \<in> set confs" and s: "tuner_state S ac confs sg ws s"
    obtain s' where "in_world (whatIf env query conf) s = (Inr (Some (C conf)), s')" "tuner_state S ac confs sg ws s'"
      using tuner_state_world [OF s, of "whatIf env query conf" "Some (C conf)"] c [OF conf] by blast
    then show "\<exists>s'. ?f conf a s = (Inr (a @ [Some (C conf)]), s') \<and> tuner_state S ac confs sg ws s'"
      by (simp add: jbind_def jcatch_def)
  qed
  then show ?thesis
    using tuner_state_get(1) [OF s] by (simp add: exec_times_def jbind_def foldl_snoc_map)
qed

lemma add_times_run:
  assumes s: "tuner_state S ac confs sg ws s" and t: "length ts = length confs"
  shows "\<exists>s'. add_times (map Some ts) s = (Inr (), s') \<and> tuner_state S ac confs sg (map2 (+) ws ts) s'"
proof -
  let ?n = "length ws" and ?u = "\<lambda>i ws. ws[i := ws ! i + ts ! i]"
  have n: "?n = length confs" using s by (simp add: tuner_state_def)
  let ?f = "\<lambda>i _ :: unit. jbind get_w (\<lambda>w. jbind (jnth (map Some ts) i) (\<lambda>t. jbind (non_null t) (\<lambda>c. set_w i (w ! i + c))))"
  have "\<exists>s'. jfold ?f [0..<?n] () s = (Inr (), s') \<and> tuner_state S ac confs sg (foldl (\<lambda>b x. ?u x b) ws [0..<?n]) s'"
  proof (rule jfold_state [where R = "tuner_state S ac confs sg", OF _ s])
    fix i vs s assume i: "i \<in> set [0..<?n]" and s: "tuner_state S ac confs sg vs s"
    then show "\<exists>s'. ?f i () s = (Inr (), s') \<and> tuner_state S ac confs sg (vs[i := vs ! i + ts ! i]) s'"
      using tuner_state_set [OF s] tuner_state_get(2) [OF s] t n by (simp add: jbind_def)
  qed
  moreover have "foldl (\<lambda>b x. ?u x b) ws [0..<?n] = map2 (+) ws ts"
    using foldl_update_each [of ?n ws "\<lambda>i x. x + ts ! i"] t n by (auto intro!: nth_equalityI)
  ultimately show ?thesis using tuner_state_get(2) [OF s] by (simp add: add_times_def jbind_def)
qed

lemma work_function_run:
  assumes s: "tuner_state S ac confs sg ws s"
    and d: "\<And>a b w. a \<in> set confs \<Longrightarrow> b \<in> set confs \<Longrightarrow> S w \<Longrightarrow> \<exists>w'. changeConfig env a b w = (Inr (D a b), w') \<and> S w'"
  shows "\<exists>s'. work_function env s = (Inr (), s')
    \<and> tuner_state S ac confs sg (relax_all (\<lambda>i j. D (confs ! i) (confs ! j)) ws) s'"
proof -
  let ?n = "length ws" and ?\<delta> = "\<lambda>i j. D (confs ! i) (confs ! j)"
  have n: "?n = length confs" using s by (simp add: tuner_state_def)
  let ?g = "\<lambda>i w j mini. jbind get_curCand (\<lambda>confs. jbind (jnth confs i) (\<lambda>ci. jbind (jnth confs j) (\<lambda>cj.
         jbind (in_world (changeConfig env ci cj)) (\<lambda>d. jreturn (min mini (w ! j + d))))))"
  let ?f = "\<lambda>i _ :: unit. jbind get_w (\<lambda>w. jbind (jfold (?g i w) [0..<?n] (w ! i)) (set_w i))"
  have "\<exists>s'. jfold ?f [0..<?n] () s = (Inr (), s') \<and> tuner_state S ac confs sg (foldl (\<lambda>b i. relax ?\<delta> i b) ws [0..<?n]) s'"
  proof (rule jfold_state [where R = "tuner_state S ac confs sg", OF _ s])
    fix i vs s assume i: "i \<in> set [0..<?n]" and s: "tuner_state S ac confs sg vs s"
    have vs: "length vs = ?n" using s n by (simp add: tuner_state_def)
    have "\<exists>s'. jfold (?g i vs) [0..<?n] (vs ! i) s = (Inr (foldl (\<lambda>m j. min m (vs ! j + ?\<delta> i j)) (vs ! i) [0..<?n]), s')
        \<and> tuner_state S ac confs sg vs s'"
    proof (rule jfold_pure [where R = "tuner_state S ac confs sg vs", OF _ s])
      fix j a s assume j: "j \<in> set [0..<?n]" and s: "tuner_state S ac confs sg vs s"
      have "confs ! i \<in> set confs" "confs ! j \<in> set confs" using i j n by auto
      then obtain s' where "in_world (changeConfig env (confs ! i) (confs ! j)) s = (Inr (?\<delta> i j), s')" "tuner_state S ac confs sg vs s'"
        using tuner_state_world [OF s, of "changeConfig env (confs ! i) (confs ! j)"] d by blast
      then show "\<exists>s'. ?g i vs j a s = (Inr (min a (vs ! j + ?\<delta> i j)), s') \<and> tuner_state S ac confs sg vs s'"
        using i j n tuner_state_get(1) [OF s] by (simp add: jbind_def)
    qed
    then obtain s1 where s1: "jfold (?g i vs) [0..<?n] (vs ! i) s
        = (Inr (foldl (\<lambda>m j. min m (vs ! j + ?\<delta> i j)) (vs ! i) [0..<?n]), s1)" "tuner_state S ac confs sg vs s1" by blast
    have "?f i () s = set_w i (foldl (\<lambda>m j. min m (vs ! j + ?\<delta> i j)) (vs ! i) [0..<?n]) s1"
      using tuner_state_get(2) [OF s] s1(1) by (simp add: jbind_def)
    then show "\<exists>s'. ?f i () s = (Inr (), s') \<and> tuner_state S ac confs sg (relax ?\<delta> i vs) s'"
      using tuner_state_set [OF s1(2)] by (simp add: relax_def vs)
  qed
  then show ?thesis using tuner_state_get(2) [OF s] by (simp add: work_function_def jbind_def relax_all_def)
qed

lemma switch_times_run:
  assumes s: "tuner_state S ac confs sg ws s" and t: "length ts = length confs"
    and d: "\<And>a w. a \<in> set confs \<Longrightarrow> S w \<Longrightarrow> \<exists>w'. changeConfig env a sg w = (Inr (D a sg), w') \<and> S w'"
  shows "\<exists>s'. switch_times env (map Some ts) s = (Inr (map Some (map2 (\<lambda>x conf. x + D conf sg) ws confs)), s')
    \<and> tuner_state S ac confs sg ws s'"
proof -
  let ?n = "length ws"
  have n: "?n = length confs" using s by (simp add: tuner_state_def)
  let ?f = "\<lambda>i execTime. jbind get_w (\<lambda>w. jbind get_curCand (\<lambda>confs. jbind (jnth confs i) (\<lambda>ci.
       jbind (jread (it_sugg \<circ> snd)) (\<lambda>sugg. jbind (non_null sugg) (\<lambda>sg. jbind (in_world (changeConfig env ci sg)) (\<lambda>d.
       jbind (jnth execTime i) (\<lambda>t. jbind (non_null t) (\<lambda>_. jreturn (execTime[i := Some (w ! i + d)])))))))))"
  let ?F = "\<lambda>i. Some (ws ! i + D (confs ! i) sg)"
  have "\<exists>s'. jfold ?f [0..<m] (map Some ts) s = (Inr (foldl (\<lambda>xs i. xs[i := ?F i]) (map Some ts) [0..<m]), s')
      \<and> tuner_state S ac confs sg ws s'" if "m \<le> ?n" for m
    using that
  proof (induction m)
    case (Suc m)
    let ?xs = "foldl (\<lambda>xs i. xs[i := ?F i]) (map Some ts) [0..<m]"
    from Suc.IH [OF Suc_leD [OF Suc.prems]]
    obtain s1 where s1: "jfold ?f [0..<m] (map Some ts) s = (Inr ?xs, s1)" "tuner_state S ac confs sg ws s1" by blast
    have xs: "?xs = map (\<lambda>i. if i < m then ?F i else map Some ts ! i) [0..<length (map Some ts)]"
      by (rule foldl_set_each) (use Suc.prems n t in simp)
    have m: "m < length confs" using Suc.prems n by simp
    obtain s2 where s2: "in_world (changeConfig env (confs ! m) sg) s1 = (Inr (D (confs ! m) sg), s2)" "tuner_state S ac confs sg ws s2"
      using tuner_state_world [OF s1(2), of "changeConfig env (confs ! m) sg"] d [OF nth_mem [OF m]] by blast
    have "?f m ?xs s1 = (Inr (?xs[m := ?F m]), s2)"
      using tuner_state_get [OF s1(2)] s2(1) m t by (simp add: jbind_def xs)
    with s1(1) have "jfold ?f ([0..<m] @ [m]) (map Some ts) s = (Inr (?xs[m := ?F m]), s2)" by (rule jfold_snoc)
    moreover have "foldl (\<lambda>xs i. xs[i := ?F i]) (map Some ts) ([0..<m] @ [m]) = ?xs[m := ?F m]" by simp
    ultimately show ?case using s2(2) unfolding upt_Suc_append [OF le0] by metis
  qed (use s in simp)
  from this [of ?n] have "\<exists>s'. jfold ?f [0..<?n] (map Some ts) s = (Inr (foldl (\<lambda>xs i. xs[i := ?F i]) (map Some ts) [0..<?n]), s')
      \<and> tuner_state S ac confs sg ws s'" by simp
  moreover have "foldl (\<lambda>xs i. xs[i := ?F i]) (map Some ts) [0..<?n] = map Some (map2 (\<lambda>x conf. x + D conf sg) ws confs)"
    using foldl_set_each [of ?n "map Some ts" ?F] t n by (auto intro!: nth_equalityI)
  ultimately show ?thesis using tuner_state_get(2) [OF s] by (simp add: switch_times_def jbind_def)
qed

text \<open>The last position of the least value.\<close>

definition last_min :: "real list \<Rightarrow> nat" where
  "last_min ts = foldl (\<lambda>p i. if ts ! i = Min (set ts) then i else p) 0 [0..<length ts]"

lemma last_min_prefix:
  assumes "m \<le> length ts" "\<exists>i < m. ts ! i = x"
  shows "foldl (\<lambda>p i. if ts ! i = x then i else p) p [0..<m] < m
    \<and> ts ! (foldl (\<lambda>p i. if ts ! i = x then i else p) p [0..<m]) = x
    \<and> (\<forall>i < m. ts ! i = x \<longrightarrow> i \<le> foldl (\<lambda>p i. if ts ! i = x then i else p) p [0..<m])"
  using assms
proof (induction m)
  case (Suc m)
  show ?case
  proof (cases "ts ! m = x")
    case False
    then have "\<exists>i < m. ts ! i = x" using Suc.prems(2) by (auto simp: less_Suc_eq)
    then show ?thesis using Suc False by (auto simp: less_Suc_eq)
  qed auto
qed simp

lemma last_min_spec:
  assumes "ts \<noteq> []"
  shows "last_min ts < length ts" "ts ! last_min ts = Min (set ts)" "\<And>i. i < length ts \<Longrightarrow> ts ! i = Min (set ts) \<Longrightarrow> i \<le> last_min ts"
proof -
  have "Min (set ts) \<in> set ts" using assms by simp
  then have "\<exists>i < length ts. ts ! i = Min (set ts)" by (auto simp: in_set_conv_nth)
  from last_min_prefix [OF order_refl this, of 0]
  show "last_min ts < length ts" "ts ! last_min ts = Min (set ts)" "\<And>i. i < length ts \<Longrightarrow> ts ! i = Min (set ts) \<Longrightarrow> i \<le> last_min ts"
    unfolding last_min_def by blast+
qed

lemma pick_suggestion_run:
  assumes s: "tuner_state S ac confs sg ws s" and ts: "length ts = length confs" "ts \<noteq> []"
  shows "\<exists>s'. pick_suggestion (map Some ts) s = (Inr (), s') \<and> tuner_state S ac confs (confs ! last_min ts) ws s'"
proof -
  let ?n = "length ws" and ?min = "Min (set ts)"
  have n: "?n = length confs" using s by (simp add: tuner_state_def)
  have ne: "0 < length ts" using ts(2) by simp
  have "\<exists>s'. jfold (\<lambda>i mini. jbind (jbind (jnth (map Some ts) i) non_null) (\<lambda>t. jreturn (min mini t))) [0..<?n] (ts ! 0) s
      = (Inr (foldl (\<lambda>m i. min m (ts ! i)) (ts ! 0) [0..<?n]), s') \<and> s' = s"
    by (rule jfold_pure) (use n ts in \<open>auto simp: jbind_def\<close>)
  moreover have "foldl (\<lambda>m i. min m (ts ! i)) (ts ! 0) [0..<?n] = ?min"
  proof -
    have "insert (ts ! 0) ((!) ts ` set [0..<?n]) = set ts" using n ts ne by (auto simp: in_set_conv_nth image_iff Bex_def)
    then show ?thesis using foldl_min [of "(!) ts" "ts ! 0" "[0..<?n]"] by simp
  qed
  ultimately have min: "jfold (\<lambda>i mini. jbind (jbind (jnth (map Some ts) i) non_null) (\<lambda>t. jreturn (min mini t))) [0..<?n] (ts ! 0) s = (Inr ?min, s)"
    by auto
  let ?f = "\<lambda>i _ :: unit. jbind (jbind (jnth (map Some ts) i) non_null) (\<lambda>t.
         if t = ?min then jbind get_curCand (\<lambda>confs. jbind (jnth confs i) (\<lambda>ci.
                jmodify (\<lambda>(w, t). (w, t\<lparr>it_sugg := Some ci\<rparr>))))
         else jreturn ())"
  let ?R = "\<lambda>sg s. tuner_state S ac confs sg ws s"
  have loop: "\<exists>s'. jfold ?f [0..<?n] () s = (Inr (), s') \<and> ?R (foldl (\<lambda>sg i. if ts ! i = ?min then confs ! i else sg) sg [0..<?n]) s'"
  proof (rule jfold_state [where R = ?R, OF _ s])
    fix i sg s assume i: "i \<in> set [0..<?n]" and s: "?R sg s"
    then have "i < length ts" "i < length confs" using n ts by auto
    then show "\<exists>s'. ?f i () s = (Inr (), s') \<and> ?R (if ts ! i = ?min then confs ! i else sg) s'"
      using s tuner_state_get(1) [OF s] by (cases s) (auto simp: jbind_def jmodify_def tuner_state_def)
  qed
  have "foldl (\<lambda>sg i. if ts ! i = x then confs ! i else sg) (confs ! p) is = confs ! foldl (\<lambda>p i. if ts ! i = x then i else p) p is" for x p "is"
    by (induction "is" arbitrary: p) auto
  note pos = this
  have first: "foldl (\<lambda>sg i. if ts ! i = x then confs ! i else sg) a is = foldl (\<lambda>sg i. if ts ! i = x then confs ! i else sg) b is"
    if "\<exists>i \<in> set is. ts ! i = x" for x a b "is"
    using that by (induction "is" arbitrary: a b) (auto split: if_splits)
  have "\<exists>i \<in> set [0..<?n]. ts ! i = ?min" using last_min_spec(1,2) [OF ts(2)] ts n by auto
  then have "foldl (\<lambda>sg i. if ts ! i = ?min then confs ! i else sg) sg [0..<?n]
      = foldl (\<lambda>sg i. if ts ! i = ?min then confs ! i else sg) (confs ! 0) [0..<?n]" by (rule first)
  also have "\<dots> = confs ! foldl (\<lambda>p i. if ts ! i = ?min then i else p) 0 [0..<?n]" by (rule pos)
  also have "\<dots> = confs ! last_min ts" using ts n by (simp add: last_min_def)
  finally have "foldl (\<lambda>sg i. if ts ! i = ?min then confs ! i else sg) sg [0..<?n] = confs ! last_min ts" .
  then show ?thesis
    using loop min tuner_state_get(2) [OF s] ne ts by (simp add: pick_suggestion_def jbind_def)
qed

lemma switch_cost_stay: "switch_cost price h base c c = 0"
  by (simp add: switch_cost_def Let_def)

lemma relax_all_length [simp]: "length (relax_all \<delta> ws) = length ws"
proof -
  have "length (foldl (\<lambda>ws i. relax \<delta> i ws) ws is) = length ws" for "is" by (induction "is" arbitrary: ws) auto
  then show ?thesis by (simp add: relax_all_def)
qed

context hyp_index_server
begin

lemma whatIf_searching:
  assumes env: "db_exec env = exec" and p: "prices env inv hyps workload price" and q: "query \<in> set workload"
    and s: "searching inv hyps tabs names cand w0 w" and conf: "set conf \<subseteq> set cand" "distinct conf"
  shows "\<exists>w'. whatIf env query conf w = (Inr (Some (price (with_indexes (w_heap w0) conf (base_view hyps w0)) query)), w')
    \<and> searching inv hyps tabs names cand w0 w'"
proof -
  obtain w' where w': "simulateConfig env conf w = (Inr (), w')" "searching inv hyps tabs names cand w0 w'"
    "hyps (w_db w') = with_indexes (w_heap w0) conf (base_view hyps w0)"
    using simulate_searching [OF env s conf] by blast
  moreover have "inv (w_db w')" using w'(2) by (simp add: searching_def)
  ultimately show ?thesis using p q by (simp add: whatIf_def jbind_def execExplain_read prices_def)
qed

lemma analyze_run:
  assumes env: "db_exec env = exec" and p: "prices env inv hyps workload price" and q: "query \<in> set workload"
    and cq: "\<forall>i \<in> set cand. create_query (w_heap w0 i) \<in> set workload" and diff: "different_indexes (w_heap w0) cand"
    and confs: "\<forall>c \<in> insert sg (set confs). set c \<subseteq> set cand \<and> distinct c" "confs \<noteq> []"
    and s: "tuner_state (searching inv hyps tabs names cand w0) ac confs sg ws s"
  defines "base \<equiv> base_view hyps w0" and "h \<equiv> w_heap w0"
  defines "v \<equiv> map2 (+) ws (map (\<lambda>conf. price (with_indexes h conf base) query) confs)"
    and "\<delta> \<equiv> \<lambda>i j. switch_cost price h base (confs ! i) (confs ! j)"
  defines "vs \<equiv> map2 (\<lambda>x conf. x + switch_cost price h base conf sg) (relax_all \<delta> v) confs"
  shows "\<exists>s'. analyze env query s = (Inr (), s')
    \<and> tuner_state (searching inv hyps tabs names cand w0) ac confs (confs ! last_min vs) (relax_all \<delta> v) s'"
proof -
  let ?S = "searching inv hyps tabs names cand w0" and ?C = "\<lambda>conf. price (with_indexes h conf base) query"
    and ?D = "switch_cost price h base"
  have cost: "\<exists>w'. whatIf env query conf w = (Inr (Some (?C conf)), w') \<and> ?S w'" if "conf \<in> set confs" "?S w" for conf w
    using whatIf_searching [OF env p q that(2), of conf] confs(1) that(1) by (simp add: base_def h_def)
  have change: "\<exists>w'. changeConfig env a b w = (Inr (?D a b), w') \<and> ?S w'" if "a \<in> insert sg (set confs)" "b \<in> insert sg (set confs)" "?S w" for a b w
  proof -
    have "set a \<subseteq> set cand" "distinct a" "set b \<subseteq> set cand" "distinct b" using confs(1) that(1,2) by blast+
    then show ?thesis using changeConfig_searching [OF env p that(3) diff _ _ _ _ cq] by (simp add: base_def h_def)
  qed
  obtain s1 where s1: "exec_times env query s = (Inr (map Some (map ?C confs)), s1)" "tuner_state ?S ac confs sg ws s1"
    using exec_times_run [OF s cost] unfolding map_map o_def by blast
  obtain s2 where s2: "add_times (map Some (map ?C confs)) s1 = (Inr (), s2)" "tuner_state ?S ac confs sg v s2"
    using add_times_run [OF s1(2), of "map ?C confs"] unfolding v_def length_map by blast
  obtain s3 where s3: "work_function env s2 = (Inr (), s3)" "tuner_state ?S ac confs sg (relax_all \<delta> v) s3"
    using work_function_run [OF s2(2), of env ?D] change unfolding \<delta>_def by blast
  obtain s4 where s4: "switch_times env (map Some (map ?C confs)) s3 = (Inr (map Some vs), s4)" "tuner_state ?S ac confs sg (relax_all \<delta> v) s4"
    using switch_times_run [OF s3(2), of "map ?C confs" env ?D] change unfolding vs_def length_map by blast
  have "length vs = length confs" using s4(2) by (simp add: vs_def tuner_state_def)
  then obtain s5 where "pick_suggestion (map Some vs) s4 = (Inr (), s5)" "tuner_state ?S ac confs (confs ! last_min vs) (relax_all \<delta> v) s5"
    using pick_suggestion_run [OF s4(2)] confs(2) by fastforce
  then show ?thesis using s1(1) s2(1) s3(1) s4(1) by (simp add: analyze_def jbind_def)
qed

end


text \<open>A server for which all plans cost the same.\<close>

definition flat_env :: "(Catalog, real) DbEnv" where
  "flat_env = \<lparr>db_exec = run_command False, db_explain = (\<lambda>_ _. Some (Some ''cost=0..5 rows=1'')), parseFloat = (\<lambda>_. Some 5)\<rparr>"

lemma flat_prices: "prices flat_env cat_wf hyp_view workload (\<lambda>_ _. 5)"
  by (simp add: prices_def flat_env_def read_cost_def split_dots_def drop_trailing_empty_def)

lemma flat_switch: "switch_cost (\<lambda>_ _. 5 :: real) h base a b = 0"
proof -
  have "foldl (\<lambda>c _. c + ((5 :: real) - 5)) c is = c" for c and "is" :: "iref list" by (induction "is" arbitrary: c) auto
  then show ?thesis by (simp add: switch_cost_def Let_def)
qed


end
