(* ===== verification/Varsup.thy ===== *)
theory Varsup
  imports Clog Subtrans
begin

text \<open>
  The assignment of transaction identifiers and object identifiers
  (\<^verbatim>\<open>access/transam/varsup.c\<close>), the counters of a checkpoint and their recovery
  (\<^verbatim>\<open>access/transam/xlog.c\<close>).  The counters are in shared memory; a lock that is released in the middle
  of a function is a point where other backends may change them.
\<close>

unbundle bit_operations_syntax

section \<open>Shared variables\<close>

definition FirstBootstrapObjectId :: Oid where
  "FirstBootstrapObjectId = 10000"

definition FirstNormalObjectId :: Oid where
  "FirstNormalObjectId = 16384"

definition VAR_OID_PREFETCH :: uint32 where
  "VAR_OID_PREFETCH = 8192"

record VariableCacheData =
  vc_nextOid :: Oid
  vc_oidCount :: uint32
  vc_nextXid :: TransactionId
  vc_oldestXid :: TransactionId
  vc_xidVacLimit :: TransactionId
  vc_xidWarnLimit :: TransactionId
  vc_xidStopLimit :: TransactionId
  vc_xidWrapLimit :: TransactionId
  vc_oldestXidDB :: Oid
  vc_latestCompletedXid :: TransactionId

definition PGPROC_MAX_CACHED_SUBXIDS :: nat where
  "PGPROC_MAX_CACHED_SUBXIDS = 64"

record XidCache =
  xc_overflowed :: bool
  xc_nxids :: nat
  xc_xids :: "TransactionId list"

text \<open>The fields of a process that describe its transaction; \<open>p_waitLock\<close> says whether it waits for a lock.\<close>

record PGPROC =
  p_lxid :: uint32
  p_xid :: TransactionId
  p_xmin :: TransactionId
  p_pid :: int
  p_backendId :: int
  p_databaseId :: Oid
  p_roleId :: Oid
  p_inCommit :: bool
  p_vacuumFlags :: uint8
  p_recoveryConflictPending :: bool
  p_waitLock :: bool
  p_subxids :: XidCache

text \<open>Settings and modes of the backend that runs a function.\<close>

record BackendMode =
  IsBootstrapProcessingMode :: bool
  RecoveryInProgress :: bool
  InRecovery :: bool
  IsUnderPostmaster :: bool
  IsPostmasterEnvironment :: bool
  IsTransactionState :: bool
  autovacuum_freeze_max_age :: nat
  get_database_name :: "Oid \<Rightarrow> string option"

text \<open>What a function sends to the postmaster, the client and the log of the server.\<close>

datatype notice =
    PMSIGNAL_START_AUTOVAC_LAUNCHER
  | Must_be_vacuumed "string option" Oid uint32

section \<open>Transaction identifiers\<close>

record XidGen =
  xg_cache :: VariableCacheData
  xg_clog :: ClogData
  xg_sub :: SubTransData
  xg_procs :: "nat \<Rightarrow> PGPROC"

text \<open>
  The part of \<^verbatim>\<open>GetNewTransactionId\<close> that runs without the lock: it works on a copy of
  the limits.
\<close>

definition past_xidVacLimit :: "VariableCacheData \<Rightarrow> bool" where
  "past_xidVacLimit vc \<longleftrightarrow> TransactionIdFollowsOrEquals (vc_nextXid vc) (vc_xidVacLimit vc)"

definition check_xid_limits :: "BackendMode \<Rightarrow> VariableCacheData \<Rightarrow> notice list \<times> pg_error option" where
  "check_xid_limits env vc =
     (let xid = vc_nextXid vc; oldest_datoid = vc_oldestXidDB vc;
          signals = (if IsUnderPostmaster env \<and> xid mod 65536 = 0 then [PMSIGNAL_START_AUTOVAC_LAUNCHER] else [])
      in if IsUnderPostmaster env \<and> TransactionIdFollowsOrEquals xid (vc_xidStopLimit vc)
         then (signals, Some (Ereport ERRCODE_PROGRAM_LIMIT_EXCEEDED))
         else if TransactionIdFollowsOrEquals xid (vc_xidWarnLimit vc)
         then (signals @ [Must_be_vacuumed (get_database_name env oldest_datoid) oldest_datoid (vc_xidWrapLimit vc - xid)], None)
         else (signals, None))"

definition advertise_xid :: "bool \<Rightarrow> TransactionId \<Rightarrow> PGPROC \<Rightarrow> PGPROC" where
  "advertise_xid isSubXact xid proc =
     (if \<not> isSubXact then proc\<lparr>p_xid := xid\<rparr>
      else let c = p_subxids proc; nxids = xc_nxids c
           in if nxids < PGPROC_MAX_CACHED_SUBXIDS
              then proc\<lparr>p_subxids := c\<lparr>xc_xids := (xc_xids c)[nxids := xid], xc_nxids := nxids + 1\<rparr>\<rparr>
              else proc\<lparr>p_subxids := c\<lparr>xc_overflowed := True\<rparr>\<rparr>)"

text \<open>The part under the lock: extend the logs, advance the counter, advertise the identifier.\<close>

definition assign_xid :: "bool \<Rightarrow> nat \<Rightarrow> XidGen \<Rightarrow> TransactionId \<times> XidGen" where
  "assign_xid isSubXact MyProc g =
     (let vc = xg_cache g; xid = vc_nextXid vc
      in (xid, \<lparr>xg_cache = vc\<lparr>vc_nextXid := TransactionIdAdvance xid\<rparr>,
                xg_clog = ExtendCLOG xid (xg_clog g), xg_sub = ExtendSUBTRANS xid (xg_sub g),
                xg_procs = (xg_procs g)(MyProc := advertise_xid isSubXact xid (xg_procs g MyProc))\<rparr>))"

text \<open>\<open>others\<close> is what other backends do to the shared state while the lock is released.\<close>

definition GetNewTransactionId ::
    "BackendMode \<Rightarrow> bool \<Rightarrow> nat \<Rightarrow> (XidGen \<Rightarrow> XidGen) \<Rightarrow> XidGen \<Rightarrow> (pg_error + TransactionId) \<times> notice list \<times> XidGen" where
  "GetNewTransactionId env isSubXact MyProc others g =
     (if IsBootstrapProcessingMode env
      then (Inr BootstrapTransactionId, [],
            g\<lparr>xg_procs := (xg_procs g)(MyProc := (xg_procs g MyProc)\<lparr>p_xid := BootstrapTransactionId\<rparr>)\<rparr>)
      else if RecoveryInProgress env then (Inl (Elog ''cannot assign TransactionIds during recovery''), [], g)
      else if past_xidVacLimit (xg_cache g)
      then case check_xid_limits env (xg_cache g) of
             (ns, Some e) \<Rightarrow> (Inl e, ns, g)
           | (ns, None) \<Rightarrow> (let (xid, g') = assign_xid isSubXact MyProc (others g) in (Inr xid, ns, g'))
      else let (xid, g') = assign_xid isSubXact MyProc g in (Inr xid, [], g'))"

definition ReadNewTransactionId :: "VariableCacheData \<Rightarrow> TransactionId" where
  "ReadNewTransactionId vc = vc_nextXid vc"

definition xid_wrap_limit :: "TransactionId \<Rightarrow> TransactionId" where
  "xid_wrap_limit oldest_datfrozenxid =
     (let l = oldest_datfrozenxid + drop_bit 1 MaxTransactionId
      in if l < FirstNormalTransactionId then l + FirstNormalTransactionId else l)"

definition xid_limit_before :: "TransactionId \<Rightarrow> uint32 \<Rightarrow> TransactionId" where
  "xid_limit_before limit n =
     (let l = limit - n in if l < FirstNormalTransactionId then l - FirstNormalTransactionId else l)"

definition xid_vac_limit :: "TransactionId \<Rightarrow> nat \<Rightarrow> TransactionId" where
  "xid_vac_limit oldest_datfrozenxid max_age =
     (let l = oldest_datfrozenxid + of_nat max_age
      in if l < FirstNormalTransactionId then l + FirstNormalTransactionId else l)"

definition SetTransactionIdLimit ::
    "BackendMode \<Rightarrow> TransactionId \<Rightarrow> Oid \<Rightarrow> VariableCacheData \<Rightarrow> notice list \<times> VariableCacheData" where
  "SetTransactionIdLimit env oldest_datfrozenxid oldest_datoid vc =
     (let wrap = xid_wrap_limit oldest_datfrozenxid;
          stop = xid_limit_before wrap 1000000;
          warn = xid_limit_before stop 10000000;
          vac = xid_vac_limit oldest_datfrozenxid (autovacuum_freeze_max_age env);
          curXid = vc_nextXid vc
      in ((if TransactionIdFollowsOrEquals curXid vac \<and> IsUnderPostmaster env \<and> \<not> InRecovery env
           then [PMSIGNAL_START_AUTOVAC_LAUNCHER] else [])
          @ (if TransactionIdFollowsOrEquals curXid warn \<and> \<not> InRecovery env
             then [Must_be_vacuumed (if IsTransactionState env then get_database_name env oldest_datoid else None)
                     oldest_datoid (wrap - curXid)]
             else []),
          vc\<lparr>vc_oldestXid := oldest_datfrozenxid, vc_xidVacLimit := vac, vc_xidWarnLimit := warn, vc_xidStopLimit := stop,
             vc_xidWrapLimit := wrap, vc_oldestXidDB := oldest_datoid\<rparr>))"

definition ForceTransactionIdLimitUpdate :: "(Oid \<Rightarrow> bool) \<Rightarrow> VariableCacheData \<Rightarrow> bool" where
  "ForceTransactionIdLimitUpdate database_exists vc =
     (if \<not> TransactionIdIsNormal (vc_oldestXid vc) then True
      else if \<not> TransactionIdIsValid (vc_xidVacLimit vc) then True
      else if past_xidVacLimit vc then True
      else \<not> database_exists (vc_oldestXidDB vc))"

section \<open>Object identifiers\<close>

record CheckPoint =
  ckpt_nextXidEpoch :: uint32
  ckpt_nextXid :: TransactionId
  ckpt_nextOid :: Oid
  ckpt_oldestXid :: TransactionId
  ckpt_oldestXidDB :: Oid

datatype XLogInfo =
    XLOG_NEXTOID Oid
  | XLOG_CHECKPOINT_SHUTDOWN CheckPoint
  | XLOG_CHECKPOINT_ONLINE CheckPoint
  | XLOG_OTHER

record XLogRecord =
  xl_xid :: TransactionId
  xl_info :: XLogInfo

definition XLogPutNextOid :: "Oid \<Rightarrow> TransactionId \<Rightarrow> XLogRecord" where
  "XLogPutNextOid nextOid curxid = \<lparr>xl_xid = curxid, xl_info = XLOG_NEXTOID nextOid\<rparr>"

definition oid_wraparound :: "BackendMode \<Rightarrow> VariableCacheData \<Rightarrow> VariableCacheData" where
  "oid_wraparound env vc =
     (if vc_nextOid vc < FirstNormalObjectId
      then if IsPostmasterEnvironment env then vc\<lparr>vc_nextOid := FirstNormalObjectId, vc_oidCount := 0\<rparr>
           else if vc_nextOid vc < FirstBootstrapObjectId then vc\<lparr>vc_nextOid := FirstBootstrapObjectId, vc_oidCount := 0\<rparr>
           else vc
      else vc)"

text \<open>The result comes with the records written to the log.\<close>

definition GetNewObjectId ::
    "BackendMode \<Rightarrow> TransactionId \<Rightarrow> VariableCacheData \<Rightarrow> pg_error + Oid \<times> XLogRecord list \<times> VariableCacheData" where
  "GetNewObjectId env curxid vc0 =
     (if RecoveryInProgress env then Inl (Elog ''cannot assign OIDs during recovery'')
      else let vc1 = oid_wraparound env vc0;
               (recs, vc2) = (if vc_oidCount vc1 = 0
                              then ([XLogPutNextOid (vc_nextOid vc1 + VAR_OID_PREFETCH) curxid], vc1\<lparr>vc_oidCount := VAR_OID_PREFETCH\<rparr>)
                              else ([], vc1))
           in Inr (vc_nextOid vc2, recs, vc2\<lparr>vc_nextOid := vc_nextOid vc2 + 1, vc_oidCount := vc_oidCount vc2 - 1\<rparr>))"

section \<open>Checkpoints and recovery of the counters\<close>

text \<open>The counters that go into a checkpoint record; \<open>prev\<close> is the previous checkpoint in the control file.\<close>

definition checkpoint_counters :: "bool \<Rightarrow> CheckPoint \<Rightarrow> VariableCacheData \<Rightarrow> CheckPoint" where
  "checkpoint_counters shutdown prev vc =
     \<lparr>ckpt_nextXidEpoch = (if vc_nextXid vc < ckpt_nextXid prev then ckpt_nextXidEpoch prev + 1 else ckpt_nextXidEpoch prev),
      ckpt_nextXid = vc_nextXid vc,
      ckpt_nextOid = (if \<not> shutdown then vc_nextOid vc + vc_oidCount vc else vc_nextOid vc),
      ckpt_oldestXid = vc_oldestXid vc, ckpt_oldestXidDB = vc_oldestXidDB vc\<rparr>"

definition GetNextXidAndEpoch :: "CheckPoint \<Rightarrow> VariableCacheData \<Rightarrow> TransactionId \<times> uint32" where
  "GetNextXidAndEpoch ckpt vc =
     (let nextXid = ReadNewTransactionId vc
      in (nextXid, if nextXid < ckpt_nextXid ckpt then ckpt_nextXidEpoch ckpt + 1 else ckpt_nextXidEpoch ckpt))"

definition redo_checkpoint_online :: "BackendMode \<Rightarrow> CheckPoint \<Rightarrow> VariableCacheData \<Rightarrow> VariableCacheData" where
  "redo_checkpoint_online env c vc =
     (let vc1 = (if TransactionIdPrecedes (vc_nextXid vc) (ckpt_nextXid c) then vc\<lparr>vc_nextXid := ckpt_nextXid c\<rparr> else vc);
          vc2 = vc1\<lparr>vc_nextOid := ckpt_nextOid c, vc_oidCount := 0\<rparr>
      in if TransactionIdPrecedes (vc_oldestXid vc2) (ckpt_oldestXid c)
         then snd (SetTransactionIdLimit env (ckpt_oldestXid c) (ckpt_oldestXidDB c) vc2) else vc2)"

definition xlog_redo :: "BackendMode \<Rightarrow> XLogInfo \<Rightarrow> VariableCacheData \<Rightarrow> VariableCacheData" where
  "xlog_redo env info vc =
     (case info of
        XLOG_NEXTOID nextOid \<Rightarrow> vc\<lparr>vc_nextOid := nextOid, vc_oidCount := 0\<rparr>
      | XLOG_CHECKPOINT_SHUTDOWN c \<Rightarrow>
          snd (SetTransactionIdLimit env (ckpt_oldestXid c) (ckpt_oldestXidDB c)
            (vc\<lparr>vc_nextXid := ckpt_nextXid c, vc_nextOid := ckpt_nextOid c, vc_oidCount := 0\<rparr>))
      | XLOG_CHECKPOINT_ONLINE c \<Rightarrow> redo_checkpoint_online env c vc
      | XLOG_OTHER \<Rightarrow> vc)"

definition redo_record :: "BackendMode \<Rightarrow> XLogRecord \<Rightarrow> VariableCacheData \<Rightarrow> VariableCacheData" where
  "redo_record env r vc =
     xlog_redo env (xl_info r)
       (if TransactionIdFollowsOrEquals (xl_xid r) (vc_nextXid vc)
        then vc\<lparr>vc_nextXid := TransactionIdAdvance (xl_xid r)\<rparr> else vc)"

text \<open>Start from the checkpoint of the control file and replay the log that follows its redo point.\<close>

definition StartupXLOG :: "BackendMode \<Rightarrow> CheckPoint \<Rightarrow> XLogRecord list \<Rightarrow> VariableCacheData \<Rightarrow> pg_error + VariableCacheData" where
  "StartupXLOG env c wal vc =
     (if \<not> TransactionIdIsNormal (ckpt_nextXid c) then Inl (Elog ''invalid next transaction ID'')
      else let vc0 = snd (SetTransactionIdLimit env (ckpt_oldestXid c) (ckpt_oldestXidDB c)
                       (vc\<lparr>vc_nextXid := ckpt_nextXid c, vc_nextOid := ckpt_nextOid c, vc_oidCount := 0\<rparr>));
               vc1 = fold (redo_record env) wal vc0
           in Inr (vc1\<lparr>vc_latestCompletedXid := TransactionIdRetreat (vc_nextXid vc1)\<rparr>))"

section \<open>No wrap-around\<close>

text \<open>The number of assignments between two normal identifiers: permanent ones are not assigned.\<close>

definition assigned_between :: "TransactionId \<Rightarrow> TransactionId \<Rightarrow> nat" where
  "assigned_between base x =
     (if unat base \<le> unat x then unat x - unat base else unat x + 4294967293 - unat base)"

lemma xid_age_unat: "xid_age base x = (if unat base \<le> unat x then unat x - unat base else unat x + 4294967296 - unat base)"
  by (simp add: xid_age_def unat_sub_if')

lemma xid_age_assigned: "assigned_between base x \<le> xid_age base x \<and> xid_age base x \<le> assigned_between base x + 3"
  using unat_less_32 [of base] by (auto simp: xid_age_unat assigned_between_def)

lemma assigned_less_iff:
  assumes "TransactionIdIsNormal base" "TransactionIdIsNormal x" "TransactionIdIsNormal y"
  shows "assigned_between base x < assigned_between base y \<longleftrightarrow> xid_age base x < xid_age base y"
  using assms unat_less_32 [of base] unat_less_32 [of x] unat_less_32 [of y]
  by (auto simp: xid_age_unat assigned_between_def normal_ge_3)

lemma unat_Advance:
  assumes "TransactionIdIsNormal x"
  shows "unat (TransactionIdAdvance x) = (if unat x = 4294967295 then 3 else unat x + 1)"
  using assms by (auto simp: TransactionIdAdvance_age MaxTransactionId_def unat_plus_one_32 word_unat_eq_iff)

lemma normal_Advance [simp]: "TransactionIdIsNormal (TransactionIdAdvance x)"
  by (simp add: TransactionIdAdvance_def TransactionIdIsNormal_def Let_def not_less)

lemma assigned_Advance:
  assumes "TransactionIdIsNormal base" "TransactionIdIsNormal x" "assigned_between base x < 4294967292"
  shows "assigned_between base (TransactionIdAdvance x) = assigned_between base x + 1"
  using assms unat_less_32 [of base] unat_less_32 [of x]
  by (auto simp: assigned_between_def unat_Advance normal_ge_3)

lemma assigned_split:
  assumes "TransactionIdIsNormal a" "TransactionIdIsNormal b" "TransactionIdIsNormal c"
    and "assigned_between a b \<le> assigned_between a c"
  shows "assigned_between b c = assigned_between a c - assigned_between a b"
  using assms unat_less_32 [of a] unat_less_32 [of b] unat_less_32 [of c]
  by (auto simp: assigned_between_def normal_ge_3 split: if_splits)

text \<open>The limits lie where they should.\<close>

lemma add_limit:
  fixes l :: TransactionId
  assumes "TransactionIdIsNormal oldest" "n < 2147483648" "l = oldest + of_nat n"
  defines "r \<equiv> (if l < FirstNormalTransactionId then l + FirstNormalTransactionId else l)"
  shows "TransactionIdIsNormal r \<and> n \<le> xid_age oldest r \<and> xid_age oldest r \<le> n + 3"
proof -
  have o3: "3 \<le> unat oldest" using assms(1) by (simp add: normal_ge_3)
  have l: "unat l = (unat oldest + n) mod 4294967296"
    using assms(2) by (simp add: assms(3) unat_word_ariths unat_of_nat mod_add_right_eq)
  show ?thesis
  proof (cases "unat l < 3")
    case True
    then have "l < FirstNormalTransactionId" by (simp add: FirstNormalTransactionId_def word_less_nat_alt)
    then have "r = l + 3" by (simp add: r_def FirstNormalTransactionId_def)
    then have "unat r = unat l + 3" using True by (simp add: unat_word_ariths)
    moreover have "unat l = unat oldest + n - 4294967296" "4294967296 \<le> unat oldest + n"
      using True l o3 unat_less_32 [of oldest] assms(2) by (auto simp: mod_if split: if_splits)
    ultimately show ?thesis using assms(2) unat_less_32 [of oldest] by (auto simp: normal_ge_3 xid_age_unat)
  next
    case False
    then have "r = l" by (simp add: r_def FirstNormalTransactionId_def word_less_nat_alt)
    moreover have "unat l = unat oldest + n \<or> unat l = unat oldest + n - 4294967296 \<and> 4294967296 \<le> unat oldest + n"
      using l unat_less_32 [of oldest] assms(2) by (auto simp: mod_if)
    ultimately show ?thesis using False assms(2) unat_less_32 [of oldest] by (auto simp: normal_ge_3 xid_age_unat)
  qed
qed

lemma xid_wrap_limit_spec:
  "TransactionIdIsNormal oldest \<Longrightarrow>
   TransactionIdIsNormal (xid_wrap_limit oldest) \<and> 2147483647 \<le> xid_age oldest (xid_wrap_limit oldest)
   \<and> xid_age oldest (xid_wrap_limit oldest) \<le> 2147483650"
  using add_limit [of oldest 2147483647 "oldest + 2147483647"]
  by (simp add: xid_wrap_limit_def MaxTransactionId_def drop_bit_eq_div Let_def)

lemma xid_vac_limit_spec:
  "TransactionIdIsNormal oldest \<Longrightarrow> n \<le> 2000000000 \<Longrightarrow>
   TransactionIdIsNormal (xid_vac_limit oldest n) \<and> n \<le> xid_age oldest (xid_vac_limit oldest n)
   \<and> xid_age oldest (xid_vac_limit oldest n) \<le> n + 3"
  using add_limit [of oldest n "oldest + of_nat n"] by (simp add: xid_vac_limit_def Let_def)

lemma xid_limit_before_spec:
  assumes "TransactionIdIsNormal oldest" "TransactionIdIsNormal l" "n + 3 \<le> xid_age oldest l" "n < 4294967296"
  shows "TransactionIdIsNormal (xid_limit_before l (of_nat n))
    \<and> xid_age oldest l - n - 3 \<le> xid_age oldest (xid_limit_before l (of_nat n))
    \<and> xid_age oldest (xid_limit_before l (of_nat n)) \<le> xid_age oldest l - n"
proof -
  define d where "d = l - of_nat n"
  have age: "xid_age oldest d = xid_age oldest l - n"
  proof -
    have eq: "d - oldest = (l - oldest) - of_nat n" by (simp add: d_def)
    have "(of_nat n :: 32 word) \<le> l - oldest"
      using assms(3,4) by (simp add: word_le_nat_alt unat_of_nat xid_age_def)
    then have "unat (d - oldest) = unat (l - oldest) - unat (of_nat n :: 32 word)" unfolding eq by (rule unat_sub)
    then show ?thesis using assms(4) by (simp add: xid_age_def unat_of_nat)
  qed
  show ?thesis
  proof (cases "d < FirstNormalTransactionId")
    case True
    then have r: "xid_limit_before l (of_nat n) = d - 3" by (simp add: xid_limit_before_def d_def FirstNormalTransactionId_def Let_def)
    have "unat d < 3" using True by (simp add: FirstNormalTransactionId_def word_less_nat_alt)
    then have u: "unat (d - 3) = unat d + 4294967293" by (simp add: unat_sub_if' word_le_nat_alt unat_word_ariths)
    have "xid_age oldest (d - 3) = xid_age oldest d - 3"
    proof -
      have "(3 :: 32 word) \<le> d - oldest" using age assms(3) by (simp add: word_le_nat_alt xid_age_def)
      then have "unat ((d - oldest) - 3) = unat (d - oldest) - unat (3 :: 32 word)" by (rule unat_sub)
      moreover have eq: "d - 3 - oldest = (d - oldest) - 3" by (simp only: diff_diff_eq add.commute)
      ultimately show ?thesis unfolding xid_age_def eq by simp
    qed
    then show ?thesis using r u age by (simp add: normal_ge_3)
  next
    case False
    then have "xid_limit_before l (of_nat n) = d" by (simp add: xid_limit_before_def d_def Let_def)
    then show ?thesis using False age by (simp add: TransactionIdIsNormal_def not_less)
  qed
qed

lemma SetTransactionIdLimit_limits:
  fixes vc db
  assumes "TransactionIdIsNormal oldest" "autovacuum_freeze_max_age env \<le> 2000000000"
  defines "vc' \<equiv> snd (SetTransactionIdLimit env oldest db vc)"
  shows "TransactionIdIsNormal (vc_xidStopLimit vc') \<and> TransactionIdIsNormal (vc_xidVacLimit vc') \<and> TransactionIdIsNormal (vc_xidWarnLimit vc')
    \<and> 2146483644 \<le> xid_age oldest (vc_xidStopLimit vc') \<and> xid_age oldest (vc_xidStopLimit vc') \<le> 2146483650
    \<and> xid_age oldest (vc_xidVacLimit vc') \<le> 2000000003 \<and> autovacuum_freeze_max_age env \<le> xid_age oldest (vc_xidVacLimit vc')
    \<and> 2136483641 \<le> xid_age oldest (vc_xidWarnLimit vc') \<and> xid_age oldest (vc_xidWarnLimit vc') \<le> 2136483650
    \<and> vc_oldestXid vc' = oldest \<and> vc_nextXid vc' = vc_nextXid vc"
proof -
  let ?w = "xid_wrap_limit oldest"
  let ?s = "xid_limit_before ?w 1000000"
  note w = xid_wrap_limit_spec [OF assms(1)]
  have s: "TransactionIdIsNormal ?s \<and> xid_age oldest ?w - 1000000 - 3 \<le> xid_age oldest ?s \<and> xid_age oldest ?s \<le> xid_age oldest ?w - 1000000"
    using xid_limit_before_spec [OF assms(1), of ?w 1000000] w by simp
  have n: "TransactionIdIsNormal (xid_limit_before ?s 10000000)
     \<and> xid_age oldest ?s - 10000000 - 3 \<le> xid_age oldest (xid_limit_before ?s 10000000)
     \<and> xid_age oldest (xid_limit_before ?s 10000000) \<le> xid_age oldest ?s - 10000000"
  proof -
    have "10000000 + 3 \<le> xid_age oldest ?s" using s w by linarith
    then show ?thesis using xid_limit_before_spec [OF assms(1), of ?s 10000000] s by simp
  qed
  show ?thesis
    using w s n xid_vac_limit_spec [OF assms(1,2)] assms(2)
    unfolding vc'_def SetTransactionIdLimit_def Let_def by simp linarith
qed

text \<open>
  Backends below \<open>n\<close> assign identifiers concurrently.  A backend that finds the counter past the first limit
  checks the other limits without the lock (\<open>checked\<close> is the set of those that passed) and
  takes its identifier later, from whatever the counter is by then.  Meanwhile the
  limits may be set again for a later oldest identifier.
\<close>

inductive xid_steps :: "BackendMode \<Rightarrow> nat \<Rightarrow> XidGen \<times> nat set \<Rightarrow> XidGen \<times> nat set \<Rightarrow> bool" for env n where
  start: "xid_steps env n s s"
| check: "xid_steps env n s (g, checked) \<Longrightarrow> b < n \<Longrightarrow> b \<notin> checked \<Longrightarrow> past_xidVacLimit (xg_cache g)
    \<Longrightarrow> snd (check_xid_limits env (xg_cache g)) = None \<Longrightarrow> xid_steps env n s (g, insert b checked)"
| assign: "xid_steps env n s (g, checked) \<Longrightarrow> b \<in> checked
    \<Longrightarrow> xid_steps env n s (snd (assign_xid isSubXact b g), checked - {b})"
| direct: "xid_steps env n s (g, checked) \<Longrightarrow> b < n \<Longrightarrow> b \<notin> checked \<Longrightarrow> \<not> past_xidVacLimit (xg_cache g)
    \<Longrightarrow> xid_steps env n s (snd (assign_xid isSubXact b g), checked)"
| set_limit: "xid_steps env n s (g, checked) \<Longrightarrow> TransactionIdIsNormal oldest
    \<Longrightarrow> xid_age (vc_oldestXid (xg_cache g)) oldest \<le> xid_age (vc_oldestXid (xg_cache g)) (vc_nextXid (xg_cache g))
    \<Longrightarrow> xid_steps env n s (g\<lparr>xg_cache := snd (SetTransactionIdLimit env oldest db (xg_cache g))\<rparr>, checked)"

definition limits_of_oldest :: "BackendMode \<Rightarrow> VariableCacheData \<Rightarrow> bool" where
  "limits_of_oldest env vc \<longleftrightarrow> vc = snd (SetTransactionIdLimit env (vc_oldestXid vc) (vc_oldestXidDB vc) vc)
     \<and> TransactionIdIsNormal (vc_oldestXid vc) \<and> TransactionIdIsNormal (vc_nextXid vc)"

definition xid_room :: "BackendMode \<Rightarrow> nat \<Rightarrow> XidGen \<times> nat set \<Rightarrow> bool" where
  "xid_room env n s \<longleftrightarrow> limits_of_oldest env (xg_cache (fst s)) \<and> snd s \<subseteq> {..<n}
     \<and> assigned_between (vc_oldestXid (xg_cache (fst s))) (vc_nextXid (xg_cache (fst s))) + card (snd s) \<le> 2146483650 + n"

lemma limits_of_oldest_limits:
  assumes "limits_of_oldest env vc" "autovacuum_freeze_max_age env \<le> 2000000000"
  shows "TransactionIdIsNormal (vc_xidStopLimit vc)" "TransactionIdIsNormal (vc_xidVacLimit vc)"
    "xid_age (vc_oldestXid vc) (vc_xidStopLimit vc) \<le> 2146483650" "xid_age (vc_oldestXid vc) (vc_xidVacLimit vc) \<le> 2000000003"
proof -
  have e: "vc = snd (SetTransactionIdLimit env (vc_oldestXid vc) (vc_oldestXidDB vc) vc)" "TransactionIdIsNormal (vc_oldestXid vc)"
    using assms(1) by (simp_all add: limits_of_oldest_def)
  note l = SetTransactionIdLimit_limits [OF e(2) assms(2), of "vc_oldestXidDB vc" vc, folded e(1)]
  then show "TransactionIdIsNormal (vc_xidStopLimit vc)" "TransactionIdIsNormal (vc_xidVacLimit vc)"
    "xid_age (vc_oldestXid vc) (vc_xidStopLimit vc) \<le> 2146483650" "xid_age (vc_oldestXid vc) (vc_xidVacLimit vc) \<le> 2000000003"
    by simp_all
qed

lemma not_follows_assigned:
  assumes "TransactionIdIsNormal base" "TransactionIdIsNormal x" "TransactionIdIsNormal l"
    and "xid_age base x < 2147483648" "xid_age base l \<le> 2146483650" "\<not> TransactionIdFollowsOrEquals x l"
  shows "assigned_between base x < 2146483650"
proof -
  have "xid_age base x < xid_age base l"
    using assms precedes_normal_window(4) [of x l base] by simp
  then show ?thesis using assms(5) xid_age_assigned [of base x] by simp
qed

lemma xid_room_age:
  "xid_room env n (g, c) \<Longrightarrow> n \<le> 990000 \<Longrightarrow> xid_age (vc_oldestXid (xg_cache g)) (vc_nextXid (xg_cache g)) < 2147483648"
  using xid_age_assigned [of "vc_oldestXid (xg_cache g)" "vc_nextXid (xg_cache g)"] by (simp add: xid_room_def)

lemma assign_xid_room:
  assumes "limits_of_oldest env (xg_cache g)" "n \<le> 990000" "c' \<subseteq> {..<n}"
    and "assigned_between (vc_oldestXid (xg_cache g)) (vc_nextXid (xg_cache g)) + 1 + card c' \<le> 2146483650 + n"
  shows "xid_room env n (snd (assign_xid isSubXact b g), c')"
proof -
  have "TransactionIdIsNormal (vc_oldestXid (xg_cache g))" "TransactionIdIsNormal (vc_nextXid (xg_cache g))"
    using assms(1) by (simp_all add: limits_of_oldest_def)
  then have "assigned_between (vc_oldestXid (xg_cache g)) (TransactionIdAdvance (vc_nextXid (xg_cache g)))
      = assigned_between (vc_oldestXid (xg_cache g)) (vc_nextXid (xg_cache g)) + 1"
    using assms(2,4) by (intro assigned_Advance) auto
  moreover have "limits_of_oldest env (xg_cache (snd (assign_xid isSubXact b g)))"
    using assms(1) by (cases "xg_cache g") (simp add: limits_of_oldest_def assign_xid_def SetTransactionIdLimit_def Let_def)
  ultimately show ?thesis using assms by (simp add: xid_room_def assign_xid_def Let_def)
qed

lemma xid_room_steps:
  assumes "xid_steps env n s s'" "xid_room env n s" "IsUnderPostmaster env" "autovacuum_freeze_max_age env \<le> 2000000000" "n \<le> 990000"
  shows "xid_room env n s'"
  using assms(1,2)
proof (induction rule: xid_steps.induct)
  case (check s g checked b)
  let ?vc = "xg_cache g"
  have r: "xid_room env n (g, checked)" using check by blast
  then have l: "limits_of_oldest env ?vc" by (simp add: xid_room_def)
  have "\<not> TransactionIdFollowsOrEquals (vc_nextXid ?vc) (vc_xidStopLimit ?vc)"
    using check.hyps(5) assms(3) by (auto simp: check_xid_limits_def Let_def split: if_splits)
  then have "assigned_between (vc_oldestXid ?vc) (vc_nextXid ?vc) < 2146483650"
    using not_follows_assigned l limits_of_oldest_limits [OF l assms(4)] xid_room_age [OF r assms(5)]
    by (simp add: limits_of_oldest_def)
  moreover have sub: "insert b checked \<subseteq> {..<n}" using r check.hyps by (simp add: xid_room_def)
  moreover have "card (insert b checked) \<le> n" using card_mono [OF _ sub] by simp
  ultimately show ?case using l by (simp add: xid_room_def)
next
  case (assign s g checked b isSubXact)
  have r: "xid_room env n (g, checked)" using assign by blast
  then have "finite checked" using finite_subset by (auto simp: xid_room_def)
  then have "card checked = card (checked - {b}) + 1" using assign.hyps(2) by (metis Suc_eq_plus1 card.remove)
  then show ?case using r assms(5) by (intro assign_xid_room) (auto simp: xid_room_def)
next
  case (direct s g checked b isSubXact)
  let ?vc = "xg_cache g"
  have r: "xid_room env n (g, checked)" using direct by blast
  then have l: "limits_of_oldest env ?vc" by (simp add: xid_room_def)
  then have "assigned_between (vc_oldestXid ?vc) (vc_nextXid ?vc) < 2146483650"
    using not_follows_assigned [of "vc_oldestXid ?vc" "vc_nextXid ?vc" "vc_xidVacLimit ?vc"] limits_of_oldest_limits [OF l assms(4)]
      xid_room_age [OF r assms(5)] direct.hyps(4)
    by (simp add: limits_of_oldest_def past_xidVacLimit_def)
  moreover have "card (insert b checked) \<le> n" using card_mono [of "{..<n}" "insert b checked"] r direct.hyps(2) by (simp add: xid_room_def)
  moreover have "card (insert b checked) = Suc (card checked)"
    using r direct.hyps(3) finite_subset [of checked "{..<n}"] by (simp add: xid_room_def)
  ultimately show ?case using r assms(5) l by (intro assign_xid_room) (auto simp: xid_room_def)
next
  case (set_limit s g checked oldest db)
  let ?vc = "xg_cache g"
  have r: "xid_room env n (g, checked)" using set_limit by blast
  then have norm: "TransactionIdIsNormal (vc_oldestXid ?vc)" "TransactionIdIsNormal (vc_nextXid ?vc)"
    by (simp_all add: xid_room_def limits_of_oldest_def)
  have "assigned_between (vc_oldestXid ?vc) oldest \<le> assigned_between (vc_oldestXid ?vc) (vc_nextXid ?vc)"
    using assigned_less_iff [OF norm(1,2) set_limit.hyps(2)] set_limit.hyps(3) by (simp add: not_less [symmetric])
  then have "assigned_between oldest (vc_nextXid ?vc) \<le> assigned_between (vc_oldestXid ?vc) (vc_nextXid ?vc)"
    using assigned_split [OF norm(1) set_limit.hyps(2) norm(2)] by simp
  moreover have "limits_of_oldest env (snd (SetTransactionIdLimit env oldest db ?vc))"
    using set_limit.hyps(2) norm(2) by (simp add: limits_of_oldest_def SetTransactionIdLimit_def Let_def)
  ultimately show ?case using r by (simp add: xid_room_def SetTransactionIdLimit_def Let_def)
qed

text \<open>C11. Transaction identifiers do not wrap around.  Under a postmaster with at most 990000 backends that assign
  identifiers concurrently, each checking the limits without the lock, and with any sequence of
  new limits, every identifier from the oldest one in use up to the counter
  precedes the counter: all identifiers in use are within half the circle.\<close>

theorem xids_never_wrap:
  assumes "xid_steps env n (g, {}) (g', checked)" "IsUnderPostmaster env" "autovacuum_freeze_max_age env \<le> 2000000000" "n \<le> 990000"
    and "limits_of_oldest env (xg_cache g)" "xid_age (vc_oldestXid (xg_cache g)) (vc_nextXid (xg_cache g)) \<le> 2146483650"
    and "TransactionIdIsNormal x"
    and "xid_age (vc_oldestXid (xg_cache g')) x < xid_age (vc_oldestXid (xg_cache g')) (vc_nextXid (xg_cache g'))"
  shows "TransactionIdPrecedes x (vc_nextXid (xg_cache g')) \<and> TransactionIdPrecedesOrEquals (vc_oldestXid (xg_cache g')) x"
proof -
  have "xid_room env n (g, {})"
    using assms(5,6) xid_age_assigned [of "vc_oldestXid (xg_cache g)" "vc_nextXid (xg_cache g)"] by (simp add: xid_room_def)
  then have r: "xid_room env n (g', checked)" using xid_room_steps assms by blast
  note age = xid_room_age [OF r assms(4)]
  have norm: "TransactionIdIsNormal (vc_oldestXid (xg_cache g'))" "TransactionIdIsNormal (vc_nextXid (xg_cache g'))"
    using r by (simp_all add: xid_room_def limits_of_oldest_def)
  show ?thesis
    using precedes_normal_window(1) [OF assms(7) norm(2), of "vc_oldestXid (xg_cache g')"]
      precedes_normal_window(2) [OF norm(1) assms(7), of "vc_oldestXid (xg_cache g')"] age assms(8)
    by (simp add: xid_age_def)
qed

definition server_mode :: BackendMode where
  "server_mode = \<lparr>IsBootstrapProcessingMode = False, RecoveryInProgress = False, InRecovery = False, IsUnderPostmaster = True,
     IsPostmasterEnvironment = True, IsTransactionState = True, autovacuum_freeze_max_age = 200000000,
     get_database_name = (\<lambda>_. None)\<rparr>"

definition zero_proc :: PGPROC where
  "zero_proc = \<lparr>p_lxid = 0, p_xid = 0, p_xmin = 0, p_pid = 0, p_backendId = 0, p_databaseId = 0, p_roleId = 0, p_inCommit = False, p_vacuumFlags = 0,
     p_recoveryConflictPending = False, p_waitLock = False, p_subxids = \<lparr>xc_overflowed = False, xc_nxids = 0, xc_xids = replicate 64 0\<rparr>\<rparr>"

definition start_cache :: "TransactionId \<Rightarrow> TransactionId \<Rightarrow> VariableCacheData" where
  "start_cache oldest next = snd (SetTransactionIdLimit server_mode oldest 1
     \<lparr>vc_nextOid = 16384, vc_oidCount = 0, vc_nextXid = next, vc_oldestXid = 0, vc_xidVacLimit = 0, vc_xidWarnLimit = 0,
      vc_xidStopLimit = 0, vc_xidWrapLimit = 0, vc_oldestXidDB = 0, vc_latestCompletedXid = next - 1\<rparr>)"

definition start_gen :: "TransactionId \<Rightarrow> TransactionId \<Rightarrow> XidGen" where
  "start_gen oldest next = \<lparr>xg_cache = start_cache oldest next, xg_clog = clog_zero, xg_sub = sub_zero, xg_procs = (\<lambda>_. zero_proc)\<rparr>"

text \<open>The counter is about to pass the largest word; two backends check and then both take an identifier.\<close>

theorem xids_never_wrap_witness:
  "\<exists>g'. xid_steps server_mode 2 (start_gen 4000000000 4294967295, {}) (g', {}) \<and> vc_nextXid (xg_cache g') = 4
     \<and> TransactionIdPrecedes 4294967295 (vc_nextXid (xg_cache g'))"
proof -
  let ?g = "start_gen 4000000000 4294967295"
  let ?g1 = "snd (assign_xid False 0 ?g)"
  let ?g2 = "snd (assign_xid False 1 ?g1)"
  note vals = start_gen_def start_cache_def server_mode_def SetTransactionIdLimit_def xid_wrap_limit_def xid_limit_before_def
    xid_vac_limit_def FirstNormalTransactionId_def MaxTransactionId_def past_xidVacLimit_def check_xid_limits_def
    TransactionIdFollowsOrEquals_def TransactionIdIsNormal_def Let_def
  have past: "past_xidVacLimit (xg_cache ?g)" "snd (check_xid_limits server_mode (xg_cache ?g)) = None"
    by (simp_all add: vals)
  have "xid_steps server_mode 2 (?g, {}) (?g, {1, 0})"
    using xid_steps.check [OF xid_steps.check [OF xid_steps.start, of 0 2 "{}" ?g server_mode], of 1] past by (auto simp: insert_commute)
  then have "xid_steps server_mode 2 (?g, {}) (?g1, {1, 0} - {0})" by (rule xid_steps.assign) simp
  then have "xid_steps server_mode 2 (?g, {}) (?g2, {1, 0} - {0} - {1})" by (rule xid_steps.assign) simp
  moreover have "{1, 0} - {0} - {1 :: nat} = {}" by auto
  ultimately have s: "xid_steps server_mode 2 (?g, {}) (?g2, {})" by (simp only:)
  have v: "vc_nextXid (xg_cache ?g2) = 4" "vc_oldestXid (xg_cache ?g2) = 4000000000"
    by (simp_all add: assign_xid_def TransactionIdAdvance_def vals)
  have "limits_of_oldest server_mode (xg_cache ?g)" by (simp add: limits_of_oldest_def vals)
  then have "TransactionIdPrecedes 4294967295 (vc_nextXid (xg_cache ?g2))"
    using xids_never_wrap [OF s, of 4294967295] v
    by (simp add: server_mode_def xid_age_def normal_ge_3) (simp add: vals xid_age_def)
  then show ?thesis using s v(1) by blast
qed

section \<open>New identifiers are fresh\<close>

text \<open>From the counter to the end of its page both logs are clear, unless the page is still to be opened.\<close>

definition logs_ready :: "XidGen \<Rightarrow> bool" where
  "logs_ready g \<longleftrightarrow>
     (let next = vc_nextXid (xg_cache g)
      in clog_wf (xg_clog g) \<and> sub_wf (xg_sub g) \<and> TransactionIdIsNormal next
         \<and> (TransactionIdToPgIndex next \<noteq> 0 \<and> next \<noteq> FirstNormalTransactionId \<longrightarrow>
              (\<forall>y. TransactionIdToPage y = TransactionIdToPage next \<and> next \<le> y \<longrightarrow> clog_status (xg_clog g) y = TRANSACTION_STATUS_IN_PROGRESS))
         \<and> (TransactionIdToEntry next \<noteq> 0 \<and> next \<noteq> FirstNormalTransactionId \<longrightarrow>
              (\<forall>y. SubTrans_TransactionIdToPage y = SubTrans_TransactionIdToPage next \<and> next \<le> y \<longrightarrow>
                 SubTransGetParent (xg_sub g) y = InvalidTransactionId)))"

lemma Advance_same_page:
  assumes "TransactionIdIsNormal x" "unat (TransactionIdAdvance x) mod k \<noteq> 0" "TransactionIdAdvance x \<noteq> FirstNormalTransactionId" "0 < k"
  shows "unat (TransactionIdAdvance x) div k = unat x div k \<and> x \<le> TransactionIdAdvance x"
proof -
  have "unat x \<noteq> 4294967295"
    using assms(3) unat_Advance [OF assms(1)] by (auto simp: FirstNormalTransactionId_def word_unat_eq_iff)
  then have u: "unat (TransactionIdAdvance x) = unat x + 1" using unat_Advance [OF assms(1)] by simp
  then have "(unat x + 1) div k = unat x div k" using assms(2) by (simp add: div_Suc)
  then show ?thesis using u by (simp add: word_le_nat_alt)
qed

lemma clog_page_div: "TransactionIdToPage x = unat x div 32768" "TransactionIdToPgIndex x = unat x mod 32768"
  "SubTrans_TransactionIdToPage x = unat x div 2048" "TransactionIdToEntry x = unat x mod 2048"
  by (simp_all add: TransactionIdToPage_def TransactionIdToPgIndex_def CLOG_XACTS_PER_PAGE_def CLOG_XACTS_PER_BYTE_def BLCKSZ_def
    SubTrans_TransactionIdToPage_def TransactionIdToEntry_def SUBTRANS_XACTS_PER_PAGE_def)

lemma assign_xid_fresh:
  assumes "logs_ready g" "assign_xid isSubXact b g = (xid, g')"
  shows "logs_ready g' \<and> clog_status (xg_clog g') xid = TRANSACTION_STATUS_IN_PROGRESS
    \<and> SubTransGetParent (xg_sub g') xid = InvalidTransactionId"
proof -
  let ?n = "vc_nextXid (xg_cache g)"
  have wf: "clog_wf (xg_clog g)" "sub_wf (xg_sub g)" "TransactionIdIsNormal ?n"
    and c: "TransactionIdToPgIndex ?n \<noteq> 0 \<and> ?n \<noteq> FirstNormalTransactionId \<Longrightarrow> TransactionIdToPage y = TransactionIdToPage ?n \<Longrightarrow> ?n \<le> y
      \<Longrightarrow> clog_status (xg_clog g) y = TRANSACTION_STATUS_IN_PROGRESS"
    and p: "TransactionIdToEntry ?n \<noteq> 0 \<and> ?n \<noteq> FirstNormalTransactionId \<Longrightarrow> SubTrans_TransactionIdToPage y = SubTrans_TransactionIdToPage ?n
      \<Longrightarrow> ?n \<le> y \<Longrightarrow> SubTransGetParent (xg_sub g) y = InvalidTransactionId" for y
    using assms(1) by (simp_all add: logs_ready_def Let_def)
  have g': "xid = ?n" "vc_nextXid (xg_cache g') = TransactionIdAdvance ?n" "xg_clog g' = ExtendCLOG ?n (xg_clog g)"
    "xg_sub g' = ExtendSUBTRANS ?n (xg_sub g)"
    using assms(2) by (auto simp: assign_xid_def Let_def)
  have clear: "clog_status (xg_clog g') y = TRANSACTION_STATUS_IN_PROGRESS" if "TransactionIdToPage y = TransactionIdToPage ?n" "?n \<le> y" for y
    using c that ExtendCLOG_status [OF wf(1)] by (auto simp: g'(3))
  have clearp: "SubTransGetParent (xg_sub g') y = InvalidTransactionId"
    if "SubTrans_TransactionIdToPage y = SubTrans_TransactionIdToPage ?n" "?n \<le> y" for y
    using p that by (auto simp: g'(4) Extend_parent)
  have "logs_ready g'"
    unfolding logs_ready_def Let_def g'(2)
  proof (intro conjI impI allI)
    show "clog_wf (xg_clog g')" "sub_wf (xg_sub g')" using wf by (simp_all add: g' ExtendCLOG_wf Extend_wf)
    show "TransactionIdIsNormal (TransactionIdAdvance ?n)" by simp
    fix y
    let ?m = "TransactionIdAdvance ?n"
    show "clog_status (xg_clog g') y = TRANSACTION_STATUS_IN_PROGRESS"
      if "TransactionIdToPgIndex ?m \<noteq> 0 \<and> ?m \<noteq> FirstNormalTransactionId" "TransactionIdToPage y = TransactionIdToPage ?m \<and> ?m \<le> y"
      using that Advance_same_page [OF wf(3), of 32768] clear [of y] by (auto simp: clog_page_div)
    show "SubTransGetParent (xg_sub g') y = InvalidTransactionId"
      if "TransactionIdToEntry ?m \<noteq> 0 \<and> ?m \<noteq> FirstNormalTransactionId" "SubTrans_TransactionIdToPage y = SubTrans_TransactionIdToPage ?m \<and> ?m \<le> y"
      using that Advance_same_page [OF wf(3), of 2048] clearp [of y] by (auto simp: clog_page_div)
  qed
  then show ?thesis using clear [of ?n] clearp [of ?n] g'(1) by simp
qed

text \<open>Where a process shows an identifier it was given.\<close>

definition advertised :: "bool \<Rightarrow> TransactionId \<Rightarrow> PGPROC \<Rightarrow> bool" where
  "advertised isSubXact xid proc \<longleftrightarrow>
     (if isSubXact then xc_overflowed (p_subxids proc) \<or> xid \<in> set (take (xc_nxids (p_subxids proc)) (xc_xids (p_subxids proc)))
      else p_xid proc = xid)"

lemma advertise_advertised:
  "length (xc_xids (p_subxids proc)) = PGPROC_MAX_CACHED_SUBXIDS \<Longrightarrow> advertised isSubXact xid (advertise_xid isSubXact xid proc)"
  by (auto simp: advertised_def advertise_xid_def Let_def take_Suc_conv_app_nth)

text \<open>C15. A new transaction identifier is fresh.  Outside bootstrap, a call either fails and changes nothing, in recovery or past the stop
  limit under a postmaster, or returns the value of the counter, which is normal, in progress
  in the commit log, without a parent in the subtransaction log and advertised in the
  caller's process entry; the counter moves to the next identifier, and the logs
  are ready for it.\<close>

theorem GetNewTransactionId_fresh:
  assumes "logs_ready g" "logs_ready (others g)" "\<not> IsBootstrapProcessingMode env"
    and "length (xc_xids (p_subxids (xg_procs (others g) b))) = PGPROC_MAX_CACHED_SUBXIDS"
    and "length (xc_xids (p_subxids (xg_procs g b))) = PGPROC_MAX_CACHED_SUBXIDS"
    and "GetNewTransactionId env isSubXact b others g = (r, ns, g')"
  shows "case r of
       Inl e \<Rightarrow> g' = g \<and> (RecoveryInProgress env \<or> IsUnderPostmaster env \<and> past_xidVacLimit (xg_cache g)
                          \<and> TransactionIdFollowsOrEquals (vc_nextXid (xg_cache g)) (vc_xidStopLimit (xg_cache g)))
     | Inr xid \<Rightarrow> xid \<in> {vc_nextXid (xg_cache g), vc_nextXid (xg_cache (others g))} \<and> TransactionIdIsNormal xid
         \<and> clog_status (xg_clog g') xid = TRANSACTION_STATUS_IN_PROGRESS
         \<and> SubTransGetParent (xg_sub g') xid = InvalidTransactionId \<and> advertised isSubXact xid (xg_procs g' b)
         \<and> vc_nextXid (xg_cache g') = TransactionIdAdvance xid \<and> logs_ready g'"
proof (cases r)
  case (Inl e)
  then show ?thesis
    using assms(3,6)
    by (auto simp: GetNewTransactionId_def check_xid_limits_def Let_def split: if_splits prod.splits option.splits)
next
  case (Inr xid)
  then obtain g0 where g0: "g0 = g \<or> g0 = others g" "assign_xid isSubXact b g0 = (xid, g')"
    using assms(3,6) by (auto simp: GetNewTransactionId_def Let_def split: if_splits prod.splits option.splits)
  have "advertised isSubXact xid (xg_procs g' b)"
    using g0 assms(4,5) advertise_advertised by (auto simp: assign_xid_def Let_def)
  moreover have "TransactionIdIsNormal xid" "xid = vc_nextXid (xg_cache g0)" "vc_nextXid (xg_cache g') = TransactionIdAdvance xid"
    using g0 assms(1,2) by (auto simp: assign_xid_def logs_ready_def Let_def)
  ultimately show ?thesis using Inr assign_xid_fresh [OF _ g0(2)] g0(1) assms(1,2) by auto
qed

lemma start_gen_ready: "TransactionIdIsNormal next \<Longrightarrow> logs_ready (start_gen oldest next)"
  by (simp add: logs_ready_def start_gen_def start_cache_def SetTransactionIdLimit_def Let_def clog_zero_wf sub_zero_wf clog_status_zero)
    (simp add: SubTransGetParent_def sub_zero_def entry_less)

theorem GetNewTransactionId_fresh_witness:
  "\<exists>g'. GetNewTransactionId server_mode True 0 (\<lambda>g. g) (start_gen 100 5000) = (Inr 5000, [], g')
     \<and> clog_status (xg_clog g') 5000 = TRANSACTION_STATUS_IN_PROGRESS \<and> advertised True 5000 (xg_procs g' 0)"
proof -
  let ?g = "start_gen 100 5000"
  obtain r ns g' where r: "GetNewTransactionId server_mode True 0 (\<lambda>g. g) ?g = (r, ns, g')" by (metis surj_pair)
  have e: "r = Inr 5000" "ns = []"
    using r by (simp_all add: GetNewTransactionId_def assign_xid_def start_gen_def start_cache_def server_mode_def SetTransactionIdLimit_def
      xid_vac_limit_def past_xidVacLimit_def FirstNormalTransactionId_def TransactionIdFollowsOrEquals_def TransactionIdIsNormal_def Let_def)
  have "length (xc_xids (p_subxids (xg_procs ?g 0))) = PGPROC_MAX_CACHED_SUBXIDS"
    by (simp add: start_gen_def zero_proc_def PGPROC_MAX_CACHED_SUBXIDS_def)
  moreover have "logs_ready ?g" by (rule start_gen_ready) (simp add: normal_ge_3)
  ultimately show ?thesis
    using GetNewTransactionId_fresh [OF _ _ _ _ _ r] e r by (auto simp: server_mode_def)
qed

section \<open>Object identifiers and recovery\<close>

text \<open>
  The counters during operation: the last checkpoint in the control file, the records since its redo point, a
  checkpoint under way (its counters, and the records since), and the identifiers
  handed out.
\<close>

record OidServer =
  os_cache :: VariableCacheData
  os_ckpt :: CheckPoint
  os_redo :: "XLogRecord list"
  os_pending :: "(CheckPoint \<times> XLogRecord list) option"
  os_issued :: "Oid list"

definition logs_nextoid :: "XLogRecord list \<Rightarrow> bool" where
  "logs_nextoid l \<longleftrightarrow> (\<exists>r \<in> set l. \<exists>n. xl_info r = XLOG_NEXTOID n)"

text \<open>
  \<open>quiet\<close> requires that no object identifiers are logged between reading the counters of an
  online checkpoint and writing its record.  After a crash the log is replayed
  and a shutdown checkpoint written.  The number counts crashes.
\<close>

inductive oid_steps :: "BackendMode \<Rightarrow> bool \<Rightarrow> nat \<Rightarrow> OidServer \<Rightarrow> OidServer \<Rightarrow> bool" for env quiet where
  start: "oid_steps env quiet 0 s s"
| assign: "oid_steps env quiet n s s' \<Longrightarrow> GetNewObjectId env curxid (os_cache s') = Inr (oid, recs, vc)
    \<Longrightarrow> oid_steps env quiet n s
          (s'\<lparr>os_cache := vc, os_redo := os_redo s' @ recs, os_pending := map_option (\<lambda>(c, l). (c, l @ recs)) (os_pending s'),
              os_issued := os_issued s' @ [oid]\<rparr>)"
| begin_checkpoint: "oid_steps env quiet n s s'
    \<Longrightarrow> oid_steps env quiet n s (s'\<lparr>os_pending := Some (checkpoint_counters False (os_ckpt s') (os_cache s'), [])\<rparr>)"
| end_checkpoint: "oid_steps env quiet n s s' \<Longrightarrow> os_pending s' = Some (c, l) \<Longrightarrow> (quiet \<Longrightarrow> \<not> logs_nextoid l)
    \<Longrightarrow> oid_steps env quiet n s
          (s'\<lparr>os_ckpt := c, os_redo := l @ [\<lparr>xl_xid = InvalidTransactionId, xl_info = XLOG_CHECKPOINT_ONLINE c\<rparr>], os_pending := None\<rparr>)"
| crash: "oid_steps env quiet n s s' \<Longrightarrow> StartupXLOG env (os_ckpt s') (os_redo s') (os_cache s') = Inr vc
    \<Longrightarrow> oid_steps env quiet (Suc n) s
          (s'\<lparr>os_cache := vc, os_ckpt := checkpoint_counters True (os_ckpt s') vc, os_redo := [], os_pending := None\<rparr>)"

text \<open>The identifiers from the first normal one on, in the order in which they are assigned.\<close>

definition oid_at :: "nat \<Rightarrow> Oid" where
  "oid_at k = of_nat (16384 + k mod 4294950912)"

definition norm_oid :: "Oid \<Rightarrow> Oid" where
  "norm_oid n = (if n < FirstNormalObjectId then FirstNormalObjectId else n)"

lemma unat_oid_at: "unat (oid_at k) = 16384 + k mod 4294950912"
proof -
  have "16384 + k mod 4294950912 < 4294967296" using mod_less_divisor [of 4294950912 k] by linarith
  then show ?thesis by (simp only: oid_at_def unsigned_of_nat) (simp add: take_bit_nat_eq_self)
qed

lemma oid_at_inj: "oid_at (p + i) = oid_at (p + j) \<Longrightarrow> i < 4294950912 \<Longrightarrow> j < 4294950912 \<Longrightarrow> i = j"
proof -
  assume e: "oid_at (p + i) = oid_at (p + j)" and ij: "i < 4294950912" "j < 4294950912"
  have "(p + i) mod 4294950912 = (p + j) mod 4294950912" using unat_oid_at [of "p + i"] unat_oid_at [of "p + j"] e by simp
  moreover have "i = j" if "(p + i) mod 4294950912 = (p + j) mod 4294950912" "i \<le> j" "j < 4294950912" for i j
  proof -
    have "4294950912 dvd j - i" using mod_eq_dvd_iff_nat [of "p + i" "p + j" 4294950912] that by simp
    moreover have "j - i < 4294950912" using that by simp
    ultimately have "j - i = 0" using nat_dvd_not_less by blast
    then show ?thesis using that by simp
  qed
  ultimately show "i = j" using ij by (metis nat_le_linear)
qed

lemma norm_oid_normal [simp]: "FirstNormalObjectId \<le> norm_oid n"
  by (simp add: norm_oid_def not_less)

lemma normal_oid_iff: "n < FirstNormalObjectId \<longleftrightarrow> unat n < 16384"
  by (simp add: FirstNormalObjectId_def word_less_nat_alt)

lemma norm_oid_add:
  assumes "n = oid_at q" "k \<le> 8192"
  shows "norm_oid (n + of_nat k) = oid_at (q + min k (4294967296 - unat n))"
proof -
  let ?q = "q mod 4294950912"
  have n: "unat n = 16384 + ?q" using assms(1) unat_oid_at by simp
  have q: "?q < 4294950912" by simp
  have u: "unat (n + of_nat k) = (unat n + k) mod 4294967296" using assms(2) by (simp add: unat_word_ariths unat_of_nat mod_add_right_eq)
  have r: "unat (norm_oid m) = (if unat m < 16384 then 16384 else unat m)" for m
    by (simp add: norm_oid_def FirstNormalObjectId_def word_less_nat_alt)
  show ?thesis
  proof (cases "unat n + k < 4294967296")
    case True
    then have "?q + k < 4294950912" using n by simp
    moreover have "(q + k) mod 4294950912 = (?q + k) mod 4294950912" by (rule mod_add_left_eq [symmetric])
    ultimately have "(q + k) mod 4294950912 = ?q + k" by (simp only: mod_less)
    then have "unat (norm_oid (n + of_nat k)) = unat (oid_at (q + min k (4294967296 - unat n)))"
      using True n u r by (simp add: unat_oid_at)
    then show ?thesis by (simp only: word_unat_eq_iff)
  next
    case False
    then have m: "min k (4294967296 - unat n) = 4294950912 - ?q" using n q by simp
    have "(q + (4294950912 - ?q)) mod 4294950912 = 0"
    proof -
      have "(q + (4294950912 - ?q)) mod 4294950912 = (?q + (4294950912 - ?q)) mod 4294950912" by (rule mod_add_left_eq [symmetric])
      also have "?q + (4294950912 - ?q) = 4294950912" using q by linarith
      finally show ?thesis by simp
    qed
    then have "unat (oid_at (q + min k (4294967296 - unat n))) = 16384" unfolding m by (simp add: unat_oid_at)
    moreover have "unat (n + of_nat k) < 16384" using False u unat_less_32 [of n] assms(2) by (simp add: mod_if) linarith
    ultimately have "unat (norm_oid (n + of_nat k)) = unat (oid_at (q + min k (4294967296 - unat n)))" using r by simp
    then show ?thesis by (simp only: word_unat_eq_iff)
  qed
qed

text \<open>The value of the counter after recovery.\<close>

definition last_oid :: "Oid \<Rightarrow> XLogRecord list \<Rightarrow> Oid" where
  "last_oid n wal = fold (\<lambda>r n. case xl_info r of XLOG_NEXTOID m \<Rightarrow> m | XLOG_CHECKPOINT_SHUTDOWN c \<Rightarrow> ckpt_nextOid c
      | XLOG_CHECKPOINT_ONLINE c \<Rightarrow> ckpt_nextOid c | XLOG_OTHER \<Rightarrow> n) wal n"

lemma redo_oid:
  "vc_oidCount vc = 0 \<Longrightarrow> vc_nextOid (fold (redo_record env) wal vc) = last_oid (vc_nextOid vc) wal
     \<and> vc_oidCount (fold (redo_record env) wal vc) = 0"
proof (induction wal arbitrary: vc)
  case (Cons r wal)
  have "vc_oidCount (redo_record env r vc) = 0" "last_oid (vc_nextOid (redo_record env r vc)) wal = last_oid (vc_nextOid vc) (r # wal)"
    using Cons.prems
    by (auto simp: redo_record_def xlog_redo_def redo_checkpoint_online_def last_oid_def SetTransactionIdLimit_def Let_def split: XLogInfo.splits)
  then show ?case using Cons.IH [of "redo_record env r vc"] by simp
qed (simp add: last_oid_def)

lemma StartupXLOG_oid:
  "StartupXLOG env c wal vc = Inr vc' \<Longrightarrow> vc_nextOid vc' = last_oid (ckpt_nextOid c) wal \<and> vc_oidCount vc' = 0"
  using redo_oid [of "snd (SetTransactionIdLimit env (ckpt_oldestXid c) (ckpt_oldestXidDB c)
      (vc\<lparr>vc_nextXid := ckpt_nextXid c, vc_nextOid := ckpt_nextOid c, vc_oidCount := 0\<rparr>))" env wal]
  by (auto simp: StartupXLOG_def SetTransactionIdLimit_def Let_def split: if_splits)

lemma last_oid_append: "last_oid n (l @ [r]) = (case xl_info r of XLOG_NEXTOID m \<Rightarrow> m | XLOG_CHECKPOINT_SHUTDOWN c \<Rightarrow> ckpt_nextOid c
      | XLOG_CHECKPOINT_ONLINE c \<Rightarrow> ckpt_nextOid c | XLOG_OTHER \<Rightarrow> last_oid n l)"
  by (simp add: last_oid_def split: XLogInfo.split)

definition oid_counter_ok :: "VariableCacheData \<Rightarrow> bool" where
  "oid_counter_ok vc \<longleftrightarrow> unat (vc_oidCount vc) \<le> 8192
     \<and> (vc_nextOid vc < FirstNormalObjectId \<longrightarrow> unat (vc_nextOid vc) + unat (vc_oidCount vc) < 16384)"

definition oid_logged :: "OidServer \<Rightarrow> bool" where
  "oid_logged s \<longleftrightarrow> (let limit = vc_nextOid (os_cache s) + vc_oidCount (os_cache s)
     in last_oid (ckpt_nextOid (os_ckpt s)) (os_redo s) = limit
        \<and> (\<forall>c l. os_pending s = Some (c, l) \<longrightarrow> \<not> logs_nextoid l \<longrightarrow> ckpt_nextOid c = limit))"

lemma GetNewObjectId_counter:
  assumes "IsPostmasterEnvironment env" "oid_counter_ok vc" "GetNewObjectId env curxid vc = Inr (oid, recs, vc')" "norm_oid (vc_nextOid vc) = oid_at q"
  shows "oid = oid_at q \<and> norm_oid (vc_nextOid vc') = oid_at (q + 1) \<and> oid_counter_ok vc'
    \<and> (recs = [] \<and> vc_nextOid vc' + vc_oidCount vc' = vc_nextOid vc + vc_oidCount vc
       \<or> (\<exists>xid. recs = [\<lparr>xl_xid = xid, xl_info = XLOG_NEXTOID (vc_nextOid vc' + vc_oidCount vc')\<rparr>]))"
proof -
  define vc1 where "vc1 = oid_wraparound env vc"
  define k where "k = (if vc_oidCount vc1 = 0 then VAR_OID_PREFETCH else vc_oidCount vc1)"
  have n1: "vc_nextOid vc1 = oid_at q"
    using assms(1,4) by (auto simp: vc1_def oid_wraparound_def norm_oid_def)
  have r: "oid = vc_nextOid vc1" "vc_nextOid vc' = vc_nextOid vc1 + 1" "vc_oidCount vc' = k - 1"
    "recs = (if vc_oidCount vc1 = 0 then [XLogPutNextOid (vc_nextOid vc1 + VAR_OID_PREFETCH) curxid] else [])"
    using assms(3) by (auto simp: GetNewObjectId_def vc1_def k_def Let_def split: if_splits)
  have k: "k \<noteq> 0" "unat k \<le> 8192"
    using assms(2) by (auto simp: k_def vc1_def oid_wraparound_def VAR_OID_PREFETCH_def oid_counter_ok_def)
  then have cnt: "unat (vc_oidCount vc') = unat k - 1" by (simp add: r(3) unat_minus_one)
  have "norm_oid (oid_at q + of_nat 1) = oid_at (q + min 1 (4294967296 - unat (oid_at q)))" by (rule norm_oid_add) simp_all
  moreover have "min 1 (4294967296 - unat (oid_at q)) = 1" using unat_less_32 [of "oid_at q"] by simp
  ultimately have next1: "norm_oid (vc_nextOid vc') = oid_at (q + 1)" by (simp add: r(2) n1)
  have "oid_counter_ok vc'"
  proof -
    have "unat (vc_nextOid vc') = 0" if "vc_nextOid vc' < FirstNormalObjectId"
      using that unat_oid_at [of q] unat_plus_one_32 [of "oid_at q"] unfolding r(2) n1 normal_oid_iff
      by (cases "unat (oid_at q) = 0xFFFFFFFF") (auto simp: unat_word_ariths)
    then show ?thesis using k cnt by (auto simp: oid_counter_ok_def)
  qed
  moreover have "vc_nextOid vc' + vc_oidCount vc' = vc_nextOid vc1 + k" by (simp add: r)
  moreover have "vc_oidCount vc1 \<noteq> 0 \<Longrightarrow> vc1 = vc" using assms(1) by (auto simp: vc1_def oid_wraparound_def split: if_splits)
  ultimately show ?thesis using r(1,4) n1 next1 k_def by (auto simp: XLogPutNextOid_def)
qed

text \<open>After \<open>t\<close> positions, some of them skipped by crashes, the identifiers handed out are at different ones.\<close>

definition oid_inv :: "nat \<Rightarrow> nat \<Rightarrow> OidServer \<Rightarrow> bool" where
  "oid_inv p t s \<longleftrightarrow> norm_oid (vc_nextOid (os_cache s)) = oid_at (p + t) \<and> oid_counter_ok (os_cache s) \<and> oid_logged s
     \<and> (\<exists>ts. os_issued s = map (\<lambda>i. oid_at (p + i)) ts \<and> distinct ts \<and> set ts \<subseteq> {..<t})"

lemma oid_inv_assign:
  assumes "oid_inv p t s" "IsPostmasterEnvironment env" "GetNewObjectId env curxid (os_cache s) = Inr (oid, recs, vc)"
  shows "oid_inv p (t + 1) (s\<lparr>os_cache := vc, os_redo := os_redo s @ recs,
      os_pending := map_option (\<lambda>(c, l). (c, l @ recs)) (os_pending s), os_issued := os_issued s @ [oid]\<rparr>)"
proof -
  have n: "norm_oid (vc_nextOid (os_cache s)) = oid_at (p + t)" and c: "oid_counter_ok (os_cache s)" and l: "oid_logged s"
    using assms(1) by (simp_all add: oid_inv_def)
  obtain ts where ts: "os_issued s = map (\<lambda>i. oid_at (p + i)) ts" "distinct ts" "set ts \<subseteq> {..<t}" using assms(1) by (auto simp: oid_inv_def)
  note r = GetNewObjectId_counter [OF assms(2) c assms(3) n]
  have "os_issued s @ [oid] = map (\<lambda>i. oid_at (p + i)) (ts @ [t])" using ts(1) r by simp
  moreover have "distinct (ts @ [t])" "set (ts @ [t]) \<subseteq> {..<t + 1}" using ts(2,3) by auto
  ultimately have "\<exists>ts. os_issued s @ [oid] = map (\<lambda>i. oid_at (p + i)) ts \<and> distinct ts \<and> set ts \<subseteq> {..<t + 1}" by blast
  moreover have "oid_logged (s\<lparr>os_cache := vc, os_redo := os_redo s @ recs,
      os_pending := map_option (\<lambda>(c, l). (c, l @ recs)) (os_pending s), os_issued := os_issued s @ [oid]\<rparr>)"
    using r l by (auto simp: oid_logged_def last_oid_append logs_nextoid_def Let_def)
  ultimately show ?thesis using r unfolding oid_inv_def by (elim conjE) (intro conjI; simp)
qed

lemma oid_inv_crash:
  assumes "oid_inv p t s" "StartupXLOG env (os_ckpt s) (os_redo s) (os_cache s) = Inr vc"
  shows "\<exists>t' \<le> t + 8192. oid_inv p t' (s\<lparr>os_cache := vc, os_ckpt := checkpoint_counters True (os_ckpt s) vc, os_redo := [], os_pending := None\<rparr>)"
proof -
  let ?n = "vc_nextOid (os_cache s)" and ?k = "vc_oidCount (os_cache s)"
  have n: "norm_oid ?n = oid_at (p + t)" and c: "oid_counter_ok (os_cache s)" and l: "oid_logged s"
    using assms(1) by (simp_all add: oid_inv_def)
  obtain ts where ts: "os_issued s = map (\<lambda>i. oid_at (p + i)) ts" "distinct ts" "set ts \<subseteq> {..<t}" using assms(1) by (auto simp: oid_inv_def)
  have vc: "vc_nextOid vc = ?n + ?k" "vc_oidCount vc = 0"
    using StartupXLOG_oid [OF assms(2)] l by (simp_all add: oid_logged_def Let_def)
  have "\<exists>d \<le> 8192. norm_oid (?n + ?k) = oid_at (p + t + d)"
  proof (cases "?n < FirstNormalObjectId")
    case True
    then have "unat ?n + unat ?k < 16384" using c by (simp add: oid_counter_ok_def)
    then have "?n + ?k < FirstNormalObjectId" by (simp add: normal_oid_iff unat_word_ariths)
    then have "norm_oid (?n + ?k) = oid_at (p + t + 0)" using n True by (simp add: norm_oid_def)
    then show ?thesis by blast
  next
    case False
    then have "?n = oid_at (p + t)" using n by (simp add: norm_oid_def)
    moreover have k: "unat ?k \<le> 8192" using c by (simp add: oid_counter_ok_def)
    ultimately have "norm_oid (?n + of_nat (unat ?k)) = oid_at (p + t + min (unat ?k) (4294967296 - unat ?n))" by (rule norm_oid_add)
    then show ?thesis using k by (intro exI [of _ "min (unat ?k) (4294967296 - unat ?n)"]) simp
  qed
  then obtain d where d: "d \<le> 8192" "norm_oid (?n + ?k) = oid_at (p + t + d)" by blast
  have "oid_counter_ok vc" using vc d c by (auto simp: oid_counter_ok_def normal_oid_iff)
  moreover have "set ts \<subseteq> {..<t + d}" using ts(3) by auto
  moreover have "oid_logged (s\<lparr>os_cache := vc, os_ckpt := checkpoint_counters True (os_ckpt s) vc, os_redo := [], os_pending := None\<rparr>)"
    using vc by (simp add: oid_logged_def checkpoint_counters_def last_oid_def)
  ultimately have "oid_inv p (t + d) (s\<lparr>os_cache := vc, os_ckpt := checkpoint_counters True (os_ckpt s) vc, os_redo := [], os_pending := None\<rparr>)"
    using ts(1,2) vc d(2) unfolding oid_inv_def by (auto simp: add.assoc)
  then show ?thesis using d(1) by (intro exI [of _ "t + d"]) simp
qed

lemma oid_inv_end_checkpoint:
  assumes "oid_inv p t s" "os_pending s = Some (c, l)" "\<not> logs_nextoid l"
  shows "oid_inv p t (s\<lparr>os_ckpt := c, os_redo := l @ [\<lparr>xl_xid = InvalidTransactionId, xl_info = XLOG_CHECKPOINT_ONLINE c\<rparr>], os_pending := None\<rparr>)"
  using assms by (auto simp: oid_inv_def oid_logged_def last_oid_append Let_def)

lemma oid_inv_steps:
  assumes "oid_steps env True n s s'" "IsPostmasterEnvironment env" "oid_inv p 0 s" "os_issued s = []"
  shows "\<exists>t \<le> length (os_issued s') + 8192 * n. oid_inv p t s'"
  using assms(1)
proof (induction n s\<equiv>s s' rule: oid_steps.induct)
  case start
  then show ?case using assms(3) by auto
next
  case (assign n s' curxid oid recs vc)
  then obtain t where t: "t \<le> length (os_issued s') + 8192 * n" "oid_inv p t s'" by blast
  show ?case
    by (rule exI [of _ "t + 1"]) (use t(1) oid_inv_assign [OF t(2) assms(2) assign.hyps(3)] in simp)
next
  case (begin_checkpoint n s')
  then obtain t where "t \<le> length (os_issued s') + 8192 * n" "oid_inv p t s'" by blast
  then show ?case by (intro exI [of _ t]) (auto simp: oid_inv_def oid_logged_def checkpoint_counters_def Let_def)
next
  case (end_checkpoint n s' c l)
  then obtain t where t: "t \<le> length (os_issued s') + 8192 * n" "oid_inv p t s'" by blast
  then show ?case
    using oid_inv_end_checkpoint [OF t(2)] end_checkpoint.hyps(3,4) by (intro exI [of _ t]) simp
next
  case (crash n s' vc)
  then obtain t where t: "t \<le> length (os_issued s') + 8192 * n" "oid_inv p t s'" by blast
  obtain t' where "t' \<le> t + 8192"
    "oid_inv p t' (s'\<lparr>os_cache := vc, os_ckpt := checkpoint_counters True (os_ckpt s') vc, os_redo := [], os_pending := None\<rparr>)"
    using oid_inv_crash [OF t(2) crash.hyps(3)] by blast
  then show ?case using t(1) by (intro exI [of _ t']) simp
qed

definition oid_start :: "OidServer \<Rightarrow> bool" where
  "oid_start s \<longleftrightarrow> vc_oidCount (os_cache s) = 0 \<and> ckpt_nextOid (os_ckpt s) = vc_nextOid (os_cache s)
     \<and> os_redo s = [] \<and> os_pending s = None \<and> os_issued s = []"


definition first_oid_server :: OidServer where
  "first_oid_server = \<lparr>os_cache = start_cache 3 1000, os_ckpt = \<lparr>ckpt_nextXidEpoch = 0, ckpt_nextXid = 1000, ckpt_nextOid = 16384,
     ckpt_oldestXid = 3, ckpt_oldestXidDB = 1\<rparr>, os_redo = [], os_pending = None, os_issued = []\<rparr>"

lemmas oid_values = first_oid_server_def start_cache_def server_mode_def SetTransactionIdLimit_def GetNewObjectId_def oid_wraparound_def
  FirstNormalObjectId_def VAR_OID_PREFETCH_def XLogPutNextOid_def



section \<open>Recovery of the transaction counter\<close>

text \<open>
  The log of a server: its identifiers, and the counters in its checkpoints, are within half the circle of a
  base, and the counter in a shutdown checkpoint follows the identifiers before it.
\<close>

definition ckpt_of :: "XLogInfo \<Rightarrow> CheckPoint option" where
  "ckpt_of i = (case i of XLOG_CHECKPOINT_SHUTDOWN c \<Rightarrow> Some c | XLOG_CHECKPOINT_ONLINE c \<Rightarrow> Some c | _ \<Rightarrow> None)"

definition in_xid_window :: "TransactionId \<Rightarrow> TransactionId \<Rightarrow> bool" where
  "in_xid_window base x \<longleftrightarrow> TransactionIdIsNormal x \<and> xid_age base x < 2147483640"

definition log_xids_ok :: "TransactionId \<Rightarrow> XLogRecord list \<Rightarrow> bool" where
  "log_xids_ok base wal \<longleftrightarrow>
     (\<forall>r \<in> set wal. (TransactionIdIsNormal (xl_xid r) \<longrightarrow> in_xid_window base (xl_xid r))
        \<and> (\<forall>c. ckpt_of (xl_info r) = Some c \<longrightarrow> in_xid_window base (ckpt_nextXid c)))
   \<and> (\<forall>us r vs c. wal = us @ r # vs \<and> xl_info r = XLOG_CHECKPOINT_SHUTDOWN c \<longrightarrow>
        (\<forall>u \<in> set (us @ [r]). TransactionIdIsNormal (xl_xid u) \<longrightarrow> xid_age base (xl_xid u) < xid_age base (ckpt_nextXid c)))"

lemma log_xids_ok_snoc:
  assumes "log_xids_ok base (wal @ [r])"
  shows "log_xids_ok base wal" "TransactionIdIsNormal (xl_xid r) \<Longrightarrow> in_xid_window base (xl_xid r)"
    "ckpt_of (xl_info r) = Some c \<Longrightarrow> in_xid_window base (ckpt_nextXid c)"
    "xl_info r = XLOG_CHECKPOINT_SHUTDOWN c \<Longrightarrow> u \<in> set (wal @ [r]) \<Longrightarrow> TransactionIdIsNormal (xl_xid u)
       \<Longrightarrow> xid_age base (xl_xid u) < xid_age base (ckpt_nextXid c)"
  using assms by (fastforce simp: log_xids_ok_def)+

lemma xid_age_Advance:
  assumes "in_xid_window base x"
  shows "xid_age base x < xid_age base (TransactionIdAdvance x) \<and> xid_age base (TransactionIdAdvance x) \<le> xid_age base x + 4"
  using assms unat_less_32 [of base] by (auto simp: in_xid_window_def xid_age_unat unat_Advance normal_ge_3)

lemma redo_next_xid:
  fixes env
  assumes "log_xids_ok base wal" "in_xid_window base (vc_nextXid vc)"
  defines "next \<equiv> vc_nextXid (fold (redo_record env) wal vc)"
  shows "TransactionIdIsNormal next \<and> xid_age base next < 2147483644
    \<and> (\<forall>r \<in> set wal. TransactionIdIsNormal (xl_xid r) \<longrightarrow> xid_age base (xl_xid r) < xid_age base next)"
  using assms(1) unfolding next_def
proof (induction wal rule: rev_induct)
  case Nil
  then show ?case using assms(2) by (simp add: in_xid_window_def)
next
  case (snoc r wal)
  define vc1 where "vc1 = fold (redo_record env) wal vc"
  define n1 where "n1 = vc_nextXid vc1"
  define n2 where "n2 = (if TransactionIdFollowsOrEquals (xl_xid r) n1 then TransactionIdAdvance (xl_xid r) else n1)"
  note ok = log_xids_ok_snoc [OF snoc.prems]
  have 1: "TransactionIdIsNormal n1" "xid_age base n1 < 2147483644"
    "\<forall>u \<in> set wal. TransactionIdIsNormal (xl_xid u) \<longrightarrow> xid_age base (xl_xid u) < xid_age base n1"
    using snoc.IH [OF ok(1)] by (simp_all add: n1_def vc1_def)
  have 2: "TransactionIdIsNormal n2 \<and> xid_age base n2 < 2147483644 \<and> xid_age base n1 \<le> xid_age base n2
      \<and> (TransactionIdIsNormal (xl_xid r) \<longrightarrow> xid_age base (xl_xid r) < xid_age base n2)"
  proof (cases "TransactionIdIsNormal (xl_xid r)")
    case True
    note w = ok(2) [OF True]
    have "TransactionIdFollowsOrEquals (xl_xid r) n1 \<longleftrightarrow> xid_age base n1 \<le> xid_age base (xl_xid r)"
      using precedes_normal_window(4) [OF True 1(1)] w 1(2) by (simp add: in_xid_window_def)
    then show ?thesis using xid_age_Advance [OF w] w 1(1,2) by (auto simp: n2_def in_xid_window_def)
  next
    case False
    then have "\<not> TransactionIdFollowsOrEquals (xl_xid r) n1"
      using 1(1) by (auto simp: TransactionIdFollowsOrEquals_def normal_ge_3 word_le_nat_alt)
    then show ?thesis using 1 False by (simp add: n2_def)
  qed
  have step: "vc_nextXid (redo_record env r vc1) = (case xl_info r of XLOG_CHECKPOINT_SHUTDOWN c \<Rightarrow> ckpt_nextXid c
      | XLOG_CHECKPOINT_ONLINE c \<Rightarrow> if TransactionIdPrecedes n2 (ckpt_nextXid c) then ckpt_nextXid c else n2 | _ \<Rightarrow> n2)"
    by (simp add: redo_record_def xlog_redo_def redo_checkpoint_online_def n2_def n1_def SetTransactionIdLimit_def Let_def split: XLogInfo.split)
  have fin: "vc_nextXid (fold (redo_record env) (wal @ [r]) vc) = vc_nextXid (redo_record env r vc1)" by (simp add: vc1_def)
  have old: "xid_age base (xl_xid u) < xid_age base n2" if "u \<in> set (wal @ [r])" "TransactionIdIsNormal (xl_xid u)" for u
    using that 1(3) 2 by (auto intro: less_le_trans)
  show ?case
  proof (cases "xl_info r")
    case (XLOG_CHECKPOINT_SHUTDOWN c)
    then show ?thesis using ok(3,4) [of c] fin step by (auto simp: ckpt_of_def in_xid_window_def)
  next
    case (XLOG_CHECKPOINT_ONLINE c)
    then have w: "in_xid_window base (ckpt_nextXid c)" using ok(3) by (simp add: ckpt_of_def)
    then have "TransactionIdPrecedes n2 (ckpt_nextXid c) \<longleftrightarrow> xid_age base n2 < xid_age base (ckpt_nextXid c)"
      using precedes_normal_window(1) [of n2 "ckpt_nextXid c" base] 2 by (simp add: in_xid_window_def)
    then show ?thesis using XLOG_CHECKPOINT_ONLINE w 2 old fin step by (auto simp: in_xid_window_def intro: less_trans)
  next
    case (XLOG_NEXTOID n)
    then show ?thesis using 2 old fin step by auto
  next
    case XLOG_OTHER
    then show ?thesis using 2 old fin step by auto
  qed
qed

text \<open>Recovery does not reuse transaction identifiers: it succeeds, and the counter it leaves follows every identifier in
  the log; the newest completed identifier is the one before it.\<close>

theorem StartupXLOG_nextXid_beyond:
  assumes "log_xids_ok base wal" "in_xid_window base (ckpt_nextXid c)"
  shows "\<exists>vc'. StartupXLOG env c wal vc = Inr vc' \<and> TransactionIdIsNormal (vc_nextXid vc')
    \<and> (\<forall>r \<in> set wal. TransactionIdIsNormal (xl_xid r) \<longrightarrow> TransactionIdPrecedes (xl_xid r) (vc_nextXid vc'))
    \<and> TransactionIdAdvance (vc_latestCompletedXid vc') = vc_nextXid vc'"
proof -
  define vc0 where "vc0 = snd (SetTransactionIdLimit env (ckpt_oldestXid c) (ckpt_oldestXidDB c)
      (vc\<lparr>vc_nextXid := ckpt_nextXid c, vc_nextOid := ckpt_nextOid c, vc_oidCount := 0\<rparr>))"
  have "in_xid_window base (vc_nextXid vc0)" using assms(2) by (simp add: vc0_def SetTransactionIdLimit_def Let_def)
  note r = redo_next_xid [OF assms(1) this, of env]
  have "TransactionIdPrecedes (xl_xid x) (vc_nextXid (fold (redo_record env) wal vc0))" if "x \<in> set wal" "TransactionIdIsNormal (xl_xid x)" for x
    using r that precedes_normal_window(1) [OF that(2), of "vc_nextXid (fold (redo_record env) wal vc0)" base] by force
  moreover have "StartupXLOG env c wal vc
      = Inr ((fold (redo_record env) wal vc0)\<lparr>vc_latestCompletedXid := TransactionIdRetreat (vc_nextXid (fold (redo_record env) wal vc0))\<rparr>)"
    using assms(2) by (simp add: StartupXLOG_def vc0_def in_xid_window_def Let_def)
  ultimately show ?thesis using r xid_advance_retreat [of "vc_nextXid (fold (redo_record env) wal vc0)"] by auto
qed

theorem StartupXLOG_nextXid_beyond_witness:
  "\<exists>vc'. StartupXLOG server_mode \<lparr>ckpt_nextXidEpoch = 0, ckpt_nextXid = 4294967290, ckpt_nextOid = 16384, ckpt_oldestXid = 4000000000, ckpt_oldestXidDB = 1\<rparr>
     [\<lparr>xl_xid = 4294967294, xl_info = XLOG_OTHER\<rparr>, \<lparr>xl_xid = 5, xl_info = XLOG_NEXTOID 24576\<rparr>] (start_cache 3 1000) = Inr vc'
     \<and> TransactionIdPrecedes 5 (vc_nextXid vc')"
proof -
  have "log_xids_ok 4000000000 [\<lparr>xl_xid = 4294967294, xl_info = XLOG_OTHER\<rparr>, \<lparr>xl_xid = 5, xl_info = XLOG_NEXTOID 24576\<rparr>]"
    by (auto simp: log_xids_ok_def ckpt_of_def in_xid_window_def xid_age_def Cons_eq_append_conv)
  moreover have "in_xid_window 4000000000 4294967290" "TransactionIdIsNormal 5"
    by (simp_all add: in_xid_window_def xid_age_def normal_ge_3)
  ultimately show ?thesis
    using StartupXLOG_nextXid_beyond [of 4000000000 _ "\<lparr>ckpt_nextXidEpoch = 0, ckpt_nextXid = 4294967290, ckpt_nextOid = 16384,
      ckpt_oldestXid = 4000000000, ckpt_oldestXidDB = 1\<rparr>"] by fastforce
qed

end
