(* ===== verification/Known_Assigned.thy ===== *)
theory Known_Assigned
  imports Varsup Xact_Status
begin

text \<open>
  The transactions known to be running on the master, as a standby server keeps them
  (\<^verbatim>\<open>storage/ipc/procarray.c\<close>, the functions on \<^verbatim>\<open>KnownAssignedXids\<close>): a sorted array with
  gaps, searched by bisection, compressed from time to time.  Debug output and the debugging counters are left out.
\<close>

unbundle bit_operations_syntax

section \<open>The array\<close>

record ProcArrayStruct =
  pa_maxProcs :: nat
  pa_procs :: "nat list"
  maxKnownAssignedXids :: nat
  numKnownAssignedXids :: int
  tailKnownAssignedXids :: nat
  headKnownAssignedXids :: nat
  KnownAssignedXids :: "TransactionId list"
  KnownAssignedXidsValid :: "bool list"
  lastOverflowedXid :: TransactionId

text \<open>One step of the loop that moves valid entries down.\<close>

definition compress_step :: "nat \<Rightarrow> TransactionId list \<times> bool list \<times> nat \<Rightarrow> TransactionId list \<times> bool list \<times> nat" where
  "compress_step i = (\<lambda>(xids, valid, compress_index).
     if valid ! i then (xids[compress_index := xids ! i], valid[compress_index := True], compress_index + 1)
     else (xids, valid, compress_index))"

definition KnownAssignedXidsCompress :: "bool \<Rightarrow> ProcArrayStruct \<Rightarrow> ProcArrayStruct" where
  "KnownAssignedXidsCompress force pa =
     (let head = headKnownAssignedXids pa; tail = tailKnownAssignedXids pa; nelements = int head - int tail
      in if \<not> force \<and> (nelements < 4 * int (pa_maxProcs pa) \<or> nelements < 2 * numKnownAssignedXids pa) then pa
         else let (xids, valid, compress_index) =
                    fold compress_step [tail..<head] (KnownAssignedXids pa, KnownAssignedXidsValid pa, 0)
              in pa\<lparr>KnownAssignedXids := xids, KnownAssignedXidsValid := valid,
                    tailKnownAssignedXids := 0, headKnownAssignedXids := compress_index\<rparr>)"

lemma Advance_closer:
  assumes "TransactionIdPrecedes x t" "TransactionIdIsNormal t"
  shows "unat (t - TransactionIdAdvance x) < unat (t - x)"
proof (cases "TransactionIdIsNormal x")
  case True
  have t3: "3 \<le> unat t" and x3: "3 \<le> unat x" using assms(2) True by (simp_all add: normal_ge_3)
  have ne: "x \<noteq> t" using assms(1) True by (auto simp: TransactionIdPrecedes_def)
  then have nu: "unat x \<noteq> unat t" by (simp add: word_unat_eq_iff)
  show ?thesis
    using unat_Advance [OF True] t3 x3 nu unat_less_32 [of x] unat_less_32 [of t] by (auto simp: unat_sub_if')
next
  case False
  then have x3: "unat x < 3" by (simp add: normal_ge_3)
  then have "x + 1 \<le> 3" by (simp add: word_le_nat_alt unat_word_ariths)
  then have "TransactionIdAdvance x = 3" by (simp add: TransactionIdAdvance_def FirstNormalTransactionId_def Let_def)
  then show ?thesis using x3 assms(2) by (simp add: unat_sub_if' normal_ge_3)
qed

text \<open>The number of identifiers of a range across the wrap-around point.\<close>

function count_xids :: "TransactionId \<Rightarrow> TransactionId \<Rightarrow> nat" where
  "count_xids next_xid to_xid =
     (if TransactionIdPrecedes next_xid to_xid then count_xids (TransactionIdAdvance next_xid) to_xid + 1 else 1)"
  by pat_completeness auto

termination
proof (relation "measure (\<lambda>(next_xid, to_xid). if TransactionIdIsNormal to_xid then unat (to_xid - next_xid)
    else if next_xid < to_xid then 1 else 0)")
  fix next_xid to_xid
  assume p: "TransactionIdPrecedes next_xid to_xid"
  show "((TransactionIdAdvance next_xid, to_xid), next_xid, to_xid)
     \<in> measure (\<lambda>(next_xid, to_xid). if TransactionIdIsNormal to_xid then unat (to_xid - next_xid) else if next_xid < to_xid then 1 else 0)"
  proof (cases "TransactionIdIsNormal to_xid")
    case True
    then show ?thesis using Advance_closer [OF p True] by simp
  next
    case False
    then have "\<not> TransactionIdAdvance next_xid < to_xid"
      using normal_Advance [of next_xid] by (simp add: normal_ge_3 word_less_nat_alt)
    then show ?thesis using False p by (simp add: TransactionIdPrecedes_def)
  qed
qed simp

declare count_xids.simps [simp del]

fun put_xids :: "nat \<Rightarrow> TransactionId \<Rightarrow> nat \<Rightarrow> TransactionId list \<times> bool list \<Rightarrow> TransactionId list \<times> bool list" where
  "put_xids 0 next_xid head (xids, valid) = (xids, valid)"
| "put_xids (Suc n) next_xid head (xids, valid) =
     put_xids n (TransactionIdAdvance next_xid) (head + 1) (xids[head := next_xid], valid[head := True])"

definition KnownAssignedXidsAdd :: "TransactionId \<Rightarrow> TransactionId \<Rightarrow> ProcArrayStruct \<Rightarrow> pg_error + ProcArrayStruct" where
  "KnownAssignedXidsAdd from_xid to_xid pa =
     (let nxids = (if from_xid \<le> to_xid then unat (to_xid - from_xid) + 1 else count_xids from_xid to_xid);
          head = headKnownAssignedXids pa; tail = tailKnownAssignedXids pa
      in if tail < head \<and> TransactionIdFollowsOrEquals (KnownAssignedXids pa ! (head - 1)) from_xid
         then Inl (Elog ''out-of-order XID insertion in KnownAssignedXids'')
         else let pa1 = (if maxKnownAssignedXids pa < head + nxids then KnownAssignedXidsCompress True pa else pa);
                  head1 = headKnownAssignedXids pa1
              in if maxKnownAssignedXids pa < head1 + nxids then Inl (Elog ''too many KnownAssignedXids'')
                 else let (xids, valid) = put_xids nxids from_xid head1 (KnownAssignedXids pa1, KnownAssignedXidsValid pa1)
                      in Inr (pa1\<lparr>KnownAssignedXids := xids, KnownAssignedXidsValid := valid,
                               numKnownAssignedXids := numKnownAssignedXids pa1 + int nxids,
                               headKnownAssignedXids := head1 + nxids\<rparr>))"

text \<open>The bisection; the result is -1 if the identifier is not there.\<close>

function search_xids :: "TransactionId list \<Rightarrow> TransactionId \<Rightarrow> int \<Rightarrow> int \<Rightarrow> int" where
  "search_xids xids xid first_index last_index =
     (if first_index \<le> last_index
      then let mid_index = (first_index + last_index) div 2; mid_xid = xids ! nat mid_index
           in if xid = mid_xid then mid_index
              else if TransactionIdPrecedes xid mid_xid then search_xids xids xid first_index (mid_index - 1)
              else search_xids xids xid (mid_index + 1) last_index
      else -1)"
  by pat_completeness auto
termination
  by (relation "measure (\<lambda>(xids, xid, first_index, last_index). nat (last_index - first_index + 1))") auto

declare search_xids.simps [simp del]

text \<open>The first valid entry from an index on, or the end.\<close>

function next_valid :: "bool list \<Rightarrow> nat \<Rightarrow> nat \<Rightarrow> nat" where
  "next_valid valid i head = (if i < head \<and> \<not> valid ! i then next_valid valid (i + 1) head else i)"
  by pat_completeness auto
termination
  by (relation "measure (\<lambda>(valid, i, head). head - i)") auto

declare next_valid.simps [simp del]

definition KnownAssignedXidsSearch :: "TransactionId \<Rightarrow> bool \<Rightarrow> ProcArrayStruct \<Rightarrow> bool \<times> ProcArrayStruct" where
  "KnownAssignedXidsSearch xid remove pa =
     (let tail = tailKnownAssignedXids pa; head = headKnownAssignedXids pa;
          result_index = search_xids (KnownAssignedXids pa) xid (int tail) (int head - 1); r = nat result_index
      in if result_index < 0 then (False, pa)
         else if \<not> KnownAssignedXidsValid pa ! r then (False, pa)
         else if remove
         then let valid = (KnownAssignedXidsValid pa)[r := False];
                  pa1 = pa\<lparr>KnownAssignedXidsValid := valid, numKnownAssignedXids := numKnownAssignedXids pa - 1\<rparr>
              in (True,
                  if r = tail
                  then let tail1 = next_valid valid (tail + 1) head
                       in if head \<le> tail1 then pa1\<lparr>headKnownAssignedXids := 0, tailKnownAssignedXids := 0\<rparr>
                          else pa1\<lparr>tailKnownAssignedXids := tail1\<rparr>
                  else pa1)
         else (True, pa))"

definition KnownAssignedXidExists :: "TransactionId \<Rightarrow> ProcArrayStruct \<Rightarrow> bool" where
  "KnownAssignedXidExists xid pa = fst (KnownAssignedXidsSearch xid False pa)"

definition KnownAssignedXidsRemove :: "TransactionId \<Rightarrow> ProcArrayStruct \<Rightarrow> ProcArrayStruct" where
  "KnownAssignedXidsRemove xid pa = snd (KnownAssignedXidsSearch xid True pa)"

definition KnownAssignedXidsRemoveTree :: "TransactionId \<Rightarrow> TransactionId list \<Rightarrow> ProcArrayStruct \<Rightarrow> ProcArrayStruct" where
  "KnownAssignedXidsRemoveTree xid subxids pa =
     (let pa1 = (if TransactionIdIsValid xid then KnownAssignedXidsRemove xid pa else pa)
      in KnownAssignedXidsCompress False (fold KnownAssignedXidsRemove subxids pa1))"

text \<open>
  The first loop of \<^verbatim>\<open>KnownAssignedXidsRemovePreceding\<close>: the valid flags and the number of entries
  marked.  Whether a transaction is prepared is found in its state file.
\<close>

fun mark_preceding :: "(TransactionId \<Rightarrow> bool) \<Rightarrow> TransactionId list \<Rightarrow> TransactionId \<Rightarrow> nat list \<Rightarrow> bool list \<times> nat \<Rightarrow> bool list \<times> nat" where
  "mark_preceding prepared xids removeXid [] (valid, count) = (valid, count)"
| "mark_preceding prepared xids removeXid (i # is) (valid, count) =
     (if valid ! i
      then if TransactionIdFollowsOrEquals (xids ! i) removeXid then (valid, count)
           else if \<not> prepared (xids ! i) then mark_preceding prepared xids removeXid is (valid[i := False], count + 1)
           else mark_preceding prepared xids removeXid is (valid, count)
      else mark_preceding prepared xids removeXid is (valid, count))"

definition KnownAssignedXidsRemovePreceding :: "(TransactionId \<Rightarrow> bool) \<Rightarrow> TransactionId \<Rightarrow> ProcArrayStruct \<Rightarrow> ProcArrayStruct" where
  "KnownAssignedXidsRemovePreceding prepared removeXid pa =
     (if \<not> TransactionIdIsValid removeXid
      then pa\<lparr>numKnownAssignedXids := 0, headKnownAssignedXids := 0, tailKnownAssignedXids := 0\<rparr>
      else let tail = tailKnownAssignedXids pa; head = headKnownAssignedXids pa;
               (valid, count) = mark_preceding prepared (KnownAssignedXids pa) removeXid [tail..<head] (KnownAssignedXidsValid pa, 0);
               i = next_valid valid tail head;
               pa1 = pa\<lparr>KnownAssignedXidsValid := valid, numKnownAssignedXids := numKnownAssignedXids pa - int count\<rparr>
           in KnownAssignedXidsCompress False
                (if head \<le> i then pa1\<lparr>headKnownAssignedXids := 0, tailKnownAssignedXids := 0\<rparr>
                 else pa1\<lparr>tailKnownAssignedXids := i\<rparr>))"

fun get_known_xids :: "ProcArrayStruct \<Rightarrow> TransactionId \<Rightarrow> nat list \<Rightarrow> TransactionId list \<times> TransactionId \<Rightarrow> TransactionId list \<times> TransactionId" where
  "get_known_xids pa xmax [] (xarray, xmin) = (xarray, xmin)"
| "get_known_xids pa xmax (i # is) (xarray, xmin) =
     (if KnownAssignedXidsValid pa ! i
      then let knownXid = KnownAssignedXids pa ! i;
               xmin1 = (if length xarray = 0 \<and> TransactionIdPrecedes knownXid xmin then knownXid else xmin)
           in if TransactionIdIsValid xmax \<and> TransactionIdFollowsOrEquals knownXid xmax then (xarray, xmin1)
              else get_known_xids pa xmax is (xarray @ [knownXid], xmin1)
      else get_known_xids pa xmax is (xarray, xmin))"

definition KnownAssignedXidsGetAndSetXmin :: "TransactionId \<Rightarrow> TransactionId \<Rightarrow> ProcArrayStruct \<Rightarrow> TransactionId list \<times> TransactionId" where
  "KnownAssignedXidsGetAndSetXmin xmin xmax pa =
     get_known_xids pa xmax [tailKnownAssignedXids pa..<headKnownAssignedXids pa] ([], xmin)"

definition KnownAssignedXidsGet :: "TransactionId \<Rightarrow> ProcArrayStruct \<Rightarrow> TransactionId list" where
  "KnownAssignedXidsGet xmax pa = fst (KnownAssignedXidsGetAndSetXmin InvalidTransactionId xmax pa)"

definition KnownAssignedXidsGetOldestXmin :: "ProcArrayStruct \<Rightarrow> TransactionId" where
  "KnownAssignedXidsGetOldestXmin pa =
     (let head = headKnownAssignedXids pa; i = next_valid (KnownAssignedXidsValid pa) (tailKnownAssignedXids pa) head
      in if i < head then KnownAssignedXids pa ! i else InvalidTransactionId)"

section \<open>Recovery\<close>

datatype HotStandbyState = STANDBY_DISABLED | STANDBY_INITIALIZED | STANDBY_SNAPSHOT_PENDING | STANDBY_SNAPSHOT_READY

record Standby =
  sb_gen :: XidGen
  sb_array :: ProcArrayStruct
  standbyState :: HotStandbyState
  latestObservedXid :: TransactionId
  standbySnapshotPendingXmin :: TransactionId
  sb_TransactionXmin :: TransactionId
  sb_fetch :: XactCache

lemma Advance_past: "\<not> TransactionIdPrecedesOrEquals (TransactionIdAdvance x) x"
proof (cases "TransactionIdIsNormal x")
  case True
  then have "TransactionIdPrecedes x (TransactionIdAdvance x)" using xid_advance_retreat by blast
  moreover have "xid_age x x < 2 ^ 31" "xid_age x (TransactionIdAdvance x) < 2 ^ 31"
    using True by (simp_all add: xid_age_def TransactionIdAdvance_age MaxTransactionId_def)
  ultimately show ?thesis using precedes_normal_window(1,2) True by (meson not_le normal_Advance)
next
  case False
  then show ?thesis using normal_Advance [of x] by (simp add: TransactionIdPrecedesOrEquals_def normal_ge_3 word_le_nat_alt)
qed

lemma PrecedesOrEquals_cases: "TransactionIdPrecedesOrEquals x y \<Longrightarrow> x = y \<or> TransactionIdPrecedes x y"
proof -
  have "sint (x - y) = 0 \<Longrightarrow> x = y" by (metis eq_iff_diff_eq_0 signed_eq_0_iff)
  then show "TransactionIdPrecedesOrEquals x y \<Longrightarrow> x = y \<or> TransactionIdPrecedes x y"
    by (auto simp: TransactionIdPrecedesOrEquals_def TransactionIdPrecedes_def less_le split: if_splits)
qed

text \<open>The loop that extends the logs up to a new identifier.\<close>

function extend_logs :: "TransactionId \<Rightarrow> TransactionId \<Rightarrow> XidGen \<Rightarrow> XidGen" where
  "extend_logs next_expected_xid xid g =
     (if TransactionIdPrecedesOrEquals next_expected_xid xid
      then extend_logs (TransactionIdAdvance next_expected_xid) xid
             (g\<lparr>xg_clog := ExtendCLOG next_expected_xid (xg_clog g), xg_sub := ExtendSUBTRANS next_expected_xid (xg_sub g)\<rparr>)
      else g)"
  by pat_completeness auto

termination
proof (relation "measure (\<lambda>(next_xid, xid, g). if TransactionIdPrecedesOrEquals next_xid xid
    then if TransactionIdIsNormal xid then unat (xid - next_xid) + 1 else 1 else 0)")
  fix next_xid xid :: TransactionId and g :: XidGen
  assume p: "TransactionIdPrecedesOrEquals next_xid xid"
  have "TransactionIdIsNormal xid" if "TransactionIdPrecedesOrEquals (TransactionIdAdvance next_xid) xid"
    using that normal_Advance [of next_xid]
    by (auto simp: TransactionIdPrecedesOrEquals_def normal_ge_3 word_le_nat_alt split: if_splits)
  moreover have "unat (xid - TransactionIdAdvance next_xid) < unat (xid - next_xid)"
    if "TransactionIdPrecedesOrEquals (TransactionIdAdvance next_xid) xid" "TransactionIdIsNormal xid"
    using that PrecedesOrEquals_cases [OF p] Advance_past [of xid] Advance_closer by blast
  ultimately show "((TransactionIdAdvance next_xid, xid,
      g\<lparr>xg_clog := ExtendCLOG next_xid (xg_clog g), xg_sub := ExtendSUBTRANS next_xid (xg_sub g)\<rparr>), next_xid, xid, g)
    \<in> measure (\<lambda>(next_xid, xid, g). if TransactionIdPrecedesOrEquals next_xid xid
         then if TransactionIdIsNormal xid then unat (xid - next_xid) + 1 else 1 else 0)"
    using p by auto
qed simp

declare extend_logs.simps [simp del]

definition advance_latestCompletedXid :: "TransactionId \<Rightarrow> VariableCacheData \<Rightarrow> VariableCacheData" where
  "advance_latestCompletedXid latestXid vc =
     (if TransactionIdPrecedes (vc_latestCompletedXid vc) latestXid then vc\<lparr>vc_latestCompletedXid := latestXid\<rparr> else vc)"

definition RecordKnownAssignedTransactionIds :: "TransactionId \<Rightarrow> Standby \<Rightarrow> pg_error + Standby" where
  "RecordKnownAssignedTransactionIds xid s =
     (if standbyState s \<in> {STANDBY_DISABLED, STANDBY_INITIALIZED} then Inr s
      else if TransactionIdFollows xid (latestObservedXid s)
      then let next_expected_xid = TransactionIdAdvance (latestObservedXid s);
               g1 = extend_logs next_expected_xid xid (sb_gen s)
           in case KnownAssignedXidsAdd next_expected_xid xid (sb_array s) of
                Inl e \<Rightarrow> Inl e
              | Inr pa \<Rightarrow> Inr (s\<lparr>sb_gen := g1\<lparr>xg_cache := (xg_cache g1)\<lparr>vc_nextXid := TransactionIdAdvance xid\<rparr>\<rparr>,
                              sb_array := pa, latestObservedXid := xid\<rparr>)
      else Inr s)"

definition ExpireTreeKnownAssignedTransactionIds :: "TransactionId \<Rightarrow> TransactionId list \<Rightarrow> TransactionId \<Rightarrow> Standby \<Rightarrow> Standby" where
  "ExpireTreeKnownAssignedTransactionIds xid subxids max_xid s =
     s\<lparr>sb_array := KnownAssignedXidsRemoveTree xid subxids (sb_array s),
       sb_gen := (sb_gen s)\<lparr>xg_cache := advance_latestCompletedXid max_xid (xg_cache (sb_gen s))\<rparr>\<rparr>"

definition ExpireAllKnownAssignedTransactionIds :: "(TransactionId \<Rightarrow> bool) \<Rightarrow> Standby \<Rightarrow> Standby" where
  "ExpireAllKnownAssignedTransactionIds prepared s =
     s\<lparr>sb_array := KnownAssignedXidsRemovePreceding prepared InvalidTransactionId (sb_array s)\<rparr>"

definition ExpireOldKnownAssignedTransactionIds :: "(TransactionId \<Rightarrow> bool) \<Rightarrow> TransactionId \<Rightarrow> Standby \<Rightarrow> Standby" where
  "ExpireOldKnownAssignedTransactionIds prepared xid s =
     s\<lparr>sb_array := KnownAssignedXidsRemovePreceding prepared xid (sb_array s)\<rparr>"

record RunningTransactionsData =
  rt_subxid_overflow :: bool
  rt_nextXid :: TransactionId
  rt_oldestRunningXid :: TransactionId
  rt_latestCompletedXid :: TransactionId
  rt_xids :: "TransactionId list"

text \<open>
  \<^verbatim>\<open>xidComparator\<close> compares identifiers as numbers; \<^verbatim>\<open>qsort\<close> sorts by it.  Whether a
  transaction has committed or aborted is read from the logs of the standby.
\<close>

definition xidComparator :: "TransactionId \<Rightarrow> TransactionId \<Rightarrow> int" where
  "xidComparator xid1 xid2 = (if xid1 > xid2 then 1 else if xid1 < xid2 then -1 else 0)"

fun insert_xid :: "TransactionId \<Rightarrow> TransactionId list \<Rightarrow> TransactionId list" where
  "insert_xid x [] = [x]"
| "insert_xid x (y # ys) = (if xidComparator x y \<le> 0 then x # y # ys else y # insert_xid x ys)"

definition sort_xids :: "TransactionId list \<Rightarrow> TransactionId list" where
  "sort_xids xs = foldr insert_xid xs []"

fun add_known_xids :: "TransactionId list \<Rightarrow> ProcArrayStruct \<Rightarrow> pg_error + ProcArrayStruct" where
  "add_known_xids [] pa = Inr pa"
| "add_known_xids (x # xs) pa = (case KnownAssignedXidsAdd x x pa of Inl e \<Rightarrow> Inl e | Inr pa1 \<Rightarrow> add_known_xids xs pa1)"

text \<open>The transactions of the record that the logs of the standby do not show as completed.\<close>

fun still_running :: "Standby \<Rightarrow> XactCache \<Rightarrow> TransactionId list \<Rightarrow> (TransactionId list \<times> XactCache) option" where
  "still_running s cache [] = Some ([], cache)"
| "still_running s cache (xid # xids) =
     (case TransactionIdDidCommit (xg_clog (sb_gen s)) (xg_sub (sb_gen s)) (sb_TransactionXmin s) cache xid of
        None \<Rightarrow> None
      | Some (True, cache1) \<Rightarrow> still_running s cache1 xids
      | Some (False, cache1) \<Rightarrow>
          (case TransactionIdDidAbort (xg_clog (sb_gen s)) (xg_sub (sb_gen s)) (sb_TransactionXmin s) cache1 xid of
             None \<Rightarrow> None
           | Some (True, cache2) \<Rightarrow> still_running s cache2 xids
           | Some (False, cache2) \<Rightarrow>
               (case still_running s cache2 xids of None \<Rightarrow> None | Some (rest, cache3) \<Rightarrow> Some (xid # rest, cache3))))"

text \<open>The last part of \<^verbatim>\<open>ProcArrayApplyRecoveryInfo\<close>: start from the running transactions of the master.\<close>

definition start_from :: "TransactionId list \<Rightarrow> RunningTransactionsData \<Rightarrow> Standby \<Rightarrow> pg_error + Standby" where
  "start_from xids running s =
     (case add_known_xids (sort_xids xids) (sb_array s) of
        Inl e \<Rightarrow> Inl e
      | Inr pa \<Rightarrow>
          (let latest = TransactionIdRetreat (rt_nextXid running); nextXid = TransactionIdAdvance latest;
               vc = advance_latestCompletedXid (rt_latestCompletedXid running) (xg_cache (sb_gen s));
               vc1 = (if TransactionIdFollows nextXid (vc_nextXid vc) then vc\<lparr>vc_nextXid := nextXid\<rparr> else vc)
           in Inr (s\<lparr>sb_gen := (sb_gen s)\<lparr>xg_cache := vc1\<rparr>,
                     sb_array := (if rt_subxid_overflow running then pa\<lparr>lastOverflowedXid := latest\<rparr> else pa),
                     standbyState := (if rt_subxid_overflow running then STANDBY_SNAPSHOT_PENDING else STANDBY_SNAPSHOT_READY),
                     latestObservedXid := latest,
                     standbySnapshotPendingXmin := (if rt_subxid_overflow running then latest else InvalidTransactionId)\<rparr>)))"

definition init_standby :: "RunningTransactionsData \<Rightarrow> Standby \<Rightarrow> (pg_error + Standby) option" where
  "init_standby running s =
     (case still_running s (sb_fetch s) (rt_xids running) of
        None \<Rightarrow> None | Some (xids, cache) \<Rightarrow> Some (start_from xids running (s\<lparr>sb_fetch := cache\<rparr>)))"

definition ProcArrayApplyRecoveryInfo ::
    "(TransactionId \<Rightarrow> bool) \<Rightarrow> RunningTransactionsData \<Rightarrow> Standby \<Rightarrow> (pg_error + Standby) option" where
  "ProcArrayApplyRecoveryInfo prepared running s0 =
     (let s = ExpireOldKnownAssignedTransactionIds prepared (rt_oldestRunningXid running) s0
      in if standbyState s = STANDBY_SNAPSHOT_READY then Some (Inr s)
         else if standbyState s = STANDBY_SNAPSHOT_PENDING
         then if \<not> rt_subxid_overflow running \<or> rt_xids running = []
              then init_standby running (s\<lparr>standbyState := STANDBY_INITIALIZED\<rparr>)
              else if TransactionIdPrecedes (standbySnapshotPendingXmin s) (rt_oldestRunningXid running)
              then Some (Inr (s\<lparr>standbyState := STANDBY_SNAPSHOT_READY\<rparr>))
              else Some (Inr s)
         else init_standby running s)"

definition ProcArrayApplyXidAssignment :: "TransactionId \<Rightarrow> TransactionId list \<Rightarrow> Standby \<Rightarrow> pg_error + Standby" where
  "ProcArrayApplyXidAssignment topxid subxids s =
     (let max_xid = TransactionIdLatest topxid subxids
      in case RecordKnownAssignedTransactionIds max_xid s of
           Inl e \<Rightarrow> Inl e
         | Inr s1 \<Rightarrow>
             (let g = sb_gen s1; sub = fold (\<lambda>x. SubTransSetParent x topxid) subxids (xg_sub g);
                  pa = KnownAssignedXidsRemoveTree InvalidTransactionId subxids (sb_array s1)
              in Inr (s1\<lparr>sb_gen := g\<lparr>xg_sub := sub\<rparr>,
                         sb_array := (if TransactionIdPrecedes (lastOverflowedXid pa) max_xid then pa\<lparr>lastOverflowedXid := max_xid\<rparr> else pa)\<rparr>)))"

section \<open>The array as a sorted list\<close>

definition known_at :: "TransactionId list \<Rightarrow> bool list \<Rightarrow> nat list \<Rightarrow> TransactionId list" where
  "known_at xids valid is = map (\<lambda>i. xids ! i) (filter (\<lambda>i. valid ! i) is)"

text \<open>The identifiers in the array, oldest first.\<close>

definition known_list :: "ProcArrayStruct \<Rightarrow> TransactionId list" where
  "known_list pa = known_at (KnownAssignedXids pa) (KnownAssignedXidsValid pa) [tailKnownAssignedXids pa..<headKnownAssignedXids pa]"

definition xids_ascending :: "TransactionId \<Rightarrow> TransactionId list \<Rightarrow> bool" where
  "xids_ascending base xs \<longleftrightarrow> sorted_wrt (\<lambda>x y. xid_age base x < xid_age base y) xs
     \<and> (\<forall>x \<in> set xs. TransactionIdIsNormal x \<and> xid_age base x < 2147483648)"

definition known_wf :: "TransactionId \<Rightarrow> ProcArrayStruct \<Rightarrow> bool" where
  "known_wf base pa \<longleftrightarrow>
     length (KnownAssignedXids pa) = maxKnownAssignedXids pa \<and> length (KnownAssignedXidsValid pa) = maxKnownAssignedXids pa
   \<and> tailKnownAssignedXids pa \<le> headKnownAssignedXids pa \<and> headKnownAssignedXids pa \<le> maxKnownAssignedXids pa
   \<and> numKnownAssignedXids pa = int (length (known_list pa))
   \<and> xids_ascending base (map (\<lambda>i. KnownAssignedXids pa ! i) [tailKnownAssignedXids pa..<headKnownAssignedXids pa])"

lemma known_at_simps [simp]:
  "known_at xs vs [] = []" "known_at xs vs (i # is) = (if vs ! i then xs ! i # known_at xs vs is else known_at xs vs is)"
  "known_at xs vs (is @ js) = known_at xs vs is @ known_at xs vs js"
  by (simp_all add: known_at_def)

lemma known_at_cong: "(\<And>i. i \<in> set is \<Longrightarrow> xs ! i = xs' ! i \<and> vs ! i = vs' ! i) \<Longrightarrow> known_at xs vs is = known_at xs' vs' is"
  by (induction "is") auto

lemma known_at_length: "length (known_at xs vs is) \<le> length is"
  by (simp add: known_at_def)

lemma set_known_at: "set (known_at xs vs is) = {xs ! i |i. i \<in> set is \<and> vs ! i}"
  by (auto simp: known_at_def)

lemma xids_ascending_append:
  "xids_ascending base (xs @ ys) \<longleftrightarrow> xids_ascending base xs \<and> xids_ascending base ys
     \<and> (\<forall>x \<in> set xs. \<forall>y \<in> set ys. xid_age base x < xid_age base y)"
  by (auto simp: xids_ascending_def sorted_wrt_append)

lemma xids_ascending_known:
  "xids_ascending base (map ((!) xs) is) \<Longrightarrow> xids_ascending base (known_at xs vs is)"
  unfolding xids_ascending_def known_at_def by (auto simp: sorted_wrt_map sorted_wrt_filter)

lemma xids_ascending_filter: "xids_ascending base xs \<Longrightarrow> xids_ascending base (filter P xs)"
  by (auto simp: xids_ascending_def sorted_wrt_filter)

lemma xids_ascending_known_list: "known_wf base pa \<Longrightarrow> xids_ascending base (known_list pa)"
  using xids_ascending_known by (auto simp: known_wf_def known_list_def)

lemma known_wf_entry:
  assumes "known_wf base pa" "tailKnownAssignedXids pa \<le> i" "i < headKnownAssignedXids pa"
  shows "TransactionIdIsNormal (KnownAssignedXids pa ! i) \<and> xid_age base (KnownAssignedXids pa ! i) < 2147483648"
  using assms by (auto simp: known_wf_def xids_ascending_def)

lemma known_wf_less:
  assumes "known_wf base pa" "tailKnownAssignedXids pa \<le> i" "i < j" "j < headKnownAssignedXids pa"
  shows "xid_age base (KnownAssignedXids pa ! i) < xid_age base (KnownAssignedXids pa ! j)"
proof -
  let ?t = "tailKnownAssignedXids pa" and ?h = "headKnownAssignedXids pa"
  have s: "sorted_wrt (\<lambda>x y. xid_age base x < xid_age base y) (map ((!) (KnownAssignedXids pa)) [?t..<?h])"
    using assms(1) by (simp add: known_wf_def xids_ascending_def)
  show ?thesis using sorted_wrt_nth_less [OF s, of "i - ?t" "j - ?t"] assms(2-4) by simp
qed

section \<open>Compression\<close>

lemma compress_fold:
  assumes "t \<le> m" "m \<le> length xs" "length vs = length xs"
  shows "\<exists>xs' vs'. fold compress_step [t..<m] (xs, vs, 0) = (xs', vs', length (known_at xs vs [t..<m]))
    \<and> length xs' = length xs \<and> length vs' = length xs
    \<and> (\<forall>i < length (known_at xs vs [t..<m]). xs' ! i = known_at xs vs [t..<m] ! i \<and> vs' ! i)
    \<and> (\<forall>i \<ge> m. xs' ! i = xs ! i \<and> vs' ! i = vs ! i)"
  using assms
proof (induction m)
  case (Suc m)
  show ?case
  proof (cases "t \<le> m")
    case True
    define c where "c = length (known_at xs vs [t..<m])"
    obtain xs' vs' where IH: "fold compress_step [t..<m] (xs, vs, 0) = (xs', vs', c)" "length xs' = length xs" "length vs' = length xs"
      "\<forall>i < c. xs' ! i = known_at xs vs [t..<m] ! i \<and> vs' ! i" "\<forall>i \<ge> m. xs' ! i = xs ! i \<and> vs' ! i = vs ! i"
      using Suc.IH Suc.prems True unfolding c_def by auto
    have cm: "c \<le> m" using known_at_length [of xs vs "[t..<m]"] by (simp add: c_def)
    have f: "fold compress_step [t..<Suc m] (xs, vs, 0) = compress_step m (xs', vs', c)" using True IH(1) by simp
    have k: "known_at xs vs [t..<Suc m] = known_at xs vs [t..<m] @ (if vs ! m then [xs ! m] else [])" using True by simp
    show ?thesis
    proof (cases "vs ! m")
      case True
      then have "compress_step m (xs', vs', c) = (xs'[c := xs ! m], vs'[c := True], Suc c)"
        using IH(5) by (simp add: compress_step_def)
      then show ?thesis
        using f k True IH(2-5) cm Suc.prems
        by (intro exI [of _ "xs'[c := xs ! m]"] exI [of _ "vs'[c := True]"])
          (auto simp: c_def [symmetric] nth_list_update nth_append less_Suc_eq)
    next
      case False
      then have "compress_step m (xs', vs', c) = (xs', vs', c)" using IH(5) by (simp add: compress_step_def)
      then show ?thesis using f k False IH by (intro exI [of _ xs'] exI [of _ vs']) (simp add: c_def [symmetric])
    qed
  next
    case False
    then show ?thesis using Suc.prems by auto
  qed
qed auto

lemma known_at_all:
  assumes "\<And>i. i < c \<Longrightarrow> xs ! i = ys ! i \<and> vs ! i" "length ys = c"
  shows "known_at xs vs [0..<c] = ys"
  using assms by (auto simp: known_at_def intro: nth_equalityI)

text \<open>What compression changes: not the list, and not the fields of the process array.\<close>

definition same_procs :: "ProcArrayStruct \<Rightarrow> ProcArrayStruct \<Rightarrow> bool" where
  "same_procs pa pa' \<longleftrightarrow> pa_maxProcs pa' = pa_maxProcs pa \<and> pa_procs pa' = pa_procs pa \<and> lastOverflowedXid pa' = lastOverflowedXid pa
     \<and> maxKnownAssignedXids pa' = maxKnownAssignedXids pa"

lemma same_procs_refl [simp]: "same_procs pa pa" by (simp add: same_procs_def)

lemma same_procs_trans [trans]: "same_procs a b \<Longrightarrow> same_procs b c \<Longrightarrow> same_procs a c" by (simp add: same_procs_def)

lemma KnownAssignedXidsCompress_spec:
  assumes "known_wf base pa"
  shows "known_wf base (KnownAssignedXidsCompress force pa) \<and> known_list (KnownAssignedXidsCompress force pa) = known_list pa
    \<and> same_procs pa (KnownAssignedXidsCompress force pa)
    \<and> (force \<longrightarrow> headKnownAssignedXids (KnownAssignedXidsCompress force pa) = length (known_list pa)
         \<and> tailKnownAssignedXids (KnownAssignedXidsCompress force pa) = 0
         \<and> (\<forall>i < length (known_list pa). KnownAssignedXids (KnownAssignedXidsCompress force pa) ! i = known_list pa ! i))"
proof (cases "KnownAssignedXidsCompress force pa = pa \<and> \<not> force")
  case True
  then have eq: "KnownAssignedXidsCompress force pa = pa" by (rule conjunct1)
  from True have "\<not> force" by (rule conjunct2)
  then show ?thesis unfolding eq using assms by simp
next
  case False
  let ?t = "tailKnownAssignedXids pa" and ?h = "headKnownAssignedXids pa" and ?xs = "KnownAssignedXids pa" and ?vs = "KnownAssignedXidsValid pa"
  have wf: "?t \<le> ?h" "?h \<le> length ?xs" "length ?vs = length ?xs" using assms by (simp_all add: known_wf_def)
  obtain xs' vs' where c: "fold compress_step [?t..<?h] (?xs, ?vs, 0) = (xs', vs', length (known_list pa))"
    "length xs' = length ?xs" "length vs' = length ?xs" "\<forall>i < length (known_list pa). xs' ! i = known_list pa ! i \<and> vs' ! i"
    using compress_fold [OF wf] unfolding known_list_def by blast
  have r: "KnownAssignedXidsCompress force pa = pa\<lparr>KnownAssignedXids := xs', KnownAssignedXidsValid := vs',
      tailKnownAssignedXids := 0, headKnownAssignedXids := length (known_list pa)\<rparr>"
    using False c(1) unfolding KnownAssignedXidsCompress_def Let_def by (auto split: if_splits)
  have k: "known_at xs' vs' [0..<length (known_list pa)] = known_list pa" using c(4) by (intro known_at_all) auto
  have "map ((!) xs') [0..<length (known_list pa)] = known_list pa" using c(4) by (auto intro: nth_equalityI)
  then have "xids_ascending base (map ((!) xs') [0..<length (known_list pa)])" using xids_ascending_known_list [OF assms] by simp
  moreover have "length (known_list pa) \<le> ?h" using known_at_length [of ?xs ?vs "[?t..<?h]"] by (simp add: known_list_def)
  ultimately show ?thesis
    using assms c k unfolding r by (simp add: known_wf_def known_list_def same_procs_def)
qed

section \<open>Adding identifiers\<close>

text \<open>\<open>n\<close> identifiers from \<open>x\<close> on.\<close>

fun xid_range :: "nat \<Rightarrow> TransactionId \<Rightarrow> TransactionId list" where
  "xid_range 0 x = []"
| "xid_range (Suc n) x = x # xid_range n (TransactionIdAdvance x)"

lemma length_xid_range [simp]: "length (xid_range n x) = n"
  by (induction n arbitrary: x) auto

lemma take_drop_update:
  "i < length zs \<Longrightarrow> take (Suc i) (zs[i := z]) = take i zs @ [z]"
  by (simp add: take_Suc_conv_app_nth)

lemma put_xids_spec:
  assumes "head + n \<le> length xs" "length vs = length xs"
  shows "put_xids n x head (xs, vs) = (take head xs @ xid_range n x @ drop (head + n) xs, take head vs @ replicate n True @ drop (head + n) vs)"
  using assms
proof (induction n arbitrary: x head xs vs)
  case (Suc n)
  then show ?case using Suc.IH [of "head + 1" "xs[head := x]" "vs[head := True]"] by (simp add: take_drop_update)
qed simp

lemma xid_range_ages:
  assumes "TransactionIdIsNormal x" "TransactionIdIsNormal base" "assigned_between base x + n < 2147483640"
  shows "xids_ascending base (xid_range n x) \<and> (\<forall>y \<in> set (xid_range n x). xid_age base x \<le> xid_age base y)
    \<and> map (assigned_between base) (xid_range n x) = [assigned_between base x..<assigned_between base x + n]"
  using assms
proof (induction n arbitrary: x)
  case (Suc n)
  let ?a = "TransactionIdAdvance x"
  have a: "assigned_between base ?a = assigned_between base x + 1" using assigned_Advance [OF Suc.prems(2,1)] Suc.prems(3) by simp
  have lt: "xid_age base x < xid_age base ?a" using assigned_less_iff [OF Suc.prems(2,1), of ?a] a by simp
  have IH: "xids_ascending base (xid_range n ?a)" "\<forall>y \<in> set (xid_range n ?a). xid_age base ?a \<le> xid_age base y"
    "map (assigned_between base) (xid_range n ?a) = [assigned_between base ?a..<assigned_between base ?a + n]"
    using Suc.IH [of ?a] Suc.prems a by simp_all
  have "xid_age base x < 2147483648" using xid_age_assigned [of base x] Suc.prems(3) by simp
  then show ?case
    using IH lt a Suc.prems(1) upt_conv_Cons [of "assigned_between base x" "assigned_between base x + Suc n"]
    by (auto simp: xids_ascending_def)
qed (simp add: xids_ascending_def)

text \<open>The number of array slots computed in advance is the number of identifiers in the range.\<close>

lemma assigned_self [simp]: "assigned_between x x = 0" by (simp add: assigned_between_def)

lemma count_xids_assigned:
  assumes "TransactionIdIsNormal from_xid" "TransactionIdIsNormal to_xid" "assigned_between from_xid to_xid < 2147483640"
  shows "count_xids from_xid to_xid = assigned_between from_xid to_xid + 1"
  using assms
proof (induction "assigned_between from_xid to_xid" arbitrary: from_xid)
  case 0
  then have "xid_age from_xid to_xid = 0"
    using assigned_less_iff [OF 0(2,2,3)] by (simp add: xid_age_def)
  moreover have "xid_age from_xid from_xid = 0" by (simp add: xid_age_def)
  ultimately have "from_xid = to_xid" by (metis xid_age_inj)
  then show ?case by (simp add: count_xids.simps TransactionIdPrecedes_def)
next
  case (Suc n)
  let ?a = "TransactionIdAdvance from_xid"
  have "xid_age from_xid to_xid < 2147483648" using xid_age_assigned [of from_xid to_xid] Suc.prems(3) by simp
  moreover have "0 < xid_age from_xid to_xid" using xid_age_assigned [of from_xid to_xid] Suc.hyps(2) by simp
  ultimately have "TransactionIdPrecedes from_xid to_xid"
    using precedes_normal_window(1) [OF Suc.prems(1,2), of from_xid] by (simp add: xid_age_def)
  moreover have "assigned_between from_xid ?a = 1" using assigned_Advance [OF Suc.prems(1,1)] by simp
  then have "assigned_between ?a to_xid = n"
    using assigned_split [OF Suc.prems(1) _ Suc.prems(2), of ?a] Suc.hyps(2) by simp
  ultimately show ?case
    using Suc.hyps(1) [of ?a] Suc.hyps(2) Suc.prems by (subst count_xids.simps) simp
qed

lemma range_size:
  assumes "TransactionIdIsNormal from_xid" "TransactionIdIsNormal to_xid" "assigned_between from_xid to_xid < 2147483640"
  shows "(if from_xid \<le> to_xid then unat (to_xid - from_xid) + 1 else count_xids from_xid to_xid) = assigned_between from_xid to_xid + 1"
  using count_xids_assigned [OF assms] by (simp add: assigned_between_def unat_sub word_le_nat_alt)

definition all_before :: "TransactionId \<Rightarrow> TransactionId \<Rightarrow> ProcArrayStruct \<Rightarrow> bool" where
  "all_before base x pa \<longleftrightarrow> (\<forall>i. tailKnownAssignedXids pa \<le> i \<longrightarrow> i < headKnownAssignedXids pa \<longrightarrow> xid_age base (KnownAssignedXids pa ! i) < xid_age base x)"

lemma out_of_order_iff:
  assumes "known_wf base pa" "TransactionIdIsNormal x" "xid_age base x < 2147483648"
  defines "h \<equiv> headKnownAssignedXids pa"
  shows "tailKnownAssignedXids pa < h \<and> TransactionIdFollowsOrEquals (KnownAssignedXids pa ! (h - 1)) x \<longleftrightarrow> \<not> all_before base x pa"
proof (cases "tailKnownAssignedXids pa < h")
  case True
  then have e: "TransactionIdIsNormal (KnownAssignedXids pa ! (h - 1))" "xid_age base (KnownAssignedXids pa ! (h - 1)) < 2147483648"
    using known_wf_entry [OF assms(1), of "h - 1"] by (simp_all add: h_def)
  have "xid_age base (KnownAssignedXids pa ! i) \<le> xid_age base (KnownAssignedXids pa ! (h - 1))" if "tailKnownAssignedXids pa \<le> i" "i < h" for i
  proof -
    have "i = h - 1 \<or> i < h - 1" using that by linarith
    then show ?thesis using known_wf_less [OF assms(1), of i "h - 1"] that True by (auto simp: h_def)
  qed
  then have "all_before base x pa \<longleftrightarrow> xid_age base (KnownAssignedXids pa ! (h - 1)) < xid_age base x"
    using True by (auto simp: all_before_def h_def intro: le_less_trans)
  then show ?thesis using precedes_normal_window(4) [OF e(1) assms(2), of base] e(2) assms(3) True by auto
next
  case False
  then show ?thesis by (auto simp: all_before_def h_def)
qed

lemma append_known_range:
  assumes "known_wf base pa" "TransactionIdIsNormal base" "TransactionIdIsNormal x" "assigned_between base x + n < 2147483640"
    and "headKnownAssignedXids pa + n \<le> maxKnownAssignedXids pa" "all_before base x pa"
    and "put_xids n x (headKnownAssignedXids pa) (KnownAssignedXids pa, KnownAssignedXidsValid pa) = (xs, vs)"
  defines "pa' \<equiv> pa\<lparr>KnownAssignedXids := xs, KnownAssignedXidsValid := vs, numKnownAssignedXids := numKnownAssignedXids pa + int n,
      headKnownAssignedXids := headKnownAssignedXids pa + n\<rparr>"
  shows "known_wf base pa' \<and> known_list pa' = known_list pa @ xid_range n x \<and> same_procs pa pa'
    \<and> (\<forall>z. (\<forall>y \<in> set (xid_range n x). xid_age base y < xid_age base z) \<longrightarrow> 0 < n \<longrightarrow> all_before base z pa')"
proof -
  let ?t = "tailKnownAssignedXids pa" and ?h = "headKnownAssignedXids pa"
  have len: "length (KnownAssignedXids pa) = maxKnownAssignedXids pa" "length (KnownAssignedXidsValid pa) = maxKnownAssignedXids pa" "?t \<le> ?h"
    using assms(1) by (simp_all add: known_wf_def)
  have xs: "xs = take ?h (KnownAssignedXids pa) @ xid_range n x @ drop (?h + n) (KnownAssignedXids pa)"
    and vs: "vs = take ?h (KnownAssignedXidsValid pa) @ replicate n True @ drop (?h + n) (KnownAssignedXidsValid pa)"
    using assms(7) put_xids_spec [of ?h n "KnownAssignedXids pa" "KnownAssignedXidsValid pa" x] len assms(5) by simp_all
  have old: "xs ! i = KnownAssignedXids pa ! i" "vs ! i = KnownAssignedXidsValid pa ! i" if "i < ?h" for i
    using that len assms(5) by (simp_all add: xs vs nth_append)
  have new: "xs ! (?h + i) = xid_range n x ! i" "vs ! (?h + i)" if "i < n" for i
    using that len assms(5) by (simp_all add: xs vs nth_append)
  have split: "[?t..<?h + n] = [?t..<?h] @ map (\<lambda>i. ?h + i) [0..<n]"
    using len(3) upt_add_eq_append [of ?t ?h n] by (simp add: map_add_upt add.commute)
  have "known_at xs vs (map (\<lambda>i. ?h + i) [0..<n]) = xid_range n x"
    using new by (auto simp: known_at_def filter_map o_def intro: nth_equalityI)
  moreover have "known_at xs vs [?t..<?h] = known_list pa" unfolding known_list_def by (rule known_at_cong) (use old in auto)
  ultimately have known: "known_list pa' = known_list pa @ xid_range n x" using split by (simp add: known_list_def pa'_def)
  have rg: "xids_ascending base (xid_range n x)" "\<forall>y \<in> set (xid_range n x). xid_age base x \<le> xid_age base y"
    using xid_range_ages [OF assms(3,2,4)] by simp_all
  have arr: "map ((!) xs) [?t..<?h + n] = map ((!) (KnownAssignedXids pa)) [?t..<?h] @ xid_range n x"
    unfolding split using old new by (auto intro!: nth_equalityI)
  have bef: "all_before base z pa'" if z: "\<forall>y \<in> set (xid_range n x). xid_age base y < xid_age base z" "0 < n" for z
  proof -
    have "x \<in> set (xid_range n x)" using z(2) by (cases n) auto
    then have "xid_age base x < xid_age base z" using z(1) by blast
    then have "\<forall>y \<in> set (map ((!) xs) [?t..<?h + n]). xid_age base y < xid_age base z"
      unfolding arr using z(1) assms(6) by (auto simp: all_before_def intro: less_trans)
    then show ?thesis by (auto simp: all_before_def pa'_def)
  qed
  note arr
  moreover have "xids_ascending base (map ((!) (KnownAssignedXids pa)) [?t..<?h] @ xid_range n x)"
  proof -
    have "xid_age base (KnownAssignedXids pa ! i) < xid_age base y" if "?t \<le> i" "i < ?h" "y \<in> set (xid_range n x)" for i y
      using that rg(2) assms(6) less_le_trans unfolding all_before_def by blast
    then show ?thesis using rg(1) assms(1) by (auto simp: xids_ascending_append known_wf_def)
  qed
  ultimately have "known_wf base pa'"
    using assms(1,5) len known by (simp add: known_wf_def pa'_def xs vs)
  then show ?thesis using known bef by (simp add: pa'_def same_procs_def)
qed

lemma all_before_compress:
  assumes "known_wf base pa" "all_before base x pa"
  shows "all_before base x (KnownAssignedXidsCompress True pa)"
proof -
  have "xid_age base y < xid_age base x" if "y \<in> set (known_list pa)" for y
    using that assms(2) by (auto simp: known_list_def set_known_at all_before_def)
  then show ?thesis using KnownAssignedXidsCompress_spec [OF assms(1), of True] by (simp add: all_before_def)
qed

lemma KnownAssignedXidsAdd_spec:
  assumes "known_wf base pa" "TransactionIdIsNormal base" "TransactionIdIsNormal from_xid" "TransactionIdIsNormal to_xid"
    and "assigned_between base from_xid \<le> assigned_between base to_xid" "assigned_between base to_xid < 2147483630"
  defines "n \<equiv> assigned_between from_xid to_xid + 1"
  shows "case KnownAssignedXidsAdd from_xid to_xid pa of
     Inl e \<Rightarrow> e = Elog ''out-of-order XID insertion in KnownAssignedXids'' \<and> \<not> all_before base from_xid pa
              \<or> e = Elog ''too many KnownAssignedXids'' \<and> maxKnownAssignedXids pa < length (known_list pa) + n
   | Inr pa' \<Rightarrow> all_before base from_xid pa \<and> known_wf base pa' \<and> known_list pa' = known_list pa @ xid_range n from_xid \<and> same_procs pa pa'
       \<and> (\<forall>z. (\<forall>y \<in> set (xid_range n from_xid). xid_age base y < xid_age base z) \<longrightarrow> all_before base z pa')"
proof -
  let ?t = "tailKnownAssignedXids pa" and ?h = "headKnownAssignedXids pa"
  have n: "n = assigned_between base to_xid - assigned_between base from_xid + 1"
    using assigned_split [OF assms(2-5)] by (simp add: n_def)
  then have "assigned_between from_xid to_xid < 2147483640" using assms(6) by (simp add: n_def)
  note size = range_size [OF assms(3,4) this, folded n_def]
  have age: "xid_age base from_xid < 2147483648" using assms(5,6) xid_age_assigned [of base from_xid] by linarith
  note ooo = out_of_order_iff [OF assms(1,3) age]
  define pa1 where "pa1 = (if maxKnownAssignedXids pa < ?h + n then KnownAssignedXidsCompress True pa else pa)"
  define h1 where "h1 = headKnownAssignedXids pa1"
  note comp = KnownAssignedXidsCompress_spec [OF assms(1), of True]
  have pa1: "known_wf base pa1" "known_list pa1 = known_list pa" "same_procs pa pa1" using comp assms(1) by (auto simp: pa1_def)
  show ?thesis
  proof (cases "all_before base from_xid pa")
    case False
    then show ?thesis using ooo by (auto simp: KnownAssignedXidsAdd_def Let_def)
  next
    case True
    have ab: "all_before base from_xid pa1" using True all_before_compress [OF assms(1) True] by (simp add: pa1_def)
    have no: "(?t < ?h \<and> TransactionIdFollowsOrEquals (KnownAssignedXids pa ! (?h - 1)) from_xid) = False" using ooo True by blast
    obtain xs vs where put: "put_xids n from_xid h1 (KnownAssignedXids pa1, KnownAssignedXidsValid pa1) = (xs, vs)" by fastforce
    have add: "KnownAssignedXidsAdd from_xid to_xid pa
        = (if maxKnownAssignedXids pa < h1 + n then Inl (Elog ''too many KnownAssignedXids'')
           else Inr (pa1\<lparr>KnownAssignedXids := xs, KnownAssignedXidsValid := vs,
                     numKnownAssignedXids := numKnownAssignedXids pa1 + int n, headKnownAssignedXids := h1 + n\<rparr>))"
      using put unfolding KnownAssignedXidsAdd_def size Let_def no if_False pa1_def [symmetric] h1_def [symmetric] by simp
    have "h1 = length (known_list pa)" if "maxKnownAssignedXids pa < h1 + n"
      using that comp by (auto simp: pa1_def h1_def split: if_splits)
    moreover have "same_procs pa pa1 \<Longrightarrow> maxKnownAssignedXids pa1 = maxKnownAssignedXids pa" by (simp add: same_procs_def)
    ultimately show ?thesis
      using add True append_known_range [OF pa1(1) assms(2,3) _ _ ab put [unfolded h1_def]] pa1(2,3) n assms(5,6)
      by (auto simp: h1_def intro: same_procs_trans)
  qed
qed

section \<open>Searching and removing\<close>

definition found_at :: "TransactionId list \<Rightarrow> TransactionId \<Rightarrow> int \<Rightarrow> int \<Rightarrow> int \<Rightarrow> bool" where
  "found_at xs x lo hi r \<longleftrightarrow> lo \<le> r \<and> r \<le> hi \<and> xs ! nat r = x \<or> r = -1 \<and> (\<forall>i. lo \<le> i \<longrightarrow> i \<le> hi \<longrightarrow> xs ! nat i \<noteq> x)"

lemma found_at_left:
  "found_at xs x lo (m - 1) r \<Longrightarrow> (\<And>i. m \<le> i \<Longrightarrow> i \<le> hi \<Longrightarrow> xs ! nat i \<noteq> x) \<Longrightarrow> m \<le> hi \<Longrightarrow> found_at xs x lo hi r"
  unfolding found_at_def by (metis dual_order.trans linorder_not_le zle_diff1_eq zless_imp_add1_zle order.strict_iff_order)

lemma found_at_right:
  "found_at xs x (m + 1) hi r \<Longrightarrow> (\<And>i. lo \<le> i \<Longrightarrow> i \<le> m \<Longrightarrow> xs ! nat i \<noteq> x) \<Longrightarrow> lo \<le> m \<Longrightarrow> found_at xs x lo hi r"
  unfolding found_at_def by (metis dual_order.trans linorder_not_le add1_zle_eq order.strict_iff_order)

lemma search_xids_spec:
  assumes "\<And>i j. lo \<le> i \<Longrightarrow> i < j \<Longrightarrow> j \<le> hi \<Longrightarrow> xid_age base (xs ! nat i) < xid_age base (xs ! nat j)"
    and "\<And>i. lo \<le> i \<Longrightarrow> i \<le> hi \<Longrightarrow> TransactionIdIsNormal (xs ! nat i) \<and> xid_age base (xs ! nat i) < 2147483648"
    and "TransactionIdIsNormal x" "xid_age base x < 2147483648"
  shows "found_at xs x lo hi (search_xids xs x lo hi)"
  using assms
proof (induction xs x lo hi rule: search_xids.induct)
  case (1 xs x lo hi)
  show ?case
  proof (cases "lo \<le> hi")
    case False
    then have "search_xids xs x lo hi = -1" by (subst search_xids.simps) simp
    then show ?thesis using False by (simp add: found_at_def)
  next
    case le: True
    define m where "m = (lo + hi) div 2"
    have m: "lo \<le> m" "m \<le> hi" using le by (simp_all add: m_def)
    note less = "1.prems"(1) and e = "1.prems"(2) [OF m]
    have pre: "TransactionIdPrecedes x (xs ! nat m) \<longleftrightarrow> xid_age base x < xid_age base (xs ! nat m)"
      using precedes_normal_window(1) [OF "1.prems"(3), of "xs ! nat m" base] e "1.prems"(4) by simp
    consider "x = xs ! nat m" | "x \<noteq> xs ! nat m" "TransactionIdPrecedes x (xs ! nat m)"
      | "x \<noteq> xs ! nat m" "\<not> TransactionIdPrecedes x (xs ! nat m)" by blast
    then show ?thesis
    proof cases
      case 1
      then have "search_xids xs x lo hi = m" using le by (subst search_xids.simps) (simp add: m_def Let_def)
      then show ?thesis using 1 m by (simp add: found_at_def)
    next
      case 2
      then have s: "search_xids xs x lo hi = search_xids xs x lo (m - 1)" using le by (subst search_xids.simps) (simp add: m_def Let_def)
      have none: "xs ! nat i \<noteq> x" if "m \<le> i" "i \<le> hi" for i
        using less [of m i] that m(1) 2 pre by (cases "i = m") auto
      have "found_at xs x lo (m - 1) (search_xids xs x lo (m - 1))"
        by (rule "1.IH"(1) [OF le m_def refl 2]) (use m "1.prems" in auto)
      then show ?thesis unfolding s using none m(2) by (rule found_at_left)
    next
      case 3
      then have s: "search_xids xs x lo hi = search_xids xs x (m + 1) hi" using le by (subst search_xids.simps) (simp add: m_def Let_def)
      have none: "xs ! nat i \<noteq> x" if "lo \<le> i" "i \<le> m" for i
        using less [of i m] that m(2) 3 pre by (cases "i = m") auto
      have "found_at xs x (m + 1) hi (search_xids xs x (m + 1) hi)"
        by (rule "1.IH"(2) [OF le m_def refl 3]) (use m "1.prems" in auto)
      then show ?thesis unfolding s using none m(1) by (rule found_at_right)
    qed
  qed
qed

lemma known_at_unmark:
  assumes "i < length vs" "\<And>j. j \<in> set is \<Longrightarrow> j \<noteq> i \<Longrightarrow> xs ! j \<noteq> xs ! i"
  shows "known_at xs (vs[i := False]) is = filter (\<lambda>y. y \<noteq> xs ! i) (known_at xs vs is)"
  using assms by (induction "is") (auto simp: nth_list_update)

lemma known_at_skip:
  assumes "t \<le> j" "j \<le> h" "\<And>k. t \<le> k \<Longrightarrow> k < j \<Longrightarrow> \<not> vs ! k"
  shows "known_at xs vs [t..<h] = known_at xs vs [j..<h]"
proof -
  have "[t..<h] = [t..<j] @ [j..<h]" using assms(1,2) by (metis le_add_diff_inverse upt_add_eq_append)
  moreover have "filter (\<lambda>i. vs ! i) [t..<j] = []" using assms(3) by (auto simp: filter_empty_conv)
  ultimately show ?thesis by (simp add: known_at_def)
qed

lemma next_valid_spec:
  "i \<le> head \<Longrightarrow> i \<le> next_valid valid i head \<and> next_valid valid i head \<le> head
     \<and> (\<forall>k. i \<le> k \<longrightarrow> k < next_valid valid i head \<longrightarrow> \<not> valid ! k)
     \<and> (next_valid valid i head < head \<longrightarrow> valid ! next_valid valid i head)"
proof (induction valid i head rule: next_valid.induct)
  case (1 valid i head)
  show ?case
  proof (cases "i < head \<and> \<not> valid ! i")
    case True
    then have "next_valid valid i head = next_valid valid (i + 1) head" by (subst next_valid.simps) simp
    moreover have "\<not> valid ! k" if "i \<le> k" "k < next_valid valid (i + 1) head" for k
      using that 1 True by (cases "k = i") auto
    ultimately show ?thesis using 1 True by auto
  next
    case False
    then have "next_valid valid i head = i" by (subst next_valid.simps) auto
    then show ?thesis using False 1(2) by auto
  qed
qed

text \<open>Moving the tail over invalid entries, or resetting both pointers when nothing is left.\<close>

lemma move_tail:
  assumes "known_wf base pa" "tailKnownAssignedXids pa \<le> s" "s \<le> headKnownAssignedXids pa"
    and "\<And>k. tailKnownAssignedXids pa \<le> k \<Longrightarrow> k < s \<Longrightarrow> \<not> KnownAssignedXidsValid pa ! k"
  defines "j \<equiv> next_valid (KnownAssignedXidsValid pa) s (headKnownAssignedXids pa)"
  defines "pa' \<equiv> (if headKnownAssignedXids pa \<le> j then pa\<lparr>headKnownAssignedXids := 0, tailKnownAssignedXids := 0\<rparr>
      else pa\<lparr>tailKnownAssignedXids := j\<rparr>)"
  shows "known_wf base pa' \<and> known_list pa' = known_list pa \<and> same_procs pa pa'"
proof -
  let ?t = "tailKnownAssignedXids pa" and ?h = "headKnownAssignedXids pa"
  note nv = next_valid_spec [OF assms(3), of "KnownAssignedXidsValid pa", folded j_def]
  have j: "?t \<le> j" "j \<le> ?h" using nv assms(2) by linarith+
  have "\<not> KnownAssignedXidsValid pa ! k" if "?t \<le> k" "k < j" for k
    using nv assms(4) [of k] that by (cases "k < s") auto
  then have known: "known_list pa = known_at (KnownAssignedXids pa) (KnownAssignedXidsValid pa) [j..<?h]"
    unfolding known_list_def by (intro known_at_skip j)
  have "[?t..<?h] = [?t..<j] @ [j..<?h]" using j by (metis le_add_diff_inverse upt_add_eq_append)
  then have asc: "xids_ascending base (map ((!) (KnownAssignedXids pa)) [j..<?h])"
    using assms(1) by (simp add: known_wf_def xids_ascending_append)
  show ?thesis
  proof (cases "?h \<le> j")
    case True
    then have "known_list pa = []" using known by simp
    then show ?thesis using True assms(1) by (simp add: pa'_def known_wf_def known_list_def same_procs_def xids_ascending_def)
  next
    case False
    then show ?thesis using assms(1) asc j known by (simp add: pa'_def known_wf_def known_list_def same_procs_def)
  qed
qed

lemma ascending_distinct: "xids_ascending base xs \<Longrightarrow> distinct xs"
  unfolding xids_ascending_def by (induction xs) auto

lemma filter_neq_remove1: "distinct xs \<Longrightarrow> filter (\<lambda>y. y \<noteq> x) xs = remove1 x xs"
  by (induction xs) (auto intro: filter_True)

lemma known_wf_unmark:
  assumes "known_wf base pa" "tailKnownAssignedXids pa \<le> i" "i < headKnownAssignedXids pa" "KnownAssignedXidsValid pa ! i"
  defines "pa' \<equiv> pa\<lparr>KnownAssignedXidsValid := (KnownAssignedXidsValid pa)[i := False], numKnownAssignedXids := numKnownAssignedXids pa - 1\<rparr>"
  shows "known_wf base pa' \<and> known_list pa' = filter (\<lambda>y. y \<noteq> KnownAssignedXids pa ! i) (known_list pa) \<and> same_procs pa pa'"
proof -
  let ?x = "KnownAssignedXids pa ! i"
  have uniq: "KnownAssignedXids pa ! j \<noteq> ?x" if "j \<in> set [tailKnownAssignedXids pa..<headKnownAssignedXids pa]" "j \<noteq> i" for j
    using that known_wf_less [OF assms(1), of i j] known_wf_less [OF assms(1), of j i] assms(2,3) by (cases i j rule: linorder_cases) auto
  have "i < length (KnownAssignedXidsValid pa)" using assms(1,3) by (simp add: known_wf_def)
  then have "known_at (KnownAssignedXids pa) ((KnownAssignedXidsValid pa)[i := False]) [tailKnownAssignedXids pa..<headKnownAssignedXids pa]
      = filter (\<lambda>y. y \<noteq> ?x) (known_at (KnownAssignedXids pa) (KnownAssignedXidsValid pa) [tailKnownAssignedXids pa..<headKnownAssignedXids pa])"
    using uniq by (rule known_at_unmark)
  then have known: "known_list pa' = filter (\<lambda>y. y \<noteq> ?x) (known_list pa)" by (simp add: known_list_def pa'_def)
  have "?x \<in> set (known_list pa)" using assms(2-4) by (auto simp: known_list_def set_known_at)
  moreover have "filter (\<lambda>y. y \<noteq> ?x) (known_list pa) = remove1 ?x (known_list pa)"
    using filter_neq_remove1 [OF ascending_distinct [OF xids_ascending_known_list [OF assms(1)]]] .
  ultimately have "length (known_list pa') = length (known_list pa) - 1" "0 < length (known_list pa)"
    using known by (auto simp: length_remove1)
  then have "int (length (known_list pa')) = int (length (known_list pa)) - 1" by linarith
  then show ?thesis using known assms(1) by (simp add: pa'_def known_wf_def same_procs_def)
qed

definition remove_entry :: "nat \<Rightarrow> ProcArrayStruct \<Rightarrow> ProcArrayStruct" where
  "remove_entry r pa =
     (let tail = tailKnownAssignedXids pa; head = headKnownAssignedXids pa; valid = (KnownAssignedXidsValid pa)[r := False];
          pa1 = pa\<lparr>KnownAssignedXidsValid := valid, numKnownAssignedXids := numKnownAssignedXids pa - 1\<rparr>;
          tail1 = next_valid valid (tail + 1) head
      in if r = tail
         then if head \<le> tail1 then pa1\<lparr>headKnownAssignedXids := 0, tailKnownAssignedXids := 0\<rparr> else pa1\<lparr>tailKnownAssignedXids := tail1\<rparr>
         else pa1)"

lemma remove_entry_spec:
  assumes "known_wf base pa" "tailKnownAssignedXids pa \<le> i" "i < headKnownAssignedXids pa" "KnownAssignedXidsValid pa ! i"
  shows "known_wf base (remove_entry i pa) \<and> known_list (remove_entry i pa) = filter (\<lambda>y. y \<noteq> KnownAssignedXids pa ! i) (known_list pa)
    \<and> same_procs pa (remove_entry i pa)"
proof -
  let ?t = "tailKnownAssignedXids pa" and ?h = "headKnownAssignedXids pa"
  define pa1 where "pa1 = pa\<lparr>KnownAssignedXidsValid := (KnownAssignedXidsValid pa)[i := False], numKnownAssignedXids := numKnownAssignedXids pa - 1\<rparr>"
  note um = known_wf_unmark [OF assms, folded pa1_def]
  show ?thesis
  proof (cases "i = ?t")
    case True
    define pa2 where "pa2 = (if headKnownAssignedXids pa1 \<le> next_valid (KnownAssignedXidsValid pa1) (?t + 1) (headKnownAssignedXids pa1)
        then pa1\<lparr>headKnownAssignedXids := 0, tailKnownAssignedXids := 0\<rparr>
        else pa1\<lparr>tailKnownAssignedXids := next_valid (KnownAssignedXidsValid pa1) (?t + 1) (headKnownAssignedXids pa1)\<rparr>)"
    have inv: "\<not> KnownAssignedXidsValid pa1 ! k" if "tailKnownAssignedXids pa1 \<le> k" "k < ?t + 1" for k
    proof -
      have "k = ?t" using that by (simp add: pa1_def)
      then show ?thesis using True assms(1,3) by (simp add: pa1_def known_wf_def)
    qed
    have "known_wf base pa2 \<and> known_list pa2 = known_list pa1 \<and> same_procs pa1 pa2"
      unfolding pa2_def by (rule move_tail) (use um inv assms(3) True in \<open>simp_all add: pa1_def\<close>)
    moreover have "remove_entry i pa = pa2" using True by (simp add: remove_entry_def pa2_def pa1_def Let_def)
    ultimately show ?thesis using um by (auto intro: same_procs_trans)
  next
    case False
    then have "remove_entry i pa = pa1" by (simp add: remove_entry_def pa1_def Let_def)
    then show ?thesis using um by simp
  qed
qed

lemma found_at_nat:
  assumes "found_at xs x (int t) (int h - 1) r"
  shows "r = -1 \<and> (\<forall>i. t \<le> i \<longrightarrow> i < h \<longrightarrow> xs ! i \<noteq> x) \<or> 0 \<le> r \<and> t \<le> nat r \<and> nat r < h \<and> xs ! nat r = x"
proof (cases "r = -1")
  case True
  then have "\<forall>i. int t \<le> i \<longrightarrow> i \<le> int h - 1 \<longrightarrow> xs ! nat i \<noteq> x" using assms by (auto simp: found_at_def)
  then have "xs ! nat (int i) \<noteq> x" if "t \<le> i" "i < h" for i using that by (metis of_nat_le_iff of_nat_less_iff zle_diff1_eq)
  then show ?thesis using True by simp
next
  case False
  then have "int t \<le> r \<and> r \<le> int h - 1 \<and> xs ! nat r = x" using assms by (auto simp: found_at_def)
  then show ?thesis by auto
qed

lemma KnownAssignedXidsSearch_spec:
  assumes "known_wf base pa" "TransactionIdIsNormal x" "xid_age base x < 2147483648"
  shows "fst (KnownAssignedXidsSearch x remove pa) = (x \<in> set (known_list pa))
    \<and> (\<not> remove \<longrightarrow> snd (KnownAssignedXidsSearch x remove pa) = pa)
    \<and> (remove \<longrightarrow> known_wf base (snd (KnownAssignedXidsSearch x remove pa))
         \<and> known_list (snd (KnownAssignedXidsSearch x remove pa)) = filter (\<lambda>y. y \<noteq> x) (known_list pa)
         \<and> same_procs pa (snd (KnownAssignedXidsSearch x remove pa)))"
proof -
  let ?t = "tailKnownAssignedXids pa" and ?h = "headKnownAssignedXids pa" and ?xs = "KnownAssignedXids pa" and ?vs = "KnownAssignedXidsValid pa"
  define r where "r = search_xids ?xs x (int ?t) (int ?h - 1)"
  have "found_at ?xs x (int ?t) (int ?h - 1) r"
    unfolding r_def
    by (rule search_xids_spec) (use known_wf_less [OF assms(1)] known_wf_entry [OF assms(1)] assms(2,3) in auto)
  then consider "r = -1" "\<And>i. ?t \<le> i \<Longrightarrow> i < ?h \<Longrightarrow> ?xs ! i \<noteq> x" | "0 \<le> r" "?t \<le> nat r" "nat r < ?h" "?xs ! nat r = x"
    using found_at_nat by blast
  then show ?thesis
  proof cases
    case 1
    then have "x \<notin> set (known_list pa)" by (auto simp: known_list_def set_known_at)
    moreover have "filter (\<lambda>y. y \<noteq> x) (known_list pa) = known_list pa" using calculation by (intro filter_True) auto
    moreover have eq: "KnownAssignedXidsSearch x remove pa = (False, pa)" using 1(1) by (simp add: KnownAssignedXidsSearch_def r_def Let_def)
    ultimately show ?thesis unfolding eq using assms(1) by simp
  next
    case 2
    show ?thesis
    proof (cases "?vs ! nat r")
      case False
      have "j = nat r" if "?t \<le> j" "j < ?h" "?xs ! j = x" for j
        using that known_wf_less [OF assms(1), of "nat r" j] known_wf_less [OF assms(1), of j "nat r"] 2 by (cases "nat r" j rule: linorder_cases) auto
      then have "x \<notin> set (known_list pa)" using False by (auto simp: known_list_def set_known_at)
      moreover have "filter (\<lambda>y. y \<noteq> x) (known_list pa) = known_list pa" using calculation by (intro filter_True) auto
      moreover have eq: "KnownAssignedXidsSearch x remove pa = (False, pa)" using 2(1) False by (simp add: KnownAssignedXidsSearch_def r_def Let_def)
      ultimately show ?thesis unfolding eq using assms(1) by simp
    next
      case True
      have mem: "x \<in> set (known_list pa)" using True 2 by (auto simp: known_list_def set_known_at)
      have res: "KnownAssignedXidsSearch x remove pa = (True, if remove then remove_entry (nat r) pa else pa)"
        using 2(1) True by (simp add: KnownAssignedXidsSearch_def r_def remove_entry_def Let_def)
      show ?thesis unfolding res using remove_entry_spec [OF assms(1) 2(2,3) True] mem 2(4) by simp
    qed
  qed
qed

lemma mark_preceding_spec:
  assumes "sorted_wrt (\<lambda>i j. xid_age base (xs ! i) < xid_age base (xs ! j)) is" "distinct is"
    and "\<forall>i \<in> set is. i < length vs \<and> TransactionIdIsNormal (xs ! i) \<and> xid_age base (xs ! i) < 2147483648"
    and "TransactionIdIsNormal x" "xid_age base x < 2147483648"
    and "mark_preceding prepared xs x is (vs, c) = (vs', c')"
  shows "length vs' = length vs \<and> (\<forall>i. i \<notin> set is \<longrightarrow> vs' ! i = vs ! i)
    \<and> known_at xs vs' is = filter (\<lambda>y. xid_age base x \<le> xid_age base y \<or> prepared y) (known_at xs vs is)
    \<and> int c' = int c + int (length (known_at xs vs is)) - int (length (known_at xs vs' is))"
  using assms
proof (induction "is" arbitrary: vs c)
  case (Cons i "is")
  have ent: "TransactionIdIsNormal (xs ! i)" "xid_age base (xs ! i) < 2147483648" "i < length vs" "i \<notin> set is" using Cons.prems by auto
  have fe: "TransactionIdFollowsOrEquals (xs ! i) x \<longleftrightarrow> xid_age base x \<le> xid_age base (xs ! i)"
    using precedes_normal_window(4) [OF ent(1) Cons.prems(4), of base] ent(2) Cons.prems(5) by simp
  have stop: "filter (\<lambda>y. xid_age base x \<le> xid_age base y \<or> prepared y) (known_at xs vs is) = known_at xs vs is"
    if "xid_age base x \<le> xid_age base (xs ! i)"
    using that Cons.prems(1) by (intro filter_True) (auto simp: set_known_at)
  have keep: "known_at xs (vs[i := b]) is = known_at xs vs is" for b
    by (rule known_at_cong) (metis ent(4) nth_list_update_neq)
  note IH = Cons.IH [of "vs[i := False]" "c + 1"] Cons.IH [of vs c]
  consider "vs ! i" "xid_age base x \<le> xid_age base (xs ! i)" | "vs ! i" "\<not> xid_age base x \<le> xid_age base (xs ! i)" "\<not> prepared (xs ! i)"
    | "\<not> vs ! i \<or> \<not> xid_age base x \<le> xid_age base (xs ! i) \<and> prepared (xs ! i)" by blast
  then show ?case
  proof cases
    case 1
    then show ?thesis using Cons.prems(6) fe stop by auto
  next
    case 2
    then have "mark_preceding prepared xs x is (vs[i := False], c + 1) = (vs', c')" using Cons.prems(6) fe by simp
    note r = IH(1) [OF _ _ _ Cons.prems(4,5) this]
    then have "\<not> vs' ! i" using Cons.prems ent by simp
    then show ?thesis using r 2 Cons.prems ent keep by (auto simp: nth_list_update)
  next
    case 3
    then have m: "mark_preceding prepared xs x is (vs, c) = (vs', c')" using Cons.prems(6) fe by (auto split: if_splits)
    note r = IH(2) [OF _ _ _ Cons.prems(4,5) m]
    then have "vs' ! i = vs ! i" using Cons.prems ent by simp
    then show ?thesis using r 3 Cons.prems by auto
  qed
qed simp

lemma known_wf_sorted: "known_wf base pa \<Longrightarrow>
    sorted_wrt (\<lambda>i j. xid_age base (KnownAssignedXids pa ! i) < xid_age base (KnownAssignedXids pa ! j)) [tailKnownAssignedXids pa..<headKnownAssignedXids pa]"
  by (simp add: known_wf_def xids_ascending_def sorted_wrt_map)

lemma KnownAssignedXidsRemovePreceding_spec:
  assumes "known_wf base pa" "TransactionIdIsNormal x" "xid_age base x < 2147483648"
  shows "known_wf base (KnownAssignedXidsRemovePreceding prepared x pa) \<and> same_procs pa (KnownAssignedXidsRemovePreceding prepared x pa)
    \<and> known_list (KnownAssignedXidsRemovePreceding prepared x pa) = filter (\<lambda>y. xid_age base x \<le> xid_age base y \<or> prepared y) (known_list pa)"
proof -
  let ?t = "tailKnownAssignedXids pa" and ?h = "headKnownAssignedXids pa" and ?xs = "KnownAssignedXids pa" and ?vs = "KnownAssignedXidsValid pa"
  obtain vs c where m: "mark_preceding prepared ?xs x [?t..<?h] (?vs, 0) = (vs, c)" by fastforce
  have ent: "\<forall>i \<in> set [?t..<?h]. i < length ?vs \<and> TransactionIdIsNormal (?xs ! i) \<and> xid_age base (?xs ! i) < 2147483648"
    using known_wf_entry [OF assms(1)] assms(1) by (auto simp: known_wf_def)
  note r = mark_preceding_spec [OF known_wf_sorted [OF assms(1)] distinct_upt ent assms(2,3) m]
  define pa1 where "pa1 = pa\<lparr>KnownAssignedXidsValid := vs, numKnownAssignedXids := numKnownAssignedXids pa - int c\<rparr>"
  define pa2 where "pa2 = (if headKnownAssignedXids pa1 \<le> next_valid (KnownAssignedXidsValid pa1) ?t (headKnownAssignedXids pa1)
      then pa1\<lparr>headKnownAssignedXids := 0, tailKnownAssignedXids := 0\<rparr>
      else pa1\<lparr>tailKnownAssignedXids := next_valid (KnownAssignedXidsValid pa1) ?t (headKnownAssignedXids pa1)\<rparr>)"
  have known: "known_list pa1 = filter (\<lambda>y. xid_age base x \<le> xid_age base y \<or> prepared y) (known_list pa)"
    using r by (simp add: known_list_def pa1_def)
  have wf1: "known_wf base pa1" using assms(1) r by (simp add: pa1_def known_wf_def known_list_def)
  have wf2: "known_wf base pa2 \<and> known_list pa2 = known_list pa1 \<and> same_procs pa1 pa2"
    unfolding pa2_def by (rule move_tail) (use wf1 in \<open>auto simp: pa1_def known_wf_def\<close>)
  have "TransactionIdIsValid x" using assms(2) normal_ge_3 by (auto simp: TransactionIdIsValid_def InvalidTransactionId_def)
  then have "KnownAssignedXidsRemovePreceding prepared x pa = KnownAssignedXidsCompress False pa2"
    using m by (simp add: KnownAssignedXidsRemovePreceding_def pa2_def pa1_def Let_def)
  moreover have "same_procs pa pa1" by (simp add: pa1_def same_procs_def)
  ultimately show ?thesis using KnownAssignedXidsCompress_spec [of base pa2 False] wf2 known by (auto simp: same_procs_def)
qed

lemma KnownAssignedXidsRemove_fold:
  assumes "known_wf base pa" "\<forall>x \<in> set xs. TransactionIdIsNormal x \<and> xid_age base x < 2147483648"
  shows "known_wf base (fold KnownAssignedXidsRemove xs pa) \<and> same_procs pa (fold KnownAssignedXidsRemove xs pa)
    \<and> known_list (fold KnownAssignedXidsRemove xs pa) = filter (\<lambda>y. y \<notin> set xs) (known_list pa)"
  using assms
proof (induction xs arbitrary: pa)
  case (Cons x xs)
  have r: "known_wf base (KnownAssignedXidsRemove x pa)" "same_procs pa (KnownAssignedXidsRemove x pa)"
    "known_list (KnownAssignedXidsRemove x pa) = filter (\<lambda>y. y \<noteq> x) (known_list pa)"
    using KnownAssignedXidsSearch_spec [of base pa x True] Cons.prems by (simp_all add: KnownAssignedXidsRemove_def)
  have "known_wf base (fold KnownAssignedXidsRemove xs (KnownAssignedXidsRemove x pa))
     \<and> same_procs (KnownAssignedXidsRemove x pa) (fold KnownAssignedXidsRemove xs (KnownAssignedXidsRemove x pa))
     \<and> known_list (fold KnownAssignedXidsRemove xs (KnownAssignedXidsRemove x pa)) = filter (\<lambda>y. y \<notin> set xs) (known_list (KnownAssignedXidsRemove x pa))"
    using Cons.IH [OF r(1)] Cons.prems(2) by simp
  then show ?case using r(2,3) by (auto simp: conj_commute intro: same_procs_trans)
qed simp

lemma KnownAssignedXidsRemoveTree_spec:
  assumes "known_wf base pa" "\<forall>y \<in> set xs. TransactionIdIsNormal y \<and> xid_age base y < 2147483648"
    and "x = InvalidTransactionId \<or> TransactionIdIsNormal x \<and> xid_age base x < 2147483648"
  shows "known_wf base (KnownAssignedXidsRemoveTree x xs pa) \<and> same_procs pa (KnownAssignedXidsRemoveTree x xs pa)
    \<and> known_list (KnownAssignedXidsRemoveTree x xs pa) = filter (\<lambda>y. y \<noteq> x \<and> y \<notin> set xs) (known_list pa)"
proof (cases "TransactionIdIsValid x")
  case True
  then have "\<forall>y \<in> set (x # xs). TransactionIdIsNormal y \<and> xid_age base y < 2147483648" using assms(2,3) by (auto simp: TransactionIdIsValid_def)
  note f = KnownAssignedXidsRemove_fold [OF assms(1) this]
  have "KnownAssignedXidsRemoveTree x xs pa = KnownAssignedXidsCompress False (fold KnownAssignedXidsRemove (x # xs) pa)"
    using True by (simp add: KnownAssignedXidsRemoveTree_def)
  then show ?thesis using f KnownAssignedXidsCompress_spec [of base "fold KnownAssignedXidsRemove (x # xs) pa" False]
    by (auto intro: same_procs_trans)
next
  case False
  note f = KnownAssignedXidsRemove_fold [OF assms(1,2)]
  have "y \<noteq> x" if "y \<in> set (known_list pa)" for y
    using that False xids_ascending_known_list [OF assms(1)]
    by (auto simp: xids_ascending_def TransactionIdIsValid_def InvalidTransactionId_def normal_ge_3)
  then have "filter (\<lambda>y. y \<noteq> x \<and> y \<notin> set xs) (known_list pa) = filter (\<lambda>y. y \<notin> set xs) (known_list pa)" by (intro filter_cong) auto
  moreover have "KnownAssignedXidsRemoveTree x xs pa = KnownAssignedXidsCompress False (fold KnownAssignedXidsRemove xs pa)"
    using False by (simp add: KnownAssignedXidsRemoveTree_def)
  ultimately show ?thesis using f KnownAssignedXidsCompress_spec [of base "fold KnownAssignedXidsRemove xs pa" False]
    by (auto intro: same_procs_trans)
qed

section \<open>Reading the array\<close>

lemma get_known_xids_spec:
  "get_known_xids pa xmax is (acc, xmin) =
     (let k = known_at (KnownAssignedXids pa) (KnownAssignedXidsValid pa) is
      in (acc @ takeWhile (\<lambda>x. \<not> (TransactionIdIsValid xmax \<and> TransactionIdFollowsOrEquals x xmax)) k,
          if acc = [] \<and> k \<noteq> [] \<and> TransactionIdPrecedes (hd k) xmin then hd k else xmin))"
  by (induction "is" arbitrary: acc xmin) (auto simp: Let_def)

lemma takeWhile_ascending:
  assumes "xids_ascending base xs" "TransactionIdIsNormal m" "xid_age base m < 2147483648"
  shows "takeWhile (\<lambda>x. \<not> (TransactionIdIsValid m \<and> TransactionIdFollowsOrEquals x m)) xs = filter (\<lambda>x. xid_age base x < xid_age base m) xs"
  using assms(1)
proof (induction xs)
  case (Cons x xs)
  have x: "TransactionIdIsNormal x" "xid_age base x < 2147483648" and xs: "xids_ascending base xs" "\<forall>y \<in> set xs. xid_age base x < xid_age base y"
    using Cons.prems by (auto simp: xids_ascending_def)
  have "TransactionIdIsValid m" using assms(2) by (auto simp: TransactionIdIsValid_def InvalidTransactionId_def normal_ge_3)
  moreover have "TransactionIdFollowsOrEquals x m \<longleftrightarrow> xid_age base m \<le> xid_age base x"
    using precedes_normal_window(4) [OF x(1) assms(2), of base] x(2) assms(3) by simp
  moreover have "xid_age base m \<le> xid_age base x \<Longrightarrow> filter (\<lambda>x. xid_age base x < xid_age base m) xs = []"
    using xs(2) by (auto simp: filter_empty_conv)
  ultimately show ?case using Cons.IH [OF xs(1)] by auto
qed simp

lemma KnownAssignedXidsGetOldestXmin_spec:
  assumes "known_wf base pa"
  shows "KnownAssignedXidsGetOldestXmin pa = (if known_list pa = [] then InvalidTransactionId else hd (known_list pa))"
proof -
  let ?t = "tailKnownAssignedXids pa" and ?h = "headKnownAssignedXids pa" and ?vs = "KnownAssignedXidsValid pa"
  have "?t \<le> ?h" using assms by (simp add: known_wf_def)
  note nv = next_valid_spec [OF this, of ?vs]
  define j where "j = next_valid ?vs ?t ?h"
  have k: "known_list pa = known_at (KnownAssignedXids pa) ?vs [j..<?h]"
    unfolding known_list_def by (rule known_at_skip) (use nv in \<open>auto simp: j_def\<close>)
  then show ?thesis using nv by (cases "j < ?h") (auto simp: KnownAssignedXidsGetOldestXmin_def j_def [symmetric] upt_conv_Cons Let_def)
qed

definition known_xid :: "TransactionId \<Rightarrow> TransactionId \<Rightarrow> bool" where
  "known_xid base x \<longleftrightarrow> TransactionIdIsNormal x \<and> assigned_between base x < 2147483630"

lemma known_xid_age: "known_xid base x \<Longrightarrow> TransactionIdIsNormal x \<and> xid_age base x < 2147483648"
  using xid_age_assigned [of base x] by (simp add: known_xid_def)

text \<open>C24. The array is a sorted list.  The operations that search, remove, prune, compress and read it are those on the list of the
  valid entries, oldest first, and keep the array well formed: bisection finds exactly the
  members, removal and pruning filter them, a snapshot gets those before its
  upper bound.\<close>

theorem KnownAssignedXids_refine_list:
  assumes "known_wf base pa" "known_xid base x" "\<forall>y \<in> set xs. known_xid base y"
  shows "KnownAssignedXidExists x pa = (x \<in> set (known_list pa))
    \<and> known_list (KnownAssignedXidsCompress force pa) = known_list pa \<and> known_wf base (KnownAssignedXidsCompress force pa)
    \<and> known_list (KnownAssignedXidsRemove x pa) = filter (\<lambda>y. y \<noteq> x) (known_list pa) \<and> known_wf base (KnownAssignedXidsRemove x pa)
    \<and> known_list (KnownAssignedXidsRemoveTree x xs pa) = filter (\<lambda>y. y \<noteq> x \<and> y \<notin> set xs) (known_list pa)
    \<and> known_wf base (KnownAssignedXidsRemoveTree x xs pa)
    \<and> known_list (KnownAssignedXidsRemovePreceding prepared x pa) = filter (\<lambda>y. TransactionIdFollowsOrEquals y x \<or> prepared y) (known_list pa)
    \<and> known_wf base (KnownAssignedXidsRemovePreceding prepared x pa)
    \<and> KnownAssignedXidsGet x pa = filter (\<lambda>y. TransactionIdPrecedes y x) (known_list pa)
    \<and> KnownAssignedXidsGetOldestXmin pa = (if known_list pa = [] then InvalidTransactionId else hd (known_list pa))"
proof -
  have x: "TransactionIdIsNormal x" "xid_age base x < 2147483648" using known_xid_age [OF assms(2)] by simp_all
  have xs: "\<forall>y \<in> set xs. TransactionIdIsNormal y \<and> xid_age base y < 2147483648" using known_xid_age assms(3) by blast
  note asc = xids_ascending_known_list [OF assms(1)]
  have cmp: "TransactionIdFollowsOrEquals y x \<longleftrightarrow> xid_age base x \<le> xid_age base y" "TransactionIdPrecedes y x \<longleftrightarrow> xid_age base y < xid_age base x"
    if "y \<in> set (known_list pa)" for y
    using that asc precedes_normal_window(1,4) [of y x base] x by (auto simp: xids_ascending_def)
  have get: "KnownAssignedXidsGet x pa = filter (\<lambda>y. TransactionIdPrecedes y x) (known_list pa)"
  proof -
    have "KnownAssignedXidsGet x pa = filter (\<lambda>y. xid_age base y < xid_age base x) (known_list pa)"
      using takeWhile_ascending [OF asc x]
      by (simp add: KnownAssignedXidsGet_def KnownAssignedXidsGetAndSetXmin_def get_known_xids_spec known_list_def Let_def)
    then show ?thesis using cmp(2) by (simp cong: filter_cong)
  qed
  have prec: "filter (\<lambda>y. TransactionIdFollowsOrEquals y x \<or> prepared y) (known_list pa)
      = filter (\<lambda>y. xid_age base x \<le> xid_age base y \<or> prepared y) (known_list pa)"
    using cmp(1) by (intro filter_cong) auto
  show ?thesis
    using get prec KnownAssignedXidsSearch_spec [OF assms(1) x] KnownAssignedXidsCompress_spec [OF assms(1), of force]
      KnownAssignedXidsRemoveTree_spec [OF assms(1) xs] x KnownAssignedXidsRemovePreceding_spec [OF assms(1) x, of prepared]
      KnownAssignedXidsGetOldestXmin_spec [OF assms(1)]
    by (simp add: KnownAssignedXidExists_def KnownAssignedXidsRemove_def)
qed

text \<open>C29. Adding a range of identifiers appends them.  The number of slots computed in advance is right, also
  across the wrap-around point; the call fails exactly for the two reasons it reports: an entry, valid or
  not, that is not older, or more identifiers than the array can hold even
  when compressed.\<close>

theorem KnownAssignedXidsAdd_appends:
  assumes "known_wf base pa" "TransactionIdIsNormal base" "known_xid base from_xid" "known_xid base to_xid"
    and "TransactionIdPrecedesOrEquals from_xid to_xid"
  defines "n \<equiv> assigned_between from_xid to_xid + 1"
  shows "case KnownAssignedXidsAdd from_xid to_xid pa of
       Inl e \<Rightarrow> e = Elog ''out-of-order XID insertion in KnownAssignedXids''
                  \<and> (\<exists>i. tailKnownAssignedXids pa \<le> i \<and> i < headKnownAssignedXids pa
                        \<and> TransactionIdFollowsOrEquals (KnownAssignedXids pa ! i) from_xid)
                \<or> e = Elog ''too many KnownAssignedXids'' \<and> maxKnownAssignedXids pa < length (known_list pa) + n
     | Inr pa' \<Rightarrow> known_list pa' = known_list pa @ xid_range n from_xid \<and> known_wf base pa'
         \<and> numKnownAssignedXids pa' = numKnownAssignedXids pa + int n"
proof -
  note f = known_xid_age [OF assms(3)] and t = known_xid_age [OF assms(4)]
  have le: "xid_age base from_xid \<le> xid_age base to_xid" using precedes_normal_window(2) f t assms(5) by fastforce
  have norm: "TransactionIdIsNormal from_xid" "TransactionIdIsNormal to_xid" using f t by simp_all
  have "assigned_between base from_xid \<le> assigned_between base to_xid" "assigned_between base to_xid < 2147483630"
    using assigned_less_iff [OF assms(2) norm(2,1)] le assms(4) by (auto simp: known_xid_def not_less [symmetric])
  note spec = KnownAssignedXidsAdd_spec [OF assms(1,2) norm this, folded n_def]
  have "\<not> all_before base from_xid pa \<longleftrightarrow> (\<exists>i. tailKnownAssignedXids pa \<le> i \<and> i < headKnownAssignedXids pa
      \<and> TransactionIdFollowsOrEquals (KnownAssignedXids pa ! i) from_xid)"
    using precedes_normal_window(4) [of _ from_xid base] known_wf_entry [OF assms(1)] f by (auto simp: all_before_def not_less)
  then show ?thesis
    using spec assms(1) by (auto simp: known_wf_def split: sum.splits)
qed

section \<open>Starting a standby\<close>

lemma add_known_xids_spec:
  assumes "known_wf base pa" "TransactionIdIsNormal base" "\<forall>x \<in> set xs. known_xid base x"
  shows "case add_known_xids xs pa of
      Inl e \<Rightarrow> \<not> xids_ascending base xs \<or> (xs \<noteq> [] \<and> \<not> all_before base (hd xs) pa) \<or> maxKnownAssignedXids pa < length (known_list pa) + length xs
    | Inr pa' \<Rightarrow> xids_ascending base xs \<and> known_wf base pa' \<and> known_list pa' = known_list pa @ xs \<and> same_procs pa pa'"
  using assms
proof (induction xs arbitrary: pa)
  case Nil
  then show ?case by (simp add: xids_ascending_def)
next
  case (Cons x xs)
  have x: "TransactionIdIsNormal x" "assigned_between base x < 2147483630" "xid_age base x < 2147483648"
    using Cons.prems(3) known_xid_age [of base x] by (auto simp: known_xid_def)
  note add = KnownAssignedXidsAdd_spec [OF Cons.prems(1,2) x(1) x(1) order_refl x(2)]
  show ?case
  proof (cases "KnownAssignedXidsAdd x x pa")
    case (Inl e)
    then show ?thesis using add by auto
  next
    case (Inr pa1)
    then have a: "all_before base x pa" "known_wf base pa1" "known_list pa1 = known_list pa @ [x]" "same_procs pa pa1"
      "\<And>z. xid_age base x < xid_age base z \<Longrightarrow> all_before base z pa1" using add by auto
    have "x \<in> set (known_list pa1)" using a(3) by simp
    then have above: "xid_age base x < xid_age base z" if "all_before base z pa1" for z
      using that by (auto simp: known_list_def set_known_at all_before_def)
    have IH: "case add_known_xids xs pa1 of
      Inl e \<Rightarrow> \<not> xids_ascending base xs \<or> (xs \<noteq> [] \<and> \<not> all_before base (hd xs) pa1) \<or> maxKnownAssignedXids pa1 < length (known_list pa1) + length xs
    | Inr pa' \<Rightarrow> xids_ascending base xs \<and> known_wf base pa' \<and> known_list pa' = known_list pa1 @ xs \<and> same_procs pa1 pa'"
      using Cons.IH [OF a(2) Cons.prems(2)] Cons.prems(3) by simp
    show ?thesis
    proof (cases "add_known_xids xs pa1")
      case i: (Inl e)
      have "\<not> xids_ascending base (x # xs)" if "xs \<noteq> []" "\<not> all_before base (hd xs) pa1"
        using that a(5) [of "hd xs"] by (cases xs) (auto simp: xids_ascending_def)
      then show ?thesis using i Inr IH a(3,4) by (auto simp: xids_ascending_def same_procs_def)
    next
      case r: (Inr pa')
      have "xids_ascending base (known_list pa1 @ xs)" using r IH xids_ascending_known_list by fastforce
      then have "xids_ascending base (x # xs)" using a(3) by (auto simp: xids_ascending_def sorted_wrt_append)
      then show ?thesis using r Inr IH a(3,4) by (auto intro: same_procs_trans)
    qed
  qed
qed

lemma insert_xid_spec:
  "sorted_wrt (\<le>) ys \<Longrightarrow> sorted_wrt (\<le>) (insert_xid x ys) \<and> set (insert_xid x ys) = insert x (set ys) \<and> length (insert_xid x ys) = Suc (length ys)"
  by (induction ys) (auto simp: xidComparator_def not_less split: if_splits)

lemma sort_xids_spec: "sorted_wrt (\<le>) (sort_xids xs) \<and> set (sort_xids xs) = set xs \<and> length (sort_xids xs) = length xs"
  by (induction xs) (auto simp: sort_xids_def insert_xid_spec)

lemma ascending_iff_no_inversion:
  assumes "sorted_wrt (\<le>) xs" "distinct xs" "\<forall>x \<in> set xs. known_xid base x"
  shows "xids_ascending base xs \<longleftrightarrow> (\<forall>x \<in> set xs. \<forall>y \<in> set xs. x < y \<longrightarrow> \<not> TransactionIdPrecedes y x)"
  using assms
proof (induction xs)
  case (Cons x xs)
  have lt: "\<forall>y \<in> set xs. x < y" using Cons.prems(1,2) by (auto simp: less_le)
  have "TransactionIdPrecedes y x \<longleftrightarrow> xid_age base y < xid_age base x" if "y \<in> set xs" for y
    using that Cons.prems(3) known_xid_age [of base] precedes_normal_window(1) [of y x base] by auto
  moreover have "xid_age base x < xid_age base y \<longleftrightarrow> \<not> xid_age base y < xid_age base x" if "y \<in> set xs" for y
    using that lt xid_age_inj [of base x y] by (auto simp: less_le)
  moreover have "TransactionIdIsNormal x \<and> xid_age base x < 2147483648" using Cons.prems(3) known_xid_age [of base x] by simp
  moreover have "xids_ascending base (x # xs) \<longleftrightarrow> (\<forall>y \<in> set xs. xid_age base x < xid_age base y) \<and> xids_ascending base xs
      \<and> TransactionIdIsNormal x \<and> xid_age base x < 2147483648" by (auto simp: xids_ascending_def)
  moreover have "\<not> y < x" if "y \<in> set xs" for y using lt that by (auto dest: less_asym)
  ultimately show ?case using Cons lt by auto
qed (simp add: xids_ascending_def)

text \<open>The status of the running transactions is read from the logs; the answer comes back.\<close>

definition completed :: "Standby \<Rightarrow> TransactionId \<Rightarrow> bool" where
  "completed s x \<longleftrightarrow>
     did_commit (clog_status (xg_clog (sb_gen s))) (xg_sub (sb_gen s)) (sb_TransactionXmin s) x
     \<or> did_abort (clog_status (xg_clog (sb_gen s))) (xg_sub (sb_gen s)) (sb_TransactionXmin s) x"

definition fetch_ok :: "Standby \<Rightarrow> XactCache \<Rightarrow> bool" where
  "fetch_ok s cache \<longleftrightarrow> sub_ordered (xg_sub (sb_gen s)) (sb_TransactionXmin s) \<and> TransactionIdIsNormal (sb_TransactionXmin s)
     \<and> cache_ok (xg_clog (sb_gen s)) cache"

lemma still_running_spec:
  "fetch_ok s cache \<Longrightarrow> \<forall>x \<in> set xids. xid_known (sb_TransactionXmin s) x
    \<Longrightarrow> \<exists>cache'. still_running s cache xids = Some (filter (\<lambda>x. \<not> completed s x) xids, cache')"
proof (induction xids arbitrary: cache)
  case (Cons x xids)
  let ?clog = "xg_clog (sb_gen s)" and ?sub = "xg_sub (sb_gen s)" and ?xmin = "sb_TransactionXmin s"
  have h: "sub_ordered ?sub ?xmin" "TransactionIdIsNormal ?xmin" "xid_known ?xmin x" "cache_ok ?clog cache"
    using Cons.prems by (auto simp: fetch_ok_def)
  obtain c1 where c1: "TransactionIdDidCommit ?clog ?sub ?xmin cache x = Some (did_commit (clog_status ?clog) ?sub ?xmin x, c1)" "cache_ok ?clog c1"
    using TransactionIdDidCommit_spec [OF h] by blast
  obtain c2 where c2: "TransactionIdDidAbort ?clog ?sub ?xmin c1 x = Some (did_abort (clog_status ?clog) ?sub ?xmin x, c2)" "cache_ok ?clog c2"
    using TransactionIdDidAbort_spec [OF h(1-3) c1(2)] by blast
  have "fetch_ok s c1" "fetch_ok s c2" using h c1(2) c2(2) by (simp_all add: fetch_ok_def)
  then obtain d1 d2 where "still_running s c1 xids = Some (filter (\<lambda>x. \<not> completed s x) xids, d1)"
    "still_running s c2 xids = Some (filter (\<lambda>x. \<not> completed s x) xids, d2)"
    using Cons.IH Cons.prems(2) by (meson list.set_intros(2))
  then show ?case using c1(1) c2(1) by (auto simp: completed_def split: option.splits bool.splits)
qed simp

text \<open>The start of a standby in terms of the transactions that are still running.\<close>

lemma start_from_spec:
  assumes "known_wf base (sb_array s)" "known_list (sb_array s) = []" "headKnownAssignedXids (sb_array s) = 0" "TransactionIdIsNormal base"
    and "\<forall>x \<in> set zs. known_xid base x" "distinct zs" "length zs \<le> maxKnownAssignedXids (sb_array s)"
  shows "(case start_from zs running s of
        Inr s' \<Rightarrow> set (known_list (sb_array s')) = set zs \<and> known_wf base (sb_array s')
      | Inl e \<Rightarrow> False)
    \<longleftrightarrow> (\<forall>x \<in> set zs. \<forall>y \<in> set zs. x < y \<longrightarrow> \<not> TransactionIdPrecedes y x)"
proof -
  define xs where "xs = sort_xids zs"
  have empty: "all_before base z (sb_array s)" for z using assms(3) by (simp add: all_before_def)
  have srt: "sorted_wrt (\<le>) xs" "set xs = set zs" "length xs = length zs" using sort_xids_spec [of zs] by (auto simp: xs_def)
  have kx: "\<forall>x \<in> set xs. known_xid base x" using srt(2) assms(5) by auto
  have "distinct xs" using assms(6) srt(2,3) by (metis card_distinct distinct_card)
  then have asc: "xids_ascending base xs \<longleftrightarrow> (\<forall>x \<in> set zs. \<forall>y \<in> set zs. x < y \<longrightarrow> \<not> TransactionIdPrecedes y x)"
    using ascending_iff_no_inversion [OF srt(1) _ kx] srt(2) by simp
  have "case add_known_xids xs (sb_array s) of Inl e \<Rightarrow> \<not> xids_ascending base xs
      | Inr pa' \<Rightarrow> xids_ascending base xs \<and> known_wf base pa' \<and> known_list pa' = xs"
    using add_known_xids_spec [OF assms(1,4) kx] assms(2,7) srt(3) empty by (auto split: sum.splits)
  then show ?thesis
    using srt(2) unfolding asc [symmetric]
    by (cases "add_known_xids xs (sb_array s)") (auto simp: start_from_def xs_def [symmetric] known_wf_def known_list_def Let_def)
qed


text \<open>An array with room for eight identifiers.\<close>

definition empty_known :: ProcArrayStruct where
  "empty_known = \<lparr>pa_maxProcs = 8, pa_procs = [], maxKnownAssignedXids = 8, numKnownAssignedXids = 0, tailKnownAssignedXids = 0,
     headKnownAssignedXids = 0, KnownAssignedXids = replicate 8 0, KnownAssignedXidsValid = replicate 8 False, lastOverflowedXid = 0\<rparr>"

lemma empty_known_wf: "known_wf base empty_known"
  by (simp add: known_wf_def known_list_def empty_known_def xids_ascending_def)

lemma known_xid_wrap: "known_xid 4294967000 x" if "x \<in> {4294967294, 4294967295, 3, 4, 5}"
  using that by (auto simp: known_xid_def normal_ge_3 assigned_between_def)

text \<open>Four identifiers across the wrap-around point.\<close>

theorem KnownAssignedXidsAdd_appends_witness:
  "\<exists>pa. KnownAssignedXidsAdd 4294967294 4 empty_known = Inr pa \<and> known_list pa = [4294967294, 4294967295, 3, 4]"
proof -
  have n: "assigned_between 4294967294 4 + 1 = Suc (Suc (Suc (Suc 0)))" by (simp add: assigned_between_def)
  have "TransactionIdPrecedesOrEquals 4294967294 4" by (simp add: TransactionIdPrecedesOrEquals_def normal_ge_3)
  note r = KnownAssignedXidsAdd_appends [OF empty_known_wf [of 4294967000] _ known_xid_wrap known_xid_wrap this, unfolded n]
  have "known_list empty_known = []" by (simp add: known_list_def empty_known_def)
  moreover have "xid_range (Suc (Suc (Suc (Suc 0)))) 4294967294 = [4294967294, 4294967295, 3, 4]"
    by (simp add: TransactionIdAdvance_def FirstNormalTransactionId_def)
  ultimately show ?thesis
    using r by (cases "KnownAssignedXidsAdd 4294967294 4 empty_known") (auto simp: normal_ge_3 empty_known_def)
qed

definition two_known :: ProcArrayStruct where
  "two_known = empty_known\<lparr>numKnownAssignedXids := 2, headKnownAssignedXids := 3,
     KnownAssignedXids := [4294967294, 4294967295, 4, 0, 0, 0, 0, 0], KnownAssignedXidsValid := [True, False, True, False, False, False, False, False]\<rparr>"

theorem KnownAssignedXids_refine_list_witness:
  "KnownAssignedXidExists 4 two_known \<and> \<not> KnownAssignedXidExists 4294967295 two_known
     \<and> known_list (KnownAssignedXidsRemovePreceding (\<lambda>_. False) 4 two_known) = [4]"
proof -
  have u: "[0..<3] = [0, 1, 2 :: nat]" by (simp add: upt_rec)
  have k: "known_list two_known = [4294967294, 4]" by (simp add: known_list_def two_known_def empty_known_def u)
  then have wf: "known_wf 4294967000 two_known"
    by (simp add: known_wf_def k) (simp add: two_known_def empty_known_def u xids_ascending_def xid_age_def normal_ge_3)
  note r = KnownAssignedXids_refine_list [OF wf known_xid_wrap, of _ "[]" True "\<lambda>_. False"]
  have "TransactionIdFollowsOrEquals 4 4" "\<not> TransactionIdFollowsOrEquals 4294967294 4"
    by (simp_all add: TransactionIdFollowsOrEquals_def normal_ge_3)
  then show ?thesis using r [of 4] r [of 4294967295] k by simp
qed

definition new_standby :: Standby where
  "new_standby = \<lparr>sb_gen = start_gen 4294967000 4294967290, sb_array = empty_known, standbyState = STANDBY_INITIALIZED,
     latestObservedXid = 0, standbySnapshotPendingXmin = 0, sb_TransactionXmin = 4294967000,
     sb_fetch = \<lparr>cachedFetchXid = 0, cachedFetchXidStatus = TRANSACTION_STATUS_IN_PROGRESS, cachedCommitLSN = InvalidXLogRecPtr\<rparr>\<rparr>"

definition wrapped_running :: RunningTransactionsData where
  "wrapped_running = \<lparr>rt_subxid_overflow = False, rt_nextXid = 6, rt_oldestRunningXid = 4294967295, rt_latestCompletedXid = 4,
     rt_xids = [4294967295, 5]\<rparr>"

lemma new_standby_ok: "fetch_ok new_standby (sb_fetch new_standby)" "TransactionIdIsNormal x \<Longrightarrow> \<not> completed new_standby x"
  subgoal by (simp add: fetch_ok_def new_standby_def start_gen_def cache_ok_def valid_ne_0 normal_ge_3 sub_ordered_def
      SubTransGetParent_def sub_zero_def entry_less InvalidTransactionId_def)
  subgoal by (simp add: completed_def did_commit_step did_abort_step asks_parent_def xact_status_def new_standby_def start_gen_def clog_status_zero)
  done


end
