(* ===== verification/Xact_State.thy ===== *)
theory Xact_State
  imports Varsup
begin

text \<open>
  The state of the transaction a backend runs (\<^verbatim>\<open>access/transam/xact.c\<close>): a stack with an entry
  for the current subtransaction first and the top-level transaction last, and the test whether an identifier belongs to it.
\<close>

section \<open>The stack\<close>

datatype TransState = TRANS_DEFAULT | TRANS_START | TRANS_INPROGRESS | TRANS_COMMIT | TRANS_ABORT | TRANS_PREPARE

datatype TBlockState =
    TBLOCK_DEFAULT | TBLOCK_STARTED
  | TBLOCK_BEGIN | TBLOCK_INPROGRESS | TBLOCK_END | TBLOCK_ABORT | TBLOCK_ABORT_END | TBLOCK_ABORT_PENDING | TBLOCK_PREPARE
  | TBLOCK_SUBBEGIN | TBLOCK_SUBINPROGRESS | TBLOCK_SUBEND | TBLOCK_SUBABORT | TBLOCK_SUBABORT_END | TBLOCK_SUBABORT_PENDING
  | TBLOCK_SUBRESTART | TBLOCK_SUBABORT_RESTART

record TransactionStateData =
  ts_transactionId :: TransactionId
  ts_subTransactionId :: uint32
  ts_name :: "string option"
  ts_savepointLevel :: int
  ts_state :: TransState
  ts_blockState :: TBlockState
  ts_nestingLevel :: nat
  ts_curTransactionOwner :: bool
  ts_childXids :: "TransactionId list"

section \<open>Own identifiers\<close>

text \<open>The bisection in the array of committed children.\<close>

function search_child :: "TransactionId list \<Rightarrow> TransactionId \<Rightarrow> int \<Rightarrow> int \<Rightarrow> bool" where
  "search_child childXids xid low high =
     (if low \<le> high
      then let middle = low + (high - low) div 2; probe = childXids ! nat middle
           in if probe = xid then True
              else if TransactionIdPrecedes probe xid then search_child childXids xid (middle + 1) high
              else search_child childXids xid low (middle - 1)
      else False)"
  by pat_completeness auto
termination by (relation "measure (\<lambda>(childXids, xid, low, high). nat (high + 1 - low))") auto

declare search_child.simps [simp del]

fun TransactionIdIsCurrentTransactionId :: "TransactionStateData list \<Rightarrow> TransactionId \<Rightarrow> bool" where
  "TransactionIdIsCurrentTransactionId [] xid \<longleftrightarrow> False"
| "TransactionIdIsCurrentTransactionId (s # parents) xid \<longleftrightarrow>
     (if \<not> TransactionIdIsNormal xid then False
      else if ts_state s = TRANS_ABORT \<or> \<not> TransactionIdIsValid (ts_transactionId s)
      then TransactionIdIsCurrentTransactionId parents xid
      else if xid = ts_transactionId s \<or> search_child (ts_childXids s) xid 0 (int (length (ts_childXids s)) - 1) then True
      else TransactionIdIsCurrentTransactionId parents xid)"

text \<open>The identifiers of the entries that are not being aborted, and of their committed children.\<close>

definition own_xids :: "TransactionStateData list \<Rightarrow> TransactionId set" where
  "own_xids stack = (\<Union>s \<in> {s \<in> set stack. ts_state s \<noteq> TRANS_ABORT \<and> TransactionIdIsValid (ts_transactionId s)}.
     insert (ts_transactionId s) (set (ts_childXids s)))"

definition stack_wf :: "TransactionId \<Rightarrow> TransactionStateData list \<Rightarrow> bool" where
  "stack_wf base stack \<longleftrightarrow> (\<forall>s \<in> set stack.
     (TransactionIdIsValid (ts_transactionId s) \<longrightarrow> TransactionIdIsNormal (ts_transactionId s))
     \<and> sorted_wrt (\<lambda>x y. xid_age base x < xid_age base y) (ts_childXids s)
     \<and> (\<forall>x \<in> set (ts_childXids s). TransactionIdIsNormal x \<and> xid_age base x < 2 ^ 31))"

lemma search_child_spec:
  assumes "sorted_wrt (\<lambda>x y. xid_age base x < xid_age base y) xs" "\<forall>x \<in> set xs. TransactionIdIsNormal x \<and> xid_age base x < 2 ^ 31"
    and "TransactionIdIsNormal xid" "xid_age base xid < 2 ^ 31"
  shows "0 \<le> low \<Longrightarrow> high < int (length xs) \<Longrightarrow> search_child xs xid low high \<longleftrightarrow> (\<exists>i. low \<le> int i \<and> int i \<le> high \<and> xs ! i = xid)"
proof (induction "nat (high + 1 - low)" arbitrary: low high rule: less_induct)
  case less
  show ?case
  proof (cases "low \<le> high")
    case False
    then show ?thesis by (subst search_child.simps) auto
  next
    case True
    define m where "m = low + (high - low) div 2"
    have m: "low \<le> m" "m \<le> high" "nat m < length xs" using True less.prems by (auto simp: m_def)
    let ?p = "xs ! nat m"
    have p: "TransactionIdIsNormal ?p" "xid_age base ?p < 2 ^ 31" using assms(2) m(3) by (auto simp: all_set_conv_all_nth)
    have lt: "xid_age base (xs ! i) < xid_age base (xs ! j)" if "i < j" "j < length xs" for i j
      using assms(1) that by (simp add: sorted_wrt_iff_nth_less)
    have pre: "TransactionIdPrecedes ?p xid \<longleftrightarrow> xid_age base ?p < xid_age base xid"
      using precedes_normal_window(1) [OF p(1) assms(3) p(2) assms(4)] .
    have step: "search_child xs xid low high = (?p = xid \<or> (if TransactionIdPrecedes ?p xid then search_child xs xid (m + 1) high
        else search_child xs xid low (m - 1)))"
      using True by (subst search_child.simps) (simp add: m_def Let_def)
    consider (found) "?p = xid" | (right) "?p \<noteq> xid" "TransactionIdPrecedes ?p xid" | (left) "?p \<noteq> xid" "xid_age base xid < xid_age base ?p"
      using pre xid_age_inj [of base ?p xid] by linarith
    then show ?thesis
    proof cases
      case found
      then show ?thesis using step m less.prems by (auto intro!: exI [of _ "nat m"])
    next
      case right
      have m_lt: "m < int i" if "xs ! i = xid" for i
      proof (rule ccontr)
        assume "\<not> m < int i"
        then have "i = nat m \<or> i < nat m" by linarith
        then show False using that right pre lt [of i "nat m"] m(3) by auto
      qed
      have "search_child xs xid low high = search_child xs xid (m + 1) high" using step right by simp
      also have "\<dots> = (\<exists>i. m + 1 \<le> int i \<and> int i \<le> high \<and> xs ! i = xid)"
        using less.hyps [of high "m + 1"] less.prems m True by simp
      also have "\<dots> = (\<exists>i. low \<le> int i \<and> int i \<le> high \<and> xs ! i = xid)"
      proof (intro arg_cong [where f = Ex] ext)
        fix i show "(m + 1 \<le> int i \<and> int i \<le> high \<and> xs ! i = xid) = (low \<le> int i \<and> int i \<le> high \<and> xs ! i = xid)"
          using m_lt [of i] m(1) by linarith
      qed
      finally show ?thesis .
    next
      case left
      have m_gt: "int i < m" if "xs ! i = xid" "int i \<le> high" for i
      proof (rule ccontr)
        assume "\<not> int i < m"
        then have "i = nat m \<or> nat m < i" using m(1) less.prems(1) by linarith
        moreover have "i < length xs" using that(2) less.prems(2) by linarith
        ultimately show False using that(1) left lt [of "nat m" i] by auto
      qed
      have "search_child xs xid low high = search_child xs xid low (m - 1)" using step left pre by simp
      also have "\<dots> = (\<exists>i. low \<le> int i \<and> int i \<le> m - 1 \<and> xs ! i = xid)"
        using less.hyps [of "m - 1" low] less.prems m True by simp
      also have "\<dots> = (\<exists>i. low \<le> int i \<and> int i \<le> high \<and> xs ! i = xid)"
      proof (intro arg_cong [where f = Ex] ext)
        fix i show "(low \<le> int i \<and> int i \<le> m - 1 \<and> xs ! i = xid) = (low \<le> int i \<and> int i \<le> high \<and> xs ! i = xid)"
          using m_gt [of i] m(2) by linarith
      qed
      finally show ?thesis .
    qed
  qed
qed

lemma search_child_iff:
  assumes "sorted_wrt (\<lambda>x y. xid_age base x < xid_age base y) xs" "\<forall>x \<in> set xs. TransactionIdIsNormal x \<and> xid_age base x < 2 ^ 31"
    and "TransactionIdIsNormal xid" "xid_age base xid < 2 ^ 31"
  shows "search_child xs xid 0 (int (length xs) - 1) \<longleftrightarrow> xid \<in> set xs"
  using search_child_spec [OF assms, of 0 "int (length xs) - 1"] by (auto simp: in_set_conv_nth)

lemma TransactionIdIsCurrent_spec:
  assumes "stack_wf base stack" "TransactionIdIsNormal xid" "xid_age base xid < 2 ^ 31"
  shows "TransactionIdIsCurrentTransactionId stack xid \<longleftrightarrow> xid \<in> own_xids stack"
  using assms(1)
proof (induction stack)
  case (Cons s parents)
  then have "stack_wf base parents" by (simp add: stack_wf_def)
  moreover have "search_child (ts_childXids s) xid 0 (int (length (ts_childXids s)) - 1) \<longleftrightarrow> xid \<in> set (ts_childXids s)"
    using Cons.prems search_child_iff [OF _ _ assms(2,3)] by (simp add: stack_wf_def)
  ultimately show ?case using Cons.IH assms(2) by (auto simp: own_xids_def)
qed (simp add: own_xids_def)

lemma not_normal_not_current: "\<not> TransactionIdIsNormal xid \<Longrightarrow> \<not> TransactionIdIsCurrentTransactionId stack xid"
  by (induction stack) auto

end
