(* ===== verification/Procarray.thy ===== *)
theory Procarray
  imports Known_Assigned Xact_State
begin

text \<open>
  The array of running processes (\<^verbatim>\<open>storage/ipc/procarray.c\<close>): which transactions are running, snapshots, and the
  oldest transaction any snapshot may need.  Each function that holds \<^verbatim>\<open>ProcArrayLock\<close> from its first
  to its last access of the array is one step; the process entries a snapshot reads are an argument,
  since new identifiers are advertised without that lock.
\<close>

unbundle bit_operations_syntax

section \<open>Processes\<close>

definition PROC_IS_AUTOVACUUM :: uint8 where "PROC_IS_AUTOVACUUM = 0x01"
definition PROC_IN_VACUUM :: uint8 where "PROC_IN_VACUUM = 0x02"
definition PROC_VACUUM_STATE_MASK :: uint8 where "PROC_VACUUM_STATE_MASK = 0x0E"

definition in_vacuum :: "PGPROC \<Rightarrow> bool" where
  "in_vacuum proc \<longleftrightarrow> p_vacuumFlags proc AND PROC_IN_VACUUM \<noteq> 0"

definition cached_xids :: "PGPROC \<Rightarrow> TransactionId list" where
  "cached_xids proc = take (xc_nxids (p_subxids proc)) (xc_xids (p_subxids proc))"

definition ProcArrayAdd :: "nat \<Rightarrow> ProcArrayStruct \<Rightarrow> pg_error + ProcArrayStruct" where
  "ProcArrayAdd proc pa =
     (if length (pa_procs pa) \<ge> pa_maxProcs pa then Inl (Ereport ERRCODE_TOO_MANY_CONNECTIONS)
      else Inr (pa\<lparr>pa_procs := pa_procs pa @ [proc]\<rparr>))"

text \<open>The last entry takes the place of the removed one.\<close>

fun remove_proc :: "nat \<Rightarrow> nat list \<Rightarrow> nat list" where
  "remove_proc proc [] = []"
| "remove_proc proc (p # ps) =
     (if p = proc then (if ps = [] then [] else List.last ps # butlast ps) else p # remove_proc proc ps)"

definition ProcArrayRemove :: "nat \<Rightarrow> TransactionId \<Rightarrow> VariableCacheData \<times> ProcArrayStruct \<Rightarrow> VariableCacheData \<times> ProcArrayStruct" where
  "ProcArrayRemove proc latestXid = (\<lambda>(vc, pa).
     ((if TransactionIdIsValid latestXid then advance_latestCompletedXid latestXid vc else vc),
      pa\<lparr>pa_procs := remove_proc proc (pa_procs pa)\<rparr>))"

definition clear_transaction :: "PGPROC \<Rightarrow> PGPROC" where
  "clear_transaction proc =
     proc\<lparr>p_lxid := 0, p_xmin := InvalidTransactionId, p_vacuumFlags := p_vacuumFlags proc AND NOT PROC_VACUUM_STATE_MASK,
          p_inCommit := False, p_recoveryConflictPending := False\<rparr>"

definition clear_xids :: "PGPROC \<Rightarrow> PGPROC" where
  "clear_xids proc = proc\<lparr>p_xid := InvalidTransactionId, p_subxids := (p_subxids proc)\<lparr>xc_nxids := 0, xc_overflowed := False\<rparr>\<rparr>"

definition ProcArrayEndTransaction :: "nat \<Rightarrow> TransactionId \<Rightarrow> XidGen \<Rightarrow> XidGen" where
  "ProcArrayEndTransaction proc latestXid g =
     (if TransactionIdIsValid latestXid
      then g\<lparr>xg_procs := (xg_procs g)(proc := clear_xids (clear_transaction (xg_procs g proc))),
             xg_cache := advance_latestCompletedXid latestXid (xg_cache g)\<rparr>
      else g\<lparr>xg_procs := (xg_procs g)(proc := clear_transaction (xg_procs g proc))\<rparr>)"

definition ProcArrayClearTransaction :: "nat \<Rightarrow> XidGen \<Rightarrow> XidGen" where
  "ProcArrayClearTransaction proc g =
     g\<lparr>xg_procs := (xg_procs g)(proc := clear_xids (clear_transaction (xg_procs g proc)))\<rparr>"

section \<open>Running transactions\<close>

record Backend =
  MyProc :: nat
  MyDatabaseId :: Oid
  be_TransactionXmin :: TransactionId
  RecentXmin :: TransactionId
  RecentGlobalXmin :: TransactionId
  be_fetch :: XactCache
  be_stack :: "TransactionStateData list"
  currentCommandId :: uint32
  vacuum_defer_cleanup_age :: nat

text \<open>
  The loop of \<^verbatim>\<open>TransactionIdIsInProgress\<close> over the array: None if the identifier is found, otherwise the
  main transactions with uncached children.
\<close>

fun scan_procs :: "TransactionId \<Rightarrow> nat \<Rightarrow> (nat \<Rightarrow> PGPROC) \<Rightarrow> nat list \<Rightarrow> TransactionId list \<Rightarrow> TransactionId list option" where
  "scan_procs xid me procs [] xids = Some xids"
| "scan_procs xid me procs (i # is) xids =
     (let proc = procs i; pxid = p_xid proc
      in if i = me then scan_procs xid me procs is xids
         else if \<not> TransactionIdIsValid pxid then scan_procs xid me procs is xids
         else if pxid = xid then None
         else if TransactionIdPrecedes xid pxid then scan_procs xid me procs is xids
         else if xid \<in> set (cached_xids proc) then None
         else scan_procs xid me procs is (if xc_overflowed (p_subxids proc) then xids @ [pxid] else xids))"

text \<open>
  \<open>g\<close> is the state while the lock is held, \<open>g2\<close> the state afterwards, when the logs are read.  None stands
  for not returning.
\<close>

definition TransactionIdIsInProgress ::
    "bool \<Rightarrow> Backend \<Rightarrow> XidGen \<Rightarrow> ProcArrayStruct \<Rightarrow> XidGen \<Rightarrow> XactCache \<Rightarrow> TransactionId \<Rightarrow> (bool \<times> XactCache) option" where
  "TransactionIdIsInProgress recovery be g pa g2 cache xid =
     (if TransactionIdPrecedes xid (RecentXmin be) then Some (False, cache)
      else if TransactionIdIsKnownCompleted cache xid then Some (False, cache)
      else if TransactionIdIsCurrentTransactionId (be_stack be) xid then Some (True, cache)
      else if TransactionIdPrecedes (vc_latestCompletedXid (xg_cache g)) xid then Some (True, cache)
      else case scan_procs xid (MyProc be) (xg_procs g) (pa_procs pa) [] of
             None \<Rightarrow> Some (True, cache)
           | Some xids0 \<Rightarrow>
               if recovery \<and> KnownAssignedXidExists xid pa then Some (True, cache)
               else let xids = (if recovery \<and> TransactionIdPrecedesOrEquals xid (lastOverflowedXid pa)
                                then KnownAssignedXidsGet xid pa else xids0)
                    in if xids = [] then Some (False, cache)
                       else case TransactionIdDidAbort (xg_clog g2) (xg_sub g2) (be_TransactionXmin be) cache xid of
                              None \<Rightarrow> None
                            | Some (True, cache1) \<Rightarrow> Some (False, cache1)
                            | Some (False, cache1) \<Rightarrow>
                                (case SubTransGetTopmostTransaction (xg_sub g2) (be_TransactionXmin be) xid of
                                   None \<Rightarrow> None
                                 | Some topxid \<Rightarrow> Some (topxid \<noteq> xid \<and> topxid \<in> set xids, cache1)))"

definition TransactionIdIsActive :: "Backend \<Rightarrow> XidGen \<Rightarrow> ProcArrayStruct \<Rightarrow> TransactionId \<Rightarrow> bool" where
  "TransactionIdIsActive be g pa xid =
     (if TransactionIdPrecedes xid (RecentXmin be) then False
      else \<exists>i \<in> set (pa_procs pa). TransactionIdIsValid (p_xid (xg_procs g i)) \<and> p_pid (xg_procs g i) \<noteq> 0 \<and> p_xid (xg_procs g i) = xid)"

text \<open>Cutoffs are moved back by a setting, without yielding a permanent identifier.\<close>

definition defer_cleanup :: "nat \<Rightarrow> TransactionId \<Rightarrow> TransactionId" where
  "defer_cleanup age xid = (let r = xid - of_nat age in if \<not> TransactionIdIsNormal r then FirstNormalTransactionId else r)"

definition older_normal :: "TransactionId \<Rightarrow> TransactionId \<Rightarrow> TransactionId" where
  "older_normal xid result = (if TransactionIdIsNormal xid \<and> TransactionIdPrecedes xid result then xid else result)"

definition GetOldestXmin :: "bool \<Rightarrow> bool \<Rightarrow> bool \<Rightarrow> Backend \<Rightarrow> XidGen \<Rightarrow> ProcArrayStruct \<Rightarrow> TransactionId" where
  "GetOldestXmin recovery allDbs ignoreVacuum be g pa =
     (let result0 = TransactionIdAdvance (vc_latestCompletedXid (xg_cache g));
          result = foldl (\<lambda>result i. let proc = xg_procs g i in
                      if ignoreVacuum \<and> in_vacuum proc then result
                      else if allDbs \<or> p_databaseId proc = MyDatabaseId be \<or> p_databaseId proc = 0
                      then older_normal (p_xmin proc) (older_normal (p_xid proc) result) else result)
                    result0 (pa_procs pa)
      in if recovery then older_normal (KnownAssignedXidsGetOldestXmin pa) result
         else defer_cleanup (vacuum_defer_cleanup_age be) result)"

section \<open>Snapshots\<close>

record SnapshotData =
  sn_xmin :: TransactionId
  sn_xmax :: TransactionId
  sn_xip :: "TransactionId list"
  sn_subxip :: "TransactionId list"
  sn_suboverflowed :: bool
  sn_takenDuringRecovery :: bool
  sn_curcid :: uint32

record SnapshotScan =
  sc_globalxmin :: TransactionId
  sc_xmin :: TransactionId
  sc_xip :: "TransactionId list"
  sc_subxip :: "TransactionId list"
  sc_suboverflowed :: bool

definition add_subxids :: "nat \<Rightarrow> nat \<Rightarrow> PGPROC \<Rightarrow> SnapshotScan \<Rightarrow> SnapshotScan" where
  "add_subxids me i proc sc =
     (if \<not> sc_suboverflowed sc \<and> i \<noteq> me
      then if xc_overflowed (p_subxids proc) then sc\<lparr>sc_suboverflowed := True\<rparr> else sc\<lparr>sc_subxip := sc_subxip sc @ cached_xids proc\<rparr>
      else sc)"

definition snapshot_step :: "nat \<Rightarrow> TransactionId \<Rightarrow> nat \<Rightarrow> PGPROC \<Rightarrow> SnapshotScan \<Rightarrow> SnapshotScan" where
  "snapshot_step me xmax i proc sc =
     (if in_vacuum proc then sc
      else let sc1 = sc\<lparr>sc_globalxmin := older_normal (p_xmin proc) (sc_globalxmin sc)\<rparr>; xid = p_xid proc
           in if TransactionIdIsNormal xid
              then if TransactionIdFollowsOrEquals xid xmax then sc1
                   else add_subxids me i proc
                     (sc1\<lparr>sc_xip := (if i \<noteq> me then sc_xip sc1 @ [xid] else sc_xip sc1),
                          sc_xmin := (if TransactionIdPrecedes xid (sc_xmin sc1) then xid else sc_xmin sc1)\<rparr>)
              else add_subxids me i proc sc1)"

text \<open>\<open>seen\<close> is what the loop reads of each process.\<close>

definition snapshot_scan :: "nat \<Rightarrow> TransactionId \<Rightarrow> (nat \<Rightarrow> PGPROC) \<Rightarrow> nat list \<Rightarrow> SnapshotScan" where
  "snapshot_scan me xmax seen procs =
     foldl (\<lambda>sc i. snapshot_step me xmax i (seen i) sc)
       \<lparr>sc_globalxmin = xmax, sc_xmin = xmax, sc_xip = [], sc_subxip = [], sc_suboverflowed = False\<rparr> procs"

definition snapshot_known :: "TransactionId \<Rightarrow> ProcArrayStruct \<Rightarrow> SnapshotScan" where
  "snapshot_known xmax pa =
     (let (subxip, xmin) = KnownAssignedXidsGetAndSetXmin xmax xmax pa
      in \<lparr>sc_globalxmin = xmax, sc_xmin = xmin, sc_xip = [], sc_subxip = subxip,
          sc_suboverflowed = TransactionIdPrecedesOrEquals xmin (lastOverflowedXid pa)\<rparr>)"

definition GetSnapshotData ::
    "bool \<Rightarrow> (nat \<Rightarrow> PGPROC) \<Rightarrow> Backend \<Rightarrow> XidGen \<Rightarrow> ProcArrayStruct \<Rightarrow> SnapshotData \<times> Backend \<times> XidGen" where
  "GetSnapshotData recovery seen be g pa =
     (let xmax = TransactionIdAdvance (vc_latestCompletedXid (xg_cache g));
          sc = (if recovery then snapshot_known xmax pa else snapshot_scan (MyProc be) xmax seen (pa_procs pa));
          xmin = sc_xmin sc; my = xg_procs g (MyProc be);
          (be1, g1) = (if \<not> TransactionIdIsValid (p_xmin my)
                       then (be\<lparr>be_TransactionXmin := xmin\<rparr>, g\<lparr>xg_procs := (xg_procs g)(MyProc be := my\<lparr>p_xmin := xmin\<rparr>)\<rparr>)
                       else (be, g));
          globalxmin = (if TransactionIdPrecedes xmin (sc_globalxmin sc) then xmin else sc_globalxmin sc)
      in (\<lparr>sn_xmin = xmin, sn_xmax = xmax, sn_xip = sc_xip sc, sn_subxip = sc_subxip sc, sn_suboverflowed = sc_suboverflowed sc,
           sn_takenDuringRecovery = recovery, sn_curcid = currentCommandId be\<rparr>,
          be1\<lparr>RecentGlobalXmin := defer_cleanup (vacuum_defer_cleanup_age be) globalxmin, RecentXmin := xmin\<rparr>, g1))"

definition running_step :: "PGPROC \<Rightarrow> TransactionId list \<times> TransactionId \<times> bool \<Rightarrow> TransactionId list \<times> TransactionId \<times> bool" where
  "running_step proc = (\<lambda>(xids, oldestRunningXid, suboverflowed).
     if \<not> TransactionIdIsValid (p_xid proc) then (xids, oldestRunningXid, suboverflowed)
     else (xids @ p_xid proc # cached_xids proc,
           (if TransactionIdPrecedes (p_xid proc) oldestRunningXid then p_xid proc else oldestRunningXid),
           suboverflowed \<or> (xc_nxids (p_subxids proc) > 0 \<and> xc_overflowed (p_subxids proc))))"

definition GetRunningTransactionData :: "XidGen \<Rightarrow> ProcArrayStruct \<Rightarrow> RunningTransactionsData" where
  "GetRunningTransactionData g pa =
     (let vc = xg_cache g;
          (xids, oldestRunningXid, suboverflowed) =
            foldl (\<lambda>acc i. running_step (xg_procs g i) acc) ([], vc_nextXid vc, False) (pa_procs pa)
      in \<lparr>rt_subxid_overflow = suboverflowed, rt_nextXid = vc_nextXid vc, rt_oldestRunningXid = oldestRunningXid,
          rt_latestCompletedXid = vc_latestCompletedXid vc, rt_xids = xids\<rparr>)"

definition GetOldestActiveTransactionId :: "XidGen \<Rightarrow> ProcArrayStruct \<Rightarrow> TransactionId" where
  "GetOldestActiveTransactionId g pa =
     foldl (\<lambda>oldest i. older_normal (p_xid (xg_procs g i)) oldest) (vc_nextXid (xg_cache g)) (pa_procs pa)"

section \<open>Queries on the array\<close>

definition GetTransactionsInCommit :: "XidGen \<Rightarrow> ProcArrayStruct \<Rightarrow> TransactionId list" where
  "GetTransactionsInCommit g pa =
     map (\<lambda>i. p_xid (xg_procs g i))
       (filter (\<lambda>i. p_inCommit (xg_procs g i) \<and> TransactionIdIsValid (p_xid (xg_procs g i))) (pa_procs pa))"

definition HaveTransactionsInCommit :: "XidGen \<Rightarrow> ProcArrayStruct \<Rightarrow> TransactionId list \<Rightarrow> bool" where
  "HaveTransactionsInCommit g pa xids \<longleftrightarrow>
     (\<exists>i \<in> set (pa_procs pa). p_inCommit (xg_procs g i) \<and> TransactionIdIsValid (p_xid (xg_procs g i)) \<and> p_xid (xg_procs g i) \<in> set xids)"

definition BackendPidGetProc :: "XidGen \<Rightarrow> ProcArrayStruct \<Rightarrow> int \<Rightarrow> nat option" where
  "BackendPidGetProc g pa pid = (if pid = 0 then None else List.find (\<lambda>i. p_pid (xg_procs g i) = pid) (pa_procs pa))"

definition BackendXidGetPid :: "XidGen \<Rightarrow> ProcArrayStruct \<Rightarrow> TransactionId \<Rightarrow> int" where
  "BackendXidGetPid g pa xid =
     (if xid = InvalidTransactionId then 0
      else case List.find (\<lambda>i. p_xid (xg_procs g i) = xid) (pa_procs pa) of None \<Rightarrow> 0 | Some i \<Rightarrow> p_pid (xg_procs g i))"

definition IsBackendPid :: "XidGen \<Rightarrow> ProcArrayStruct \<Rightarrow> int \<Rightarrow> bool" where
  "IsBackendPid g pa pid \<longleftrightarrow> BackendPidGetProc g pa pid \<noteq> None"

record VirtualTransactionId =
  vx_backendId :: int
  vx_localTransactionId :: uint32

definition VirtualTransactionIdIsValid :: "VirtualTransactionId \<Rightarrow> bool" where
  "VirtualTransactionIdIsValid vxid \<longleftrightarrow> vx_backendId vxid \<noteq> -1 \<and> vx_localTransactionId vxid \<noteq> 0"

definition vxid_of :: "PGPROC \<Rightarrow> VirtualTransactionId" where
  "vxid_of proc = \<lparr>vx_backendId = p_backendId proc, vx_localTransactionId = p_lxid proc\<rparr>"

definition GetCurrentVirtualXIDs ::
    "TransactionId \<Rightarrow> bool \<Rightarrow> bool \<Rightarrow> uint8 \<Rightarrow> Backend \<Rightarrow> XidGen \<Rightarrow> ProcArrayStruct \<Rightarrow> VirtualTransactionId list" where
  "GetCurrentVirtualXIDs limitXmin excludeXmin0 allDbs excludeVacuum be g pa =
     map (\<lambda>i. vxid_of (xg_procs g i))
       (filter (\<lambda>i. let proc = xg_procs g i; pxmin = p_xmin proc in
            i \<noteq> MyProc be \<and> excludeVacuum AND p_vacuumFlags proc = 0 \<and> (allDbs \<or> p_databaseId proc = MyDatabaseId be)
            \<and> \<not> (excludeXmin0 \<and> \<not> TransactionIdIsValid pxmin)
            \<and> (\<not> TransactionIdIsValid limitXmin \<or> TransactionIdPrecedesOrEquals pxmin limitXmin)
            \<and> VirtualTransactionIdIsValid (vxid_of proc))
          (pa_procs pa))"

definition GetConflictingVirtualXIDs :: "TransactionId \<Rightarrow> Oid \<Rightarrow> XidGen \<Rightarrow> ProcArrayStruct \<Rightarrow> VirtualTransactionId list" where
  "GetConflictingVirtualXIDs limitXmin dbOid g pa =
     map (\<lambda>i. vxid_of (xg_procs g i))
       (filter (\<lambda>i. let proc = xg_procs g i; pxmin = p_xmin proc in
            p_pid proc \<noteq> 0 \<and> (dbOid = 0 \<or> p_databaseId proc = dbOid)
            \<and> (\<not> TransactionIdIsValid limitXmin \<or> (TransactionIdIsValid pxmin \<and> \<not> TransactionIdFollows pxmin limitXmin))
            \<and> VirtualTransactionIdIsValid (vxid_of proc))
          (pa_procs pa))"

text \<open>The result is the process that is signalled, or zero.\<close>

definition CancelVirtualTransaction :: "VirtualTransactionId \<Rightarrow> XidGen \<Rightarrow> ProcArrayStruct \<Rightarrow> int \<times> XidGen" where
  "CancelVirtualTransaction vxid g pa =
     (case List.find (\<lambda>i. vxid_of (xg_procs g i) = vxid) (pa_procs pa) of
        None \<Rightarrow> (0, g)
      | Some i \<Rightarrow> (p_pid (xg_procs g i), g\<lparr>xg_procs := (xg_procs g)(i := (xg_procs g i)\<lparr>p_recoveryConflictPending := True\<rparr>)\<rparr>))"

definition MinimumActiveBackends :: "nat \<Rightarrow> Backend \<Rightarrow> XidGen \<Rightarrow> ProcArrayStruct \<Rightarrow> bool" where
  "MinimumActiveBackends least be g pa \<longleftrightarrow>
     least \<le> length (filter (\<lambda>i. i \<noteq> MyProc be \<and> p_pid (xg_procs g i) \<noteq> 0 \<and> p_xid (xg_procs g i) \<noteq> InvalidTransactionId
                \<and> \<not> p_waitLock (xg_procs g i)) (pa_procs pa))"

definition CountDBBackends :: "Oid \<Rightarrow> XidGen \<Rightarrow> ProcArrayStruct \<Rightarrow> nat" where
  "CountDBBackends databaseid g pa =
     length (filter (\<lambda>i. p_pid (xg_procs g i) \<noteq> 0 \<and> (databaseid = 0 \<or> p_databaseId (xg_procs g i) = databaseid)) (pa_procs pa))"

text \<open>The result begins with the processes that are signalled.\<close>

definition CancelDBBackends :: "Oid \<Rightarrow> bool \<Rightarrow> XidGen \<Rightarrow> ProcArrayStruct \<Rightarrow> int list \<times> XidGen" where
  "CancelDBBackends databaseid conflictPending g pa =
     foldl (\<lambda>(pids, g) i.
        if databaseid = 0 \<or> p_databaseId (xg_procs g i) = databaseid
        then (if p_pid (xg_procs g i) \<noteq> 0 then pids @ [p_pid (xg_procs g i)] else pids,
              g\<lparr>xg_procs := (xg_procs g)(i := (xg_procs g i)\<lparr>p_recoveryConflictPending := conflictPending\<rparr>)\<rparr>)
        else (pids, g)) ([], g) (pa_procs pa)"

definition CountUserBackends :: "Oid \<Rightarrow> XidGen \<Rightarrow> ProcArrayStruct \<Rightarrow> nat" where
  "CountUserBackends roleid g pa =
     length (filter (\<lambda>i. p_pid (xg_procs g i) \<noteq> 0 \<and> p_roleId (xg_procs g i) = roleid) (pa_procs pa))"

text \<open>
  One try of \<^verbatim>\<open>CountOtherDBBackends\<close> and its loop; \<open>states\<close> gives the array at each try.  The result is
  whether there are other processes, the numbers of them, and the processes that are signalled.
\<close>

definition other_db_backends :: "Oid \<Rightarrow> nat \<Rightarrow> XidGen \<Rightarrow> ProcArrayStruct \<Rightarrow> nat list" where
  "other_db_backends databaseId me g pa = filter (\<lambda>i. p_databaseId (xg_procs g i) = databaseId \<and> i \<noteq> me) (pa_procs pa)"

fun count_other_tries :: "nat \<Rightarrow> Oid \<Rightarrow> nat \<Rightarrow> (nat \<Rightarrow> XidGen \<times> ProcArrayStruct) \<Rightarrow> nat \<Rightarrow> int list \<Rightarrow> nat \<times> nat \<Rightarrow> bool \<times> nat \<times> nat \<times> int list" where
  "count_other_tries 0 databaseId me states tries pids (nbackends, nprepared) = (True, nbackends, nprepared, pids)"
| "count_other_tries (Suc n) databaseId me states tries pids counts =
     (let (g, pa) = states tries; others = other_db_backends databaseId me g pa;
          backends = filter (\<lambda>i. p_pid (xg_procs g i) \<noteq> 0) others;
          autovacs = take 10 (filter (\<lambda>i. p_vacuumFlags (xg_procs g i) AND PROC_IS_AUTOVACUUM \<noteq> 0) backends)
      in if others = [] then (False, 0, 0, pids)
         else count_other_tries n databaseId me states (tries + 1) (pids @ map (\<lambda>i. p_pid (xg_procs g i)) autovacs)
                (length backends, length others - length backends))"

definition CountOtherDBBackends :: "Oid \<Rightarrow> Backend \<Rightarrow> (nat \<Rightarrow> XidGen \<times> ProcArrayStruct) \<Rightarrow> bool \<times> nat \<times> nat \<times> int list" where
  "CountOtherDBBackends databaseId be states = count_other_tries 50 databaseId (MyProc be) states 0 [] (0, 0)"

section \<open>The cache of subtransactions\<close>

text \<open>The search from the last entry; a removed entry is replaced by the last one.\<close>

fun xid_cache_find :: "TransactionId \<Rightarrow> TransactionId list \<Rightarrow> nat \<Rightarrow> nat option" where
  "xid_cache_find xid xids 0 = None"
| "xid_cache_find xid xids (Suc j) = (if xids ! j = xid then Some j else xid_cache_find xid xids j)"

definition XidCacheRemove :: "nat \<Rightarrow> XidCache \<Rightarrow> XidCache" where
  "XidCacheRemove i c = c\<lparr>xc_xids := (xc_xids c)[i := xc_xids c ! (xc_nxids c - 1)], xc_nxids := xc_nxids c - 1\<rparr>"

definition xid_cache_drop :: "TransactionId \<Rightarrow> XidCache \<Rightarrow> XidCache" where
  "xid_cache_drop xid c = (case xid_cache_find xid (xc_xids c) (xc_nxids c) of None \<Rightarrow> c | Some j \<Rightarrow> XidCacheRemove j c)"

definition XidCacheRemoveRunningXids :: "nat \<Rightarrow> TransactionId \<Rightarrow> TransactionId list \<Rightarrow> TransactionId \<Rightarrow> XidGen \<Rightarrow> XidGen" where
  "XidCacheRemoveRunningXids me xid xids latestXid g =
     (let my = xg_procs g me; c = xid_cache_drop xid (foldr xid_cache_drop xids (p_subxids my))
      in g\<lparr>xg_procs := (xg_procs g)(me := my\<lparr>p_subxids := c\<rparr>),
           xg_cache := advance_latestCompletedXid latestXid (xg_cache g)\<rparr>)"

section \<open>What the scans compute\<close>

definition in_window :: "TransactionId \<Rightarrow> TransactionId \<Rightarrow> bool" where
  "in_window base x \<longleftrightarrow> TransactionIdIsNormal x \<and> xid_age base x < 2 ^ 31"

lemma window_precedes:
  assumes "in_window base x" "in_window base y"
  shows "TransactionIdPrecedes x y \<longleftrightarrow> xid_age base x < xid_age base y"
    "TransactionIdPrecedesOrEquals x y \<longleftrightarrow> xid_age base x \<le> xid_age base y"
    "TransactionIdFollowsOrEquals x y \<longleftrightarrow> xid_age base y \<le> xid_age base x"
  using assms precedes_normal_window [of x y base] by (simp_all add: in_window_def)

lemma in_window_normal: "in_window base x \<Longrightarrow> TransactionIdIsNormal x"
  by (simp add: in_window_def)

lemma age_less_Advance:
  assumes "TransactionIdIsNormal base" "in_window base x" "in_window base y"
  shows "xid_age base y < xid_age base (TransactionIdAdvance x) \<longleftrightarrow> xid_age base y \<le> xid_age base x"
    "xid_age base (TransactionIdAdvance x) \<le> xid_age base y \<longleftrightarrow> xid_age base x < xid_age base y"
proof -
  have n: "TransactionIdIsNormal x" "TransactionIdIsNormal y" "TransactionIdIsNormal (TransactionIdAdvance x)"
    using assms by (simp_all add: in_window_def)
  have "assigned_between base x < 4294967292"
    using xid_age_assigned [of base x] assms(2) by (simp add: in_window_def)
  then have "assigned_between base (TransactionIdAdvance x) = assigned_between base x + 1"
    using assigned_Advance [OF assms(1) n(1)] by blast
  moreover note assigned_less_iff [OF assms(1) n(2) n(3)] assigned_less_iff [OF assms(1) n(1) n(2)]
  ultimately show "xid_age base y < xid_age base (TransactionIdAdvance x) \<longleftrightarrow> xid_age base y \<le> xid_age base x"
    "xid_age base (TransactionIdAdvance x) \<le> xid_age base y \<longleftrightarrow> xid_age base x < xid_age base y"
    by linarith+
qed

text \<open>A process whose identifier is not after xmax, and which is not running lazy vacuum.\<close>

definition considered :: "TransactionId \<Rightarrow> PGPROC \<Rightarrow> bool" where
  "considered xmax proc \<longleftrightarrow> \<not> in_vacuum proc \<and> \<not> (TransactionIdIsNormal (p_xid proc) \<and> TransactionIdFollowsOrEquals (p_xid proc) xmax)"

lemma snapshot_scan_snoc:
  "snapshot_scan me xmax seen (procs @ [i]) = snapshot_step me xmax i (seen i) (snapshot_scan me xmax seen procs)"
  by (simp add: snapshot_scan_def)

lemma snapshot_scan_Nil:
  "snapshot_scan me xmax seen [] = \<lparr>sc_globalxmin = xmax, sc_xmin = xmax, sc_xip = [], sc_subxip = [], sc_suboverflowed = False\<rparr>"
  by (simp add: snapshot_scan_def)

lemma snapshot_step_fields:
  "sc_xip (snapshot_step me xmax i proc sc) =
     sc_xip sc @ (if considered xmax proc \<and> TransactionIdIsNormal (p_xid proc) \<and> i \<noteq> me then [p_xid proc] else [])"
  "sc_suboverflowed (snapshot_step me xmax i proc sc) \<longleftrightarrow>
     sc_suboverflowed sc \<or> considered xmax proc \<and> i \<noteq> me \<and> xc_overflowed (p_subxids proc)"
  "sc_subxip (snapshot_step me xmax i proc sc) =
     sc_subxip sc @ (if \<not> sc_suboverflowed (snapshot_step me xmax i proc sc) \<and> considered xmax proc \<and> i \<noteq> me then cached_xids proc else [])"
  "sc_xmin (snapshot_step me xmax i proc sc) = (if considered xmax proc then older_normal (p_xid proc) (sc_xmin sc) else sc_xmin sc)"
  "sc_globalxmin (snapshot_step me xmax i proc sc) = (if in_vacuum proc then sc_globalxmin sc else older_normal (p_xmin proc) (sc_globalxmin sc))"
  by (auto simp: snapshot_step_def add_subxids_def considered_def older_normal_def Let_def)

lemma snapshot_scan_xip:
  "sc_xip (snapshot_scan me xmax seen procs) =
     map (\<lambda>i. p_xid (seen i)) (filter (\<lambda>i. considered xmax (seen i) \<and> TransactionIdIsNormal (p_xid (seen i)) \<and> i \<noteq> me) procs)"
  by (induction procs rule: rev_induct) (simp_all add: snapshot_scan_snoc snapshot_scan_Nil snapshot_step_fields)

lemma snapshot_scan_overflowed:
  "sc_suboverflowed (snapshot_scan me xmax seen procs) \<longleftrightarrow>
     (\<exists>i \<in> set procs. considered xmax (seen i) \<and> i \<noteq> me \<and> xc_overflowed (p_subxids (seen i)))"
  by (induction procs rule: rev_induct) (auto simp: snapshot_scan_snoc snapshot_scan_Nil snapshot_step_fields)

lemma snapshot_scan_subxip:
  "\<not> sc_suboverflowed (snapshot_scan me xmax seen procs) \<Longrightarrow>
     sc_subxip (snapshot_scan me xmax seen procs) = concat (map (\<lambda>i. cached_xids (seen i)) (filter (\<lambda>i. considered xmax (seen i) \<and> i \<noteq> me) procs))"
  by (induction procs rule: rev_induct) (auto simp: snapshot_scan_snoc snapshot_scan_Nil snapshot_step_fields)

lemma snapshot_scan_subxip_subset:
  "set (sc_subxip (snapshot_scan me xmax seen procs)) \<subseteq> (\<Union>i \<in> {i \<in> set procs. considered xmax (seen i)}. set (cached_xids (seen i)))"
  by (induction procs rule: rev_induct) (auto simp: snapshot_scan_snoc snapshot_scan_Nil snapshot_step_fields)

lemma snapshot_scan_subxip_length:
  assumes "\<forall>i \<in> set procs. length (cached_xids (seen i)) \<le> n"
  shows "length (sc_subxip (snapshot_scan me xmax seen procs)) \<le> n * length procs"
  using assms
proof (induction procs rule: rev_induct)
  case (snoc i procs)
  then have "length (sc_subxip (snapshot_scan me xmax seen procs)) \<le> n * length procs" "length (cached_xids (seen i)) \<le> n" by auto
  then show ?case by (auto simp: snapshot_scan_snoc snapshot_step_fields)
qed (simp add: snapshot_scan_Nil)

text \<open>The minimum of identifiers in a window.\<close>

definition oldest_of :: "TransactionId \<Rightarrow> TransactionId \<Rightarrow> TransactionId set \<Rightarrow> TransactionId \<Rightarrow> bool" where
  "oldest_of base limit xs m \<longleftrightarrow> in_window base m \<and> m \<in> insert limit xs \<and> xid_age base m \<le> xid_age base limit
     \<and> (\<forall>x \<in> xs. TransactionIdIsNormal x \<longrightarrow> xid_age base m \<le> xid_age base x)"

lemma oldest_of_start: "in_window base limit \<Longrightarrow> oldest_of base limit {} limit"
  by (simp add: oldest_of_def)

lemma oldest_of_insert:
  assumes "oldest_of base limit xs m" "TransactionIdIsNormal x \<Longrightarrow> in_window base x"
  shows "oldest_of base limit (insert x xs) (older_normal x m)"
  using assms window_precedes(1) [of base x m] by (auto simp: oldest_of_def older_normal_def)

lemma oldest_of_mono: "oldest_of base limit xs m \<Longrightarrow> ys \<subseteq> xs \<Longrightarrow> m \<in> insert limit ys \<Longrightarrow> oldest_of base limit ys m"
  by (auto simp: oldest_of_def)

lemma snapshot_scan_xmin:
  assumes "in_window base xmax" "\<forall>i \<in> set procs. TransactionIdIsNormal (p_xid (seen i)) \<longrightarrow> in_window base (p_xid (seen i))"
  shows "oldest_of base xmax ((\<lambda>i. p_xid (seen i)) ` {i \<in> set procs. considered xmax (seen i)}) (sc_xmin (snapshot_scan me xmax seen procs))"
  using assms(2)
proof (induction procs rule: rev_induct)
  case (snoc i procs)
  have eq: "{j \<in> set (procs @ [i]). considered xmax (seen j)} = (if considered xmax (seen i) then insert i {j \<in> set procs. considered xmax (seen j)}
      else {j \<in> set procs. considered xmax (seen j)})" by auto
  show ?case
    using snoc oldest_of_insert [of base xmax _ _ "p_xid (seen i)"]
    unfolding eq by (simp add: snapshot_scan_snoc snapshot_step_fields)
qed (simp add: snapshot_scan_Nil oldest_of_start assms(1))

lemma snapshot_scan_globalxmin:
  assumes "in_window base xmax" "\<forall>i \<in> set procs. TransactionIdIsNormal (p_xmin (seen i)) \<longrightarrow> in_window base (p_xmin (seen i))"
  shows "oldest_of base xmax ((\<lambda>i. p_xmin (seen i)) ` {i \<in> set procs. \<not> in_vacuum (seen i)}) (sc_globalxmin (snapshot_scan me xmax seen procs))"
  using assms(2)
proof (induction procs rule: rev_induct)
  case (snoc i procs)
  have eq: "{j \<in> set (procs @ [i]). \<not> in_vacuum (seen j)} = (if \<not> in_vacuum (seen i) then insert i {j \<in> set procs. \<not> in_vacuum (seen j)}
      else {j \<in> set procs. \<not> in_vacuum (seen j)})" by auto
  show ?case
    using snoc oldest_of_insert [of base xmax _ _ "p_xmin (seen i)"]
    unfolding eq by (simp add: snapshot_scan_snoc snapshot_step_fields)
qed (simp add: snapshot_scan_Nil oldest_of_start assms(1))

text \<open>The scan of the array for one identifier.\<close>

lemma scan_procs_spec:
  "scan_procs xid me procs is xids =
     (if \<exists>i \<in> set is. i \<noteq> me \<and> TransactionIdIsValid (p_xid (procs i))
           \<and> (p_xid (procs i) = xid \<or> \<not> TransactionIdPrecedes xid (p_xid (procs i)) \<and> xid \<in> set (cached_xids (procs i)))
      then None
      else Some (xids @ map (\<lambda>i. p_xid (procs i))
        (filter (\<lambda>i. i \<noteq> me \<and> TransactionIdIsValid (p_xid (procs i)) \<and> \<not> TransactionIdPrecedes xid (p_xid (procs i))
            \<and> xc_overflowed (p_subxids (procs i))) is)))"
  by (induction xid me procs "is" xids rule: scan_procs.induct) (auto simp: Let_def)

section \<open>Well-formed snapshots\<close>

definition proc_wf :: "TransactionId \<Rightarrow> PGPROC \<Rightarrow> bool" where
  "proc_wf base proc \<longleftrightarrow>
     xc_nxids (p_subxids proc) \<le> PGPROC_MAX_CACHED_SUBXIDS \<and> length (xc_xids (p_subxids proc)) = PGPROC_MAX_CACHED_SUBXIDS
     \<and> (if TransactionIdIsValid (p_xid proc)
        then in_window base (p_xid proc)
             \<and> (\<forall>x \<in> set (cached_xids proc). in_window base x \<and> xid_age base (p_xid proc) < xid_age base x)
        else xc_nxids (p_subxids proc) = 0 \<and> \<not> xc_overflowed (p_subxids proc))
     \<and> (TransactionIdIsValid (p_xmin proc) \<longrightarrow> in_window base (p_xmin proc))"

definition TOTAL_MAX_CACHED_SUBXIDS :: "ProcArrayStruct \<Rightarrow> nat" where
  "TOTAL_MAX_CACHED_SUBXIDS pa = (PGPROC_MAX_CACHED_SUBXIDS + 1) * pa_maxProcs pa"

text \<open>What \<^verbatim>\<open>utils/snapshot.h\<close> says of a snapshot, and that its arrays fit into the memory reserved for them.\<close>

definition snapshot_wf :: "TransactionId \<Rightarrow> ProcArrayStruct \<Rightarrow> SnapshotData \<Rightarrow> bool" where
  "snapshot_wf base pa sn \<longleftrightarrow>
     in_window base (sn_xmin sn) \<and> in_window base (sn_xmax sn) \<and> xid_age base (sn_xmin sn) \<le> xid_age base (sn_xmax sn)
     \<and> length (sn_xip sn) \<le> pa_maxProcs pa \<and> length (sn_subxip sn) \<le> TOTAL_MAX_CACHED_SUBXIDS pa
     \<and> (\<forall>x \<in> set (sn_xip sn). in_window base x \<and> xid_age base (sn_xmin sn) \<le> xid_age base x \<and> xid_age base x < xid_age base (sn_xmax sn))
     \<and> (\<forall>x \<in> set (sn_subxip sn). in_window base x \<and> xid_age base (sn_xmin sn) \<le> xid_age base x)"

lemma valid_not_0: "TransactionIdIsValid x \<longleftrightarrow> x \<noteq> 0"
  by (simp add: TransactionIdIsValid_def InvalidTransactionId_def)

lemma window_valid: "in_window base x \<Longrightarrow> TransactionIdIsValid x"
  by (auto simp: in_window_def normal_ge_3 valid_not_0)

lemma proc_wf_normal: "proc_wf base proc \<Longrightarrow> TransactionIdIsNormal (p_xid proc) \<longleftrightarrow> TransactionIdIsValid (p_xid proc)"
  by (auto simp: proc_wf_def in_window_def normal_ge_3 valid_not_0 split: if_splits)

lemma proc_wf_no_cached: "proc_wf base proc \<Longrightarrow> \<not> TransactionIdIsValid (p_xid proc) \<Longrightarrow> cached_xids proc = []"
  by (simp add: proc_wf_def cached_xids_def)

lemma proc_wf_xid: "proc_wf base proc \<Longrightarrow> TransactionIdIsValid (p_xid proc) \<Longrightarrow> in_window base (p_xid proc)"
  by (simp add: proc_wf_def)

lemma proc_wf_cached:
  assumes "proc_wf base proc" "x \<in> set (cached_xids proc)"
  shows "TransactionIdIsValid (p_xid proc)" "in_window base x" "xid_age base (p_xid proc) < xid_age base x"
proof -
  show v: "TransactionIdIsValid (p_xid proc)" using assms proc_wf_no_cached by fastforce
  show "in_window base x" "xid_age base (p_xid proc) < xid_age base x" using assms v by (simp_all add: proc_wf_def)
qed

lemma proc_wf_cached_length: "proc_wf base proc \<Longrightarrow> length (cached_xids proc) \<le> PGPROC_MAX_CACHED_SUBXIDS"
  by (simp add: proc_wf_def cached_xids_def)

lemma snapshot_scan_wf:
  fixes me :: nat
  assumes "in_window base xmax" "\<forall>i \<in> set (pa_procs pa). proc_wf base (seen i)" "length (pa_procs pa) \<le> pa_maxProcs pa"
  defines "sc \<equiv> snapshot_scan me xmax seen (pa_procs pa)"
  shows "snapshot_wf base pa \<lparr>sn_xmin = sc_xmin sc, sn_xmax = xmax, sn_xip = sc_xip sc, sn_subxip = sc_subxip sc, sn_suboverflowed = o1,
    sn_takenDuringRecovery = r, sn_curcid = cid\<rparr>"
proof -
  let ?P = "pa_procs pa"
  have n: "TransactionIdIsNormal (p_xid (seen i)) \<Longrightarrow> in_window base (p_xid (seen i))" if "i \<in> set ?P" for i
    using assms(2) that proc_wf_normal proc_wf_xid by blast
  have xmin: "oldest_of base xmax ((\<lambda>i. p_xid (seen i)) ` {i \<in> set ?P. considered xmax (seen i)}) (sc_xmin sc)"
    unfolding sc_def using snapshot_scan_xmin [OF assms(1), of ?P seen me] n by blast
  have xip: "in_window base x \<and> xid_age base (sc_xmin sc) \<le> xid_age base x \<and> xid_age base x < xid_age base xmax"
    if "x \<in> set (sc_xip sc)" for x
  proof -
    obtain i where i: "i \<in> set ?P" "x = p_xid (seen i)" "considered xmax (seen i)" "TransactionIdIsNormal x"
      using \<open>x \<in> set (sc_xip sc)\<close> by (auto simp: sc_def snapshot_scan_xip)
    then have "in_window base x" using n by blast
    moreover have "xid_age base (sc_xmin sc) \<le> xid_age base x" using xmin i by (auto simp: oldest_of_def)
    ultimately show ?thesis using i window_precedes(3) [of base x xmax] assms(1) by (simp add: considered_def)
  qed
  have sub: "in_window base x \<and> xid_age base (sc_xmin sc) \<le> xid_age base x" if x: "x \<in> set (sc_subxip sc)" for x
  proof -
    obtain i where i: "i \<in> set ?P" "considered xmax (seen i)" "x \<in> set (cached_xids (seen i))"
      using snapshot_scan_subxip_subset [of me xmax seen ?P] x by (auto simp: sc_def)
    note p = proc_wf_cached [OF _ i(3)]
    have w: "proc_wf base (seen i)" using assms(2) i(1) by blast
    have "TransactionIdIsNormal (p_xid (seen i))" using proc_wf_normal [OF w] p(1) [OF w] by blast
    then have "xid_age base (sc_xmin sc) \<le> xid_age base (p_xid (seen i))" using xmin i(1,2) by (auto simp: oldest_of_def)
    then show ?thesis using p(2,3) [OF w] by simp
  qed
  have "length (sc_xip sc) \<le> pa_maxProcs pa"
    using assms(3) by (simp add: sc_def snapshot_scan_xip order_trans [OF length_filter_le])
  moreover have "length (sc_subxip sc) \<le> PGPROC_MAX_CACHED_SUBXIDS * length ?P"
    unfolding sc_def using snapshot_scan_subxip_length assms(2) proc_wf_cached_length by blast
  then have "length (sc_subxip sc) \<le> TOTAL_MAX_CACHED_SUBXIDS pa"
    using assms(3) by (simp add: TOTAL_MAX_CACHED_SUBXIDS_def PGPROC_MAX_CACHED_SUBXIDS_def)
  ultimately show ?thesis using xmin xip sub assms(1) by (auto simp: snapshot_wf_def oldest_of_def)
qed

lemma snapshot_known_spec:
  assumes "known_wf base pa" "in_window base xmax"
  shows "sc_subxip (snapshot_known xmax pa) = filter (\<lambda>x. xid_age base x < xid_age base xmax) (known_list pa)"
    "sc_xip (snapshot_known xmax pa) = []"
    "oldest_of base xmax (set (known_list pa)) (sc_xmin (snapshot_known xmax pa))"
    "sc_suboverflowed (snapshot_known xmax pa) \<longleftrightarrow> TransactionIdPrecedesOrEquals (sc_xmin (snapshot_known xmax pa)) (lastOverflowedXid pa)"
proof -
  let ?k = "known_list pa"
  note asc = xids_ascending_known_list [OF assms(1)]
  have w: "in_window base x" if "x \<in> set ?k" for x using asc that by (auto simp: xids_ascending_def in_window_def)
  have eq: "KnownAssignedXidsGetAndSetXmin xmax xmax pa =
      (filter (\<lambda>x. xid_age base x < xid_age base xmax) ?k, if ?k \<noteq> [] \<and> TransactionIdPrecedes (hd ?k) xmax then hd ?k else xmax)"
    using takeWhile_ascending [OF asc, of xmax] assms(2)
    by (simp add: KnownAssignedXidsGetAndSetXmin_def get_known_xids_spec known_list_def Let_def in_window_def)
  show "sc_subxip (snapshot_known xmax pa) = filter (\<lambda>x. xid_age base x < xid_age base xmax) ?k" "sc_xip (snapshot_known xmax pa) = []"
    "sc_suboverflowed (snapshot_known xmax pa) \<longleftrightarrow> TransactionIdPrecedesOrEquals (sc_xmin (snapshot_known xmax pa)) (lastOverflowedXid pa)"
    by (simp_all add: snapshot_known_def eq)
  have hd: "xid_age base (hd ?k) \<le> xid_age base x" if "x \<in> set ?k" for x
    using asc that by (cases ?k) (auto simp: xids_ascending_def)
  have "TransactionIdPrecedes (hd ?k) xmax \<longleftrightarrow> xid_age base (hd ?k) < xid_age base xmax" if "?k \<noteq> []"
    using window_precedes(1) w assms(2) that by simp
  then have cmp: "TransactionIdPrecedes (hd ?k) xmax \<longleftrightarrow> xid_age base (hd ?k) < xid_age base xmax" if "?k \<noteq> []" using that by blast
  have xm: "sc_xmin (snapshot_known xmax pa) = (if ?k \<noteq> [] \<and> TransactionIdPrecedes (hd ?k) xmax then hd ?k else xmax)"
    by (simp add: snapshot_known_def eq)
  show "oldest_of base xmax (set ?k) (sc_xmin (snapshot_known xmax pa))"
  proof (cases "?k \<noteq> [] \<and> TransactionIdPrecedes (hd ?k) xmax")
    case True
    then show ?thesis using xm w hd cmp by (simp add: oldest_of_def)
  next
    case False
    have "xid_age base xmax \<le> xid_age base x" if "x \<in> set ?k" for x
    proof -
      have "?k \<noteq> []" using that by auto
      then show ?thesis using False cmp hd [OF that] by simp
    qed
    then show ?thesis using xm False assms(2) by (simp add: oldest_of_def)
  qed
qed

lemma snapshot_known_wf:
  assumes "known_wf base pa" "in_window base xmax" "maxKnownAssignedXids pa = TOTAL_MAX_CACHED_SUBXIDS pa"
  defines "sc \<equiv> snapshot_known xmax pa"
  shows "snapshot_wf base pa \<lparr>sn_xmin = sc_xmin sc, sn_xmax = xmax, sn_xip = sc_xip sc, sn_subxip = sc_subxip sc, sn_suboverflowed = o1,
    sn_takenDuringRecovery = r, sn_curcid = cid\<rparr>"
proof -
  note sp = snapshot_known_spec [OF assms(1,2), folded sc_def]
  have w: "in_window base x" if "x \<in> set (known_list pa)" for x
    using xids_ascending_known_list [OF assms(1)] that by (auto simp: xids_ascending_def in_window_def)
  have "length (known_list pa) \<le> maxKnownAssignedXids pa"
    unfolding known_list_def by (rule order_trans [OF known_at_length]) (use assms(1) in \<open>auto simp: known_wf_def\<close>)
  then have "length (sc_subxip sc) \<le> TOTAL_MAX_CACHED_SUBXIDS pa"
    using sp(1) assms(3) by (simp add: order_trans [OF length_filter_le])
  moreover have "TransactionIdIsNormal x" if "x \<in> set (known_list pa)" for x using w that by (simp add: in_window_def)
  ultimately show ?thesis
    using sp w assms(2) by (auto simp: snapshot_wf_def oldest_of_def)
qed

lemma GetSnapshotData_spec:
  assumes "in_window base (TransactionIdAdvance (vc_latestCompletedXid (xg_cache g)))"
    and "\<forall>i \<in> set (pa_procs pa). proc_wf base (seen i)" "length (pa_procs pa) \<le> pa_maxProcs pa"
    and "recovery \<Longrightarrow> known_wf base pa \<and> maxKnownAssignedXids pa = TOTAL_MAX_CACHED_SUBXIDS pa"
    and "GetSnapshotData recovery seen be g pa = (sn, be', g')"
  shows "snapshot_wf base pa sn \<and> RecentXmin be' = sn_xmin sn \<and> TransactionIdIsValid (p_xmin (xg_procs g' (MyProc be)))
    \<and> (\<not> TransactionIdIsValid (p_xmin (xg_procs g (MyProc be))) \<longrightarrow> p_xmin (xg_procs g' (MyProc be)) = sn_xmin sn \<and> be_TransactionXmin be' = sn_xmin sn)"
proof -
  let ?xmax = "TransactionIdAdvance (vc_latestCompletedXid (xg_cache g))"
  define sc where "sc = (if recovery then snapshot_known ?xmax pa else snapshot_scan (MyProc be) ?xmax seen (pa_procs pa))"
  have sn: "sn = \<lparr>sn_xmin = sc_xmin sc, sn_xmax = ?xmax, sn_xip = sc_xip sc, sn_subxip = sc_subxip sc, sn_suboverflowed = sc_suboverflowed sc,
      sn_takenDuringRecovery = recovery, sn_curcid = currentCommandId be\<rparr>"
    and be': "RecentXmin be' = sc_xmin sc"
    and x: "\<not> TransactionIdIsValid (p_xmin (xg_procs g (MyProc be))) \<Longrightarrow> p_xmin (xg_procs g' (MyProc be)) = sc_xmin sc \<and> be_TransactionXmin be' = sc_xmin sc"
    and y: "TransactionIdIsValid (p_xmin (xg_procs g (MyProc be))) \<Longrightarrow> g' = g"
    using assms(5) by (auto simp: GetSnapshotData_def Let_def sc_def [symmetric] split: if_splits)
  have "snapshot_wf base pa sn"
    unfolding sn sc_def using snapshot_scan_wf [OF assms(1-3)] snapshot_known_wf assms(1,4) by (cases recovery) auto
  moreover have "TransactionIdIsValid (sc_xmin sc)"
    using calculation by (auto simp: snapshot_wf_def sn intro: window_valid)
  moreover have "TransactionIdIsValid (p_xmin (xg_procs g' (MyProc be)))"
    using x y calculation(2) by (cases "TransactionIdIsValid (p_xmin (xg_procs g (MyProc be)))") simp_all
  ultimately show ?thesis using be' x by (simp add: sn)
qed

text \<open>C20. Every snapshot is well-formed, on the master and on a standby: its arrays fit into the memory
  allocated for them, xmin is not after xmax, the top-level transactions listed lie between the two, and the listed subtransactions are not
  before xmin; the backend's xmin is set, and RecentXmin is the xmin of the snapshot.\<close>

theorem GetSnapshotData_wf:
  assumes "in_window base (TransactionIdAdvance (vc_latestCompletedXid (xg_cache g)))"
    and "\<forall>i \<in> set (pa_procs pa). proc_wf base (seen i)" "length (pa_procs pa) \<le> pa_maxProcs pa"
    and "recovery \<Longrightarrow> known_wf base pa \<and> maxKnownAssignedXids pa = TOTAL_MAX_CACHED_SUBXIDS pa"
    and "GetSnapshotData recovery seen be g pa = (sn, be', g')"
  shows "snapshot_wf base pa sn \<and> RecentXmin be' = sn_xmin sn \<and> TransactionIdIsValid (p_xmin (xg_procs g' (MyProc be)))
    \<and> (\<not> TransactionIdIsValid (p_xmin (xg_procs g (MyProc be))) \<longrightarrow> p_xmin (xg_procs g' (MyProc be)) = sn_xmin sn \<and> be_TransactionXmin be' = sn_xmin sn)"
  by (rule GetSnapshotData_spec [OF assms])

text \<open>Two processes across the wrap-around point: one with a cached subtransaction, one that takes a snapshot.\<close>

definition busy_proc :: PGPROC where
  "busy_proc = zero_proc\<lparr>p_xid := 4294967294, p_subxids := \<lparr>xc_overflowed = False, xc_nxids = 1, xc_xids = 3 # replicate 63 0\<rparr>\<rparr>"

definition two_procs :: ProcArrayStruct where
  "two_procs = empty_known\<lparr>pa_procs := [0, 1]\<rparr>"

definition busy_gen :: XidGen where
  "busy_gen = (start_gen 4294967000 5)\<lparr>xg_procs := (\<lambda>_. zero_proc)(0 := busy_proc)\<rparr>"

definition plain_backend :: Backend where
  "plain_backend = \<lparr>MyProc = 1, MyDatabaseId = 1, be_TransactionXmin = 0, RecentXmin = 0, RecentGlobalXmin = 0,
     be_fetch = \<lparr>cachedFetchXid = 0, cachedFetchXidStatus = TRANSACTION_STATUS_IN_PROGRESS, cachedCommitLSN = InvalidXLogRecPtr\<rparr>,
     be_stack = [], currentCommandId = 0, vacuum_defer_cleanup_age = 0\<rparr>"

lemma busy_gen_latest: "vc_latestCompletedXid (xg_cache busy_gen) = 4"
  by (simp add: busy_gen_def start_gen_def start_cache_def SetTransactionIdLimit_def Let_def)

lemma busy_procs_wf: "\<forall>i \<in> set (pa_procs two_procs). proc_wf 4294967000 (xg_procs busy_gen i)"
  by (simp add: two_procs_def busy_gen_def busy_proc_def zero_proc_def proc_wf_def cached_xids_def valid_not_0 in_window_def
      normal_ge_3 xid_age_def PGPROC_MAX_CACHED_SUBXIDS_def)

theorem GetSnapshotData_wf_witness:
  "\<exists>sn be' g'. GetSnapshotData False (xg_procs busy_gen) plain_backend busy_gen two_procs = (sn, be', g')
     \<and> snapshot_wf 4294967000 two_procs sn \<and> sn_xmin sn = 4294967294 \<and> sn_xmax sn = 5 \<and> sn_subxip sn = [3]"
proof -
  obtain sn be' g' where r: "GetSnapshotData False (xg_procs busy_gen) plain_backend busy_gen two_procs = (sn, be', g')"
    using prod_cases3 by blast
  have adv: "TransactionIdAdvance 4 = 5" by (simp add: TransactionIdAdvance_def FirstNormalTransactionId_def)
  have "in_window 4294967000 (TransactionIdAdvance (vc_latestCompletedXid (xg_cache busy_gen)))"
    by (simp add: busy_gen_latest adv in_window_def normal_ge_3 xid_age_def)
  moreover have "length (pa_procs two_procs) \<le> pa_maxProcs two_procs" by (simp add: two_procs_def empty_known_def)
  ultimately have "snapshot_wf 4294967000 two_procs sn"
    using GetSnapshotData_wf [OF _ busy_procs_wf _ _ r] by blast
  moreover have "sn_xmin sn = 4294967294 \<and> sn_xmax sn = 5 \<and> sn_subxip sn = [3]"
  proof -
    have "\<not> in_vacuum busy_proc" "\<not> in_vacuum zero_proc" by (simp_all add: in_vacuum_def busy_proc_def zero_proc_def)
    moreover have "TransactionIdPrecedes 4294967294 5" "\<not> TransactionIdFollowsOrEquals 4294967294 5"
      by (simp_all add: TransactionIdPrecedes_def TransactionIdFollowsOrEquals_def normal_ge_3)
    ultimately show ?thesis
      using arg_cong [OF r, of fst] unfolding GetSnapshotData_def busy_gen_latest adv
      by (auto simp: Let_def snapshot_scan_def snapshot_step_def add_subxids_def two_procs_def busy_gen_def plain_backend_def
          busy_proc_def zero_proc_def cached_xids_def normal_ge_3 older_normal_def split: if_splits)
  qed
  ultimately show ?thesis using r by blast
qed

end
