(* ===== verification/Tqual.thy ===== *)
theory Tqual
  imports Procarray
begin

text \<open>
  The visibility of tuples (\<^verbatim>\<open>utils/time/tqual.c\<close>, with the combined command identifiers of
  \<^verbatim>\<open>utils/time/combocid.c\<close>).  The functions read the status of transactions, set hint bits in the
  header of the tuple, and may not return if the subtransaction log is circular (None).
\<close>

unbundle bit_operations_syntax

section \<open>Tuple headers\<close>

type_synonym CommandId = uint32

record HeapTupleHeader =
  t_xmin :: TransactionId
  t_xmax :: TransactionId
  t_field3 :: uint32
  t_infomask :: uint16

definition HEAP_COMBOCID :: uint16 where "HEAP_COMBOCID = 0x0020"
definition HEAP_IS_LOCKED :: uint16 where "HEAP_IS_LOCKED = 0x0040 OR 0x0080"
definition HEAP_XMIN_COMMITTED :: uint16 where "HEAP_XMIN_COMMITTED = 0x0100"
definition HEAP_XMIN_INVALID :: uint16 where "HEAP_XMIN_INVALID = 0x0200"
definition HEAP_XMAX_COMMITTED :: uint16 where "HEAP_XMAX_COMMITTED = 0x0400"
definition HEAP_XMAX_INVALID :: uint16 where "HEAP_XMAX_INVALID = 0x0800"
definition HEAP_XMAX_IS_MULTI :: uint16 where "HEAP_XMAX_IS_MULTI = 0x1000"
definition HEAP_MOVED_OFF :: uint16 where "HEAP_MOVED_OFF = 0x4000"
definition HEAP_MOVED_IN :: uint16 where "HEAP_MOVED_IN = 0x8000"
definition HEAP_MOVED :: uint16 where "HEAP_MOVED = HEAP_MOVED_OFF OR HEAP_MOVED_IN"

definition has_flag :: "HeapTupleHeader \<Rightarrow> uint16 \<Rightarrow> bool" where
  "has_flag tup m \<longleftrightarrow> t_infomask tup AND m \<noteq> 0"

definition HeapTupleHeaderGetXvac :: "HeapTupleHeader \<Rightarrow> TransactionId" where
  "HeapTupleHeaderGetXvac tup = (if has_flag tup HEAP_MOVED then t_field3 tup else InvalidTransactionId)"

definition HeapTupleHeaderSetCmin :: "CommandId \<Rightarrow> HeapTupleHeader \<Rightarrow> HeapTupleHeader" where
  "HeapTupleHeaderSetCmin cid tup = tup\<lparr>t_field3 := cid, t_infomask := t_infomask tup AND NOT HEAP_COMBOCID\<rparr>"

definition HeapTupleHeaderSetCmax :: "CommandId \<Rightarrow> bool \<Rightarrow> HeapTupleHeader \<Rightarrow> HeapTupleHeader" where
  "HeapTupleHeaderSetCmax cid iscombo tup =
     tup\<lparr>t_field3 := cid, t_infomask := (if iscombo then t_infomask tup OR HEAP_COMBOCID else t_infomask tup AND NOT HEAP_COMBOCID)\<rparr>"

section \<open>Combined command identifiers\<close>

text \<open>The array of pairs and the hash table that finds the identifier of a pair.\<close>

record ComboCids =
  comboHash :: "CommandId \<times> CommandId \<Rightarrow> CommandId option"
  comboCids :: "(CommandId \<times> CommandId) list"

definition GetRealCmin :: "ComboCids \<Rightarrow> CommandId \<Rightarrow> CommandId" where
  "GetRealCmin cc combocid = fst (comboCids cc ! unat combocid)"

definition GetRealCmax :: "ComboCids \<Rightarrow> CommandId \<Rightarrow> CommandId" where
  "GetRealCmax cc combocid = snd (comboCids cc ! unat combocid)"

definition GetComboCommandId :: "CommandId \<Rightarrow> CommandId \<Rightarrow> ComboCids \<Rightarrow> CommandId \<times> ComboCids" where
  "GetComboCommandId cmin cmax cc =
     (case comboHash cc (cmin, cmax) of
        Some combocid \<Rightarrow> (combocid, cc)
      | None \<Rightarrow> (let combocid = of_nat (length (comboCids cc))
                 in (combocid, \<lparr>comboHash = (comboHash cc)((cmin, cmax) \<mapsto> combocid), comboCids = comboCids cc @ [(cmin, cmax)]\<rparr>)))"

definition HeapTupleHeaderGetCmin :: "ComboCids \<Rightarrow> HeapTupleHeader \<Rightarrow> CommandId" where
  "HeapTupleHeaderGetCmin cc tup = (if has_flag tup HEAP_COMBOCID then GetRealCmin cc (t_field3 tup) else t_field3 tup)"

definition HeapTupleHeaderGetCmax :: "ComboCids \<Rightarrow> HeapTupleHeader \<Rightarrow> CommandId" where
  "HeapTupleHeaderGetCmax cc tup = (if has_flag tup HEAP_COMBOCID then GetRealCmax cc (t_field3 tup) else t_field3 tup)"

definition HeapTupleHeaderAdjustCmax ::
    "TransactionStateData list \<Rightarrow> HeapTupleHeader \<Rightarrow> CommandId \<Rightarrow> ComboCids \<Rightarrow> (CommandId \<times> bool) \<times> ComboCids" where
  "HeapTupleHeaderAdjustCmax stack tup cmax cc =
     (if \<not> has_flag tup HEAP_XMIN_COMMITTED \<and> TransactionIdIsCurrentTransactionId stack (t_xmin tup)
      then let (combo, cc1) = GetComboCommandId (HeapTupleHeaderGetCmin cc tup) cmax cc in ((combo, True), cc1)
      else ((cmax, False), cc))"

definition AtEOXact_ComboCid :: ComboCids where
  "AtEOXact_ComboCid = \<lparr>comboHash = (\<lambda>_. None), comboCids = []\<rparr>"

section \<open>Hint bits\<close>

text \<open>How far the log is known to be flushed, locally and in shared memory.\<close>

record LogFlush =
  LogwrtResult_Flush :: XLogRecPtr
  xlogctl_Flush :: XLogRecPtr
  minRecoveryPoint :: XLogRecPtr
  updateMinRecoveryPoint :: bool
  ControlFile_minRecoveryPoint :: XLogRecPtr
  ControlFileLock_free :: bool

definition XLogNeedsFlush :: "bool \<Rightarrow> XLogRecPtr \<Rightarrow> LogFlush \<Rightarrow> bool \<times> LogFlush" where
  "XLogNeedsFlush recovery rec w =
     (if recovery
      then if XLByteLE rec (minRecoveryPoint w) \<or> \<not> updateMinRecoveryPoint w then (False, w)
           else if \<not> ControlFileLock_free w then (True, w)
           else let m = ControlFile_minRecoveryPoint w;
                    w1 = w\<lparr>minRecoveryPoint := m,
                           updateMinRecoveryPoint := (if xlogid m = 0 \<and> xrecoff m = 0 then False else updateMinRecoveryPoint w)\<rparr>
                in (\<not> (XLByteLE rec m \<or> \<not> updateMinRecoveryPoint w1), w1)
      else if XLByteLE rec (LogwrtResult_Flush w) then (False, w)
      else let w1 = w\<lparr>LogwrtResult_Flush := xlogctl_Flush w\<rparr> in (\<not> XLByteLE rec (LogwrtResult_Flush w1), w1))"

text \<open>What a function of this theory may look at, and what it may change.\<close>

record TqEnv =
  te_recovery :: bool
  te_be :: Backend
  te_gen :: XidGen
  te_array :: ProcArrayStruct
  te_combo :: ComboCids
  te_multi_members :: "uint32 \<Rightarrow> TransactionId list"

record TqState =
  tq_tuple :: HeapTupleHeader
  tq_dirty :: bool
  tq_fetch :: XactCache
  tq_wal :: LogFlush

type_synonym 'a tq = "TqState \<Rightarrow> ('a \<times> TqState) option"

definition tq_return :: "'a \<Rightarrow> 'a tq" where
  "tq_return a = (\<lambda>s. Some (a, s))"

definition tq_if :: "uint16 \<Rightarrow> 'a tq \<Rightarrow> 'a tq \<Rightarrow> 'a tq" where
  "tq_if m A B = (\<lambda>s. if has_flag (tq_tuple s) m then A s else B s)"

definition tq_answer :: "(bool \<times> XactCache) option \<Rightarrow> 'a tq \<Rightarrow> 'a tq \<Rightarrow> 'a tq" where
  "tq_answer r A B = (\<lambda>s. case r of None \<Rightarrow> None
     | Some (b, cache) \<Rightarrow> if b then A (s\<lparr>tq_fetch := cache\<rparr>) else B (s\<lparr>tq_fetch := cache\<rparr>))"

definition if_in_progress :: "TqEnv \<Rightarrow> TransactionId \<Rightarrow> 'a tq \<Rightarrow> 'a tq \<Rightarrow> 'a tq" where
  "if_in_progress e xid A B = (\<lambda>s. tq_answer
     (TransactionIdIsInProgress (te_recovery e) (te_be e) (te_gen e) (te_array e) (te_gen e) (tq_fetch s) xid) A B s)"

definition if_did_commit :: "TqEnv \<Rightarrow> TransactionId \<Rightarrow> 'a tq \<Rightarrow> 'a tq \<Rightarrow> 'a tq" where
  "if_did_commit e xid A B = (\<lambda>s. tq_answer
     (TransactionIdDidCommit (xg_clog (te_gen e)) (xg_sub (te_gen e)) (be_TransactionXmin (te_be e)) (tq_fetch s) xid) A B s)"

definition if_current :: "TqEnv \<Rightarrow> TransactionId \<Rightarrow> 'a tq \<Rightarrow> 'a tq \<Rightarrow> 'a tq" where
  "if_current e xid A B = (if TransactionIdIsCurrentTransactionId (be_stack (te_be e)) xid then A else B)"

definition SetHintBits :: "TqEnv \<Rightarrow> uint16 \<Rightarrow> TransactionId \<Rightarrow> TqState \<Rightarrow> TqState" where
  "SetHintBits e infomask xid s =
     (let tup = tq_tuple s; set_bits = (\<lambda>s. s\<lparr>tq_tuple := tup\<lparr>t_infomask := t_infomask tup OR infomask\<rparr>, tq_dirty := True\<rparr>)
      in if TransactionIdIsValid xid
         then let commitLSN = TransactionIdGetCommitLSN (xg_clog (te_gen e)) (tq_fetch s) xid;
                  (needs, wal) = XLogNeedsFlush (te_recovery e) commitLSN (tq_wal s); s1 = s\<lparr>tq_wal := wal\<rparr>
              in if needs then s1 else set_bits s1
         else set_bits s)"

definition HeapTupleSetHintBits :: "TqEnv \<Rightarrow> uint16 \<Rightarrow> TransactionId \<Rightarrow> TqState \<Rightarrow> TqState" where
  "HeapTupleSetHintBits e infomask xid s = SetHintBits e infomask xid s"

definition hint :: "TqEnv \<Rightarrow> uint16 \<Rightarrow> TransactionId \<Rightarrow> 'a tq \<Rightarrow> 'a tq" where
  "hint e infomask xid A = (\<lambda>s. A (SetHintBits e infomask xid s))"

section \<open>Inserters and deleters\<close>

text \<open>
  The functions agree on the inserting transaction up to the answers they give: \<open>gone\<close> if it did not
  commit, \<open>own\<close> if it is the current one, \<open>busy\<close> if it is running, and \<open>rest\<close> once it has committed.
\<close>

definition moved_off :: "TqEnv \<Rightarrow> TransactionId \<Rightarrow> 'a tq \<Rightarrow> 'a tq \<Rightarrow> 'a tq" where
  "moved_off e xvac gone rest =
     if_current e xvac gone
       (if_in_progress e xvac rest
         (if_did_commit e xvac (hint e HEAP_XMIN_INVALID InvalidTransactionId gone)
           (hint e HEAP_XMIN_COMMITTED InvalidTransactionId rest)))"

definition moved_in :: "TqEnv \<Rightarrow> TransactionId \<Rightarrow> 'a tq \<Rightarrow> 'a tq \<Rightarrow> 'a tq" where
  "moved_in e xvac gone rest =
     if_current e xvac rest
       (if_in_progress e xvac gone
         (if_did_commit e xvac (hint e HEAP_XMIN_COMMITTED InvalidTransactionId rest)
           (hint e HEAP_XMIN_INVALID InvalidTransactionId gone)))"

definition check_xmin :: "TqEnv \<Rightarrow> HeapTupleHeader \<Rightarrow> 'a tq \<Rightarrow> 'a tq \<Rightarrow> 'a tq \<Rightarrow> 'a tq \<Rightarrow> 'a tq" where
  "check_xmin e tup gone own busy rest =
     tq_if HEAP_XMIN_COMMITTED rest
       (tq_if HEAP_XMIN_INVALID gone
         (tq_if HEAP_MOVED_OFF (moved_off e (HeapTupleHeaderGetXvac tup) gone rest)
           (tq_if HEAP_MOVED_IN (moved_in e (HeapTupleHeaderGetXvac tup) gone rest)
             (if_current e (t_xmin tup) own
               (if_in_progress e (t_xmin tup) busy
                 (if_did_commit e (t_xmin tup) (hint e HEAP_XMIN_COMMITTED (t_xmin tup) rest)
                   (hint e HEAP_XMIN_INVALID InvalidTransactionId gone)))))))"

text \<open>A tuple the current transaction inserted: \<open>del\<close> if it deleted it as well.\<close>

definition own_insert :: "TqEnv \<Rightarrow> HeapTupleHeader \<Rightarrow> 'a tq \<Rightarrow> 'a tq \<Rightarrow> 'a tq" where
  "own_insert e tup ok del =
     tq_if HEAP_XMAX_INVALID ok
       (tq_if HEAP_IS_LOCKED ok
         (if_current e (t_xmax tup) del (hint e HEAP_XMAX_INVALID InvalidTransactionId ok)))"

definition check_xmax :: "TqEnv \<Rightarrow> HeapTupleHeader \<Rightarrow> 'a tq \<Rightarrow> 'a tq \<Rightarrow> 'a tq \<Rightarrow> 'a tq \<Rightarrow> 'a tq \<Rightarrow> 'a tq" where
  "check_xmax e tup ok multi del busy gone =
     tq_if HEAP_XMAX_INVALID ok
       (tq_if HEAP_XMAX_COMMITTED (tq_if HEAP_IS_LOCKED ok gone)
         (tq_if HEAP_XMAX_IS_MULTI multi
           (if_current e (t_xmax tup) (tq_if HEAP_IS_LOCKED ok del)
             (if_in_progress e (t_xmax tup) busy
               (if_did_commit e (t_xmax tup)
                 (tq_if HEAP_IS_LOCKED (hint e HEAP_XMAX_INVALID InvalidTransactionId ok)
                   (hint e HEAP_XMAX_COMMITTED (t_xmax tup) gone))
                 (hint e HEAP_XMAX_INVALID InvalidTransactionId ok))))))"

definition HeapTupleSatisfiesSelf :: "TqEnv \<Rightarrow> bool tq" where
  "HeapTupleSatisfiesSelf e = (\<lambda>s. let tup = tq_tuple s in
     (check_xmin e tup (tq_return False) (own_insert e tup (tq_return True) (tq_return False)) (tq_return False)
       (check_xmax e tup (tq_return True) (tq_return True) (tq_return False) (tq_return True) (tq_return False))) s)"

definition GetCurrentCommandId :: "Backend \<Rightarrow> CommandId" where
  "GetCurrentCommandId be = currentCommandId be"

definition HeapTupleSatisfiesNow :: "TqEnv \<Rightarrow> bool tq" where
  "HeapTupleSatisfiesNow e = (\<lambda>s. let tup = tq_tuple s in
     ((let curcid = GetCurrentCommandId (te_be e); cmax = HeapTupleHeaderGetCmax (te_combo e) tup
      in check_xmin e tup (tq_return False)
           (if HeapTupleHeaderGetCmin (te_combo e) tup \<ge> curcid then tq_return False
            else own_insert e tup (tq_return True) (tq_return (cmax \<ge> curcid)))
           (tq_return False)
           (check_xmax e tup (tq_return True) (tq_return True) (tq_return (cmax \<ge> curcid)) (tq_return True) (tq_return False)))) s)"

definition HeapTupleSatisfiesAny :: "TqEnv \<Rightarrow> bool tq" where
  "HeapTupleSatisfiesAny e = tq_return True"

definition HeapTupleSatisfiesToast :: "TqEnv \<Rightarrow> bool tq" where
  "HeapTupleSatisfiesToast e = (\<lambda>s. let tup = tq_tuple s in
     (tq_if HEAP_XMIN_COMMITTED (tq_return True)
       (tq_if HEAP_XMIN_INVALID (tq_return False)
         (tq_if HEAP_MOVED_OFF (moved_off e (HeapTupleHeaderGetXvac tup) (tq_return False) (tq_return True))
           (tq_if HEAP_MOVED_IN (moved_in e (HeapTupleHeaderGetXvac tup) (tq_return False) (tq_return True))
             (tq_return True))))) s)"

datatype HTSU_Result = HeapTupleMayBeUpdated | HeapTupleInvisible | HeapTupleSelfUpdated | HeapTupleUpdated | HeapTupleBeingUpdated

text \<open>The members of a multixact as the log of multixacts has them; whether one of them is running.\<close>

fun any_in_progress :: "TqEnv \<Rightarrow> TransactionId list \<Rightarrow> 'a tq \<Rightarrow> 'a tq \<Rightarrow> 'a tq" where
  "any_in_progress e [] A B = B"
| "any_in_progress e (x # xs) A B = if_in_progress e x A (any_in_progress e xs A B)"

definition if_multi_running :: "TqEnv \<Rightarrow> uint32 \<Rightarrow> 'a tq \<Rightarrow> 'a tq \<Rightarrow> 'a tq" where
  "if_multi_running e multi A B =
     (let members = te_multi_members e multi
      in if members = [] then B
         else if \<exists>x \<in> set members. TransactionIdIsCurrentTransactionId (be_stack (te_be e)) x then A
         else any_in_progress e members A B)"

definition HeapTupleSatisfiesUpdate :: "TqEnv \<Rightarrow> CommandId \<Rightarrow> HTSU_Result tq" where
  "HeapTupleSatisfiesUpdate e curcid = (\<lambda>s. let tup = tq_tuple s in
     ((let del = tq_return (if HeapTupleHeaderGetCmax (te_combo e) tup \<ge> curcid then HeapTupleSelfUpdated else HeapTupleInvisible);
          ok = tq_return HeapTupleMayBeUpdated
      in check_xmin e tup (tq_return HeapTupleInvisible)
           (if HeapTupleHeaderGetCmin (te_combo e) tup \<ge> curcid then tq_return HeapTupleInvisible else own_insert e tup ok del)
           (tq_return HeapTupleInvisible)
           (check_xmax e tup ok
             (if_multi_running e (t_xmax tup) (tq_return HeapTupleBeingUpdated) (hint e HEAP_XMAX_INVALID InvalidTransactionId ok))
             del (tq_return HeapTupleBeingUpdated) (tq_return HeapTupleUpdated)))) s)"

text \<open>The answer comes with the running inserter and deleter, stored in the snapshot.\<close>

definition HeapTupleSatisfiesDirty :: "TqEnv \<Rightarrow> (bool \<times> TransactionId \<times> TransactionId) tq" where
  "HeapTupleSatisfiesDirty e = (\<lambda>s. let tup = tq_tuple s in
     ((let no = InvalidTransactionId; yes = tq_return (True, no, no); nay = tq_return (False, no, no)
      in check_xmin e tup nay (own_insert e tup yes nay) (tq_return (True, t_xmin tup, no))
           (check_xmax e tup yes yes nay (tq_return (True, no, t_xmax tup)) nay))) s)"

section \<open>Snapshots\<close>

definition XidInMVCCSnapshot :: "SubTransData \<Rightarrow> TransactionId \<Rightarrow> TransactionId \<Rightarrow> SnapshotData \<Rightarrow> bool option" where
  "XidInMVCCSnapshot sub TransactionXmin xid snapshot =
     (if TransactionIdPrecedes xid (sn_xmin snapshot) then Some False
      else if TransactionIdFollowsOrEquals xid (sn_xmax snapshot) then Some True
      else if \<not> sn_takenDuringRecovery snapshot
      then if \<not> sn_suboverflowed snapshot
           then Some (xid \<in> set (sn_subxip snapshot) \<or> xid \<in> set (sn_xip snapshot))
           else case SubTransGetTopmostTransaction sub TransactionXmin xid of
                  None \<Rightarrow> None
                | Some topxid \<Rightarrow> if TransactionIdPrecedes topxid (sn_xmin snapshot) then Some False else Some (topxid \<in> set (sn_xip snapshot))
      else if sn_suboverflowed snapshot
      then case SubTransGetTopmostTransaction sub TransactionXmin xid of
             None \<Rightarrow> None
           | Some topxid \<Rightarrow> if TransactionIdPrecedes topxid (sn_xmin snapshot) then Some False else Some (topxid \<in> set (sn_subxip snapshot))
      else Some (xid \<in> set (sn_subxip snapshot)))"

definition if_in_snapshot :: "TqEnv \<Rightarrow> SnapshotData \<Rightarrow> TransactionId \<Rightarrow> 'a tq \<Rightarrow> 'a tq \<Rightarrow> 'a tq" where
  "if_in_snapshot e snapshot xid A B = (\<lambda>s. case XidInMVCCSnapshot (xg_sub (te_gen e)) (be_TransactionXmin (te_be e)) xid snapshot of
     None \<Rightarrow> None | Some b \<Rightarrow> if b then A s else B s)"

definition HeapTupleSatisfiesMVCC :: "TqEnv \<Rightarrow> SnapshotData \<Rightarrow> bool tq" where
  "HeapTupleSatisfiesMVCC e snapshot = (\<lambda>s. let tup = tq_tuple s in
     ((let curcid = sn_curcid snapshot; del = tq_return (HeapTupleHeaderGetCmax (te_combo e) tup \<ge> curcid);
          deleted = if_in_snapshot e snapshot (t_xmax tup) (tq_return True) (tq_return False)
      in check_xmin e tup (tq_return False)
           (if HeapTupleHeaderGetCmin (te_combo e) tup \<ge> curcid then tq_return False else own_insert e tup (tq_return True) del)
           (tq_return False)
           (if_in_snapshot e snapshot (t_xmin tup) (tq_return False)
             (tq_if HEAP_XMAX_INVALID (tq_return True)
               (tq_if HEAP_IS_LOCKED (tq_return True)
                 (tq_if HEAP_XMAX_IS_MULTI (tq_return True)
                   (tq_if HEAP_XMAX_COMMITTED deleted
                     (if_current e (t_xmax tup) del
                       (if_in_progress e (t_xmax tup) (tq_return True)
                         (if_did_commit e (t_xmax tup) (hint e HEAP_XMAX_COMMITTED (t_xmax tup) deleted)
                           (hint e HEAP_XMAX_INVALID InvalidTransactionId (tq_return True)))))))))))) s)"

section \<open>Vacuum\<close>

datatype HTSV_Result = HEAPTUPLE_DEAD | HEAPTUPLE_LIVE | HEAPTUPLE_RECENTLY_DEAD | HEAPTUPLE_INSERT_IN_PROGRESS | HEAPTUPLE_DELETE_IN_PROGRESS

definition vacuum_xmin :: "TqEnv \<Rightarrow> HeapTupleHeader \<Rightarrow> HTSV_Result tq \<Rightarrow> HTSV_Result tq" where
  "vacuum_xmin e tup rest =
     (let xvac = HeapTupleHeaderGetXvac tup; dead = tq_return HEAPTUPLE_DEAD;
          deleting = tq_return HEAPTUPLE_DELETE_IN_PROGRESS; inserting = tq_return HEAPTUPLE_INSERT_IN_PROGRESS
      in tq_if HEAP_XMIN_COMMITTED rest
           (tq_if HEAP_XMIN_INVALID dead
             (tq_if HEAP_MOVED_OFF
               (if_current e xvac deleting
                 (if_in_progress e xvac deleting
                   (if_did_commit e xvac (hint e HEAP_XMIN_INVALID InvalidTransactionId dead)
                     (hint e HEAP_XMIN_COMMITTED InvalidTransactionId rest))))
               (tq_if HEAP_MOVED_IN
                 (if_current e xvac inserting
                   (if_in_progress e xvac inserting
                     (if_did_commit e xvac (hint e HEAP_XMIN_COMMITTED InvalidTransactionId rest)
                       (hint e HEAP_XMIN_INVALID InvalidTransactionId dead))))
                 (if_in_progress e (t_xmin tup)
                   (tq_if HEAP_XMAX_INVALID inserting (tq_if HEAP_IS_LOCKED inserting deleting))
                   (if_did_commit e (t_xmin tup) (hint e HEAP_XMIN_COMMITTED (t_xmin tup) rest)
                     (hint e HEAP_XMIN_INVALID InvalidTransactionId dead)))))))"

definition HeapTupleSatisfiesVacuum :: "TqEnv \<Rightarrow> TransactionId \<Rightarrow> HTSV_Result tq" where
  "HeapTupleSatisfiesVacuum e OldestXmin = (\<lambda>s. let tup = tq_tuple s in
     ((let live = tq_return HEAPTUPLE_LIVE; unlock = hint e HEAP_XMAX_INVALID InvalidTransactionId live;
          deleted = tq_return (if \<not> TransactionIdPrecedes (t_xmax tup) OldestXmin then HEAPTUPLE_RECENTLY_DEAD else HEAPTUPLE_DEAD)
      in vacuum_xmin e tup
           (tq_if HEAP_XMAX_INVALID live
             (tq_if HEAP_IS_LOCKED
               (tq_if HEAP_XMAX_COMMITTED live
                 (tq_if HEAP_XMAX_IS_MULTI (if_multi_running e (t_xmax tup) live unlock) (if_in_progress e (t_xmax tup) live unlock)))
               (tq_if HEAP_XMAX_IS_MULTI live
                 (tq_if HEAP_XMAX_COMMITTED deleted
                   (if_in_progress e (t_xmax tup) (tq_return HEAPTUPLE_DELETE_IN_PROGRESS)
                     (if_did_commit e (t_xmax tup) (hint e HEAP_XMAX_COMMITTED (t_xmax tup) deleted)
                       (hint e HEAP_XMAX_INVALID InvalidTransactionId live))))))))) s)"

end
