(* ===== verification/Visibility.thy ===== *)
theory Visibility
  imports Tqual
begin

text \<open>
  What snapshots and tuple visibility guarantee.  The processes of a server run as a transition system over the functions of
  \<^verbatim>\<open>procarray.c\<close>, \<^verbatim>\<open>varsup.c\<close> and the logs; the state also records which subtransactions of
  a process are running and which transactions have aborted.
\<close>

section \<open>A running server\<close>

record Running =
  ru_gen :: XidGen
  ru_array :: ProcArrayStruct
  ru_live :: "nat \<Rightarrow> TransactionId set"
  ru_aborted :: "TransactionId set"

definition ru_proc :: "Running \<Rightarrow> nat \<Rightarrow> PGPROC" where
  "ru_proc S i = xg_procs (ru_gen S) i"

definition ru_procs :: "Running \<Rightarrow> nat set" where
  "ru_procs S = set (pa_procs (ru_array S))"

definition ru_next :: "Running \<Rightarrow> TransactionId" where
  "ru_next S = vc_nextXid (xg_cache (ru_gen S))"

definition ru_latest :: "Running \<Rightarrow> TransactionId" where
  "ru_latest S = vc_latestCompletedXid (xg_cache (ru_gen S))"

definition ru_parent :: "Running \<Rightarrow> TransactionId \<Rightarrow> TransactionId" where
  "ru_parent S x = SubTransGetParent (xg_sub (ru_gen S)) x"

definition ru_status :: "Running \<Rightarrow> TransactionId \<Rightarrow> XidStatus" where
  "ru_status S x = clog_status (xg_clog (ru_gen S)) x"

text \<open>The transactions of a process; all that are running; all that have an identifier; the committed ones.\<close>

definition xact_of :: "Running \<Rightarrow> nat \<Rightarrow> TransactionId set" where
  "xact_of S i = (if TransactionIdIsValid (p_xid (ru_proc S i)) then insert (p_xid (ru_proc S i)) (ru_live S i) else {})"

definition running :: "Running \<Rightarrow> TransactionId set" where
  "running S = (\<Union>i \<in> ru_procs S. xact_of S i)"

definition assigned :: "TransactionId \<Rightarrow> Running \<Rightarrow> TransactionId \<Rightarrow> bool" where
  "assigned base S x \<longleftrightarrow> in_window base x \<and> xid_age base x < xid_age base (ru_next S)"

definition committed :: "TransactionId \<Rightarrow> Running \<Rightarrow> TransactionId set" where
  "committed base S = {x. assigned base S x \<and> x \<notin> running S \<and> x \<notin> ru_aborted S}"

definition not_committed_status :: "XidStatus \<Rightarrow> bool" where
  "not_committed_status st \<longleftrightarrow> st \<noteq> TRANSACTION_STATUS_COMMITTED \<and> st \<noteq> TRANSACTION_STATUS_SUB_COMMITTED"

inductive run_step :: "TransactionId \<Rightarrow> Running \<Rightarrow> Running \<Rightarrow> bool" for base where
  add: "ProcArrayAdd i (ru_array S) = Inr pa \<Longrightarrow> i \<notin> ru_procs S \<Longrightarrow> proc_wf base (ru_proc S i)
    \<Longrightarrow> \<not> TransactionIdIsValid (p_xid (ru_proc S i)) \<Longrightarrow> ru_live S i = {} \<Longrightarrow> run_step base S (S\<lparr>ru_array := pa\<rparr>)"
| remove: "i \<in> ru_procs S \<Longrightarrow> \<not> TransactionIdIsValid (p_xid (ru_proc S i))
    \<Longrightarrow> ProcArrayRemove i InvalidTransactionId (xg_cache (ru_gen S), ru_array S) = (vc, pa)
    \<Longrightarrow> run_step base S (S\<lparr>ru_gen := (ru_gen S)\<lparr>xg_cache := vc\<rparr>, ru_array := pa\<rparr>)"
| assign_top: "i \<in> ru_procs S \<Longrightarrow> \<not> TransactionIdIsValid (p_xid (ru_proc S i)) \<Longrightarrow> assign_xid False i (ru_gen S) = (xid, g)
    \<Longrightarrow> in_window base (vc_nextXid (xg_cache g)) \<Longrightarrow> run_step base S (S\<lparr>ru_gen := g\<rparr>)"
| assign_sub: "i \<in> ru_procs S \<Longrightarrow> parent \<in> xact_of S i \<Longrightarrow> assign_xid True i (ru_gen S) = (xid, g)
    \<Longrightarrow> in_window base (vc_nextXid (xg_cache g))
    \<Longrightarrow> run_step base S (S\<lparr>ru_gen := g\<lparr>xg_sub := SubTransSetParent xid parent (xg_sub g)\<rparr>,
                             ru_live := (ru_live S)(i := insert xid (ru_live S i))\<rparr>)"
| report: "i \<in> ru_procs S \<Longrightarrow> clog_wf clog \<Longrightarrow> \<forall>x. x \<notin> xact_of S i \<longrightarrow> clog_status clog x = ru_status S x
    \<Longrightarrow> run_step base S (S\<lparr>ru_gen := (ru_gen S)\<lparr>xg_clog := clog\<rparr>\<rparr>)"
| commit: "i \<in> ru_procs S \<Longrightarrow> TransactionIdIsValid (p_xid (ru_proc S i)) \<Longrightarrow> set children = ru_live S i
    \<Longrightarrow> \<forall>x \<in> xact_of S i. ru_status S x = TRANSACTION_STATUS_COMMITTED
    \<Longrightarrow> run_step base S (S\<lparr>ru_gen := ProcArrayEndTransaction i (TransactionIdLatest (p_xid (ru_proc S i)) children) (ru_gen S),
                             ru_live := (ru_live S)(i := {})\<rparr>)"
| abort: "i \<in> ru_procs S \<Longrightarrow> TransactionIdIsValid (p_xid (ru_proc S i)) \<Longrightarrow> set children = ru_live S i
    \<Longrightarrow> \<forall>x \<in> xact_of S i. not_committed_status (ru_status S x)
    \<Longrightarrow> run_step base S (S\<lparr>ru_gen := ProcArrayEndTransaction i (TransactionIdLatest (p_xid (ru_proc S i)) children) (ru_gen S),
                             ru_live := (ru_live S)(i := {}), ru_aborted := ru_aborted S \<union> xact_of S i\<rparr>)"
| finish: "i \<in> ru_procs S \<Longrightarrow> \<not> TransactionIdIsValid (p_xid (ru_proc S i))
    \<Longrightarrow> run_step base S (S\<lparr>ru_gen := ProcArrayEndTransaction i InvalidTransactionId (ru_gen S)\<rparr>)"
| subabort: "i \<in> ru_procs S \<Longrightarrow> insert xid (set xids) \<subseteq> ru_live S i
    \<Longrightarrow> \<forall>y \<in> ru_live S i. ru_parent S y \<in> insert xid (set xids) \<longrightarrow> y \<in> insert xid (set xids)
    \<Longrightarrow> \<forall>x \<in> insert xid (set xids). not_committed_status (ru_status S x)
    \<Longrightarrow> run_step base S (S\<lparr>ru_gen := XidCacheRemoveRunningXids i xid xids (TransactionIdLatest xid xids) (ru_gen S),
                             ru_live := (ru_live S)(i := ru_live S i - insert xid (set xids)),
                             ru_aborted := ru_aborted S \<union> insert xid (set xids)\<rparr>)"
| snapshot: "MyProc be \<in> ru_procs S \<Longrightarrow> GetSnapshotData False (xg_procs (ru_gen S)) be (ru_gen S) (ru_array S) = (sn, be', g)
    \<Longrightarrow> run_step base S (S\<lparr>ru_gen := g\<rparr>)"
| announce: "i \<in> ru_procs S \<Longrightarrow> run_step base S (S\<lparr>ru_gen := (ru_gen S)\<lparr>xg_procs :=
      (xg_procs (ru_gen S))(i := (ru_proc S i)\<lparr>p_lxid := lxid, p_inCommit := inCommit\<rparr>)\<rparr>\<rparr>)"

text \<open>The invariant, by process and for the server.\<close>

definition proc_inv :: "TransactionId \<Rightarrow> Running \<Rightarrow> nat \<Rightarrow> bool" where
  "proc_inv base S i \<longleftrightarrow>
     proc_wf base (ru_proc S i) \<and> distinct (cached_xids (ru_proc S i)) \<and> set (cached_xids (ru_proc S i)) \<subseteq> ru_live S i
   \<and> (xc_overflowed (p_subxids (ru_proc S i)) \<or> ru_live S i \<subseteq> set (cached_xids (ru_proc S i)))
   \<and> (if TransactionIdIsValid (p_xid (ru_proc S i))
      then assigned base S (p_xid (ru_proc S i)) \<and> ru_parent S (p_xid (ru_proc S i)) = InvalidTransactionId
           \<and> (\<forall>x \<in> ru_live S i. assigned base S x \<and> xid_age base (p_xid (ru_proc S i)) < xid_age base x
                \<and> ru_parent S x \<in> xact_of S i \<and> xid_age base (ru_parent S x) < xid_age base x)
      else ru_live S i = {})"

definition logs_inv :: "TransactionId \<Rightarrow> Running \<Rightarrow> bool" where
  "logs_inv base S \<longleftrightarrow>
     TransactionIdIsNormal base \<and> in_window base (ru_next S) \<and> logs_ready (ru_gen S)
   \<and> (\<forall>x. TransactionIdIsNormal x \<longrightarrow> ru_parent S x = InvalidTransactionId \<or> TransactionIdPrecedes (ru_parent S x) x)
   \<and> (\<forall>x \<in> committed base S. ru_status S x = TRANSACTION_STATUS_COMMITTED
        \<and> (ru_parent S x = InvalidTransactionId \<or> ru_parent S x \<in> committed base S))
   \<and> (\<forall>x \<in> ru_aborted S. assigned base S x \<and> x \<notin> running S \<and> not_committed_status (ru_status S x))"

definition array_inv :: "TransactionId \<Rightarrow> Running \<Rightarrow> bool" where
  "array_inv base S \<longleftrightarrow>
     distinct (pa_procs (ru_array S)) \<and> length (pa_procs (ru_array S)) \<le> pa_maxProcs (ru_array S)
   \<and> in_window base (ru_latest S) \<and> xid_age base (ru_latest S) < xid_age base (ru_next S)
   \<and> (\<forall>i \<in> ru_procs S. proc_inv base S i)
   \<and> (\<forall>i \<in> ru_procs S. \<forall>j \<in> ru_procs S. i \<noteq> j \<longrightarrow> xact_of S i \<inter> xact_of S j = {})
   \<and> (\<forall>x. assigned base S x \<and> xid_age base (ru_latest S) < xid_age base x \<longrightarrow> x \<in> running S)"

definition run_inv :: "TransactionId \<Rightarrow> Running \<Rightarrow> bool" where
  "run_inv base S \<longleftrightarrow> logs_inv base S \<and> array_inv base S"

lemmas ru_defs = ru_proc_def ru_procs_def ru_next_def ru_latest_def ru_parent_def ru_status_def

section \<open>Every step keeps the invariant\<close>

lemma set_last_butlast: "ps \<noteq> [] \<Longrightarrow> insert (last ps) (set (butlast ps)) = set ps"
  by (metis append_butlast_last_id list.set(2) rotate1.simps(2) set_rotate1)

lemma remove_proc_spec:
  "distinct ps \<Longrightarrow> set (remove_proc i ps) = set ps - {i} \<and> distinct (remove_proc i ps) \<and> length (remove_proc i ps) \<le> length ps"
proof (induction ps)
  case (Cons p ps)
  have "distinct (last ps # butlast ps)" if "ps \<noteq> []"
    using that Cons.prems by (metis append_butlast_last_id distinct.simps(2) distinct1_rotate rotate1.simps(2))
  then show ?case using Cons set_last_butlast [of ps] by auto
qed simp

lemma run_inv_procs: "run_inv base S \<Longrightarrow> i \<in> ru_procs S \<Longrightarrow> proc_inv base S i"
  by (simp add: run_inv_def array_inv_def)

lemma run_inv_array: "run_inv base S \<Longrightarrow> distinct (pa_procs (ru_array S)) \<and> length (pa_procs (ru_array S)) \<le> pa_maxProcs (ru_array S)"
  by (simp add: run_inv_def array_inv_def)

lemma proc_inv_wf: "proc_inv base S i \<Longrightarrow> proc_wf base (ru_proc S i)"
  by (simp add: proc_inv_def)

lemma xact_of_valid: "x \<in> xact_of S i \<Longrightarrow> TransactionIdIsValid (p_xid (ru_proc S i))"
  by (simp add: xact_of_def split: if_splits)

lemma xact_of_facts:
  assumes "proc_inv base S i" "x \<in> xact_of S i"
  shows "assigned base S x" "xid_age base (p_xid (ru_proc S i)) \<le> xid_age base x"
  using assms by (auto simp: proc_inv_def xact_of_def split: if_splits)

lemma running_assigned: "run_inv base S \<Longrightarrow> x \<in> running S \<Longrightarrow> assigned base S x"
  using xact_of_facts(1) run_inv_procs by (fastforce simp: running_def)

text \<open>A process that keeps its transactions keeps its part of the invariant.\<close>

lemma proc_inv_mono:
  assumes "proc_inv base S i" "ru_live S' i = ru_live S i" "proc_wf base (ru_proc S' i)"
    and "p_xid (ru_proc S' i) = p_xid (ru_proc S i)" "p_subxids (ru_proc S' i) = p_subxids (ru_proc S i)"
    and "\<And>x. assigned base S x \<Longrightarrow> assigned base S' x \<and> ru_parent S' x = ru_parent S x"
  shows "proc_inv base S' i" "xact_of S' i = xact_of S i"
proof -
  show x: "xact_of S' i = xact_of S i" using assms(2,4) by (simp add: xact_of_def)
  have "cached_xids (ru_proc S' i) = cached_xids (ru_proc S i)" using assms(5) by (simp add: cached_xids_def)
  then show "proc_inv base S' i" using assms x unfolding proc_inv_def by auto
qed

lemma proc_inv_same:
  assumes "proc_inv base S i" "ru_live S' i = ru_live S i" "ru_proc S' i = ru_proc S i" "ru_next S' = ru_next S" "ru_parent S' = ru_parent S"
  shows "proc_inv base S' i"
  by (rule proc_inv_mono(1) [OF assms(1,2)]) (use assms proc_inv_wf [OF assms(1)] in \<open>simp_all add: assigned_def\<close>)

lemma run_inv_frame:
  assumes "run_inv base S" "ru_next S' = ru_next S" "ru_latest S' = ru_latest S" "\<And>x. ru_parent S' x = ru_parent S x"
    and "logs_ready (ru_gen S')" "ru_aborted S' = ru_aborted S"
    and "distinct (pa_procs (ru_array S'))" "length (pa_procs (ru_array S')) \<le> pa_maxProcs (ru_array S')"
    and "\<And>i. i \<in> ru_procs S' \<Longrightarrow> proc_inv base S' i"
    and "\<And>i. i \<in> ru_procs S' \<Longrightarrow> i \<notin> ru_procs S \<Longrightarrow> xact_of S' i = {}"
    and "\<And>i. i \<in> ru_procs S \<Longrightarrow> i \<notin> ru_procs S' \<Longrightarrow> xact_of S i = {}"
    and "\<And>i. i \<in> ru_procs S \<Longrightarrow> i \<in> ru_procs S' \<Longrightarrow> xact_of S' i = xact_of S i"
    and "\<And>x. x \<notin> running S \<Longrightarrow> ru_status S' x = ru_status S x"
  shows "run_inv base S' \<and> running S' = running S \<and> committed base S' = committed base S"
proof -
  have run: "running S' = running S"
  proof
    show "running S' \<subseteq> running S" using assms(10,12) by (fastforce simp: running_def)
    show "running S \<subseteq> running S'" using assms(11,12) by (fastforce simp: running_def)
  qed
  have as: "assigned base S' x \<longleftrightarrow> assigned base S x" for x by (simp add: assigned_def assms(2))
  have com: "committed base S' = committed base S" by (simp add: committed_def as run assms(6))
  have "logs_inv base S'"
    unfolding logs_inv_def com assms(2,4,6) run as
  proof (intro conjI ballI allI impI)
    show "TransactionIdIsNormal base" "in_window base (ru_next S)" using assms(1) by (simp_all add: run_inv_def logs_inv_def)
    show "logs_ready (ru_gen S')" by (rule assms(5))
    show "ru_parent S x = InvalidTransactionId \<or> TransactionIdPrecedes (ru_parent S x) x" if "TransactionIdIsNormal x" for x
      using assms(1) that by (simp add: run_inv_def logs_inv_def)
    show "ru_status S' x = TRANSACTION_STATUS_COMMITTED" "ru_parent S x = InvalidTransactionId \<or> ru_parent S x \<in> committed base S"
      if "x \<in> committed base S" for x
      using assms(1) that assms(13) [of x] by (auto simp: run_inv_def logs_inv_def committed_def)
    show "assigned base S x" "x \<notin> running S" "not_committed_status (ru_status S' x)" if "x \<in> ru_aborted S" for x
      using assms(1) that assms(13) [of x] by (auto simp: run_inv_def logs_inv_def)
  qed
  moreover have "array_inv base S'"
    unfolding array_inv_def assms(2,3) run as
  proof (intro conjI ballI allI impI)
    show "distinct (pa_procs (ru_array S'))" "length (pa_procs (ru_array S')) \<le> pa_maxProcs (ru_array S')" by (rule assms(7), rule assms(8))
    show "in_window base (ru_latest S)" "xid_age base (ru_latest S) < xid_age base (ru_next S)"
      using assms(1) by (simp_all add: run_inv_def array_inv_def)
    show "proc_inv base S' i" if "i \<in> ru_procs S'" for i by (rule assms(9) [OF that])
    show "xact_of S' i \<inter> xact_of S' j = {}" if "i \<in> ru_procs S'" "j \<in> ru_procs S'" "i \<noteq> j" for i j
    proof (cases "i \<in> ru_procs S \<and> j \<in> ru_procs S")
      case True
      then show ?thesis using assms(1,12) that by (simp add: run_inv_def array_inv_def)
    qed (use assms(10) that in auto)
    show "x \<in> running S" if "assigned base S x \<and> xid_age base (ru_latest S) < xid_age base x" for x
      using assms(1) that by (simp add: run_inv_def array_inv_def)
  qed
  ultimately show ?thesis using run com by (simp add: run_inv_def)
qed

lemma same_page_age:
  assumes "unat x div k = unat y div k" "x \<le> y" "xid_age base x < 2 ^ 31" "0 < k" "k \<le> 2 ^ 31"
  shows "xid_age base x \<le> xid_age base y"
proof -
  have "unat y < unat x + k"
  proof -
    have "unat y = unat x div k * k + unat y mod k" "unat y mod k < k" using assms(1,4) by simp_all
    moreover have "unat x div k * k \<le> unat x" by simp
    ultimately show ?thesis by linarith
  qed
  moreover have "unat x \<le> unat y" using assms(2) by (simp add: word_le_nat_alt)
  ultimately show ?thesis
    using assms(3,5) unat_less_32 [of base] unat_less_32 [of y] by (auto simp: xid_age_unat split: if_splits)
qed

lemma logs_ready_report:
  assumes "logs_ready g" "in_window base (vc_nextXid (xg_cache g))" "clog_wf clog"
    and "\<And>x. xid_age base (vc_nextXid (xg_cache g)) \<le> xid_age base x \<Longrightarrow> clog_status clog x = clog_status (xg_clog g) x"
  shows "logs_ready (g\<lparr>xg_clog := clog\<rparr>)"
proof -
  let ?n = "vc_nextXid (xg_cache g)"
  have "clog_status clog y = clog_status (xg_clog g) y" if "TransactionIdToPage y = TransactionIdToPage ?n" "?n \<le> y" for y
    using that same_page_age [of ?n 32768 y base] assms(2) by (intro assms(4)) (simp add: clog_page_div in_window_def)
  then show ?thesis using assms(1,3) by (simp add: logs_ready_def Let_def)
qed

lemma run_inv_add:
  assumes "run_inv base S" "ProcArrayAdd i (ru_array S) = Inr pa" "i \<notin> ru_procs S" "proc_wf base (ru_proc S i)"
    and "\<not> TransactionIdIsValid (p_xid (ru_proc S i))" "ru_live S i = {}"
  defines "S' \<equiv> S\<lparr>ru_array := pa\<rparr>"
  shows "run_inv base S' \<and> running S' = running S \<and> committed base S' = committed base S"
proof (rule run_inv_frame [OF assms(1)])
  have pa: "pa = (ru_array S)\<lparr>pa_procs := pa_procs (ru_array S) @ [i]\<rparr>" "length (pa_procs (ru_array S)) < pa_maxProcs (ru_array S)"
    using assms(2) by (auto simp: ProcArrayAdd_def split: if_splits)
  show "distinct (pa_procs (ru_array S'))" "length (pa_procs (ru_array S')) \<le> pa_maxProcs (ru_array S')"
    using assms(1,3) pa by (simp_all add: S'_def run_inv_def array_inv_def ru_procs_def)
  have procs: "ru_procs S' = insert i (ru_procs S)" by (simp add: S'_def ru_procs_def pa(1))
  have same: "ru_proc S' = ru_proc S" "ru_live S' = ru_live S" "xact_of S' = xact_of S" by (simp_all add: S'_def ru_proc_def xact_of_def fun_eq_iff)
  have x: "xact_of S i = {}" using assms(5) by (simp add: xact_of_def)
  show "proc_inv base S' j" if "j \<in> ru_procs S'" for j
  proof (cases "j = i")
    case True
    moreover have "cached_xids (ru_proc S i) = []" using proc_wf_no_cached assms(4,5) by blast
    ultimately show ?thesis using assms(4-6) by (simp add: proc_inv_def same)
  next
    case False
    then have "proc_inv base S j" using that assms(1) run_inv_procs by (simp add: procs)
    then show ?thesis by (rule proc_inv_same) (simp_all add: same, simp_all add: S'_def ru_next_def ru_parent_def fun_eq_iff)
  qed
  show "xact_of S' j = {}" if "j \<in> ru_procs S'" "j \<notin> ru_procs S" for j using that x by (simp add: procs same)
  show "xact_of S j = {}" if "j \<in> ru_procs S" "j \<notin> ru_procs S'" for j using that by (simp add: procs)
  show "logs_ready (ru_gen S')" using assms(1) by (simp add: S'_def run_inv_def logs_inv_def)
qed (simp_all add: S'_def ru_defs xact_of_def)

lemma run_inv_remove:
  assumes "run_inv base S" "i \<in> ru_procs S" "\<not> TransactionIdIsValid (p_xid (ru_proc S i))"
    and "ProcArrayRemove i InvalidTransactionId (xg_cache (ru_gen S), ru_array S) = (vc, pa)"
  defines "S' \<equiv> S\<lparr>ru_gen := (ru_gen S)\<lparr>xg_cache := vc\<rparr>, ru_array := pa\<rparr>"
  shows "run_inv base S' \<and> running S' = running S \<and> committed base S' = committed base S"
proof -
  have vc: "vc = xg_cache (ru_gen S)" and pa: "pa = (ru_array S)\<lparr>pa_procs := remove_proc i (pa_procs (ru_array S))\<rparr>"
    using assms(4) by (auto simp: ProcArrayRemove_def valid_not_0 InvalidTransactionId_def)
  have d: "distinct (pa_procs (ru_array S))" "length (pa_procs (ru_array S)) \<le> pa_maxProcs (ru_array S)"
    using assms(1) by (simp_all add: run_inv_def array_inv_def)
  have same: "ru_proc S' = ru_proc S" "ru_live S' = ru_live S" "xact_of S' = xact_of S" "ru_gen S' = ru_gen S" "ru_aborted S' = ru_aborted S"
    by (simp_all add: S'_def ru_proc_def xact_of_def fun_eq_iff vc)
  have procs: "ru_procs S' = ru_procs S - {i}" using remove_proc_spec [OF d(1)] by (simp add: S'_def ru_procs_def pa)
  show ?thesis
  proof (rule run_inv_frame [OF assms(1)])
    show "distinct (pa_procs (ru_array S'))" "length (pa_procs (ru_array S')) \<le> pa_maxProcs (ru_array S')"
      using remove_proc_spec [OF d(1), of i] d(2) by (simp_all add: S'_def pa)
    show "proc_inv base S' j" if "j \<in> ru_procs S'" for j
      by (rule proc_inv_same [OF run_inv_procs [OF assms(1), of j]]) (use that procs in \<open>simp_all add: same ru_next_def ru_parent_def fun_eq_iff\<close>)
    show "xact_of S j = {}" if "j \<in> ru_procs S" "j \<notin> ru_procs S'" for j
      using that procs assms(3) by (auto simp: xact_of_def)
    show "logs_ready (ru_gen S')" using assms(1) by (simp add: same run_inv_def logs_inv_def)
  qed (use procs in \<open>simp_all add: same ru_next_def ru_latest_def ru_parent_def ru_status_def\<close>)
qed

lemma run_inv_report:
  assumes "run_inv base S" "i \<in> ru_procs S" "clog_wf clog" "\<forall>x. x \<notin> xact_of S i \<longrightarrow> clog_status clog x = ru_status S x"
  defines "S' \<equiv> S\<lparr>ru_gen := (ru_gen S)\<lparr>xg_clog := clog\<rparr>\<rparr>"
  shows "run_inv base S' \<and> running S' = running S \<and> committed base S' = committed base S"
proof (rule run_inv_frame [OF assms(1)])
  have same: "ru_proc S' = ru_proc S" "ru_live S' = ru_live S" "xact_of S' = xact_of S" "ru_procs S' = ru_procs S"
    by (simp_all add: S'_def ru_proc_def xact_of_def fun_eq_iff ru_procs_def)
  show "proc_inv base S' j" if "j \<in> ru_procs S'" for j
    by (rule proc_inv_same [OF run_inv_procs [OF assms(1), of j]]) (use that in \<open>simp_all add: same\<close>, simp_all add: S'_def ru_next_def ru_parent_def fun_eq_iff)
  show "xact_of S' j = xact_of S j" for j by (simp add: same)
  show "ru_status S' x = ru_status S x" if "x \<notin> running S" for x
    using that assms(2,4) by (simp add: S'_def ru_status_def running_def)
  show "logs_ready (ru_gen S')"
  proof -
    have "clog_status clog x = clog_status (xg_clog (ru_gen S)) x" if "xid_age base (vc_nextXid (xg_cache (ru_gen S))) \<le> xid_age base x" for x
    proof -
      have "x \<notin> xact_of S i" using that xact_of_facts(1) [OF run_inv_procs [OF assms(1,2)], of x] by (auto simp: assigned_def ru_next_def)
      then show ?thesis using assms(4) by (simp add: ru_status_def)
    qed
    then show ?thesis
      using logs_ready_report [of "ru_gen S" base clog] assms(1,3) by (simp add: S'_def run_inv_def logs_inv_def ru_next_def)
  qed
qed (use run_inv_array [OF assms(1)] in \<open>simp_all add: S'_def ru_defs\<close>)

text \<open>A step that changes at most what a process shows besides its identifiers.\<close>

lemma run_inv_same_xids:
  assumes "run_inv base S" "proc_wf base p"
    and "p_xid p = p_xid (ru_proc S i)" "p_subxids p = p_subxids (ru_proc S i)"
  defines "S' \<equiv> S\<lparr>ru_gen := (ru_gen S)\<lparr>xg_procs := (xg_procs (ru_gen S))(i := p)\<rparr>\<rparr>"
  shows "run_inv base S' \<and> running S' = running S \<and> committed base S' = committed base S"
proof (rule run_inv_frame [OF assms(1)])
  have pr: "ru_proc S' j = (if j = i then p else ru_proc S j)" for j by (simp add: S'_def ru_proc_def)
  have same: "ru_live S' = ru_live S" "ru_procs S' = ru_procs S" by (simp_all add: S'_def ru_procs_def)
  have parts: "proc_inv base S' j \<and> xact_of S' j = xact_of S j" if "j \<in> ru_procs S'" for j
  proof -
    have j: "proc_inv base S j" using that run_inv_procs [OF assms(1)] by (simp add: same)
    have "ru_next S' = ru_next S" "ru_parent S' = ru_parent S" by (simp_all add: S'_def ru_next_def ru_parent_def fun_eq_iff)
    then show ?thesis
      using proc_inv_mono [OF j, of S'] assms(2-4) proc_inv_wf [OF j] by (simp add: same pr assigned_def)
  qed
  then show "proc_inv base S' j" if "j \<in> ru_procs S'" for j using that by blast
  show "xact_of S' j = xact_of S j" if "j \<in> ru_procs S'" for j using that parts by blast
  show "logs_ready (ru_gen S')" using assms(1) by (simp add: S'_def run_inv_def logs_inv_def logs_ready_def Let_def)
qed (use run_inv_array [OF assms(1)] in \<open>simp_all add: S'_def ru_defs\<close>)

lemma run_inv_finish:
  assumes "run_inv base S" "i \<in> ru_procs S" "\<not> TransactionIdIsValid (p_xid (ru_proc S i))"
  defines "S' \<equiv> S\<lparr>ru_gen := ProcArrayEndTransaction i InvalidTransactionId (ru_gen S)\<rparr>"
  shows "run_inv base S' \<and> running S' = running S \<and> committed base S' = committed base S"
proof -
  have "proc_wf base (clear_transaction (ru_proc S i))"
    using proc_inv_wf [OF run_inv_procs [OF assms(1,2)]]
    by (simp add: proc_wf_def clear_transaction_def cached_xids_def valid_not_0 InvalidTransactionId_def)
  then show ?thesis
    using run_inv_same_xids [OF assms(1), of "clear_transaction (ru_proc S i)" i]
    by (simp add: S'_def ProcArrayEndTransaction_def valid_not_0 InvalidTransactionId_def clear_transaction_def ru_proc_def)
qed

lemma Advance_latest_window:
  assumes "run_inv base S"
  shows "in_window base (TransactionIdAdvance (ru_latest S))"
    "xid_age base (TransactionIdAdvance (ru_latest S)) \<le> xid_age base (ru_next S)"
proof -
  have a: "TransactionIdIsNormal base" "in_window base (ru_latest S)" "in_window base (ru_next S)"
    "xid_age base (ru_latest S) < xid_age base (ru_next S)"
    using assms by (simp_all add: run_inv_def logs_inv_def array_inv_def)
  show le: "xid_age base (TransactionIdAdvance (ru_latest S)) \<le> xid_age base (ru_next S)"
    using age_less_Advance(2) [OF a(1-3)] a(4) by simp
  then show "in_window base (TransactionIdAdvance (ru_latest S))" using a(3) by (simp add: in_window_def)
qed

lemma run_inv_snapshot:
  assumes "run_inv base S" "MyProc be \<in> ru_procs S" "GetSnapshotData False seen be (ru_gen S) (ru_array S) = (sn, be', g)"
    and "\<forall>i \<in> ru_procs S. proc_wf base (seen i)"
  shows "run_inv base (S\<lparr>ru_gen := g\<rparr>) \<and> running (S\<lparr>ru_gen := g\<rparr>) = running S \<and> committed base (S\<lparr>ru_gen := g\<rparr>) = committed base S"
proof -
  let ?i = "MyProc be"
  have i: "proc_wf base (ru_proc S ?i)" by (rule proc_inv_wf [OF run_inv_procs [OF assms(1,2)]])
  have wf: "snapshot_wf base (ru_array S) sn"
    using GetSnapshotData_spec [OF _ _ _ _ assms(3)] Advance_latest_window(1) [OF assms(1)] assms(1,4)
    by (auto simp: ru_latest_def ru_procs_def run_inv_def array_inv_def)
  have w: "in_window base (sn_xmin sn)" using wf by (simp add: snapshot_wf_def)
  have g: "g = (if TransactionIdIsValid (p_xmin (ru_proc S ?i)) then ru_gen S
      else (ru_gen S)\<lparr>xg_procs := (xg_procs (ru_gen S))(?i := (ru_proc S ?i)\<lparr>p_xmin := sn_xmin sn\<rparr>)\<rparr>)"
    using assms(3) by (auto simp: GetSnapshotData_def Let_def ru_proc_def split: if_splits)
  have p: "proc_wf base ((ru_proc S ?i)\<lparr>p_xmin := sn_xmin sn\<rparr>)"
    using i w by (simp add: proc_wf_def cached_xids_def)
  show ?thesis
    using run_inv_same_xids [OF assms(1) p, of ?i] assms(1) by (auto simp: g)
qed

lemma run_inv_new:
  assumes "run_inv base S" "i \<in> ru_procs S" "ru_next S' = TransactionIdAdvance (ru_next S)" "in_window base (ru_next S')"
    and "ru_latest S' = ru_latest S" "ru_array S' = ru_array S" "ru_aborted S' = ru_aborted S"
    and "\<And>j. j \<noteq> i \<Longrightarrow> ru_proc S' j = ru_proc S j \<and> ru_live S' j = ru_live S j"
    and "xact_of S' i = insert (ru_next S) (xact_of S i)" "proc_inv base S' i" "logs_ready (ru_gen S')"
    and "\<And>x. assigned base S x \<Longrightarrow> ru_parent S' x = ru_parent S x \<and> ru_status S' x = ru_status S x"
    and "\<And>x. TransactionIdIsNormal x \<Longrightarrow> ru_parent S' x = InvalidTransactionId \<or> TransactionIdPrecedes (ru_parent S' x) x"
  shows "run_inv base S' \<and> running S' = insert (ru_next S) (running S) \<and> committed base S' = committed base S"
proof -
  let ?n = "ru_next S"
  have base: "TransactionIdIsNormal base" "in_window base ?n" using assms(1) by (simp_all add: run_inv_def logs_inv_def)
  have as: "assigned base S' x \<longleftrightarrow> assigned base S x \<or> x = ?n" for x
    using age_less_Advance(1) [OF base(1,2), of x] base(2) xid_age_inj [of base x ?n]
    by (auto simp: assigned_def assms(3) le_less)
  have procs: "ru_procs S' = ru_procs S" by (simp add: ru_procs_def assms(6))
  have xact: "xact_of S' j = (if j = i then insert ?n (xact_of S i) else xact_of S j)" for j
    using assms(9) assms(8) [of j] by (cases "j = i") (simp, simp add: xact_of_def)
  have run: "running S' = insert ?n (running S)" using assms(2) by (auto simp: running_def procs xact split: if_splits)
  have n: "\<not> assigned base S ?n" by (simp add: assigned_def)
  have com: "committed base S' = committed base S"
    using n by (auto simp: committed_def as run assms(7))
  have "logs_inv base S'"
    unfolding logs_inv_def com assms(7)
  proof (intro conjI ballI allI impI)
    fix x assume x: "x \<in> committed base S"
    then have a: "assigned base S x" by (simp add: committed_def)
    show "ru_status S' x = TRANSACTION_STATUS_COMMITTED" "ru_parent S' x = InvalidTransactionId \<or> ru_parent S' x \<in> committed base S"
      using assms(1) assms(12) [OF a] x by (auto simp: run_inv_def logs_inv_def)
  next
    fix x assume x: "x \<in> ru_aborted S"
    then have a: "assigned base S x" "x \<notin> running S" "not_committed_status (ru_status S x)" using assms(1) by (auto simp: run_inv_def logs_inv_def)
    then show "assigned base S' x" "x \<notin> running S'" "not_committed_status (ru_status S' x)"
      using assms(12) [OF a(1)] n by (auto simp: as run)
  qed (use base assms(4,11,13) in auto)
  moreover have "array_inv base S'"
    unfolding array_inv_def assms(5,6) procs
  proof (intro conjI ballI allI impI)
    show "distinct (pa_procs (ru_array S))" "length (pa_procs (ru_array S)) \<le> pa_maxProcs (ru_array S)"
      using run_inv_array [OF assms(1)] by simp_all
    have l: "in_window base (ru_latest S)" "xid_age base (ru_latest S) < xid_age base ?n"
      using assms(1) by (simp_all add: run_inv_def array_inv_def)
    show "in_window base (ru_latest S)" by (rule l(1))
    show "xid_age base (ru_latest S) < xid_age base (ru_next S')"
      using age_less_Advance(1) [OF base l(1)] l(2) by (simp add: assms(3))
    show "proc_inv base S' j" if "j \<in> ru_procs S" for j
    proof (cases "j = i")
      case False
      note j = run_inv_procs [OF assms(1) that]
      show ?thesis
        using proc_inv_mono(1) [OF j, of S'] assms(8) [OF False] assms(12) proc_inv_wf [OF j] by (simp add: as)
    qed (simp add: assms(10))
    show "xact_of S' j \<inter> xact_of S' k = {}" if "j \<in> ru_procs S" "k \<in> ru_procs S" "j \<noteq> k" for j k
    proof -
      have "xact_of S j \<inter> xact_of S k = {}" using that assms(1) by (simp add: run_inv_def array_inv_def)
      moreover have "?n \<notin> xact_of S j" "?n \<notin> xact_of S k"
        using n xact_of_facts(1) run_inv_procs [OF assms(1)] that by blast+
      ultimately show ?thesis using that by (auto simp: xact)
    qed
    show "x \<in> running S'" if "assigned base S' x \<and> xid_age base (ru_latest S) < xid_age base x" for x
      using that assms(1) by (auto simp: as run run_inv_def array_inv_def)
  qed
  ultimately show ?thesis using run com by (simp add: run_inv_def)
qed

text \<open>Opening a page of a log does not touch the entries of identifiers that have been assigned.\<close>

lemma page_start_age:
  assumes "unat n mod k = 0 \<or> n = FirstNormalTransactionId" "unat x div k = unat n div k" "TransactionIdIsNormal x"
    and "xid_age base n < 2 ^ 31" "0 < k" "k \<le> 2 ^ 31"
  shows "xid_age base n \<le> xid_age base x"
proof -
  have "unat n \<le> unat x"
  proof (cases "unat n mod k = 0")
    case True
    then have "unat n = unat x div k * k" using assms(2) by (metis add_0_right div_mult_mod_eq)
    then show ?thesis by (metis div_times_less_eq_dividend)
  next
    case False
    then have "unat n = 3" using assms(1) by (simp add: FirstNormalTransactionId_def)
    then show ?thesis using assms(3) by (simp add: normal_ge_3)
  qed
  then show ?thesis using same_page_age [of n k x base] assms by (simp add: word_le_nat_alt)
qed

lemma assign_logs:
  assumes "logs_ready g" "in_window base (vc_nextXid (xg_cache g))" "assign_xid isSubXact i g = (xid, g')"
    and "in_window base x" "xid_age base x < xid_age base (vc_nextXid (xg_cache g))"
  shows "SubTransGetParent (xg_sub g') x = SubTransGetParent (xg_sub g) x \<and> clog_status (xg_clog g') x = clog_status (xg_clog g) x"
proof -
  let ?n = "vc_nextXid (xg_cache g)"
  have g': "xg_clog g' = ExtendCLOG ?n (xg_clog g)" "xg_sub g' = ExtendSUBTRANS ?n (xg_sub g)"
    using assms(3) by (auto simp: assign_xid_def Let_def)
  have n: "TransactionIdIsNormal x" "xid_age base ?n < 2 ^ 31" "\<not> xid_age base ?n \<le> xid_age base x"
    using assms(2,4,5) by (simp_all add: in_window_def)
  have "clog_wf (xg_clog g)" using assms(1) by (simp add: logs_ready_def Let_def)
  then show ?thesis
    using page_start_age [of ?n 2048 x base] page_start_age [of ?n 32768 x base] n
    by (auto simp: g' Extend_parent ExtendCLOG_status clog_page_div)
qed

lemma Extend_ordered:
  assumes "\<And>x. TransactionIdIsNormal x \<Longrightarrow> SubTransGetParent sub x = InvalidTransactionId \<or> TransactionIdPrecedes (SubTransGetParent sub x) x"
    and "TransactionIdIsNormal x"
  shows "SubTransGetParent (ExtendSUBTRANS n sub) x = InvalidTransactionId \<or> TransactionIdPrecedes (SubTransGetParent (ExtendSUBTRANS n sub) x) x"
  using assms by (simp add: Extend_parent)

lemma run_inv_assign_top:
  assumes "run_inv base S" "i \<in> ru_procs S" "\<not> TransactionIdIsValid (p_xid (ru_proc S i))"
    and "assign_xid False i (ru_gen S) = (xid, g)" "in_window base (vc_nextXid (xg_cache g))"
  defines "S' \<equiv> S\<lparr>ru_gen := g\<rparr>"
  shows "run_inv base S' \<and> running S' = insert (ru_next S) (running S) \<and> committed base S' = committed base S"
proof (rule run_inv_new [OF assms(1,2)])
  let ?n = "ru_next S" and ?p = "ru_proc S i"
  have ready: "logs_ready (ru_gen S)" and w: "in_window base ?n" using assms(1) by (simp_all add: run_inv_def logs_inv_def)
  note fresh = assign_xid_fresh [OF ready assms(4)]
  have g: "xid = ?n" "xg_cache g = (xg_cache (ru_gen S))\<lparr>vc_nextXid := TransactionIdAdvance ?n\<rparr>"
    "xg_procs g = (xg_procs (ru_gen S))(i := ?p\<lparr>p_xid := ?n\<rparr>)" "xg_sub g = ExtendSUBTRANS ?n (xg_sub (ru_gen S))"
    using assms(4) by (auto simp: assign_xid_def Let_def ru_next_def ru_proc_def advertise_xid_def)
  have pr: "ru_proc S' j = (if j = i then ?p\<lparr>p_xid := ?n\<rparr> else ru_proc S j)" for j by (simp add: S'_def ru_proc_def g)
  have live: "ru_live S' = ru_live S" by (simp add: S'_def)
  note i = run_inv_procs [OF assms(1,2)]
  have l0: "ru_live S i = {}" "cached_xids ?p = []" "xc_nxids (p_subxids ?p) = 0"
    using i assms(3) proc_wf_no_cached [of base ?p] by (auto simp: proc_inv_def proc_wf_def)
  show next': "ru_next S' = TransactionIdAdvance ?n" by (simp add: S'_def ru_next_def g)
  show "in_window base (ru_next S')" using assms(5) by (simp add: S'_def ru_next_def)
  have nv: "TransactionIdIsValid ?n" using w by (rule window_valid)
  show x: "xact_of S' i = insert ?n (xact_of S i)" using assms(3) nv l0(1) by (simp add: xact_of_def pr live)
  have c: "cached_xids (?p\<lparr>p_xid := ?n\<rparr>) = []" using l0(3) by (simp add: cached_xids_def)
  have "assigned base S' ?n"
    using age_less_Advance(1) [OF _ w w] assms(1) w by (simp add: assigned_def next' run_inv_def logs_inv_def)
  moreover have "ru_parent S' ?n = InvalidTransactionId" using fresh g(1) by (simp add: ru_parent_def S'_def)
  moreover have "proc_wf base (?p\<lparr>p_xid := ?n\<rparr>)" using proc_inv_wf [OF i] w nv c by (simp add: proc_wf_def)
  ultimately show "proc_inv base S' i" using l0(1) nv c by (simp add: proc_inv_def pr live)
  show "logs_ready (ru_gen S')" using fresh by (simp add: S'_def)
  show "ru_parent S' x = ru_parent S x \<and> ru_status S' x = ru_status S x" if "assigned base S x" for x
    using assign_logs [OF ready _ assms(4)] that w by (simp add: S'_def ru_parent_def ru_status_def ru_next_def assigned_def)
  show "ru_parent S' x = InvalidTransactionId \<or> TransactionIdPrecedes (ru_parent S' x) x" if "TransactionIdIsNormal x" for x
    using Extend_ordered [OF _ that, of "xg_sub (ru_gen S)" ?n] assms(1) by (simp add: S'_def ru_parent_def g run_inv_def logs_inv_def)
  show "ru_proc S' j = ru_proc S j \<and> ru_live S' j = ru_live S j" if "j \<noteq> i" for j using that by (simp add: pr live)
  show "ru_latest S' = ru_latest S" by (simp add: S'_def ru_latest_def g)
qed (simp_all add: S'_def)

text \<open>A subtransaction is shown in the cache, or the cache is marked as overflowed.\<close>

lemma advertise_sub_cached:
  assumes "xc_nxids (p_subxids p) \<le> PGPROC_MAX_CACHED_SUBXIDS" "length (xc_xids (p_subxids p)) = PGPROC_MAX_CACHED_SUBXIDS"
  shows "cached_xids (advertise_xid True x p) = (if xc_nxids (p_subxids p) < PGPROC_MAX_CACHED_SUBXIDS then cached_xids p @ [x] else cached_xids p)"
    "xc_overflowed (p_subxids (advertise_xid True x p)) \<longleftrightarrow> xc_overflowed (p_subxids p) \<or> \<not> xc_nxids (p_subxids p) < PGPROC_MAX_CACHED_SUBXIDS"
    "p_xid (advertise_xid True x p) = p_xid p" "p_xmin (advertise_xid True x p) = p_xmin p"
    "p_vacuumFlags (advertise_xid True x p) = p_vacuumFlags p"
    "xc_nxids (p_subxids (advertise_xid True x p)) \<le> PGPROC_MAX_CACHED_SUBXIDS"
    "length (xc_xids (p_subxids (advertise_xid True x p))) = PGPROC_MAX_CACHED_SUBXIDS"
  using assms by (auto simp: advertise_xid_def cached_xids_def Let_def take_Suc_conv_app_nth)

lemma advertise_sub_wf:
  assumes "proc_wf base p" "TransactionIdIsValid (p_xid p)" "in_window base x" "xid_age base (p_xid p) < xid_age base x"
  shows "proc_wf base (advertise_xid True x p)"
proof -
  have l: "xc_nxids (p_subxids p) \<le> PGPROC_MAX_CACHED_SUBXIDS" "length (xc_xids (p_subxids p)) = PGPROC_MAX_CACHED_SUBXIDS"
    using assms(1) by (simp_all add: proc_wf_def)
  note adv = advertise_sub_cached [OF l, of x]
  show ?thesis using assms adv by (simp add: proc_wf_def)
qed

lemma run_inv_assign_sub:
  assumes "run_inv base S" "i \<in> ru_procs S" "parent \<in> xact_of S i"
    and "assign_xid True i (ru_gen S) = (xid, g)" "in_window base (vc_nextXid (xg_cache g))"
  defines "S' \<equiv> S\<lparr>ru_gen := g\<lparr>xg_sub := SubTransSetParent xid parent (xg_sub g)\<rparr>, ru_live := (ru_live S)(i := insert xid (ru_live S i))\<rparr>"
  shows "run_inv base S' \<and> running S' = insert (ru_next S) (running S) \<and> committed base S' = committed base S"
proof (rule run_inv_new [OF assms(1,2)])
  let ?n = "ru_next S" and ?p = "ru_proc S i"
  have ready: "logs_ready (ru_gen S)" and w: "in_window base ?n" and nb: "TransactionIdIsNormal base"
    using assms(1) by (simp_all add: run_inv_def logs_inv_def)
  note fresh = assign_xid_fresh [OF ready assms(4)]
  have g: "xid = ?n" "xg_cache g = (xg_cache (ru_gen S))\<lparr>vc_nextXid := TransactionIdAdvance ?n\<rparr>"
    "xg_procs g = (xg_procs (ru_gen S))(i := advertise_xid True ?n ?p)" "xg_sub g = ExtendSUBTRANS ?n (xg_sub (ru_gen S))"
    using assms(4) by (auto simp: assign_xid_def Let_def ru_next_def ru_proc_def)
  have pr: "ru_proc S' j = (if j = i then advertise_xid True ?n ?p else ru_proc S j)" for j by (simp add: S'_def ru_proc_def g)
  have live: "ru_live S' j = (if j = i then insert ?n (ru_live S i) else ru_live S j)" for j by (simp add: S'_def g)
  note i = run_inv_procs [OF assms(1,2)]
  have v: "TransactionIdIsValid (p_xid ?p)" by (rule xact_of_valid [OF assms(3)])
  have l: "xc_nxids (p_subxids ?p) \<le> PGPROC_MAX_CACHED_SUBXIDS" "length (xc_xids (p_subxids ?p)) = PGPROC_MAX_CACHED_SUBXIDS"
    using proc_inv_wf [OF i] by (simp_all add: proc_wf_def)
  note adv = advertise_sub_cached [OF l, of ?n]
  show next': "ru_next S' = TransactionIdAdvance ?n" by (simp add: S'_def ru_next_def g)
  show "in_window base (ru_next S')" using assms(5) by (simp add: S'_def ru_next_def)
  show x: "xact_of S' i = insert ?n (xact_of S i)" using v adv(3) by (auto simp: xact_of_def pr live)
  have mono: "assigned base S' y" if "assigned base S y" for y
    using age_less_Advance(1) [OF nb w, of y] that by (simp add: assigned_def next')
  have n': "assigned base S' ?n" using age_less_Advance(1) [OF nb w w] w by (simp add: assigned_def next')
  have wf: "sub_wf (xg_sub g)" using fresh by (simp add: logs_ready_def Let_def)
  have par: "ru_parent S' y = (if y = ?n then parent else SubTransGetParent (xg_sub g) y)" if "TransactionIdIsNormal y" for y
    using SetParent_parent [OF wf, of xid parent y] that by (simp add: S'_def ru_parent_def g(1))
  have old: "ru_parent S' y = ru_parent S y \<and> ru_status S' y = ru_status S y" if "assigned base S y" for y
    using assign_logs [OF ready _ assms(4)] that w par [of y]
    by (auto simp: S'_def ru_parent_def ru_status_def ru_next_def assigned_def in_window_def)
  have par_n: "ru_parent S' ?n = parent" using par [of ?n] w by (simp add: in_window_def)
  have pa: "assigned base S parent" "xid_age base (p_xid ?p) \<le> xid_age base parent" using xact_of_facts [OF i assms(3)] by simp_all
  have age: "xid_age base parent < xid_age base ?n" "xid_age base (p_xid ?p) < xid_age base ?n" using pa by (simp_all add: assigned_def)
  show "proc_inv base S' i"
    unfolding proc_inv_def
  proof (intro conjI)
    have c: "distinct (cached_xids ?p)" "set (cached_xids ?p) \<subseteq> ru_live S i" "xc_overflowed (p_subxids ?p) \<or> ru_live S i \<subseteq> set (cached_xids ?p)"
      and lv: "\<And>y. y \<in> ru_live S i \<Longrightarrow> assigned base S y \<and> xid_age base (p_xid ?p) < xid_age base y
          \<and> ru_parent S y \<in> xact_of S i \<and> xid_age base (ru_parent S y) < xid_age base y"
      and top: "assigned base S (p_xid ?p)" "ru_parent S (p_xid ?p) = InvalidTransactionId"
      using i v by (auto simp: proc_inv_def)
    have "?n \<notin> ru_live S i" using lv [of ?n] by (auto simp: assigned_def)
    then show "distinct (cached_xids (ru_proc S' i))" using c adv(1) by (auto simp: pr)
    show "proc_wf base (ru_proc S' i)" using advertise_sub_wf [OF proc_inv_wf [OF i] v w age(2)] by (simp add: pr)
    show "set (cached_xids (ru_proc S' i)) \<subseteq> ru_live S' i" using c(2) adv(1) by (auto simp: pr live)
    show "xc_overflowed (p_subxids (ru_proc S' i)) \<or> ru_live S' i \<subseteq> set (cached_xids (ru_proc S' i))"
      using c(3) adv(1,2) by (auto simp: pr live)
    have "assigned base S' y \<and> xid_age base (p_xid ?p) < xid_age base y \<and> ru_parent S' y \<in> xact_of S' i
        \<and> xid_age base (ru_parent S' y) < xid_age base y" if "y \<in> ru_live S' i" for y
    proof (cases "y = ?n")
      case True
      then show ?thesis using n' age par_n assms(3) x by simp
    next
      case False
      then have "y \<in> ru_live S i" using that by (simp add: live)
      then show ?thesis using lv [of y] old [of y] mono x by simp
    qed
    then show "if TransactionIdIsValid (p_xid (ru_proc S' i))
        then assigned base S' (p_xid (ru_proc S' i)) \<and> ru_parent S' (p_xid (ru_proc S' i)) = InvalidTransactionId
           \<and> (\<forall>x \<in> ru_live S' i. assigned base S' x \<and> xid_age base (p_xid (ru_proc S' i)) < xid_age base x
                \<and> ru_parent S' x \<in> xact_of S' i \<and> xid_age base (ru_parent S' x) < xid_age base x)
        else ru_live S' i = {}"
      using v adv(3) old [OF top(1)] top mono by (simp add: pr)
  qed
  show "logs_ready (ru_gen S')"
  proof -
    have "TransactionIdAdvance ?n \<le> y \<Longrightarrow> unat y div 2048 = unat (TransactionIdAdvance ?n) div 2048 \<Longrightarrow> y \<noteq> ?n" for y
      using same_page_age [of "TransactionIdAdvance ?n" 2048 y base] assms(5) age_less_Advance(1) [OF nb w w]
      by (auto simp: in_window_def g)
    then show ?thesis
      using fresh SetParent_parent [OF wf, of xid parent] SetParent_wf [OF wf]
      by (auto simp: S'_def logs_ready_def Let_def g(1) g(2) clog_page_div)
  qed
  show "ru_parent S' y = InvalidTransactionId \<or> TransactionIdPrecedes (ru_parent S' y) y" if "TransactionIdIsNormal y" for y
  proof (cases "y = ?n")
    case True
    then show ?thesis using par_n window_precedes(1) [of base parent ?n] pa(1) w age by (simp add: assigned_def)
  next
    case False
    then show ?thesis
      using Extend_ordered [OF _ that, of "xg_sub (ru_gen S)" ?n] assms(1) par [OF that]
      by (simp add: ru_parent_def g run_inv_def logs_inv_def)
  qed
  show "ru_proc S' j = ru_proc S j \<and> ru_live S' j = ru_live S j" if "j \<noteq> i" for j using that by (simp add: pr live)
  show "ru_latest S' = ru_latest S" by (simp add: S'_def ru_latest_def g)
  show "ru_parent S' y = ru_parent S y \<and> ru_status S' y = ru_status S y" if "assigned base S y" for y by (rule old [OF that])
qed (simp_all add: S'_def)

lemma latest_advanced:
  assumes "in_window base (vc_latestCompletedXid vc)" "\<forall>y \<in> set (x # xs). in_window base y"
  defines "l \<equiv> vc_latestCompletedXid (advance_latestCompletedXid (TransactionIdLatest x xs) vc)"
  shows "l \<in> insert (vc_latestCompletedXid vc) (set (x # xs))" "xid_age base (vc_latestCompletedXid vc) \<le> xid_age base l"
    "y \<in> set (x # xs) \<Longrightarrow> xid_age base y \<le> xid_age base l"
proof -
  let ?m = "TransactionIdLatest x xs"
  have r: "?m \<in> insert x (set (rev xs))" "\<forall>y \<in> insert x (set (rev xs)). xid_age base y \<le> xid_age base ?m"
    using latest_foldl [of x "rev xs" base] assms(2) unfolding TransactionIdLatest_def by (simp_all add: in_window_def)
  then have "in_window base ?m" using assms(2) by auto
  then have l: "l = (if xid_age base (vc_latestCompletedXid vc) < xid_age base ?m then ?m else vc_latestCompletedXid vc)"
    using window_precedes(1) [OF assms(1)] by (simp add: l_def advance_latestCompletedXid_def)
  show "l \<in> insert (vc_latestCompletedXid vc) (set (x # xs))" "xid_age base (vc_latestCompletedXid vc) \<le> xid_age base l"
    using l r(1) by auto
  show "y \<in> set (x # xs) \<Longrightarrow> xid_age base y \<le> xid_age base l" using l r(2) by fastforce
qed

text \<open>A set of transactions of a process ends: they commit together with the process's transaction, or they abort.\<close>

lemma run_inv_ended:
  assumes "run_inv base S" "i \<in> ru_procs S" "D \<subseteq> xact_of S i" "xact_of S' i = xact_of S i - D" "proc_inv base S' i"
    and "\<And>j. j \<noteq> i \<Longrightarrow> ru_proc S' j = ru_proc S j \<and> ru_live S' j = ru_live S j"
    and "ru_next S' = ru_next S" "ru_array S' = ru_array S" "ru_parent S' = ru_parent S" "ru_status S' = ru_status S" "logs_ready (ru_gen S')"
    and "ru_latest S' \<in> insert (ru_latest S) D" "xid_age base (ru_latest S) \<le> xid_age base (ru_latest S')"
    and "\<And>x. x \<in> D \<Longrightarrow> xid_age base x \<le> xid_age base (ru_latest S')"
    and "ru_aborted S' = ru_aborted S \<and> D = xact_of S i \<and> (\<forall>x \<in> D. ru_status S x = TRANSACTION_STATUS_COMMITTED)
       \<or> ru_aborted S' = ru_aborted S \<union> D \<and> (\<forall>x \<in> D. not_committed_status (ru_status S x))"
  shows "run_inv base S' \<and> running S' = running S - D \<and> committed base S \<subseteq> committed base S' \<and> committed base S' \<subseteq> committed base S \<union> D"
proof -
  note i = run_inv_procs [OF assms(1,2)]
  have procs: "ru_procs S' = ru_procs S" by (simp add: ru_procs_def assms(8))
  have as: "assigned base S' x \<longleftrightarrow> assigned base S x" for x by (simp add: assigned_def assms(7))
  have xact: "xact_of S' j = (if j = i then xact_of S i - D else xact_of S j)" for j
    using assms(4) assms(6) [of j] by (cases "j = i") (simp, simp add: xact_of_def)
  have disj: "xact_of S j \<inter> xact_of S k = {}" if "j \<in> ru_procs S" "k \<in> ru_procs S" "j \<noteq> k" for j k
    using that assms(1) by (simp add: run_inv_def array_inv_def)
  have run: "running S' = running S - D"
    using assms(2,3) disj by (fastforce simp: running_def procs xact split: if_splits)
  have D: "D \<subseteq> running S" "\<And>x. x \<in> D \<Longrightarrow> assigned base S x" using assms(2,3) xact_of_facts(1) [OF i] by (auto simp: running_def)
  have com: "committed base S' = (if ru_aborted S' = ru_aborted S then committed base S \<union> (D - ru_aborted S) else committed base S)"
  proof (cases "ru_aborted S' = ru_aborted S")
    case True
    then show ?thesis using D by (auto simp: committed_def as run)
  next
    case False
    then have "ru_aborted S' = ru_aborted S \<union> D" using assms(15) by blast
    then show ?thesis using D False by (auto simp: committed_def as run)
  qed
  have "logs_inv base S'"
    unfolding logs_inv_def assms(7,9,10) as
  proof (intro conjI ballI allI impI)
    fix x assume x: "x \<in> committed base S'"
    show "ru_status S x = TRANSACTION_STATUS_COMMITTED"
      using x com assms(1,15) by (auto simp: run_inv_def logs_inv_def split: if_splits)
    show "ru_parent S x = InvalidTransactionId \<or> ru_parent S x \<in> committed base S'"
    proof (cases "x \<in> committed base S")
      case True
      then show ?thesis using assms(1) com by (auto simp: run_inv_def logs_inv_def)
    next
      case False
      then have eq: "x \<in> D" "ru_aborted S' = ru_aborted S" using x com by (auto split: if_splits)
      have ab: "D \<inter> ru_aborted S = {}" using D(1) assms(1) by (auto simp: run_inv_def logs_inv_def)
      consider "D = xact_of S i" | "D \<subseteq> ru_aborted S" using assms(15) eq(2) by blast
      then have "D = xact_of S i" using ab eq(1) by cases auto
      then have "ru_parent S x = InvalidTransactionId \<or> ru_parent S x \<in> D"
        using i eq(1) by (auto simp: proc_inv_def xact_of_def split: if_splits)
      then show ?thesis using com eq(2) ab by auto
    qed
  next
    fix x assume "x \<in> ru_aborted S'"
    then have "x \<in> ru_aborted S \<or> x \<in> D \<and> not_committed_status (ru_status S x)" using assms(15) by auto
    then show "assigned base S x" "x \<notin> running S'" "not_committed_status (ru_status S x)"
      using assms(1) D by (auto simp: run_inv_def logs_inv_def run)
  qed (use assms(1,11) in \<open>auto simp: run_inv_def logs_inv_def\<close>)
  moreover have "array_inv base S'"
    unfolding array_inv_def assms(7,8) procs as
  proof (intro conjI ballI allI impI)
    show "distinct (pa_procs (ru_array S))" "length (pa_procs (ru_array S)) \<le> pa_maxProcs (ru_array S)"
      using run_inv_array [OF assms(1)] by simp_all
    have "in_window base (ru_latest S)" "xid_age base (ru_latest S) < xid_age base (ru_next S)"
      using assms(1) by (simp_all add: run_inv_def array_inv_def)
    then show "in_window base (ru_latest S')" "xid_age base (ru_latest S') < xid_age base (ru_next S)"
      using assms(12) D(2) by (auto simp: assigned_def)
    show "proc_inv base S' j" if "j \<in> ru_procs S" for j
    proof (cases "j = i")
      case False
      show ?thesis
        by (rule proc_inv_same [OF run_inv_procs [OF assms(1) that]]) (simp_all add: assms(6) [OF False] assms(7,9))
    qed (simp add: assms(5))
    show "xact_of S' j \<inter> xact_of S' k = {}" if "j \<in> ru_procs S" "k \<in> ru_procs S" "j \<noteq> k" for j k
      using disj [OF that] by (auto simp: xact)
    show "x \<in> running S'" if "assigned base S x \<and> xid_age base (ru_latest S') < xid_age base x" for x
    proof -
      have "x \<in> running S" using that assms(1,13) by (auto simp: run_inv_def array_inv_def)
      moreover have "x \<notin> D" using that assms(14) by fastforce
      ultimately show ?thesis by (simp add: run)
    qed
  qed
  ultimately show ?thesis using run com by (auto simp: run_inv_def split: if_splits)
qed

lemma run_inv_end:
  assumes "run_inv base S" "i \<in> ru_procs S" "TransactionIdIsValid (p_xid (ru_proc S i))" "set children = ru_live S i"
    and "ab = ru_aborted S \<and> (\<forall>x \<in> xact_of S i. ru_status S x = TRANSACTION_STATUS_COMMITTED)
       \<or> ab = ru_aborted S \<union> xact_of S i \<and> (\<forall>x \<in> xact_of S i. not_committed_status (ru_status S x))"
  defines "S' \<equiv> S\<lparr>ru_gen := ProcArrayEndTransaction i (TransactionIdLatest (p_xid (ru_proc S i)) children) (ru_gen S),
      ru_live := (ru_live S)(i := {}), ru_aborted := ab\<rparr>"
  shows "run_inv base S' \<and> running S' = running S - xact_of S i \<and> committed base S \<subseteq> committed base S'
    \<and> committed base S' \<subseteq> committed base S \<union> xact_of S i"
proof -
  let ?x = "p_xid (ru_proc S i)" and ?p = "clear_xids (clear_transaction (ru_proc S i))"
  note i = run_inv_procs [OF assms(1,2)]
  have X: "xact_of S i = set (?x # children)" using assms(3,4) by (simp add: xact_of_def)
  have w: "\<forall>y \<in> set (?x # children). in_window base y" using xact_of_facts(1) [OF i] X by (auto simp: assigned_def)
  have lw: "in_window base (vc_latestCompletedXid (xg_cache (ru_gen S)))" using assms(1) by (simp add: run_inv_def array_inv_def ru_latest_def)
  note l = latest_advanced [OF lw w]
  have "TransactionIdLatest ?x children \<in> insert ?x (set (rev children))"
    using latest_foldl [of ?x "rev children" base] w unfolding TransactionIdLatest_def by (simp add: in_window_def)
  then have "TransactionIdIsValid (TransactionIdLatest ?x children)" using w window_valid by auto
  then have g: "ru_gen S' = (ru_gen S)\<lparr>xg_procs := (xg_procs (ru_gen S))(i := ?p),
      xg_cache := advance_latestCompletedXid (TransactionIdLatest ?x children) (xg_cache (ru_gen S))\<rparr>"
    by (simp add: S'_def ProcArrayEndTransaction_def ru_proc_def)
  have pr: "ru_proc S' j = (if j = i then ?p else ru_proc S j)" for j by (simp add: ru_proc_def g)
  have live: "ru_live S' = (ru_live S)(i := {})" by (simp add: S'_def)
  have px: "\<not> TransactionIdIsValid (p_xid ?p)" by (simp add: clear_xids_def valid_not_0 InvalidTransactionId_def)
  have nx: "vc_nextXid (advance_latestCompletedXid y vc) = vc_nextXid vc" for y vc by (simp add: advance_latestCompletedXid_def)
  show ?thesis
  proof (rule run_inv_ended [OF assms(1,2)])
    show "xact_of S' i = xact_of S i - xact_of S i" using px by (simp add: xact_of_def pr)
    have "proc_wf base ?p" "cached_xids ?p = []"
      using proc_inv_wf [OF i] px
      by (simp_all add: proc_wf_def clear_xids_def clear_transaction_def cached_xids_def valid_not_0 InvalidTransactionId_def)
    then show "proc_inv base S' i" using px by (simp add: proc_inv_def pr live)
    show "ru_latest S' \<in> insert (ru_latest S) (xact_of S i)" "xid_age base (ru_latest S) \<le> xid_age base (ru_latest S')"
      "y \<in> xact_of S i \<Longrightarrow> xid_age base y \<le> xid_age base (ru_latest S')" for y
      using l X by (simp_all add: ru_latest_def g)
    show "logs_ready (ru_gen S')" using assms(1) by (simp add: g run_inv_def logs_inv_def logs_ready_def Let_def nx)
    show "ru_aborted S' = ru_aborted S \<and> xact_of S i = xact_of S i \<and> (\<forall>x \<in> xact_of S i. ru_status S x = TRANSACTION_STATUS_COMMITTED)
       \<or> ru_aborted S' = ru_aborted S \<union> xact_of S i \<and> (\<forall>x \<in> xact_of S i. not_committed_status (ru_status S x))"
      using assms(5) by (auto simp: S'_def)
    show "ru_array S' = ru_array S" by (simp add: S'_def)
  qed (simp_all add: pr live ru_next_def ru_parent_def ru_status_def fun_eq_iff g nx)
qed

definition cache_list :: "XidCache \<Rightarrow> TransactionId list" where
  "cache_list c = take (xc_nxids c) (xc_xids c)"

lemma cached_cache_list: "cached_xids p = cache_list (p_subxids p)"
  by (simp add: cached_xids_def cache_list_def)

lemma xid_cache_find_spec:
  "n \<le> length xs \<Longrightarrow> case xid_cache_find x xs n of None \<Rightarrow> x \<notin> set (take n xs) | Some j \<Rightarrow> j < n \<and> xs ! j = x"
  by (induction n) (auto simp: take_Suc_conv_app_nth less_SucI split: option.splits)

definition cache_fits :: "XidCache \<Rightarrow> bool" where
  "cache_fits c \<longleftrightarrow> xc_nxids c \<le> PGPROC_MAX_CACHED_SUBXIDS \<and> length (xc_xids c) = PGPROC_MAX_CACHED_SUBXIDS"

lemma XidCacheRemove_spec:
  assumes "cache_fits c" "j < xc_nxids c" "distinct (cache_list c)"
  shows "set (cache_list (XidCacheRemove j c)) = set (cache_list c) - {xc_xids c ! j}" "distinct (cache_list (XidCacheRemove j c))"
proof -
  define ys where "ys = cache_list c"
  have len: "length ys = xc_nxids c" using assms(1) by (simp add: ys_def cache_list_def cache_fits_def)
  then obtain zs z where ys: "ys = zs @ [z]" using assms(2) by (cases ys rule: rev_cases) auto
  have nth: "xc_xids c ! k = ys ! k" if "k < xc_nxids c" for k using that by (simp add: ys_def cache_list_def)
  have "zs = take (xc_nxids c - 1) ys" using ys len by simp
  then have zs: "zs = take (xc_nxids c - 1) (xc_xids c)" by (simp add: ys_def cache_list_def min_def)
  have n: "xc_nxids c = Suc (length zs)" using len ys by simp
  have z: "xc_xids c ! (xc_nxids c - 1) = z" using nth [of "length zs"] ys by (simp add: n)
  have new: "cache_list (XidCacheRemove j c) = zs[j := z]"
    using z by (simp add: XidCacheRemove_def cache_list_def zs take_update_swap)
  have d: "distinct zs" "z \<notin> set zs" using assms(3) ys by (simp_all add: ys_def)
  show "set (cache_list (XidCacheRemove j c)) = set (cache_list c) - {xc_xids c ! j}"
  proof (cases "j < length zs")
    case True
    then have "xc_xids c ! j = zs ! j" using nth [OF assms(2)] ys by (simp add: nth_append)
    then show ?thesis using True d by (auto simp: new set_update_distinct ys_def [symmetric] ys)
  next
    case False
    then have "xc_xids c ! j = z" using nth [OF assms(2)] assms(2) len ys by (simp add: nth_append)
    then show ?thesis using False d by (simp add: new ys_def [symmetric] ys list_update_beyond)
  qed
  show "distinct (cache_list (XidCacheRemove j c))" using d by (simp add: new distinct_list_update)
qed

lemma xid_cache_drop_spec:
  assumes "cache_fits c" "distinct (cache_list c)"
  shows "cache_fits (xid_cache_drop x c)" "distinct (cache_list (xid_cache_drop x c))"
    "set (cache_list (xid_cache_drop x c)) = set (cache_list c) - {x}" "xc_overflowed (xid_cache_drop x c) = xc_overflowed c"
proof -
  have n: "xc_nxids c \<le> length (xc_xids c)" using assms(1) by (simp add: cache_fits_def)
  note f = xid_cache_find_spec [OF n, of x]
  show "cache_fits (xid_cache_drop x c)" "xc_overflowed (xid_cache_drop x c) = xc_overflowed c"
    using assms(1) by (auto simp: xid_cache_drop_def XidCacheRemove_def cache_fits_def split: option.splits)
  show "distinct (cache_list (xid_cache_drop x c))" "set (cache_list (xid_cache_drop x c)) = set (cache_list c) - {x}"
    using f XidCacheRemove_spec [OF assms(1) _ assms(2)] assms(2)
    by (auto simp: xid_cache_drop_def cache_list_def [symmetric] split: option.splits)
qed

lemma xid_cache_drops_spec:
  assumes "cache_fits c" "distinct (cache_list c)"
  shows "cache_fits (foldr xid_cache_drop xs c) \<and> distinct (cache_list (foldr xid_cache_drop xs c))
    \<and> set (cache_list (foldr xid_cache_drop xs c)) = set (cache_list c) - set xs \<and> xc_overflowed (foldr xid_cache_drop xs c) = xc_overflowed c"
  using assms by (induction xs) (auto simp: xid_cache_drop_spec)

lemma run_inv_subabort:
  assumes "run_inv base S" "i \<in> ru_procs S" "insert xid (set xids) \<subseteq> ru_live S i"
    and "\<forall>y \<in> ru_live S i. ru_parent S y \<in> insert xid (set xids) \<longrightarrow> y \<in> insert xid (set xids)"
    and "\<forall>x \<in> insert xid (set xids). not_committed_status (ru_status S x)"
  defines "S' \<equiv> S\<lparr>ru_gen := XidCacheRemoveRunningXids i xid xids (TransactionIdLatest xid xids) (ru_gen S),
      ru_live := (ru_live S)(i := ru_live S i - insert xid (set xids)), ru_aborted := ru_aborted S \<union> insert xid (set xids)\<rparr>"
  shows "run_inv base S' \<and> running S' = running S - insert xid (set xids) \<and> committed base S \<subseteq> committed base S'
    \<and> committed base S' \<subseteq> committed base S \<union> insert xid (set xids)"
proof -
  let ?p = "ru_proc S i" and ?D = "insert xid (set xids)"
  define c where "c = xid_cache_drop xid (foldr xid_cache_drop xids (p_subxids ?p))"
  let ?q = "?p\<lparr>p_subxids := c\<rparr>"
  note i = run_inv_procs [OF assms(1,2)]
  have pinv: "proc_wf base ?p" "distinct (cached_xids ?p)" "set (cached_xids ?p) \<subseteq> ru_live S i"
    "xc_overflowed (p_subxids ?p) \<or> ru_live S i \<subseteq> set (cached_xids ?p)"
    using i by (simp_all add: proc_inv_def)
  have v: "TransactionIdIsValid (p_xid ?p)" using assms(3) i by (auto simp: proc_inv_def split: if_splits)
  have top: "assigned base S (p_xid ?p)" "ru_parent S (p_xid ?p) = InvalidTransactionId"
    and lv: "\<And>y. y \<in> ru_live S i \<Longrightarrow> assigned base S y \<and> xid_age base (p_xid ?p) < xid_age base y
        \<and> ru_parent S y \<in> xact_of S i \<and> xid_age base (ru_parent S y) < xid_age base y"
    using i v by (auto simp: proc_inv_def)
  have fits: "cache_fits (p_subxids ?p)" "distinct (cache_list (p_subxids ?p))"
    using pinv(1,2) by (simp_all add: cache_fits_def proc_wf_def cached_cache_list)
  note cs = xid_cache_drops_spec [OF fits, of xids]
  have c: "cache_fits c" "distinct (cache_list c)" "set (cache_list c) = set (cached_xids ?p) - ?D" "xc_overflowed c = xc_overflowed (p_subxids ?p)"
    using xid_cache_drop_spec [of "foldr xid_cache_drop xids (p_subxids ?p)" xid] cs by (auto simp: c_def cached_cache_list)
  have g: "ru_gen S' = (ru_gen S)\<lparr>xg_procs := (xg_procs (ru_gen S))(i := ?q),
      xg_cache := advance_latestCompletedXid (TransactionIdLatest xid xids) (xg_cache (ru_gen S))\<rparr>"
    by (simp add: S'_def XidCacheRemoveRunningXids_def c_def ru_proc_def Let_def)
  have pr: "ru_proc S' j = (if j = i then ?q else ru_proc S j)" for j by (simp add: ru_proc_def g)
  have live: "ru_live S' = (ru_live S)(i := ru_live S i - ?D)" by (simp add: S'_def)
  have nx: "vc_nextXid (advance_latestCompletedXid y vc) = vc_nextXid vc" for y vc by (simp add: advance_latestCompletedXid_def)
  have same: "ru_next S' = ru_next S" "ru_parent S' = ru_parent S" "ru_status S' = ru_status S"
    by (simp_all add: ru_next_def ru_parent_def ru_status_def fun_eq_iff g nx)
  have as: "assigned base S' x \<longleftrightarrow> assigned base S x" for x by (simp add: assigned_def same)
  have topD: "p_xid ?p \<notin> ?D" using lv assms(3) by blast
  have x: "xact_of S' i = xact_of S i - ?D" using v topD by (auto simp: xact_of_def pr live)
  have w: "\<forall>y \<in> set (xid # xids). in_window base y" using lv assms(3) by (auto simp: assigned_def)
  have lw: "in_window base (vc_latestCompletedXid (xg_cache (ru_gen S)))" using assms(1) by (simp add: run_inv_def array_inv_def ru_latest_def)
  note l = latest_advanced [OF lw w]
  show ?thesis
  proof (rule run_inv_ended [OF assms(1,2)])
    show "?D \<subseteq> xact_of S i" using assms(3) v by (auto simp: xact_of_def)
    show "xact_of S' i = xact_of S i - ?D" by (rule x)
    have cq: "cached_xids ?q = cache_list c" by (simp add: cached_cache_list)
    have "proc_wf base ?q"
      using pinv(1) c(1,3) v by (simp add: proc_wf_def cq) (auto simp: cache_fits_def)
    moreover have "ru_parent S y \<in> xact_of S i - ?D" if "y \<in> ru_live S i - ?D" for y using lv [of y] that assms(4) by auto
    ultimately show "proc_inv base S' i"
      unfolding proc_inv_def pr same as x using c pinv(3,4) v top lv by (auto simp: cq live)
    show "ru_latest S' \<in> insert (ru_latest S) ?D" "xid_age base (ru_latest S) \<le> xid_age base (ru_latest S')"
      "y \<in> ?D \<Longrightarrow> xid_age base y \<le> xid_age base (ru_latest S')" for y
      using l by (simp_all add: ru_latest_def g)
    show "logs_ready (ru_gen S')" using assms(1) by (simp add: g run_inv_def logs_inv_def logs_ready_def Let_def nx)
    show "ru_aborted S' = ru_aborted S \<and> ?D = xact_of S i \<and> (\<forall>x \<in> ?D. ru_status S x = TRANSACTION_STATUS_COMMITTED)
       \<or> ru_aborted S' = ru_aborted S \<union> ?D \<and> (\<forall>x \<in> ?D. not_committed_status (ru_status S x))"
      using assms(5) by (simp add: S'_def)
    show "ru_array S' = ru_array S" by (simp add: S'_def)
  qed (simp_all add: pr live same)
qed

text \<open>What never changes once it has happened.\<close>

definition later :: "TransactionId \<Rightarrow> Running \<Rightarrow> Running \<Rightarrow> bool" where
  "later base S S' \<longleftrightarrow> run_inv base S' \<and> committed base S \<subseteq> committed base S' \<and> ru_aborted S \<subseteq> ru_aborted S'
     \<and> running S' \<subseteq> running S \<union> {x. \<not> assigned base S x}
     \<and> (\<forall>x. assigned base S x \<longrightarrow> assigned base S' x \<and> ru_parent S' x = ru_parent S x)"

lemma later_refl: "run_inv base S \<Longrightarrow> later base S S"
  by (simp add: later_def)

lemma later_trans: "later base S S1 \<Longrightarrow> later base S1 S2 \<Longrightarrow> later base S S2"
  unfolding later_def by (intro conjI; fastforce?)

lemma later_sameI:
  assumes "run_inv base S' \<and> running S' = running S \<and> committed base S' = committed base S"
    and "ru_aborted S' = ru_aborted S" "ru_next S' = ru_next S" "ru_parent S' = ru_parent S"
  shows "later base S S'"
  using assms by (simp add: later_def assigned_def)

lemma GetSnapshotData_frame:
  assumes "GetSnapshotData recovery seen be g pa = (sn, be', g')"
  shows "xg_cache g' = xg_cache g" "xg_sub g' = xg_sub g" "xg_clog g' = xg_clog g"
  using assms by (auto simp: GetSnapshotData_def Let_def split: if_splits)

lemma later_newI:
  assumes "run_inv base S" "run_inv base S' \<and> running S' = insert (ru_next S) (running S) \<and> committed base S' = committed base S"
    and "ru_aborted S' = ru_aborted S" "ru_next S' = TransactionIdAdvance (ru_next S)"
    and "\<And>x. assigned base S x \<Longrightarrow> ru_parent S' x = ru_parent S x"
  shows "later base S S'"
proof -
  have n: "TransactionIdIsNormal base" "in_window base (ru_next S)" using assms(1) by (simp_all add: run_inv_def logs_inv_def)
  have "assigned base S' x" if "assigned base S x" for x
    using age_less_Advance(1) [OF n, of x] that by (simp add: assigned_def assms(4))
  moreover have "\<not> assigned base S (ru_next S)" by (simp add: assigned_def)
  ultimately show ?thesis using assms by (auto simp: later_def)
qed

lemma later_endI:
  assumes "run_inv base S' \<and> running S' = running S - D \<and> committed base S \<subseteq> committed base S' \<and> committed base S' \<subseteq> committed base S \<union> D"
    and "ru_aborted S \<subseteq> ru_aborted S'" "ru_next S' = ru_next S" "ru_parent S' = ru_parent S"
  shows "later base S S'"
  using assms by (auto simp: later_def assigned_def)

lemma End_frame:
  "xg_sub (ProcArrayEndTransaction i x g) = xg_sub g" "vc_nextXid (xg_cache (ProcArrayEndTransaction i x g)) = vc_nextXid (xg_cache g)"
  "xg_sub (XidCacheRemoveRunningXids i x xs y g) = xg_sub g"
  "vc_nextXid (xg_cache (XidCacheRemoveRunningXids i x xs y g)) = vc_nextXid (xg_cache g)"
  by (simp_all add: ProcArrayEndTransaction_def XidCacheRemoveRunningXids_def advance_latestCompletedXid_def Let_def)

lemma run_step_later:
  assumes "run_step base S S'" "run_inv base S"
  shows "later base S S'"
  using assms(1)
proof (cases rule: run_step.cases)
  case (add i pa)
  then show ?thesis using run_inv_add [OF assms(2)] by (intro later_sameI) (auto simp: ru_next_def ru_parent_def fun_eq_iff)
next
  case (remove i vc pa)
  moreover have "vc = xg_cache (ru_gen S)" using remove(4) by (auto simp: ProcArrayRemove_def valid_not_0 InvalidTransactionId_def)
  ultimately show ?thesis using run_inv_remove [OF assms(2) remove(2-4)] by (intro later_sameI) (simp_all add: ru_next_def ru_parent_def fun_eq_iff)
next
  case (assign_top i xid g)
  have "ru_parent S' x = ru_parent S x" if "assigned base S x" for x
    using assign_logs [OF _ _ assign_top(4), of base x] that assms(2) by (simp add: assign_top(1) ru_parent_def ru_next_def assigned_def run_inv_def logs_inv_def)
  moreover have "ru_next S' = TransactionIdAdvance (ru_next S)" using assign_top(1,4) by (auto simp: ru_next_def assign_xid_def Let_def)
  ultimately show ?thesis using run_inv_assign_top [OF assms(2) assign_top(2-5)] assign_top(1) by (intro later_newI [OF assms(2)]) simp_all
next
  case (assign_sub i parent xid g)
  have xid: "xid = ru_next S" using assign_sub(4) by (auto simp: assign_xid_def Let_def ru_next_def)
  have "sub_wf (xg_sub g)" using assign_xid_fresh [OF _ assign_sub(4)] assms(2) by (simp add: run_inv_def logs_inv_def logs_ready_def Let_def)
  then have "ru_parent S' x = ru_parent S x" if "assigned base S x" for x
    using assign_logs [OF _ _ assign_sub(4), of base x] that assms(2) SetParent_parent [of "xg_sub g" xid parent x] xid
    by (auto simp: assign_sub(1) ru_parent_def ru_next_def assigned_def run_inv_def logs_inv_def in_window_def)
  moreover have "ru_next S' = TransactionIdAdvance (ru_next S)" using assign_sub(1,4) by (auto simp: ru_next_def assign_xid_def Let_def)
  ultimately show ?thesis using run_inv_assign_sub [OF assms(2) assign_sub(2-5)] assign_sub(1) by (intro later_newI [OF assms(2)]) simp_all
next
  case (report i clog)
  then show ?thesis using run_inv_report [OF assms(2)] by (intro later_sameI) (auto simp: ru_next_def ru_parent_def fun_eq_iff)
next
  case (commit i children)
  then show ?thesis
    using run_inv_end [OF assms(2) commit(2-4), of "ru_aborted S"]
    by (intro later_endI [where D = "xact_of S i"]) (simp_all add: ru_next_def ru_parent_def fun_eq_iff End_frame)
next
  case (abort i children)
  then show ?thesis
    using run_inv_end [OF assms(2) abort(2-4), of "ru_aborted S \<union> xact_of S i"]
    by (intro later_endI [where D = "xact_of S i"]) (simp_all add: ru_next_def ru_parent_def fun_eq_iff End_frame)
next
  case (finish i)
  then show ?thesis using run_inv_finish [OF assms(2)] by (intro later_sameI) (auto simp: ru_next_def ru_parent_def fun_eq_iff End_frame)
next
  case (subabort i xid xids)
  show ?thesis
    using run_inv_subabort [OF assms(2) subabort(2-5)] subabort(1)
    by (intro later_endI [where D = "insert xid (set xids)"]) (simp_all add: ru_next_def ru_parent_def fun_eq_iff End_frame subset_insertI2)
next
  case (snapshot be sn be' g)
  have "\<forall>i \<in> ru_procs S. proc_wf base (xg_procs (ru_gen S) i)"
    using run_inv_procs [OF assms(2)] proc_inv_wf by (auto simp: ru_proc_def [symmetric])
  then show ?thesis
    using run_inv_snapshot [OF assms(2) snapshot(2,3)] GetSnapshotData_frame [OF snapshot(3)] snapshot(1)
    by (intro later_sameI) (simp_all add: ru_next_def ru_parent_def fun_eq_iff)
next
  case (announce i inCommit lxid)
  have "proc_wf base ((ru_proc S i)\<lparr>p_lxid := lxid, p_inCommit := inCommit\<rparr>)"
    using run_inv_procs [OF assms(2) announce(2)] proc_inv_wf by (fastforce simp: proc_wf_def cached_xids_def)
  from run_inv_same_xids [OF assms(2) this, of i] show ?thesis
    by (intro later_sameI) (simp_all add: announce(1) ru_next_def ru_parent_def fun_eq_iff)
qed

lemma run_steps_later: "(run_step base)\<^sup>*\<^sup>* S S' \<Longrightarrow> run_inv base S \<Longrightarrow> later base S S'"
proof (induction rule: rtranclp_induct)
  case (step S1 S2)
  then have "later base S S1" by blast
  moreover have "later base S1 S2" using run_step_later step.hyps(2) calculation by (auto simp: later_def)
  ultimately show ?case by (rule later_trans)
qed (simp add: later_refl)

end
