(* ===== verification/Snapshots.thy ===== *)
theory Snapshots
  imports Visibility
begin

text \<open>
  What the questions about transactions answer on a running server: the test against a snapshot
  (\<^verbatim>\<open>XidInMVCCSnapshot\<close> of \<^verbatim>\<open>tqual.c\<close>) and the test whether a transaction is in progress
  (\<^verbatim>\<open>TransactionIdIsInProgress\<close> of \<^verbatim>\<open>procarray.c\<close>).
\<close>

section \<open>A snapshot tells what was committed when it was taken\<close>

text \<open>The topmost transaction of one whose ancestors all belong to a set.\<close>

lemma topmost_loop_in:
  assumes "\<And>y. y \<in> C \<Longrightarrow> in_window base y \<and> (SubTransGetParent sub y = InvalidTransactionId
      \<or> SubTransGetParent sub y \<in> C \<and> xid_age base (SubTransGetParent sub y) < xid_age base y)"
    and "in_window base tx" "x \<in> C"
  shows "\<exists>T \<in> C. topmost_loop sub tx x prev = Some T \<and> (xid_age base T < xid_age base tx \<or> SubTransGetParent sub T = InvalidTransactionId)"
  using assms(3)
proof (induction "xid_age base x" arbitrary: x prev rule: less_induct)
  case less
  let ?p = "SubTransGetParent sub x"
  have x: "in_window base x" using assms(1) [OF less.prems] by simp
  note v = window_valid [OF x]
  consider (old) "xid_age base x < xid_age base tx" | (root) "\<not> xid_age base x < xid_age base tx" "?p = InvalidTransactionId"
    | (up) "\<not> xid_age base x < xid_age base tx" "?p \<in> C" "xid_age base ?p < xid_age base x" using assms(1) [OF less.prems] by blast
  then show ?case
  proof cases
    case old
    then show ?thesis using v window_precedes(1) [OF x assms(2)] less.prems by (subst topmost_loop.simps) auto
  next
    case root
    have "topmost_loop sub tx x prev = topmost_loop sub tx ?p x" using v root(1) window_precedes(1) [OF x assms(2)] by (subst topmost_loop.simps) simp
    also have "\<dots> = Some x" using root(2) by (subst topmost_loop.simps) (simp add: TransactionIdIsValid_def)
    finally show ?thesis using root less.prems by auto
  next
    case up
    have "topmost_loop sub tx x prev = topmost_loop sub tx ?p x" using v up(1) window_precedes(1) [OF x assms(2)] by (subst topmost_loop.simps) simp
    then show ?thesis using less.hyps [OF up(3,2), of x] by simp
  qed
qed

lemma topmost_committed:
  assumes "run_inv base S" "later base S S'" "in_window base tx" "x \<in> committed base S"
  shows "\<exists>T \<in> committed base S. SubTransGetTopmostTransaction (xg_sub (ru_gen S')) tx x = Some T"
proof -
  have "in_window base y \<and> (ru_parent S' y = InvalidTransactionId \<or> ru_parent S' y \<in> committed base S
      \<and> xid_age base (ru_parent S' y) < xid_age base y)" if "y \<in> committed base S" for y
  proof -
    have y: "assigned base S y" "in_window base y" using that by (simp_all add: committed_def assigned_def)
    have p: "ru_parent S' y = ru_parent S y" using assms(2) y(1) by (simp add: later_def)
    have "ru_parent S y = InvalidTransactionId \<or> ru_parent S y \<in> committed base S" "ru_parent S y = InvalidTransactionId \<or> TransactionIdPrecedes (ru_parent S y) y"
      using assms(1) that in_window_normal [OF y(2)] by (simp_all add: run_inv_def logs_inv_def)
    then show ?thesis
      using y(2) window_precedes(1) [of base "ru_parent S y" y] unfolding p by (auto simp: committed_def assigned_def)
  qed
  then show ?thesis
    using topmost_loop_in [of "committed base S" base "xg_sub (ru_gen S')", OF _ assms(3,4)]
    unfolding SubTransGetTopmostTransaction_def ru_parent_def by blast
qed

lemma topmost_running:
  assumes "proc_inv base S i" "later base S S'" "in_window base tx" "x \<in> xact_of S i" "xid_age base tx \<le> xid_age base (p_xid (ru_proc S i))"
  shows "SubTransGetTopmostTransaction (xg_sub (ru_gen S')) tx x = Some (p_xid (ru_proc S i))"
proof -
  let ?t = "p_xid (ru_proc S i)"
  have v: "TransactionIdIsValid ?t" by (rule xact_of_valid [OF assms(4)])
  have p: "ru_parent S' y = ru_parent S y" if "y \<in> xact_of S i" for y
    using assms(2) xact_of_facts(1) [OF assms(1) that] by (simp add: later_def)
  have live: "ru_parent S y \<in> xact_of S i" "xid_age base (ru_parent S y) < xid_age base y" if "y \<in> ru_live S i" for y
    using assms(1) v that by (simp_all add: proc_inv_def)
  have root: "ru_parent S ?t = InvalidTransactionId" using assms(1) v by (simp add: proc_inv_def)
  have "in_window base y \<and> (ru_parent S' y = InvalidTransactionId \<or> ru_parent S' y \<in> xact_of S i \<and> xid_age base (ru_parent S' y) < xid_age base y)"
    if "y \<in> xact_of S i" for y
  proof -
    have "y = ?t \<or> y \<in> ru_live S i" using that v by (simp add: xact_of_def)
    then show ?thesis using p [OF that] xact_of_facts(1) [OF assms(1) that] live root by (auto simp: assigned_def)
  qed
  then obtain T where T: "T \<in> xact_of S i" "SubTransGetTopmostTransaction (xg_sub (ru_gen S')) tx x = Some T"
    "xid_age base T < xid_age base tx \<or> ru_parent S' T = InvalidTransactionId"
    using topmost_loop_in [of "xact_of S i" base "xg_sub (ru_gen S')", OF _ assms(3,4)]
    unfolding SubTransGetTopmostTransaction_def ru_parent_def by blast
  have "ru_parent S T = InvalidTransactionId" using T(1,3) xact_of_facts(2) [OF assms(1) T(1)] assms(5) p by fastforce
  moreover have "ru_parent S y \<noteq> InvalidTransactionId" if "y \<in> ru_live S i" for y
  proof -
    have "in_window base (ru_parent S y)" using xact_of_facts(1) [OF assms(1) live(1) [OF that]] by (simp add: assigned_def)
    then show ?thesis using window_valid by (auto simp: TransactionIdIsValid_def)
  qed
  ultimately show ?thesis using T(1,2) v by (auto simp: xact_of_def)
qed

text \<open>
  What a backend may see of the processes while it takes a snapshot: the lock keeps transactions from ending, not new identifiers from
  being assigned and advertised.
\<close>

definition proc_seen :: "TransactionId \<Rightarrow> Running \<Rightarrow> nat \<Rightarrow> PGPROC \<Rightarrow> bool" where
  "proc_seen base S i q \<longleftrightarrow>
     proc_wf base q \<and> (in_vacuum q \<longleftrightarrow> in_vacuum (ru_proc S i))
   \<and> (if TransactionIdIsValid (p_xid (ru_proc S i)) then p_xid q = p_xid (ru_proc S i)
      else TransactionIdIsValid (p_xid q) \<longrightarrow> xid_age base (ru_next S) \<le> xid_age base (p_xid q))
   \<and> set (cached_xids (ru_proc S i)) \<subseteq> set (cached_xids q)
   \<and> set (cached_xids q) \<subseteq> set (cached_xids (ru_proc S i)) \<union> {y. xid_age base (ru_next S) \<le> xid_age base y}
   \<and> (xc_overflowed (p_subxids (ru_proc S i)) \<longrightarrow> xc_overflowed (p_subxids q))"

lemma proc_seen_refl: "proc_inv base S i \<Longrightarrow> proc_seen base S i (ru_proc S i)"
  by (simp add: proc_seen_def proc_inv_wf)

definition takes_snapshot :: "TransactionId \<Rightarrow> Running \<Rightarrow> (nat \<Rightarrow> PGPROC) \<Rightarrow> Backend \<Rightarrow> SnapshotData \<Rightarrow> bool" where
  "takes_snapshot base S seen be sn \<longleftrightarrow> run_inv base S \<and> (\<forall>i \<in> ru_procs S. proc_seen base S i (seen i))
     \<and> sn = fst (GetSnapshotData False seen be (ru_gen S) (ru_array S))"

text \<open>The transactions of lazy \<^verbatim>\<open>VACUUM\<close>, which snapshots ignore.\<close>

definition vacuum_xacts :: "Running \<Rightarrow> TransactionId set" where
  "vacuum_xacts S = (\<Union>i \<in> {i \<in> ru_procs S. in_vacuum (ru_proc S i)}. xact_of S i)"

lemma snapshot_fields:
  assumes "takes_snapshot base S seen be sn"
  defines "sc \<equiv> snapshot_scan (MyProc be) (TransactionIdAdvance (ru_latest S)) seen (pa_procs (ru_array S))"
  shows "sn_xmax sn = TransactionIdAdvance (ru_latest S)" "sn_xmin sn = sc_xmin sc" "sn_xip sn = sc_xip sc" "sn_subxip sn = sc_subxip sc"
    "sn_suboverflowed sn = sc_suboverflowed sc" "\<not> sn_takenDuringRecovery sn" "sn_curcid sn = currentCommandId be"
  using assms(1) by (simp_all add: takes_snapshot_def GetSnapshotData_def Let_def sc_def ru_latest_def split: if_splits)

lemma snapshot_bounds:
  assumes "takes_snapshot base S seen be sn"
  shows "in_window base (sn_xmax sn)" "in_window base (sn_xmin sn)"
    "in_window base x \<Longrightarrow> xid_age base x < xid_age base (sn_xmax sn) \<longleftrightarrow> xid_age base x \<le> xid_age base (ru_latest S)"
    "xid_age base (sn_xmin sn) \<le> xid_age base (sn_xmax sn)"
    "i \<in> ru_procs S \<Longrightarrow> considered (sn_xmax sn) (seen i) \<Longrightarrow> TransactionIdIsNormal (p_xid (seen i))
       \<Longrightarrow> xid_age base (sn_xmin sn) \<le> xid_age base (p_xid (seen i))"
proof -
  have inv: "run_inv base S" and seen: "\<forall>i \<in> set (pa_procs (ru_array S)). proc_wf base (seen i)"
    using assms by (simp_all add: takes_snapshot_def proc_seen_def ru_procs_def)
  have xmin: "oldest_of base (sn_xmax sn) ((\<lambda>i. p_xid (seen i)) ` {i \<in> set (pa_procs (ru_array S)). considered (sn_xmax sn) (seen i)}) (sn_xmin sn)"
    unfolding snapshot_fields [OF assms]
    by (rule snapshot_scan_xmin) (use inv seen Advance_latest_window(1) proc_wf_normal proc_wf_xid in blast)+
  then show "in_window base (sn_xmin sn)" "xid_age base (sn_xmin sn) \<le> xid_age base (sn_xmax sn)"
    "i \<in> ru_procs S \<Longrightarrow> considered (sn_xmax sn) (seen i) \<Longrightarrow> TransactionIdIsNormal (p_xid (seen i))
       \<Longrightarrow> xid_age base (sn_xmin sn) \<le> xid_age base (p_xid (seen i))"
    by (auto simp: oldest_of_def ru_procs_def)
  show "in_window base (sn_xmax sn)" by (simp add: snapshot_fields(1) [OF assms] Advance_latest_window(1) [OF inv])
  show "in_window base x \<Longrightarrow> xid_age base x < xid_age base (sn_xmax sn) \<longleftrightarrow> xid_age base x \<le> xid_age base (ru_latest S)"
    using inv age_less_Advance(1) [of base "ru_latest S" x] by (simp add: snapshot_fields(1) [OF assms] run_inv_def logs_inv_def array_inv_def)
qed

text \<open>A running transaction older than \<^verbatim>\<open>xmax\<close> is in the snapshot, by itself or by its top-level transaction.\<close>

lemma running_in_snapshot:
  assumes "takes_snapshot base S seen be sn" "i \<in> ru_procs S" "x \<in> xact_of S i" "i \<noteq> MyProc be" "\<not> in_vacuum (ru_proc S i)"
    and "xid_age base x < xid_age base (sn_xmax sn)"
  shows "p_xid (ru_proc S i) \<in> set (sn_xip sn)" "xid_age base (sn_xmin sn) \<le> xid_age base (p_xid (ru_proc S i))"
    "\<not> sn_suboverflowed sn \<Longrightarrow> x \<in> set (sn_subxip sn) \<union> set (sn_xip sn)"
proof -
  let ?t = "p_xid (ru_proc S i)" and ?m = "TransactionIdAdvance (ru_latest S)"
  have inv: "proc_inv base S i" and s: "proc_seen base S i (seen i)" and i: "i \<in> set (pa_procs (ru_array S))"
    using assms(1,2) run_inv_procs by (auto simp: takes_snapshot_def ru_procs_def)
  have v: "TransactionIdIsValid ?t" and t: "p_xid (seen i) = ?t" "in_window base ?t"
    using xact_of_valid [OF assms(3)] s proc_wf_xid [OF proc_inv_wf [OF inv]] by (simp_all add: proc_seen_def)
  have n: "TransactionIdIsNormal ?t" "xid_age base ?t < xid_age base (sn_xmax sn)"
    using t xact_of_facts(2) [OF inv assms(3)] assms(6) by (simp_all add: in_window_def)
  have c: "considered ?m (seen i)"
    using s assms(5) n t window_precedes(3) [OF t(2) snapshot_bounds(1) [OF assms(1)]] snapshot_fields(1) [OF assms(1)] by (simp add: considered_def proc_seen_def)
  show xip: "?t \<in> set (sn_xip sn)" using i c t n assms(4) by (force simp: snapshot_fields [OF assms(1)] snapshot_scan_xip)
  show "xid_age base (sn_xmin sn) \<le> xid_age base ?t"
    using snapshot_bounds(5) [OF assms(1,2)] c n t by (simp add: snapshot_fields(1) [OF assms(1)])
  show "x \<in> set (sn_subxip sn) \<union> set (sn_xip sn)" if "\<not> sn_suboverflowed sn"
  proof (cases "x = ?t")
    case False
    have o: "\<not> sc_suboverflowed (snapshot_scan (MyProc be) ?m seen (pa_procs (ru_array S)))" using that by (simp add: snapshot_fields [OF assms(1)])
    then have "\<not> xc_overflowed (p_subxids (seen i))" using i c assms(4) by (auto simp: snapshot_scan_overflowed)
    then have "x \<in> set (cached_xids (seen i))" using s inv False assms(3) v by (auto simp: proc_seen_def proc_inv_def xact_of_def)
    then show ?thesis using i c assms(4) by (auto simp: snapshot_fields [OF assms(1)] snapshot_scan_subxip [OF o])
  qed (use xip in simp)
qed

text \<open>What is in the snapshot below \<^verbatim>\<open>xmax\<close> was running.\<close>

lemma in_snapshot_running:
  assumes "takes_snapshot base S seen be sn" "x \<in> set (sn_subxip sn) \<union> set (sn_xip sn)" "xid_age base x < xid_age base (sn_xmax sn)" "in_window base x"
  shows "x \<in> running S"
proof -
  let ?m = "TransactionIdAdvance (ru_latest S)"
  have inv: "run_inv base S" using assms(1) by (simp add: takes_snapshot_def)
  have lt: "xid_age base x < xid_age base (ru_next S)"
    using snapshot_bounds(3) [OF assms(1,4)] assms(3) inv by (simp add: run_inv_def array_inv_def)
  have "\<exists>i \<in> ru_procs S. (x = p_xid (seen i) \<and> TransactionIdIsNormal (p_xid (seen i))) \<or> x \<in> set (cached_xids (seen i))"
    using assms(2) snapshot_scan_subxip_subset [of "MyProc be" ?m seen "pa_procs (ru_array S)"]
    by (auto simp: snapshot_fields [OF assms(1)] snapshot_scan_xip ru_procs_def)
  then obtain i where i: "i \<in> ru_procs S" "(x = p_xid (seen i) \<and> TransactionIdIsNormal (p_xid (seen i))) \<or> x \<in> set (cached_xids (seen i))" by blast
  have s: "proc_seen base S i (seen i)" "proc_inv base S i" using assms(1) i(1) run_inv_procs [OF inv] by (simp_all add: takes_snapshot_def)
  have "x \<in> xact_of S i"
  proof (cases "x \<in> set (cached_xids (seen i))")
    case True
    then have "x \<in> set (cached_xids (ru_proc S i))" using s(1) lt by (auto simp: proc_seen_def)
    then show ?thesis using s(2) by (auto simp: proc_inv_def xact_of_def split: if_splits)
  next
    case False
    then show ?thesis using i(2) s(1) lt proc_wf_normal by (auto simp: proc_seen_def xact_of_def split: if_splits)
  qed
  then show ?thesis using i(1) by (auto simp: running_def)
qed

lemma XidInMVCCSnapshot_spec:
  assumes "takes_snapshot base S seen be sn" "later base S S'"
    and "in_window base x" "x \<notin> ru_aborted S'" "x \<notin> xact_of S (MyProc be)" "x \<notin> vacuum_xacts S"
    and "in_window base tx" "xid_age base tx \<le> xid_age base (sn_xmin sn)"
  shows "XidInMVCCSnapshot (xg_sub (ru_gen S')) tx x sn = Some (x \<notin> committed base S)"
proof -
  have inv: "run_inv base S" using assms(1) by (simp add: takes_snapshot_def)
  note b = snapshot_bounds [OF assms(1)]
  note w = window_precedes(1) [OF assms(3) b(2)] window_precedes(3) [OF assms(3) b(1)]
  have alive: "x \<notin> committed base S \<longleftrightarrow> x \<in> running S" if "xid_age base x < xid_age base (sn_xmax sn)"
    using that b(3) [OF assms(3)] assms(2,3,4) inv by (auto simp: committed_def assigned_def later_def run_inv_def array_inv_def)
  have run: "\<exists>i \<in> ru_procs S. x \<in> xact_of S i \<and> i \<noteq> MyProc be \<and> \<not> in_vacuum (ru_proc S i)" if "x \<in> running S"
    using that assms(5,6) by (auto simp: running_def vacuum_xacts_def)
  consider (old) "xid_age base x < xid_age base (sn_xmin sn)" | (new) "xid_age base (sn_xmax sn) \<le> xid_age base x"
    | (mid) "\<not> xid_age base x < xid_age base (sn_xmin sn)" "xid_age base x < xid_age base (sn_xmax sn)" by linarith
  then show ?thesis
  proof cases
    case old
    then have lt: "xid_age base x < xid_age base (sn_xmax sn)" using b(4) by linarith
    have "x \<notin> running S"
    proof
      assume "x \<in> running S"
      then obtain i where i: "i \<in> ru_procs S" "x \<in> xact_of S i" "i \<noteq> MyProc be" "\<not> in_vacuum (ru_proc S i)" using run by blast
      then show False
        using running_in_snapshot(2) [OF assms(1) i lt] xact_of_facts(2) [OF run_inv_procs [OF inv i(1)] i(2)] old by linarith
    qed
    then show ?thesis using alive [OF lt] w(1) old by (simp add: XidInMVCCSnapshot_def)
  next
    case new
    then have "\<not> xid_age base x \<le> xid_age base (ru_latest S)" using b(3) [OF assms(3)] by linarith
    then have "x \<notin> committed base S" using inv by (auto simp: run_inv_def array_inv_def committed_def)
    then show ?thesis using w new b(4) by (simp add: XidInMVCCSnapshot_def)
  next
    case mid
    note x = alive [OF mid(2)]
    have no: "\<not> TransactionIdPrecedes x (sn_xmin sn)" "\<not> TransactionIdFollowsOrEquals x (sn_xmax sn)" using w mid by simp_all
    show ?thesis
    proof (cases "sn_suboverflowed sn")
      case False
      have "x \<in> set (sn_subxip sn) \<union> set (sn_xip sn) \<longleftrightarrow> x \<in> running S"
        using in_snapshot_running [OF assms(1) _ mid(2) assms(3)] run running_in_snapshot(3) [OF assms(1) _ _ _ _ mid(2) False] by blast
      then show ?thesis using no False x snapshot_fields(6) [OF assms(1)] by (simp add: XidInMVCCSnapshot_def)
    next
      case over: True
      have X: "XidInMVCCSnapshot (xg_sub (ru_gen S')) tx x sn = (case SubTransGetTopmostTransaction (xg_sub (ru_gen S')) tx x of None \<Rightarrow> None
          | Some T \<Rightarrow> if TransactionIdPrecedes T (sn_xmin sn) then Some False else Some (T \<in> set (sn_xip sn)))"
        using no over snapshot_fields(6) [OF assms(1)] by (simp add: XidInMVCCSnapshot_def)
      show ?thesis
      proof (cases "x \<in> running S")
        case True
        then obtain i where i: "i \<in> ru_procs S" "x \<in> xact_of S i" "i \<noteq> MyProc be" "\<not> in_vacuum (ru_proc S i)" using run by blast
        note r = running_in_snapshot [OF assms(1) i mid(2)] and p = run_inv_procs [OF inv i(1)]
        have "SubTransGetTopmostTransaction (xg_sub (ru_gen S')) tx x = Some (p_xid (ru_proc S i))"
          using topmost_running [OF p assms(2,7) i(2)] r(2) assms(8) by simp
        moreover have "\<not> TransactionIdPrecedes (p_xid (ru_proc S i)) (sn_xmin sn)"
          using r(2) window_precedes(1) [OF proc_wf_xid [OF proc_inv_wf [OF p] xact_of_valid [OF i(2)]] b(2)] by simp
        ultimately show ?thesis using r(1) x True by (simp add: X)
      next
        case False
        then obtain T where T: "T \<in> committed base S" "SubTransGetTopmostTransaction (xg_sub (ru_gen S')) tx x = Some T"
          using topmost_committed [OF inv assms(2,7)] x by blast
        have "in_window base T" "T \<notin> running S" "xid_age base T < xid_age base (sn_xmax sn)"
          using T(1) inv b(3) [of T] by (auto simp: committed_def assigned_def run_inv_def array_inv_def not_le [symmetric])
        then have "T \<notin> set (sn_xip sn)" using in_snapshot_running [OF assms(1), of T] by blast
        then show ?thesis using T(2) x False by (simp add: X)
      qed
    qed
  qed
qed

section \<open>Which transactions are in progress\<close>

lemma later_age:
  assumes "in_window base x" "in_window base y" "xid_age base x \<le> xid_age base y"
  shows "xid_age x y < 2 ^ 31"
proof -
  have "y - x = (y - base) - (x - base)" by simp
  then have "xid_age x y = xid_age base y - xid_age base x"
    using assms(3) by (simp only: xid_age_def unat_sub word_le_nat_alt)
  then show ?thesis using assms(2) by (auto simp: in_window_def)
qed

lemma run_inv_sub_ordered: "run_inv base S \<Longrightarrow> sub_ordered (xg_sub (ru_gen S)) tx"
  by (simp add: run_inv_def logs_inv_def sub_ordered_def ru_parent_def)

lemma committed_xact_status: "run_inv base S \<Longrightarrow> x \<in> committed base S \<Longrightarrow> clog_status (xg_clog (ru_gen S)) x = TRANSACTION_STATUS_COMMITTED"
  by (simp add: run_inv_def logs_inv_def ru_status_def)

text \<open>A committed transaction answers for itself; at most it replaces the cached one.\<close>

lemma committed_answers:
  assumes "clog_status clog x = TRANSACTION_STATUS_COMMITTED" "TransactionIdIsNormal x" "cache_ok clog cache"
  shows "\<exists>c. TransactionIdDidAbort clog sub tx cache x = Some (False, c) \<and> cache_ok clog c \<and> cachedFetchXid c \<in> {x, cachedFetchXid cache}"
    "\<exists>c. TransactionIdDidCommit clog sub tx cache x = Some (True, c) \<and> cache_ok clog c \<and> cachedFetchXid c \<in> {x, cachedFetchXid cache}"
proof -
  obtain st c where f: "TransactionLogFetch clog cache x = (st, c)" by fastforce
  then have "st = xact_status (clog_status clog) x" and c: "cache_ok clog c"
    using TransactionLogFetch_spec [OF assms(3) normal_valid [OF assms(2)]] by auto
  then have st: "st = TRANSACTION_STATUS_COMMITTED" using assms(1,2) by (simp add: xact_status_def)
  have "cachedFetchXid c \<in> {x, cachedFetchXid cache}" using f by (auto simp: TransactionLogFetch_def split: if_splits prod.splits)
  then show "\<exists>c. TransactionIdDidAbort clog sub tx cache x = Some (False, c) \<and> cache_ok clog c \<and> cachedFetchXid c \<in> {x, cachedFetchXid cache}"
    "\<exists>c. TransactionIdDidCommit clog sub tx cache x = Some (True, c) \<and> cache_ok clog c \<and> cachedFetchXid c \<in> {x, cachedFetchXid cache}"
    using c by (subst TransactionIdDidAbort.simps TransactionIdDidCommit.simps, simp add: f st)+
qed

text \<open>
  A backend of a running server: its stack holds the transactions of its process, \<^verbatim>\<open>TransactionXmin\<close> and
  \<^verbatim>\<open>RecentXmin\<close> stem from snapshots, and the cached identifier is not running.
\<close>

definition backend_ok :: "TransactionId \<Rightarrow> Running \<Rightarrow> Backend \<Rightarrow> bool" where
  "backend_ok base S be \<longleftrightarrow> MyProc be \<in> ru_procs S \<and> stack_wf base (be_stack be) \<and> own_xids (be_stack be) = xact_of S (MyProc be)
     \<and> in_window base (be_TransactionXmin be) \<and> in_window base (RecentXmin be)
     \<and> xid_age base (be_TransactionXmin be) \<le> xid_age base (RecentXmin be)"

definition cache_idle :: "Running \<Rightarrow> XactCache \<Rightarrow> bool" where
  "cache_idle S cache \<longleftrightarrow> cache_ok (xg_clog (ru_gen S)) cache \<and> cachedFetchXid cache \<notin> running S"

definition not_before :: "TransactionId \<Rightarrow> Running \<Rightarrow> TransactionId \<Rightarrow> TransactionId \<Rightarrow> bool" where
  "not_before base S xmin x \<longleftrightarrow> (\<forall>i \<in> ru_procs S. x \<in> xact_of S i \<longrightarrow> xid_age base xmin \<le> xid_age base (p_xid (ru_proc S i)))"

lemma current_iff:
  assumes "backend_ok base S be" "in_window base x"
  shows "TransactionIdIsCurrentTransactionId (be_stack be) x \<longleftrightarrow> x \<in> xact_of S (MyProc be)"
  using assms TransactionIdIsCurrent_spec [of base "be_stack be" x] by (auto simp: backend_ok_def in_window_def)

lemma scan_procs_found:
  assumes "run_inv base S" "scan_procs x me (xg_procs (ru_gen S)) (pa_procs (ru_array S)) [] = None"
  shows "x \<in> running S"
proof -
  obtain i where "i \<in> ru_procs S" "TransactionIdIsValid (p_xid (ru_proc S i))"
    "p_xid (ru_proc S i) = x \<or> x \<in> set (cached_xids (ru_proc S i))"
    using assms(2) by (auto simp: scan_procs_spec ru_procs_def ru_proc_def split: if_splits)
  moreover have "set (cached_xids (ru_proc S i)) \<subseteq> ru_live S i" using run_inv_procs [OF assms(1) calculation(1)] by (simp add: proc_inv_def)
  ultimately show ?thesis by (auto simp: running_def xact_of_def)
qed

lemma scan_procs_rest:
  assumes "run_inv base S" "scan_procs x me (xg_procs (ru_gen S)) (pa_procs (ru_array S)) [] = Some xids"
  shows "set xids \<subseteq> running S"
    "i \<in> ru_procs S \<Longrightarrow> i \<noteq> me \<Longrightarrow> x \<in> xact_of S i \<Longrightarrow> p_xid (ru_proc S i) \<in> set xids \<and> p_xid (ru_proc S i) \<noteq> x"
proof -
  have no: "\<not> (TransactionIdIsValid (p_xid (ru_proc S i)) \<and> (p_xid (ru_proc S i) = x \<or> \<not> TransactionIdPrecedes x (p_xid (ru_proc S i)) \<and> x \<in> set (cached_xids (ru_proc S i))))"
    if "i \<in> ru_procs S" "i \<noteq> me" for i
    using assms(2) that by (auto simp: scan_procs_spec ru_procs_def ru_proc_def split: if_splits)
  have xids: "xids = map (\<lambda>i. p_xid (ru_proc S i)) (filter (\<lambda>i. i \<noteq> me \<and> TransactionIdIsValid (p_xid (ru_proc S i))
      \<and> \<not> TransactionIdPrecedes x (p_xid (ru_proc S i)) \<and> xc_overflowed (p_subxids (ru_proc S i))) (pa_procs (ru_array S)))"
    using assms(2) by (simp add: scan_procs_spec ru_proc_def split: if_splits)
  then show "set xids \<subseteq> running S" by (auto simp: running_def xact_of_def ru_procs_def)
  assume i: "i \<in> ru_procs S" "i \<noteq> me" "x \<in> xact_of S i"
  have p: "proc_inv base S i" by (rule run_inv_procs [OF assms(1) i(1)])
  have t: "in_window base (p_xid (ru_proc S i))" "TransactionIdIsValid (p_xid (ru_proc S i))" "in_window base x"
    using proc_wf_xid [OF proc_inv_wf [OF p]] xact_of_valid [OF i(3)] xact_of_facts(1) [OF p i(3)] by (simp_all add: assigned_def)
  have np: "\<not> TransactionIdPrecedes x (p_xid (ru_proc S i))" using window_precedes(1) [OF t(3,1)] xact_of_facts(2) [OF p i(3)] by simp
  then have n: "x \<noteq> p_xid (ru_proc S i)" "x \<notin> set (cached_xids (ru_proc S i))" using no [OF i(1,2)] t(2) by auto
  then have "xc_overflowed (p_subxids (ru_proc S i))" using p i(3) t(2) by (auto simp: proc_inv_def xact_of_def)
  then show "p_xid (ru_proc S i) \<in> set xids \<and> p_xid (ru_proc S i) \<noteq> x" using i np n t(2) by (auto simp: xids ru_procs_def)
qed

text \<open>The last step: the top-level transaction is looked up in the subtransaction log.\<close>

definition in_progress_ok :: "TransactionId \<Rightarrow> Running \<Rightarrow> Running \<Rightarrow> Backend \<Rightarrow> XactCache \<Rightarrow> TransactionId \<Rightarrow> (bool \<times> XactCache) option \<Rightarrow> bool" where
  "in_progress_ok base S S2 be cache x r \<longleftrightarrow> (\<exists>b c. r = Some (b, c) \<and> cache_ok (xg_clog (ru_gen S2)) c
    \<and> (x \<in> running S \<longrightarrow> b \<or> did_abort (clog_status (xg_clog (ru_gen S2))) (xg_sub (ru_gen S2)) (be_TransactionXmin be) x)
    \<and> (x \<in> committed base S \<longrightarrow> \<not> b \<and> cachedFetchXid c \<in> {x, cachedFetchXid cache}))"

lemma in_progress_okI:
  assumes "x \<in> running S \<Longrightarrow> b" "x \<in> committed base S \<Longrightarrow> \<not> b" "cache_ok (xg_clog (ru_gen S2)) cache"
  shows "in_progress_ok base S S2 be cache x (Some (b, cache))"
  using assms by (auto simp: in_progress_ok_def)

lemma in_progress_logs:
  assumes "run_inv base S" "later base S S2" "cache_ok (xg_clog (ru_gen S2)) cache"
    and "in_window base x" "in_window base (be_TransactionXmin be)" "xid_age base (be_TransactionXmin be) \<le> xid_age base x"
    and "set xids \<subseteq> running S"
    and "\<And>i. i \<in> ru_procs S \<Longrightarrow> x \<in> xact_of S i \<Longrightarrow> p_xid (ru_proc S i) \<in> set xids \<and> p_xid (ru_proc S i) \<noteq> x
           \<and> xid_age base (be_TransactionXmin be) \<le> xid_age base (p_xid (ru_proc S i))"
  defines "g2 \<equiv> ru_gen S2" and "tx \<equiv> be_TransactionXmin be"
  shows "in_progress_ok base S S2 be cache x
    (case TransactionIdDidAbort (xg_clog g2) (xg_sub g2) tx cache x of None \<Rightarrow> None
     | Some (True, cache1) \<Rightarrow> Some (False, cache1)
     | Some (False, cache1) \<Rightarrow> (case SubTransGetTopmostTransaction (xg_sub g2) tx x of None \<Rightarrow> None
         | Some topxid \<Rightarrow> Some (topxid \<noteq> x \<and> topxid \<in> set xids, cache1)))"
proof -
  have inv2: "run_inv base S2" and so: "sub_ordered (xg_sub g2) tx"
    using assms(2) run_inv_sub_ordered by (auto simp: later_def g2_def)
  have age: "xid_age tx x < 2 ^ 31" using later_age [OF assms(5,4,6)] by (simp add: tx_def)
  then have known: "xid_known tx x" "TransactionIdIsNormal tx" "TransactionIdIsNormal x"
    using assms(4,5) by (simp_all add: xid_known_def window_valid in_window_normal tx_def)
  let ?ab = "did_abort (clog_status (xg_clog g2)) (xg_sub g2) tx x"
  obtain c where c: "TransactionIdDidAbort (xg_clog g2) (xg_sub g2) tx cache x = Some (?ab, c)" "cache_ok (xg_clog g2) c"
    using TransactionIdDidAbort_spec [OF so known(2,1)] assms(3) by (auto simp: g2_def)
  obtain T where T: "SubTransGetTopmostTransaction (xg_sub g2) tx x = Some T"
    using topmost_loop_returns [OF so known(2,3) age] unfolding SubTransGetTopmostTransaction_def by blast
  have run: "T \<noteq> x \<and> T \<in> set xids" if x: "x \<in> running S"
  proof -
    obtain i where i: "i \<in> ru_procs S" "x \<in> xact_of S i" using x by (auto simp: running_def)
    then show ?thesis
      using topmost_running [OF run_inv_procs [OF assms(1) i(1)] assms(2,5) i(2)] assms(8) [OF i] T by (simp add: g2_def tx_def)
  qed
  have com: "T \<notin> set xids \<and> \<not> ?ab \<and> cachedFetchXid c \<in> {x, cachedFetchXid cache}" if x: "x \<in> committed base S"
  proof -
    have "clog_status (xg_clog g2) x = TRANSACTION_STATUS_COMMITTED"
      using committed_xact_status [OF inv2] x assms(2) by (auto simp: later_def g2_def)
    then have "\<not> ?ab \<and> cachedFetchXid c \<in> {x, cachedFetchXid cache}"
      using committed_answers(1) [of "xg_clog g2" x cache "xg_sub g2" tx] known(3) assms(3) c(1) by (auto simp: g2_def)
    moreover have "T \<in> committed base S" using topmost_committed [OF assms(1,2,5) x] T by (auto simp: g2_def tx_def)
    ultimately show ?thesis using assms(7) by (auto simp: committed_def)
  qed
  show ?thesis
    using run com c(2) unfolding in_progress_ok_def g2_def [symmetric] tx_def [symmetric] c(1) T by (cases ?ab) auto
qed

lemma TransactionIdIsInProgress_spec:
  assumes "run_inv base S" "backend_ok base S be" "later base S S2" "cache_ok (xg_clog (ru_gen S2)) cache" "cachedFetchXid cache \<notin> running S"
    and "in_window base x" "not_before base S (RecentXmin be) x"
  shows "in_progress_ok base S S2 be cache x (TransactionIdIsInProgress False be (ru_gen S) (ru_array S) (ru_gen S2) cache x)"
proof -
  let ?g = "ru_gen S" and ?g2 = "ru_gen S2" and ?tx = "be_TransactionXmin be"
  have be: "MyProc be \<in> ru_procs S" "in_window base ?tx" "in_window base (RecentXmin be)" "xid_age base ?tx \<le> xid_age base (RecentXmin be)"
    using assms(2) by (simp_all add: backend_ok_def)
  have nb: "xid_age base (RecentXmin be) \<le> xid_age base (p_xid (ru_proc S i))" "xid_age base (RecentXmin be) \<le> xid_age base x"
    if "i \<in> ru_procs S" "x \<in> xact_of S i" for i
    using assms(7) that xact_of_facts(2) [OF run_inv_procs [OF assms(1) that(1)] that(2)] by (auto simp: not_before_def)
  have disj: "x \<in> committed base S \<Longrightarrow> x \<notin> running S" by (simp add: committed_def)
  have old: "TransactionIdPrecedes x (RecentXmin be) \<longleftrightarrow> xid_age base x < xid_age base (RecentXmin be)"
    "TransactionIdPrecedes x (RecentXmin be) \<Longrightarrow> x \<notin> running S"
    using window_precedes(1) [OF assms(6) be(3)] nb(2) by (auto simp: running_def not_le [symmetric])
  have new: "TransactionIdPrecedes (ru_latest S) x \<Longrightarrow> x \<notin> committed base S"
    using assms(1,6) window_precedes(1) [of base "ru_latest S" x] by (auto simp: run_inv_def array_inv_def committed_def)
  have own: "x \<in> xact_of S (MyProc be) \<Longrightarrow> x \<in> running S" using be(1) by (auto simp: running_def)
  show ?thesis
  proof (cases "scan_procs x (MyProc be) (xg_procs ?g) (pa_procs (ru_array S)) []")
    case None
    then show ?thesis
      using scan_procs_found [OF assms(1) None] old(2) new own disj assms(4,5)
      by (auto simp: TransactionIdIsInProgress_def current_iff [OF assms(2,6)] TransactionIdIsKnownCompleted_def ru_latest_def [symmetric]
          intro!: in_progress_okI)
  next
    case (Some xids)
    note rest = scan_procs_rest [OF assms(1) Some]
    have none: "x \<in> running S \<Longrightarrow> x \<notin> xact_of S (MyProc be) \<Longrightarrow> xids \<noteq> []" using rest(2) by (fastforce simp: running_def)
    have logs: "in_progress_ok base S S2 be cache x
        (case TransactionIdDidAbort (xg_clog ?g2) (xg_sub ?g2) ?tx cache x of None \<Rightarrow> None
         | Some (True, cache1) \<Rightarrow> Some (False, cache1)
         | Some (False, cache1) \<Rightarrow> (case SubTransGetTopmostTransaction (xg_sub ?g2) ?tx x of None \<Rightarrow> None
             | Some topxid \<Rightarrow> Some (topxid \<noteq> x \<and> topxid \<in> set xids, cache1)))"
      if "\<not> TransactionIdPrecedes x (RecentXmin be)" "x \<notin> xact_of S (MyProc be)"
    proof (rule in_progress_logs [OF assms(1,3,4,6) be(2)])
      show "xid_age base ?tx \<le> xid_age base x" using that(1) old(1) be(4) by simp
      show "p_xid (ru_proc S i) \<in> set xids \<and> p_xid (ru_proc S i) \<noteq> x \<and> xid_age base ?tx \<le> xid_age base (p_xid (ru_proc S i))"
        if "i \<in> ru_procs S" "x \<in> xact_of S i" for i
        using rest(2) [OF that(1) _ that(2)] nb(1) [OF that] be(4) \<open>x \<notin> xact_of S (MyProc be)\<close> that(2) by force
    qed (rule rest(1))
    show ?thesis
      using logs none old(2) new own disj assms(4,5)
      by (auto simp: TransactionIdIsInProgress_def Some current_iff [OF assms(2,6)] TransactionIdIsKnownCompleted_def ru_latest_def [symmetric]
          intro!: in_progress_okI)
  qed
qed

text \<open>Later transactions, and those running, are not older than a snapshot's xmin.\<close>

lemma snapshot_not_before:
  assumes "takes_snapshot base S0 seen be0 sn" "later base S0 S" "y \<in> running S" "y \<notin> vacuum_xacts S0"
  shows "xid_age base (sn_xmin sn) \<le> xid_age base y"
proof -
  have inv: "run_inv base S0" "run_inv base S" using assms(1,2) by (simp_all add: takes_snapshot_def later_def)
  have y: "in_window base y" using running_assigned [OF inv(2) assms(3)] by (simp add: assigned_def)
  note b = snapshot_bounds [OF assms(1)]
  show ?thesis
  proof (cases "xid_age base y < xid_age base (sn_xmax sn)")
    case True
    then have "assigned base S0 y" using y b(3) inv(1) by (simp add: assigned_def run_inv_def array_inv_def)
    then have "y \<in> running S0" using assms(2,3) by (auto simp: later_def)
    then obtain i where i: "i \<in> ru_procs S0" "y \<in> xact_of S0 i" "\<not> in_vacuum (ru_proc S0 i)" using assms(4) by (auto simp: running_def vacuum_xacts_def)
    have p: "proc_inv base S0 i" and s: "proc_seen base S0 i (seen i)" using run_inv_procs [OF inv(1) i(1)] assms(1) i(1) by (simp_all add: takes_snapshot_def)
    have t: "p_xid (seen i) = p_xid (ru_proc S0 i)" "in_window base (p_xid (seen i))" "\<not> in_vacuum (seen i)"
      using xact_of_valid [OF i(2)] s proc_wf_xid [OF proc_inv_wf [OF p]] i(3) by (simp_all add: proc_seen_def)
    have le: "xid_age base (p_xid (seen i)) \<le> xid_age base y" using xact_of_facts(2) [OF p i(2)] t(1) by simp
    then have "considered (sn_xmax sn) (seen i)" using True t window_precedes(3) [OF t(2) b(1)] by (simp add: considered_def)
    then show ?thesis using b(5) [OF i(1)] in_window_normal [OF t(2)] le by (meson le_trans)
  qed (use b(4) in linarith)
qed

text \<open>
  A server in the middle of a commit: the log has the statuses of transaction 101 and its subtransaction 102, whose process is still in
  the array and does not have the subtransaction in its cache.
\<close>

definition mid_commit :: Running where
  "mid_commit = \<lparr>ru_gen = \<lparr>xg_cache = start_cache 100 104, xg_clog = TransactionIdCommitTree False 101 1 (\<lambda>_. 102) clog_zero,
       xg_sub = SubTransSetParent 102 101 sub_zero,
       xg_procs = (\<lambda>_. zero_proc)(0 := zero_proc\<lparr>p_xid := 101, p_subxids := \<lparr>xc_overflowed = True, xc_nxids = 0, xc_xids = replicate 64 0\<rparr>\<rparr>)\<rparr>,
     ru_array = two_procs, ru_live = (\<lambda>_. {})(0 := {102}), ru_aborted = {100, 103}\<rparr>"

lemma mid_commit_parts:
  "ru_parent mid_commit x = (if x = 102 then 101 else InvalidTransactionId)"
  "ru_status mid_commit x = (if x = 101 \<or> x = 102 then TRANSACTION_STATUS_COMMITTED else TRANSACTION_STATUS_IN_PROGRESS)"
  "clog_wf (xg_clog (ru_gen mid_commit))" "sub_wf (xg_sub (ru_gen mid_commit))"
  "ru_next mid_commit = 104" "ru_latest mid_commit = 103" "ru_procs mid_commit = {0, 1}" "pa_procs (ru_array mid_commit) = [0, 1]"
  "ru_live mid_commit = (\<lambda>_. {})(0 := {102})" "ru_aborted mid_commit = {100, 103}"
  "ru_proc mid_commit = (\<lambda>_. zero_proc)(0 := zero_proc\<lparr>p_xid := 101, p_subxids := \<lparr>xc_overflowed = True, xc_nxids = 0, xc_xids = replicate 64 0\<rparr>\<rparr>)"
  "pa_maxProcs (ru_array mid_commit) = 8"
proof -
  have "TransactionIdIsValid 101" by (simp add: valid_not_0)
  note st = SetTreeStatus_status [OF clog_zero_wf this, of TRANSACTION_STATUS_COMMITTED False 1 "\<lambda>_. 102" InvalidXLogRecPtr]
  show "clog_wf (xg_clog (ru_gen mid_commit))" using st by (simp add: mid_commit_def TransactionIdCommitTree_def)
  show "ru_status mid_commit x = (if x = 101 \<or> x = 102 then TRANSACTION_STATUS_COMMITTED else TRANSACTION_STATUS_IN_PROGRESS)"
    using st by (auto simp: mid_commit_def TransactionIdCommitTree_def ru_status_def)
  show "ru_parent mid_commit x = (if x = 102 then 101 else InvalidTransactionId)"
    using SubTrans_one_parent [of 101 102 x] by (simp add: ru_parent_def mid_commit_def normal_ge_3 InvalidTransactionId_def)
  show "sub_wf (xg_sub (ru_gen mid_commit))" by (simp add: mid_commit_def SetParent_wf sub_zero_wf)
qed (auto simp: mid_commit_def ru_next_def ru_latest_def ru_procs_def ru_proc_def two_procs_def empty_known_def start_cache_def
    SetTransactionIdLimit_def Let_def)

lemma age_101: "xid_age 100 101 = 1" "xid_age 100 102 = 2" "xid_age 100 103 = 3" "xid_age 100 104 = 4" "xid_age 100 100 = 0"
  by (simp_all add: xid_age_def)

lemma mid_commit_assigned: "assigned 100 mid_commit x \<longleftrightarrow> x \<in> {100, 101, 102, 103}"
proof -
  have "xid_age 100 x < 4 \<longleftrightarrow> xid_age 100 x \<in> {xid_age 100 100, xid_age 100 101, xid_age 100 102, xid_age 100 103}"
    by (auto simp: age_101)
  also have "\<dots> \<longleftrightarrow> x \<in> {100, 101, 102, 103}" using xid_age_inj [of 100 x] by blast
  finally show ?thesis by (auto simp: assigned_def mid_commit_parts age_101 in_window_def normal_ge_3)
qed

lemma mid_commit_xacts: "xact_of mid_commit i = (if i = 0 then {101, 102} else {})" "running mid_commit = {101, 102}"
    "committed 100 mid_commit = {}"
  by (auto simp: xact_of_def running_def committed_def mid_commit_assigned mid_commit_parts zero_proc_def valid_not_0)

lemma mid_commit_inv: "run_inv 100 mid_commit"
proof -
  have "logs_ready (ru_gen mid_commit)"
    using mid_commit_parts(3-5) mid_commit_parts(1,2) [unfolded ru_parent_def ru_status_def]
    by (auto simp: logs_ready_def ru_next_def normal_ge_3 word_less_nat_alt)
  then have "logs_inv 100 mid_commit"
    by (auto simp: logs_inv_def mid_commit_xacts mid_commit_assigned mid_commit_parts in_window_def normal_ge_3 age_101 not_committed_status_def
        TransactionIdPrecedes_def)
  moreover have "proc_inv 100 mid_commit i" if "i \<in> {0, 1}" for i
    using that by (auto simp: proc_inv_def mid_commit_parts mid_commit_assigned mid_commit_xacts zero_proc_def valid_not_0 proc_wf_def cached_xids_def
        PGPROC_MAX_CACHED_SUBXIDS_def in_window_def normal_ge_3 age_101)
  moreover have "\<not> assigned 100 mid_commit x \<or> xid_age 100 x \<le> 3" for x by (auto simp: mid_commit_assigned age_101)
  ultimately show ?thesis
    unfolding run_inv_def array_inv_def by (auto simp: mid_commit_parts mid_commit_xacts in_window_def normal_ge_3 age_101 not_less [symmetric])
qed

section \<open>What holds of every run\<close>

text \<open>C17. However processes start and end, get identifiers, report statuses to the log, commit, abort and take snapshots, in any
  order: the server stays consistent (the array of processes, the caches of subtransactions, the latest completed identifier, the commit log
  and the subtransaction log agree), a committed transaction stays committed, an aborted one aborted, and none of them runs again.\<close>

theorem server_stays_consistent:
  assumes "(run_step base)\<^sup>*\<^sup>* S S'" "run_inv base S"
  shows "run_inv base S' \<and> committed base S \<subseteq> committed base S' \<and> ru_aborted S \<subseteq> ru_aborted S'
    \<and> running S' \<inter> (committed base S \<union> ru_aborted S) = {}"
  using run_steps_later [OF assms] assms(2)
  by (auto simp: later_def committed_def run_inv_def logs_inv_def)

definition after_commit :: Running where
  "after_commit = mid_commit\<lparr>ru_gen := ProcArrayEndTransaction 0 (TransactionIdLatest 101 [102]) (ru_gen mid_commit), ru_live := (\<lambda>_. {})\<rparr>"

lemma commit_happens: "(run_step 100)\<^sup>*\<^sup>* mid_commit after_commit"
proof -
  have "run_step 100 mid_commit (mid_commit\<lparr>ru_gen := ProcArrayEndTransaction 0 (TransactionIdLatest (p_xid (ru_proc mid_commit 0)) [102]) (ru_gen mid_commit),
      ru_live := (ru_live mid_commit)(0 := {})\<rparr>)"
    by (rule run_step.commit) (auto simp: mid_commit_parts mid_commit_xacts valid_not_0)
  moreover have "(ru_live mid_commit)(0 := {}) = (\<lambda>_. {})" by (auto simp: mid_commit_parts)
  ultimately have "run_step 100 mid_commit after_commit" by (simp add: after_commit_def mid_commit_parts(11))
  then show ?thesis by (rule r_into_rtranclp)
qed

lemma after_commit_xacts: "xact_of after_commit i = {}" "running after_commit = {}" "ru_next after_commit = 104" "ru_aborted after_commit = {100, 103}"
proof -
  have z: "ru_proc after_commit i = (if i = 0 then clear_xids (clear_transaction (ru_proc mid_commit 0)) else zero_proc)" for i
    using mid_commit_parts(11) by (simp add: after_commit_def ProcArrayEndTransaction_def ru_proc_def Let_def valid_not_0 TransactionIdLatest_def fun_eq_iff)
  show x: "xact_of after_commit i = {}" for i
    by (simp add: xact_of_def z clear_xids_def clear_transaction_def valid_not_0 InvalidTransactionId_def zero_proc_def)
  then show "running after_commit = {}" by (simp add: running_def)
  show "ru_next after_commit = 104" using mid_commit_parts(5) by (simp add: after_commit_def ru_next_def End_frame)
  show "ru_aborted after_commit = {100, 103}" by (simp add: after_commit_def mid_commit_parts)
qed

lemma after_commit_committed: "committed 100 after_commit = {101, 102}"
proof -
  have "assigned 100 after_commit x \<longleftrightarrow> x \<in> {100, 101, 102, 103}" for x
    using mid_commit_assigned [of x] unfolding assigned_def after_commit_xacts(3) mid_commit_parts(5) .
  then show ?thesis by (auto simp: committed_def after_commit_xacts)
qed

theorem server_stays_consistent_witness: "\<exists>S'. (run_step 100)\<^sup>*\<^sup>* mid_commit S' \<and> run_inv 100 S' \<and> committed 100 S' = {101, 102}"
  using server_stays_consistent [OF commit_happens mid_commit_inv] commit_happens after_commit_committed by blast

text \<open>C16. A snapshot is exact.  A backend takes a snapshot while other processes advertise new identifiers; whenever it asks
  later, whatever happened since, the test whether a transaction counts as running for the snapshot says yes exactly if that transaction had
  not committed when the snapshot was taken.  This also holds for subtransactions that did not fit into a cache and are traced to their
  top-level transaction.  It does not speak of the transactions of the backend itself and of lazy \<^verbatim>\<open>VACUUM\<close>, which
  snapshots leave out, and of those aborted.\<close>

theorem XidInMVCCSnapshot_exact:
  assumes "takes_snapshot base S seen be sn" "(run_step base)\<^sup>*\<^sup>* S S'"
    and "in_window base x" "x \<notin> ru_aborted S'" "x \<notin> xact_of S (MyProc be)" "x \<notin> vacuum_xacts S"
    and "in_window base tx" "xid_age base tx \<le> xid_age base (sn_xmin sn)"
  shows "XidInMVCCSnapshot (xg_sub (ru_gen S')) tx x sn = Some (x \<notin> committed base S)"
  using XidInMVCCSnapshot_spec [OF assms(1) run_steps_later [OF assms(2)]] assms by (simp add: takes_snapshot_def)

definition mid_snapshot :: SnapshotData where
  "mid_snapshot = fst (GetSnapshotData False (xg_procs (ru_gen mid_commit)) plain_backend (ru_gen mid_commit) (ru_array mid_commit))"

lemma mid_takes_snapshot: "takes_snapshot 100 mid_commit (xg_procs (ru_gen mid_commit)) plain_backend mid_snapshot"
  using mid_commit_inv run_inv_procs proc_seen_refl by (auto simp: takes_snapshot_def mid_snapshot_def ru_proc_def [symmetric])

lemma mid_not_vacuum: "\<not> in_vacuum (ru_proc mid_commit i)" "vacuum_xacts mid_commit = {}"
  by (auto simp: mid_commit_parts in_vacuum_def zero_proc_def vacuum_xacts_def)

lemma mid_snapshot_xmin: "sn_xmin mid_snapshot = 101"
proof -
  have "sn_xmin mid_snapshot = sc_xmin (snapshot_scan 1 104 (ru_proc mid_commit) [0, 1])"
    using snapshot_fields(2) [OF mid_takes_snapshot] mid_commit_parts(6,8)
    by (simp add: plain_backend_def ru_proc_def [abs_def] TransactionIdAdvance_def FirstNormalTransactionId_def)
  also have "\<dots> \<in> {101, 104}"
    using snapshot_scan_xmin [of 100 104 "[0, 1]" "ru_proc mid_commit" 1]
    by (auto simp: oldest_of_def mid_commit_parts in_window_def normal_ge_3 age_101 zero_proc_def considered_def)
  finally show ?thesis
    using snapshot_not_before [OF mid_takes_snapshot later_refl [OF mid_commit_inv], of 101] by (auto simp: mid_commit_xacts mid_not_vacuum age_101)
qed

theorem XidInMVCCSnapshot_exact_witness:
  "102 \<in> committed 100 after_commit \<and> XidInMVCCSnapshot (xg_sub (ru_gen after_commit)) 101 102 mid_snapshot = Some True"
  using XidInMVCCSnapshot_exact [OF mid_takes_snapshot commit_happens, of 102 101] mid_snapshot_xmin
  by (simp add: after_commit_committed mid_commit_xacts after_commit_xacts mid_not_vacuum plain_backend_def in_window_def normal_ge_3 age_101)

text \<open>C18. The test whether a transaction is in progress always returns.  For a transaction running when the
  array was read it says yes, unless the log already has it as aborted; for a committed one it says no.  RecentXmin stems from a
  snapshot the backend took before; the top-level transaction is not one of a lazy \<^verbatim>\<open>VACUUM\<close>.  The log is read
  after the array, maybe in a later state.  The cached identifier must not be that of a running transaction.\<close>

theorem TransactionIdIsInProgress_exact:
  assumes "takes_snapshot base S0 seen be0 sn" "(run_step base)\<^sup>*\<^sup>* S0 S" "(run_step base)\<^sup>*\<^sup>* S S2"
    and "backend_ok base S be" "RecentXmin be = sn_xmin sn" "cache_ok (xg_clog (ru_gen S2)) cache" "cachedFetchXid cache \<notin> running S"
    and "in_window base x" "\<forall>i \<in> ru_procs S. x \<in> xact_of S i \<longrightarrow> p_xid (ru_proc S i) \<notin> vacuum_xacts S0"
  shows "\<exists>b c. TransactionIdIsInProgress False be (ru_gen S) (ru_array S) (ru_gen S2) cache x = Some (b, c)
    \<and> (x \<in> running S \<longrightarrow> b \<or> did_abort (clog_status (xg_clog (ru_gen S2))) (xg_sub (ru_gen S2)) (be_TransactionXmin be) x)
    \<and> (x \<in> committed base S \<longrightarrow> \<not> b)"
proof -
  have l: "later base S0 S" using run_steps_later [OF assms(2)] assms(1) by (simp add: takes_snapshot_def)
  then have inv: "run_inv base S" by (simp add: later_def)
  have "not_before base S (RecentXmin be) x"
    unfolding not_before_def assms(5)
  proof (intro ballI impI)
    fix i assume i: "i \<in> ru_procs S" "x \<in> xact_of S i"
    then have "p_xid (ru_proc S i) \<in> running S" using xact_of_valid [OF i(2)] by (auto simp: running_def xact_of_def)
    then show "xid_age base (sn_xmin sn) \<le> xid_age base (p_xid (ru_proc S i))" using snapshot_not_before [OF assms(1) l] assms(9) i by blast
  qed
  then have "in_progress_ok base S S2 be cache x (TransactionIdIsInProgress False be (ru_gen S) (ru_array S) (ru_gen S2) cache x)"
    using TransactionIdIsInProgress_spec [OF inv assms(4) run_steps_later [OF assms(3) inv] assms(6-8)] by blast
  then show ?thesis by (auto simp: in_progress_ok_def)
qed

definition asking_backend :: Backend where
  "asking_backend = plain_backend\<lparr>RecentXmin := sn_xmin mid_snapshot, be_TransactionXmin := 101\<rparr>"

lemma asking_backend_ok: "backend_ok 100 mid_commit asking_backend"
  using mid_snapshot_xmin snapshot_bounds(2) [OF mid_takes_snapshot]
  by (simp add: backend_ok_def asking_backend_def plain_backend_def mid_commit_parts mid_commit_xacts stack_wf_def own_xids_def in_window_def normal_ge_3 age_101)

lemma mid_did_not_abort: "\<not> did_abort (clog_status (xg_clog (ru_gen mid_commit))) (xg_sub (ru_gen mid_commit)) tx 102"
  using mid_commit_parts(2) [of 102] by (simp add: did_abort_step [of _ _ _ 102] asks_parent_def xact_status_def normal_ge_3 ru_status_def)

theorem TransactionIdIsInProgress_exact_witness:
  "\<exists>c. TransactionIdIsInProgress False asking_backend (ru_gen mid_commit) (ru_array mid_commit) (ru_gen mid_commit) (be_fetch asking_backend) 102 = Some (True, c)"
  using TransactionIdIsInProgress_exact [OF mid_takes_snapshot rtranclp.rtrancl_refl rtranclp.rtrancl_refl asking_backend_ok, of "be_fetch asking_backend" 102]
    mid_did_not_abort
  by (auto simp: asking_backend_def plain_backend_def mid_commit_xacts mid_not_vacuum cache_ok_def valid_not_0 in_window_def normal_ge_3 age_101)

lemma uncached_scan:
  assumes "run_inv base S" "i \<in> ru_procs S" "i \<noteq> me" "x \<in> ru_live S i" "x \<notin> set (cached_xids (ru_proc S i))"
  shows "\<exists>xids. scan_procs x me (xg_procs (ru_gen S)) (pa_procs (ru_array S)) [] = Some xids \<and> p_xid (ru_proc S i) \<in> set xids \<and> p_xid (ru_proc S i) \<noteq> x"
proof -
  have p: "proc_inv base S i" by (rule run_inv_procs [OF assms(1,2)])
  then have x: "x \<in> xact_of S i" and n: "p_xid (ru_proc S i) \<noteq> x" using assms(4) by (auto simp: proc_inv_def xact_of_def split: if_splits)
  have one: "x \<notin> xact_of S j" if "j \<in> ru_procs S" "j \<noteq> i" for j
    using assms(1,2) that x by (auto simp: run_inv_def array_inv_def)
  have "p_xid (ru_proc S j) \<noteq> x \<and> x \<notin> set (cached_xids (ru_proc S j))" if j: "j \<in> ru_procs S" "TransactionIdIsValid (p_xid (ru_proc S j))" for j
  proof (cases "j = i")
    case False
    have "set (cached_xids (ru_proc S j)) \<subseteq> ru_live S j" using run_inv_procs [OF assms(1) j(1)] by (simp add: proc_inv_def)
    then show ?thesis using one [OF j(1) False] j(2) by (auto simp: xact_of_def)
  qed (use n assms(5) in simp)
  then obtain xids where "scan_procs x me (xg_procs (ru_gen S)) (pa_procs (ru_array S)) [] = Some xids"
    by (auto simp: scan_procs_spec ru_procs_def ru_proc_def)
  then show ?thesis using scan_procs_rest(2) [OF assms(1) _ assms(2,3) x] by blast
qed

text \<open>C19. The answer can change from yes to no while the transaction is running.  Asking about a subtransaction
  that is not in the caches, while its top-level transaction is committing, fetches its status from the log and remembers it; the second time,
  in the same state, the remembered status is taken to mean that the transaction has left the array.\<close>

theorem TransactionIdIsInProgress_forgets:
  assumes "run_inv base S" "backend_ok base S be" "cache_ok (xg_clog (ru_gen S)) cache" "cachedFetchXid cache \<noteq> x" "not_before base S (RecentXmin be) x"
    and "i \<in> ru_procs S" "i \<noteq> MyProc be" "x \<in> ru_live S i" "x \<notin> set (cached_xids (ru_proc S i))"
    and "ru_status S x = TRANSACTION_STATUS_COMMITTED" "xid_age base x \<le> xid_age base (ru_latest S)"
  shows "\<exists>cache1. x \<in> running S
    \<and> TransactionIdIsInProgress False be (ru_gen S) (ru_array S) (ru_gen S) cache x = Some (True, cache1)
    \<and> TransactionIdIsInProgress False be (ru_gen S) (ru_array S) (ru_gen S) cache1 x = Some (False, cache1)"
proof -
  let ?g = "ru_gen S" and ?tx = "be_TransactionXmin be"
  have p: "proc_inv base S i" by (rule run_inv_procs [OF assms(1,6)])
  then have x: "x \<in> xact_of S i" "in_window base x" using assms(8) by (auto simp: proc_inv_def xact_of_def assigned_def split: if_splits)
  have be: "in_window base ?tx" "in_window base (RecentXmin be)" "xid_age base ?tx \<le> xid_age base (RecentXmin be)" "MyProc be \<in> ru_procs S"
    using assms(2) by (simp_all add: backend_ok_def)
  have le: "xid_age base (RecentXmin be) \<le> xid_age base (p_xid (ru_proc S i))" using assms(5,6) x(1) by (simp add: not_before_def)
  have rx: "\<not> TransactionIdPrecedes x (RecentXmin be)"
    using le xact_of_facts(2) [OF p x(1)] window_precedes(1) [OF x(2) be(2)] by simp
  have cur: "\<not> TransactionIdIsCurrentTransactionId (be_stack be) x"
    using current_iff [OF assms(2) x(2)] x(1) assms(1,6,7) be(4) by (auto simp: run_inv_def array_inv_def)
  have latest: "\<not> TransactionIdPrecedes (vc_latestCompletedXid (xg_cache ?g)) x"
    using assms(1,11) window_precedes(1) [of base "ru_latest S" x] x(2) by (simp add: run_inv_def array_inv_def ru_latest_def)
  obtain xids where scan: "scan_procs x (MyProc be) (xg_procs ?g) (pa_procs (ru_array S)) [] = Some xids" "p_xid (ru_proc S i) \<in> set xids" "p_xid (ru_proc S i) \<noteq> x"
    using uncached_scan [OF assms(1,6,7-9)] by blast
  define c where "c = snd (TransactionLogFetch (xg_clog ?g) cache x)"
  have fetch: "TransactionLogFetch (xg_clog ?g) cache x = (TRANSACTION_STATUS_COMMITTED, c)" "cachedFetchXid c = x"
    using assms(4,10) in_window_normal [OF x(2)] by (auto simp: TransactionLogFetch_def c_def ru_status_def clog_status_def split: prod.splits)
  have ab: "TransactionIdDidAbort (xg_clog ?g) (xg_sub ?g) ?tx cache x = Some (False, c)"
    by (subst TransactionIdDidAbort.simps) (simp add: fetch)
  have topxid: "SubTransGetTopmostTransaction (xg_sub ?g) ?tx x = Some (p_xid (ru_proc S i))"
    using topmost_running [OF p later_refl [OF assms(1)] be(1) x(1)] le be(3) by simp
  have "TransactionIdIsInProgress False be ?g (ru_array S) ?g cache x = Some (True, c)"
    using scan(2,3) assms(4) by (auto simp: TransactionIdIsInProgress_def TransactionIdIsKnownCompleted_def rx cur latest scan(1) ab topxid Let_def)
  moreover have "TransactionIdIsInProgress False be ?g (ru_array S) ?g c x = Some (False, c)"
    by (simp add: TransactionIdIsInProgress_def TransactionIdIsKnownCompleted_def fetch(2))
  moreover have "x \<in> running S" using x(1) assms(6) by (auto simp: running_def)
  ultimately show ?thesis by blast
qed

theorem TransactionIdIsInProgress_forgets_witness:
  "\<exists>cache1. 102 \<in> running mid_commit
    \<and> TransactionIdIsInProgress False asking_backend (ru_gen mid_commit) (ru_array mid_commit) (ru_gen mid_commit) (be_fetch asking_backend) 102 = Some (True, cache1)
    \<and> TransactionIdIsInProgress False asking_backend (ru_gen mid_commit) (ru_array mid_commit) (ru_gen mid_commit) cache1 102 = Some (False, cache1)"
  by (rule TransactionIdIsInProgress_forgets [OF mid_commit_inv asking_backend_ok, where i = 0])
    (simp_all add: asking_backend_def plain_backend_def mid_commit_xacts mid_commit_parts cache_ok_def valid_not_0 not_before_def mid_snapshot_xmin age_101
      cached_xids_def)

end
