(* ===== verification/Mvcc.thy ===== *)
theory Mvcc
  imports Snapshots
begin

text \<open>
  What the visibility functions of \<^verbatim>\<open>tqual.c\<close> guarantee on a running server: a reader sees what was committed when its
  snapshot was taken, and vacuum removes only what no reader can see.
\<close>

unbundle bit_operations_syntax

section \<open>Hint bits\<close>

lemma has_flag_or: "has_flag (tup\<lparr>t_infomask := t_infomask tup OR h\<rparr>) m \<longleftrightarrow> has_flag tup m \<or> h AND m \<noteq> 0"
  unfolding has_flag_def by (simp add: bit.conj_disj_distrib2 or_eq_0_iff)

lemmas hint_flags = HEAP_XMIN_COMMITTED_def HEAP_XMIN_INVALID_def HEAP_XMAX_COMMITTED_def HEAP_XMAX_INVALID_def

lemmas tuple_flags = hint_flags HEAP_XMAX_IS_MULTI_def HEAP_IS_LOCKED_def HEAP_COMBOCID_def HEAP_MOVED_OFF_def HEAP_MOVED_IN_def HEAP_MOVED_def

lemma hint_ands [simp]:
  "HEAP_XMIN_COMMITTED \<noteq> 0" "HEAP_XMIN_INVALID \<noteq> 0" "HEAP_XMAX_COMMITTED \<noteq> 0" "HEAP_XMAX_INVALID \<noteq> 0"
  "HEAP_XMIN_COMMITTED AND HEAP_XMIN_INVALID = 0" "HEAP_XMIN_COMMITTED AND HEAP_XMAX_COMMITTED = 0" "HEAP_XMIN_COMMITTED AND HEAP_XMAX_INVALID = 0" "HEAP_XMIN_COMMITTED AND HEAP_IS_LOCKED = 0" "HEAP_XMIN_COMMITTED AND HEAP_XMAX_IS_MULTI = 0" "HEAP_XMIN_COMMITTED AND HEAP_COMBOCID = 0" "HEAP_XMIN_COMMITTED AND HEAP_MOVED_OFF = 0" "HEAP_XMIN_COMMITTED AND HEAP_MOVED_IN = 0"
  "HEAP_XMIN_INVALID AND HEAP_XMIN_COMMITTED = 0" "HEAP_XMIN_INVALID AND HEAP_XMAX_COMMITTED = 0" "HEAP_XMIN_INVALID AND HEAP_XMAX_INVALID = 0" "HEAP_XMIN_INVALID AND HEAP_IS_LOCKED = 0" "HEAP_XMIN_INVALID AND HEAP_XMAX_IS_MULTI = 0" "HEAP_XMIN_INVALID AND HEAP_COMBOCID = 0" "HEAP_XMIN_INVALID AND HEAP_MOVED_OFF = 0" "HEAP_XMIN_INVALID AND HEAP_MOVED_IN = 0"
  "HEAP_XMAX_COMMITTED AND HEAP_XMIN_COMMITTED = 0" "HEAP_XMAX_COMMITTED AND HEAP_XMIN_INVALID = 0" "HEAP_XMAX_COMMITTED AND HEAP_XMAX_INVALID = 0" "HEAP_XMAX_COMMITTED AND HEAP_IS_LOCKED = 0" "HEAP_XMAX_COMMITTED AND HEAP_XMAX_IS_MULTI = 0" "HEAP_XMAX_COMMITTED AND HEAP_COMBOCID = 0" "HEAP_XMAX_COMMITTED AND HEAP_MOVED_OFF = 0" "HEAP_XMAX_COMMITTED AND HEAP_MOVED_IN = 0"
  "HEAP_XMAX_INVALID AND HEAP_XMIN_COMMITTED = 0" "HEAP_XMAX_INVALID AND HEAP_XMIN_INVALID = 0" "HEAP_XMAX_INVALID AND HEAP_XMAX_COMMITTED = 0" "HEAP_XMAX_INVALID AND HEAP_IS_LOCKED = 0" "HEAP_XMAX_INVALID AND HEAP_XMAX_IS_MULTI = 0" "HEAP_XMAX_INVALID AND HEAP_COMBOCID = 0" "HEAP_XMAX_INVALID AND HEAP_MOVED_OFF = 0" "HEAP_XMAX_INVALID AND HEAP_MOVED_IN = 0"
  by (simp_all add: tuple_flags)

lemma SetHintBits_cases:
  "tq_fetch (SetHintBits e h x s) = tq_fetch s \<and>
   (tq_tuple (SetHintBits e h x s) = tq_tuple s \<or> tq_tuple (SetHintBits e h x s) = (tq_tuple s)\<lparr>t_infomask := t_infomask (tq_tuple s) OR h\<rparr>)"
  by (auto simp: SetHintBits_def Let_def split: prod.splits)

text \<open>
  Hint bits that agree with the state of the server, for a backend with the given transactions: only transactions marked committed may be seen by
  others, and a transaction marked invalid is neither committed nor the backend's own.
\<close>

definition hints_ok :: "TransactionId \<Rightarrow> Running \<Rightarrow> TransactionId set \<Rightarrow> HeapTupleHeader \<Rightarrow> bool" where
  "hints_ok base S own tup \<longleftrightarrow>
     (has_flag tup HEAP_XMIN_COMMITTED \<longrightarrow> t_xmin tup \<in> committed base S)
   \<and> (has_flag tup HEAP_XMIN_INVALID \<longrightarrow> t_xmin tup \<notin> committed base S \<union> own)
   \<and> (has_flag tup HEAP_XMAX_COMMITTED \<longrightarrow> t_xmax tup \<in> committed base S)
   \<and> (has_flag tup HEAP_XMAX_INVALID \<longrightarrow> has_flag tup HEAP_IS_LOCKED \<or> t_xmax tup \<notin> committed base S \<union> own)"

text \<open>The same tuple, up to hints.\<close>

definition same_tuple :: "HeapTupleHeader \<Rightarrow> HeapTupleHeader \<Rightarrow> bool" where
  "same_tuple tup t \<longleftrightarrow> t_xmin t = t_xmin tup \<and> t_xmax t = t_xmax tup \<and> t_field3 t = t_field3 tup
     \<and> (has_flag t HEAP_IS_LOCKED \<longleftrightarrow> has_flag tup HEAP_IS_LOCKED) \<and> (has_flag t HEAP_XMAX_IS_MULTI \<longleftrightarrow> has_flag tup HEAP_XMAX_IS_MULTI)
     \<and> (has_flag t HEAP_COMBOCID \<longleftrightarrow> has_flag tup HEAP_COMBOCID) \<and> (has_flag tup HEAP_XMAX_INVALID \<longrightarrow> has_flag t HEAP_XMAX_INVALID)"

lemma same_tuple_refl: "same_tuple tup tup"
  by (simp add: same_tuple_def)

definition hinted :: "TransactionId \<Rightarrow> Running \<Rightarrow> TransactionId set \<Rightarrow> HeapTupleHeader \<Rightarrow> TqState \<Rightarrow> bool" where
  "hinted base S own tup s \<longleftrightarrow> same_tuple tup (tq_tuple s) \<and> hints_ok base S own (tq_tuple s)"

lemma hinted_fetch [simp]: "hinted base S own tup (s\<lparr>tq_fetch := c\<rparr>) \<longleftrightarrow> hinted base S own tup s"
  by (simp add: hinted_def)

lemma hinted_set:
  assumes "hinted base S own tup s"
    and "h = HEAP_XMIN_COMMITTED \<and> t_xmin tup \<in> committed base S \<or> h = HEAP_XMIN_INVALID \<and> t_xmin tup \<notin> committed base S \<union> own
       \<or> h = HEAP_XMAX_COMMITTED \<and> t_xmax tup \<in> committed base S
       \<or> h = HEAP_XMAX_INVALID \<and> (has_flag tup HEAP_IS_LOCKED \<or> t_xmax tup \<notin> committed base S \<union> own)"
  shows "hinted base S own tup (SetHintBits e h x s)"
proof -
  let ?t = "(tq_tuple s)\<lparr>t_infomask := t_infomask (tq_tuple s) OR h\<rparr>"
  have s: "same_tuple tup (tq_tuple s)" "hints_ok base S own (tq_tuple s)" using assms(1) by (simp_all add: hinted_def)
  have "same_tuple tup ?t" using assms(2) s(1) by (elim disjE conjE) (simp_all add: same_tuple_def has_flag_or)
  moreover have "hints_ok base S own ?t"
    using assms(2) s by (elim disjE conjE) (simp_all add: same_tuple_def hints_ok_def has_flag_or)
  ultimately show ?thesis using SetHintBits_cases [of e h x s] assms(1) by (auto simp: hinted_def)
qed

section \<open>Asking about one transaction\<close>

text \<open>A backend that runs on the server and asks about tuples.\<close>

definition asks_on :: "TransactionId \<Rightarrow> Running \<Rightarrow> TqEnv \<Rightarrow> bool" where
  "asks_on base S e \<longleftrightarrow> run_inv base S \<and> \<not> te_recovery e \<and> te_gen e = ru_gen S \<and> te_array e = ru_array S \<and> backend_ok base S (te_be e)"

definition own_of :: "Running \<Rightarrow> TqEnv \<Rightarrow> TransactionId set" where
  "own_of S e = xact_of S (MyProc (te_be e))"

definition xid_ok :: "TransactionId \<Rightarrow> Running \<Rightarrow> TqEnv \<Rightarrow> TransactionId \<Rightarrow> bool" where
  "xid_ok base S e x \<longleftrightarrow> assigned base S x \<and> not_before base S (RecentXmin (te_be e)) x"

lemma window_known:
  assumes "in_window base x" "in_window base tx"
  shows "xid_known tx x"
  using assms later_age [OF assms(2,1)] window_precedes(1) [OF assms] window_valid [OF assms(1)] by (auto simp: xid_known_def)

lemma not_running_not_committed:
  assumes "run_inv base S" "assigned base S x" "x \<notin> committed base S" "x \<notin> running S"
  shows "\<not> did_commit (clog_status (xg_clog (ru_gen S))) sub tx x"
proof -
  have "not_committed_status (ru_status S x)" using assms by (auto simp: committed_def run_inv_def logs_inv_def)
  then show ?thesis
    using assms(2) by (simp add: did_commit_step [of _ _ _ x] asks_parent_def xact_status_def ru_status_def not_committed_status_def assigned_def in_window_def)
qed

text \<open>Asking first whether a transaction is in progress and then whether it committed.\<close>

lemma in_progress_then_commit:
  assumes "asks_on base S e" "cache_idle S (tq_fetch s)" "xid_ok base S e x"
  shows "\<exists>c. if x \<in> committed base S
    then cache_idle S c \<and> if_in_progress e x A (if_did_commit e x B C) s = B (s\<lparr>tq_fetch := c\<rparr>)
    else if_in_progress e x A (if_did_commit e x B C) s = A (s\<lparr>tq_fetch := c\<rparr>)
       \<or> if_in_progress e x A (if_did_commit e x B C) s = C (s\<lparr>tq_fetch := c\<rparr>)
         \<and> (x \<in> ru_aborted S \<or> did_abort (clog_status (xg_clog (ru_gen S))) (xg_sub (ru_gen S)) (be_TransactionXmin (te_be e)) x)"
proof -
  let ?tx = "be_TransactionXmin (te_be e)" and ?g = "ru_gen S"
  have e: "run_inv base S" "backend_ok base S (te_be e)" "te_gen e = ?g" "te_array e = ru_array S" "te_recovery e = False"
    and x: "in_window base x" "assigned base S x" "not_before base S (RecentXmin (te_be e)) x"
    and c0: "cache_ok (xg_clog ?g) (tq_fetch s)" "cachedFetchXid (tq_fetch s) \<notin> running S"
    using assms by (simp_all add: asks_on_def xid_ok_def assigned_def cache_idle_def)
  have tx: "in_window base ?tx" using e(2) by (simp add: backend_ok_def)
  obtain b c where r: "TransactionIdIsInProgress False (te_be e) ?g (ru_array S) ?g (tq_fetch s) x = Some (b, c)" "cache_ok (xg_clog ?g) c"
    and run: "x \<in> running S \<Longrightarrow> b \<or> did_abort (clog_status (xg_clog ?g)) (xg_sub ?g) ?tx x"
    and com: "x \<in> committed base S \<Longrightarrow> \<not> b \<and> cachedFetchXid c \<in> {x, cachedFetchXid (tq_fetch s)}"
    using TransactionIdIsInProgress_spec [OF e(1,2) later_refl [OF e(1)] c0 x(1,3)] unfolding in_progress_ok_def by blast
  show ?thesis
  proof (cases "x \<in> committed base S")
    case True
    have "clog_status (xg_clog ?g) x = TRANSACTION_STATUS_COMMITTED" by (rule committed_xact_status [OF e(1) True])
    then obtain c2 where c2: "TransactionIdDidCommit (xg_clog ?g) (xg_sub ?g) ?tx c x = Some (True, c2)" "cache_ok (xg_clog ?g) c2"
      "cachedFetchXid c2 \<in> {x, cachedFetchXid c}"
      using committed_answers(2) [OF _ in_window_normal [OF x(1)] r(2)] by blast
    then have "cache_idle S c2" using com [OF True] c0(2) True by (auto simp: cache_idle_def committed_def)
    then show ?thesis using True com [OF True] r(1) c2(1) e by (auto simp: if_in_progress_def if_did_commit_def tq_answer_def)
  next
    case False
    let ?com = "did_commit (clog_status (xg_clog ?g)) (xg_sub ?g) ?tx x"
    have f: "\<exists>c2. TransactionIdDidCommit (xg_clog ?g) (xg_sub ?g) ?tx c x = Some (?com, c2)"
      using TransactionIdDidCommit_spec [OF run_inv_sub_ordered [OF e(1)] in_window_normal [OF tx] window_known [OF x(1) tx] r(2)] by blast
    have "\<not> b \<Longrightarrow> \<not> ?com" using run did_commit_not_abort not_running_not_committed [OF e(1) x(2) False] by blast
    moreover have "\<not> b \<Longrightarrow> x \<in> ru_aborted S \<or> did_abort (clog_status (xg_clog ?g)) (xg_sub ?g) ?tx x" using run x(2) False by (auto simp: committed_def)
    ultimately show ?thesis using False r(1) f e by (cases b) (auto simp: if_in_progress_def if_did_commit_def tq_answer_def)
  qed
qed

section \<open>Visibility under a snapshot\<close>

text \<open>
  The rule: the inserter had committed when the snapshot was taken, or is the backend's own transaction in an earlier command; and the
  same does not hold of a deleter.
\<close>

definition deleted_for :: "TransactionId \<Rightarrow> Running \<Rightarrow> TransactionId set \<Rightarrow> ComboCids \<Rightarrow> SnapshotData \<Rightarrow> HeapTupleHeader \<Rightarrow> bool" where
  "deleted_for base S own cc sn tup \<longleftrightarrow> \<not> has_flag tup HEAP_IS_LOCKED
     \<and> (if t_xmax tup \<in> own then HeapTupleHeaderGetCmax cc tup < sn_curcid sn else t_xmax tup \<in> committed base S)"

definition visible_for :: "TransactionId \<Rightarrow> Running \<Rightarrow> TransactionId set \<Rightarrow> ComboCids \<Rightarrow> SnapshotData \<Rightarrow> HeapTupleHeader \<Rightarrow> bool" where
  "visible_for base S own cc sn tup \<longleftrightarrow>
     (if t_xmin tup \<in> own then HeapTupleHeaderGetCmin cc tup < sn_curcid sn else t_xmin tup \<in> committed base S) \<and> \<not> deleted_for base S own cc sn tup"

text \<open>A snapshot of the backend's own running transaction, still in use.\<close>

definition holds_snapshot :: "TransactionId \<Rightarrow> Running \<Rightarrow> Running \<Rightarrow> SnapshotData \<Rightarrow> TqEnv \<Rightarrow> bool" where
  "holds_snapshot base S0 S sn e \<longleftrightarrow> (\<exists>seen be0. takes_snapshot base S0 seen be0 sn \<and> MyProc be0 = MyProc (te_be e)) \<and> later base S0 S
     \<and> xact_of S0 (MyProc (te_be e)) \<subseteq> own_of S e \<union> ru_aborted S
     \<and> xid_age base (be_TransactionXmin (te_be e)) \<le> xid_age base (sn_xmin sn)"

text \<open>A tuple as a running server has it: known transactions, and nobody but the inserter deletes what is not committed.\<close>

definition tuple_ok :: "TransactionId \<Rightarrow> Running \<Rightarrow> Running \<Rightarrow> TqEnv \<Rightarrow> HeapTupleHeader \<Rightarrow> bool" where
  "tuple_ok base S0 S e tup \<longleftrightarrow>
     hints_ok base S (own_of S e) tup \<and> \<not> has_flag tup HEAP_MOVED_OFF \<and> \<not> has_flag tup HEAP_MOVED_IN
   \<and> (has_flag tup HEAP_XMAX_IS_MULTI \<longrightarrow> has_flag tup HEAP_IS_LOCKED)
   \<and> xid_ok base S e (t_xmin tup) \<and> t_xmin tup \<notin> vacuum_xacts S0
   \<and> (\<not> has_flag tup HEAP_XMAX_INVALID \<and> \<not> has_flag tup HEAP_IS_LOCKED \<longrightarrow> xid_ok base S e (t_xmax tup) \<and> t_xmax tup \<notin> vacuum_xacts S0
        \<and> (t_xmin tup \<in> own_of S e \<longrightarrow> t_xmax tup \<in> own_of S e \<union> ru_aborted S))"

lemma if_in_snapshot_eq:
  assumes "asks_on base S e" "holds_snapshot base S0 S sn e" "x \<in> committed base S" "x \<notin> vacuum_xacts S0"
  shows "if_in_snapshot e sn x A B s = (if x \<in> committed base S0 then B s else A s)"
proof -
  obtain seen be0 where t: "takes_snapshot base S0 seen be0 sn" "MyProc be0 = MyProc (te_be e)" using assms(2) by (auto simp: holds_snapshot_def)
  have own: "own_of S e \<subseteq> running S" using assms(1) by (auto simp: own_of_def asks_on_def backend_ok_def running_def)
  have x: "in_window base x" "x \<notin> ru_aborted S" "x \<notin> own_of S e" using assms(3) own by (auto simp: committed_def assigned_def)
  have "XidInMVCCSnapshot (xg_sub (ru_gen S)) (be_TransactionXmin (te_be e)) x sn = Some (x \<notin> committed base S0)"
    using assms(1,2,4) x t(2) by (intro XidInMVCCSnapshot_spec [OF t(1)]) (auto simp: holds_snapshot_def asks_on_def backend_ok_def)
  then show ?thesis using assms(1) by (simp add: if_in_snapshot_def asks_on_def)
qed

lemma committed_later: "later base S0 S \<Longrightarrow> x \<in> committed base S0 \<Longrightarrow> x \<in> committed base S"
  by (auto simp: later_def)

definition mvcc_deleter :: "TqEnv \<Rightarrow> SnapshotData \<Rightarrow> HeapTupleHeader \<Rightarrow> bool tq" where
  "mvcc_deleter e sn tup =
     (let deleted = if_in_snapshot e sn (t_xmax tup) (tq_return True) (tq_return False)
      in tq_if HEAP_XMAX_INVALID (tq_return True)
           (tq_if HEAP_IS_LOCKED (tq_return True)
             (tq_if HEAP_XMAX_IS_MULTI (tq_return True)
               (tq_if HEAP_XMAX_COMMITTED deleted
                 (if_current e (t_xmax tup) (tq_return (HeapTupleHeaderGetCmax (te_combo e) tup \<ge> sn_curcid sn))
                   (if_in_progress e (t_xmax tup) (tq_return True)
                     (if_did_commit e (t_xmax tup) (hint e HEAP_XMAX_COMMITTED (t_xmax tup) deleted)
                       (hint e HEAP_XMAX_INVALID InvalidTransactionId (tq_return True)))))))))"

text \<open>What is returned, with a tuple whose hints are still right.\<close>

definition answers :: "TransactionId \<Rightarrow> Running \<Rightarrow> TqEnv \<Rightarrow> HeapTupleHeader \<Rightarrow> 'a \<Rightarrow> ('a \<times> TqState) option \<Rightarrow> bool" where
  "answers base S e tup a r \<longleftrightarrow> (\<exists>s'. r = Some (a, s') \<and> hinted base S (own_of S e) tup s')"

lemma answers_return: "hinted base S (own_of S e) tup s \<Longrightarrow> a = b \<Longrightarrow> answers base S e tup a (tq_return b s)"
  by (simp add: answers_def tq_return_def)

lemma answers_hint:
  assumes "hinted base S (own_of S e) tup s"
    and "h = HEAP_XMIN_COMMITTED \<and> t_xmin tup \<in> committed base S \<or> h = HEAP_XMIN_INVALID \<and> t_xmin tup \<notin> committed base S \<union> own_of S e
       \<or> h = HEAP_XMAX_COMMITTED \<and> t_xmax tup \<in> committed base S
       \<or> h = HEAP_XMAX_INVALID \<and> (has_flag tup HEAP_IS_LOCKED \<or> t_xmax tup \<notin> committed base S \<union> own_of S e)"
    and "\<And>s1. hinted base S (own_of S e) tup s1 \<Longrightarrow> tq_fetch s1 = tq_fetch s \<Longrightarrow> answers base S e tup a (A s1)"
  shows "answers base S e tup a (hint e h x A s)"
  using assms(3) [OF hinted_set [OF assms(1,2)]] SetHintBits_cases [of e h x s] by (simp add: hint_def)

lemma current_own:
  assumes "asks_on base S e" "xid_ok base S e x"
  shows "if_current e x A B = (if x \<in> own_of S e then A else B)"
  using assms current_iff [of base S "te_be e" x] by (simp add: asks_on_def xid_ok_def assigned_def own_of_def if_current_def)

lemma own_not_committed: "asks_on base S e \<Longrightarrow> x \<in> own_of S e \<Longrightarrow> x \<notin> committed base S"
  by (auto simp: own_of_def asks_on_def backend_ok_def running_def committed_def)

lemma answers_ask_committed:
  assumes "asks_on base S e" "cache_idle S (tq_fetch s)" "xid_ok base S e x" "x \<in> committed base S"
    and "\<And>c. cache_idle S c \<Longrightarrow> answers base S e tup a (B (s\<lparr>tq_fetch := c\<rparr>))"
  shows "answers base S e tup a (if_in_progress e x A (if_did_commit e x B C) s)"
  using in_progress_then_commit [OF assms(1-3), of A B C] assms(4,5) by auto

lemma answers_ask_uncommitted:
  assumes "asks_on base S e" "cache_idle S (tq_fetch s)" "xid_ok base S e x" "x \<notin> committed base S"
    and "\<And>c. answers base S e tup a (A (s\<lparr>tq_fetch := c\<rparr>))" "\<And>c. answers base S e tup a (C (s\<lparr>tq_fetch := c\<rparr>))"
  shows "answers base S e tup a (if_in_progress e x A (if_did_commit e x B C) s)"
  using in_progress_then_commit [OF assms(1-3), of A B C] assms(4-6) by auto

lemma mvcc_deleter_answers:
  assumes "asks_on base S e" "holds_snapshot base S0 S sn e" "tuple_ok base S0 S e tup"
    and "hinted base S (own_of S e) tup s" "cache_idle S (tq_fetch s)"
  shows "answers base S e tup (\<not> deleted_for base S0 (own_of S e) (te_combo e) sn tup) (mvcc_deleter e sn tup s)"
proof -
  let ?x = "t_xmax tup" and ?own = "own_of S e" and ?t = "tq_tuple s"
  have t: "same_tuple tup ?t" "hints_ok base S ?own ?t" using assms(4) by (simp_all add: hinted_def)
  have l: "later base S0 S" using assms(2) by (simp add: holds_snapshot_def)
  note com = committed_later [OF l, of ?x] and own = own_not_committed [OF assms(1), of ?x]
  show ?thesis
  proof (cases "has_flag ?t HEAP_XMAX_INVALID \<or> has_flag tup HEAP_IS_LOCKED")
    case True
    then have "\<not> deleted_for base S0 ?own (te_combo e) sn tup" using t com by (auto simp: deleted_for_def hints_ok_def same_tuple_def)
    moreover have "mvcc_deleter e sn tup s = tq_return True s" using True t by (auto simp: mvcc_deleter_def Let_def tq_if_def same_tuple_def)
    ultimately show ?thesis by (simp add: answers_return [OF assms(4)])
  next
    case False
    then have f: "\<not> has_flag ?t HEAP_XMAX_INVALID" "\<not> has_flag tup HEAP_IS_LOCKED" "\<not> has_flag ?t HEAP_IS_LOCKED" "\<not> has_flag ?t HEAP_XMAX_IS_MULTI"
      and x: "xid_ok base S e ?x" "?x \<notin> vacuum_xacts S0"
      using t(1) assms(3) by (auto simp: same_tuple_def tuple_ok_def)
    have del: "answers base S e tup (\<not> deleted_for base S0 ?own (te_combo e) sn tup)
        (if_in_snapshot e sn ?x (tq_return True) (tq_return False) s1)" if "?x \<in> committed base S" "hinted base S ?own tup s1" for s1
      using that own f(2) by (auto simp: if_in_snapshot_eq [OF assms(1,2) that(1) x(2)] deleted_for_def intro: answers_return)
    show ?thesis
    proof (cases "has_flag ?t HEAP_XMAX_COMMITTED")
      case True
      then have "?x \<in> committed base S" using t by (simp add: hints_ok_def same_tuple_def)
      then show ?thesis using del [OF _ assms(4)] f True by (simp add: mvcc_deleter_def Let_def tq_if_def)
    next
      case False
      let ?ask = "if_in_progress e ?x (tq_return True) (if_did_commit e ?x
          (hint e HEAP_XMAX_COMMITTED ?x (if_in_snapshot e sn ?x (tq_return True) (tq_return False)))
          (hint e HEAP_XMAX_INVALID InvalidTransactionId (tq_return True))) s"
      have "answers base S e tup (\<not> deleted_for base S0 ?own (te_combo e) sn tup) ?ask" if "?x \<notin> ?own"
      proof (cases "?x \<in> committed base S")
        case True
        then show ?thesis
          by (rule answers_ask_committed [OF assms(1,5) x(1)]) (use True assms(4) del in \<open>auto intro: answers_hint\<close>)
      next
        case no: False
        moreover have "\<not> deleted_for base S0 ?own (te_combo e) sn tup" using no that com by (auto simp: deleted_for_def)
        ultimately show ?thesis
          using that assms(4) by (intro answers_ask_uncommitted [OF assms(1,5) x(1)]) (auto intro: answers_return answers_hint)
      qed
      moreover have "mvcc_deleter e sn tup s = (if ?x \<in> ?own then tq_return (HeapTupleHeaderGetCmax (te_combo e) tup \<ge> sn_curcid sn) s else ?ask)"
        using f False by (simp add: mvcc_deleter_def Let_def tq_if_def current_own [OF assms(1) x(1)])
      ultimately show ?thesis using assms(4) f(2) by (auto simp: deleted_for_def intro: answers_return)
    qed
  qed
qed

lemma HeapTupleSatisfiesMVCC_spec:
  assumes "asks_on base S e" "holds_snapshot base S0 S sn e" "tuple_ok base S0 S e (tq_tuple s)" "cache_idle S (tq_fetch s)"
  shows "answers base S e (tq_tuple s) (visible_for base S0 (own_of S e) (te_combo e) sn (tq_tuple s)) (HeapTupleSatisfiesMVCC e sn s)"
proof -
  define tup where "tup = tq_tuple s"
  let ?x = "t_xmin tup" and ?own = "own_of S e" and ?v = "visible_for base S0 (own_of S e) (te_combo e) sn tup"
  have ok: "tuple_ok base S0 S e tup" using assms(3) by (simp add: tup_def)
  then have h: "hinted base S ?own tup s" and x: "xid_ok base S e ?x" "?x \<notin> vacuum_xacts S0"
    and m: "\<not> has_flag tup HEAP_MOVED_OFF" "\<not> has_flag tup HEAP_MOVED_IN" and hints: "hints_ok base S ?own tup"
    by (auto simp: tuple_ok_def hinted_def same_tuple_refl tup_def)
  have l: "later base S0 S" using assms(2) by (simp add: holds_snapshot_def)
  note com = committed_later [OF l, of ?x] and own = own_not_committed [OF assms(1), of ?x]
  define rest where "rest = if_in_snapshot e sn ?x (tq_return False) (mvcc_deleter e sn tup)"
  define mine where "mine = (if HeapTupleHeaderGetCmin (te_combo e) tup \<ge> sn_curcid sn then tq_return False
    else own_insert e tup (tq_return True) (tq_return (HeapTupleHeaderGetCmax (te_combo e) tup \<ge> sn_curcid sn)))"
  have M: "HeapTupleSatisfiesMVCC e sn s = check_xmin e tup (tq_return False) mine (tq_return False) rest s"
    unfolding HeapTupleSatisfiesMVCC_def mvcc_deleter_def mine_def rest_def by (simp add: tup_def Let_def)
  have rest: "answers base S e tup ?v (rest s1)" if "?x \<in> committed base S" "hinted base S ?own tup s1" "cache_idle S (tq_fetch s1)" for s1
    using that own mvcc_deleter_answers [OF assms(1,2) ok that(2,3)]
    by (auto simp: if_in_snapshot_eq [OF assms(1,2) that(1) x(2)] visible_for_def rest_def intro: answers_return)
  have mine: "answers base S e tup ?v (mine s)" if "?x \<in> ?own"
  proof -
    have c: "t_xmax tup \<in> committed base S0 \<Longrightarrow> t_xmax tup \<in> committed base S" by (rule committed_later [OF l])
    show ?thesis
    proof (cases "has_flag tup HEAP_XMAX_INVALID \<or> has_flag tup HEAP_IS_LOCKED")
      case True
      then have "\<not> deleted_for base S0 ?own (te_combo e) sn tup" using hints c by (auto simp: deleted_for_def hints_ok_def)
      then show ?thesis
        using True h that by (auto simp: mine_def own_insert_def tq_if_def tup_def [symmetric] visible_for_def intro!: answers_return)
    next
      case False
      then have d: "xid_ok base S e (t_xmax tup)" "t_xmax tup \<notin> ?own \<Longrightarrow> t_xmax tup \<notin> committed base S"
        using ok that by (auto simp: tuple_ok_def committed_def)
      show ?thesis
        using False h that d(2) c
        by (auto simp: mine_def own_insert_def tq_if_def tup_def [symmetric] visible_for_def deleted_for_def current_own [OF assms(1) d(1)]
            intro!: answers_return answers_hint)
    qed
  qed
  have no: "answers base S e tup ?v (tq_return False s1)" if "?x \<notin> committed base S" "?x \<notin> ?own" "hinted base S ?own tup s1" for s1
    using that com by (auto simp: visible_for_def intro: answers_return)
  let ?ask = "if_in_progress e ?x (tq_return False) (if_did_commit e ?x (hint e HEAP_XMIN_COMMITTED ?x rest)
      (hint e HEAP_XMIN_INVALID InvalidTransactionId (tq_return False))) s"
  have ask: "answers base S e tup ?v ?ask" if "?x \<notin> ?own"
  proof (cases "?x \<in> committed base S")
    case True
    then show ?thesis
      by (rule answers_ask_committed [OF assms(1,4) x(1)]) (use True h rest in \<open>auto intro: answers_hint\<close>)
  next
    case False
    then show ?thesis
      using that h no by (intro answers_ask_uncommitted [OF assms(1,4) x(1)]) (auto intro: answers_hint)
  qed
  have "answers base S e tup ?v (check_xmin e tup (tq_return False) mine (tq_return False) rest s)"
    using hints rest [OF _ h assms(4)] no [OF _ _ h] mine ask m
    by (auto simp: check_xmin_def tq_if_def tup_def [symmetric] hints_ok_def current_own [OF assms(1) x(1)])
  then show ?thesis by (simp add: M tup_def)
qed

section \<open>Vacuum\<close>

lemma if_in_progress_result: "if_in_progress e x A B s = Some r \<Longrightarrow> \<exists>s1. A s1 = Some r \<or> B s1 = Some r"
  by (auto simp: if_in_progress_def tq_answer_def split: option.splits prod.splits if_splits)

lemma any_in_progress_result: "any_in_progress e xs A B s = Some r \<Longrightarrow> \<exists>s1. A s1 = Some r \<or> B s1 = Some r"
proof (induction xs arbitrary: s)
  case (Cons x xs)
  then show ?case using if_in_progress_result [of e x A "any_in_progress e xs A B" s r] by auto
qed auto

lemma if_multi_running_result: "if_multi_running e m A B s = Some r \<Longrightarrow> \<exists>s1. A s1 = Some r \<or> B s1 = Some r"
  using any_in_progress_result [of e "te_multi_members e m" A B s r] by (auto simp: if_multi_running_def Let_def split: if_splits)

text \<open>A tuple found dead: its inserter did not commit, or its deleter committed and precedes the cutoff.\<close>

definition dead_reason :: "TransactionId \<Rightarrow> Running \<Rightarrow> TqEnv \<Rightarrow> TransactionId \<Rightarrow> HeapTupleHeader \<Rightarrow> bool" where
  "dead_reason base S e OldestXmin tup \<longleftrightarrow>
     t_xmin tup \<notin> committed base S \<and> (has_flag tup HEAP_XMIN_INVALID \<or> t_xmin tup \<in> ru_aborted S
        \<or> did_abort (clog_status (xg_clog (ru_gen S))) (xg_sub (ru_gen S)) (be_TransactionXmin (te_be e)) (t_xmin tup))
   \<or> \<not> has_flag tup HEAP_IS_LOCKED \<and> \<not> has_flag tup HEAP_XMAX_INVALID \<and> t_xmax tup \<in> committed base S \<and> TransactionIdPrecedes (t_xmax tup) OldestXmin"

definition vacuum_deleter :: "TqEnv \<Rightarrow> TransactionId \<Rightarrow> HeapTupleHeader \<Rightarrow> HTSV_Result tq" where
  "vacuum_deleter e OldestXmin tup =
     (let live = tq_return HEAPTUPLE_LIVE; unlock = hint e HEAP_XMAX_INVALID InvalidTransactionId live;
          deleted = tq_return (if \<not> TransactionIdPrecedes (t_xmax tup) OldestXmin then HEAPTUPLE_RECENTLY_DEAD else HEAPTUPLE_DEAD)
      in tq_if HEAP_XMAX_INVALID live
           (tq_if HEAP_IS_LOCKED
             (tq_if HEAP_XMAX_COMMITTED live
               (tq_if HEAP_XMAX_IS_MULTI (if_multi_running e (t_xmax tup) live unlock) (if_in_progress e (t_xmax tup) live unlock)))
             (tq_if HEAP_XMAX_IS_MULTI live
               (tq_if HEAP_XMAX_COMMITTED deleted
                 (if_in_progress e (t_xmax tup) (tq_return HEAPTUPLE_DELETE_IN_PROGRESS)
                   (if_did_commit e (t_xmax tup) (hint e HEAP_XMAX_COMMITTED (t_xmax tup) deleted)
                     (hint e HEAP_XMAX_INVALID InvalidTransactionId live)))))))"

lemma vacuum_deleter_dead:
  assumes "asks_on base S e" "tuple_ok base S0 S e tup" "hinted base S (own_of S e) tup s" "cache_idle S (tq_fetch s)"
    and "vacuum_deleter e OldestXmin tup s = Some (HEAPTUPLE_DEAD, s')"
  shows "dead_reason base S e OldestXmin tup"
proof -
  let ?t = "tq_tuple s" and ?x = "t_xmax tup"
  have t: "same_tuple tup ?t" "hints_ok base S (own_of S e) ?t" using assms(3) by (simp_all add: hinted_def)
  have inv: "\<not> has_flag ?t HEAP_XMAX_INVALID" using assms(5) by (auto simp: vacuum_deleter_def Let_def tq_if_def tq_return_def split: if_splits)
  have lock: "\<not> has_flag ?t HEAP_IS_LOCKED"
  proof
    assume "has_flag ?t HEAP_IS_LOCKED"
    then show False
      using assms(5) inv if_in_progress_result [of e ?x "tq_return HEAPTUPLE_LIVE" "hint e HEAP_XMAX_INVALID InvalidTransactionId (tq_return HEAPTUPLE_LIVE)" s]
        if_multi_running_result [of e ?x "tq_return HEAPTUPLE_LIVE" "hint e HEAP_XMAX_INVALID InvalidTransactionId (tq_return HEAPTUPLE_LIVE)" s]
      by (auto simp: vacuum_deleter_def Let_def tq_if_def tq_return_def hint_def split: if_splits)
  qed
  have f: "\<not> has_flag tup HEAP_IS_LOCKED" "\<not> has_flag tup HEAP_XMAX_INVALID" "\<not> has_flag ?t HEAP_XMAX_IS_MULTI"
    using t(1) inv lock assms(2) by (auto simp: same_tuple_def tuple_ok_def)
  then have x: "xid_ok base S e ?x" using assms(2) by (simp add: tuple_ok_def)
  show ?thesis
  proof (cases "has_flag ?t HEAP_XMAX_COMMITTED")
    case True
    then have "?x \<in> committed base S" using t by (simp add: hints_ok_def same_tuple_def)
    then show ?thesis using assms(5) inv lock f True
      by (auto simp: vacuum_deleter_def Let_def tq_if_def tq_return_def dead_reason_def split: if_splits)
  next
    case False
    let ?d = "tq_return (if \<not> TransactionIdPrecedes ?x OldestXmin then HEAPTUPLE_RECENTLY_DEAD else HEAPTUPLE_DEAD)"
    have "if_in_progress e ?x (tq_return HEAPTUPLE_DELETE_IN_PROGRESS) (if_did_commit e ?x (hint e HEAP_XMAX_COMMITTED ?x ?d)
        (hint e HEAP_XMAX_INVALID InvalidTransactionId (tq_return HEAPTUPLE_LIVE))) s = Some (HEAPTUPLE_DEAD, s')"
      using assms(5) inv lock f False by (simp add: vacuum_deleter_def Let_def tq_if_def)
    then show ?thesis
      using in_progress_then_commit [OF assms(1,4) x, of "tq_return HEAPTUPLE_DELETE_IN_PROGRESS" "hint e HEAP_XMAX_COMMITTED ?x ?d"
          "hint e HEAP_XMAX_INVALID InvalidTransactionId (tq_return HEAPTUPLE_LIVE)"] f
      by (auto simp: dead_reason_def hint_def tq_return_def split: if_splits)
  qed
qed

lemma HeapTupleSatisfiesVacuum_dead:
  assumes "asks_on base S e" "tuple_ok base S0 S e (tq_tuple s)" "cache_idle S (tq_fetch s)"
    and "HeapTupleSatisfiesVacuum e OldestXmin s = Some (HEAPTUPLE_DEAD, s')"
  shows "dead_reason base S e OldestXmin (tq_tuple s)"
proof -
  define tup where "tup = tq_tuple s"
  let ?x = "t_xmin tup" and ?rest = "vacuum_deleter e OldestXmin tup"
  have ok: "tuple_ok base S0 S e tup" using assms(2) by (simp add: tup_def)
  then have h: "hinted base S (own_of S e) tup s" and x: "xid_ok base S e ?x"
    and m: "\<not> has_flag tup HEAP_MOVED_OFF" "\<not> has_flag tup HEAP_MOVED_IN" and hints: "hints_ok base S (own_of S e) tup"
    by (auto simp: tuple_ok_def hinted_def same_tuple_refl tup_def)
  have V: "vacuum_xmin e tup ?rest s = Some (HEAPTUPLE_DEAD, s')"
    using assms(4) unfolding HeapTupleSatisfiesVacuum_def vacuum_deleter_def by (simp add: tup_def Let_def)
  note rest = vacuum_deleter_dead [OF assms(1) ok]
  consider (com) "has_flag tup HEAP_XMIN_COMMITTED" | (inv) "has_flag tup HEAP_XMIN_INVALID"
    | (ask) "\<not> has_flag tup HEAP_XMIN_COMMITTED" "\<not> has_flag tup HEAP_XMIN_INVALID" by blast
  then have "dead_reason base S e OldestXmin tup"
  proof cases
    case com
    then show ?thesis using V rest [OF h assms(3)] by (simp add: vacuum_xmin_def Let_def tq_if_def tup_def [symmetric])
  next
    case inv
    then show ?thesis using hints by (simp add: dead_reason_def hints_ok_def)
  next
    case ask
    let ?A = "tq_if HEAP_XMAX_INVALID (tq_return HEAPTUPLE_INSERT_IN_PROGRESS)
      (tq_if HEAP_IS_LOCKED (tq_return HEAPTUPLE_INSERT_IN_PROGRESS) (tq_return HEAPTUPLE_DELETE_IN_PROGRESS))"
    let ?C = "hint e HEAP_XMIN_INVALID InvalidTransactionId (tq_return HEAPTUPLE_DEAD)"
    have I: "if_in_progress e ?x ?A (if_did_commit e ?x (hint e HEAP_XMIN_COMMITTED ?x ?rest) ?C) s = Some (HEAPTUPLE_DEAD, s')"
      using V ask m by (simp add: vacuum_xmin_def Let_def tq_if_def tup_def [symmetric] cong: if_cong)
    note c = in_progress_then_commit [OF assms(1,3) x, of ?A "hint e HEAP_XMIN_COMMITTED ?x ?rest" ?C, unfolded I]
    show ?thesis
    proof (cases "?x \<in> committed base S")
      case True
      then obtain c where c: "cache_idle S c" "?rest (SetHintBits e HEAP_XMIN_COMMITTED ?x (s\<lparr>tq_fetch := c\<rparr>)) = Some (HEAPTUPLE_DEAD, s')"
        using c by (auto simp: hint_def)
      have "hinted base S (own_of S e) tup (SetHintBits e HEAP_XMIN_COMMITTED ?x (s\<lparr>tq_fetch := c\<rparr>))" using h True by (intro hinted_set) simp_all
      then show ?thesis using rest [OF _ _ c(2)] c(1) SetHintBits_cases [of e HEAP_XMIN_COMMITTED ?x "s\<lparr>tq_fetch := c\<rparr>"] by simp
    next
      case False
      then show ?thesis using c by (auto simp: dead_reason_def tq_if_def tq_return_def split: if_splits)
    qed
  qed
  then show ?thesis by (simp add: tup_def)
qed

text \<open>The processes that hold the cutoff back.\<close>

definition counted :: "bool \<Rightarrow> bool \<Rightarrow> Backend \<Rightarrow> PGPROC \<Rightarrow> bool" where
  "counted allDbs ignoreVacuum be proc \<longleftrightarrow> \<not> (ignoreVacuum \<and> in_vacuum proc) \<and> (allDbs \<or> p_databaseId proc = MyDatabaseId be \<or> p_databaseId proc = 0)"

lemma oldest_fold:
  fixes allDbs ignoreVacuum :: bool and be :: Backend
  assumes "in_window base limit"
    and "\<forall>i \<in> set is. (TransactionIdIsNormal (p_xid (procs i)) \<longrightarrow> in_window base (p_xid (procs i)))
      \<and> (TransactionIdIsNormal (p_xmin (procs i)) \<longrightarrow> in_window base (p_xmin (procs i)))"
  defines "step \<equiv> \<lambda>result i. let proc = procs i in
      if ignoreVacuum \<and> in_vacuum proc then result
      else if allDbs \<or> p_databaseId proc = MyDatabaseId be \<or> p_databaseId proc = 0
      then older_normal (p_xmin proc) (older_normal (p_xid proc) result) else result"
  shows "oldest_of base limit ((\<lambda>i. p_xid (procs i)) ` {i \<in> set is. counted allDbs ignoreVacuum be (procs i)}
      \<union> (\<lambda>i. p_xmin (procs i)) ` {i \<in> set is. counted allDbs ignoreVacuum be (procs i)}) (foldl step limit is)"
  using assms(2)
proof (induction "is" rule: rev_induct)
  case (snoc i "is")
  let ?c = "{j \<in> set is. counted allDbs ignoreVacuum be (procs j)}" and ?r = "foldl step limit is"
  have IH: "oldest_of base limit ((\<lambda>i. p_xid (procs i)) ` ?c \<union> (\<lambda>i. p_xmin (procs i)) ` ?c) ?r" using snoc by simp
  have eq: "{j \<in> set (is @ [i]). counted allDbs ignoreVacuum be (procs j)} = (if counted allDbs ignoreVacuum be (procs i) then insert i ?c else ?c)" by auto
  show ?case
  proof (cases "counted allDbs ignoreVacuum be (procs i)")
    case True
    then have "foldl step limit (is @ [i]) = older_normal (p_xmin (procs i)) (older_normal (p_xid (procs i)) ?r)"
      by (auto simp: step_def counted_def Let_def)
    then show ?thesis
      using oldest_of_insert [OF oldest_of_insert [OF IH, of "p_xid (procs i)"], of "p_xmin (procs i)"] snoc.prems True
      unfolding eq by (simp add: insert_commute)
  next
    case False
    then have "foldl step limit (is @ [i]) = ?r" by (auto simp: step_def counted_def Let_def)
    then show ?thesis using IH False unfolding eq by simp
  qed
qed (simp add: oldest_of_start assms(1))

lemma GetOldestXmin_spec:
  fixes allDbs ignoreVacuum :: bool
  assumes "run_inv base S" "vacuum_defer_cleanup_age be = 0"
  defines "m \<equiv> GetOldestXmin False allDbs ignoreVacuum be (ru_gen S) (ru_array S)"
  shows "in_window base m" "xid_age base m \<le> xid_age base (TransactionIdAdvance (ru_latest S))"
    and "i \<in> ru_procs S \<Longrightarrow> counted allDbs ignoreVacuum be (ru_proc S i) \<Longrightarrow> TransactionIdIsValid (p_xid (ru_proc S i))
      \<Longrightarrow> xid_age base m \<le> xid_age base (p_xid (ru_proc S i))"
    and "i \<in> ru_procs S \<Longrightarrow> counted allDbs ignoreVacuum be (ru_proc S i) \<Longrightarrow> TransactionIdIsValid (p_xmin (ru_proc S i))
      \<Longrightarrow> xid_age base m \<le> xid_age base (p_xmin (ru_proc S i))"
proof -
  let ?l = "TransactionIdAdvance (ru_latest S)" and ?P = "pa_procs (ru_array S)"
  define r where "r = foldl (\<lambda>result i. let proc = ru_proc S i in
      if ignoreVacuum \<and> in_vacuum proc then result
      else if allDbs \<or> p_databaseId proc = MyDatabaseId be \<or> p_databaseId proc = 0
      then older_normal (p_xmin proc) (older_normal (p_xid proc) result) else result) ?l ?P"
  have wf: "proc_wf base (ru_proc S i)" if "i \<in> ru_procs S" for i by (rule proc_inv_wf [OF run_inv_procs [OF assms(1) that]])
  have w: "TransactionIdIsValid (p_xid (ru_proc S i)) \<longrightarrow> in_window base (p_xid (ru_proc S i))"
    "TransactionIdIsValid (p_xmin (ru_proc S i)) \<longrightarrow> in_window base (p_xmin (ru_proc S i))" if "i \<in> ru_procs S" for i
    using wf [OF that] proc_wf_xid by (auto simp: proc_wf_def)
  have "oldest_of base ?l ((\<lambda>i. p_xid (ru_proc S i)) ` {i \<in> set ?P. counted allDbs ignoreVacuum be (ru_proc S i)}
      \<union> (\<lambda>i. p_xmin (ru_proc S i)) ` {i \<in> set ?P. counted allDbs ignoreVacuum be (ru_proc S i)}) r"
    unfolding r_def using Advance_latest_window(1) [OF assms(1)] w normal_valid by (intro oldest_fold) (auto simp: ru_procs_def)
  moreover have "m = r"
  proof -
    have "TransactionIdIsNormal r" using calculation by (simp add: oldest_of_def in_window_def)
    then show ?thesis by (simp add: m_def GetOldestXmin_def defer_cleanup_def assms(2) r_def ru_latest_def ru_proc_def)
  qed
  ultimately have o: "oldest_of base ?l ((\<lambda>i. p_xid (ru_proc S i)) ` {i \<in> ru_procs S. counted allDbs ignoreVacuum be (ru_proc S i)}
      \<union> (\<lambda>i. p_xmin (ru_proc S i)) ` {i \<in> ru_procs S. counted allDbs ignoreVacuum be (ru_proc S i)}) m" by (simp add: ru_procs_def)
  then show "in_window base m" "xid_age base m \<le> xid_age base ?l" by (simp_all add: oldest_of_def)
  show "xid_age base m \<le> xid_age base (p_xid (ru_proc S i))"
    if "i \<in> ru_procs S" "counted allDbs ignoreVacuum be (ru_proc S i)" "TransactionIdIsValid (p_xid (ru_proc S i))"
    using o that w(1) [OF that(1)] in_window_normal by (auto simp: oldest_of_def)
  show "xid_age base m \<le> xid_age base (p_xmin (ru_proc S i))"
    if "i \<in> ru_procs S" "counted allDbs ignoreVacuum be (ru_proc S i)" "TransactionIdIsValid (p_xmin (ru_proc S i))"
    using o that w(2) [OF that(1)] in_window_normal by (auto simp: oldest_of_def)
qed

text \<open>
  When the cutoff was computed, the process with the snapshot had it registered, or the snapshot came later; then no transaction of
  the tuple was running uncounted.
\<close>

definition cutoff_covers :: "TransactionId \<Rightarrow> Running \<Rightarrow> Running \<Rightarrow> bool \<Rightarrow> bool \<Rightarrow> Backend \<Rightarrow> nat \<Rightarrow> SnapshotData \<Rightarrow> TransactionId \<Rightarrow> bool" where
  "cutoff_covers base S0 S1 allDbs ignoreVacuum be i sn x \<longleftrightarrow>
     later base S0 S1 \<and> i \<in> ru_procs S1 \<and> counted allDbs ignoreVacuum be (ru_proc S1 i) \<and> TransactionIdIsValid (p_xmin (ru_proc S1 i))
       \<and> xid_age base (p_xmin (ru_proc S1 i)) \<le> xid_age base (sn_xmin sn)
   \<or> later base S1 S0 \<and> (\<forall>j \<in> ru_procs S1. x \<in> xact_of S1 j \<longrightarrow> counted allDbs ignoreVacuum be (ru_proc S1 j))"

lemma old_deleter_committed:
  assumes "takes_snapshot base S0 seen be0 sn" "later base S0 S" "later base S1 S" "run_inv base S1" "vacuum_defer_cleanup_age be = 0"
    and "cutoff_covers base S0 S1 allDbs ignoreVacuum be i sn x" "x \<notin> vacuum_xacts S0" "x \<in> committed base S"
    and "TransactionIdPrecedes x (GetOldestXmin False allDbs ignoreVacuum be (ru_gen S1) (ru_array S1))"
  shows "x \<in> committed base S0"
proof -
  let ?m = "GetOldestXmin False allDbs ignoreVacuum be (ru_gen S1) (ru_array S1)"
  note o = GetOldestXmin_spec [OF assms(4,5), where allDbs = allDbs and ignoreVacuum = ignoreVacuum]
  have x: "in_window base x" using assms(8) by (simp add: committed_def assigned_def)
  then have lt: "xid_age base x < xid_age base ?m" using window_precedes(1) [OF x o(1)] assms(9) by simp
  have fin: "x \<in> committed base T" if "later base T S" "xid_age base x < xid_age base (ru_next T)" "x \<notin> running T" for T
    using that assms(8) x by (auto simp: committed_def assigned_def later_def)
  show ?thesis
  proof (cases "later base S1 S0 \<and> (\<forall>j \<in> ru_procs S1. x \<in> xact_of S1 j \<longrightarrow> counted allDbs ignoreVacuum be (ru_proc S1 j))")
    case True
    have "x \<notin> running S1"
    proof
      assume "x \<in> running S1"
      then obtain j where j: "j \<in> ru_procs S1" "x \<in> xact_of S1 j" by (auto simp: running_def)
      then show False
        using o(3) [OF j(1)] True xact_of_valid [OF j(2)] xact_of_facts(2) [OF run_inv_procs [OF assms(4) j(1)] j(2)] lt by fastforce
    qed
    moreover have "xid_age base x < xid_age base (ru_next S1)" using lt o(2) Advance_latest_window(2) [OF assms(4)] by linarith
    ultimately show ?thesis using fin [OF assms(3)] True committed_later by blast
  next
    case False
    then have "xid_age base ?m \<le> xid_age base (sn_xmin sn)" using assms(6) o(4) by (fastforce simp: cutoff_covers_def)
    then have l: "xid_age base x < xid_age base (sn_xmin sn)" using lt by linarith
    have inv: "run_inv base S0" using assms(1) by (simp add: takes_snapshot_def)
    have "x \<notin> running S0" using snapshot_not_before [OF assms(1) later_refl [OF inv] _ assms(7)] l by fastforce
    moreover have "xid_age base x < xid_age base (ru_next S0)"
      using l snapshot_bounds(4) [OF assms(1)] Advance_latest_window(2) [OF inv] by (simp add: snapshot_fields(1) [OF assms(1)])
    ultimately show ?thesis using fin [OF assms(2)] by blast
  qed
qed

section \<open>What readers and vacuum rely on\<close>


text \<open>After the commit: a reader with the snapshot taken before it, and one with a new snapshot.\<close>

definition reader :: TqEnv where
  "reader = \<lparr>te_recovery = False, te_be = plain_backend\<lparr>RecentXmin := 100, be_TransactionXmin := 100\<rparr>, te_gen = ru_gen after_commit,
     te_array = ru_array after_commit, te_combo = AtEOXact_ComboCid, te_multi_members = (\<lambda>_. [])\<rparr>"

definition read_tuple :: "HeapTupleHeader \<Rightarrow> TqState" where
  "read_tuple tup = \<lparr>tq_tuple = tup, tq_dirty = False, tq_fetch = be_fetch plain_backend,
     tq_wal = \<lparr>LogwrtResult_Flush = InvalidXLogRecPtr, xlogctl_Flush = InvalidXLogRecPtr, minRecoveryPoint = InvalidXLogRecPtr,
       updateMinRecoveryPoint = False, ControlFile_minRecoveryPoint = InvalidXLogRecPtr, ControlFileLock_free = False\<rparr>\<rparr>"

definition new_tuple :: HeapTupleHeader where
  "new_tuple = \<lparr>t_xmin = 102, t_xmax = 0, t_field3 = 0, t_infomask = HEAP_XMAX_INVALID\<rparr>"

definition late_snapshot :: SnapshotData where
  "late_snapshot = fst (GetSnapshotData False (xg_procs (ru_gen after_commit)) plain_backend (ru_gen after_commit) (ru_array after_commit))"

lemma later_commit: "later 100 mid_commit after_commit"
  by (rule run_steps_later [OF commit_happens mid_commit_inv])

lemma after_commit_inv: "run_inv 100 after_commit"
  using later_commit by (simp add: later_def)

lemma after_takes_snapshot: "takes_snapshot 100 after_commit (xg_procs (ru_gen after_commit)) plain_backend late_snapshot"
  using after_commit_inv run_inv_procs proc_seen_refl by (auto simp: takes_snapshot_def late_snapshot_def ru_proc_def [symmetric])

lemma after_commit_procs: "ru_procs after_commit = {0, 1}"
  using mid_commit_parts(7) by (simp add: ru_procs_def after_commit_def)

lemma reader_facts: "own_of after_commit reader = {}" "asks_on 100 after_commit reader" "te_combo reader = AtEOXact_ComboCid"
    "RecentXmin (te_be reader) = 100" "MyProc (te_be reader) = 1" "be_TransactionXmin (te_be reader) = 100"
  using after_commit_inv
  by (simp_all add: own_of_def after_commit_xacts asks_on_def reader_def backend_ok_def plain_backend_def stack_wf_def own_xids_def in_window_def
      normal_ge_3 age_101 after_commit_procs)

lemma reader_holds: "holds_snapshot 100 mid_commit after_commit mid_snapshot reader" "holds_snapshot 100 after_commit after_commit late_snapshot reader"
proof -
  have p: "MyProc plain_backend = MyProc (te_be reader)" by (simp add: reader_def plain_backend_def)
  show "holds_snapshot 100 mid_commit after_commit mid_snapshot reader"
    using mid_takes_snapshot later_commit p by (auto simp: holds_snapshot_def reader_facts age_101 mid_commit_xacts)
  show "holds_snapshot 100 after_commit after_commit late_snapshot reader"
    using after_takes_snapshot later_refl [OF after_commit_inv] p by (auto simp: holds_snapshot_def reader_facts age_101 after_commit_xacts)
qed

lemma after_commit_assigned: "assigned 100 after_commit 101" "assigned 100 after_commit 102"
  using after_commit_committed by (auto simp: committed_def)

lemma reader_tuple: "tuple_ok 100 S0 after_commit reader new_tuple" "cache_idle after_commit (tq_fetch (read_tuple tup))" if "vacuum_xacts S0 = {}"
proof -
  have f: "has_flag new_tuple m \<longleftrightarrow> HEAP_XMAX_INVALID AND m \<noteq> 0" for m by (simp add: has_flag_def new_tuple_def)
  show "tuple_ok 100 S0 after_commit reader new_tuple"
    using that by (simp add: tuple_ok_def hints_ok_def f reader_facts xid_ok_def after_commit_assigned not_before_def after_commit_xacts after_commit_committed)
      (simp add: new_tuple_def after_commit_assigned)
  show "cache_idle after_commit (tq_fetch (read_tuple tup))"
    by (simp add: cache_idle_def read_tuple_def plain_backend_def cache_ok_def valid_not_0 after_commit_xacts)
qed

lemma no_vacuum: "vacuum_xacts after_commit = {}"
  by (simp add: vacuum_xacts_def after_commit_xacts)


text \<open>C13. Vacuum removes nothing that anybody can see.  If \<^verbatim>\<open>HeapTupleSatisfiesVacuum\<close> finds a tuple dead, with a cutoff
  from \<^verbatim>\<open>GetOldestXmin\<close>, then for every backend with a snapshot in use \<^verbatim>\<open>HeapTupleSatisfiesMVCC\<close>
  returns and says invisible; whether the snapshot was registered when the cutoff was computed, or was taken afterwards, when the deleter is a
  transaction the cutoff counts.  No transaction of that backend is marked aborted in the log.\<close>

theorem vacuum_removes_only_invisible:
  assumes "run_inv base S1" "(run_step base)\<^sup>*\<^sup>* S1 S" "vacuum_defer_cleanup_age be1 = 0"
    and "OldestXmin = GetOldestXmin False allDbs ignoreVacuum be1 (ru_gen S1) (ru_array S1)"
    and "asks_on base S e" "tuple_ok base S0 S e (tq_tuple s)" "cache_idle S (tq_fetch s)"
    and "HeapTupleSatisfiesVacuum e OldestXmin s = Some (HEAPTUPLE_DEAD, s')"
    and "asks_on base S e2" "holds_snapshot base S0 S sn e2" "tuple_ok base S0 S e2 (tq_tuple s2)" "cache_idle S (tq_fetch s2)" "tq_tuple s2 = tq_tuple s"
    and "cutoff_covers base S0 S1 allDbs ignoreVacuum be1 (MyProc (te_be e2)) sn (t_xmax (tq_tuple s))"
    and "\<forall>x \<in> own_of S e2. \<not> did_abort (clog_status (xg_clog (ru_gen S))) (xg_sub (ru_gen S)) (be_TransactionXmin (te_be e)) x"
  shows "\<exists>s3. HeapTupleSatisfiesMVCC e2 sn s2 = Some (False, s3)"
proof -
  let ?tup = "tq_tuple s" and ?own = "own_of S e2"
  obtain seen be0 where t: "takes_snapshot base S0 seen be0 sn" and l: "later base S0 S" using assms(10) by (auto simp: holds_snapshot_def)
  have own: "?own \<inter> committed base S = {}" "?own \<inter> ru_aborted S = {}"
    using own_not_committed [OF assms(9)] assms(9) by (auto simp: own_of_def asks_on_def backend_ok_def running_def run_inv_def logs_inv_def)
  have r: "dead_reason base S e OldestXmin ?tup" by (rule HeapTupleSatisfiesVacuum_dead [OF assms(5-8)])
  have "\<not> visible_for base S0 ?own (te_combo e2) sn ?tup"
  proof (cases "t_xmin ?tup \<in> committed base S0 \<or> t_xmin ?tup \<in> ?own")
    case True
    have h: "has_flag ?tup HEAP_XMIN_INVALID \<longrightarrow> t_xmin ?tup \<notin> committed base S \<union> ?own" using assms(11,13) by (simp add: tuple_ok_def hints_ok_def)
    then have d: "\<not> has_flag ?tup HEAP_IS_LOCKED" "\<not> has_flag ?tup HEAP_XMAX_INVALID" "t_xmax ?tup \<in> committed base S" "TransactionIdPrecedes (t_xmax ?tup) OldestXmin"
      using r True own assms(15) committed_later [OF l] unfolding dead_reason_def by blast+
    then have "t_xmax ?tup \<notin> vacuum_xacts S0" using assms(6) by (simp add: tuple_ok_def)
    then have "t_xmax ?tup \<in> committed base S0"
      using old_deleter_committed [OF t l run_steps_later [OF assms(2,1)] assms(1,3,14)] d(3,4) assms(4) by simp
    then show ?thesis using d(1,3) own by (auto simp: visible_for_def deleted_for_def)
  qed (auto simp: visible_for_def)
  then show ?thesis using HeapTupleSatisfiesMVCC_spec [OF assms(9-12)] by (auto simp: answers_def assms(13))
qed

definition dead_tuple :: HeapTupleHeader where
  "dead_tuple = \<lparr>t_xmin = 101, t_xmax = 102, t_field3 = 0, t_infomask = HEAP_XMIN_COMMITTED OR HEAP_XMAX_COMMITTED\<rparr>"

lemma dead_tuple_flags: "has_flag dead_tuple m \<longleftrightarrow> HEAP_XMIN_COMMITTED AND m \<noteq> 0 \<or> HEAP_XMAX_COMMITTED AND m \<noteq> 0"
  unfolding has_flag_def dead_tuple_def by (simp add: bit.conj_disj_distrib2 or_eq_0_iff)

lemma dead_tuple_ok: "tuple_ok 100 after_commit after_commit reader dead_tuple"
  by (simp add: tuple_ok_def hints_ok_def dead_tuple_flags reader_facts xid_ok_def not_before_def after_commit_xacts after_commit_committed no_vacuum)
    (simp add: dead_tuple_def after_commit_assigned)

lemma after_commit_cutoff: "GetOldestXmin False True True (te_be reader) (ru_gen after_commit) (ru_array after_commit) = 104"
proof -
  have "ru_latest after_commit = 103"
    using mid_commit_parts(6) by (simp add: after_commit_def ru_latest_def ProcArrayEndTransaction_def TransactionIdLatest_def valid_not_0
        advance_latestCompletedXid_def TransactionIdPrecedes_def normal_ge_3)
  moreover have p: "p_xid (xg_procs (ru_gen after_commit) i) = 0" "p_xmin (xg_procs (ru_gen after_commit) i) = 0" for i
    using mid_commit_parts(11) by (auto simp: after_commit_def ProcArrayEndTransaction_def ru_proc_def Let_def valid_not_0 TransactionIdLatest_def
        fun_eq_iff clear_xids_def clear_transaction_def zero_proc_def InvalidTransactionId_def)
  moreover have "pa_procs (ru_array after_commit) = [0, 1]" using mid_commit_parts(8) by (simp add: after_commit_def)
  ultimately show ?thesis
    by (simp add: GetOldestXmin_def ru_latest_def Let_def older_normal_def normal_ge_3 defer_cleanup_def TransactionIdAdvance_def
        FirstNormalTransactionId_def reader_def plain_backend_def)
qed

theorem vacuum_removes_only_invisible_witness:
  "\<exists>s3. HeapTupleSatisfiesMVCC reader late_snapshot (read_tuple dead_tuple) = Some (False, s3)"
proof -
  have t: "tq_tuple (read_tuple dead_tuple) = dead_tuple" by (simp add: read_tuple_def)
  have "TransactionIdPrecedes 102 104" by (simp add: TransactionIdPrecedes_def normal_ge_3)
  then have "HeapTupleSatisfiesVacuum reader 104 (read_tuple dead_tuple) = Some (HEAPTUPLE_DEAD, read_tuple dead_tuple)"
    by (simp add: HeapTupleSatisfiesVacuum_def vacuum_xmin_def Let_def tq_if_def t dead_tuple_flags tq_return_def)
      (simp add: dead_tuple_def)
  moreover have "cutoff_covers 100 after_commit after_commit True True (te_be reader) (MyProc (te_be reader)) late_snapshot (t_xmax dead_tuple)"
    using later_refl [OF after_commit_inv] by (simp add: cutoff_covers_def after_commit_xacts)
  moreover have "vacuum_defer_cleanup_age (te_be reader) = 0" by (simp add: reader_def plain_backend_def)
  ultimately show ?thesis
    using vacuum_removes_only_invisible [OF after_commit_inv rtranclp.rtrancl_refl _ after_commit_cutoff [symmetric] reader_facts(2) _ _ _ reader_facts(2)
        reader_holds(2), of "read_tuple dead_tuple" _ "read_tuple dead_tuple"] dead_tuple_ok reader_tuple(2) [OF no_vacuum, of dead_tuple]
    by (simp add: t reader_facts)
qed

section \<open>Command identifiers\<close>

definition combo_ok :: "ComboCids \<Rightarrow> bool" where
  "combo_ok cc \<longleftrightarrow> length (comboCids cc) < 2 ^ 32
     \<and> (\<forall>p c. comboHash cc p = Some c \<longrightarrow> unat c < length (comboCids cc) \<and> comboCids cc ! unat c = p)"

lemma GetComboCommandId_spec:
  assumes "combo_ok cc" "length (comboCids cc) + 1 < 2 ^ 32" "GetComboCommandId cmin cmax cc = (combo, cc')"
  shows "combo_ok cc' \<and> unat combo < length (comboCids cc') \<and> comboCids cc' ! unat combo = (cmin, cmax)
    \<and> (\<forall>k < length (comboCids cc). comboCids cc' ! k = comboCids cc ! k)"
proof (cases "comboHash cc (cmin, cmax)")
  case None
  then have r: "combo = of_nat (length (comboCids cc))" "cc' = \<lparr>comboHash = (comboHash cc)((cmin, cmax) \<mapsto> combo), comboCids = comboCids cc @ [(cmin, cmax)]\<rparr>"
    using assms(3) by (auto simp: GetComboCommandId_def Let_def)
  have u: "unat combo = length (comboCids cc)" using assms(2) by (simp add: r(1) unat_of_nat take_bit_nat_eq_self)
  show ?thesis using assms(1,2) u by (auto simp: combo_ok_def r(2) nth_append less_Suc_eq split: if_splits)
next
  case (Some c)
  then show ?thesis using assms by (auto simp: GetComboCommandId_def combo_ok_def)
qed

text \<open>C33. Command identifiers survive being combined.  When a transaction deletes a tuple, storing what
  \<^verbatim>\<open>HeapTupleHeaderAdjustCmax\<close> returns makes the header give back both the inserting command and the deleting one, if the transaction
  inserted the tuple itself, and otherwise the deleting one; identifiers combined before still decode to the same commands.\<close>

theorem HeapTupleHeaderAdjustCmax_roundtrip:
  assumes "combo_ok cc" "length (comboCids cc) + 1 < 2 ^ 32" "HeapTupleHeaderAdjustCmax stack tup cmax cc = ((cid, iscombo), cc')"
  shows "combo_ok cc' \<and> HeapTupleHeaderGetCmax cc' (HeapTupleHeaderSetCmax cid iscombo tup) = cmax
    \<and> (iscombo \<longrightarrow> HeapTupleHeaderGetCmin cc' (HeapTupleHeaderSetCmax cid iscombo tup) = HeapTupleHeaderGetCmin cc tup)
    \<and> (iscombo \<longleftrightarrow> \<not> has_flag tup HEAP_XMIN_COMMITTED \<and> TransactionIdIsCurrentTransactionId stack (t_xmin tup))
    \<and> (\<forall>k. unat k < length (comboCids cc) \<longrightarrow> GetRealCmin cc' k = GetRealCmin cc k \<and> GetRealCmax cc' k = GetRealCmax cc k)"
proof -
  have f: "has_flag (HeapTupleHeaderSetCmax cid b tup) HEAP_COMBOCID \<longleftrightarrow> b" for b
    by (cases b) (simp_all add: HeapTupleHeaderSetCmax_def has_flag_def HEAP_COMBOCID_def bit.conj_disj_distrib2 or_eq_0_iff and.assoc)
  have g: "t_field3 (HeapTupleHeaderSetCmax cid b tup) = cid" for b by (simp add: HeapTupleHeaderSetCmax_def)
  show ?thesis
  proof (cases "\<not> has_flag tup HEAP_XMIN_COMMITTED \<and> TransactionIdIsCurrentTransactionId stack (t_xmin tup)")
    case True
    then have "iscombo" "GetComboCommandId (HeapTupleHeaderGetCmin cc tup) cmax cc = (cid, cc')"
      using assms(3) by (auto simp: HeapTupleHeaderAdjustCmax_def split: prod.splits)
    then show ?thesis
      using GetComboCommandId_spec [OF assms(1,2)] True f g
      by (auto simp: HeapTupleHeaderGetCmax_def HeapTupleHeaderGetCmin_def GetRealCmin_def GetRealCmax_def)
  next
    case False
    then have "\<not> iscombo" "cid = cmax" "cc' = cc" using assms(3) by (auto simp: HeapTupleHeaderAdjustCmax_def)
    then show ?thesis using assms(1) False f g by (auto simp: HeapTupleHeaderGetCmax_def)
  qed
qed

theorem HeapTupleHeaderAdjustCmax_roundtrip_witness:
  "\<exists>cid cc' stack. let tup = \<lparr>t_xmin = 101, t_xmax = 0, t_field3 = 3, t_infomask = HEAP_XMAX_INVALID\<rparr>
     in HeapTupleHeaderAdjustCmax stack tup 5 AtEOXact_ComboCid = ((cid, True), cc')
      \<and> HeapTupleHeaderGetCmin cc' (HeapTupleHeaderSetCmax cid True tup) = 3 \<and> HeapTupleHeaderGetCmax cc' (HeapTupleHeaderSetCmax cid True tup) = 5"
proof -
  define stack where "stack = [\<lparr>ts_transactionId = 101, ts_subTransactionId = 1, ts_name = None, ts_savepointLevel = 0, ts_state = TRANS_INPROGRESS,
    ts_blockState = TBLOCK_INPROGRESS, ts_nestingLevel = 1, ts_curTransactionOwner = True, ts_childXids = []\<rparr>]"
  define tup where "tup = \<lparr>t_xmin = 101, t_xmax = 0, t_field3 = 3, t_infomask = HEAP_XMAX_INVALID\<rparr>"
  have c: "TransactionIdIsCurrentTransactionId stack (t_xmin tup)" "\<not> has_flag tup HEAP_XMIN_COMMITTED" "HeapTupleHeaderGetCmin AtEOXact_ComboCid tup = 3"
    by (simp_all add: stack_def tup_def normal_ge_3 valid_not_0 has_flag_def HeapTupleHeaderGetCmin_def)
  then obtain cid cc' where r: "HeapTupleHeaderAdjustCmax stack tup 5 AtEOXact_ComboCid = ((cid, True), cc')"
    by (cases "GetComboCommandId 3 5 AtEOXact_ComboCid") (simp add: HeapTupleHeaderAdjustCmax_def)
  have "combo_ok AtEOXact_ComboCid" "length (comboCids AtEOXact_ComboCid) + 1 < 2 ^ 32" by (simp_all add: combo_ok_def AtEOXact_ComboCid_def)
  then have "HeapTupleHeaderGetCmax cc' (HeapTupleHeaderSetCmax cid True tup) = 5" "HeapTupleHeaderGetCmin cc' (HeapTupleHeaderSetCmax cid True tup) = 3"
    using HeapTupleHeaderAdjustCmax_roundtrip [OF _ _ r] c(3) by simp_all
  with r show ?thesis unfolding Let_def tup_def by blast
qed

end
