(* ===== verification/Xact_Block.thy ===== *)
theory Xact_Block
  imports Procarray
begin

text \<open>
  Transaction blocks (\<^verbatim>\<open>access/transam/xact.c\<close>): the state machine behind \<^verbatim>\<open>BEGIN\<close>,
  \<^verbatim>\<open>COMMIT\<close>, \<^verbatim>\<open>ROLLBACK\<close> and savepoints, and the commands that drive it
  (\<^verbatim>\<open>tcop/utility.c\<close>, \<^verbatim>\<open>tcop/postgres.c\<close>).
\<close>

section \<open>The session of a backend\<close>

text \<open>
  An error of level \<^verbatim>\<open>ERROR\<close>, \<^verbatim>\<open>FATAL\<close> or \<^verbatim>\<open>PANIC\<close>; the last two stand for access through a null pointer and for a call that does
  not return.
\<close>

datatype xact_error = XError pg_error | XFatal string | XPanic string | XNullPointer | XHangs

datatype XactRecord =
    XLOG_XACT_COMMIT TransactionId "TransactionId list"
  | XLOG_XACT_ABORT TransactionId "TransactionId list"
  | XLOG_XACT_ASSIGNMENT TransactionId "TransactionId list"

text \<open>
  The file-level variables of \<^verbatim>\<open>xact.c\<close> and \<^verbatim>\<open>postgres.c\<close>, with the current transaction state first in the stack and the top-level
  one last; the shared state; the transaction records written to the log, the warnings and the completion tags sent to the client.
\<close>

record Session =
  se_stack :: "TransactionStateData list"
  currentSubTransactionId :: uint32
  se_commandId :: uint32
  se_commandIdUsed :: bool
  unreportedXids :: "TransactionId list"
  prepareGID :: "string option"
  se_fetch :: XactCache
  se_TransactionXmin :: TransactionId
  se_gen :: XidGen
  se_xlog :: "XactRecord list"
  se_warnings :: "string list"
  se_tags :: "string list"
  xact_started :: bool

text \<open>
  Settings of the server and of the transaction, and what is decided elsewhere: an error before the commit, the files to delete, the end of the
  log, the next local identifier, and the functions of \<^verbatim>\<open>twophase.c\<close>.
\<close>

record SessionEnv =
  sv_mode :: BackendMode
  sv_MyProc :: nat
  sv_others :: "XidGen \<Rightarrow> XidGen"
  XLogStandbyInfoActive :: bool
  precommit_error :: "pg_error option"
  sv_nrels :: nat
  wrote_xlog :: bool
  synchronous_commit :: bool
  forceSyncCommit :: bool
  XactLastRecEnd :: XLogRecPtr
  nextLocalTransactionId :: uint32
  MarkAsPreparing :: "TransactionId \<Rightarrow> string option \<Rightarrow> XidGen \<Rightarrow> pg_error + XidGen"
  EndPrepare :: "TransactionId \<Rightarrow> TransactionId list \<Rightarrow> XidGen \<Rightarrow> pg_error + XidGen"
  FinishPreparedTransaction :: "string \<Rightarrow> bool \<Rightarrow> XidGen \<Rightarrow> pg_error + XidGen"

type_synonym 'a xm = "Session \<Rightarrow> (xact_error + 'a) \<times> Session"

definition xm_return :: "'a \<Rightarrow> 'a xm" where
  "xm_return a = (\<lambda>se. (Inr a, se))"

definition xm_throw :: "xact_error \<Rightarrow> 'a xm" where
  "xm_throw e = (\<lambda>se. (Inl e, se))"

definition xm_bind :: "'a xm \<Rightarrow> ('a \<Rightarrow> 'b xm) \<Rightarrow> 'b xm" where
  "xm_bind A B = (\<lambda>se. case A se of (Inl e, se1) \<Rightarrow> (Inl e, se1) | (Inr a, se1) \<Rightarrow> B a se1)"

definition xm_then :: "'a xm \<Rightarrow> 'b xm \<Rightarrow> 'b xm" where
  "xm_then A B = xm_bind A (\<lambda>_. B)"

definition xm_update :: "(Session \<Rightarrow> Session) \<Rightarrow> unit xm" where
  "xm_update f = (\<lambda>se. (Inr (), f se))"

definition xm_warn :: "string \<Rightarrow> unit xm" where
  "xm_warn msg = xm_update (\<lambda>se. se\<lparr>se_warnings := se_warnings se @ [msg]\<rparr>)"

definition xm_when :: "bool \<Rightarrow> unit xm \<Rightarrow> unit xm" where
  "xm_when b A = (if b then A else xm_return ())"

definition CurrentTransactionState :: "Session \<Rightarrow> TransactionStateData" where
  "CurrentTransactionState se = hd (se_stack se)"

definition TopTransactionStateData :: "Session \<Rightarrow> TransactionStateData" where
  "TopTransactionStateData se = last (se_stack se)"

definition with_current :: "(TransactionStateData \<Rightarrow> 'a xm) \<Rightarrow> 'a xm" where
  "with_current f = (\<lambda>se. f (CurrentTransactionState se) se)"

fun on_head :: "('a \<Rightarrow> 'a) \<Rightarrow> 'a list \<Rightarrow> 'a list" where
  "on_head f [] = []"
| "on_head f (x # xs) = f x # xs"

definition set_current :: "(TransactionStateData \<Rightarrow> TransactionStateData) \<Rightarrow> unit xm" where
  "set_current f = xm_update (\<lambda>se. se\<lparr>se_stack := on_head f (se_stack se)\<rparr>)"

definition set_blockState :: "TBlockState \<Rightarrow> unit xm" where
  "set_blockState b = set_current (\<lambda>s. s\<lparr>ts_blockState := b\<rparr>)"

definition set_state :: "TransState \<Rightarrow> unit xm" where
  "set_state st = set_current (\<lambda>s. s\<lparr>ts_state := st\<rparr>)"

section \<open>Accessors\<close>

definition InTransactionState :: "Session \<Rightarrow> bool" where
  "InTransactionState se \<longleftrightarrow> ts_state (CurrentTransactionState se) = TRANS_INPROGRESS"

definition IsAbortedTransactionBlockState :: "Session \<Rightarrow> bool" where
  "IsAbortedTransactionBlockState se \<longleftrightarrow> ts_blockState (CurrentTransactionState se) \<in> {TBLOCK_ABORT, TBLOCK_SUBABORT}"

definition IsTransactionBlock :: "Session \<Rightarrow> bool" where
  "IsTransactionBlock se \<longleftrightarrow> ts_blockState (CurrentTransactionState se) \<notin> {TBLOCK_DEFAULT, TBLOCK_STARTED}"

definition IsTransactionOrTransactionBlock :: "Session \<Rightarrow> bool" where
  "IsTransactionOrTransactionBlock se \<longleftrightarrow> ts_blockState (CurrentTransactionState se) \<noteq> TBLOCK_DEFAULT"

definition TransactionBlockStatusCode :: "Session \<Rightarrow> char" where
  "TransactionBlockStatusCode se =
     (if ts_blockState (CurrentTransactionState se) \<in> {TBLOCK_DEFAULT, TBLOCK_STARTED} then CHR ''I''
      else if ts_blockState (CurrentTransactionState se) \<in> {TBLOCK_BEGIN, TBLOCK_SUBBEGIN, TBLOCK_INPROGRESS, TBLOCK_SUBINPROGRESS,
                TBLOCK_END, TBLOCK_SUBEND, TBLOCK_PREPARE} then CHR ''T''
      else CHR ''E'')"

definition IsSubTransaction :: "Session \<Rightarrow> bool" where
  "IsSubTransaction se \<longleftrightarrow> ts_nestingLevel (CurrentTransactionState se) \<ge> 2"

definition PreventTransactionChain :: "bool \<Rightarrow> unit xm" where
  "PreventTransactionChain isTopLevel = (\<lambda>se.
     if IsTransactionBlock se \<or> IsSubTransaction se \<or> \<not> isTopLevel then xm_throw (XError (Ereport ERRCODE_ACTIVE_SQL_TRANSACTION)) se
     else if ts_blockState (CurrentTransactionState se) \<notin> {TBLOCK_DEFAULT, TBLOCK_STARTED}
     then xm_throw (XFatal ''cannot prevent transaction chain'') se
     else xm_return () se)"

definition RequireTransactionChain :: "bool \<Rightarrow> unit xm" where
  "RequireTransactionChain isTopLevel = (\<lambda>se.
     if IsTransactionBlock se \<or> IsSubTransaction se \<or> \<not> isTopLevel then xm_return () se
     else xm_throw (XError (Ereport ERRCODE_NO_ACTIVE_SQL_TRANSACTION)) se)"

definition IsInTransactionChain :: "bool \<Rightarrow> Session \<Rightarrow> bool" where
  "IsInTransactionChain isTopLevel se \<longleftrightarrow> IsTransactionBlock se \<or> IsSubTransaction se \<or> \<not> isTopLevel
     \<or> ts_blockState (CurrentTransactionState se) \<notin> {TBLOCK_DEFAULT, TBLOCK_STARTED}"

section \<open>Identifiers and commands\<close>

definition XactRecord_assignment :: "SessionEnv \<Rightarrow> TransactionId \<Rightarrow> TransactionId \<Rightarrow> Session \<Rightarrow> Session" where
  "XactRecord_assignment env xtop xid se =
     (if XLogStandbyInfoActive env
      then let xids = unreportedXids se @ [xid]
           in if length xids \<ge> PGPROC_MAX_CACHED_SUBXIDS
              then se\<lparr>unreportedXids := [], se_xlog := se_xlog se @ [XLOG_XACT_ASSIGNMENT xtop xids]\<rparr>
              else se\<lparr>unreportedXids := xids\<rparr>
      else se)"

text \<open>The entries without an identifier get one from the outermost inwards; what was assigned before an error stays.\<close>

fun AssignTransactionId :: "SessionEnv \<Rightarrow> TransactionStateData list \<Rightarrow> Session \<Rightarrow> (xact_error + unit) \<times> TransactionStateData list \<times> Session" where
  "AssignTransactionId env [] se = (Inr (), [], se)"
| "AssignTransactionId env (s # parents) se =
     (if TransactionIdIsValid (ts_transactionId s) then (Inr (), s # parents, se)
      else case AssignTransactionId env parents se of
             (Inl e, ps, se1) \<Rightarrow> (Inl e, s # ps, se1)
           | (Inr _, ps, se1) \<Rightarrow>
               (case GetNewTransactionId (sv_mode env) (ps \<noteq> []) (sv_MyProc env) (sv_others env) (se_gen se1) of
                  (Inl e, ns, g) \<Rightarrow> (Inl (XError e), s # ps, se1\<lparr>se_gen := g\<rparr>)
                | (Inr xid, ns, g) \<Rightarrow>
                    (Inr (), s\<lparr>ts_transactionId := xid\<rparr> # ps,
                     if ps \<noteq> []
                     then XactRecord_assignment env (ts_transactionId (last ps)) xid
                            (se1\<lparr>se_gen := g\<lparr>xg_sub := SubTransSetParent xid (ts_transactionId (hd ps)) (xg_sub g)\<rparr>\<rparr>)
                     else se1\<lparr>se_gen := g\<rparr>)))"

definition GetCurrentTransactionId :: "SessionEnv \<Rightarrow> TransactionId xm" where
  "GetCurrentTransactionId env = (\<lambda>se. case AssignTransactionId env (se_stack se) se of
     (Inl e, st, se1) \<Rightarrow> (Inl e, se1\<lparr>se_stack := st\<rparr>) | (Inr _, st, se1) \<Rightarrow> (Inr (ts_transactionId (hd st)), se1\<lparr>se_stack := st\<rparr>))"

definition GetTopTransactionId :: "SessionEnv \<Rightarrow> TransactionId xm" where
  "GetTopTransactionId env = (\<lambda>se. case AssignTransactionId env [TopTransactionStateData se] se of
     (Inl e, st, se1) \<Rightarrow> (Inl e, se1\<lparr>se_stack := butlast (se_stack se) @ st\<rparr>)
   | (Inr _, st, se1) \<Rightarrow> (Inr (ts_transactionId (hd st)), se1\<lparr>se_stack := butlast (se_stack se) @ st\<rparr>))"

definition CommandCounterIncrement :: "unit xm" where
  "CommandCounterIncrement = (\<lambda>se.
     if se_commandIdUsed se
     then if se_commandId se + 1 = 0 then (Inl (XError (Ereport ERRCODE_PROGRAM_LIMIT_EXCEEDED)), se)
          else (Inr (), se\<lparr>se_commandId := se_commandId se + 1, se_commandIdUsed := False\<rparr>)
     else (Inr (), se))"

definition xactGetCommittedChildren :: "Session \<Rightarrow> TransactionId list" where
  "xactGetCommittedChildren se = ts_childXids (CurrentTransactionState se)"

section \<open>Transactions\<close>

definition on_gen :: "(XidGen \<Rightarrow> XidGen) \<Rightarrow> unit xm" where
  "on_gen f = xm_update (\<lambda>se. se\<lparr>se_gen := f (se_gen se)\<rparr>)"

definition StartTransaction :: "SessionEnv \<Rightarrow> unit xm" where
  "StartTransaction env = (\<lambda>se.
     let s = TopTransactionStateData se; i = sv_MyProc env; g = se_gen se
     in (Inr (), se\<lparr>
           se_stack := [s\<lparr>ts_transactionId := InvalidTransactionId, ts_subTransactionId := 1, ts_state := TRANS_INPROGRESS,
                          ts_nestingLevel := 1, ts_childXids := [], ts_curTransactionOwner := True\<rparr>],
           currentSubTransactionId := 1, se_commandId := 0, se_commandIdUsed := False, unreportedXids := [],
           se_gen := g\<lparr>xg_procs := (xg_procs g)(i := (xg_procs g i)\<lparr>p_lxid := nextLocalTransactionId env\<rparr>)\<rparr>,
           se_warnings := se_warnings se @ (if ts_state s \<noteq> TRANS_DEFAULT then [''StartTransaction while in unexpected state''] else [])\<rparr>))"

text \<open>The fields of a top-level state are reset when its transaction ends.\<close>

definition reset_top :: "TransactionStateData \<Rightarrow> TransactionStateData" where
  "reset_top s = s\<lparr>ts_transactionId := InvalidTransactionId, ts_subTransactionId := 0, ts_nestingLevel := 0, ts_childXids := [],
     ts_curTransactionOwner := False, ts_state := TRANS_DEFAULT\<rparr>"

text \<open>The flag \<^verbatim>\<open>inCommit\<close> is set for the time the commit record and the commit log are written.\<close>

definition RecordTransactionCommit :: "SessionEnv \<Rightarrow> TransactionId xm" where
  "RecordTransactionCommit env = (\<lambda>se.
     let xid = ts_transactionId (TopTransactionStateData se); children = xactGetCommittedChildren se; n = length children;
         g = se_gen se; i = sv_MyProc env
     in if \<not> TransactionIdIsValid xid
        then if sv_nrels env \<noteq> 0
             then (Inl (XError (Elog ''cannot commit a transaction that deleted files but has no xid'')), se)
             else (Inr (if wrote_xlog env then TransactionIdLatest xid children else InvalidTransactionId), se)
        else let clog = (if wrote_xlog env \<and> synchronous_commit env \<or> forceSyncCommit env \<or> sv_nrels env > 0
                         then TransactionIdCommitTree False xid n ((!) children) (xg_clog g)
                         else TransactionIdAsyncCommitTree False xid n ((!) children) (XactLastRecEnd env) (xg_clog g))
             in (Inr (TransactionIdLatest xid children),
                 se\<lparr>se_gen := g\<lparr>xg_clog := clog, xg_procs := (xg_procs g)(i := (xg_procs g i)\<lparr>p_inCommit := False\<rparr>)\<rparr>,
                     se_xlog := se_xlog se @ [XLOG_XACT_COMMIT xid children]\<rparr>))"

definition RecordTransactionAbort :: "SessionEnv \<Rightarrow> bool \<Rightarrow> TransactionId xm" where
  "RecordTransactionAbort env isSubXact = (\<lambda>se.
     let xid = ts_transactionId (CurrentTransactionState se); children = xactGetCommittedChildren se; n = length children; g = se_gen se
     in if \<not> TransactionIdIsValid xid then (Inr InvalidTransactionId, se)
        else case TransactionIdDidCommit (xg_clog g) (xg_sub g) (se_TransactionXmin se) (se_fetch se) xid of
               None \<Rightarrow> (Inl XHangs, se)
             | Some (True, c) \<Rightarrow> (Inl (XPanic ''cannot abort transaction, it was already committed''), se\<lparr>se_fetch := c\<rparr>)
             | Some (False, c) \<Rightarrow>
                 (let latestXid = TransactionIdLatest xid children;
                      g1 = g\<lparr>xg_clog := TransactionIdAbortTree False xid n ((!) children) (xg_clog g)\<rparr>;
                      g2 = (if isSubXact then XidCacheRemoveRunningXids (sv_MyProc env) xid children latestXid g1 else g1)
                  in (Inr latestXid, se\<lparr>se_fetch := c, se_gen := g2, se_xlog := se_xlog se @ [XLOG_XACT_ABORT xid children]\<rparr>)))"

definition CommitTransaction :: "SessionEnv \<Rightarrow> unit xm" where
  "CommitTransaction env = with_current (\<lambda>s.
     xm_then (xm_when (ts_state s \<noteq> TRANS_INPROGRESS) (xm_warn ''CommitTransaction while in unexpected state''))
     (case precommit_error env of
        Some e \<Rightarrow> xm_throw (XError e)
      | None \<Rightarrow>
          xm_then (set_state TRANS_COMMIT)
          (xm_bind (RecordTransactionCommit env) (\<lambda>latestXid.
           xm_then (on_gen (ProcArrayEndTransaction (sv_MyProc env) latestXid))
           (set_current reset_top)))))"

definition PrepareTransaction :: "SessionEnv \<Rightarrow> unit xm" where
  "PrepareTransaction env =
     xm_bind (GetCurrentTransactionId env) (\<lambda>xid. with_current (\<lambda>s.
     xm_then (xm_when (ts_state s \<noteq> TRANS_INPROGRESS) (xm_warn ''PrepareTransaction while in unexpected state''))
     (case precommit_error env of
        Some e \<Rightarrow> xm_throw (XError e)
      | None \<Rightarrow>
          xm_then (set_state TRANS_PREPARE)
          (xm_then (\<lambda>se. case MarkAsPreparing env xid (prepareGID se) (se_gen se) of
                      Inl e \<Rightarrow> (Inl (XError e), se) | Inr g \<Rightarrow> (Inr (), se\<lparr>prepareGID := None, se_gen := g\<rparr>))
          (xm_then (\<lambda>se. case EndPrepare env xid (xactGetCommittedChildren se) (se_gen se) of
                      Inl e \<Rightarrow> (Inl (XError e), se) | Inr g \<Rightarrow> (Inr (), se\<lparr>se_gen := g\<rparr>))
          (xm_then (on_gen (ProcArrayClearTransaction (sv_MyProc env)))
           (set_current reset_top)))))))"

definition AbortTransaction :: "SessionEnv \<Rightarrow> unit xm" where
  "AbortTransaction env = with_current (\<lambda>s.
     xm_then (xm_when (ts_state s \<notin> {TRANS_INPROGRESS, TRANS_PREPARE}) (xm_warn ''AbortTransaction while in unexpected state''))
     (xm_then (set_state TRANS_ABORT)
     (xm_bind (RecordTransactionAbort env False) (\<lambda>latestXid.
      on_gen (ProcArrayEndTransaction (sv_MyProc env) latestXid)))))"

definition CleanupTransaction :: "unit xm" where
  "CleanupTransaction = with_current (\<lambda>s.
     if ts_state s \<noteq> TRANS_ABORT then xm_throw (XFatal ''CleanupTransaction: unexpected state'') else set_current reset_top)"

section \<open>Subtransactions\<close>

definition PushTransaction :: "unit xm" where
  "PushTransaction = (\<lambda>se.
     let p = CurrentTransactionState se; subid = currentSubTransactionId se + 1
     in if subid = 0 then (Inl (XError (Ereport ERRCODE_PROGRAM_LIMIT_EXCEEDED)), se)
        else (Inr (), se\<lparr>currentSubTransactionId := subid,
               se_stack := \<lparr>ts_transactionId = InvalidTransactionId, ts_subTransactionId = subid, ts_name = None,
                            ts_savepointLevel = ts_savepointLevel p, ts_state = TRANS_DEFAULT, ts_blockState = TBLOCK_SUBBEGIN,
                            ts_nestingLevel = ts_nestingLevel p + 1, ts_curTransactionOwner = False, ts_childXids = []\<rparr> # se_stack se\<rparr>))"

definition PopTransaction :: "unit xm" where
  "PopTransaction = with_current (\<lambda>s.
     xm_then (xm_when (ts_state s \<noteq> TRANS_DEFAULT) (xm_warn ''PopTransaction while in unexpected state''))
     (\<lambda>se. if tl (se_stack se) = [] then (Inl (XFatal ''PopTransaction with no parent''), se)
           else (Inr (), se\<lparr>se_stack := tl (se_stack se)\<rparr>)))"

definition StartSubTransaction :: "unit xm" where
  "StartSubTransaction = with_current (\<lambda>s.
     xm_then (xm_when (ts_state s \<noteq> TRANS_DEFAULT) (xm_warn ''StartSubTransaction while in unexpected state''))
     (set_current (\<lambda>s. s\<lparr>ts_state := TRANS_INPROGRESS, ts_curTransactionOwner := True\<rparr>)))"

text \<open>The number of committed children is limited by the size of an allocation.\<close>

definition MaxAllocSize :: nat where
  "MaxAllocSize = 0x3fffffff"

definition AtSubCommit_childXids :: "unit xm" where
  "AtSubCommit_childXids = (\<lambda>se. case se_stack se of
       s # p # parents \<Rightarrow>
         (let xids = ts_childXids p @ ts_transactionId s # ts_childXids s
          in if length xids > MaxAllocSize div 4 then (Inl (XError (Ereport ERRCODE_PROGRAM_LIMIT_EXCEEDED)), se)
             else (Inr (), se\<lparr>se_stack := s\<lparr>ts_childXids := []\<rparr> # p\<lparr>ts_childXids := xids\<rparr> # parents\<rparr>))
     | _ \<Rightarrow> (Inl XNullPointer, se))"

definition CommitSubTransaction :: "unit xm" where
  "CommitSubTransaction = with_current (\<lambda>s.
     xm_then (xm_when (ts_state s \<noteq> TRANS_INPROGRESS) (xm_warn ''CommitSubTransaction while in unexpected state''))
     (xm_then (set_state TRANS_COMMIT)
     (xm_then CommandCounterIncrement
     (xm_then (if TransactionIdIsValid (ts_transactionId s) then AtSubCommit_childXids else xm_return ())
     (xm_then (set_current (\<lambda>s. s\<lparr>ts_curTransactionOwner := False, ts_state := TRANS_DEFAULT\<rparr>))
      PopTransaction)))))"

definition AtSubAbort_childXids :: "unit xm" where
  "AtSubAbort_childXids = set_current (\<lambda>s. s\<lparr>ts_childXids := []\<rparr>)"

definition AbortSubTransaction :: "SessionEnv \<Rightarrow> unit xm" where
  "AbortSubTransaction env = with_current (\<lambda>s.
     xm_then (xm_when (ts_state s \<noteq> TRANS_INPROGRESS) (xm_warn ''AbortSubTransaction while in unexpected state''))
     (xm_then (set_state TRANS_ABORT)
     (xm_when (ts_curTransactionOwner s)
        (xm_then (RecordTransactionAbort env True)
         (xm_when (TransactionIdIsValid (ts_transactionId s)) AtSubAbort_childXids)))))"

definition CleanupSubTransaction :: "unit xm" where
  "CleanupSubTransaction = with_current (\<lambda>s.
     xm_then (xm_when (ts_state s \<noteq> TRANS_ABORT) (xm_warn ''CleanupSubTransaction while in unexpected state''))
     (xm_then (set_current (\<lambda>s. s\<lparr>ts_curTransactionOwner := False, ts_state := TRANS_DEFAULT\<rparr>))
      PopTransaction))"

lemma length_on_head [simp]: "length (on_head f xs) = length xs"
  by (cases xs) simp_all

lemmas xm_defs = xm_bind_def xm_then_def xm_return_def xm_throw_def xm_update_def xm_warn_def xm_when_def with_current_def
  set_current_def set_blockState_def set_state_def on_gen_def CurrentTransactionState_def TopTransactionStateData_def

lemma length_PopTransaction: "PopTransaction se = (Inr u, se1) \<Longrightarrow> length (se_stack se1) < length (se_stack se)"
  by (cases "se_stack se") (auto simp: PopTransaction_def xm_defs split: if_splits)

lemma length_CleanupSubTransaction: "CleanupSubTransaction se = (Inr u, se1) \<Longrightarrow> length (se_stack se1) < length (se_stack se)"
  by (auto simp: CleanupSubTransaction_def xm_defs dest!: length_PopTransaction split: if_splits sum.splits prod.splits)

lemma stack_RecordTransactionAbort: "RecordTransactionAbort env b se = (r, se1) \<Longrightarrow> se_stack se1 = se_stack se"
  by (auto simp: RecordTransactionAbort_def Let_def split: if_splits option.splits prod.splits bool.splits)

lemma length_AbortSubTransaction: "AbortSubTransaction env se = (r, se1) \<Longrightarrow> length (se_stack se1) = length (se_stack se)"
  by (auto simp: AbortSubTransaction_def AtSubAbort_childXids_def xm_defs dest!: stack_RecordTransactionAbort split: if_splits sum.splits prod.splits)

lemma stack_CommandCounterIncrement: "CommandCounterIncrement se = (r, se1) \<Longrightarrow> se_stack se1 = se_stack se"
  by (auto simp: CommandCounterIncrement_def split: if_splits)

lemma length_AtSubCommit: "AtSubCommit_childXids se = (r, se1) \<Longrightarrow> length (se_stack se1) = length (se_stack se)"
  by (auto simp: AtSubCommit_childXids_def Let_def split: if_splits list.splits)

lemma length_CommitSubTransaction: "CommitSubTransaction se = (Inr u, se1) \<Longrightarrow> length (se_stack se1) < length (se_stack se)"
  by (auto simp: CommitSubTransaction_def xm_defs dest!: length_PopTransaction stack_CommandCounterIncrement length_AtSubCommit
      split: if_splits sum.splits prod.splits)

lemma length_AbortCleanup:
  assumes "xm_then (AbortSubTransaction env) CleanupSubTransaction se = (Inr u, se1)"
  shows "length (se_stack se1) < length (se_stack se)"
proof -
  obtain v se0 where 0: "AbortSubTransaction env se = (Inr v, se0)" "CleanupSubTransaction se0 = (Inr u, se1)"
    using assms by (auto simp: xm_then_def xm_bind_def split: prod.splits sum.splits)
  show ?thesis using length_AbortSubTransaction [OF 0(1)] length_CleanupSubTransaction [OF 0(2)] by simp
qed

section \<open>Savepoints\<close>

definition push_named :: "string option \<Rightarrow> unit xm" where
  "push_named name = xm_then PushTransaction (xm_when (name \<noteq> None) (set_current (\<lambda>s. s\<lparr>ts_name := name\<rparr>)))"

definition DefineSavepoint :: "string option \<Rightarrow> unit xm" where
  "DefineSavepoint name = with_current (\<lambda>s.
     if ts_blockState s \<in> {TBLOCK_INPROGRESS, TBLOCK_SUBINPROGRESS} then push_named name
     else xm_throw (XFatal ''DefineSavepoint: unexpected state''))"

text \<open>The search for a savepoint by name, from the current state outwards: the states inside of it, it, and those outside.\<close>

fun find_savepoint :: "string \<Rightarrow> TransactionStateData list
    \<Rightarrow> (TransactionStateData list \<times> TransactionStateData \<times> TransactionStateData list) option" where
  "find_savepoint name [] = None"
| "find_savepoint name (s # parents) =
     (if ts_name s = Some name then Some ([], s, parents)
      else map_option (\<lambda>(inner, target, outer). (s # inner, target, outer)) (find_savepoint name parents))"

definition ReleaseSavepoint :: "string \<Rightarrow> unit xm" where
  "ReleaseSavepoint name = with_current (\<lambda>s.
     if ts_blockState s = TBLOCK_INPROGRESS then xm_throw (XError (Ereport ERRCODE_S_E_INVALID_SPECIFICATION))
     else if ts_blockState s \<noteq> TBLOCK_SUBINPROGRESS then xm_throw (XFatal ''ReleaseSavepoint: unexpected state'')
     else (\<lambda>se. case find_savepoint name (se_stack se) of
             None \<Rightarrow> (Inl (XError (Ereport ERRCODE_S_E_INVALID_SPECIFICATION)), se)
           | Some (inner, target, outer) \<Rightarrow>
               if ts_savepointLevel target \<noteq> ts_savepointLevel s
               then (Inl (XError (Ereport ERRCODE_S_E_INVALID_SPECIFICATION)), se)
               else (Inr (), se\<lparr>se_stack := map (\<lambda>s. s\<lparr>ts_blockState := TBLOCK_SUBEND\<rparr>) (inner @ [target]) @ outer\<rparr>)))"

text \<open>
  Marking the states from the current one outwards; \<open>f\<close> gives the new block state, or None for a
  state that is not expected, after which the states further out are not reached.
\<close>

fun mark_states :: "(TBlockState \<Rightarrow> TBlockState option) \<Rightarrow> TransactionStateData list \<Rightarrow> bool \<times> TransactionStateData list" where
  "mark_states f [] = (True, [])"
| "mark_states f (s # parents) =
     (case f (ts_blockState s) of
        None \<Rightarrow> (False, s # parents)
      | Some b \<Rightarrow> (case mark_states f parents of (ok, ps) \<Rightarrow> (ok, s\<lparr>ts_blockState := b\<rparr> # ps)))"

definition sub_abort_mark :: "TBlockState \<Rightarrow> TBlockState option" where
  "sub_abort_mark b = (if b = TBLOCK_SUBINPROGRESS then Some TBLOCK_SUBABORT_PENDING
     else if b = TBLOCK_SUBABORT then Some TBLOCK_SUBABORT_END else None)"

definition sub_restart_mark :: "TBlockState \<Rightarrow> TBlockState option" where
  "sub_restart_mark b = (if b = TBLOCK_SUBINPROGRESS then Some TBLOCK_SUBRESTART
     else if b = TBLOCK_SUBABORT then Some TBLOCK_SUBABORT_RESTART else None)"

definition RollbackToSavepoint :: "string \<Rightarrow> unit xm" where
  "RollbackToSavepoint name = with_current (\<lambda>s.
     if ts_blockState s \<in> {TBLOCK_INPROGRESS, TBLOCK_ABORT} then xm_throw (XError (Ereport ERRCODE_S_E_INVALID_SPECIFICATION))
     else if ts_blockState s \<notin> {TBLOCK_SUBINPROGRESS, TBLOCK_SUBABORT} then xm_throw (XFatal ''RollbackToSavepoint: unexpected state'')
     else (\<lambda>se. case find_savepoint name (se_stack se) of
             None \<Rightarrow> (Inl (XError (Ereport ERRCODE_S_E_INVALID_SPECIFICATION)), se)
           | Some (inner, target, outer) \<Rightarrow>
               if ts_savepointLevel target \<noteq> ts_savepointLevel s
               then (Inl (XError (Ereport ERRCODE_S_E_INVALID_SPECIFICATION)), se)
               else case mark_states sub_abort_mark inner of
                      (False, inner1) \<Rightarrow> (Inl (XFatal ''RollbackToSavepoint: unexpected state''), se\<lparr>se_stack := inner1 @ target # outer\<rparr>)
                    | (True, inner1) \<Rightarrow>
                        (case sub_restart_mark (ts_blockState target) of
                           None \<Rightarrow> (Inl (XFatal ''RollbackToSavepoint: unexpected state''), se\<lparr>se_stack := inner1 @ target # outer\<rparr>)
                         | Some b \<Rightarrow> (Inr (), se\<lparr>se_stack := inner1 @ target\<lparr>ts_blockState := b\<rparr> # outer\<rparr>))))"

section \<open>Transaction blocks\<close>

definition BeginTransactionBlock :: "unit xm" where
  "BeginTransactionBlock = with_current (\<lambda>s.
     if ts_blockState s = TBLOCK_STARTED then set_blockState TBLOCK_BEGIN
     else if ts_blockState s \<in> {TBLOCK_INPROGRESS, TBLOCK_SUBINPROGRESS, TBLOCK_ABORT, TBLOCK_SUBABORT}
     then xm_warn ''there is already a transaction in progress''
     else xm_throw (XFatal ''BeginTransactionBlock: unexpected state''))"

text \<open>Marking all subtransactions and then the top-level transaction.\<close>

definition mark_block :: "string \<Rightarrow> (TBlockState \<Rightarrow> TBlockState option) \<Rightarrow> (TBlockState \<Rightarrow> TBlockState option) \<Rightarrow> unit xm" where
  "mark_block fatal sub top_mark = (\<lambda>se.
     case mark_states sub (butlast (se_stack se)) of
       (False, subs) \<Rightarrow> (Inl (XFatal fatal), se\<lparr>se_stack := subs @ [last (se_stack se)]\<rparr>)
     | (True, subs) \<Rightarrow>
         (case mark_states top_mark [last (se_stack se)] of
            (False, t) \<Rightarrow> (Inl (XFatal fatal), se\<lparr>se_stack := subs @ t\<rparr>)
          | (True, t) \<Rightarrow> (Inr (), se\<lparr>se_stack := subs @ t\<rparr>)))"

definition sub_end_mark :: "TBlockState \<Rightarrow> TBlockState option" where
  "sub_end_mark b = (if b = TBLOCK_SUBINPROGRESS then Some TBLOCK_SUBEND else None)"

definition top_end_mark :: "TBlockState \<Rightarrow> TBlockState option" where
  "top_end_mark b = (if b = TBLOCK_INPROGRESS then Some TBLOCK_END else None)"

definition top_abort_mark :: "TBlockState \<Rightarrow> TBlockState option" where
  "top_abort_mark b = (if b = TBLOCK_INPROGRESS then Some TBLOCK_ABORT_PENDING
     else if b = TBLOCK_ABORT then Some TBLOCK_ABORT_END else None)"

definition EndTransactionBlock :: "bool xm" where
  "EndTransactionBlock = with_current (\<lambda>s. case ts_blockState s of
       TBLOCK_INPROGRESS \<Rightarrow> xm_then (set_blockState TBLOCK_END) (xm_return True)
     | TBLOCK_ABORT \<Rightarrow> xm_then (set_blockState TBLOCK_ABORT_END) (xm_return False)
     | TBLOCK_SUBINPROGRESS \<Rightarrow> xm_then (mark_block ''EndTransactionBlock: unexpected state'' sub_end_mark top_end_mark) (xm_return True)
     | TBLOCK_SUBABORT \<Rightarrow> xm_then (mark_block ''EndTransactionBlock: unexpected state'' sub_abort_mark top_abort_mark) (xm_return False)
     | TBLOCK_STARTED \<Rightarrow> xm_then (xm_warn ''there is no transaction in progress'') (xm_return True)
     | _ \<Rightarrow> xm_throw (XFatal ''EndTransactionBlock: unexpected state''))"

definition PrepareTransactionBlock :: "string \<Rightarrow> bool xm" where
  "PrepareTransactionBlock gid = xm_bind EndTransactionBlock (\<lambda>result.
     if result
     then (\<lambda>se. if ts_blockState (TopTransactionStateData se) = TBLOCK_END
                then (Inr True, se\<lparr>prepareGID := Some gid,
                        se_stack := butlast (se_stack se) @ [(TopTransactionStateData se)\<lparr>ts_blockState := TBLOCK_PREPARE\<rparr>]\<rparr>)
                else (Inr False, se))
     else xm_return False)"

definition UserAbortTransactionBlock :: "unit xm" where
  "UserAbortTransactionBlock = with_current (\<lambda>s. case ts_blockState s of
       TBLOCK_INPROGRESS \<Rightarrow> set_blockState TBLOCK_ABORT_PENDING
     | TBLOCK_ABORT \<Rightarrow> set_blockState TBLOCK_ABORT_END
     | TBLOCK_SUBINPROGRESS \<Rightarrow> mark_block ''UserAbortTransactionBlock: unexpected state'' sub_abort_mark top_abort_mark
     | TBLOCK_SUBABORT \<Rightarrow> mark_block ''UserAbortTransactionBlock: unexpected state'' sub_abort_mark top_abort_mark
     | TBLOCK_STARTED \<Rightarrow> xm_then (xm_warn ''there is no transaction in progress'') (set_blockState TBLOCK_ABORT_PENDING)
     | _ \<Rightarrow> xm_throw (XFatal ''UserAbortTransactionBlock: unexpected state''))"

section \<open>Starting and ending a command\<close>

definition StartTransactionCommand :: "SessionEnv \<Rightarrow> unit xm" where
  "StartTransactionCommand env = with_current (\<lambda>s.
     if ts_blockState s = TBLOCK_DEFAULT then xm_then (StartTransaction env) (set_blockState TBLOCK_STARTED)
     else if ts_blockState s \<in> {TBLOCK_INPROGRESS, TBLOCK_SUBINPROGRESS, TBLOCK_ABORT, TBLOCK_SUBABORT} then xm_return ()
     else xm_throw (XError (Elog ''StartTransactionCommand: unexpected state'')))"

text \<open>The loop over subtransactions to be committed.\<close>

function commit_subxacts :: "unit xm" where
  "commit_subxacts se = (case CommitSubTransaction se of
     (Inl e, se1) \<Rightarrow> (Inl e, se1)
   | (Inr _, se1) \<Rightarrow> if ts_blockState (CurrentTransactionState se1) = TBLOCK_SUBEND then commit_subxacts se1 else (Inr (), se1))"
  by pat_completeness auto
termination by (relation "measure (\<lambda>se. length (se_stack se))") (auto simp: length_CommitSubTransaction)

text \<open>Starting a savepoint over after the subtransaction has been popped.\<close>

definition restart_savepoint :: "string option \<Rightarrow> int \<Rightarrow> unit xm" where
  "restart_savepoint name level =
     xm_then (DefineSavepoint None)
     (xm_then (set_current (\<lambda>s. s\<lparr>ts_name := name, ts_savepointLevel := level\<rparr>))
     (xm_then StartSubTransaction
      (set_blockState TBLOCK_SUBINPROGRESS)))"

definition to_default :: "unit xm \<Rightarrow> unit xm" where
  "to_default A = xm_then A (set_blockState TBLOCK_DEFAULT)"

function CommitTransactionCommand :: "SessionEnv \<Rightarrow> unit xm" where
  "CommitTransactionCommand env se =
     (let s = CurrentTransactionState se in case ts_blockState s of
        TBLOCK_DEFAULT \<Rightarrow> xm_throw (XFatal ''CommitTransactionCommand: unexpected state'') se
      | TBLOCK_STARTED \<Rightarrow> to_default (CommitTransaction env) se
      | TBLOCK_BEGIN \<Rightarrow> set_blockState TBLOCK_INPROGRESS se
      | TBLOCK_INPROGRESS \<Rightarrow> CommandCounterIncrement se
      | TBLOCK_SUBINPROGRESS \<Rightarrow> CommandCounterIncrement se
      | TBLOCK_END \<Rightarrow> to_default (CommitTransaction env) se
      | TBLOCK_ABORT \<Rightarrow> xm_return () se
      | TBLOCK_SUBABORT \<Rightarrow> xm_return () se
      | TBLOCK_ABORT_END \<Rightarrow> to_default CleanupTransaction se
      | TBLOCK_ABORT_PENDING \<Rightarrow> to_default (xm_then (AbortTransaction env) CleanupTransaction) se
      | TBLOCK_PREPARE \<Rightarrow> to_default (PrepareTransaction env) se
      | TBLOCK_SUBBEGIN \<Rightarrow> xm_then StartSubTransaction (set_blockState TBLOCK_SUBINPROGRESS) se
      | TBLOCK_SUBEND \<Rightarrow>
          xm_then commit_subxacts (with_current (\<lambda>s.
            if ts_blockState s = TBLOCK_END then to_default (CommitTransaction env)
            else if ts_blockState s = TBLOCK_PREPARE then to_default (PrepareTransaction env)
            else xm_return ())) se
      | TBLOCK_SUBABORT_END \<Rightarrow>
          (case CleanupSubTransaction se of (Inl e, se1) \<Rightarrow> (Inl e, se1) | (Inr _, se1) \<Rightarrow> CommitTransactionCommand env se1)
      | TBLOCK_SUBABORT_PENDING \<Rightarrow>
          (case xm_then (AbortSubTransaction env) CleanupSubTransaction se of
             (Inl e, se1) \<Rightarrow> (Inl e, se1) | (Inr _, se1) \<Rightarrow> CommitTransactionCommand env se1)
      | TBLOCK_SUBRESTART \<Rightarrow>
          xm_then (set_current (\<lambda>s. s\<lparr>ts_name := None\<rparr>))
          (xm_then (AbortSubTransaction env)
          (xm_then CleanupSubTransaction (restart_savepoint (ts_name s) (ts_savepointLevel s)))) se
      | TBLOCK_SUBABORT_RESTART \<Rightarrow>
          xm_then (set_current (\<lambda>s. s\<lparr>ts_name := None\<rparr>))
          (xm_then CleanupSubTransaction (restart_savepoint (ts_name s) (ts_savepointLevel s))) se)"
  by pat_completeness auto
termination by (relation "measure (\<lambda>(env, se). length (se_stack se))") (auto simp: length_CleanupSubTransaction length_AbortCleanup)

function AbortCurrentTransaction :: "SessionEnv \<Rightarrow> unit xm" where
  "AbortCurrentTransaction env se =
     (let s = CurrentTransactionState se; abort_cleanup = xm_then (AbortTransaction env) CleanupTransaction in
      if ts_blockState s = TBLOCK_DEFAULT
      then if ts_state s = TRANS_DEFAULT then xm_return () se
           else xm_then (xm_when (ts_state s = TRANS_START) (set_state TRANS_INPROGRESS)) abort_cleanup se
      else if ts_blockState s \<in> {TBLOCK_STARTED, TBLOCK_BEGIN, TBLOCK_END, TBLOCK_ABORT_PENDING, TBLOCK_PREPARE}
      then to_default abort_cleanup se
      else if ts_blockState s = TBLOCK_INPROGRESS then xm_then (AbortTransaction env) (set_blockState TBLOCK_ABORT) se
      else if ts_blockState s \<in> {TBLOCK_ABORT, TBLOCK_SUBABORT} then xm_return () se
      else if ts_blockState s = TBLOCK_ABORT_END then to_default CleanupTransaction se
      else if ts_blockState s = TBLOCK_SUBINPROGRESS then xm_then (AbortSubTransaction env) (set_blockState TBLOCK_SUBABORT) se
      else if ts_blockState s \<in> {TBLOCK_SUBBEGIN, TBLOCK_SUBEND, TBLOCK_SUBABORT_PENDING, TBLOCK_SUBRESTART}
      then case xm_then (AbortSubTransaction env) CleanupSubTransaction se of
             (Inl e, se1) \<Rightarrow> (Inl e, se1) | (Inr _, se1) \<Rightarrow> AbortCurrentTransaction env se1
      else case CleanupSubTransaction se of (Inl e, se1) \<Rightarrow> (Inl e, se1) | (Inr _, se1) \<Rightarrow> AbortCurrentTransaction env se1)"
  by pat_completeness auto
termination by (relation "measure (\<lambda>(env, se). length (se_stack se))") (auto simp: length_CleanupSubTransaction length_AbortCleanup)

function AbortOutOfAnyTransaction :: "SessionEnv \<Rightarrow> unit xm" where
  "AbortOutOfAnyTransaction env se =
     (let s = CurrentTransactionState se; abort_cleanup = xm_then (AbortTransaction env) CleanupTransaction in
      if ts_blockState s = TBLOCK_DEFAULT
      then if ts_state s = TRANS_DEFAULT then xm_return () se
           else xm_then (xm_when (ts_state s = TRANS_START) (set_state TRANS_INPROGRESS)) abort_cleanup se
      else if ts_blockState s \<in> {TBLOCK_STARTED, TBLOCK_BEGIN, TBLOCK_INPROGRESS, TBLOCK_END, TBLOCK_ABORT_PENDING, TBLOCK_PREPARE}
      then to_default abort_cleanup se
      else if ts_blockState s \<in> {TBLOCK_ABORT, TBLOCK_ABORT_END} then to_default CleanupTransaction se
      else case (if ts_blockState s \<in> {TBLOCK_SUBBEGIN, TBLOCK_SUBINPROGRESS, TBLOCK_SUBEND, TBLOCK_SUBABORT_PENDING, TBLOCK_SUBRESTART}
                 then xm_then (AbortSubTransaction env) CleanupSubTransaction se else CleanupSubTransaction se) of
             (Inl e, se1) \<Rightarrow> (Inl e, se1)
           | (Inr _, se1) \<Rightarrow> if ts_blockState (CurrentTransactionState se1) = TBLOCK_DEFAULT then (Inr (), se1)
                             else AbortOutOfAnyTransaction env se1)"
  by pat_completeness auto
termination by (relation "measure (\<lambda>(env, se). length (se_stack se))") (auto simp: length_CleanupSubTransaction length_AbortCleanup split: if_splits)

section \<open>Subtransactions of functions\<close>

definition BeginInternalSubTransaction :: "SessionEnv \<Rightarrow> string option \<Rightarrow> unit xm" where
  "BeginInternalSubTransaction env name = with_current (\<lambda>s.
     xm_then (if ts_blockState s \<in> {TBLOCK_STARTED, TBLOCK_INPROGRESS, TBLOCK_END, TBLOCK_PREPARE, TBLOCK_SUBINPROGRESS}
              then push_named name else xm_throw (XFatal ''BeginInternalSubTransaction: unexpected state''))
     (xm_then (CommitTransactionCommand env) (StartTransactionCommand env)))"

definition ReleaseCurrentSubTransaction :: "unit xm" where
  "ReleaseCurrentSubTransaction = with_current (\<lambda>s.
     if ts_blockState s \<noteq> TBLOCK_SUBINPROGRESS then xm_throw (XError (Elog ''ReleaseCurrentSubTransaction: unexpected state''))
     else CommitSubTransaction)"

definition RollbackAndReleaseCurrentSubTransaction :: "SessionEnv \<Rightarrow> unit xm" where
  "RollbackAndReleaseCurrentSubTransaction env = with_current (\<lambda>s.
     if ts_blockState s \<notin> {TBLOCK_SUBINPROGRESS, TBLOCK_SUBABORT}
     then xm_throw (XFatal ''RollbackAndReleaseCurrentSubTransaction: unexpected state'')
     else xm_then (xm_when (ts_blockState s = TBLOCK_SUBINPROGRESS) (AbortSubTransaction env)) CleanupSubTransaction)"

section \<open>Statements\<close>

text \<open>
  Transaction statements with their arguments; a \<^verbatim>\<open>BEGIN\<close> carries the error that setting one of its options raises, if any.  Any other statement may
  assign an identifier to the transaction, use the command identifier, and raise an error.
\<close>

datatype TransactionStmt =
    TRANS_STMT_BEGIN "pg_error option"
  | TRANS_STMT_START "pg_error option"
  | TRANS_STMT_COMMIT
  | TRANS_STMT_ROLLBACK
  | TRANS_STMT_SAVEPOINT string
  | TRANS_STMT_RELEASE string
  | TRANS_STMT_ROLLBACK_TO string
  | TRANS_STMT_PREPARE string
  | TRANS_STMT_COMMIT_PREPARED string
  | TRANS_STMT_ROLLBACK_PREPARED string

record Work =
  wk_tag :: string
  wk_writes :: bool
  wk_error :: "pg_error option"

datatype Stmt = TransactionStmt TransactionStmt | OtherStmt Work

fun CreateCommandTag :: "Stmt \<Rightarrow> string" where
  "CreateCommandTag (TransactionStmt stmt) = (case stmt of
       TRANS_STMT_BEGIN _ \<Rightarrow> ''BEGIN'' | TRANS_STMT_START _ \<Rightarrow> ''START TRANSACTION'' | TRANS_STMT_COMMIT \<Rightarrow> ''COMMIT''
     | TRANS_STMT_ROLLBACK \<Rightarrow> ''ROLLBACK'' | TRANS_STMT_ROLLBACK_TO _ \<Rightarrow> ''ROLLBACK'' | TRANS_STMT_SAVEPOINT _ \<Rightarrow> ''SAVEPOINT''
     | TRANS_STMT_RELEASE _ \<Rightarrow> ''RELEASE'' | TRANS_STMT_PREPARE _ \<Rightarrow> ''PREPARE TRANSACTION''
     | TRANS_STMT_COMMIT_PREPARED _ \<Rightarrow> ''COMMIT PREPARED'' | TRANS_STMT_ROLLBACK_PREPARED _ \<Rightarrow> ''ROLLBACK PREPARED'')"
| "CreateCommandTag (OtherStmt w) = wk_tag w"

fun IsTransactionExitStmt :: "Stmt \<Rightarrow> bool" where
  "IsTransactionExitStmt (TransactionStmt TRANS_STMT_COMMIT) = True"
| "IsTransactionExitStmt (TransactionStmt (TRANS_STMT_PREPARE _)) = True"
| "IsTransactionExitStmt (TransactionStmt TRANS_STMT_ROLLBACK) = True"
| "IsTransactionExitStmt (TransactionStmt (TRANS_STMT_ROLLBACK_TO _)) = True"
| "IsTransactionExitStmt _ = False"

definition PreventCommandDuringRecovery :: "SessionEnv \<Rightarrow> unit xm" where
  "PreventCommandDuringRecovery env =
     (if RecoveryInProgress (sv_mode env) then xm_throw (XError (Ereport ERRCODE_READ_ONLY_SQL_TRANSACTION)) else xm_return ())"

definition raise :: "pg_error option \<Rightarrow> unit xm" where
  "raise e = (case e of None \<Rightarrow> xm_return () | Some err \<Rightarrow> xm_throw (XError err))"

definition finish_prepared :: "SessionEnv \<Rightarrow> string \<Rightarrow> bool \<Rightarrow> unit xm" where
  "finish_prepared env gid isCommit = (\<lambda>se. case FinishPreparedTransaction env gid isCommit (se_gen se) of
     Inl e \<Rightarrow> (Inl (XError e), se) | Inr g \<Rightarrow> (Inr (), se\<lparr>se_gen := g\<rparr>))"

text \<open>The completion tag, which is the command tag unless a commit turns out to be a rollback.\<close>

definition process_transaction :: "SessionEnv \<Rightarrow> bool \<Rightarrow> TransactionStmt \<Rightarrow> string xm" where
  "process_transaction env isTopLevel stmt = (let tag = xm_return (CreateCommandTag (TransactionStmt stmt)) in case stmt of
       TRANS_STMT_BEGIN e \<Rightarrow> xm_then BeginTransactionBlock (xm_then (raise e) tag)
     | TRANS_STMT_START e \<Rightarrow> xm_then BeginTransactionBlock (xm_then (raise e) tag)
     | TRANS_STMT_COMMIT \<Rightarrow> xm_bind EndTransactionBlock (\<lambda>ok. if ok then tag else xm_return ''ROLLBACK'')
     | TRANS_STMT_PREPARE gid \<Rightarrow>
         xm_then (PreventCommandDuringRecovery env)
         (xm_bind (PrepareTransactionBlock gid) (\<lambda>ok. if ok then tag else xm_return ''ROLLBACK''))
     | TRANS_STMT_COMMIT_PREPARED gid \<Rightarrow>
         xm_then (PreventTransactionChain isTopLevel) (xm_then (PreventCommandDuringRecovery env) (xm_then (finish_prepared env gid True) tag))
     | TRANS_STMT_ROLLBACK_PREPARED gid \<Rightarrow>
         xm_then (PreventTransactionChain isTopLevel) (xm_then (PreventCommandDuringRecovery env) (xm_then (finish_prepared env gid False) tag))
     | TRANS_STMT_ROLLBACK \<Rightarrow> xm_then UserAbortTransactionBlock tag
     | TRANS_STMT_SAVEPOINT name \<Rightarrow> xm_then (RequireTransactionChain isTopLevel) (xm_then (DefineSavepoint (Some name)) tag)
     | TRANS_STMT_RELEASE name \<Rightarrow> xm_then (RequireTransactionChain isTopLevel) (xm_then (ReleaseSavepoint name) tag)
     | TRANS_STMT_ROLLBACK_TO name \<Rightarrow> xm_then (RequireTransactionChain isTopLevel) (xm_then (RollbackToSavepoint name) tag))"

definition do_work :: "SessionEnv \<Rightarrow> Work \<Rightarrow> string xm" where
  "do_work env w =
     xm_then (xm_when (wk_writes w)
       (xm_then (GetCurrentTransactionId env) (xm_update (\<lambda>se. se\<lparr>se_commandIdUsed := True\<rparr>))))
     (xm_then (raise (wk_error w)) (xm_return (wk_tag w)))"

section \<open>Query strings\<close>

definition start_xact_command :: "SessionEnv \<Rightarrow> unit xm" where
  "start_xact_command env = (\<lambda>se. xm_when (\<not> xact_started se)
     (xm_then (StartTransactionCommand env) (xm_update (\<lambda>se. se\<lparr>xact_started := True\<rparr>))) se)"

definition finish_xact_command :: "SessionEnv \<Rightarrow> unit xm" where
  "finish_xact_command env = (\<lambda>se. xm_when (xact_started se)
     (xm_then (CommitTransactionCommand env) (xm_update (\<lambda>se. se\<lparr>xact_started := False\<rparr>))) se)"

definition run_stmt :: "SessionEnv \<Rightarrow> bool \<Rightarrow> Stmt \<Rightarrow> string xm" where
  "run_stmt env isTopLevel stmt = (case stmt of TransactionStmt t \<Rightarrow> process_transaction env isTopLevel t | OtherStmt w \<Rightarrow> do_work env w)"

text \<open>One round of the loop over the statements of a query string.\<close>

definition exec_stmt :: "SessionEnv \<Rightarrow> bool \<Rightarrow> bool \<Rightarrow> Stmt \<Rightarrow> unit xm" where
  "exec_stmt env isTopLevel is_last stmt = (\<lambda>se.
     if IsAbortedTransactionBlockState se \<and> \<not> IsTransactionExitStmt stmt
     then xm_throw (XError (Ereport ERRCODE_IN_FAILED_SQL_TRANSACTION)) se
     else xm_then (start_xact_command env)
          (xm_bind (run_stmt env isTopLevel stmt) (\<lambda>completionTag.
           xm_then (if (case stmt of TransactionStmt _ \<Rightarrow> True | OtherStmt _ \<Rightarrow> is_last) then finish_xact_command env
                    else CommandCounterIncrement)
           (xm_update (\<lambda>se. se\<lparr>se_tags := se_tags se @ [completionTag]\<rparr>)))) se)"

fun exec_stmts :: "SessionEnv \<Rightarrow> bool \<Rightarrow> Stmt list \<Rightarrow> unit xm" where
  "exec_stmts env isTopLevel [] = xm_return ()"
| "exec_stmts env isTopLevel (stmt # stmts) = xm_then (exec_stmt env isTopLevel (stmts = []) stmt) (exec_stmts env isTopLevel stmts)"

text \<open>The result of the parser is the error it raises or the list of statements.\<close>

definition exec_simple_query :: "SessionEnv \<Rightarrow> pg_error + Stmt list \<Rightarrow> unit xm" where
  "exec_simple_query env parsed =
     xm_then (start_xact_command env)
     (xm_then (case parsed of Inl e \<Rightarrow> xm_throw (XError e) | Inr stmts \<Rightarrow> exec_stmts env (length stmts = 1) stmts)
      (finish_xact_command env))"

text \<open>
  A query message in the main loop: after an error the current transaction is aborted and the backend waits for the next
  message; a fatal error ends the process, which aborts its transaction on the way out.
\<close>

datatype QueryOutcome = Completed | Failed pg_error | Terminated string | Crashed xact_error

definition handle_query :: "SessionEnv \<Rightarrow> pg_error + Stmt list \<Rightarrow> Session \<Rightarrow> QueryOutcome \<times> Session" where
  "handle_query env parsed se = (case exec_simple_query env parsed se of
     (Inr _, se1) \<Rightarrow> (Completed, se1)
   | (Inl (XError e), se1) \<Rightarrow>
       (case AbortCurrentTransaction env se1 of (Inr _, se2) \<Rightarrow> (Failed e, se2\<lparr>xact_started := False\<rparr>) | (Inl x, se2) \<Rightarrow> (Crashed x, se2))
   | (Inl (XFatal msg), se1) \<Rightarrow>
       (case AbortOutOfAnyTransaction env se1 of (Inr _, se2) \<Rightarrow> (Terminated msg, se2) | (Inl x, se2) \<Rightarrow> (Crashed x, se2))
   | (Inl x, se1) \<Rightarrow> (Crashed x, se1))"

end
