(* ===== verification/Xact_Entries.thy ===== *)
theory Xact_Entries
  imports Xact_Block Snapshots
begin

text \<open>
  The stack of transaction states of a backend (theory Xact_Block) belongs to a process of the running server (theory Visibility).  The
  relation \<open>sess\<close> says that the stack and the server agree on the transactions of the process; it is kept by new identifiers, by the end
  of transactions and subtransactions, and by the steps of other processes.
\<close>

section \<open>The stack and the transactions of a process\<close>

text \<open>What counts of a state is its identifier and those of its committed children.\<close>

type_synonym entry = "TransactionId \<times> TransactionId list"

definition entry :: "TransactionStateData \<Rightarrow> entry" where
  "entry s = (ts_transactionId s, ts_childXids s)"

definition alive :: "TransactionStateData \<Rightarrow> bool" where
  "alive s \<longleftrightarrow> ts_state s \<noteq> TRANS_ABORT"

definition entries :: "TransactionStateData list \<Rightarrow> entry list" where
  "entries st = map entry (filter alive st)"

fun entry_xids :: "entry \<Rightarrow> TransactionId list" where
  "entry_xids (x, cs) = (if TransactionIdIsValid x then x # cs else [])"

text \<open>The identifiers of a stack, from the outermost inwards.\<close>

definition stack_xids :: "entry list \<Rightarrow> TransactionId list" where
  "stack_xids K = concat (map entry_xids (rev K))"

fun linked :: "(TransactionId \<Rightarrow> TransactionId) \<Rightarrow> entry list \<Rightarrow> bool" where
  "linked par [] \<longleftrightarrow> True"
| "linked par ((x, cs) # K) \<longleftrightarrow> linked par K
     \<and> (if TransactionIdIsValid x
        then (\<forall>y \<in> set cs. par y \<in> insert x (set cs)) \<and> (K \<noteq> [] \<longrightarrow> TransactionIdIsValid (fst (hd K)) \<and> par x = fst (hd K))
        else cs = [])"

definition sess :: "TransactionId \<Rightarrow> nat \<Rightarrow> Running \<Rightarrow> entry list \<Rightarrow> TransactionId \<Rightarrow> bool" where
  "sess base i S K cached \<longleftrightarrow>
     run_inv base S \<and> i \<in> ru_procs S
   \<and> in_window base (vc_xidStopLimit (xg_cache (ru_gen S))) \<and> in_window base (vc_xidVacLimit (xg_cache (ru_gen S)))
   \<and> set (stack_xids K) = xact_of S i
   \<and> sorted_wrt (\<lambda>x y. xid_age base x < xid_age base y) (stack_xids K)
   \<and> linked (ru_parent S) K
   \<and> (K \<noteq> [] \<longrightarrow> p_xid (ru_proc S i) = fst (last K))
   \<and> (\<forall>x \<in> xact_of S i. ru_status S x = TRANSACTION_STATUS_IN_PROGRESS)
   \<and> cached \<notin> xact_of S i \<and> (TransactionIdIsNormal cached \<longrightarrow> assigned base S cached)"

lemma sessD:
  assumes "sess base i S K c"
  shows "run_inv base S" "i \<in> ru_procs S" "set (stack_xids K) = xact_of S i"
    "sorted_wrt (\<lambda>x y. xid_age base x < xid_age base y) (stack_xids K)" "linked (ru_parent S) K"
    "K \<noteq> [] \<Longrightarrow> p_xid (ru_proc S i) = fst (last K)" "\<And>x. x \<in> xact_of S i \<Longrightarrow> ru_status S x = TRANSACTION_STATUS_IN_PROGRESS"
    "c \<notin> xact_of S i" "TransactionIdIsNormal c \<Longrightarrow> assigned base S c"
    "in_window base (vc_xidStopLimit (xg_cache (ru_gen S)))" "in_window base (vc_xidVacLimit (xg_cache (ru_gen S)))"
  using assms unfolding sess_def by blast+

lemma entry_xids_cases [simp]:
  "TransactionIdIsValid x \<Longrightarrow> entry_xids (x, cs) = x # cs" "\<not> TransactionIdIsValid x \<Longrightarrow> entry_xids (x, cs) = []"
  by simp_all

declare entry_xids.simps [simp del]

lemma stack_xids_simps [simp]:
  "stack_xids [] = []" "stack_xids (k # K) = stack_xids K @ entry_xids k"
  by (simp_all add: stack_xids_def)

lemma own_xids_entries: "own_xids st = set (stack_xids (entries st))"
  by (auto simp: own_xids_def stack_xids_def entries_def entry_def alive_def entry_xids.simps split: if_splits)

lemma linked_no_top: "linked par K \<Longrightarrow> K \<noteq> [] \<Longrightarrow> \<not> TransactionIdIsValid (fst (last K)) \<Longrightarrow> stack_xids K = []"
proof (induction K)
  case (Cons k K)
  obtain x cs where k: "k = (x, cs)" by (cases k)
  show ?case
  proof (cases "K = []")
    case False
    then have "stack_xids K = []" using Cons by (simp add: k)
    moreover have "\<not> TransactionIdIsValid (fst (hd K))"
    proof -
      obtain y ds K' where "K = (y, ds) # K'" using False by (cases K) auto
      then show ?thesis using calculation by (auto split: if_splits)
    qed
    ultimately show ?thesis using Cons.prems(1) False by (auto simp: k split: if_splits)
  qed (use Cons.prems in \<open>simp add: k\<close>)
qed simp

lemma linked_cong: "(\<And>x. x \<in> set (stack_xids K) \<Longrightarrow> par' x = par x) \<Longrightarrow> linked par K \<Longrightarrow> linked par' K"
  by (induction K) (auto split: if_splits)

text \<open>The empty stack and the stack of an idle session.\<close>

lemma sess_idle: "sess base i S [] c \<longleftrightarrow> sess base i S [(InvalidTransactionId, [])] c"
proof -
  have "p_xid (ru_proc S i) = InvalidTransactionId" if "xact_of S i = {}"
    using that by (auto simp: xact_of_def valid_not_0 InvalidTransactionId_def split: if_splits)
  then show ?thesis by (auto simp: sess_def valid_not_0 InvalidTransactionId_def)
qed

lemma sess_push: "sess base i S K c \<Longrightarrow> K \<noteq> [] \<Longrightarrow> sess base i S ((InvalidTransactionId, []) # K) c"
  by (auto simp: sess_def valid_not_0 InvalidTransactionId_def)

lemma sess_pop: "sess base i S ((x, cs) # K) c \<Longrightarrow> K \<noteq> [] \<Longrightarrow> \<not> TransactionIdIsValid x \<Longrightarrow> sess base i S K c"
  by (auto simp: sess_def)

lemma sess_subcommit:
  assumes "sess base i S ((x, cs) # (y, ds) # K) c" "TransactionIdIsValid x"
  shows "sess base i S ((y, ds @ x # cs) # K) c"
proof -
  have l: "linked (ru_parent S) ((x, cs) # (y, ds) # K)" by (rule sessD(5) [OF assms(1)])
  then have y: "TransactionIdIsValid y" using assms(2) by simp
  have "linked (ru_parent S) ((y, ds @ x # cs) # K)" using l assms(2) y by auto
  moreover have "stack_xids ((x, cs) # (y, ds) # K) = stack_xids ((y, ds @ x # cs) # K)" using assms(2) y by simp
  moreover have "fst (last ((x, cs) # (y, ds) # K)) = fst (last ((y, ds @ x # cs) # K))" by simp
  ultimately show ?thesis using assms(1) unfolding sess_def by (metis list.distinct(1))
qed

section \<open>Steps of the server\<close>

text \<open>The transactions of a process end up running, or aborted.\<close>

definition aborts_only :: "TransactionId \<Rightarrow> nat \<Rightarrow> Running \<Rightarrow> Running \<Rightarrow> bool" where
  "aborts_only base i S S' \<longleftrightarrow> (run_step base)\<^sup>*\<^sup>* S S' \<and> xact_of S i \<subseteq> xact_of S' i \<union> ru_aborted S'"

lemma aborts_only_refl [simp]: "aborts_only base i S S"
  by (simp add: aborts_only_def)

lemma aborts_only_trans:
  assumes "aborts_only base i S S1" "aborts_only base i S1 S2" "run_inv base S1"
  shows "aborts_only base i S S2"
proof -
  have "ru_aborted S1 \<subseteq> ru_aborted S2"
    using run_steps_later [of base S1 S2] assms(2,3) by (simp add: aborts_only_def later_def)
  moreover have "(run_step base)\<^sup>*\<^sup>* S S2" using assms(1,2) rtranclp_trans [of "run_step base" S S1 S2] by (simp add: aborts_only_def)
  ultimately show ?thesis using assms(1,2) unfolding aborts_only_def by blast
qed

lemma run_step_limits:
  assumes "run_step base S S'"
  shows "vc_xidStopLimit (xg_cache (ru_gen S')) = vc_xidStopLimit (xg_cache (ru_gen S))
    \<and> vc_xidVacLimit (xg_cache (ru_gen S')) = vc_xidVacLimit (xg_cache (ru_gen S))"
  using assms
  by (cases rule: run_step.cases)
    (auto simp: ProcArrayRemove_def assign_xid_def ProcArrayEndTransaction_def XidCacheRemoveRunningXids_def advance_latestCompletedXid_def Let_def
      dest: GetSnapshotData_frame(1) split: if_splits)

lemma run_steps_limits:
  assumes "(run_step base)\<^sup>*\<^sup>* S S'"
  shows "vc_xidStopLimit (xg_cache (ru_gen S')) = vc_xidStopLimit (xg_cache (ru_gen S))
    \<and> vc_xidVacLimit (xg_cache (ru_gen S')) = vc_xidVacLimit (xg_cache (ru_gen S))"
  using assms by induction (auto dest: run_step_limits)

text \<open>Steps of other processes.\<close>

definition others_run :: "TransactionId \<Rightarrow> nat \<Rightarrow> Running \<Rightarrow> Running \<Rightarrow> bool" where
  "others_run base i S S' \<longleftrightarrow> (run_step base)\<^sup>*\<^sup>* S S' \<and> i \<in> ru_procs S'
     \<and> p_xid (ru_proc S' i) = p_xid (ru_proc S i) \<and> ru_live S' i = ru_live S i
     \<and> (\<forall>x \<in> xact_of S i. ru_status S' x = ru_status S x)"

lemma others_xact: "others_run base i S S' \<Longrightarrow> xact_of S' i = xact_of S i"
  by (simp add: others_run_def xact_of_def)

lemma others_aborts_only: "others_run base i S S' \<Longrightarrow> aborts_only base i S S'"
  using others_xact [of base i S S'] by (simp add: aborts_only_def others_run_def)

lemma sess_xact_assigned: "sess base i S K c \<Longrightarrow> x \<in> xact_of S i \<Longrightarrow> assigned base S x"
  using run_inv_procs [of base S i] xact_of_facts(1) [of base S i x] by (simp add: sess_def)

lemma sess_others:
  assumes "others_run base i S S'" "sess base i S K c"
  shows "sess base i S' K c"
proof -
  have l: "later base S S'" using assms run_steps_later by (auto simp: others_run_def sess_def)
  have x: "xact_of S' i = xact_of S i" by (rule others_xact [OF assms(1)])
  have "linked (ru_parent S') K"
  proof (rule linked_cong)
    show "linked (ru_parent S) K" using assms(2) by (simp add: sess_def)
    show "ru_parent S' y = ru_parent S y" if "y \<in> set (stack_xids K)" for y
      using that l sess_xact_assigned [OF assms(2)] assms(2) by (simp add: sess_def later_def)
  qed
  moreover have "run_inv base S'" "TransactionIdIsNormal c \<longrightarrow> assigned base S' c" using l assms(2) by (auto simp: sess_def later_def)
  ultimately show ?thesis
    using assms run_steps_limits [of base S S'] unfolding sess_def x others_run_def by auto
qed

lemma sess_same:
  assumes "sess base i S K c" "run_step base S S'"
    and "i \<in> ru_procs S'" "p_xid (ru_proc S' i) = p_xid (ru_proc S i)" "ru_live S' i = ru_live S i"
    and "\<And>x. ru_status S' x = ru_status S x"
  shows "sess base i S' K c \<and> aborts_only base i S S'"
proof -
  have "others_run base i S S'" using assms by (auto simp: others_run_def)
  then show ?thesis using sess_others [OF _ assms(1)] others_aborts_only by blast
qed

lemma sess_announce:
  assumes "sess base i S K c"
  obtains S' where "ru_gen S' = (ru_gen S)\<lparr>xg_procs := (xg_procs (ru_gen S))(i := (xg_procs (ru_gen S) i)\<lparr>p_lxid := lxid, p_inCommit := b\<rparr>)\<rparr>"
    "sess base i S' K c" "aborts_only base i S S'"
proof
  let ?S = "S\<lparr>ru_gen := (ru_gen S)\<lparr>xg_procs := (xg_procs (ru_gen S))(i := (ru_proc S i)\<lparr>p_lxid := lxid, p_inCommit := b\<rparr>)\<rparr>\<rparr>"
  have "run_step base S ?S" using assms by (intro run_step.announce) (simp add: sess_def)
  then show "sess base i ?S K c" "aborts_only base i S ?S"
    using sess_same [OF assms, of ?S] assms by (simp_all add: sess_def ru_procs_def ru_proc_def ru_status_def)
  show "ru_gen ?S = (ru_gen S)\<lparr>xg_procs := (xg_procs (ru_gen S))(i := (xg_procs (ru_gen S) i)\<lparr>p_lxid := lxid, p_inCommit := b\<rparr>)\<rparr>"
    by (simp add: ru_proc_def)
qed

text \<open>A new identifier.\<close>

lemma sess_newI:
  assumes "sess base i S ((x, cs) # K) c" "\<not> TransactionIdIsValid x"
    and "run_step base S S'" "i \<in> ru_procs S'" "xact_of S' i = insert (ru_next S) (xact_of S i)"
    and "p_xid (ru_proc S' i) = (if K = [] then ru_next S else p_xid (ru_proc S i))"
    and "K \<noteq> [] \<Longrightarrow> TransactionIdIsValid (fst (hd K)) \<and> ru_parent S' (ru_next S) = fst (hd K)"
    and "\<And>y. assigned base S y \<Longrightarrow> ru_status S' y = ru_status S y" "ru_status S' (ru_next S) = TRANSACTION_STATUS_IN_PROGRESS"
  shows "sess base i S' ((ru_next S, []) # K) c"
proof -
  have inv: "run_inv base S" "set (stack_xids K) = xact_of S i" "sorted_wrt (\<lambda>x y. xid_age base x < xid_age base y) (stack_xids K)"
    "linked (ru_parent S) K" "K \<noteq> [] \<Longrightarrow> p_xid (ru_proc S i) = fst (last K)" "c \<notin> xact_of S i"
    "TransactionIdIsNormal c \<longrightarrow> assigned base S c" "\<forall>x \<in> xact_of S i. ru_status S x = TRANSACTION_STATUS_IN_PROGRESS"
    "in_window base (vc_xidStopLimit (xg_cache (ru_gen S)))" "in_window base (vc_xidVacLimit (xg_cache (ru_gen S)))"
    using assms(1,2) by (simp_all add: sess_def)
  have l: "later base S S'" using run_step_later [OF assms(3) inv(1)] .
  have w: "in_window base (ru_next S)" using inv(1) by (simp add: run_inv_def logs_inv_def)
  have v: "TransactionIdIsValid (ru_next S)" using w by (rule window_valid)
  have older: "assigned base S y" if "y \<in> set (stack_xids K)" for y
    using that sess_xact_assigned [OF assms(1)] inv(2) by simp
  show ?thesis
    unfolding sess_def assms(5)
  proof (intro conjI)
    show "run_inv base S'" "TransactionIdIsNormal c \<longrightarrow> assigned base S' c" using l inv(7) by (auto simp: later_def)
    show "i \<in> ru_procs S'" by (rule assms(4))
    show "in_window base (vc_xidStopLimit (xg_cache (ru_gen S')))" "in_window base (vc_xidVacLimit (xg_cache (ru_gen S')))"
      using run_step_limits [OF assms(3)] inv(9,10) by simp_all
    show "set (stack_xids ((ru_next S, []) # K)) = insert (ru_next S) (xact_of S i)" using v inv(2) by simp
    show "sorted_wrt (\<lambda>x y. xid_age base x < xid_age base y) (stack_xids ((ru_next S, []) # K))"
      using inv(3) v older by (simp add: sorted_wrt_append assigned_def)
    have "linked (ru_parent S') K"
      by (rule linked_cong [OF _ inv(4)]) (use older l in \<open>simp add: later_def\<close>)
    then show "linked (ru_parent S') ((ru_next S, []) # K)" using assms(7) v by simp
    show "((ru_next S, []) # K \<noteq> []) \<longrightarrow> p_xid (ru_proc S' i) = fst (last ((ru_next S, []) # K))" using assms(6) inv(5) by simp
    show "\<forall>x \<in> insert (ru_next S) (xact_of S i). ru_status S' x = TRANSACTION_STATUS_IN_PROGRESS"
      using assms(8,9) inv(8) sess_xact_assigned [OF assms(1)] by simp
    show "c \<notin> insert (ru_next S) (xact_of S i)" using inv(6,7) w by (auto simp: assigned_def in_window_def)
  qed
qed

lemma sess_new:
  assumes "sess base i S ((x, cs) # K) c" "\<not> TransactionIdIsValid x"
    and "run_step base S S'" "i \<in> ru_procs S'" "xact_of S' i = insert (ru_next S) (xact_of S i)"
    and "p_xid (ru_proc S' i) = (if K = [] then ru_next S else p_xid (ru_proc S i))"
    and "K \<noteq> [] \<Longrightarrow> TransactionIdIsValid (fst (hd K)) \<and> ru_parent S' (ru_next S) = fst (hd K)"
    and "\<And>y. assigned base S y \<Longrightarrow> ru_status S' y = ru_status S y" "ru_status S' (ru_next S) = TRANSACTION_STATUS_IN_PROGRESS"
  shows "sess base i S' ((ru_next S, []) # K) c \<and> aborts_only base i S S'"
  using sess_newI [OF assms] assms(3,5) by (auto simp: aborts_only_def)

lemma sess_assign_top:
  assumes "sess base i S [(x, cs)] c" "\<not> TransactionIdIsValid x"
    and "assign_xid False i (ru_gen S) = (xid, g)" "in_window base (vc_nextXid (xg_cache g))"
  shows "\<exists>S'. ru_gen S' = g \<and> sess base i S' [(xid, [])] c \<and> aborts_only base i S S'"
proof -
  have inv: "run_inv base S" "i \<in> ru_procs S" "p_xid (ru_proc S i) = x" using sessD(1,2) [OF assms(1)] sessD(6) [OF assms(1)] by auto
  let ?S = "S\<lparr>ru_gen := g\<rparr>" and ?n = "ru_next S"
  have top: "\<not> TransactionIdIsValid (p_xid (ru_proc S i))" using inv assms(2) by simp
  have ready: "logs_ready (ru_gen S)" "in_window base ?n" using inv by (simp_all add: run_inv_def logs_inv_def)
  have g: "xid = ?n" "xg_cache g = (xg_cache (ru_gen S))\<lparr>vc_nextXid := TransactionIdAdvance ?n\<rparr>"
    "xg_procs g = (xg_procs (ru_gen S))(i := (ru_proc S i)\<lparr>p_xid := ?n\<rparr>)"
    using assms(3) by (auto simp: assign_xid_def Let_def ru_next_def ru_proc_def advertise_xid_def)
  have "run_step base S ?S" using run_step.assign_top [OF _ top assms(3,4)] inv by simp
  moreover have "ru_live S i = {}" using top run_inv_procs [of base S i] inv by (simp add: proc_inv_def)
  moreover have "ru_status ?S y = ru_status S y" if "assigned base S y" for y
    using assign_logs [OF ready(1) _ assms(3), of base y] that ready(2) by (simp add: assigned_def ru_next_def ru_status_def)
  ultimately have "sess base i ?S [(?n, [])] c \<and> aborts_only base i S ?S"
    using sess_new [OF assms(1,2), of ?S] inv top window_valid [OF ready(2)] assign_xid_fresh [OF ready(1) assms(3)]
    by (simp add: ru_procs_def ru_next_def ru_proc_def ru_status_def xact_of_def g)
  then show ?thesis using g(1) by (intro exI [of _ ?S]) simp
qed

lemma sess_assign_sub:
  assumes "sess base i S ((x, cs) # K) c" "\<not> TransactionIdIsValid x" "K \<noteq> []" "TransactionIdIsValid (fst (hd K))"
    and "assign_xid True i (ru_gen S) = (xid, g)" "in_window base (vc_nextXid (xg_cache g))"
  shows "\<exists>S'. ru_gen S' = g\<lparr>xg_sub := SubTransSetParent xid (fst (hd K)) (xg_sub g)\<rparr>
    \<and> sess base i S' ((xid, []) # K) c \<and> aborts_only base i S S'"
proof -
  have inv: "run_inv base S" "i \<in> ru_procs S" "set (stack_xids ((x, cs) # K)) = xact_of S i" by (rule sessD [OF assms(1)])+
  let ?n = "ru_next S" and ?p = "fst (hd K)"
  let ?S = "S\<lparr>ru_gen := g\<lparr>xg_sub := SubTransSetParent xid ?p (xg_sub g)\<rparr>, ru_live := (ru_live S)(i := insert xid (ru_live S i))\<rparr>"
  have p: "?p \<in> xact_of S i"
  proof -
    obtain y ds K' where K: "K = (y, ds) # K'" using assms(3) by (metis list.exhaust surj_pair)
    then have "?p \<in> set (stack_xids ((x, cs) # K))" using assms(4) by simp
    then show ?thesis unfolding inv(3) .
  qed
  have ready: "logs_ready (ru_gen S)" "in_window base ?n" using inv by (simp_all add: run_inv_def logs_inv_def)
  have g: "xid = ?n" "xg_cache g = (xg_cache (ru_gen S))\<lparr>vc_nextXid := TransactionIdAdvance ?n\<rparr>"
    "xg_procs g = (xg_procs (ru_gen S))(i := advertise_xid True ?n (ru_proc S i))"
    using assms(5) by (auto simp: assign_xid_def Let_def ru_next_def ru_proc_def)
  have px: "p_xid (ru_proc ?S i) = p_xid (ru_proc S i)" by (simp add: ru_proc_def g advertise_xid_def Let_def)
  have "run_step base S ?S" using run_step.assign_sub [OF _ p assms(5,6)] inv by simp
  moreover have "xact_of ?S i = insert ?n (xact_of S i)" using xact_of_valid [OF p] px by (auto simp: xact_of_def g(1))
  moreover have "ru_status ?S y = ru_status S y" if "assigned base S y" for y
    using assign_logs [OF ready(1) _ assms(5), of base y] that ready(2) by (simp add: assigned_def ru_next_def ru_status_def)
  moreover have "ru_parent ?S ?n = ?p"
    using assign_xid_fresh [OF ready(1) assms(5)] SetParent_parent [of "xg_sub g" xid ?p xid] ready(2)
    by (simp add: g(1) ru_parent_def in_window_def logs_ready_def Let_def)
  ultimately have "sess base i ?S ((?n, []) # K) c \<and> aborts_only base i S ?S"
    using sess_new [OF assms(1,2), of ?S] inv assms(3,4) px assign_xid_fresh [OF ready(1) assms(5)]
    by (simp add: ru_procs_def ru_next_def ru_status_def g(1,2))
  then show ?thesis using g(1) by (intro exI [of _ ?S]) simp
qed

text \<open>The end of transactions.\<close>

lemma report_abort:
  assumes "clog_wf clog" "TransactionIdIsValid x"
  shows "clog_wf (TransactionIdAbortTree rec x (length cs) ((!) cs) clog)
    \<and> clog_status (TransactionIdAbortTree rec x (length cs) ((!) cs) clog)
      = (\<lambda>y. if y \<in> insert x (set cs) then TRANSACTION_STATUS_ABORTED else clog_status clog y)"
proof -
  have "(!) cs ` {..<length cs} = set cs" by (auto simp: set_conv_nth)
  then show ?thesis
    using SetTreeStatus_status [OF assms, of TRANSACTION_STATUS_ABORTED rec "length cs" "(!) cs" InvalidXLogRecPtr]
    by (simp add: TransactionIdAbortTree_def)
qed

lemma report_commit:
  assumes "clog_wf clog" "TransactionIdIsValid x"
    and "clog' = TransactionIdCommitTree rec x (length cs) ((!) cs) clog \<or> clog' = TransactionIdAsyncCommitTree rec x (length cs) ((!) cs) lsn clog"
  shows "clog_wf clog' \<and> clog_status clog' = (\<lambda>y. if y \<in> insert x (set cs) then TRANSACTION_STATUS_COMMITTED else clog_status clog y)"
proof -
  have "(!) cs ` {..<length cs} = set cs" by (auto simp: set_conv_nth)
  then show ?thesis
    using SetTreeStatus_status [OF assms(1,2), of TRANSACTION_STATUS_COMMITTED rec "length cs" "(!) cs"] assms(3)
    by (auto simp: TransactionIdCommitTree_def TransactionIdAsyncCommitTree_def)
qed

lemma sess_clog_wf: "sess base i S K c \<Longrightarrow> clog_wf (xg_clog (ru_gen S))"
  using sessD(1) by (fastforce simp: run_inv_def logs_inv_def logs_ready_def Let_def)

lemma sess_top:
  assumes "sess base i S [(x, cs)] c" "TransactionIdIsValid x"
  shows "p_xid (ru_proc S i) = x" "xact_of S i = insert x (set cs)" "ru_live S i = set cs"
proof -
  show px: "p_xid (ru_proc S i) = x" using sessD(6) [OF assms(1)] by simp
  show X: "xact_of S i = insert x (set cs)" using sessD(3) [OF assms(1)] assms(2) by simp
  have "x \<notin> set cs" using sessD(4) [OF assms(1)] assms(2) by auto
  moreover have "x \<notin> ru_live S i"
    using run_inv_procs [OF sessD(1,2) [OF assms(1)]] assms(2) px by (auto simp: proc_inv_def)
  ultimately show "ru_live S i = set cs" using X assms(2) px insert_ident [of x "ru_live S i" "set cs"] by (simp add: xact_of_def)
qed

lemma sess_ended:
  assumes "sess base i S K c" "run_step base S1 S'" "later base S S1" "i \<in> ru_procs S'" "xact_of S' i = {}"
    and "vc_xidStopLimit (xg_cache (ru_gen S1)) = vc_xidStopLimit (xg_cache (ru_gen S))"
    and "vc_xidVacLimit (xg_cache (ru_gen S1)) = vc_xidVacLimit (xg_cache (ru_gen S))"
  shows "sess base i S' [] c"
proof -
  have "later base S1 S'" using run_step_later [OF assms(2)] assms(3) by (simp add: later_def)
  then have "later base S S'" using later_trans assms(3) by blast
  then have "run_inv base S'" "TransactionIdIsNormal c \<longrightarrow> assigned base S' c"
    using sessD(9) [OF assms(1)] by (auto simp: later_def)
  then show ?thesis
    unfolding sess_def using assms(4-7) run_step_limits [OF assms(2)] sessD(10,11) [OF assms(1)] by simp
qed

lemma End_procs: "ru_procs (S\<lparr>ru_gen := g, ru_live := l, ru_aborted := ab\<rparr>) = ru_procs S" "ru_procs (S\<lparr>ru_gen := g, ru_live := l\<rparr>) = ru_procs S"
  "ru_procs (S\<lparr>ru_gen := g\<rparr>) = ru_procs S"
  by (simp_all add: ru_procs_def)

lemma End_xact:
  assumes "TransactionIdIsValid latest" "xg_procs (ru_gen S') = xg_procs (ProcArrayEndTransaction i latest g)"
  shows "xact_of S' i = {}"
  using assms by (simp add: xact_of_def ru_proc_def ProcArrayEndTransaction_def clear_xids_def clear_transaction_def valid_not_0 InvalidTransactionId_def)

lemma Latest_valid:
  assumes "sess base i S [(x, cs)] c" "TransactionIdIsValid x"
  shows "TransactionIdIsValid (TransactionIdLatest x cs)"
proof -
  have w: "\<forall>y \<in> insert x (set (rev cs)). in_window base y"
    using sess_xact_assigned [OF assms(1)] sess_top(2) [OF assms] by (auto simp: assigned_def)
  then have "TransactionIdLatest x cs \<in> insert x (set (rev cs))"
    using latest_foldl [of x "rev cs" base] unfolding TransactionIdLatest_def by (simp add: in_window_def)
  then show ?thesis using w window_valid by blast
qed

lemma sess_report:
  assumes "sess base i S K c" "clog_wf clog" "\<forall>y. y \<notin> xact_of S i \<longrightarrow> clog_status clog y = ru_status S y"
  defines "S1 \<equiv> S\<lparr>ru_gen := (ru_gen S)\<lparr>xg_clog := clog\<rparr>\<rparr>"
  shows "run_step base S S1" "later base S S1" "xact_of S1 i = xact_of S i" "ru_procs S1 = ru_procs S" "run_inv base S1"
proof -
  show r: "run_step base S S1" unfolding S1_def by (rule run_step.report) (use assms sessD(2) [OF assms(1)] in auto)
  show l: "later base S S1" by (rule run_step_later [OF r sessD(1) [OF assms(1)]])
  show "run_inv base S1" using l by (simp add: later_def)
qed (simp_all add: S1_def xact_of_def ru_proc_def ru_procs_def)

lemma sess_finish:
  assumes "sess base i S [(x, cs)] c" "\<not> TransactionIdIsValid x"
  obtains S' where "ru_gen S' = ProcArrayEndTransaction i InvalidTransactionId (ru_gen S)" "sess base i S' [] c" "aborts_only base i S S'"
    "xact_of S i = {}"
proof
  let ?S = "S\<lparr>ru_gen := ProcArrayEndTransaction i InvalidTransactionId (ru_gen S)\<rparr>"
  have px: "\<not> TransactionIdIsValid (p_xid (ru_proc S i))" using sessD(6) [OF assms(1)] assms(2) by simp
  then show "xact_of S i = {}" by (simp add: xact_of_def)
  have r: "run_step base S ?S" using run_step.finish [OF sessD(2) [OF assms(1)] px] .
  have "xact_of ?S i = {}" using px by (simp add: xact_of_def ru_proc_def ProcArrayEndTransaction_def clear_transaction_def valid_not_0 InvalidTransactionId_def)
  then show "sess base i ?S [] c"
    using sess_ended [OF assms(1) r later_refl] sessD(1,2) [OF assms(1)] by (simp add: End_procs)
  show "aborts_only base i S ?S" using r px by (auto simp: aborts_only_def xact_of_def)
qed simp

lemma sess_abort:
  assumes "sess base i S [(x, cs)] c" "TransactionIdIsValid x"
  obtains S' where "ru_gen S' = ProcArrayEndTransaction i (TransactionIdLatest x cs)
      ((ru_gen S)\<lparr>xg_clog := TransactionIdAbortTree False x (length cs) ((!) cs) (xg_clog (ru_gen S))\<rparr>)"
    "sess base i S' [] c" "aborts_only base i S S'"
proof
  let ?clog = "TransactionIdAbortTree False x (length cs) ((!) cs) (xg_clog (ru_gen S))"
  let ?S1 = "S\<lparr>ru_gen := (ru_gen S)\<lparr>xg_clog := ?clog\<rparr>\<rparr>"
  let ?S = "?S1\<lparr>ru_gen := ProcArrayEndTransaction i (TransactionIdLatest x cs) (ru_gen ?S1), ru_live := (ru_live ?S1)(i := {}),
    ru_aborted := ru_aborted ?S1 \<union> xact_of ?S1 i\<rparr>"
  note top = sess_top [OF assms]
  have c: "clog_wf ?clog" "clog_status ?clog = (\<lambda>y. if y \<in> xact_of S i then TRANSACTION_STATUS_ABORTED else ru_status S y)"
    using report_abort [OF sess_clog_wf [OF assms(1)] assms(2), of False cs] by (simp_all add: top ru_status_def fun_eq_iff)
  note S1 = sess_report [OF assms(1) c(1), unfolded c(2), simplified]
  have px: "p_xid (ru_proc ?S1 i) = x" "ru_live ?S1 i = set cs" using top by (simp_all add: ru_proc_def)
  have r: "run_step base ?S1 ?S"
  proof -
    have "\<forall>y \<in> xact_of ?S1 i. not_committed_status (ru_status ?S1 y)"
      by (simp add: S1(3) ru_status_def c(2) not_committed_status_def)
    then show ?thesis using run_step.abort [of i ?S1 cs base] px assms(2) S1(4) sessD(2) [OF assms(1)] by simp
  qed
  have "xact_of ?S i = {}" by (rule End_xact [OF Latest_valid [OF assms]]) simp
  then show "sess base i ?S [] c"
    using sess_ended [OF assms(1) r S1(2)] sessD(2) [OF assms(1)] by (simp add: End_procs)
  show "aborts_only base i S ?S"
    unfolding aborts_only_def using S1(1,3) r by (auto intro: rtranclp.rtrancl_into_rtrancl)
  show "ru_gen ?S = ProcArrayEndTransaction i (TransactionIdLatest x cs) ((ru_gen S)\<lparr>xg_clog := ?clog\<rparr>)" by simp
qed

lemma sess_commit:
  assumes "sess base i S [(x, cs)] c" "TransactionIdIsValid x"
    and "clog = TransactionIdCommitTree False x (length cs) ((!) cs) (xg_clog (ru_gen S))
      \<or> clog = TransactionIdAsyncCommitTree False x (length cs) ((!) cs) lsn (xg_clog (ru_gen S))"
  obtains S' where "ru_gen S' = ProcArrayEndTransaction i (TransactionIdLatest x cs) ((ru_gen S)\<lparr>xg_clog := clog\<rparr>)"
    "sess base i S' [] c" "(run_step base)\<^sup>*\<^sup>* S S'" "xact_of S i \<subseteq> committed base S'"
proof
  let ?S1 = "S\<lparr>ru_gen := (ru_gen S)\<lparr>xg_clog := clog\<rparr>\<rparr>"
  let ?S = "?S1\<lparr>ru_gen := ProcArrayEndTransaction i (TransactionIdLatest x cs) (ru_gen ?S1), ru_live := (ru_live ?S1)(i := {})\<rparr>"
  note top = sess_top [OF assms(1,2)]
  have c: "clog_wf clog" "clog_status clog = (\<lambda>y. if y \<in> xact_of S i then TRANSACTION_STATUS_COMMITTED else ru_status S y)"
    using report_commit [OF sess_clog_wf [OF assms(1)] assms(2,3)] by (simp_all add: top ru_status_def fun_eq_iff)
  note S1 = sess_report [OF assms(1) c(1), unfolded c(2), simplified]
  have px: "p_xid (ru_proc ?S1 i) = x" "ru_live ?S1 i = set cs" using top by (simp_all add: ru_proc_def)
  have st: "\<forall>y \<in> xact_of ?S1 i. ru_status ?S1 y = TRANSACTION_STATUS_COMMITTED" by (simp add: S1(3) ru_status_def c(2))
  have i1: "i \<in> ru_procs ?S1" using S1(4) sessD(2) [OF assms(1)] by simp
  have r: "run_step base ?S1 ?S" using run_step.commit [of i ?S1 cs base] px assms(2) i1 st by simp
  have "xact_of ?S i = {}" by (rule End_xact [OF Latest_valid [OF assms(1,2)]]) simp
  then show "sess base i ?S [] c"
    using sess_ended [OF assms(1) r S1(2)] sessD(2) [OF assms(1)] by (simp add: End_procs)
  show "(run_step base)\<^sup>*\<^sup>* S ?S" using S1(1) r by (auto intro: rtranclp.rtrancl_into_rtrancl)
  show "xact_of S i \<subseteq> committed base ?S"
  proof
    fix y assume y: "y \<in> xact_of S i"
    have "running ?S = running ?S1 - xact_of ?S1 i"
      using run_inv_end [OF S1(5) i1, of cs "ru_aborted ?S1"] px assms(2) st by simp
    then have "y \<notin> running ?S" using y S1(3) by simp
    moreover have "assigned base ?S y"
      using sess_xact_assigned [OF assms(1) y] by (simp add: assigned_def ru_next_def ProcArrayEndTransaction_def advance_latestCompletedXid_def)
    moreover have "y \<notin> ru_aborted ?S"
    proof -
      have "y \<in> running S" using y sessD(2) [OF assms(1)] by (auto simp: running_def)
      then show ?thesis using sessD(1) [OF assms(1)] by (auto simp: run_inv_def logs_inv_def)
    qed
    ultimately show "y \<in> committed base ?S" by (simp add: committed_def)
  qed
  show "ru_gen ?S = ProcArrayEndTransaction i (TransactionIdLatest x cs) ((ru_gen S)\<lparr>xg_clog := clog\<rparr>)" by simp
qed

text \<open>A subtransaction with its committed children is closed under children.\<close>

lemma linked_closed:
  assumes "linked par K" "y \<in> set (stack_xids K)" "K \<noteq> []" "y \<noteq> fst (last K)"
  shows "par y \<in> set (stack_xids K)"
  using assms
proof (induction K)
  case (Cons k K)
  obtain x cs where k: "k = (x, cs)" by (cases k)
  show ?case
  proof (cases "y \<in> set (stack_xids K)")
    case True
    then show ?thesis using Cons by (cases "K = []") (auto simp: k)
  next
    case False
    then have v: "TransactionIdIsValid x" and y: "y = x \<or> y \<in> set cs" using Cons.prems(2) by (cases "TransactionIdIsValid x"; auto simp: k)+
    show ?thesis
    proof (cases "y \<in> set cs")
      case True
      then show ?thesis using Cons.prems(1) v by (auto simp: k)
    next
      case False
      then have "K \<noteq> []" "y = x" using y Cons.prems(4) by (auto simp: k)
      then obtain z ds K' where "K = (z, ds) # K'" by (metis list.exhaust surj_pair)
      then show ?thesis using Cons.prems(1) v \<open>y = x\<close> by (auto simp: k)
    qed
  qed
qed simp

lemma sess_sub:
  assumes "sess base i S ((x, cs) # K) c" "TransactionIdIsValid x" "K \<noteq> []"
  shows "insert x (set cs) \<subseteq> ru_live S i" "\<forall>y \<in> ru_live S i. ru_parent S y \<in> insert x (set cs) \<longrightarrow> y \<in> insert x (set cs)"
    "set (stack_xids K) = xact_of S i - insert x (set cs)" "TransactionIdIsValid (p_xid (ru_proc S i))" "p_xid (ru_proc S i) \<in> set (stack_xids K)"
proof -
  note inv = sessD [OF assms(1)]
  have X: "xact_of S i = set (stack_xids K) \<union> insert x (set cs)" using inv(3) assms(2) by auto
  have disj: "set (stack_xids K) \<inter> insert x (set cs) = {}" using inv(4) assms(2) by (force simp: sorted_wrt_append)
  have px: "p_xid (ru_proc S i) = fst (last K)" using inv(6) assms(3) by simp
  show v: "TransactionIdIsValid (p_xid (ru_proc S i))" using X xact_of_valid by blast
  obtain y ds K' where last: "K = K' @ [(y, ds)]" using assms(3) by (metis append_butlast_last_id surj_pair)
  show top: "p_xid (ru_proc S i) \<in> set (stack_xids K)" using v px by (simp add: last stack_xids_def)
  show "insert x (set cs) \<subseteq> ru_live S i"
  proof
    fix y assume y: "y \<in> insert x (set cs)"
    then have "y \<in> xact_of S i" "y \<noteq> p_xid (ru_proc S i)" using X top disj by auto
    then show "y \<in> ru_live S i" using v by (simp add: xact_of_def)
  qed
  show "set (stack_xids K) = xact_of S i - insert x (set cs)" using X disj by blast
  show "\<forall>y \<in> ru_live S i. ru_parent S y \<in> insert x (set cs) \<longrightarrow> y \<in> insert x (set cs)"
  proof (intro ballI impI)
    fix y assume y: "y \<in> ru_live S i" "ru_parent S y \<in> insert x (set cs)"
    have "y \<in> xact_of S i" using y(1) v by (simp add: xact_of_def)
    moreover have "y \<noteq> p_xid (ru_proc S i)" using y(1) run_inv_procs [OF inv(1,2)] v by (auto simp: proc_inv_def)
    moreover have "linked (ru_parent S) K" using inv(5) by simp
    ultimately show "y \<in> insert x (set cs)" using linked_closed [of "ru_parent S" K y] y(2) disj X px assms(3) by auto
  qed
qed

lemma XidCacheRemove_frame:
  "xg_sub (XidCacheRemoveRunningXids i x cs l g) = xg_sub g" "xg_clog (XidCacheRemoveRunningXids i x cs l g) = xg_clog g"
  "p_xid (xg_procs (XidCacheRemoveRunningXids i x cs l g) i) = p_xid (xg_procs g i)"
  by (simp_all add: XidCacheRemoveRunningXids_def Let_def)

lemma sess_subabort:
  assumes "sess base i S ((x, cs) # K) c" "TransactionIdIsValid x" "K \<noteq> []"
  obtains S' where "ru_gen S' = XidCacheRemoveRunningXids i x cs (TransactionIdLatest x cs)
      ((ru_gen S)\<lparr>xg_clog := TransactionIdAbortTree False x (length cs) ((!) cs) (xg_clog (ru_gen S))\<rparr>)"
    "sess base i S' K c" "aborts_only base i S S'"
proof
  let ?clog = "TransactionIdAbortTree False x (length cs) ((!) cs) (xg_clog (ru_gen S))" and ?D = "insert x (set cs)"
  let ?S1 = "S\<lparr>ru_gen := (ru_gen S)\<lparr>xg_clog := ?clog\<rparr>\<rparr>"
  let ?S = "?S1\<lparr>ru_gen := XidCacheRemoveRunningXids i x cs (TransactionIdLatest x cs) (ru_gen ?S1),
    ru_live := (ru_live ?S1)(i := ru_live ?S1 i - ?D), ru_aborted := ru_aborted ?S1 \<union> ?D\<rparr>"
  note inv = sessD [OF assms(1)] and sub = sess_sub [OF assms]
  have c: "clog_wf ?clog" "clog_status ?clog = (\<lambda>y. if y \<in> ?D then TRANSACTION_STATUS_ABORTED else ru_status S y)"
    using report_abort [OF sess_clog_wf [OF assms(1)] assms(2), of False cs] by (simp_all add: ru_status_def fun_eq_iff)
  have "\<forall>y. y \<notin> xact_of S i \<longrightarrow> clog_status ?clog y = ru_status S y" using sub(1,4) by (auto simp: c(2) xact_of_def)
  note S1 = sess_report [OF assms(1) c(1) this]
  have r: "run_step base ?S1 ?S"
    using run_step.subabort [of i ?S1 x cs base] sub(1,2) S1(4) inv(2)
    by (simp add: ru_status_def c(2) not_committed_status_def ru_parent_def)
  have l: "later base S ?S" using later_trans [OF S1(2) run_step_later [OF r S1(5)]] .
  have X: "xact_of ?S i = set (stack_xids K)"
    using sub(3-5) run_inv_procs [OF inv(1,2)] by (auto simp: xact_of_def ru_proc_def XidCacheRemove_frame)
  show ao: "aborts_only base i S ?S"
    unfolding aborts_only_def X using S1(1) r sub(3) by (auto intro: rtranclp.rtrancl_into_rtrancl)
  show "sess base i ?S K c"
    unfolding sess_def X
  proof (intro conjI)
    show "run_inv base ?S" "TransactionIdIsNormal c \<longrightarrow> assigned base ?S c" using l inv(9) by (auto simp: later_def)
    show "i \<in> ru_procs ?S" using inv(2) by (simp add: ru_procs_def)
    show "in_window base (vc_xidStopLimit (xg_cache (ru_gen ?S)))" "in_window base (vc_xidVacLimit (xg_cache (ru_gen ?S)))"
      using run_steps_limits [of base S ?S] ao inv(10,11) unfolding aborts_only_def by (metis, metis)
    show "linked (ru_parent ?S) K"
      by (rule linked_cong [of _ _ "ru_parent S"]) (use inv(5) in \<open>simp_all add: ru_parent_def XidCacheRemove_frame\<close>)
    show "sorted_wrt (\<lambda>x y. xid_age base x < xid_age base y) (stack_xids K)" using inv(4) by (simp add: sorted_wrt_append)
    show "K \<noteq> [] \<longrightarrow> p_xid (ru_proc ?S i) = fst (last K)" using inv(6) assms(3) by (simp add: ru_proc_def XidCacheRemove_frame)
    show "\<forall>y \<in> set (stack_xids K). ru_status ?S y = TRANSACTION_STATUS_IN_PROGRESS"
      using inv(7) sub(3) by (auto simp: ru_status_def XidCacheRemove_frame c(2))
    show "c \<notin> set (stack_xids K)" using inv(8) sub(3) by blast
  qed simp
  show "ru_gen ?S = XidCacheRemoveRunningXids i x cs (TransactionIdLatest x cs) ((ru_gen S)\<lparr>xg_clog := ?clog\<rparr>)" by simp
qed

section \<open>Operations of a session on the server\<close>

definition others_ok :: "TransactionId \<Rightarrow> nat \<Rightarrow> (XidGen \<Rightarrow> XidGen) \<Rightarrow> bool" where
  "others_ok base i others \<longleftrightarrow> (\<forall>S. run_inv base S \<and> i \<in> ru_procs S
       \<and> xid_age base (ru_next S) < xid_age base (vc_xidStopLimit (xg_cache (ru_gen S)))
     \<longrightarrow> (\<exists>S'. ru_gen S' = others (ru_gen S) \<and> others_run base i S S'
            \<and> xid_age base (ru_next S') < xid_age base (vc_xidStopLimit (xg_cache (ru_gen S')))))"

text \<open>
  A backend under the postmaster: while it has released the lock to warn about the wraparound limit, other processes take steps of
  their own that stay below the stop limit.
\<close>

definition env_ok :: "TransactionId \<Rightarrow> nat \<Rightarrow> SessionEnv \<Rightarrow> bool" where
  "env_ok base i env \<longleftrightarrow> sv_MyProc env = i \<and> \<not> IsBootstrapProcessingMode (sv_mode env) \<and> IsUnderPostmaster (sv_mode env)
     \<and> others_ok base i (sv_others env)"

text \<open>The session and the server agree.\<close>

definition conn :: "TransactionId \<Rightarrow> nat \<Rightarrow> Running \<Rightarrow> Session \<Rightarrow> bool" where
  "conn base i S se \<longleftrightarrow> ru_gen S = se_gen se \<and> sess base i S (entries (se_stack se)) (cachedFetchXid (se_fetch se))"

definition same_session :: "Session \<Rightarrow> Session \<Rightarrow> bool" where
  "same_session se se1 \<longleftrightarrow> se_fetch se1 = se_fetch se \<and> xact_started se1 = xact_started se \<and> se_tags se1 = se_tags se"

lemma same_session_refl [simp]: "same_session se se"
  by (simp add: same_session_def)

lemma same_session_trans: "same_session se se1 \<Longrightarrow> same_session se1 se2 \<Longrightarrow> same_session se se2"
  by (simp add: same_session_def)

text \<open>What the state machine looks at in a state.\<close>

definition shape :: "TransactionStateData \<Rightarrow> string option \<times> int \<times> TransState \<times> TBlockState \<times> bool" where
  "shape s = (ts_name s, ts_savepointLevel s, ts_state s, ts_blockState s, ts_curTransactionOwner s)"

lemma Advance_below:
  assumes "TransactionIdIsNormal base" "in_window base n" "in_window base m" "xid_age base n < xid_age base m"
  shows "in_window base (TransactionIdAdvance n)"
  using age_less_Advance(2) [OF assms(1-3)] assms(2-4) by (auto simp: in_window_def)

lemma GetNewTransactionId_run:
  assumes "env_ok base i env" "sess base i S K c"
    and "GetNewTransactionId (sv_mode env) isSub i (sv_others env) (ru_gen S) = (r, ns, g)"
  shows "(\<exists>e. r = Inl e \<and> g = ru_gen S)
    \<or> (\<exists>xid S1. r = Inr xid \<and> others_run base i S S1 \<and> assign_xid isSub i (ru_gen S1) = (xid, g) \<and> in_window base (vc_nextXid (xg_cache g)))"
proof -
  let ?vc = "xg_cache (ru_gen S)"
  have n: "TransactionIdIsNormal base" "in_window base (ru_next S)" using sessD(1) [OF assms(2)] by (simp_all add: run_inv_def logs_inv_def)
  note lim = sessD(10,11) [OF assms(2)]
  have adv: "in_window base (vc_nextXid (xg_cache g))"
    if "assign_xid isSub i (ru_gen S1) = (xid, g)" "in_window base (ru_next S1)" "in_window base m" "xid_age base (ru_next S1) < xid_age base m" for S1 xid m
  proof -
    have "vc_nextXid (xg_cache g) = TransactionIdAdvance (ru_next S1)" using that(1) by (auto simp: assign_xid_def Let_def ru_next_def)
    then show ?thesis using Advance_below [OF n(1) that(2-4)] by simp
  qed
  have env: "\<not> IsBootstrapProcessingMode (sv_mode env)" "IsUnderPostmaster (sv_mode env)" "others_ok base i (sv_others env)"
    using assms(1) by (simp_all add: env_ok_def)
  consider (refused) e where "r = Inl e" "g = ru_gen S"
    | (below) xid where "r = Inr xid" "\<not> past_xidVacLimit ?vc" "assign_xid isSub i (ru_gen S) = (xid, g)"
    | (warned) xid where "r = Inr xid" "\<not> TransactionIdFollowsOrEquals (vc_nextXid ?vc) (vc_xidStopLimit ?vc)"
        "assign_xid isSub i (sv_others env (ru_gen S)) = (xid, g)"
    using assms(3) env(1,2) unfolding GetNewTransactionId_def check_xid_limits_def
    by (auto simp: Let_def split: if_splits prod.splits)
  then show ?thesis
  proof cases
    case below
    have "others_run base i S S" using sessD(2) [OF assms(2)] by (simp add: others_run_def)
    moreover have "xid_age base (ru_next S) < xid_age base (vc_xidVacLimit ?vc)"
      using below(2) window_precedes(3) [OF n(2) lim(2)] by (simp add: past_xidVacLimit_def ru_next_def)
    ultimately show ?thesis using below adv [OF below(3) n(2) lim(2)] by blast
  next
    case warned
    have "xid_age base (ru_next S) < xid_age base (vc_xidStopLimit ?vc)"
      using warned(2) window_precedes(3) [OF n(2) lim(1)] by (simp add: ru_next_def)
    then obtain S1 where S1: "ru_gen S1 = sv_others env (ru_gen S)" "others_run base i S S1"
      "xid_age base (ru_next S1) < xid_age base (vc_xidStopLimit (xg_cache (ru_gen S1)))"
      using env(3) sessD(1,2) [OF assms(2)] unfolding others_ok_def by blast
    have s1: "sess base i S1 K c" by (rule sess_others [OF S1(2) assms(2)])
    have "in_window base (ru_next S1)" using sessD(1) [OF s1] by (simp add: run_inv_def logs_inv_def)
    then show ?thesis using warned adv [of S1 xid] S1 sessD(10) [OF s1] by auto
  qed blast
qed

lemma entry_invalid:
  assumes "sess base i S (entry s # K) c" "\<not> TransactionIdIsValid (ts_transactionId s)"
  shows "entry s = (InvalidTransactionId, [])"
  using sessD(5) [OF assms(1)] assms(2) by (simp add: entry_def valid_not_0 InvalidTransactionId_def)

lemma entry_shape_simps [simp]:
  "entry (s\<lparr>ts_transactionId := x\<rparr>) = (x, ts_childXids s)" "shape (s\<lparr>ts_transactionId := x\<rparr>) = shape s"
  "entry (s\<lparr>ts_childXids := cs\<rparr>) = (ts_transactionId s, cs)" "shape (s\<lparr>ts_childXids := cs\<rparr>) = shape s"
  "entry (s\<lparr>ts_blockState := b\<rparr>) = entry s" "entry (s\<lparr>ts_state := st\<rparr>) = entry s" "entry (s\<lparr>ts_name := nm\<rparr>) = entry s"
  "entry (s\<lparr>ts_savepointLevel := l\<rparr>) = entry s" "entry (s\<lparr>ts_curTransactionOwner := ow\<rparr>) = entry s"
  by (simp_all add: entry_def shape_def)

lemma not_valid_Invalid [simp]: "\<not> TransactionIdIsValid InvalidTransactionId"
  by (simp add: TransactionIdIsValid_def)

text \<open>One new identifier, for the top-level transaction or for a subtransaction whose parent has one.\<close>

lemma assign_one:
  assumes "env_ok base i env" "sess base i S ((InvalidTransactionId, []) # map entry ps) c"
    and "ps \<noteq> [] \<Longrightarrow> TransactionIdIsValid (ts_transactionId (hd ps))"
    and "GetNewTransactionId (sv_mode env) (ps \<noteq> []) i (sv_others env) (ru_gen S) = (Inr xid, ns, g)"
  defines "g' \<equiv> if ps \<noteq> [] then g\<lparr>xg_sub := SubTransSetParent xid (ts_transactionId (hd ps)) (xg_sub g)\<rparr> else g"
  shows "TransactionIdIsValid xid \<and> (\<exists>S'. ru_gen S' = g' \<and> sess base i S' ((xid, []) # map entry ps) c \<and> aborts_only base i S S')"
proof -
  obtain S2 where S2: "others_run base i S S2" "assign_xid (ps \<noteq> []) i (ru_gen S2) = (xid, g)" "in_window base (vc_nextXid (xg_cache g))"
    using GetNewTransactionId_run [OF assms(1,2,4)] by blast
  have s2: "sess base i S2 ((InvalidTransactionId, []) # map entry ps) c" by (rule sess_others [OF S2(1) assms(2)])
  have "\<exists>S3. ru_gen S3 = g' \<and> sess base i S3 ((xid, []) # map entry ps) c \<and> aborts_only base i S2 S3"
  proof (cases "ps = []")
    case True
    then show ?thesis using sess_assign_top [OF _ not_valid_Invalid _ S2(3)] s2 S2(2) by (simp add: g'_def)
  next
    case False
    then have h: "fst (hd (map entry ps)) = ts_transactionId (hd ps)" by (simp add: list.map_sel entry_def)
    then show ?thesis using sess_assign_sub [OF s2 not_valid_Invalid _ _ _ S2(3)] S2(2) False assms(3) by (auto simp: g'_def)
  qed
  then obtain S3 where S3: "ru_gen S3 = g'" "sess base i S3 ((xid, []) # map entry ps) c" "aborts_only base i S2 S3" by blast
  have "xid = ru_next S2" using S2(2) by (auto simp: assign_xid_def Let_def ru_next_def)
  then have "TransactionIdIsValid xid" using sessD(1) [OF s2] window_valid by (auto simp: run_inv_def logs_inv_def)
  then show ?thesis using S3 aborts_only_trans [OF others_aborts_only [OF S2(1)] S3(3) sessD(1) [OF s2]] by blast
qed

lemma AssignTransactionId_run:
  assumes "env_ok base i env" "AssignTransactionId env st se = (r, st', se1)" "ru_gen S = se_gen se" "sess base i S (map entry st) c"
  shows "\<exists>S'. aborts_only base i S S' \<and> ru_gen S' = se_gen se1 \<and> sess base i S' (map entry st') c \<and> same_session se se1
    \<and> map shape st' = map shape st \<and> (case r of Inl x \<Rightarrow> \<exists>e. x = XError e | Inr _ \<Rightarrow> st \<noteq> [] \<longrightarrow> TransactionIdIsValid (ts_transactionId (hd st')))"
  using assms(2-)
proof (induction st arbitrary: r st' se1 S)
  case Nil
  then show ?case by (intro exI [of _ S]) auto
next
  case (Cons s ps)
  have i: "sv_MyProc env = i" using assms(1) by (simp add: env_ok_def)
  show ?case
  proof (cases "TransactionIdIsValid (ts_transactionId s)")
    case True
    then show ?thesis using Cons.prems by (intro exI [of _ S]) auto
  next
    case False
    have e: "entry s = (InvalidTransactionId, [])" using entry_invalid Cons.prems(3) False by simp
    obtain r1 ps1 se2 where rec: "AssignTransactionId env ps se = (r1, ps1, se2)" by (metis prod_cases3)
    have "sess base i S (map entry ps) c"
      using sess_pop [of base i S _ _ "map entry ps" c] Cons.prems(3) e sess_idle by (cases "ps = []") simp_all
    from Cons.IH [OF rec Cons.prems(2) this] obtain S1 where S1: "aborts_only base i S S1" "ru_gen S1 = se_gen se2"
      "sess base i S1 (map entry ps1) c" "same_session se se2" "map shape ps1 = map shape ps"
      "case r1 of Inl x \<Rightarrow> \<exists>e. x = XError e | Inr _ \<Rightarrow> ps \<noteq> [] \<longrightarrow> TransactionIdIsValid (ts_transactionId (hd ps1))" by blast
    have len: "ps1 = [] \<longleftrightarrow> ps = []" using S1(5) by (metis map_is_Nil_conv)
    have s1: "sess base i S1 ((InvalidTransactionId, []) # map entry ps1) c"
      using sess_push [OF S1(3)] S1(3) sess_idle by (cases "ps1 = []") simp_all
    obtain r2 ns g where new: "GetNewTransactionId (sv_mode env) (ps1 \<noteq> []) i (sv_others env) (ru_gen S1) = (r2, ns, g)" by (metis prod_cases3)
    consider (early) x where "r1 = Inl x" | (late) x where "r1 = Inr ()" "r2 = Inl x" | (assigned) xid where "r1 = Inr ()" "r2 = Inr xid"
      by (cases r1; cases r2) auto
    then show ?thesis
    proof cases
      case early
      then show ?thesis using Cons.prems(1) False rec S1 s1 e by (intro exI [of _ S1]) auto
    next
      case late
      then have "g = ru_gen S1" using GetNewTransactionId_run [OF assms(1) s1 new] by auto
      then have "r = Inl (XError x)" "st' = s # ps1" "se1 = se2" using Cons.prems(1) False rec new late S1(2) i by auto
      then show ?thesis using S1 s1 e by (intro exI [of _ S1]) simp
    next
      case assigned
      then have "ps1 \<noteq> [] \<Longrightarrow> TransactionIdIsValid (ts_transactionId (hd ps1))" using S1(6) len by simp
      from assign_one [OF assms(1) s1 this, of xid ns g] new assigned obtain S3 where S3: "TransactionIdIsValid xid"
        "ru_gen S3 = (if ps1 \<noteq> [] then g\<lparr>xg_sub := SubTransSetParent xid (ts_transactionId (hd ps1)) (xg_sub g)\<rparr> else g)"
        "sess base i S3 ((xid, []) # map entry ps1) c" "aborts_only base i S1 S3" by auto
      have out: "r = Inr ()" "st' = s\<lparr>ts_transactionId := xid\<rparr> # ps1" "se_gen se1 = ru_gen S3" "same_session se2 se1"
        using Cons.prems(1) False rec new assigned S1(2) i S3(2)
        by (auto simp: XactRecord_assignment_def same_session_def Let_def split: if_splits)
      moreover have "ts_childXids s = []" using e by (simp add: entry_def)
      moreover have "aborts_only base i S S3" using aborts_only_trans [OF S1(1) S3(4) sessD(1) [OF s1]] .
      ultimately show ?thesis
        using S3(1,3) S1(5) same_session_trans [OF S1(4) out(4)] by (intro exI [of _ S3]) simp
    qed
  qed
qed

end
