(* ===== verification/Spec2Isabelle.thy ===== *)
theory Spec2Isabelle
  imports Bitmapset Freespace Xact_Status Tuner_Master Mvcc Xact_Entries
begin

text \<open>
  \<^bold>\<open>PostgreSQL 9.1.4 with hypothetical indexes, and an index tuner.\<close>
  The repository holds a PostgreSQL server (\<^verbatim>\<open>src/postgresql-9.1.4\<close>, in C) that was extended with
  hypothetical indexes, which exist in the catalogs only and are seen by the planner only under
  \<^verbatim>\<open>EXPLAIN HYPOTHETICAL\<close>, and a tuner (\<^verbatim>\<open>src/PostgreSQL_index_tuning\<close>, in Java) that creates and
  drops such indexes over a connection, reads the estimated costs, and recommends indexes.  Paths
  below are relative to \<^verbatim>\<open>src/postgresql-9.1.4/src\<close> and to the Java package.

  \<^bold>\<open>Parts and how they interact.\<close>
  The tuner sends index commands to the server; the server's catalog code carries them out and its
  planner reads the catalogs.  Below that lies the transaction system: identifiers are assigned
  (\<^verbatim>\<open>varsup.c\<close>), advertised in the array of processes (\<^verbatim>\<open>procarray.c\<close>), their outcomes are written
  to the commit log (\<^verbatim>\<open>clog.c\<close>) with the parents of subtransactions in another log (\<^verbatim>\<open>subtrans.c\<close>),
  and the visibility of tuples (\<^verbatim>\<open>tqual.c\<close>) is decided from snapshots of the array and from the
  logs.  The free space map, bitmap sets and hash functions are used all over the server.

  \<^bold>\<open>Theories and sources.\<close>
  \<^item> PG_Prelude: C integers as words, errors of \<^verbatim>\<open>elog\<close> and \<^verbatim>\<open>ereport\<close> as values of \<open>pg_error + 'a\<close>,
    bytes in memory, shared lemmas.
  \<^item> Hash_Func: \<^verbatim>\<open>access/hash/hashfunc.c\<close>, \<^verbatim>\<open>utils/hash/hashfn.c\<close>.  The code paths of \<^verbatim>\<open>hash_any\<close> for aligned and
    unaligned keys agree.
  \<^item> Bitmapset: \<^verbatim>\<open>nodes/bitmapset.c\<close>.  Every operation refines the operation on finite sets of
    integers; the locale \<open>integer_set\<close> states the contract and is interpreted on the operations.
  \<^item> Fsm_Page and Freespace: \<^verbatim>\<open>storage/freespace/fsmpage.c\<close>, \<^verbatim>\<open>freespace.c\<close>.  The heap invariant of a map page,
    which slot a search finds, and soundness and completeness of searches through the tree of pages.
  \<^item> Transam, Clog, Subtrans, Xact_Status: \<^verbatim>\<open>access/transam/transam.c\<close>, \<^verbatim>\<open>clog.c\<close>, \<^verbatim>\<open>subtrans.c\<close>.  Circular comparison of
    identifiers, two status bits per transaction, parent links; a commit of a transaction with its
    subtransactions is atomic for readers at every point between page updates, outcomes are never
    changed, and the question whether a transaction committed is decided.  The locale \<open>outcome_log\<close>
    is the contract of the log towards its readers.
  \<^item> Varsup: \<^verbatim>\<open>access/transam/varsup.c\<close> and the counters of \<^verbatim>\<open>xlog.c\<close>.  Identifiers are fresh and never wrap around the oldest
    one in use; object identifiers are not reissued across checkpoints and crashes, unless some are logged while an
    online checkpoint is between reading the counter and writing its record.
  \<^item> Known_Assigned: the part of \<^verbatim>\<open>storage/ipc/procarray.c\<close> for standby servers, an array refining a list of identifiers.
  \<^item> Xact_State: the stack of transaction states in \<^verbatim>\<open>access/transam/xact.c\<close>.
  \<^item> Procarray: the rest of \<^verbatim>\<open>procarray.c\<close>: snapshots, the in-progress test, the oldest identifier still needed.
  \<^item> Tqual: \<^verbatim>\<open>utils/time/tqual.c\<close>, \<^verbatim>\<open>combocid.c\<close>: the test functions for tuples with their hint bits.
  \<^item> Visibility, Snapshots, Mvcc: the server as a transition system \<open>run_step\<close> over the functions above, and its invariant
    \<open>run_inv\<close>.  From the invariant: a snapshot holds exactly the transactions that were running, the in-progress test is
    exact (up to one cache effect that is stated), \<^verbatim>\<open>HeapTupleSatisfiesMVCC\<close> shows a reader exactly what had been
    committed when its snapshot was taken, and vacuum removes only what no reader can see.
  \<^item> Xact_Block: the state machine of transaction blocks and savepoints in \<^verbatim>\<open>access/transam/xact.c\<close>, the transaction statements of
    \<^verbatim>\<open>tcop/utility.c\<close> and the simple query protocol of \<^verbatim>\<open>tcop/postgres.c\<close>, as a state-and-exception monad over the stack of states.
  \<^item> Xact_Entries: that stack as a process of the running server: assigning identifiers, committing and aborting transactions and
    subtransactions are steps of the server that keep the stack and the server in agreement.
  \<^item> Hypo_Planner: \<^verbatim>\<open>parser/gram.y\<close>, \<^verbatim>\<open>parser/analyze.c\<close>, \<^verbatim>\<open>commands/explain.c\<close>, \<^verbatim>\<open>optimizer/util/plancat.c\<close>,
    \<^verbatim>\<open>executor/execUtils.c\<close> as far as hypothetical indexes go: no executed statement uses one, and their estimated size.
  \<^item> Hypo_Catalog: \<^verbatim>\<open>commands/indexcmds.c\<close>, \<^verbatim>\<open>catalog/index.c\<close>, \<^verbatim>\<open>commands/tablecmds.c\<close> and others: commands on the
    catalogs never build a hypothetical index; the locale \<open>hyp_index_server\<close> is the contract towards the tuner.
  \<^item> Tuner_Index, Tuner_Search, Tuner_Partition, Tuner_Master: the Java classes \<^verbatim>\<open>Index\<close>, \<^verbatim>\<open>DBConnection\<close>, \<^verbatim>\<open>AdminDB\<close>,
    \<^verbatim>\<open>IndexTuner\<close>, \<^verbatim>\<open>IndexExtraction\<close>, \<^verbatim>\<open>Partitioner\<close>, \<^verbatim>\<open>Master\<close>.  The configuration simulated on the server is the
    one asked for; what the search returns and when the partitioning returns; the work function of the online tuner.

  \<^bold>\<open>Conventions.\<close>
  Machine integers are words where the code relies on their width.  A pointer that may be null is an option.  Shared
  memory is a record that functions take and return; a function that holds its lock throughout is one step, and a
  place where the lock is released is a point where a parameter (other backends) may change the state.  Java objects
  compared by identity live in a heap of addresses.  A thrown exception keeps the state changes made before it.  Code
  outside the repository (the SQL parser, JDBC, iteration order of hash tables) and code of the server that is not modelled
  (names of databases, prepared transactions) are arguments of the definitions.

  \<^bold>\<open>Loops and bounds.\<close>
  No definition uses fuel.  Loops that always end are functions with a termination measure; loops that may not
  end (following parents in the subtransaction log, merging partitions, restarting a search in a corrupt map page,
  starting up the subtransaction log) are partial functions with value None for not returning, and
  the theorems on them say when a result exists.  Circular identifiers are handled by a window of \<open>2^31\<close> identifiers
  from a base; that the server never leaves it is proved, not assumed.  \<^verbatim>\<open>float\<close> and \<^verbatim>\<open>double\<close> of the tuner are real numbers.

  \<^bold>\<open>Not modelled.\<close>
  Assertions, debug output, memory contexts, and lock acquisition order have no counterpart in the definitions.
  The buffer manager and \<^verbatim>\<open>slru.c\<close> are transparent (a page is where it was written).  The contents of the write-ahead log other
  than identifier counters, replication, two-phase commit files, the multixact log, the heavyweight lock
  manager, heap and index access methods, the rest of the parser, planner and executor, the type library, procedural
  languages, client programs, build scripts and the tests are left out: they are large, do not concern
  hypothetical indexes, and the transaction properties above need nothing of them beyond the parameters named in the theories.
\<close>

end
